(* ===== verification/Prelude.thy ===== *)
theory Prelude
  imports Main "HOL-Library.Word"
begin

text \<open>
  The vocabulary the components share: C strings and bstrings as lists of
  characters, the signed order of C's \<^verbatim>\<open>char\<close>, faults that end the process,
  and generic facts on lists and options.  A \<^verbatim>\<open>bstring\<close> is the list of the
  \<^verbatim>\<open>slen\<close> bytes it holds; the terminating \<^verbatim>\<open>'\0'\<close> that bstrlib keeps behind
  them is read by \<open>cstr_hd\<close> and \<open>cstr_at\<close>.
\<close>

type_synonym bstring = string

named_theorems c_order \<open>facts on the signed character order\<close>
named_theorems tst_spec \<open>what the operations of the ternary search tree promise\<close>
named_theorems fsm_simps \<open>the transition tables of the connection state machine\<close>
named_theorems dll_simps \<open>reading a linked list through pointer updates\<close>

section \<open>Faults\<close>

text \<open>
  What ends the process rather than returning: a failed \<^verbatim>\<open>assert\<close> (the
  development build keeps them) or a read outside an object.
\<close>

datatype fault = Assert_fail | Out_of_bounds | Null_deref

type_synonym 'a cres = "fault + 'a"

fun cbind :: "'a cres \<Rightarrow> ('a \<Rightarrow> 'b cres) \<Rightarrow> 'b cres" where
  "cbind (Inl e) f = Inl e"
| "cbind (Inr a) f = f a"

lemma cbind_Inr_iff [simp]: "cbind m f = Inr b \<longleftrightarrow> (\<exists>a. m = Inr a \<and> f a = Inr b)"
  by (cases m) auto

lemma cbind_Inl_iff: "cbind m f = Inl e \<longleftrightarrow> m = Inl e \<or> (\<exists>a. m = Inr a \<and> f a = Inl e)"
  by (cases m) auto

lemma cbind_assoc: "cbind (cbind m f) g = cbind m (\<lambda>a. cbind (f a) g)"
  by (cases m) simp_all

section \<open>Characters\<close>

abbreviation NUL :: char where
  "NUL \<equiv> CHR 0x00"

text \<open>On the supported platforms \<^verbatim>\<open>char\<close> is signed: bytes from 128 on compare below 0.\<close>

definition schar :: "char \<Rightarrow> int" where
  "schar c = (let n = of_char c in if n < 128 then n else n - 256)"

definition c_lt :: "char \<Rightarrow> char \<Rightarrow> bool" where
  "c_lt a b \<longleftrightarrow> schar a < schar b"

lemma of_char_range: "(of_char c :: int) < 256" "0 \<le> (of_char c :: int)"
proof -
  have "(of_char c :: nat) < 256" by simp
  moreover have "(of_char c :: int) = int (of_char c)" by (metis of_nat_of_char)
  ultimately show "(of_char c :: int) < 256" "0 \<le> (of_char c :: int)" by linarith+
qed

lemma schar_inj: "schar a = schar b \<longleftrightarrow> a = b"
  using of_char_range [of a] of_char_range [of b]
  by (auto simp: schar_def Let_def split: if_splits)

lemma c_lt_irrefl [simp, c_order]: "\<not> c_lt a a"
  by (simp add: c_lt_def)

lemma c_lt_trans [c_order]: "c_lt a b \<Longrightarrow> c_lt b c \<Longrightarrow> c_lt a c"
  by (simp add: c_lt_def)

lemma c_lt_asym [c_order]: "c_lt a b \<Longrightarrow> \<not> c_lt b a"
  by (simp add: c_lt_def)

lemma c_lt_linear [c_order]: "\<not> c_lt a b \<Longrightarrow> a \<noteq> b \<Longrightarrow> c_lt b a"
  using schar_inj by (force simp: c_lt_def)

text \<open>\<^verbatim>\<open>*s\<close> and \<^verbatim>\<open>s[i]\<close> for a string that is terminated by \<^verbatim>\<open>'\0'\<close>.\<close>

definition cstr_hd :: "string \<Rightarrow> char" where
  "cstr_hd s = (case s of [] \<Rightarrow> NUL | c # _ \<Rightarrow> c)"

definition cstr_at :: "string \<Rightarrow> nat \<Rightarrow> char" where
  "cstr_at s i = (if i < length s then s ! i else NUL)"

lemma cstr_hd_simps [simp]: "cstr_hd [] = NUL" "cstr_hd (c # s) = c"
  by (simp_all add: cstr_hd_def)

abbreviation code :: "char \<Rightarrow> nat" where
  "code c \<equiv> of_char c"

text \<open>The \<^verbatim>\<open>ctype.h\<close> predicates in the C locale, the only one the server runs in.\<close>

definition isdigit :: "char \<Rightarrow> bool" where
  "isdigit c \<longleftrightarrow> 48 \<le> code c \<and> code c \<le> 57"

definition islower :: "char \<Rightarrow> bool" where
  "islower c \<longleftrightarrow> 97 \<le> code c \<and> code c \<le> 122"

definition isupper :: "char \<Rightarrow> bool" where
  "isupper c \<longleftrightarrow> 65 \<le> code c \<and> code c \<le> 90"

definition isalpha :: "char \<Rightarrow> bool" where
  "isalpha c \<longleftrightarrow> islower c \<or> isupper c"

definition isalnum :: "char \<Rightarrow> bool" where
  "isalnum c \<longleftrightarrow> isalpha c \<or> isdigit c"

definition iscntrl :: "char \<Rightarrow> bool" where
  "iscntrl c \<longleftrightarrow> code c < 32 \<or> code c = 127"

definition isspace :: "char \<Rightarrow> bool" where
  "isspace c \<longleftrightarrow> code c = 32 \<or> (9 \<le> code c \<and> code c \<le> 13)"

definition isxdigit :: "char \<Rightarrow> bool" where
  "isxdigit c \<longleftrightarrow> isdigit c \<or> (97 \<le> code c \<and> code c \<le> 102) \<or> (65 \<le> code c \<and> code c \<le> 70)"

definition ispunct :: "char \<Rightarrow> bool" where
  "ispunct c \<longleftrightarrow> 33 \<le> code c \<and> code c \<le> 126 \<and> \<not> isalnum c"

definition tolower :: "char \<Rightarrow> char" where
  "tolower c = (if isupper c then char_of (code c + 32) else c)"

text \<open>
  \<^verbatim>\<open>atoi\<close> is \<^verbatim>\<open>(int)strtol(s, NULL, 10)\<close>: blanks, a sign, digits; the value is
  clamped to a 64-bit \<^verbatim>\<open>long\<close> and then cut to 32 bits.
\<close>

definition digit_val :: "char \<Rightarrow> int" where
  "digit_val c = of_char c - 48"

definition digits_val :: "string \<Rightarrow> int" where
  "digits_val s = foldl (\<lambda>acc c. 10 * acc + digit_val c) 0 (takeWhile isdigit s)"

definition strtol_val :: "string \<Rightarrow> int" where
  "strtol_val s =
     (let s = dropWhile isspace s;
          v = (if cstr_hd s = CHR ''-'' then - digits_val (tl s)
               else if cstr_hd s = CHR ''+'' then digits_val (tl s) else digits_val s) in
      max (- (2 ^ 63)) (min (2 ^ 63 - 1) v))"

definition to_int32 :: "int \<Rightarrow> int" where
  "to_int32 i = (i + 2 ^ 31) mod 2 ^ 32 - 2 ^ 31"

definition atoi :: "string \<Rightarrow> int" where
  "atoi s = to_int32 (strtol_val s)"

section \<open>Lists and options\<close>

text \<open>
  The value a partial map gives to the longest of the first \<open>n\<close> prefixes of a list,
  if it gives one to any of them.
\<close>

fun best_prefix :: "('a list \<Rightarrow> 'v option) \<Rightarrow> 'a list \<Rightarrow> nat \<Rightarrow> 'v option" where
  "best_prefix m s 0 = None"
| "best_prefix m s (Suc n) =
     (case m (take (Suc n) s) of Some v \<Rightarrow> Some v | None \<Rightarrow> best_prefix m s n)"

lemma best_prefix_Some:
  "best_prefix m s n = Some v \<Longrightarrow>
   \<exists>k. 0 < k \<and> k \<le> n \<and> m (take k s) = Some v \<and> (\<forall>j. k < j \<and> j \<le> n \<longrightarrow> m (take j s) = None)"
proof (induction n)
  case (Suc n)
  show ?case
  proof (cases "m (take (Suc n) s)")
    case None
    with Suc obtain k where "0 < k" "k \<le> n" "m (take k s) = Some v"
      "\<forall>j. k < j \<and> j \<le> n \<longrightarrow> m (take j s) = None" by auto
    with None show ?thesis by (metis le_Suc_eq)
  next
    case (Some w)
    with Suc.prems show ?thesis by (auto intro!: exI [of _ "Suc n"])
  qed
qed simp

lemma best_prefix_None: "best_prefix m s n = None \<longleftrightarrow> (\<forall>j. 0 < j \<and> j \<le> n \<longrightarrow> m (take j s) = None)"
proof (induction n)
  case (Suc n)
  then show ?case by (auto split: option.splits simp: le_Suc_eq)
qed simp

lemma best_prefix_shift:
  "best_prefix m (x # s) (Suc n) =
   (case best_prefix (\<lambda>p. m (x # p)) s n of Some v \<Rightarrow> Some v | None \<Rightarrow> m [x])"
  by (induction n) (auto split: option.splits)

lemma best_prefix_cong:
  "(\<And>k. 0 < k \<Longrightarrow> k \<le> n \<Longrightarrow> m (take k s) = m' (take k s)) \<Longrightarrow> best_prefix m s n = best_prefix m' s n"
  by (induction n) (auto split: option.splits)

lemma disjoint_by:
  "(\<And>x. x \<in> A \<Longrightarrow> P x) \<Longrightarrow> (\<And>x. x \<in> B \<Longrightarrow> \<not> P x) \<Longrightarrow> A \<inter> B = {}"
  by blast

end
