(* ===== verification/Tst.thy ===== *)
theory Tst
  imports Prelude "HOL-Library.Multiset"
begin

text \<open>
  The ternary search tree of \<^verbatim>\<open>src/adt/tst.c\<close>: the node type, insertion, the exact,
  prefix and suffix searches, and the contract other components rely on.  A node is
  owned by exactly one parent, so a tree is a value; \<^verbatim>\<open>NULL\<close> is \<open>Null\<close> and a
  \<^verbatim>\<open>NULL\<close> value is \<open>None\<close>.  The \<^verbatim>\<open>root\<close> argument of the insertion only tells
  halloc which block frees the node, so it has no counterpart.  A key argument
  \<^verbatim>\<open>(s, len)\<close> is the list of the \<^verbatim>\<open>len\<close> characters at \<^verbatim>\<open>s\<close>.
\<close>

section \<open>The tree and its operations\<close>

datatype 'v tst = Null | Node (splitchar: char) (low: "'v tst") (equal: "'v tst")
  (high: "'v tst") (tvalue: "'v option")

text \<open>\<^verbatim>\<open>tst_search\<close>: the walk stops at the node of the last character.\<close>

fun tst_search :: "'v tst \<Rightarrow> string \<Rightarrow> 'v option" where
  "tst_search Null s = None"
| "tst_search (Node c l e h v) [] = v"
| "tst_search (Node c l e h v) (x # xs) =
     (if c_lt x c then tst_search l (x # xs)
      else if x = c then (if xs \<noteq> [] then tst_search e xs else v)
      else tst_search h (x # xs))"

text \<open>
  The loop of \<^verbatim>\<open>tst_search_prefix\<close>: \<^verbatim>\<open>last\<close> is the deepest node with a value that
  was left through its \<^verbatim>\<open>equal\<close> pointer; it counts only once the walk has fallen
  off the tree.
\<close>

fun node_value :: "'v tst \<Rightarrow> 'v option" where
  "node_value Null = None"
| "node_value (Node c l e h v) = v"

fun prefix_loop :: "'v tst \<Rightarrow> 'v tst \<Rightarrow> string \<Rightarrow> 'v option" where
  "prefix_loop Null lst s = node_value lst"
| "prefix_loop (Node c l e h v) lst [] = v"
| "prefix_loop (Node c l e h v) lst (x # xs) =
     (if c_lt x c then prefix_loop l lst (x # xs)
      else if x = c then
        (if xs \<noteq> [] then prefix_loop e (if v \<noteq> None then Node c l e h v else lst) xs else v)
      else prefix_loop h lst (x # xs))"

definition tst_search_prefix :: "'v tst \<Rightarrow> string \<Rightarrow> 'v option" where
  "tst_search_prefix root s = (if s = [] then None else prefix_loop root Null s)"

text \<open>
  The loop of \<^verbatim>\<open>tst_search_suffix\<close> runs \<^verbatim>\<open>i\<close> from \<^verbatim>\<open>len - 1\<close> down while
  \<^verbatim>\<open>i > 0\<close>, so it reads \<open>rev (tl s)\<close>: the first character is never compared.
  Unlike the prefix search it moves to \<^verbatim>\<open>equal\<close> after the last comparison too.
\<close>

fun suffix_loop :: "'v tst \<Rightarrow> 'v tst \<Rightarrow> string \<Rightarrow> 'v option" where
  "suffix_loop Null lst s = node_value lst"
| "suffix_loop (Node c l e h v) lst [] = v"
| "suffix_loop (Node c l e h v) lst (x # xs) =
     (if c_lt x c then suffix_loop l lst (x # xs)
      else if x = c then suffix_loop e (if v \<noteq> None then Node c l e h v else lst) xs
      else suffix_loop h lst (x # xs))"

definition tst_search_suffix :: "'v tst \<Rightarrow> string \<Rightarrow> 'v option" where
  "tst_search_suffix root s = (if s = [] then None else suffix_loop root Null (rev (tl s)))"

text \<open>
  \<^verbatim>\<open>tst_insert_base\<close>: a missing node is made for the current character, then the
  walk goes on.  The \<^verbatim>\<open>assert\<close> on the last node refuses a second value.
\<close>

function tst_insert_base :: "'v tst \<Rightarrow> string \<Rightarrow> 'v \<Rightarrow> 'v tst cres" where
  "tst_insert_base p s value =
     (case (case p of Null \<Rightarrow> Node (cstr_hd s) Null Null Null None | Node _ _ _ _ _ \<Rightarrow> p) of
        Null \<Rightarrow> Inl Null_deref
      | Node c l e h v \<Rightarrow>
          if c_lt (cstr_hd s) c then
            cbind (tst_insert_base l s value) (\<lambda>l'. Inr (Node c l' e h v))
          else if cstr_hd s = c then
            (if 1 < length s then
               cbind (tst_insert_base e (tl s) value) (\<lambda>e'. Inr (Node c l e' h v))
             else if v = None then Inr (Node c l e h (Some value))
             else Inl Assert_fail)
          else cbind (tst_insert_base h s value) (\<lambda>h'. Inr (Node c l e h' v)))"
  by pat_completeness auto
termination
  by (relation "measures [\<lambda>(p, s, v). length s, \<lambda>(p, s, v). size p]")
     (auto split: tst.splits)

declare tst_insert_base.simps [simp del]

definition tst_insert :: "'v tst \<Rightarrow> string \<Rightarrow> 'v \<Rightarrow> 'v tst cres" where
  "tst_insert p s value = tst_insert_base p s value"

section \<open>The invariant and the map a tree stands for\<close>

text \<open>The characters the binary tree of one level holds.\<close>

fun level :: "'v tst \<Rightarrow> char set" where
  "level Null = {}"
| "level (Node c l e h v) = insert c (level l \<union> level h)"

text \<open>Every level is a search tree, and every node has a value or a deeper level.\<close>

fun tst_inv :: "'v tst \<Rightarrow> bool" where
  "tst_inv Null \<longleftrightarrow> True"
| "tst_inv (Node c l e h v) \<longleftrightarrow>
     (\<forall>x\<in>level l. c_lt x c) \<and> (\<forall>x\<in>level h. c_lt c x) \<and> (v \<noteq> None \<or> e \<noteq> Null) \<and>
     tst_inv l \<and> tst_inv e \<and> tst_inv h"

definition tst_map :: "'v tst \<Rightarrow> string \<Rightarrow> 'v option" where
  "tst_map t s = (if s = [] then None else tst_search t s)"

text \<open>The key under which an argument is stored: an empty one is read as its terminator.\<close>

definition tst_key :: "string \<Rightarrow> string" where
  "tst_key s = (if s = [] then [NUL] else s)"

lemma tst_map_Null [simp]: "tst_map Null s = None"
  by (simp add: tst_map_def)

lemma tst_map_Nil [simp]: "tst_map t [] = None"
  by (simp add: tst_map_def)

lemma tst_map_Node:
  "tst_map (Node c l e h v) (x # xs) =
     (if c_lt x c then tst_map l (x # xs)
      else if x = c then (if xs \<noteq> [] then tst_map e xs else v)
      else tst_map h (x # xs))"
  by (simp add: tst_map_def)

text \<open>What a key leaves in an empty tree: one node per character.\<close>

fun chain :: "string \<Rightarrow> 'v \<Rightarrow> 'v tst" where
  "chain [] v = Node NUL Null Null Null (Some v)"
| "chain [x] v = Node x Null Null Null (Some v)"
| "chain (x # y # ys) v = Node x Null (chain (y # ys) v) Null None"

lemma insert_Null: "tst_insert_base Null s v = Inr (chain s v)"
  by (induction s v rule: chain.induct) (subst tst_insert_base.simps, simp)+

lemma insert_Node:
  "tst_insert_base (Node c l e h v) s w =
     (if c_lt (cstr_hd s) c then cbind (tst_insert_base l s w) (\<lambda>l'. Inr (Node c l' e h v))
      else if cstr_hd s = c then
        (if 1 < length s then cbind (tst_insert_base e (tl s) w) (\<lambda>e'. Inr (Node c l e' h v))
         else if v = None then Inr (Node c l e h (Some w)) else Inl Assert_fail)
      else cbind (tst_insert_base h s w) (\<lambda>h'. Inr (Node c l e h' v)))"
  by (subst tst_insert_base.simps) simp

lemmas insert_simps = insert_Null insert_Node

lemma chain_not_Null [simp]: "chain s v \<noteq> Null"
  by (cases "(s, v)" rule: chain.cases) auto

lemma chain_level [simp]: "level (chain s v) = {cstr_hd s}"
  by (induction s v rule: chain.induct) auto

lemma chain_inv [simp]: "tst_inv (chain s v)"
  by (induction s v rule: chain.induct) auto

lemma chain_map: "tst_map (chain s v) k = (if k = tst_key s then Some v else None)"
proof (induction s v arbitrary: k rule: chain.induct)
  case (1 v)
  then show ?case by (cases k) (auto simp: tst_map_Node tst_key_def)
next
  case (2 x v)
  then show ?case by (cases k) (auto simp: tst_map_Node tst_key_def)
next
  case (3 x y ys v)
  then show ?case by (cases k) (auto simp: tst_map_Node tst_key_def)
qed

text \<open>An induction principle that follows the insertion's own walk.\<close>

lemma tst_walk_induct [case_names Null Node]:
  assumes nul: "\<And>s. P Null s"
    and nod: "\<And>c l e h v s. P l s \<Longrightarrow> (1 < length s \<Longrightarrow> P e (tl s)) \<Longrightarrow> P h s \<Longrightarrow> P (Node c l e h v) s"
  shows "P t s"
  using nul nod by (induction t arbitrary: s) auto

lemma insert_not_Null: "tst_insert_base t s v = Inr t' \<Longrightarrow> t' \<noteq> Null"
  by (cases t) (auto simp: insert_simps split: if_splits)

lemma insert_level: "tst_insert_base t s v = Inr t' \<Longrightarrow> level t' = insert (cstr_hd s) (level t)"
proof (induction t s arbitrary: t' rule: tst_walk_induct)
  case (Null s)
  then show ?case by (auto simp: insert_Null)
next
  case (Node c l e h v s)
  then show ?case by (auto simp: insert_Node split: if_splits)
qed

lemma insert_inv: "tst_insert_base t s v = Inr t' \<Longrightarrow> tst_inv t \<Longrightarrow> tst_inv t'"
proof (induction t s arbitrary: t' rule: tst_walk_induct)
  case (Null s)
  then show ?case by (auto simp: insert_Null)
next
  case (Node c l e h v s)
  then show ?case
    by (auto simp: insert_Node insert_level dest: c_lt_linear insert_not_Null split: if_splits)
qed

text \<open>The order of a level decides where a key can be.\<close>

lemma map_level: "tst_inv t \<Longrightarrow> tst_map t (x # xs) \<noteq> None \<Longrightarrow> x \<in> level t"
  by (induction t) (auto simp: tst_map_Node split: if_splits)

lemma tst_key_hd [simp]: "tst_key s = x # xs \<Longrightarrow> cstr_hd s = x"
  by (cases s) (auto simp: tst_key_def)

lemma insert_map:
  "tst_insert_base t s v = Inr t' \<Longrightarrow> tst_inv t \<Longrightarrow>
   tst_map t' k = (if k = tst_key s then Some v else tst_map t k)"
proof (induction t s arbitrary: t' k rule: tst_walk_induct)
  case (Null s)
  then show ?case by (auto simp: insert_Null chain_map)
next
  case (Node c l e h w s)
  show ?case
  proof (cases k)
    case Nil
    then show ?thesis by (simp add: tst_key_def)
  next
    case (Cons x xs)
    then show ?thesis using Node
      by (cases s; cases "tl s") (auto simp: insert_Node tst_map_Node tst_key_def split: if_splits)
  qed
qed

lemma insert_fresh:
  "tst_inv t \<Longrightarrow> tst_map t (tst_key s) = None \<Longrightarrow> \<exists>t'. tst_insert_base t s v = Inr t'"
proof (induction t s rule: tst_walk_induct)
  case (Null s)
  then show ?case by (simp add: insert_Null)
next
  case (Node c l e h w s)
  then show ?case
    by (cases s; cases "tl s") (auto simp: insert_Node tst_map_Node tst_key_def split: if_splits)
qed

lemma insert_dup:
  "tst_inv t \<Longrightarrow> tst_map t (tst_key s) \<noteq> None \<Longrightarrow> tst_insert_base t s v = Inl Assert_fail"
proof (induction t s rule: tst_walk_induct)
  case (Null s)
  then show ?case by simp
next
  case (Node c l e h w s)
  then show ?case
    by (cases s; cases "tl s") (auto simp: insert_Node tst_map_Node tst_key_def split: if_splits)
qed

section \<open>What the prefix and suffix searches return\<close>

lemma live_ext: "tst_inv t \<Longrightarrow> t \<noteq> Null \<Longrightarrow> \<exists>k. tst_map t k \<noteq> None"
proof (induction t)
  case (Node c l e h v)
  show ?case
  proof (cases v)
    case (Some w)
    then have "tst_map (Node c l e h v) [c] = Some w" by (simp add: tst_map_Node)
    then show ?thesis by (metis option.distinct(1))
  next
    case None
    with Node obtain k where k: "tst_map e k \<noteq> None" by auto
    then have "k \<noteq> []" by auto
    with k have "tst_map (Node c l e h v) (c # k) \<noteq> None" by (simp add: tst_map_Node)
    then show ?thesis by blast
  qed
qed simp

lemma map_same_level:
  "c_lt x c \<Longrightarrow> tst_map (Node c l e h v) (x # xs) = tst_map l (x # xs)"
  "c_lt c x \<Longrightarrow> tst_map (Node c l e h v) (x # xs) = tst_map h (x # xs)"
  by (auto simp: tst_map_Node dest: c_lt_asym)

lemma best_same_level:
  "c_lt x c \<Longrightarrow> best_prefix (tst_map (Node c l e h v)) (x # xs) n = best_prefix (tst_map l) (x # xs) n"
  "c_lt c x \<Longrightarrow> best_prefix (tst_map (Node c l e h v)) (x # xs) n = best_prefix (tst_map h) (x # xs) n"
  by (rule best_prefix_cong, auto simp: map_same_level take_Cons' gr0_conv_Suc)+

lemma best_next_level:
  "best_prefix (tst_map (Node c l e h v)) (c # xs) (Suc n) =
     (case best_prefix (tst_map e) xs n of Some w \<Rightarrow> Some w | None \<Rightarrow> v)" if "n \<le> length xs"
proof -
  have "best_prefix (\<lambda>p. tst_map (Node c l e h v) (c # p)) xs n = best_prefix (tst_map e) xs n"
    using that by (intro best_prefix_cong) (auto simp: tst_map_Node)
  moreover have "tst_map (Node c l e h v) [c] = v" by (simp add: tst_map_Node)
  ultimately show ?thesis by (simp only: best_prefix_shift)
qed

definition is_key_prefix :: "'v tst \<Rightarrow> string \<Rightarrow> bool" where
  "is_key_prefix t s \<longleftrightarrow> (\<exists>r. tst_map t (s @ r) \<noteq> None)"

lemma key_prefix_simps:
  "\<not> is_key_prefix Null s"
  "c_lt x c \<Longrightarrow> is_key_prefix (Node c l e h v) (x # xs) = is_key_prefix l (x # xs)"
  "c_lt c x \<Longrightarrow> is_key_prefix (Node c l e h v) (x # xs) = is_key_prefix h (x # xs)"
  "xs \<noteq> [] \<Longrightarrow> is_key_prefix (Node c l e h v) (c # xs) = is_key_prefix e xs"
  by (simp_all add: is_key_prefix_def map_same_level) (simp add: tst_map_Node)

lemma key_prefix_last: "tst_inv (Node c l e h v) \<Longrightarrow> is_key_prefix (Node c l e h v) [c]"
proof -
  assume inv: "tst_inv (Node c l e h v)"
  show ?thesis
  proof (cases v)
    case (Some w)
    then have "tst_map (Node c l e h v) ([c] @ []) \<noteq> None" by (simp add: tst_map_Node)
    then show ?thesis unfolding is_key_prefix_def by blast
  next
    case None
    with inv obtain k where k: "tst_map e k \<noteq> None" using live_ext [of e] by auto
    then have "k \<noteq> []" by auto
    with k have "tst_map (Node c l e h v) ([c] @ k) \<noteq> None" by (simp add: tst_map_Node)
    then show ?thesis unfolding is_key_prefix_def by blast
  qed
qed

lemma prefix_loop_spec:
  "tst_inv t \<Longrightarrow> s \<noteq> [] \<Longrightarrow> prefix_loop t lst s =
     (if is_key_prefix t s then tst_map t s
      else case best_prefix (tst_map t) s (length s - 1) of Some v \<Rightarrow> Some v | None \<Rightarrow> node_value lst)"
proof (induction t arbitrary: s lst)
  case Null
  have "best_prefix (tst_map Null) s n = (None :: 'a option)" for n by (induction n) auto
  then show ?case by (simp add: key_prefix_simps)
next
  case (Node c l e h v)
  from Node.prems obtain x xs where s: "s = x # xs" by (cases s) auto
  consider "c_lt x c" | "x = c" | "c_lt c x" using c_lt_linear by blast
  then show ?case
  proof cases
    case 1
    then show ?thesis using Node s
      by (simp add: key_prefix_simps map_same_level best_same_level)
  next
    case 3
    then have "\<not> c_lt x c" "x \<noteq> c" by (auto dest: c_lt_asym)
    with 3 show ?thesis using Node s
      by (simp add: key_prefix_simps map_same_level best_same_level)
  next
    case 2
    show ?thesis
    proof (cases xs)
      case Nil
      then show ?thesis using 2 s key_prefix_last [OF Node.prems(1)] by (simp add: tst_map_Node)
    next
      case (Cons y ys)
      have "best_prefix (tst_map (Node c l e h v)) s (length s - 1) =
          (case best_prefix (tst_map e) xs (length xs - 1) of Some w \<Rightarrow> Some w | None \<Rightarrow> v)"
        using 2 s Cons best_next_level [of "length ys" "y # ys"] by (simp del: best_prefix.simps)
      moreover have "prefix_loop e p xs = (if is_key_prefix e xs then tst_map e xs
          else case best_prefix (tst_map e) xs (length xs - 1) of Some v \<Rightarrow> Some v
            | None \<Rightarrow> node_value p)" for p
        using Node.IH(2) Node.prems Cons by simp
      ultimately show ?thesis using 2 s Cons
        by (simp add: key_prefix_simps tst_map_Node del: best_prefix.simps split: option.splits)
    qed
  qed
qed

lemma search_prefix_spec [tst_spec]:
  "tst_inv t \<Longrightarrow> s \<noteq> [] \<Longrightarrow> tst_search_prefix t s =
     (if is_key_prefix t s then tst_map t s else best_prefix (tst_map t) s (length s - 1))"
  by (simp add: tst_search_prefix_def prefix_loop_spec split: option.splits)

text \<open>The level a walk reaches after a string has been matched.\<close>

fun tst_sub :: "'v tst \<Rightarrow> string \<Rightarrow> 'v tst" where
  "tst_sub t [] = t"
| "tst_sub Null (x # xs) = Null"
| "tst_sub (Node c l e h v) (x # xs) =
     (if c_lt x c then tst_sub l (x # xs) else if x = c then tst_sub e xs
      else tst_sub h (x # xs))"

lemma sub_map: "k \<noteq> [] \<Longrightarrow> tst_map (tst_sub t s) k = tst_map t (s @ k)"
  by (induction t s rule: tst_sub.induct) (auto simp: tst_map_Node)

lemma sub_inv: "tst_inv t \<Longrightarrow> tst_inv (tst_sub t s)"
  by (induction t s rule: tst_sub.induct) auto

lemma sub_Null: "tst_inv t \<Longrightarrow> tst_sub t s = Null \<longleftrightarrow> (\<forall>k. k \<noteq> [] \<longrightarrow> tst_map t (s @ k) = None)"
proof
  assume "tst_inv t" "\<forall>k. k \<noteq> [] \<longrightarrow> tst_map t (s @ k) = None"
  then have "tst_map (tst_sub t s) k = None" for k using sub_map [of k t s] by (cases k) auto
  then show "tst_sub t s = Null" using live_ext [OF sub_inv [OF \<open>tst_inv t\<close>, of s]] by auto
next
  assume "tst_sub t s = Null"
  then show "\<forall>k. k \<noteq> [] \<longrightarrow> tst_map t (s @ k) = None" using sub_map [of _ t s] by simp
qed

lemma suffix_loop_spec:
  "tst_inv t \<Longrightarrow> suffix_loop t lst s =
     (case tst_sub t s of Node c l e h v \<Rightarrow> v
      | Null \<Rightarrow> (case best_prefix (tst_map t) s (length s) of Some v \<Rightarrow> Some v
                | None \<Rightarrow> node_value lst))"
proof (induction t lst s rule: suffix_loop.induct)
  case (1 lst s)
  have "best_prefix (tst_map Null) s n = (None :: 'a option)" for n by (induction n) auto
  then show ?case by (cases s) auto
next
  case (2 c l e h v lst)
  then show ?case by simp
next
  case (3 c l e h v lst x xs)
  consider "c_lt x c" | "x = c" | "c_lt c x" using c_lt_linear by blast
  then show ?case
  proof cases
    case 1
    then show ?thesis using 3
      by (simp add: best_same_level del: best_prefix.simps split: tst.splits)
  next
    case 2
    then show ?thesis using 3
      by (auto simp: best_next_level simp del: best_prefix.simps split: tst.splits option.splits)
  next
    case 3
    then have "\<not> c_lt x c" "x \<noteq> c" by (auto dest: c_lt_asym)
    then show ?thesis using "3.IH" "3.prems" 3
      by (simp add: best_same_level del: best_prefix.simps split: tst.splits)
  qed
qed

lemma search_suffix_spec [tst_spec]:
  "tst_inv t \<Longrightarrow> s \<noteq> [] \<Longrightarrow> \<forall>k. k \<noteq> [] \<longrightarrow> tst_map t (rev (tl s) @ k) = None \<Longrightarrow>
   tst_search_suffix t s = best_prefix (tst_map t) (rev (tl s)) (length s - 1)"
  by (simp add: tst_search_suffix_def suffix_loop_spec sub_Null [symmetric] split: option.splits)

section \<open>Traversal through the ring buffer\<close>

text \<open>
  \<^verbatim>\<open>tst_traverse\<close> keeps its work list in a ring of \<^verbatim>\<open>q_max\<close> slots from
  \<^verbatim>\<open>q_start\<close> on and doubles the ring before three pushes could overrun it.
  \<open>mem n\<close> says whether \<^verbatim>\<open>calloc\<close> of \<open>n\<close> slots succeeds; a failed resize leaves a
  \<^verbatim>\<open>NULL\<close> ring that the next push writes through, which is \<open>None\<close> here, as is
  a \<^verbatim>\<open>NULL\<close> entry taken from the ring.  The ring's indices are natural numbers: the
  ring would need \<^verbatim>\<open>2^30\<close> pending nodes before \<^verbatim>\<open>q_max * 2\<close> overflowed an \<^verbatim>\<open>int\<close>.
\<close>

definition MAX_TRAVERSE_SIZE :: nat where
  "MAX_TRAVERSE_SIZE = 128"

definition tst_resize_queue ::
    "(nat \<Rightarrow> bool) \<Rightarrow> 'v tst list \<Rightarrow> nat \<Rightarrow> nat \<Rightarrow> nat \<Rightarrow> nat \<Rightarrow> 'v tst list option" where
  "tst_resize_queue mem queue q_start q_size q_max new_size =
     (if mem new_size
      then Some (map (\<lambda>i. queue ! ((i + q_start) mod q_max)) [0..<q_size]
                 @ replicate (new_size - q_size) Null)
      else None)"

definition push_child ::
    "nat \<Rightarrow> nat \<Rightarrow> 'v tst \<Rightarrow> 'v tst list \<times> nat \<Rightarrow> 'v tst list \<times> nat" where
  "push_child q_start q_max child = (\<lambda>(queue, q_size).
     if child \<noteq> Null then (queue[(q_start + q_size) mod q_max := child], q_size + 1)
     else (queue, q_size))"

definition make_room ::
    "(nat \<Rightarrow> bool) \<Rightarrow> 'v tst list \<Rightarrow> nat \<Rightarrow> nat \<Rightarrow> nat \<Rightarrow> ('v tst list \<times> nat \<times> nat) option" where
  "make_room mem queue q_start q_size q_max =
     (if q_size + 3 > q_max
      then map_option (\<lambda>q. (q, 0, q_max * 2))
             (tst_resize_queue mem queue q_start q_size q_max (q_max * 2))
      else Some (queue, q_start, q_max))"

partial_function (option) traverse_loop ::
    "(nat \<Rightarrow> bool) \<Rightarrow> ('v \<Rightarrow> 'd \<Rightarrow> 'd) \<Rightarrow> 'v tst list \<Rightarrow> nat \<Rightarrow> nat \<Rightarrow> nat \<Rightarrow> 'd \<Rightarrow> 'd option" where
  "traverse_loop mem cb queue q_start q_size q_max data =
     (if q_size = 0 then Some data
      else case queue ! q_start of
        Null \<Rightarrow> None
      | Node c l e h v \<Rightarrow>
        (case make_room mem queue ((q_start + 1) mod q_max) (q_size - 1) q_max of
           None \<Rightarrow> None
         | Some (queue', q_start', q_max') \<Rightarrow>
             (case push_child q_start' q_max' h
                    (push_child q_start' q_max' e
                      (push_child q_start' q_max' l (queue', q_size - 1))) of
                (queue'', q_size') \<Rightarrow>
                  traverse_loop mem cb queue'' q_start' q_size' q_max'
                    (case v of None \<Rightarrow> data | Some w \<Rightarrow> cb w data))))"

definition tst_traverse :: "(nat \<Rightarrow> bool) \<Rightarrow> 'v tst \<Rightarrow> ('v \<Rightarrow> 'd \<Rightarrow> 'd) \<Rightarrow> 'd \<Rightarrow> 'd option" where
  "tst_traverse mem p cb data =
     (if p = Null then Some data
      else if \<not> mem MAX_TRAVERSE_SIZE then Some data
      else traverse_loop mem cb ((replicate MAX_TRAVERSE_SIZE Null)[0 := p]) 0 1 MAX_TRAVERSE_SIZE data)"

text \<open>The order of the visits: breadth first, low before equal before high.\<close>

definition present :: "'v tst \<Rightarrow> 'v tst list" where
  "present t = (if t = Null then [] else [t])"

definition children :: "'v tst \<Rightarrow> 'v tst \<Rightarrow> 'v tst \<Rightarrow> 'v tst list" where
  "children l e h = present l @ present e @ present h"

fun nodes :: "'v tst \<Rightarrow> nat" where
  "nodes Null = 0"
| "nodes (Node c l e h v) = Suc (nodes l + nodes e + nodes h)"

lemma children_nodes: "sum_list (map nodes (children l e h)) = nodes l + nodes e + nodes h"
  by (auto simp: children_def present_def)

function bfs :: "'v tst list \<Rightarrow> 'v list" where
  "bfs [] = []"
| "bfs (Null # ts) = bfs ts"
| "bfs (Node c l e h v # ts) = (case v of None \<Rightarrow> [] | Some w \<Rightarrow> [w]) @ bfs (ts @ children l e h)"
  by pat_completeness auto
termination
  by (relation "measures [\<lambda>ts. sum_list (map nodes ts), length]") (auto simp: children_nodes)

text \<open>The ring holds the work list \<open>ts\<close>.\<close>

definition ring :: "'v tst list \<Rightarrow> nat \<Rightarrow> nat \<Rightarrow> nat \<Rightarrow> 'v tst list \<Rightarrow> bool" where
  "ring queue q_start q_size q_max ts \<longleftrightarrow>
     length queue = q_max \<and> q_start < q_max \<and> q_size = length ts \<and> q_size \<le> q_max \<and>
     (\<forall>i < length ts. queue ! ((q_start + i) mod q_max) = ts ! i) \<and> Null \<notin> set ts"

lemma ring_push:
  assumes "ring queue q_start q_size q_max ts" and "q_size < q_max"
  shows "case push_child q_start q_max t (queue, q_size) of
    (queue', q_size') \<Rightarrow> ring queue' q_start q_size' q_max (ts @ present t)"
proof -
  have "(q_start + q_size) mod q_max \<noteq> (q_start + i) mod q_max" if "i < q_size" for i
    using assms that mod_eq_dvd_iff_nat [of "q_start + i" "q_start + q_size" q_max]
    by (auto dest!: dvd_imp_le)
  with assms show ?thesis
    by (auto simp: ring_def push_child_def present_def nth_append nth_list_update less_Suc_eq)
qed

lemma ring_pop:
  assumes "ring queue q_start q_size q_max (t # ts)"
  shows "queue ! q_start = t" "ring queue ((q_start + 1) mod q_max) (q_size - 1) q_max ts" "t \<noteq> Null"
proof -
  from assms have "queue ! ((q_start + 0) mod q_max) = (t # ts) ! 0" unfolding ring_def by blast
  with assms show "queue ! q_start = t" by (simp add: ring_def)
  have "queue ! (((q_start + 1) mod q_max + i) mod q_max) = ts ! i" if "i < length ts" for i
  proof -
    from assms that have "queue ! ((q_start + Suc i) mod q_max) = (t # ts) ! Suc i"
      unfolding ring_def by (metis Suc_less_eq length_Cons)
    then show ?thesis by (simp add: mod_simps)
  qed
  with assms show "ring queue ((q_start + 1) mod q_max) (q_size - 1) q_max ts"
    by (auto simp: ring_def)
  show "t \<noteq> Null" using assms by (auto simp: ring_def)
qed

lemma ring_resize:
  assumes "ring queue q_start q_size q_max ts" and "mem (q_max * 2)"
  shows "\<exists>q. tst_resize_queue mem queue q_start q_size q_max (q_max * 2) = Some q \<and>
    ring q 0 q_size (q_max * 2) ts"
  using assms by (auto simp: tst_resize_queue_def ring_def nth_append add.commute)

text \<open>Three pushes after a pop: the ring has room for all of them.\<close>

lemma ring_children:
  assumes "ring queue q_start q_size q_max ts" and "q_size + 3 \<le> q_max"
  shows "\<exists>queue' q_size'. push_child q_start q_max h (push_child q_start q_max e
      (push_child q_start q_max l (queue, q_size))) = (queue', q_size') \<and>
    ring queue' q_start q_size' q_max (ts @ children l e h)"
proof -
  obtain q1 n1 where 1: "push_child q_start q_max l (queue, q_size) = (q1, n1)" by fastforce
  obtain q2 n2 where 2: "push_child q_start q_max e (q1, n1) = (q2, n2)" by fastforce
  obtain q3 n3 where 3: "push_child q_start q_max h (q2, n2) = (q3, n3)" by fastforce
  have "n1 \<le> q_size + 1" "n2 \<le> q_size + 2"
    using 1 2 by (auto simp: push_child_def split: if_splits)
  note n = this
  have r1: "ring q1 q_start n1 q_max (ts @ present l)"
    using ring_push [OF assms(1), of l] 1 assms(2) by simp
  have r2: "ring q2 q_start n2 q_max ((ts @ present l) @ present e)"
    using ring_push [OF r1, of e] 2 n assms(2) by simp
  have "ring q3 q_start n3 q_max
      (((ts @ present l) @ present e) @ present h)"
    using ring_push [OF r2, of h] 3 n assms(2) by simp
  then show ?thesis using 1 2 3 by (simp add: children_def)
qed

lemma ring_room:
  assumes "ring queue q_start q_size q_max ts" "mem (q_max * 2)" "3 \<le> q_max"
  obtains queue' s' m' where
    "make_room mem queue q_start q_size q_max = Some (queue', s', m')"
    "ring queue' s' q_size m' ts" "q_size + 3 \<le> m'" "3 \<le> m'"
proof (cases "q_size + 3 > q_max")
  case True
  from ring_resize [of queue q_start q_size q_max ts mem] assms obtain q where
    q: "tst_resize_queue mem queue q_start q_size q_max (q_max * 2) = Some q"
       "ring q 0 q_size (q_max * 2) ts" by blast
  have "q_size \<le> q_max" using assms(1) by (simp add: ring_def)
  then show ?thesis using that [of q 0 "q_max * 2"] True q assms(3) by (simp add: make_room_def)
next
  case False
  then show ?thesis using that [of queue q_start q_max] assms by (simp add: make_room_def)
qed

lemma traverse_loop_bfs:
  assumes mem: "\<And>n. mem n"
  shows "ring queue q_start q_size q_max ts \<Longrightarrow> 3 \<le> q_max \<Longrightarrow>
    traverse_loop mem cb queue q_start q_size q_max data = Some (fold cb (bfs ts) data)"
proof (induction ts arbitrary: queue q_start q_size q_max data rule: bfs.induct)
  case 1
  then show ?case by (subst traverse_loop.simps) (simp add: ring_def)
next
  case (2 ts)
  then show ?case by (simp add: ring_def)
next
  case (3 c l e h v ts)
  let ?s = "(q_start + 1) mod q_max"
  note pop = ring_pop [OF "3.prems"(1)]
  have size: "q_size \<noteq> 0" using "3.prems" by (auto simp: ring_def)
  obtain queue' s' m' where room:
      "make_room mem queue ?s (q_size - 1) q_max = Some (queue', s', m')"
    and r: "ring queue' s' (q_size - 1) m' ts" "q_size - 1 + 3 \<le> m'" "3 \<le> m'"
    using ring_room [OF pop(2), of mem thesis] mem "3.prems"(2) by blast
  from ring_children [OF r(1,2), of h e l] obtain queue'' n'' where push:
      "push_child s' m' h (push_child s' m' e (push_child s' m' l (queue', q_size - 1))) = (queue'', n'')"
    and r': "ring queue'' s' n'' m' (ts @ children l e h)" by blast
  have "traverse_loop mem cb queue'' s' n'' m' (case v of None \<Rightarrow> data | Some w \<Rightarrow> cb w data) =
      Some (fold cb (bfs (ts @ children l e h)) (case v of None \<Rightarrow> data | Some w \<Rightarrow> cb w data))"
    by (rule "3.IH" [OF r' r(3)])
  then show ?case
    by (subst traverse_loop.simps) (use room push in \<open>simp add: size pop(1) split: option.splits\<close>)
qed

lemma traverse_bfs [tst_spec]:
  "(\<And>n. mem n) \<Longrightarrow> tst_traverse mem t cb data = Some (fold cb (bfs [t]) data)"
proof (cases "t = Null")
  case False
  assume mem: "\<And>n. mem n"
  have "ring ((replicate MAX_TRAVERSE_SIZE Null)[0 := t]) 0 1 MAX_TRAVERSE_SIZE [t]"
    using False by (simp add: ring_def MAX_TRAVERSE_SIZE_def)
  then show ?thesis
    using False traverse_loop_bfs [where mem = mem, OF mem, where q_start = 0 and q_size = 1 and q_max = MAX_TRAVERSE_SIZE and ts = "[t]" and cb = cb and data = data] mem
    by (simp add: tst_traverse_def MAX_TRAVERSE_SIZE_def)
qed (simp add: tst_traverse_def)

text \<open>Every stored key is visited exactly once.\<close>

fun tst_values :: "'v tst \<Rightarrow> 'v multiset" where
  "tst_values Null = {#}"
| "tst_values (Node c l e h v) =
     (case v of None \<Rightarrow> {#} | Some w \<Rightarrow> {#w#}) + tst_values l + tst_values e + tst_values h"

lemma children_tst_values: "sum_list (map tst_values (children l e h)) = tst_values l + tst_values e + tst_values h"
  by (auto simp: children_def present_def)

lemma bfs_mset: "mset (bfs ts) = sum_list (map tst_values ts)"
  by (induction ts rule: bfs.induct) (auto simp: children_tst_values split: option.splits)

lemma dom_tst_map_Node:
  "tst_inv (Node c l e h v) \<Longrightarrow> dom (tst_map (Node c l e h v)) =
     dom (tst_map l) \<union> dom (tst_map h) \<union> (#) c ` dom (tst_map e) \<union> (if v = None then {} else {[c]})"
  (is "?inv \<Longrightarrow> ?L = ?R")
proof (intro set_eqI)
  fix k assume inv: ?inv
  show "k \<in> ?L \<longleftrightarrow> k \<in> ?R"
  proof (cases k)
    case (Cons x xs)
    have "tst_map l (x # xs) = None \<or> c_lt x c" "tst_map h (x # xs) = None \<or> c_lt c x"
      using inv map_level [of l x xs] map_level [of h x xs]
      by (cases "tst_map l (x # xs)"; cases "tst_map h (x # xs)"; auto)+
    then show ?thesis
      using Cons by (auto simp: dom_def tst_map_Node dest: c_lt_linear c_lt_asym split: if_splits)
  qed (auto simp: dom_def)
qed

lemma finite_dom_tst_map: "tst_inv t \<Longrightarrow> finite (dom (tst_map t))"
proof (induction t)
  case (Node c l e h v)
  then show ?case by (simp add: dom_tst_map_Node)
qed (simp add: dom_def)

lemma tst_map_parts:
  assumes "tst_inv (Node c l e h v)"
  shows "k \<in> dom (tst_map l) \<Longrightarrow> tst_map (Node c l e h v) k = tst_map l k \<and> c_lt (hd k) c"
    and "k \<in> dom (tst_map h) \<Longrightarrow> tst_map (Node c l e h v) k = tst_map h k \<and> c_lt c (hd k)"
    and "k \<in> dom (tst_map e) \<Longrightarrow> tst_map (Node c l e h v) (c # k) = tst_map e k"
proof -
  show "tst_map (Node c l e h v) k = tst_map l k \<and> c_lt (hd k) c" if "k \<in> dom (tst_map l)"
    using that assms map_level [of l "hd k" "tl k"] by (cases k) (auto simp: tst_map_Node)
  show "tst_map (Node c l e h v) k = tst_map h k \<and> c_lt c (hd k)" if "k \<in> dom (tst_map h)"
  proof -
    from that assms map_level [of h "hd k" "tl k"] have lt: "k \<noteq> []" "c_lt c (hd k)"
      by (cases k; auto)+
    then have "\<not> c_lt (hd k) c" "hd k \<noteq> c" by (auto dest: c_lt_asym)
    with lt show ?thesis by (cases k) (auto simp: tst_map_Node)
  qed
  show "tst_map (Node c l e h v) (c # k) = tst_map e k" if "k \<in> dom (tst_map e)"
    using that by (cases k) (auto simp: tst_map_Node)
qed

lemma tst_values_map:
  "tst_inv t \<Longrightarrow> tst_values t = image_mset (\<lambda>k. the (tst_map t k)) (mset_set (dom (tst_map t)))"
proof (induction t)
  case Null
  then show ?case by (simp add: dom_def)
next
  case (Node c l e h v)
  let ?t = "Node c l e h v"
  let ?f = "\<lambda>k. the (tst_map ?t k)"
  let ?A = "dom (tst_map l)" and ?B = "dom (tst_map h)" and ?C = "(#) c ` dom (tst_map e)"
    and ?D = "if v = None then {} else {[c]}"
  note part = tst_map_parts [OF Node.prems]
  have fin: "finite ?A" "finite ?B" "finite ?C" using Node.prems finite_dom_tst_map by auto
  have hd: "\<And>k. k \<in> ?A \<Longrightarrow> c_lt (hd k) c" "\<And>k. k \<in> ?B \<Longrightarrow> c_lt c (hd k)"
    "\<And>k. k \<in> ?C \<Longrightarrow> hd k = c \<and> tl k \<noteq> []" "\<And>k. k \<in> ?D \<Longrightarrow> hd k = c \<and> tl k = []"
    using part(1,2) by (auto split: if_splits)
  have "?A \<inter> ?B = {}"
    by (rule disjoint_by [where P = "\<lambda>k. c_lt (hd k) c"]) (use hd c_lt_asym in blast)+
  moreover have "(?A \<union> ?B) \<inter> ?C = {}"
    by (rule disjoint_by [where P = "\<lambda>k. hd k \<noteq> c"]) (use hd c_lt_irrefl in \<open>metis Un_iff\<close>)+
  moreover have "(?A \<union> ?B \<union> ?C) \<inter> ?D = {}"
    by (rule disjoint_by [where P = "\<lambda>k. \<not> (hd k = c \<and> tl k = [])"])
       (use hd c_lt_irrefl in \<open>metis Un_iff\<close>)+
  ultimately have "mset_set (dom (tst_map ?t)) = mset_set ?A + mset_set ?B + mset_set ?C + mset_set ?D"
    using fin by (simp add: dom_tst_map_Node [OF Node.prems] mset_set_Union)
  moreover have "image_mset ?f (mset_set ?A) = tst_values l"
    using Node part(1) fin by (auto intro!: image_mset_cong)
  moreover have "image_mset ?f (mset_set ?B) = tst_values h"
    using Node part(2) fin by (auto intro!: image_mset_cong)
  moreover have "image_mset ?f (mset_set ?C) = tst_values e"
  proof -
    have "image_mset ?f (mset_set ?C) = image_mset (\<lambda>k. ?f (c # k)) (mset_set (dom (tst_map e)))"
      by (simp add: image_mset_mset_set [symmetric] multiset.map_comp comp_def)
    also have "\<dots> = tst_values e"
      using Node part(3) finite_dom_tst_map [of e] by (auto intro!: image_mset_cong)
    finally show ?thesis .
  qed
  moreover have "image_mset ?f (mset_set ?D) = (case v of None \<Rightarrow> {#} | Some w \<Rightarrow> {#w#})"
    by (auto simp: tst_map_Node)
  ultimately show ?case by simp
qed

section \<open>Collecting\<close>

text \<open>
  \<^verbatim>\<open>tst_collect\<close>: the walk ends at a node or off the tree, the traversal starts there
  (or at \<^verbatim>\<open>last\<close>) and appends every accepted value.  A \<^verbatim>\<open>NULL\<close> tester is \<open>None\<close>;
  the result list is the sequence of its nodes' data.
\<close>

fun collect_loop :: "'v tst \<Rightarrow> 'v tst \<Rightarrow> string \<Rightarrow> 'v tst \<times> 'v tst" where
  "collect_loop Null lst s = (Null, lst)"
| "collect_loop (Node c l e h v) lst [] = (Node c l e h v, lst)"
| "collect_loop (Node c l e h v) lst (x # xs) =
     (if c_lt x c then collect_loop l lst (x # xs)
      else if x = c then
        (if xs \<noteq> [] then collect_loop e (if v \<noteq> None then Node c l e h v else lst) xs
         else (Node c l e h v, lst))
      else collect_loop h lst (x # xs))"

definition tst_collect_build ::
    "('v \<Rightarrow> string \<Rightarrow> bool) option \<Rightarrow> string \<Rightarrow> 'v \<Rightarrow> 'v list \<Rightarrow> 'v list" where
  "tst_collect_build tester key value results =
     (case tester of
        None \<Rightarrow> results @ [value]
      | Some test \<Rightarrow> if test value key then results @ [value] else results)"

definition tst_collect ::
    "(nat \<Rightarrow> bool) \<Rightarrow> 'v tst \<Rightarrow> string \<Rightarrow> ('v \<Rightarrow> string \<Rightarrow> bool) option \<Rightarrow> 'v list option" where
  "tst_collect mem root s tester =
     (case collect_loop root root s of (p, lst) \<Rightarrow>
        if (lst \<noteq> Null \<and> tester \<noteq> None) \<or> p \<noteq> Null
        then tst_traverse mem (if p = Null then lst else p) (tst_collect_build tester s) []
        else Some [])"

lemma fold_collect_build:
  "fold (tst_collect_build tester key) vs acc =
     acc @ filter (\<lambda>v. case tester of None \<Rightarrow> True | Some test \<Rightarrow> test v key) vs"
  by (induction vs arbitrary: acc) (auto simp: tst_collect_build_def split: option.splits)

lemma collect_spec [tst_spec]:
  assumes "\<And>n. mem n"
  shows "tst_collect mem root s tester =
    (case collect_loop root root s of (p, lst) \<Rightarrow>
       Some (if p = Null \<and> (lst = Null \<or> tester = None) then []
             else filter (\<lambda>v. case tester of None \<Rightarrow> True | Some test \<Rightarrow> test v s)
                    (bfs [if p = Null then lst else p])))"
  using assms by (auto simp: tst_collect_def traverse_bfs fold_collect_build split: prod.splits)

section \<open>The contract of a string table\<close>

text \<open>
  What Setting, MIME and Config rely on: an exact search sees every key
  that was inserted and no other, and a second insertion under a key ends in the
  \<^verbatim>\<open>assert\<close>.
\<close>

locale string_table =
  fixes empty :: 't
    and insert :: "'t \<Rightarrow> string \<Rightarrow> 'v \<Rightarrow> 't cres"
    and search :: "'t \<Rightarrow> string \<Rightarrow> 'v option"
    and invar :: "'t \<Rightarrow> bool"
  assumes invar_empty: "invar empty"
    and search_empty: "search empty k = None"
    and insert_new: "invar t \<Longrightarrow> k \<noteq> [] \<Longrightarrow> search t k = None \<Longrightarrow> \<exists>t'. insert t k v = Inr t'"
    and insert_old: "invar t \<Longrightarrow> k \<noteq> [] \<Longrightarrow> search t k \<noteq> None \<Longrightarrow> insert t k v = Inl Assert_fail"
    and invar_insert: "invar t \<Longrightarrow> insert t k v = Inr t' \<Longrightarrow> invar t'"
    and search_insert: "invar t \<Longrightarrow> k \<noteq> [] \<Longrightarrow> insert t k v = Inr t' \<Longrightarrow> j \<noteq> [] \<Longrightarrow>
      search t' j = (if j = k then Some v else search t j)"
begin

text \<open>Loading a sequence of rows, one insertion per row, until one of them aborts.\<close>

fun load :: "'t \<Rightarrow> (string \<times> 'v) list \<Rightarrow> 't cres" where
  "load t [] = Inr t"
| "load t ((k, v) # rows) = cbind (insert t k v) (\<lambda>t'. load t' rows)"

lemma load_rows:
  assumes "invar t" "distinct (map fst rows)" "[] \<notin> fst ` set rows"
    "\<And>k. k \<in> fst ` set rows \<Longrightarrow> search t k = None"
  shows "\<exists>t'. load t rows = Inr t' \<and> invar t' \<and>
    (\<forall>k. k \<noteq> [] \<longrightarrow> search t' k = (case map_of rows k of Some v \<Rightarrow> Some v | None \<Rightarrow> search t k))"
  using assms
proof (induction rows arbitrary: t)
  case Nil
  then show ?case by simp
next
  case (Cons row rows)
  obtain k v where row: "row = (k, v)" by (cases row)
  from Cons.prems row obtain t1 where t1: "insert t k v = Inr t1"
    using insert_new [of t k v] by auto
  have inv1: "invar t1" using invar_insert t1 Cons.prems(1) by blast
  have k: "k \<noteq> []" using Cons.prems(3) row by auto
  have s1: "search t1 j = (if j = k then Some v else search t j)" if "j \<noteq> []" for j
    using search_insert [OF Cons.prems(1) k t1 that] .
  have "search t1 j = None" if "j \<in> fst ` set rows" for j
  proof -
    have "j \<noteq> []" "j \<noteq> k" using that Cons.prems(2,3) row by (auto simp: image_iff)
    with s1 [of j] Cons.prems(4) [of j] that show ?thesis by simp
  qed
  then obtain t' where "load t1 rows = Inr t'" "invar t'"
    "\<forall>j. j \<noteq> [] \<longrightarrow> search t' j = (case map_of rows j of Some v \<Rightarrow> Some v | None \<Rightarrow> search t1 j)"
    using Cons.IH [OF inv1] Cons.prems(2,3) by auto
  moreover have "map_of rows k = None" using Cons.prems(2) row by (simp add: map_of_eq_None_iff)
  ultimately show ?case using row t1 s1 by (auto split: option.splits)
qed

lemma load_duplicate:
  assumes "invar t" "k \<noteq> []" "search t k \<noteq> None"
  shows "load t ((k, v) # rows) = Inl Assert_fail"
  using insert_old [OF assms] by simp

end

lemma tst_search_map: "k \<noteq> [] \<Longrightarrow> tst_search t k = tst_map t k"
  by (simp add: tst_map_def)

interpretation tst_table: string_table Null tst_insert tst_search tst_inv
proof
  fix t :: "'v tst" and k :: string and v
  assume t: "tst_inv t" "k \<noteq> []"
  then have k: "tst_key k = k" by (simp add: tst_key_def)
  show "tst_search t k = None \<Longrightarrow> \<exists>t'. tst_insert t k v = Inr t'"
    using insert_fresh [OF t(1), of k v] k t by (simp add: tst_insert_def tst_search_map)
  show "tst_search t k \<noteq> None \<Longrightarrow> tst_insert t k v = Inl Assert_fail"
    using insert_dup [OF t(1), of k v] k t by (simp add: tst_insert_def tst_search_map)
  fix t' :: "'v tst" and j :: string
  assume "tst_insert t k v = Inr t'" "j \<noteq> []"
  then show "tst_search t' j = (if j = k then Some v else tst_search t j)"
    using insert_map [of t k v t' j] k t by (simp add: tst_insert_def tst_search_map)
qed (auto simp: tst_insert_def insert_inv)

section \<open>Properties\<close>

text \<open>A small tree for the witnesses, built by the code's own insertion.\<close>

definition sample :: "nat tst" where
  "sample = (case tst_table.load Null [(''/a'', 1), (''/ab'', 2), (''/c'', 3)] of Inr t \<Rightarrow> t | Inl _ \<Rightarrow> Null)"

lemma sample_eval:
  "sample = Node CHR ''/'' Null (Node CHR ''a'' Null (Node CHR ''b'' Null Null Null (Some 2))
     (Node CHR ''c'' Null Null Null (Some 3)) (Some 1)) Null None"
  by (simp add: sample_def tst_insert_def tst_insert_base.simps c_lt_def schar_def)

lemma sample_inv: "tst_inv sample"
  by (simp add: sample_eval c_lt_def schar_def)

text \<open>
  C21: inserting into a tree whose levels are search trees keeps them so and changes
  the stored map at exactly that key; it succeeds when the key has no value yet and
  ends in the \<^verbatim>\<open>assert\<close> when it has one.
\<close>

theorem tst_insert_correct:
  assumes "tst_inv t" "s \<noteq> []"
  shows "case tst_insert t s v of
           Inr t' \<Rightarrow> tst_search t s = None \<and> tst_inv t' \<and>
             (\<forall>k. k \<noteq> [] \<longrightarrow> tst_search t' k = (if k = s then Some v else tst_search t k))
         | Inl f \<Rightarrow> f = Assert_fail \<and> tst_search t s \<noteq> None"
proof (cases "tst_search t s = None")
  case True
  with tst_table.insert_new [OF assms] obtain t' where "tst_insert t s v = Inr t'" by blast
  with True show ?thesis
    using tst_table.invar_insert [OF assms(1)] tst_table.search_insert [OF assms] by simp
next
  case False
  with tst_table.insert_old [OF assms] show ?thesis by simp
qed

lemma tst_insert_correct_witness:
  "case tst_insert sample ''/b'' 4 of
     Inr t' \<Rightarrow> tst_search sample ''/b'' = None \<and> tst_inv t' \<and>
       (\<forall>k. k \<noteq> [] \<longrightarrow> tst_search t' k = (if k = ''/b'' then Some 4 else tst_search sample k))
   | Inl f \<Rightarrow> f = Assert_fail \<and> tst_search sample ''/b'' \<noteq> None"
  by (rule tst_insert_correct [OF sample_inv]) simp

text \<open>
  Loading rows with distinct, non-empty keys into an empty tree never aborts, and
  an exact search then answers what the rows say and nothing else.
\<close>

theorem tst_load_lookup:
  assumes "distinct (map fst rows)" "[] \<notin> fst ` set rows"
  shows "\<exists>t. tst_table.load Null rows = Inr t \<and> tst_inv t \<and> (\<forall>k. k \<noteq> [] \<longrightarrow> tst_search t k = map_of rows k)"
  using tst_table.load_rows [of Null rows] assms
  by (fastforce split: option.splits)

lemma tst_load_lookup_witness:
  "\<exists>t. tst_table.load Null [(''server'', 1::nat), (''serve'', 2), (''host'', 3)] = Inr t \<and> tst_inv t \<and>
      (\<forall>k. k \<noteq> [] \<longrightarrow> tst_search t k = map_of [(''server'', 1), (''serve'', 2), (''host'', 3)] k)"
  by (rule tst_load_lookup) auto

text \<open>
  The prefix search.  When no stored key extends the argument the answer is the value of
  the longest stored proper prefix; when the argument is itself a prefix of a stored key the
  answer is the argument's own value, so a shorter stored prefix is then not found.
\<close>

theorem tst_search_prefix_correct:
  assumes "tst_inv t" "s \<noteq> []"
  shows "tst_search_prefix t s =
           (if \<exists>r. tst_map t (s @ r) \<noteq> None then tst_map t s
            else best_prefix (tst_map t) s (length s - 1))"
  using search_prefix_spec [OF assms] by (simp add: is_key_prefix_def)

lemma tst_search_prefix_correct_witness:
  "tst_search_prefix sample ''/a/x'' =
     (if \<exists>r. tst_map sample (''/a/x'' @ r) \<noteq> None then tst_map sample ''/a/x''
      else best_prefix (tst_map sample) ''/a/x'' (length ''/a/x'' - 1))"
  by (rule tst_search_prefix_correct [OF sample_inv]) simp

text \<open>
  a prefix route is hidden from a path that a longer route extends: with routes at
  \<^verbatim>\<open>/\<close> and \<^verbatim>\<open>/chat\<close> the path \<^verbatim>\<open>/ch\<close> has no route, while \<^verbatim>\<open>/cx\<close> is served by the route at \<^verbatim>\<open>/\<close>.
\<close>

theorem tst_prefix_hidden:
  "cbind (tst_table.load Null [(''/'', 1::nat), (''/chat'', 2)])
     (\<lambda>t. Inr (tst_search_prefix t ''/ch'', tst_search_prefix t ''/cx'')) = Inr (None, Some 1)"
  by (simp add: tst_insert_def tst_insert_base.simps c_lt_def schar_def tst_search_prefix_def)

text \<open>
  the suffix search never compares the first character of its argument: in a table
  that holds only the reversed name \<^verbatim>\<open>b.com\<close>, the name \<^verbatim>\<open>a.com\<close> is found.
\<close>

theorem tst_suffix_ignores_first:
  "tst_search_suffix t (x # s) = tst_search_suffix t (y # s) \<and>
   cbind (tst_insert Null (rev ''b.com'') (1::nat)) (\<lambda>u. Inr (tst_search_suffix u ''a.com'')) = Inr (Some 1)"
  by (simp add: tst_search_suffix_def tst_insert_def tst_insert_base.simps c_lt_def schar_def)

text \<open>
  With memory available the traversal ends, through every doubling of its ring, and has
  applied the callback exactly once to the value of every stored key, breadth first.
\<close>

theorem tst_traverse_visits_all:
  assumes "tst_inv t" "\<And>n. mem n"
  shows "\<exists>order. tst_traverse mem t cb data = Some (fold cb order data) \<and>
           mset order = image_mset (\<lambda>k. the (tst_map t k)) (mset_set (dom (tst_map t)))"
  using traverse_bfs [of mem t cb data, OF assms(2)] bfs_mset [of "[t]"] tst_values_map [OF assms(1)]
  by auto

lemma tst_traverse_visits_all_witness:
  "\<exists>order. tst_traverse (\<lambda>_. True) sample (#) [] = Some (fold (#) order []) \<and>
      mset order = image_mset (\<lambda>k. the (tst_map sample k)) (mset_set (dom (tst_map sample)))"
  by (rule tst_traverse_visits_all [OF sample_inv]) simp

end
