(* ===== verification/Pattern.thy ===== *)
theory Pattern
  imports Prelude
begin

text \<open>
  The pattern matcher of \<^verbatim>\<open>src/pattern.c\<close>, Lua's without captures.  The subject is
  the memory \<open>src\<close> from \<^verbatim>\<open>src_init\<close> on with \<^verbatim>\<open>src_end = src_init + n\<close>, and a subject
  pointer is an offset into it.  A pattern pointer is the rest of the
  \<^verbatim>\<open>'\0'\<close>-terminated pattern, so \<^verbatim>\<open>*p\<close> at its end is \<open>NUL\<close>.  Malformed patterns
  are only logged by the code, which then runs past the terminator:
  the model returns \<open>Out_of_bounds\<close> at that point.
\<close>

section \<open>Character classes\<close>

abbreviation L_ESC :: char where
  "L_ESC \<equiv> CHR 0x5C"

definition match_class :: "char \<Rightarrow> char \<Rightarrow> bool" where
  "match_class c cl =
     (let sig = (\<lambda>res. if islower cl then res else \<not> res); k = tolower cl in
      if k = CHR ''a'' then sig (isalpha c)
      else if k = CHR ''c'' then sig (iscntrl c)
      else if k = CHR ''d'' then sig (isdigit c)
      else if k = CHR ''l'' then sig (islower c)
      else if k = CHR ''p'' then sig (ispunct c)
      else if k = CHR ''s'' then sig (isspace c)
      else if k = CHR ''u'' then sig (isupper c)
      else if k = CHR ''w'' then sig (isalnum c)
      else if k = CHR ''x'' then sig (isxdigit c)
      else if k = CHR ''z'' then sig (c = NUL)
      else cl = c)"

text \<open>
  \<^verbatim>\<open>classend\<close>: the rest of the pattern behind its first item, \<open>None\<close> when the
  search for the end runs past the terminator.
\<close>

function class_scan :: "string \<Rightarrow> string option" where
  "class_scan [] = None"
| "class_scan (c # cs) =
     (let rest = (if c = L_ESC \<and> cstr_hd cs \<noteq> NUL then tl cs else cs) in
      if rest \<noteq> [] \<and> hd rest = CHR '']'' then Some (tl rest) else class_scan rest)"
  by pat_completeness auto
termination
  by (relation "measure length") (auto simp: cstr_hd_def split: list.splits)

definition classend :: "string \<Rightarrow> string option" where
  "classend p =
     (case p of
        [] \<Rightarrow> None
      | c # p' \<Rightarrow>
          if c = L_ESC then (if p' = [] then None else Some (tl p'))
          else if c = CHR ''['' then
            class_scan (if cstr_hd p' = CHR ''^'' then tl p' else p')
          else Some p')"

text \<open>
  \<^verbatim>\<open>matchbracketclass\<close> with \<open>n = ec - p\<close>: the items strictly between \<^verbatim>\<open>p\<close> and
  \<^verbatim>\<open>ec\<close>, \<open>close\<close> being the character at \<^verbatim>\<open>ec\<close> that an escape in the last place reads.
\<close>

fun bracket_loop :: "char \<Rightarrow> bool \<Rightarrow> char \<Rightarrow> string \<Rightarrow> bool" where
  "bracket_loop c sig close [] = (\<not> sig)"
| "bracket_loop c sig close (x # xs) =
     (if x = L_ESC then
        (case xs of
           [] \<Rightarrow> if match_class c close then sig else \<not> sig
         | y # ys \<Rightarrow> if match_class c y then sig else bracket_loop c sig close ys)
      else case xs of
          y # z # zs \<Rightarrow>
            if y = CHR ''-'' then
              (if schar x \<le> schar c \<and> schar c \<le> schar z then sig else bracket_loop c sig close zs)
            else if x = c then sig else bracket_loop c sig close xs
        | _ \<Rightarrow> if x = c then sig else bracket_loop c sig close xs)"

definition matchbracketclass :: "char \<Rightarrow> string \<Rightarrow> nat \<Rightarrow> bool" where
  "matchbracketclass c p n =
     (let neg = (cstr_hd (tl p) = CHR ''^''); body = take (n - 1) (tl p) in
      bracket_loop c (\<not> neg) (cstr_at p n) (if neg then tl body else body))"

text \<open>\<^verbatim>\<open>singlematch\<close> with \<open>k = ep - p\<close>.\<close>

definition singlematch :: "char \<Rightarrow> string \<Rightarrow> nat \<Rightarrow> bool" where
  "singlematch c p k =
     (let x = cstr_hd p in
      if x = CHR ''.'' then True
      else if x = L_ESC then match_class c (cstr_hd (tl p))
      else if x = CHR ''['' then matchbracketclass c p (k - 1)
      else x = c)"

section \<open>Matching\<close>

type_synonym mresult = "nat option cres"

function balance_loop :: "string \<Rightarrow> nat \<Rightarrow> char \<Rightarrow> char \<Rightarrow> nat \<Rightarrow> nat \<Rightarrow> nat option" where
  "balance_loop src n b e cont s =
     (if Suc s < n then
        (if cstr_at src (Suc s) = e then
           (if cont - 1 = 0 then Some (Suc s + 1) else balance_loop src n b e (cont - 1) (Suc s))
         else if cstr_at src (Suc s) = b then balance_loop src n b e (cont + 1) (Suc s)
         else balance_loop src n b e cont (Suc s))
      else None)"
  by pat_completeness auto
termination
  by (relation "measure (\<lambda>(src, n, b, e, cont, s). n - s)") auto

declare balance_loop.simps [simp del]

definition matchbalance :: "string \<Rightarrow> nat \<Rightarrow> nat \<Rightarrow> string \<Rightarrow> mresult" where
  "matchbalance src n s p =
     (if cstr_at src s \<noteq> cstr_hd p then Inr None
      else if p = [] then Inl Out_of_bounds
      else Inr (balance_loop src n (cstr_hd p) (cstr_hd (tl p)) 1 s))"

text \<open>
  \<^verbatim>\<open>max_expand\<close> and \<^verbatim>\<open>min_expand\<close>: \<open>rest s\<close> is the call \<^verbatim>\<open>match(ms, s, ep+1)\<close>.
\<close>

function expand_count :: "string \<Rightarrow> nat \<Rightarrow> string \<Rightarrow> nat \<Rightarrow> nat \<Rightarrow> nat" where
  "expand_count src n p k s =
     (if s < n \<and> singlematch (cstr_at src s) p k then Suc (expand_count src n p k (Suc s)) else 0)"
  by pat_completeness auto
termination
  by (relation "measure (\<lambda>(src, n, p, k, s). n - s)") auto

declare expand_count.simps [simp del]

fun expand_down :: "(nat \<Rightarrow> mresult) \<Rightarrow> nat \<Rightarrow> nat \<Rightarrow> mresult" where
  "expand_down rest s 0 = rest s"
| "expand_down rest s (Suc i) =
     (case rest (s + Suc i) of Inr None \<Rightarrow> expand_down rest s i | res \<Rightarrow> res)"

definition max_expand :: "(nat \<Rightarrow> mresult) \<Rightarrow> string \<Rightarrow> nat \<Rightarrow> nat \<Rightarrow> string \<Rightarrow> nat \<Rightarrow> mresult" where
  "max_expand rest src n s p k = expand_down rest s (expand_count src n p k s)"

function min_expand :: "(nat \<Rightarrow> mresult) \<Rightarrow> string \<Rightarrow> nat \<Rightarrow> nat \<Rightarrow> string \<Rightarrow> nat \<Rightarrow> mresult" where
  "min_expand rest src n s p k =
     (case rest s of
        Inr None \<Rightarrow> if s < n \<and> singlematch (cstr_at src s) p k
                    then min_expand rest src n (Suc s) p k else Inr None
      | res \<Rightarrow> res)"
  by pat_completeness auto
termination
  by (relation "measure (\<lambda>(rest, src, n, s, p, k). n - s)") auto

declare min_expand.simps [simp del]

lemma class_scan_shorter: "class_scan cs = Some ep \<Longrightarrow> length ep < length cs"
  by (induction cs rule: class_scan.induct) (auto simp: Let_def split: if_splits)

lemma classend_shorter: "classend p = Some ep \<Longrightarrow> length ep < length p"
  by (cases p) (auto simp: classend_def split: if_splits dest: class_scan_shorter)

text \<open>
  \<^verbatim>\<open>match\<close>: the jumps to \<^verbatim>\<open>init\<close> are recursive calls on a shorter pattern.
\<close>

lemma class_tail_shorter:
  "classend (drop m p) = Some ep \<Longrightarrow> length ep < length p"
  using classend_shorter [of "drop m p" ep] by simp

function match :: "string \<Rightarrow> nat \<Rightarrow> nat \<Rightarrow> string \<Rightarrow> mresult" where
  "match src n s p =
     (if cstr_hd p = NUL then Inr (Some s)
      else if hd p = CHR ''('' \<or> hd p = CHR '')'' then match src n s (tl p)
      else if hd p = L_ESC \<and> cstr_hd (tl p) = CHR ''b'' then
        (case matchbalance src n s (drop 2 p) of
           Inl f \<Rightarrow> Inl f
         | Inr None \<Rightarrow> Inr None
         | Inr (Some s') \<Rightarrow> if length p < 4 then Inl Out_of_bounds else match src n s' (drop 4 p))
      else if hd p = L_ESC \<and> cstr_hd (tl p) = CHR ''f'' then
        (case classend (drop 2 p) of
           None \<Rightarrow> Inl Out_of_bounds
         | Some ep \<Rightarrow>
             (let q = drop 2 p; ec = length q - length ep - 1;
                  previous = (if s = 0 then NUL else cstr_at src (s - 1)) in
              if matchbracketclass previous q ec \<or> \<not> matchbracketclass (cstr_at src s) q ec
              then Inr None
              else match src n s ep))
      else if hd p = CHR ''$'' \<and> cstr_hd (tl p) = NUL then Inr (if s = n then Some s else None)
      else case classend p of
          None \<Rightarrow> Inl Out_of_bounds
        | Some ep \<Rightarrow>
            (let k = length p - length ep; m = (s < n \<and> singlematch (cstr_at src s) p k) in
             if cstr_hd ep = CHR ''?'' then
               (if m then (case match src n (Suc s) (tl ep) of
                    Inr None \<Rightarrow> match src n s (tl ep) | res \<Rightarrow> res)
                else match src n s (tl ep))
             else if cstr_hd ep = CHR ''*'' then
               max_expand (\<lambda>s'. match src n s' (tl ep)) src n s p k
             else if cstr_hd ep = CHR ''+'' then
               (if m then max_expand (\<lambda>s'. match src n s' (tl ep)) src n (Suc s) p k else Inr None)
             else if cstr_hd ep = CHR ''-'' then
               min_expand (\<lambda>s'. match src n s' (tl ep)) src n s p k
             else if \<not> m then Inr None else match src n (Suc s) ep))"
  by pat_completeness auto
termination
  by (relation "measure (\<lambda>(src, n, s, p). length p)")
    (auto simp: cstr_hd_def split: list.splits dest: classend_shorter class_tail_shorter)

declare match.simps [simp del]

definition pattern_match :: "string \<Rightarrow> nat \<Rightarrow> string \<Rightarrow> mresult" where
  "pattern_match s len p = match s len 0 p"

definition bstring_match :: "bstring \<Rightarrow> bstring \<Rightarrow> mresult" where
  "bstring_match s pattern = match s (length s) 0 pattern"

section \<open>What a pattern means\<close>

text \<open>
  The declarative reading of a pattern, with no order of trial: an item with its
  quantifier covers the characters from \<open>s\<close> to some \<open>s'\<close>, and the rest of the pattern
  matches from there.  The code's backtracking is one search through these derivations.
\<close>

definition reps :: "string \<Rightarrow> nat \<Rightarrow> string \<Rightarrow> nat \<Rightarrow> nat \<Rightarrow> nat \<Rightarrow> bool" where
  "reps src n p k s s' \<longleftrightarrow>
     s \<le> s' \<and> (\<forall>i\<in>{s..<s'}. i < n \<and> singlematch (cstr_at src i) p k)"

definition escaped :: "string \<Rightarrow> char \<Rightarrow> bool" where
  "escaped p c \<longleftrightarrow> cstr_hd p = L_ESC \<and> cstr_hd (tl p) = c"

definition plain_item :: "string \<Rightarrow> bool" where
  "plain_item p \<longleftrightarrow> cstr_hd p \<notin> {NUL, CHR ''('', CHR '')''} \<and> \<not> escaped p (CHR ''b'') \<and>
     \<not> escaped p (CHR ''f'') \<and> \<not> (cstr_hd p = CHR ''$'' \<and> cstr_hd (tl p) = NUL)"

definition frontier :: "string \<Rightarrow> nat \<Rightarrow> string \<Rightarrow> string \<Rightarrow> bool" where
  "frontier src s q ep \<longleftrightarrow>
     \<not> matchbracketclass (if s = 0 then NUL else cstr_at src (s - 1)) q (length q - length ep - 1) \<and>
     matchbracketclass (cstr_at src s) q (length q - length ep - 1)"

definition quant_ok :: "char \<Rightarrow> nat \<Rightarrow> nat \<Rightarrow> bool" where
  "quant_ok q s s' \<longleftrightarrow>
     (if q = CHR ''?'' then s' \<le> Suc s
      else if q = CHR ''*'' \<or> q = CHR ''-'' then True
      else if q = CHR ''+'' then s < s'
      else s' = Suc s)"

definition after_item :: "string \<Rightarrow> string" where
  "after_item ep = (if cstr_hd ep \<in> {CHR ''?'', CHR ''*'', CHR ''+'', CHR ''-''} then tl ep else ep)"

inductive matches :: "string \<Rightarrow> nat \<Rightarrow> string \<Rightarrow> nat \<Rightarrow> nat \<Rightarrow> bool" for src n where
  M_end: "cstr_hd p = NUL \<Longrightarrow> matches src n p s s"
| M_group: "cstr_hd p = CHR ''('' \<or> cstr_hd p = CHR '')'' \<Longrightarrow> matches src n (tl p) s e \<Longrightarrow>
    matches src n p s e"
| M_balance: "escaped p (CHR ''b'') \<Longrightarrow> matchbalance src n s (drop 2 p) = Inr (Some s') \<Longrightarrow>
    4 \<le> length p \<Longrightarrow> matches src n (drop 4 p) s' e \<Longrightarrow> matches src n p s e"
| M_frontier: "escaped p (CHR ''f'') \<Longrightarrow> classend (drop 2 p) = Some ep \<Longrightarrow>
    frontier src s (drop 2 p) ep \<Longrightarrow> matches src n ep s e \<Longrightarrow> matches src n p s e"
| M_anchor: "cstr_hd p = CHR ''$'' \<Longrightarrow> cstr_hd (tl p) = NUL \<Longrightarrow> matches src n p n n"
| M_item: "plain_item p \<Longrightarrow> classend p = Some ep \<Longrightarrow> reps src n p (length p - length ep) s s' \<Longrightarrow>
    quant_ok (cstr_hd ep) s s' \<Longrightarrow> matches src n (after_item ep) s' e \<Longrightarrow> matches src n p s e"

inductive_simps matches_unfold: "matches src n p s e"

lemma matches_end: "cstr_hd p = NUL \<Longrightarrow> matches src n p s e \<longleftrightarrow> e = s"
  by (subst matches_unfold) (auto simp: escaped_def plain_item_def)

lemma matches_group:
  "cstr_hd p = CHR ''('' \<or> cstr_hd p = CHR '')'' \<Longrightarrow> matches src n p s e \<longleftrightarrow> matches src n (tl p) s e"
  by (subst matches_unfold) (auto simp: escaped_def plain_item_def)

lemma matches_balance:
  "escaped p (CHR ''b'') \<Longrightarrow> matches src n p s e \<longleftrightarrow>
     (\<exists>s'. matchbalance src n s (drop 2 p) = Inr (Some s') \<and> 4 \<le> length p \<and> matches src n (drop 4 p) s' e)"
  by (subst matches_unfold) (auto simp: escaped_def plain_item_def)

lemma matches_frontier:
  "escaped p (CHR ''f'') \<Longrightarrow> matches src n p s e \<longleftrightarrow>
     (\<exists>ep. classend (drop 2 p) = Some ep \<and> frontier src s (drop 2 p) ep \<and> matches src n ep s e)"
  by (subst matches_unfold) (auto simp: escaped_def plain_item_def)

lemma matches_anchor:
  "cstr_hd p = CHR ''$'' \<Longrightarrow> cstr_hd (tl p) = NUL \<Longrightarrow> matches src n p s e \<longleftrightarrow> s = n \<and> e = n"
  by (subst matches_unfold) (auto simp: escaped_def plain_item_def)

lemma matches_item:
  "plain_item p \<Longrightarrow> classend p = Some ep \<Longrightarrow> matches src n p s e \<longleftrightarrow>
     (\<exists>s'. reps src n p (length p - length ep) s s' \<and> quant_ok (cstr_hd ep) s s' \<and>
           matches src n (after_item ep) s' e)"
  by (subst matches_unfold) (auto simp: escaped_def plain_item_def)

section \<open>The expansions search all repetitions\<close>

lemma reps_refl [simp]: "reps src n p k s s"
  by (simp add: reps_def)

lemma reps_Suc: "s < s' \<Longrightarrow> reps src n p k s s' \<longleftrightarrow>
    s < n \<and> singlematch (cstr_at src s) p k \<and> reps src n p k (Suc s) s'"
  unfolding reps_def by (auto simp: Suc_le_eq le_less)

lemma reps_one: "reps src n p k s (Suc s) \<longleftrightarrow> s < n \<and> singlematch (cstr_at src s) p k"
  by (simp add: reps_Suc)

lemma reps_count: "reps src n p k s s' \<longleftrightarrow> s \<le> s' \<and> s' \<le> s + expand_count src n p k s"
proof (induction src n p k s rule: expand_count.induct)
  case (1 src n p k s)
  show ?case
  proof (cases "s < s'")
    case True
    with 1 show ?thesis by (subst expand_count.simps) (auto simp: reps_Suc)
  qed (auto simp: reps_def)
qed

lemma expand_down_None: "expand_down rest s c = Inr None \<Longrightarrow> \<forall>i\<le>c. rest (s + i) = Inr None"
  by (induction c) (auto simp: le_Suc_eq split: sum.splits option.splits)

lemma expand_down_Some: "expand_down rest s c = Inr (Some e) \<Longrightarrow>
   \<exists>i\<le>c. rest (s + i) = Inr (Some e) \<and> (\<forall>j. i < j \<and> j \<le> c \<longrightarrow> rest (s + j) = Inr None)"
proof (induction c)
  case (Suc c)
  show ?case
  proof (cases "rest (s + Suc c) = Inr None")
    case True
    with Suc obtain i where "i \<le> c" "rest (s + i) = Inr (Some e)"
      "\<forall>j. i < j \<and> j \<le> c \<longrightarrow> rest (s + j) = Inr None" by auto
    with True show ?thesis by (metis le_Suc_eq)
  next
    case False
    with Suc.prems show ?thesis by (intro exI [of _ "Suc c"]) (auto split: sum.splits option.splits)
  qed
qed simp

lemma expand_down_Inl: "expand_down rest s c = Inl f \<Longrightarrow> \<exists>i\<le>c. rest (s + i) = Inl f"
  by (induction c) (auto simp: le_Suc_eq split: sum.splits option.splits)

lemma max_expand_None:
  "max_expand rest src n s p k = Inr None \<Longrightarrow> reps src n p k s s' \<Longrightarrow> rest s' = Inr None"
  unfolding max_expand_def reps_count
  by (drule expand_down_None) (metis add_diff_inverse_nat leD nat_add_left_cancel_le)

lemma max_expand_Some:
  "max_expand rest src n s p k = Inr (Some e) \<Longrightarrow>
   \<exists>s'. reps src n p k s s' \<and> rest s' = Inr (Some e) \<and>
        (\<forall>s''>s'. reps src n p k s s'' \<longrightarrow> rest s'' = Inr None)"
proof -
  assume "max_expand rest src n s p k = Inr (Some e)"
  then obtain i where i: "i \<le> expand_count src n p k s" "rest (s + i) = Inr (Some e)"
    and greedy: "\<forall>j. i < j \<and> j \<le> expand_count src n p k s \<longrightarrow> rest (s + j) = Inr None"
    unfolding max_expand_def by (auto dest: expand_down_Some)
  have "rest s'' = Inr None" if "s + i < s''" "s'' \<le> s + expand_count src n p k s" for s''
    using that greedy [rule_format, of "s'' - s"] by fastforce
  with i show ?thesis by (intro exI [of _ "s + i"]) (auto simp: reps_count)
qed

lemma max_expand_Inl:
  "max_expand rest src n s p k = Inl f \<Longrightarrow> \<exists>s'. reps src n p k s s' \<and> rest s' = Inl f"
  unfolding max_expand_def reps_count by (drule expand_down_Inl) (metis le_add1 nat_add_left_cancel_le)

lemma min_expand_spec:
  "min_expand rest src n s p k = res \<Longrightarrow>
   (res = Inr None \<longrightarrow> (\<forall>s'. reps src n p k s s' \<longrightarrow> rest s' = Inr None)) \<and>
   (res \<noteq> Inr None \<longrightarrow> (\<exists>s'. reps src n p k s s' \<and> rest s' = res \<and> (\<forall>s''\<in>{s..<s'}. rest s'' = Inr None)))"
proof (induction rest src n s p k rule: min_expand.induct)
  case (1 rest src n s p k)
  let ?more = "s < n \<and> singlematch (cstr_at src s) p k"
  consider (now) "rest s \<noteq> Inr None" | (stop) "rest s = Inr None" "\<not> ?more"
    | (step) "rest s = Inr None" "?more" by blast
  then show ?case
  proof cases
    case now
    with 1(2) have "res = rest s"
      by (simp add: min_expand.simps [of rest src n s] split: sum.splits option.splits)
    with now show ?thesis by (auto intro!: exI [of _ s])
  next
    case stop
    with 1(2) have "res = Inr None" by (simp add: min_expand.simps [of rest src n s])
    moreover have "s' = s" if "reps src n p k s s'" for s'
      using that stop reps_Suc [of s s' src n p k] by (cases "s < s'") (auto simp: reps_def [of src n p k s s'])
    ultimately show ?thesis using stop by auto
  next
    case step
    then have eq: "min_expand rest src n (Suc s) p k = res"
      using 1(2) by (simp add: min_expand.simps [of rest src n s])
    note IH = 1(1) [OF step(1) refl step(2) eq]
    have shift: "reps src n p k s s' \<longleftrightarrow> s' = s \<or> reps src n p k (Suc s) s'" for s'
      using step(2) reps_Suc [of s s' src n p k]
      by (cases "s < s'") (auto simp: reps_def [of src n p k _ s'])
    have lazy: "\<forall>s''\<in>{s..<s'}. rest s'' = Inr None" if "\<forall>s''\<in>{Suc s..<s'}. rest s'' = Inr None" for s'
      using that step(1) by (metis Suc_leI atLeastLessThan_iff le_neq_implies_less)
    show ?thesis using IH step(1) lazy unfolding shift by blast
  qed
qed

section \<open>The matcher is sound and complete\<close>

text \<open>The default branch of \<^verbatim>\<open>match\<close>, for any quantifier.\<close>

definition item_result :: "(nat \<Rightarrow> mresult) \<Rightarrow> (nat \<Rightarrow> bool) \<Rightarrow> mresult \<Rightarrow> bool" where
  "item_result rest ok res \<longleftrightarrow>
     (if res = Inr None then \<forall>s'. ok s' \<longrightarrow> rest s' = Inr None
      else \<exists>s'. ok s' \<and> rest s' = res)"

lemma item_result_max:
  "item_result rest (\<lambda>s'. reps src n p k s s') (max_expand rest src n s p k)"
proof (cases "max_expand rest src n s p k" rule: sum.exhaust [case_names fault returns])
  case (fault f)
  then show ?thesis using max_expand_Inl by (fastforce simp: item_result_def)
next
  case (returns r)
  then show ?thesis using max_expand_None max_expand_Some
    by (cases r) (fastforce simp: item_result_def)+
qed

lemma item_result_min:
  "item_result rest (\<lambda>s'. reps src n p k s s') (min_expand rest src n s p k)"
  unfolding item_result_def using min_expand_spec [OF refl, of rest src n s p k] by auto

lemma item_result_pick:
  "item_result rest ok res \<Longrightarrow> (\<And>s'. ok s' \<Longrightarrow> rest s' = Inr (Some e) \<Longrightarrow> Q s' e) \<Longrightarrow>
   res = Inr (Some e) \<Longrightarrow> \<exists>s'. ok s' \<and> Q s' e"
  by (auto simp: item_result_def)

definition correct_on :: "string \<Rightarrow> nat \<Rightarrow> string \<Rightarrow> nat \<Rightarrow> mresult \<Rightarrow> bool" where
  "correct_on src n p s res \<longleftrightarrow>
     (\<forall>e. res = Inr (Some e) \<longrightarrow> matches src n p s e) \<and>
     (res = Inr None \<longrightarrow> (\<forall>e. \<not> matches src n p s e))"

lemma correct_on_fault [simp]: "correct_on src n p s (Inl f)"
  by (simp add: correct_on_def)

lemma correct_on_item:
  assumes "plain_item p" "classend p = Some ep"
    and "item_result rest (\<lambda>s'. reps src n p (length p - length ep) s s' \<and> quant_ok (cstr_hd ep) s s') res"
    and "\<And>s'. reps src n p (length p - length ep) s s' \<Longrightarrow> quant_ok (cstr_hd ep) s s' \<Longrightarrow>
      correct_on src n (after_item ep) s' (rest s')"
  shows "correct_on src n p s res"
  using assms(3,4) unfolding correct_on_def matches_item [OF assms(1,2)] item_result_def
  by (auto split: if_splits)

text \<open>The branches of \<^verbatim>\<open>match\<close>, told apart by the head of the pattern.\<close>

lemma match_end: "cstr_hd p = NUL \<Longrightarrow> match src n s p = Inr (Some s)"
  by (simp add: match.simps)

lemma match_group: "cstr_hd p = CHR ''('' \<or> cstr_hd p = CHR '')'' \<Longrightarrow> match src n s p = match src n s (tl p)"
  by (subst match.simps) (auto simp: cstr_hd_def split: list.splits)

lemma match_balance:
  "escaped p (CHR ''b'') \<Longrightarrow> match src n s p =
     (case matchbalance src n s (drop 2 p) of
        Inl f \<Rightarrow> Inl f
      | Inr None \<Rightarrow> Inr None
      | Inr (Some s') \<Rightarrow> if length p < 4 then Inl Out_of_bounds else match src n s' (drop 4 p))"
  by (subst match.simps) (auto simp: escaped_def cstr_hd_def split: list.splits)

lemma match_frontier:
  "escaped p (CHR ''f'') \<Longrightarrow> match src n s p =
     (case classend (drop 2 p) of
        None \<Rightarrow> Inl Out_of_bounds
      | Some ep \<Rightarrow> if frontier src s (drop 2 p) ep then match src n s ep else Inr None)"
  by (subst match.simps)
    (auto simp: escaped_def frontier_def Let_def cstr_hd_def split: list.splits option.splits)

lemma match_anchor:
  "cstr_hd p = CHR ''$'' \<Longrightarrow> cstr_hd (tl p) = NUL \<Longrightarrow> match src n s p = Inr (if s = n then Some s else None)"
  by (subst match.simps) (auto simp: cstr_hd_def split: list.splits)

lemma match_fault: "plain_item p \<Longrightarrow> classend p = None \<Longrightarrow> match src n s p = Inl Out_of_bounds"
  by (subst match.simps) (auto simp: plain_item_def escaped_def cstr_hd_def split: list.splits)

lemma match_plain:
  assumes "plain_item p" "classend p = Some ep"
  shows "match src n s p =
     (let k = length p - length ep; m = (s < n \<and> singlematch (cstr_at src s) p k);
          rest = (\<lambda>s'. match src n s' (after_item ep)) in
      if cstr_hd ep = CHR ''?'' then
        (if m then (case rest (Suc s) of Inr None \<Rightarrow> rest s | res \<Rightarrow> res) else rest s)
      else if cstr_hd ep = CHR ''*'' then max_expand rest src n s p k
      else if cstr_hd ep = CHR ''+'' then (if m then max_expand rest src n (Suc s) p k else Inr None)
      else if cstr_hd ep = CHR ''-'' then min_expand rest src n s p k
      else if m then rest (Suc s) else Inr None)"
proof (cases p)
  case (Cons c p')
  have "c \<noteq> NUL" "c \<noteq> CHR ''(''" "c \<noteq> CHR '')''" "\<not> (c = L_ESC \<and> cstr_hd p' = CHR ''b'')"
    "\<not> (c = L_ESC \<and> cstr_hd p' = CHR ''f'')" "\<not> (c = CHR ''$'' \<and> cstr_hd p' = NUL)"
    using assms(1) by (auto simp: Cons plain_item_def escaped_def)
  note eq = match.simps [of src n s p, unfolded Cons, simplified this(1-3) list.sel cstr_hd_simps simp_thms,
      simplified this(4-6) if_False assms(2) [unfolded Cons] option.case Let_def simp_thms]
  consider (q) "cstr_hd ep = CHR ''?''" | (star) "cstr_hd ep = CHR ''*''" | (plus) "cstr_hd ep = CHR ''+''"
    | (minus) "cstr_hd ep = CHR ''-''"
    | (one) "cstr_hd ep \<notin> {CHR ''?'', CHR ''*'', CHR ''+'', CHR ''-''}" by blast
  then show ?thesis
    by cases (simp_all add: eq Cons Let_def after_item_def)
qed (use assms in \<open>simp add: plain_item_def\<close>)

lemma match_item:
  assumes "plain_item p" "classend p = Some ep"
  shows "item_result (\<lambda>s'. match src n s' (after_item ep))
           (\<lambda>s'. reps src n p (length p - length ep) s s' \<and> quant_ok (cstr_hd ep) s s') (match src n s p)"
proof -
  define k where "k = length p - length ep"
  define rest where "rest = (\<lambda>s'. match src n s' (after_item ep))"
  let ?R = "reps src n p k"
  have opt: "?R s s' \<and> s' \<le> Suc s \<longleftrightarrow> s' = s \<or> s' = Suc s \<and> ?R s (Suc s)" for s'
    by (cases "s' = s"; cases "s' = Suc s") (simp_all add: reps_def [of src n p k s s'])
  have plus': "?R s s' \<and> s < s' \<longleftrightarrow> ?R s (Suc s) \<and> ?R (Suc s) s'" for s'
    by (cases "s < s'") (simp_all add: reps_Suc reps_one, simp add: reps_def)
  have one': "?R s s' \<and> s' = Suc s \<longleftrightarrow> s' = Suc s \<and> ?R s (Suc s)" for s' by blast
  have max: "item_result rest (?R s'') (max_expand rest src n s'' p k)" for s''
    using item_result_max by blast
  have min: "item_result rest (?R s) (min_expand rest src n s p k)"
    using item_result_min by blast
  consider (q) "cstr_hd ep = CHR ''?''" | (star) "cstr_hd ep = CHR ''*''" | (plus) "cstr_hd ep = CHR ''+''"
    | (minus) "cstr_hd ep = CHR ''-''"
    | (one) "cstr_hd ep \<notin> {CHR ''?'', CHR ''*'', CHR ''+'', CHR ''-''}" by blast
  then have "item_result rest (\<lambda>s'. ?R s s' \<and> quant_ok (cstr_hd ep) s s') (match src n s p)"
  proof cases
    case q
    then show ?thesis unfolding match_plain [OF assms] quant_ok_def
      by (simp add: opt Let_def rest_def [symmetric] k_def [symmetric] reps_one [symmetric])
        (auto simp: item_result_def split: sum.splits option.splits)
  next
    case star
    then show ?thesis unfolding match_plain [OF assms] quant_ok_def
      by (simp add: Let_def rest_def [symmetric] k_def [symmetric] max)
  next
    case plus
    with max [of "Suc s"] show ?thesis unfolding match_plain [OF assms] quant_ok_def
      by (simp add: plus' Let_def rest_def [symmetric] k_def [symmetric] reps_one [symmetric])
        (auto simp: item_result_def)
  next
    case minus
    then show ?thesis unfolding match_plain [OF assms] quant_ok_def
      by (simp add: Let_def rest_def [symmetric] k_def [symmetric] min)
  next
    case one
    then show ?thesis unfolding match_plain [OF assms] quant_ok_def
      by (simp add: one' Let_def rest_def [symmetric] k_def [symmetric] reps_one [symmetric])
        (auto simp: item_result_def)
  qed
  then show ?thesis by (simp add: rest_def k_def)
qed

lemma match_correct_on: "correct_on src n p s (match src n s p)"
proof (induction p arbitrary: s rule: measure_induct_rule [of length])
  case (less p)
  consider (fin) "cstr_hd p = NUL" | (group) "cstr_hd p = CHR ''('' \<or> cstr_hd p = CHR '')''"
    | (balance) "escaped p (CHR ''b'')" | (frontier) "escaped p (CHR ''f'')"
    | (anchor) "cstr_hd p = CHR ''$''" "cstr_hd (tl p) = NUL"
    | (plain) "plain_item p" by (auto simp: plain_item_def)
  then show ?case
  proof cases
    case fin
    then show ?thesis by (simp add: match_end correct_on_def matches_end)
  next
    case group
    then have "length (tl p) < length p" by (cases p) auto
    from less [OF this, of s] group show ?thesis
      by (simp add: match_group correct_on_def matches_group)
  next
    case balance
    then have "length (drop 4 p) < length p" by (cases p) (auto simp: escaped_def)
    from less [OF this] balance show ?thesis
      by (auto simp: match_balance correct_on_def matches_balance split: sum.splits option.splits)
  next
    case frontier
    show ?thesis
    proof (cases "classend (drop 2 p)")
      case (Some ep)
      from less [OF class_tail_shorter [OF this], of s] frontier Some show ?thesis
        by (auto simp: match_frontier correct_on_def matches_frontier)
    qed (simp add: match_frontier [OF frontier])
  next
    case anchor
    then show ?thesis by (simp add: match_anchor correct_on_def matches_anchor)
  next
    case plain
    show ?thesis
    proof (cases "classend p")
      case (Some ep)
      have "length (after_item ep) < length p"
        using classend_shorter [OF Some] by (auto simp: after_item_def)
      from correct_on_item [OF plain Some match_item [OF plain Some]] less [OF this]
      show ?thesis by blast
    qed (simp add: match_fault [OF plain])
  qed
qed

section \<open>Bounds and well-formed patterns\<close>

lemma balance_loop_bounds: "balance_loop src n b e cont s = Some s' \<Longrightarrow> s < s' \<and> s' \<le> n"
proof (induction "n - s" arbitrary: s cont)
  case (Suc d)
  have "Suc s < s' \<and> s' \<le> n" if "balance_loop src n b e cont' (Suc s) = Some s'" for cont'
    using Suc.hyps(1) [OF _ that] Suc.hyps(2) by linarith
  with Suc.prems show ?case
    by (subst (asm) balance_loop.simps) (fastforce split: if_splits)
qed (simp add: balance_loop.simps)

lemma matches_bounds: "matches src n p s e \<Longrightarrow> s \<le> n \<Longrightarrow> s \<le> e \<and> e \<le> n"
proof (induction rule: matches.induct)
  case (M_balance p s s' e)
  then have "s < s' \<and> s' \<le> n"
    by (auto simp: matchbalance_def split: if_splits dest: balance_loop_bounds)
  with M_balance.IH show ?case by simp
next
  case (M_item p ep s s' e)
  then have "s \<le> s' \<and> s' \<le> n"
    by (cases s') (auto simp: reps_def)
  with M_item.IH show ?case by simp
qed auto

text \<open>
  A pattern the code reads to its terminator and not past it: every escape has its
  character, every set its bracket, every balance item its two delimiters.
\<close>

function wf_pattern :: "string \<Rightarrow> bool" where
  "wf_pattern p =
     (if cstr_hd p = NUL then True
      else if cstr_hd p = CHR ''('' \<or> cstr_hd p = CHR '')'' then wf_pattern (tl p)
      else if escaped p (CHR ''b'') then 4 \<le> length p \<and> wf_pattern (drop 4 p)
      else if escaped p (CHR ''f'') then
        (case classend (drop 2 p) of None \<Rightarrow> False | Some ep \<Rightarrow> wf_pattern ep)
      else if cstr_hd p = CHR ''$'' \<and> cstr_hd (tl p) = NUL then True
      else (case classend p of None \<Rightarrow> False | Some ep \<Rightarrow> wf_pattern (after_item ep)))"
  by pat_completeness auto
termination
  by (relation "measure length")
    (auto simp: cstr_hd_def after_item_def split: list.splits dest: classend_shorter class_tail_shorter)

declare wf_pattern.simps [simp del]

lemma match_no_fault: "wf_pattern p \<Longrightarrow> match src n s p \<noteq> Inl f"
proof (induction p arbitrary: s rule: wf_pattern.induct)
  case (1 p)
  consider (fin) "cstr_hd p = NUL" | (group) "cstr_hd p = CHR ''('' \<or> cstr_hd p = CHR '')''"
    | (balance) "escaped p (CHR ''b'')" | (frontier) "escaped p (CHR ''f'')"
    | (anchor) "cstr_hd p = CHR ''$''" "cstr_hd (tl p) = NUL"
    | (plain) "plain_item p" by (auto simp: plain_item_def)
  then show ?case
  proof cases
    case fin
    then show ?thesis by (simp add: match_end)
  next
    case group
    with 1(1,5) show ?thesis by (auto simp: match_group wf_pattern.simps [of p])
  next
    case balance
    then have "cstr_hd p = L_ESC" by (simp add: escaped_def)
    with balance 1(5) have "4 \<le> length p" "wf_pattern (drop 4 p)" by (auto simp: wf_pattern.simps [of p])
    with balance \<open>cstr_hd p = L_ESC\<close> 1(2) show ?thesis
      by (auto simp: match_balance matchbalance_def split: sum.splits option.splits if_splits)
  next
    case frontier
    then have esc: "cstr_hd p = L_ESC" "\<not> escaped p (CHR ''b'')" by (auto simp: escaped_def)
    with frontier 1(5) obtain ep where ep: "classend (drop 2 p) = Some ep" "wf_pattern ep"
      by (auto simp: wf_pattern.simps [of p] split: option.splits)
    have "match src n s ep \<noteq> Inl f" using 1(3) [OF _ _ esc(2) frontier ep(1,2)] esc(1) by simp
    then show ?thesis using ep by (simp add: match_frontier [OF frontier])
  next
    case anchor
    then show ?thesis by (simp add: match_anchor)
  next
    case plain
    with 1(5) obtain ep where ep: "classend p = Some ep" "wf_pattern (after_item ep)"
      by (auto simp: wf_pattern.simps [of p] plain_item_def split: option.splits)
    have "match src n s' (after_item ep) \<noteq> Inl f" for s'
      using 1(4) [OF _ _ _ _ _ ep] plain by (simp add: plain_item_def)
    then show ?thesis using match_item [OF plain ep(1), of src n s]
      by (auto simp: item_result_def split: if_splits)
  qed
qed

section \<open>Literal patterns\<close>

text \<open>A pattern without special characters: matching is comparing a prefix.\<close>

definition special :: "char \<Rightarrow> bool" where
  "special c \<longleftrightarrow> c \<in> set ''().[?*+-$'' \<or> c = L_ESC \<or> c = NUL"

definition literal :: "string \<Rightarrow> bool" where
  "literal p \<longleftrightarrow> (\<forall>c\<in>set p. \<not> special c)"

lemma literal_Cons: "literal (c # p) \<longleftrightarrow> \<not> special c \<and> literal p"
  by (simp add: literal_def)

lemma literal_hd: "literal p \<Longrightarrow> cstr_hd p \<notin> set ''?*+-$''"
  by (cases p) (auto simp: literal_def special_def)

lemma match_literal_char:
  assumes "literal (c # p)"
  shows "match src n s (c # p) = (if s < n \<and> cstr_at src s = c then match src n (Suc s) p else Inr None)"
proof -
  have "plain_item (c # p)" "classend (c # p) = Some p" "after_item p = p"
    "cstr_hd p \<noteq> CHR ''?''" "cstr_hd p \<noteq> CHR ''*''" "cstr_hd p \<noteq> CHR ''+''" "cstr_hd p \<noteq> CHR ''-''"
    using assms literal_hd [of p]
    by (auto simp: literal_Cons special_def plain_item_def escaped_def classend_def after_item_def)
  moreover have "singlematch x (c # p) 1 \<longleftrightarrow> x = c" for x
    using assms by (auto simp: singlematch_def literal_Cons special_def)
  ultimately show ?thesis by (simp add: match_plain Let_def)
qed

lemma match_literal:
  "literal p \<Longrightarrow> s \<le> length src \<Longrightarrow>
   match src (length src) s p =
     Inr (if take (length p) (drop s src) = p then Some (s + length p) else None)"
proof (induction p arbitrary: s)
  case (Cons c p)
  show ?case
  proof (cases "s < length src")
    case True
    with Cons show ?thesis
      by (simp add: match_literal_char literal_Cons cstr_at_def Cons_nth_drop_Suc [symmetric])
  qed (use Cons in \<open>simp add: match_literal_char\<close>)
qed (simp add: match_end)

section \<open>Properties\<close>

text \<open>
  C22: on a well-formed pattern \<^verbatim>\<open>bstring_match\<close> never reads past the pattern's
  terminator; it answers an end position inside the subject exactly when the pattern, read
  declaratively, matches from the start, so the greedy, lazy and optional expansions
  together try every way to match.
\<close>

theorem bstring_match_decides:
  assumes "wf_pattern p"
  shows "\<exists>r. bstring_match s p = Inr r \<and>
           (case r of Some e \<Rightarrow> matches s (length s) p 0 e \<and> e \<le> length s
                    | None \<Rightarrow> \<forall>e. \<not> matches s (length s) p 0 e)"
proof -
  obtain r where r: "match s (length s) 0 p = Inr r"
    using match_no_fault [OF assms] by (cases "match s (length s) 0 p") auto
  then show ?thesis using match_correct_on [of s "length s" p 0] matches_bounds [of s "length s" p 0]
    by (cases r) (auto simp: bstring_match_def correct_on_def)
qed

lemma bstring_match_decides_witness:
  "\<exists>r. bstring_match ''/chat/12'' ''/chat/[0-9]+$'' = Inr r \<and>
      (case r of Some e \<Rightarrow> matches ''/chat/12'' (length ''/chat/12'') ''/chat/[0-9]+$'' 0 e \<and> e \<le> length ''/chat/12''
               | None \<Rightarrow> \<forall>e. \<not> matches ''/chat/12'' (length ''/chat/12'') ''/chat/[0-9]+$'' 0 e)"
proof -
  have "wf_pattern ''/chat/[0-9]+$''" by code_simp
  then show ?thesis by (rule bstring_match_decides)
qed

text \<open>
  a pattern without special characters matches exactly the subjects it is a
  prefix of, and the match ends behind it.
\<close>

theorem bstring_match_literal:
  assumes "literal p"
  shows "bstring_match s p = Inr (if take (length p) s = p then Some (length p) else None)"
  using match_literal [OF assms, of 0 s] by (simp add: bstring_match_def)

lemma bstring_match_literal_witness:
  "literal ''/docs/'' \<and> bstring_match ''/docs/a.html'' ''/docs/'' = Inr (Some 6)"
proof -
  have l: "literal ''/docs/''" by code_simp
  show ?thesis using bstring_match_literal [OF l, of "''/docs/a.html''"] l by simp
qed

text \<open>
  \<^verbatim>\<open>max_expand\<close> is greedy: the answer comes from the largest number of
  repetitions of the item after which the rest of the pattern matches.
\<close>

theorem max_expand_greedy:
  assumes "max_expand rest src n s p k = Inr (Some e)"
  shows "\<exists>s'. reps src n p k s s' \<and> rest s' = Inr (Some e) \<and>
           (\<forall>s''>s'. reps src n p k s s'' \<longrightarrow> rest s'' = Inr None)"
  using assms by (rule max_expand_Some)

lemma max_expand_greedy_witness:
  "\<exists>s'. reps ''aab'' 3 ''a*'' 1 0 s' \<and> (\<lambda>s'. match ''aab'' 3 s' ''a'') s' = Inr (Some 2) \<and>
      (\<forall>s''>s'. reps ''aab'' 3 ''a*'' 1 0 s'' \<longrightarrow> (\<lambda>s'. match ''aab'' 3 s' ''a'') s'' = Inr None)"
proof -
  have "max_expand (\<lambda>s'. match ''aab'' 3 s' ''a'') ''aab'' 3 0 ''a*'' 1 = Inr (Some 2)" by code_simp
  then show ?thesis by (rule max_expand_greedy)
qed

end
