(* ===== verification/Bstr.thy ===== *)
theory Bstr
  imports Prelude
begin

text \<open>
  The operations of the bundled string library (\<^verbatim>\<open>src/bstr/bstrlib.c\<close>,
  \<^verbatim>\<open>bstraux.c\<close>) that the server's routing, MIME and file code calls.  A valid
  bstring is the list of its \<^verbatim>\<open>slen\<close> bytes and a \<^verbatim>\<open>NULL\<close> argument or result is
  \<open>None\<close>; lengths and positions are \<^verbatim>\<open>int\<close> as in the code, whose error results are
  kept.  Allocation inside the library is taken to succeed.
\<close>

section \<open>Searching and cutting\<close>

definition BSTR_ERR :: int where
  "BSTR_ERR = -1"

fun memchr_from :: "string \<Rightarrow> char \<Rightarrow> nat \<Rightarrow> nat option" where
  "memchr_from [] c i = None"
| "memchr_from (x # xs) c i = (if x = c then Some i else memchr_from xs c (Suc i))"

definition bstrchrp :: "bstring \<Rightarrow> char \<Rightarrow> int \<Rightarrow> int" where
  "bstrchrp b c pos =
     (if int (length b) \<le> pos \<or> pos < 0 then BSTR_ERR
      else case memchr_from (drop (nat pos) b) c (nat pos) of Some i \<Rightarrow> int i | None \<Rightarrow> BSTR_ERR)"

definition bstrchr :: "bstring \<Rightarrow> char \<Rightarrow> int" where
  "bstrchr b c = bstrchrp b c 0"

fun rchr_loop :: "bstring \<Rightarrow> char \<Rightarrow> nat \<Rightarrow> int" where
  "rchr_loop b c 0 = (if cstr_at b 0 = c then 0 else BSTR_ERR)"
| "rchr_loop b c (Suc i) = (if cstr_at b (Suc i) = c then int (Suc i) else rchr_loop b c i)"

definition bstrrchrp :: "bstring \<Rightarrow> char \<Rightarrow> int \<Rightarrow> int" where
  "bstrrchrp b c pos =
     (if int (length b) \<le> pos \<or> pos < 0 then BSTR_ERR else rchr_loop b c (nat pos))"

definition bstrrchr :: "bstring \<Rightarrow> char \<Rightarrow> int" where
  "bstrrchr b c = bstrrchrp b c (int (length b) - 1)"

definition blk2bstr :: "string \<Rightarrow> int \<Rightarrow> bstring option" where
  "blk2bstr blk len = (if len < 0 then None else Some (take (nat len) blk))"

definition bmidstr :: "bstring \<Rightarrow> int \<Rightarrow> int \<Rightarrow> bstring option" where
  "bmidstr b left len =
     (let len = (if left < 0 then len + left else len);
          left = (if left < 0 then 0 else left);
          len = (if len > int (length b) - left then int (length b) - left else len) in
      if len \<le> 0 then Some [] else blk2bstr (drop (nat left) b) len)"

definition bTail :: "bstring \<Rightarrow> int \<Rightarrow> bstring option" where
  "bTail b n =
     (if n < 0 then None
      else if n \<ge> int (length b) then Some b
      else bmidstr b (int (length b) - n) n)"

definition bHead :: "bstring \<Rightarrow> int \<Rightarrow> bstring option" where
  "bHead b n =
     (if n < 0 then None
      else if n \<ge> int (length b) then Some b
      else bmidstr b 0 n)"

text \<open>\<^verbatim>\<open>bReverse\<close> swaps in place; \<open>n\<close> is the last index, \<open>m\<close> half the length.\<close>

function reverse_loop :: "string \<Rightarrow> nat \<Rightarrow> nat \<Rightarrow> nat \<Rightarrow> string" where
  "reverse_loop d n m i =
     (if i < m then reverse_loop (d[n - i := d ! i, i := d ! (n - i)]) n m (Suc i) else d)"
  by pat_completeness auto
termination
  by (relation "measure (\<lambda>(d, n, m, i). m - i)") auto

declare reverse_loop.simps [simp del]

definition bReverse :: "bstring \<Rightarrow> bstring" where
  "bReverse b = (if 2 \<le> length b then reverse_loop b (length b - 1) (length b div 2) 0 else b)"

section \<open>Comparing\<close>

definition biseq :: "bstring option \<Rightarrow> bstring option \<Rightarrow> int" where
  "biseq b0 b1 =
     (case (b0, b1) of (Some x, Some y) \<Rightarrow> if length x \<noteq> length y then 0 else if x = y then 1 else 0
      | _ \<Rightarrow> BSTR_ERR)"

fun iseqcstr_loop :: "bstring \<Rightarrow> string \<Rightarrow> bool" where
  "iseqcstr_loop [] s = (cstr_hd s = NUL)"
| "iseqcstr_loop (x # xs) s = (if cstr_hd s = NUL \<or> x \<noteq> cstr_hd s then False else iseqcstr_loop xs (tl s))"

definition biseqcstr :: "bstring option \<Rightarrow> string \<Rightarrow> int" where
  "biseqcstr b s = (case b of None \<Rightarrow> BSTR_ERR | Some x \<Rightarrow> if iseqcstr_loop x s then 1 else 0)"

text \<open>
  \<^verbatim>\<open>bstrcmp\<close> and \<^verbatim>\<open>bstrncmp\<close>.  The comparison stops at the first difference and, as
  \<^verbatim>\<open>strncmp\<close> would, at an embedded \<^verbatim>\<open>'\0'\<close>.  The shortcut for two bstrings that share
  their buffer answers as the loop does, so buffers are not told apart.
\<close>

fun ncmp_loop :: "string \<Rightarrow> string \<Rightarrow> int option" where
  "ncmp_loop (x # xs) (y # ys) =
     (if x \<noteq> y then Some (schar x - schar y)
      else if x = NUL then Some 0
      else ncmp_loop xs ys)"
| "ncmp_loop _ _ = None"

definition bstrcmp :: "bstring option \<Rightarrow> bstring option \<Rightarrow> int" where
  "bstrcmp b0 b1 =
     (case (b0, b1) of
        (Some x, Some y) \<Rightarrow>
          (let n = min (length x) (length y) in
           if length x = length y \<and> x = [] then 0
           else case ncmp_loop (take n x) (take n y) of
             Some v \<Rightarrow> v
           | None \<Rightarrow> if length x > n then 1 else if length y > n then -1 else 0)
      | _ \<Rightarrow> - 32768)"

definition bstrncmp :: "bstring option \<Rightarrow> bstring option \<Rightarrow> int \<Rightarrow> int" where
  "bstrncmp b0 b1 n =
     (case (b0, b1) of
        (Some x, Some y) \<Rightarrow>
          (let m = min n (min (int (length x)) (int (length y))) in
           case ncmp_loop (take (nat m) x) (take (nat m) y) of
             Some v \<Rightarrow> v
           | None \<Rightarrow>
               if n = m \<or> length x = length y then 0
               else if int (length x) > m then 1 else -1)
      | _ \<Rightarrow> - 32768)"

text \<open>
  \<^verbatim>\<open>bstricmp\<close> compares lower-cased signed characters; a string that ends first is compared by the
  other's next character, 256 standing for a \<^verbatim>\<open>'\0'\<close> there.
\<close>

fun bstricmp :: "bstring \<Rightarrow> bstring \<Rightarrow> int" where
  "bstricmp [] [] = 0"
| "bstricmp (a # as) [] = (let v = schar (tolower a) in if v \<noteq> 0 then v else 256)"
| "bstricmp [] (b # bs) = (let v = - schar (tolower b) in if v \<noteq> 0 then v else - 256)"
| "bstricmp (a # as) (b # bs) =
     (let v = schar (tolower a) - schar (tolower b) in if v \<noteq> 0 then v else bstricmp as bs)"

fun iseqcstrcaseless_loop :: "bstring \<Rightarrow> string \<Rightarrow> bool" where
  "iseqcstrcaseless_loop [] s = (cstr_hd s = NUL)"
| "iseqcstrcaseless_loop (x # xs) s =
     (if cstr_hd s = NUL \<or> (x \<noteq> cstr_hd s \<and> tolower x \<noteq> tolower (cstr_hd s)) then False
      else iseqcstrcaseless_loop xs (tl s))"

definition biseqcstrcaseless :: "bstring option \<Rightarrow> string \<Rightarrow> int" where
  "biseqcstrcaseless b s = (case b of None \<Rightarrow> BSTR_ERR | Some x \<Rightarrow> if iseqcstrcaseless_loop x s then 1 else 0)"

section \<open>What they compute\<close>

lemma memchr_from_None: "memchr_from b c i = None \<longleftrightarrow> c \<notin> set b"
  by (induction b arbitrary: i) auto

lemma memchr_from_Some:
  "memchr_from b c i = Some j \<Longrightarrow>
   i \<le> j \<and> j - i < length b \<and> b ! (j - i) = c \<and> c \<notin> set (take (j - i) b)"
proof (induction b arbitrary: i)
  case (Cons x b)
  show ?case
  proof (cases "x = c")
    case False
    with Cons have "Suc i \<le> j \<and> j - Suc i < length b \<and> b ! (j - Suc i) = c \<and> c \<notin> set (take (j - Suc i) b)"
      by auto
    then show ?thesis using False by (auto simp: Suc_diff_Suc [symmetric] less_eq_Suc_le)
  qed (use Cons.prems in simp)
qed simp

lemma bstrchr_spec:
  "bstrchr b c = (if c \<in> set b then int (length (takeWhile (\<lambda>x. x \<noteq> c) b)) else -1)"
proof -
  have "memchr_from b c i = (if c \<in> set b then Some (i + length (takeWhile (\<lambda>x. x \<noteq> c) b)) else None)" for i
    by (induction b arbitrary: i) auto
  then show ?thesis by (auto simp: bstrchr_def bstrchrp_def BSTR_ERR_def)
qed

lemma bHead_spec: "0 \<le> n \<Longrightarrow> bHead b n = Some (take (nat n) b)"
  by (auto simp: bHead_def bmidstr_def blk2bstr_def Let_def)

lemma bTail_spec: "0 \<le> n \<Longrightarrow> bTail b n = Some (drop (length b - nat n) b)"
  by (auto simp: bTail_def bmidstr_def blk2bstr_def Let_def nat_diff_distrib)

lemma rchr_loop_spec:
  "i < length b \<Longrightarrow> rchr_loop b c i =
     (if c \<in> set (take (Suc i) b)
      then int i - int (length (takeWhile (\<lambda>x. x \<noteq> c) (rev (take (Suc i) b)))) else -1)"
proof (induction i)
  case 0
  then show ?case by (cases b) (auto simp: cstr_at_def BSTR_ERR_def)
next
  case (Suc i)
  have "take (Suc (Suc i)) b = take (Suc i) b @ [b ! Suc i]"
    using Suc.prems by (simp add: take_Suc_conv_app_nth)
  with Suc show ?case by (auto simp: cstr_at_def)
qed

lemma bstrrchr_spec:
  "bstrrchr b c =
     (if c \<in> set b then int (length b) - 1 - int (length (takeWhile (\<lambda>x. x \<noteq> c) (rev b))) else -1)"
proof (cases "b = []")
  case False
  then have "length b - 1 < length b" "take (Suc (length b - 1)) b = b" "nat (int (length b) - 1) = length b - 1"
    "int (length b - 1) = int (length b) - 1"
    by (cases b; simp add: nat_diff_distrib)+
  with rchr_loop_spec [of "length b - 1" b c] False show ?thesis
    by (simp add: bstrrchr_def bstrrchrp_def)
qed (simp add: bstrrchr_def bstrrchrp_def BSTR_ERR_def)

lemma reverse_loop_spec:
  assumes "length d = Suc n" "m = Suc n div 2" "i \<le> m"
    and "\<And>j. j < length d \<Longrightarrow> d ! j = (if j < i \<or> n - i < j then b ! (n - j) else b ! j)"
    and "length b = Suc n"
  shows "reverse_loop d n m i = rev b"
  using assms(1,3,4)
proof (induction "m - i" arbitrary: d i)
  case 0
  then have "i = m" by simp
  have "d ! j = rev b ! j" if "j < length d" for j
  proof -
    have "j < m \<or> n - m < j \<or> n - j = j" using that 0(2) assms(2) by linarith
    with 0(4) [OF that] that 0(2) \<open>i = m\<close> assms(5) show ?thesis by (auto simp: rev_nth)
  qed
  with 0 assms(5) have "d = rev b" by (intro nth_equalityI) auto
  then show ?case using \<open>i = m\<close> by (simp add: reverse_loop.simps)
next
  case (Suc x)
  then have i: "i < m" by simp
  let ?d = "d[n - i := d ! i, i := d ! (n - i)]"
  have eq: "i < n - i" using i assms(2) by linarith
  have "reverse_loop ?d n m (Suc i) = rev b"
  proof (rule Suc.hyps(1))
    fix j assume "j < length ?d"
    then have j: "j \<le> n" using Suc.prems(1) by simp
    show "?d ! j = (if j < Suc i \<or> n - Suc i < j then b ! (n - j) else b ! j)"
      using j eq Suc.prems(1) Suc.prems(3) [of j] Suc.prems(3) [of i] Suc.prems(3) [of "n - i"]
      by (auto simp: nth_list_update)
  qed (use Suc i in auto)
  then show ?case using i by (simp add: reverse_loop.simps [of d])
qed

lemma bReverse_spec: "bReverse b = rev b"
proof (cases "2 \<le> length b")
  case True
  then have "reverse_loop b (length b - 1) (length b div 2) 0 = rev b"
    by (intro reverse_loop_spec) auto
  then show ?thesis using True by (simp add: bReverse_def)
next
  case False
  then show ?thesis by (cases b; cases "tl b") (auto simp: bReverse_def)
qed

text \<open>\<^verbatim>\<open>bstricmp\<close> is a consistent three-way comparison.\<close>

lemma bstricmp_refl: "bstricmp a a = 0"
  by (induction a) auto

lemma bstricmp_flip: "bstricmp a b < 0 \<longleftrightarrow> 0 < bstricmp b a"
  by (induction a b rule: bstricmp.induct) (auto simp: Let_def)

lemma bstricmp_trans: "bstricmp a b \<le> 0 \<Longrightarrow> bstricmp b c \<le> 0 \<Longrightarrow> bstricmp a c \<le> 0"
proof (induction a arbitrary: b c)
  case Nil
  then show ?case by (cases b; cases c) (auto simp: Let_def split: if_splits)
next
  case (Cons x a)
  show ?case
  proof (cases "b = [] \<or> c = []")
    case True
    with Cons.prems show ?thesis by (cases b; cases c) (auto simp: Let_def split: if_splits)
  next
    case False
    then obtain y b' z c' where bc: "b = y # b'" "c = z # c'" by (auto simp: neq_Nil_conv)
    show ?thesis using Cons.prems Cons.IH [of b' c'] by (auto simp: bc Let_def split: if_splits)
  qed
qed

end
