(* ===== verification/Setting.thy ===== *)
theory Setting
  imports Tst Bstr
begin

text \<open>
  \<^verbatim>\<open>src/setting.c\<close> and \<^verbatim>\<open>src/mime.c\<close>: two process-wide string tables on top of the
  ternary search tree, with the limits other components read from the settings.
  A C string argument is the list of its characters; the static variables of a file
  are the state its operations take and return.
\<close>

section \<open>Settings\<close>

type_synonym settings = "bstring tst"

text \<open>
  \<^verbatim>\<open>Setting_add\<close> asks for the key with the length of the \<^emph>\<open>value\<close>, so the search
  reads the terminator and the memory \<open>pad\<close> behind the key when the value is longer.
\<close>

definition Setting_add :: "string \<Rightarrow> settings \<Rightarrow> string \<Rightarrow> string \<Rightarrow> (int \<times> settings) cres" where
  "Setting_add pad smap key value =
     (if tst_search smap (take (length value) (key @ NUL # pad)) \<noteq> None then Inr (-1, smap)
      else cbind (tst_insert smap key value) (\<lambda>smap'. Inr (0, smap')))"

definition Setting_get_str :: "settings \<Rightarrow> string \<Rightarrow> bstring option \<Rightarrow> bstring option" where
  "Setting_get_str smap key def =
     (case tst_search smap key of None \<Rightarrow> def | Some value \<Rightarrow> Some value)"

definition Setting_get_int :: "settings \<Rightarrow> string \<Rightarrow> int \<Rightarrow> int" where
  "Setting_get_int smap key def =
     (case tst_search smap key of Some value \<Rightarrow> atoi value | None \<Rightarrow> def)"

text \<open>\<^verbatim>\<open>Setting_traverse_destroy\<close> frees one value; the freed values are collected in order.\<close>

definition Setting_traverse_destroy :: "bstring \<Rightarrow> bstring list \<Rightarrow> bstring list" where
  "Setting_traverse_destroy value freed = freed @ [value]"

definition Setting_destroy :: "(nat \<Rightarrow> bool) \<Rightarrow> settings \<Rightarrow> (bstring list \<times> settings) option" where
  "Setting_destroy mem smap =
     (if smap \<noteq> Null
      then map_option (\<lambda>freed. (freed, Null)) (tst_traverse mem smap Setting_traverse_destroy [])
      else Some ([], smap))"

lemma Setting_add_ok:
  assumes "tst_inv smap" "key \<noteq> []" "Setting_add pad smap key value = Inr (rc, smap')"
  shows "tst_inv smap'"
    and "rc = 0 \<Longrightarrow> k \<noteq> [] \<Longrightarrow> tst_search smap' k = (if k = key then Some value else tst_search smap k)"
    and "rc \<noteq> 0 \<Longrightarrow> rc = -1 \<and> smap' = smap"
  using assms tst_table.invar_insert [of smap key _ smap']
    tst_table.search_insert [of smap key _ smap' k]
  by (auto simp: Setting_add_def split: if_splits)

lemma fold_snoc: "fold (\<lambda>x acc. acc @ [x]) xs ys = ys @ xs"
  by (induction xs arbitrary: ys) auto

lemma traverse_frees:
  assumes "tst_inv t" "\<And>n. mem n"
  shows "\<exists>freed. tst_traverse mem t (\<lambda>v acc. acc @ [v]) [] = Some freed \<and>
    mset freed = image_mset (\<lambda>k. the (tst_map t k)) (mset_set (dom (tst_map t)))"
  using traverse_bfs [of mem t "\<lambda>v acc. acc @ [v]" "[]", OF assms(2)] bfs_mset [of "[t]"] tst_values_map [OF assms(1)]
  by (simp add: fold_snoc)

section \<open>MIME types\<close>

record mime_state =
  MIME_MAP :: "bstring tst"
  MAX_EXT_LEN :: int

definition mime_init :: mime_state where
  "mime_init = \<lparr>MIME_MAP = Null, MAX_EXT_LEN = 0\<rparr>"

definition MIME_add_type :: "settings \<Rightarrow> mime_state \<Rightarrow> string \<Rightarrow> string \<Rightarrow> (int \<times> mime_state) cres" where
  "MIME_add_type sets st ext type =
     (let st = (if MAX_EXT_LEN st = 0
                then st\<lparr>MAX_EXT_LEN := Setting_get_int sets ''limits.mime_ext_len'' 128\<rparr> else st);
          ext_rev = bReverse ext in
      if \<not> 0 < length ext_rev then Inr (-1, st)
      else if \<not> 0 < length type then Inr (-1, st)
      else if cstr_at ext 0 \<noteq> CHR ''.'' then Inr (-1, st)
      else if \<not> int (length ext_rev) < MAX_EXT_LEN st then Inr (-1, st)
      else if tst_search (MIME_MAP st) ext_rev \<noteq> None then Inr (-1, st)
      else cbind (tst_insert (MIME_MAP st) ext_rev type) (\<lambda>m. Inr (0, st\<lparr>MIME_MAP := m\<rparr>)))"

definition MIME_match_ext :: "mime_state \<Rightarrow> bstring \<Rightarrow> bstring option \<Rightarrow> bstring option" where
  "MIME_match_ext st path def =
     (case tst_search_suffix (MIME_MAP st) path of None \<Rightarrow> def | Some type \<Rightarrow> Some type)"

definition MIME_traverse_destroy :: "bstring \<Rightarrow> bstring list \<Rightarrow> bstring list" where
  "MIME_traverse_destroy value freed = freed @ [value]"

definition MIME_destroy :: "(nat \<Rightarrow> bool) \<Rightarrow> mime_state \<Rightarrow> (bstring list \<times> mime_state) option" where
  "MIME_destroy mem st =
     (if MIME_MAP st \<noteq> Null
      then map_option (\<lambda>freed. (freed, st\<lparr>MIME_MAP := Null\<rparr>))
             (tst_traverse mem (MIME_MAP st) MIME_traverse_destroy [])
      else Some ([], st))"

text \<open>Stored keys are reversed extensions, which begin with a dot, and have a type.\<close>

definition mime_type :: "mime_state \<Rightarrow> string \<Rightarrow> bstring option" where
  "mime_type st ext = tst_map (MIME_MAP st) (rev ext)"

definition mime_inv :: "mime_state \<Rightarrow> bool" where
  "mime_inv st \<longleftrightarrow> tst_inv (MIME_MAP st) \<and>
     (\<forall>ext type. mime_type st ext = Some type \<longrightarrow> cstr_at ext 0 = CHR ''.'' \<and> type \<noteq> [])"

lemma mime_inv_init: "mime_inv mime_init"
  by (simp add: mime_inv_def mime_init_def mime_type_def)

lemma MIME_add_type_total: "mime_inv st \<Longrightarrow> \<exists>rc st'. MIME_add_type sets st ext type = Inr (rc, st')"
  using tst_table.insert_new [of "MIME_MAP st" "rev ext" type]
  by (auto simp: MIME_add_type_def mime_inv_def bReverse_spec Let_def)

lemma MIME_add_type_effect:
  assumes "mime_inv st" "MIME_add_type sets st ext type = Inr (rc, st')"
  shows "rc = 0 \<and> ext \<noteq> [] \<and> type \<noteq> [] \<and> cstr_at ext 0 = CHR ''.'' \<and> int (length ext) < MAX_EXT_LEN st' \<and>
           mime_type st ext = None \<and> tst_inv (MIME_MAP st') \<and>
           mime_type st' = (mime_type st)(ext \<mapsto> type) \<or>
         rc = -1 \<and> MIME_MAP st' = MIME_MAP st \<and> mime_type st' = mime_type st"
proof (cases "rc = 0")
  case True
  with assms have c: "ext \<noteq> []" "type \<noteq> []" "cstr_at ext 0 = CHR ''.''" "int (length ext) < MAX_EXT_LEN st'"
    "tst_search (MIME_MAP st) (rev ext) = None"
    and ins: "tst_insert (MIME_MAP st) (rev ext) type = Inr (MIME_MAP st')"
    by (auto simp: MIME_add_type_def bReverse_spec Let_def split: if_splits)
  have inv: "tst_inv (MIME_MAP st)" using assms(1) by (simp add: mime_inv_def)
  have "mime_type st' e = ((mime_type st)(ext \<mapsto> type)) e" for e
    using tst_table.search_insert [OF inv _ ins, of "rev e"] c(1)
    by (cases "e = []") (auto simp: mime_type_def tst_map_def)
  moreover have "mime_type st ext = None" using c by (simp add: mime_type_def tst_map_def)
  ultimately show ?thesis using True c tst_table.invar_insert [OF inv ins] by (auto simp: fun_eq_iff)
next
  case False
  with assms(2) have "rc = -1 \<and> MIME_MAP st' = MIME_MAP st"
    by (auto simp: MIME_add_type_def Let_def split: if_splits)
  then show ?thesis by (simp add: mime_type_def fun_eq_iff)
qed

lemma MIME_add_type_inv:
  assumes "mime_inv st" "MIME_add_type sets st ext type = Inr (rc, st')"
  shows "mime_inv st'"
  using MIME_add_type_effect [OF assms] assms(1) unfolding mime_inv_def
  by (elim disjE conjE) (simp_all split: if_splits)

text \<open>The search by suffix over the extensions.\<close>

lemma take_rev_suffix: "path = b @ e \<Longrightarrow> b \<noteq> [] \<Longrightarrow> take (length e) (rev (tl path)) = rev e"
  by (cases b) auto

lemma rev_tl_prefix:
  assumes "0 < k" "k \<le> length path - 1"
  shows "\<exists>b e. path = b @ e \<and> b \<noteq> [] \<and> length e = k \<and> take k (rev (tl path)) = rev e"
proof -
  let ?b = "take (length path - k) path" and ?e = "drop (length path - k) path"
  have "path = ?b @ ?e" by simp
  moreover have "?b \<noteq> []" "length ?e = k" using assms by auto
  ultimately show ?thesis using take_rev_suffix [of path ?b ?e] by metis
qed

lemma mime_suffix_best:
  assumes "mime_inv st" "\<And>e. mime_type st e \<noteq> None \<Longrightarrow> length e < length path"
  shows "tst_search_suffix (MIME_MAP st) path =
    best_prefix (tst_map (MIME_MAP st)) (rev (tl path)) (length path - 1)"
proof (cases "path = []")
  case False
  have "tst_map (MIME_MAP st) (rev (tl path) @ k) = None" if "k \<noteq> []" for k
  proof (rule ccontr)
    assume "tst_map (MIME_MAP st) (rev (tl path) @ k) \<noteq> None"
    then have "length (rev (rev (tl path) @ k)) < length path"
      by (intro assms(2)) (simp add: mime_type_def)
    with that show False by (cases k) auto
  qed
  with search_suffix_spec [of "MIME_MAP st" path] assms(1) False show ?thesis
    by (simp add: mime_inv_def)
qed (simp add: tst_search_suffix_def)

text \<open>A table with one type, as the first row of a configuration leaves it.\<close>

definition mime_sample :: mime_state where
  "mime_sample = \<lparr>MIME_MAP = chain (rev ''.html'') ''text/html'', MAX_EXT_LEN = 128\<rparr>"

lemma mime_type_sample: "mime_type mime_sample e = (if e = ''.html'' then Some ''text/html'' else None)"
proof -
  have "MIME_MAP mime_sample = chain (rev ''.html'') ''text/html''" by (simp add: mime_sample_def del: rev.simps)
  moreover have "rev e = tst_key (rev ''.html'') \<longleftrightarrow> e = ''.html''" by (auto simp: tst_key_def rev_swap)
  ultimately show ?thesis by (simp add: mime_type_def chain_map del: rev.simps chain.simps)
qed

lemma mime_inv_sample: "mime_inv mime_sample"
  by (auto simp: mime_inv_def mime_type_sample cstr_at_def) (simp add: mime_sample_def)

section \<open>Properties\<close>

text \<open>
  \<^verbatim>\<open>Setting_add\<close> either stores the pair, so that both lookups answer it and every other
  key keeps its value, or answers -1 and changes nothing; an abort can only come from
  a key that is already stored.
\<close>

theorem Setting_add_get:
  assumes "tst_inv smap" "key \<noteq> []"
  shows "case Setting_add pad smap key val of
           Inl f \<Rightarrow> f = Assert_fail \<and> Setting_get_str smap key None \<noteq> None
         | Inr (rc, smap') \<Rightarrow> tst_inv smap' \<and>
             (rc = 0 \<and> (\<forall>def. Setting_get_str smap' key def = Some val) \<and>
                (\<forall>def. Setting_get_int smap' key def = atoi val) \<and>
                (\<forall>k def. k \<noteq> [] \<and> k \<noteq> key \<longrightarrow> Setting_get_str smap' k def = Setting_get_str smap k def)
              \<or> rc = -1 \<and> smap' = smap)"
proof (cases "Setting_add pad smap key val")
  case (Inl f)
  then have "tst_insert smap key val = Inl f"
    by (auto simp: Setting_add_def cbind_Inl_iff split: if_splits)
  then have "tst_search smap key \<noteq> None" using tst_table.insert_new [OF assms, of val] by auto
  with Inl \<open>tst_insert smap key val = Inl f\<close> show ?thesis
    using tst_table.insert_old [OF assms, of val] by (auto simp: Setting_get_str_def)
next
  case (Inr res)
  obtain rc smap' where res: "res = (rc, smap')" by (cases res)
  from Setting_add_ok [OF assms Inr [unfolded res]] Inr res assms(2) show ?thesis
    by (cases "rc = 0") (auto simp: Setting_get_str_def Setting_get_int_def)
qed

lemma Setting_add_get_witness:
  "case Setting_add [] Null ''limits.url_path'' ''512'' of
     Inl f \<Rightarrow> f = Assert_fail \<and> Setting_get_str Null ''limits.url_path'' None \<noteq> None
   | Inr (rc, smap') \<Rightarrow> tst_inv smap' \<and>
       (rc = 0 \<and> (\<forall>def. Setting_get_str smap' ''limits.url_path'' def = Some ''512'') \<and>
          (\<forall>def. Setting_get_int smap' ''limits.url_path'' def = atoi ''512'') \<and>
          (\<forall>k def. k \<noteq> [] \<and> k \<noteq> ''limits.url_path'' \<longrightarrow> Setting_get_str smap' k def = Setting_get_str Null k def)
        \<or> rc = -1 \<and> smap' = Null)"
  by (rule Setting_add_get) auto

text \<open>
  the duplicate check uses the length of the value.  Setting a key twice aborts the
  process instead of answering -1 when the two lengths differ, and a fresh
  key is refused when a stored key is its prefix of the value's length.
\<close>

theorem Setting_add_wrong_length:
  "cbind (Setting_add [] Null ''abc'' ''1'') (\<lambda>(_, m). Setting_add [] m ''abc'' ''2'') = Inl Assert_fail \<and>
   cbind (Setting_add [] Null ''a'' ''1'') (\<lambda>(_, m). cbind (Setting_add [] m ''abc'' ''2'') (\<lambda>(rc, _). Inr rc)) = Inr (-1)"
  by (simp add: Setting_add_def tst_insert_def tst_insert_base.simps c_lt_def schar_def)

text \<open>
  \<^verbatim>\<open>MIME_add_type\<close> never aborts, keeps the table's invariant (reversed keys that
  begin with a dot, non-empty types), and answers 0 exactly when it has stored a
  new extension that passes every check.
\<close>

theorem MIME_add_type_correct:
  assumes "mime_inv st"
  shows "\<exists>rc st'. MIME_add_type sets st ext type = Inr (rc, st') \<and> mime_inv st' \<and>
           (rc = 0 \<and> ext \<noteq> [] \<and> type \<noteq> [] \<and> cstr_at ext 0 = CHR ''.'' \<and> int (length ext) < MAX_EXT_LEN st' \<and>
              mime_type st ext = None \<and> mime_type st' = (mime_type st)(ext \<mapsto> type)
            \<or> rc = -1 \<and> mime_type st' = mime_type st)"
proof -
  obtain rc st' where r: "MIME_add_type sets st ext type = Inr (rc, st')"
    using MIME_add_type_total [OF assms] by blast
  show ?thesis using MIME_add_type_effect [OF assms r] MIME_add_type_inv [OF assms r] r by blast
qed

lemma MIME_add_type_correct_witness:
  "\<exists>rc st'. MIME_add_type Null mime_init ''.html'' ''text/html'' = Inr (rc, st') \<and> mime_inv st' \<and>
      (rc = 0 \<and> ''.html'' \<noteq> [] \<and> ''text/html'' \<noteq> [] \<and> cstr_at ''.html'' 0 = CHR ''.'' \<and>
         int (length ''.html'') < MAX_EXT_LEN st' \<and>
         mime_type mime_init ''.html'' = None \<and> mime_type st' = (mime_type mime_init)(''.html'' \<mapsto> ''text/html'')
       \<or> rc = -1 \<and> mime_type st' = mime_type mime_init)"
  by (rule MIME_add_type_correct [OF mime_inv_init])

text \<open>
  For a path longer than every registered extension, \<^verbatim>\<open>MIME_match_ext\<close> answers the
  type of the longest registered extension the path ends in, and the default when it
  ends in none.
\<close>

theorem MIME_match_ext_longest:
  assumes "mime_inv st" "\<forall>e. mime_type st e \<noteq> None \<longrightarrow> length e < length path"
  shows "(\<exists>b e type. path = b @ e \<and> mime_type st e = Some type \<and> MIME_match_ext st path def = Some type \<and>
            (\<forall>b' e'. path = b' @ e' \<and> length e < length e' \<longrightarrow> mime_type st e' = None))
         \<or> (\<forall>b e. path = b @ e \<longrightarrow> mime_type st e = None) \<and> MIME_match_ext st path def = def"
proof -
  let ?m = "tst_map (MIME_MAP st)" and ?r = "rev (tl path)" and ?n = "length path - 1"
  have best: "tst_search_suffix (MIME_MAP st) path = best_prefix ?m ?r ?n"
    using mime_suffix_best assms by blast
  have as_prefix: "?m (take (length e) ?r) = mime_type st e" if "path = b @ e" "b \<noteq> []" for b e
    using take_rev_suffix [OF that] by (simp add: mime_type_def)
  have whole: "mime_type st e = None" if "path = b @ e" "b = []" for b e
    using assms(2) that by (metis append_Nil less_irrefl)
  have empty: "mime_type st [] = None" by (simp add: mime_type_def)
  show ?thesis
  proof (cases "best_prefix ?m ?r ?n")
    case None
    have "mime_type st e = None" if "path = b @ e" for b e
    proof (cases "b = [] \<or> e = []")
      case False
      then have "0 < length e \<and> length e \<le> ?n" using that by (cases b) auto
      with None as_prefix [OF that] False show ?thesis by (simp add: best_prefix_None)
    qed (use that whole empty in auto)
    then show ?thesis using best None by (simp add: MIME_match_ext_def)
  next
    case (Some type)
    then obtain k where k: "0 < k" "k \<le> ?n" "?m (take k ?r) = Some type"
      and longest: "\<forall>j. k < j \<and> j \<le> ?n \<longrightarrow> ?m (take j ?r) = None"
      using best_prefix_Some by metis
    obtain b e where e: "path = b @ e" "b \<noteq> []" "length e = k" "take k ?r = rev e"
      using rev_tl_prefix [OF k(1,2)] by blast
    have "mime_type st e' = None" if "path = b' @ e'" "length e < length e'" for b' e'
    proof (cases "b' = []")
      case False
      then have "length e' \<le> ?n" using that(1) by (cases b') auto
      with longest as_prefix [OF that(1) False] that(2) e(3) show ?thesis by simp
    qed (use that whole in simp)
    moreover have "mime_type st e = Some type" using k(3) e by (simp add: mime_type_def)
    moreover have "MIME_match_ext st path def = Some type" using best Some by (simp add: MIME_match_ext_def)
    ultimately show ?thesis using e(1) by blast
  qed
qed

lemma MIME_match_ext_longest_witness:
  "(\<exists>b e type. ''/index.html'' = b @ e \<and> mime_type mime_sample e = Some type \<and>
       MIME_match_ext mime_sample ''/index.html'' (Some ''text/plain'') = Some type \<and>
       (\<forall>b' e'. ''/index.html'' = b' @ e' \<and> length e < length e' \<longrightarrow> mime_type mime_sample e' = None))
   \<or> (\<forall>b e. ''/index.html'' = b @ e \<longrightarrow> mime_type mime_sample e = None) \<and>
      MIME_match_ext mime_sample ''/index.html'' (Some ''text/plain'') = Some ''text/plain''"
  by (rule MIME_match_ext_longest [OF mime_inv_sample]) (simp add: mime_type_sample)

text \<open>
  \<^verbatim>\<open>Setting_destroy\<close> frees the value of every stored key exactly once and leaves the
  table empty.
\<close>

theorem Setting_destroy_frees_all:
  assumes "tst_inv smap" "\<And>n. mem n"
  shows "\<exists>freed. Setting_destroy mem smap = Some (freed, Null) \<and>
           mset freed = image_mset (\<lambda>k. the (tst_map smap k)) (mset_set (dom (tst_map smap)))"
proof (cases "smap = Null")
  case False
  have "Setting_traverse_destroy = (\<lambda>v acc. acc @ [v])"
    by (simp add: Setting_traverse_destroy_def fun_eq_iff)
  with traverse_frees [OF assms] False show ?thesis by (auto simp: Setting_destroy_def)
qed (simp add: Setting_destroy_def dom_def)

lemma Setting_destroy_frees_all_witness:
  "\<exists>freed. Setting_destroy (\<lambda>_. True) (chain ''port'' ''6767'') = Some (freed, Null) \<and>
     mset freed = image_mset (\<lambda>k. the (tst_map (chain ''port'' ''6767'') k)) (mset_set (dom (tst_map (chain ''port'' ''6767''))))"
  by (rule Setting_destroy_frees_all) auto

end
