(* ===== verification/Routing.thy ===== *)
theory Routing
  imports Setting Pattern
begin

text \<open>
  \<^verbatim>\<open>src/routing.c\<close>, \<^verbatim>\<open>src/host.c\<close> and \<^verbatim>\<open>src/server.c\<close>: route maps over the ternary
  search tree, the routes of a host and the hosts of a server.  A route is inserted with the
  fields the code writes into it right after the insertion, so the tree holds its final value.
  \<open>mem\<close> arguments say which checked allocations succeed; a \<^verbatim>\<open>NULL\<close> pattern is
  \<open>None\<close>.
\<close>

section \<open>Route maps\<close>

record 'd route =
  pattern :: bstring
  data :: 'd
  has_pattern :: bool

record 'd RouteMap =
  routes :: "'d route tst"
  destroy_cb :: bool

definition RouteMap_create :: "bool \<Rightarrow> bool \<Rightarrow> 'd RouteMap option" where
  "RouteMap_create mem destroy =
     (if mem then Some \<lparr>routes = Null, destroy_cb = destroy\<rparr> else None)"

text \<open>
  \<^verbatim>\<open>RouteMap_cleanup\<close>: the record of what is released, the callback's data first.
\<close>

datatype 'd release = Release_data 'd | Release_pattern bstring

definition RouteMap_cleanup :: "'d RouteMap \<Rightarrow> 'd route \<Rightarrow> 'd release list \<Rightarrow> 'd release list" where
  "RouteMap_cleanup m route log =
     (if destroy_cb m then log @ [Release_data (data route)] else log) @ [Release_pattern (pattern route)]"

definition RouteMap_destroy :: "(nat \<Rightarrow> bool) \<Rightarrow> 'd RouteMap option \<Rightarrow> 'd release list option" where
  "RouteMap_destroy mem m =
     (case m of None \<Rightarrow> Some []
      | Some m \<Rightarrow> tst_traverse mem (routes m) (RouteMap_cleanup m) [])"

definition RouteMap_insert_base ::
    "bool \<Rightarrow> 'd RouteMap \<Rightarrow> bstring \<Rightarrow> bstring option \<Rightarrow> 'd \<Rightarrow> bool \<Rightarrow> ('d RouteMap option) cres" where
  "RouteMap_insert_base mem m prefix pat dat has =
     (if \<not> mem then Inr None
      else case pat of
        None \<Rightarrow> Inr None
      | Some pat \<Rightarrow>
          cbind (tst_insert (routes m) prefix \<lparr>pattern = pat, data = dat, has_pattern = has\<rparr>)
            (\<lambda>t. if t = Null then Inr None else Inr (Some (m\<lparr>routes := t\<rparr>))))"

definition RouteMap_insert :: "bool \<Rightarrow> 'd RouteMap \<Rightarrow> bstring option \<Rightarrow> 'd \<Rightarrow> (int \<times> 'd RouteMap) cres" where
  "RouteMap_insert mem m pat dat =
     (let first_paren = (case pat of None \<Rightarrow> BSTR_ERR | Some p \<Rightarrow> bstrchr p (CHR ''(''));
          prefix = (if first_paren \<ge> 0 then Option.bind pat (\<lambda>p. bHead p first_paren) else pat) in
      case prefix of
        None \<Rightarrow> Inr (-1, m)
      | Some prefix \<Rightarrow>
          cbind (RouteMap_insert_base mem m prefix pat dat (first_paren \<ge> 0))
            (\<lambda>r. case r of None \<Rightarrow> Inr (-1, m) | Some m' \<Rightarrow> Inr (0, m')))"

definition RouteMap_insert_reversed ::
    "bool \<Rightarrow> 'd RouteMap \<Rightarrow> bstring option \<Rightarrow> 'd \<Rightarrow> (int \<times> 'd RouteMap) cres" where
  "RouteMap_insert_reversed mem m pat dat =
     (let last_paren = (case pat of None \<Rightarrow> BSTR_ERR | Some p \<Rightarrow> bstrrchr p (CHR '')''));
          reversed = (if last_paren \<ge> 0
                      then Option.bind pat (\<lambda>p. bTail p (int (length p) - last_paren - 1)) else pat) in
      case reversed of
        None \<Rightarrow> Inr (-1, m)
      | Some reversed \<Rightarrow>
          cbind (RouteMap_insert_base mem m (bReverse reversed) pat dat (last_paren \<ge> 0))
            (\<lambda>r. case r of None \<Rightarrow> Inr (-1, m) | Some m' \<Rightarrow> Inr (0, m')))"

definition RouteMap_collect_match :: "'d route \<Rightarrow> string \<Rightarrow> bool cres" where
  "RouteMap_collect_match route key =
     (if has_pattern route
      then cbind (pattern_match key (length key) (pattern route)) (\<lambda>r. Inr (r \<noteq> None))
      else Inr True)"

text \<open>
  \<^verbatim>\<open>RouteMap_match\<close>: a route whose pattern faults ends the collection, so it is kept
  among the candidates until the faults have been looked for, in visiting order.
\<close>

definition RouteMap_match :: "(nat \<Rightarrow> bool) \<Rightarrow> 'd RouteMap \<Rightarrow> bstring \<Rightarrow> ('d route list) cres" where
  "RouteMap_match mem m path =
     (case tst_collect mem (routes m) path (Some (\<lambda>r k. RouteMap_collect_match r k \<noteq> Inr False)) of
        None \<Rightarrow> Inl Null_deref
      | Some found \<Rightarrow>
          (case List.find (\<lambda>r. isl (RouteMap_collect_match r path)) found of
             Some r \<Rightarrow> Inl (projl (RouteMap_collect_match r path))
           | None \<Rightarrow> Inr found))"

text \<open>The last step of both single-route lookups.\<close>

definition accept_route :: "bstring \<Rightarrow> 'd route option \<Rightarrow> ('d route option) cres" where
  "accept_route target found =
     (case found of
        None \<Rightarrow> Inr None
      | Some route \<Rightarrow>
          if has_pattern route
          then cbind (bstring_match target (pattern route))
                 (\<lambda>r. Inr (if r \<noteq> None then Some route else None))
          else Inr (Some route))"

definition RouteMap_match_suffix :: "'d RouteMap \<Rightarrow> bstring \<Rightarrow> ('d route option) cres" where
  "RouteMap_match_suffix m target = accept_route target (tst_search_suffix (routes m) target)"

definition RouteMap_simple_prefix_match :: "'d RouteMap \<Rightarrow> bstring \<Rightarrow> ('d route option) cres" where
  "RouteMap_simple_prefix_match m target = accept_route target (tst_search_prefix (routes m) target)"

section \<open>Hosts\<close>

record host_limits =
  MAX_HOST_NAME :: int
  MAX_URL_PATH :: int

record 't backend =
  btype :: int
  target :: 't

abbreviation (input) BACKEND_HANDLER :: int where "BACKEND_HANDLER \<equiv> 1"
abbreviation (input) BACKEND_PROXY :: int where "BACKEND_PROXY \<equiv> 2"
abbreviation (input) BACKEND_DIR :: int where "BACKEND_DIR \<equiv> 3"

record 't host =
  hroutes :: "'t backend RouteMap"
  hname :: bstring

definition Host_create ::
    "settings \<Rightarrow> bool \<Rightarrow> bool \<Rightarrow> host_limits \<Rightarrow> string \<Rightarrow> 't host option \<times> host_limits" where
  "Host_create sets mem1 mem2 lim name =
     (let lim = (if MAX_URL_PATH lim = 0 \<or> MAX_HOST_NAME lim = 0
                 then \<lparr>MAX_HOST_NAME = Setting_get_int sets ''limits.host_name'' 256,
                       MAX_URL_PATH = Setting_get_int sets ''limits.url_path'' 256\<rparr>
                 else lim) in
      if \<not> mem1 then (None, lim)
      else if \<not> int (length name) < MAX_HOST_NAME lim then (None, lim)
      else case RouteMap_create mem2 True of
        None \<Rightarrow> (None, lim)
      | Some r \<Rightarrow> (Some \<lparr>hroutes = r, hname = name\<rparr>, lim))"

definition Host_add_backend ::
    "bool \<Rightarrow> bool \<Rightarrow> 't host \<Rightarrow> string \<Rightarrow> int \<Rightarrow> int \<Rightarrow> 't \<Rightarrow> (int \<times> 't host) cres" where
  "Host_add_backend mem1 mem2 h path path_len type tgt =
     (if \<not> mem1 then Inr (-1, h)
      else if type \<notin> {BACKEND_HANDLER, BACKEND_PROXY, BACKEND_DIR} then Inr (-1, h)
      else cbind (RouteMap_insert mem2 (hroutes h) (blk2bstr path path_len) \<lparr>btype = type, target = tgt\<rparr>)
             (\<lambda>(rc, r). if rc = 0 then Inr (0, h\<lparr>hroutes := r\<rparr>) else Inr (-1, h\<lparr>hroutes := r\<rparr>)))"

definition Host_match_backend :: "'t host \<Rightarrow> bstring \<Rightarrow> ('t backend option \<times> bstring option) cres" where
  "Host_match_backend h tgt =
     cbind (RouteMap_simple_prefix_match (hroutes h) tgt)
       (\<lambda>found. case found of
          Some route \<Rightarrow> Inr (Some (data route), Some (pattern route))
        | None \<Rightarrow> Inr (None, None))"

section \<open>The server's hosts\<close>

record 't server =
  port :: int
  listen_fd :: int
  default_host :: "'t host option"
  hosts :: "'t host RouteMap"
  uuid :: bstring
  chroot_dir :: bstring
  access_log :: bstring
  error_log :: bstring
  pid_file :: bstring
  default_hostname :: bstring

text \<open>
  \<^verbatim>\<open>Server_create\<close>: \<open>mem i\<close> is the \<open>i\<close>-th checked allocation, in the order of the code.  The
  check on the port compares the \<^emph>\<open>pointer\<close> to its text with 0 and so never fails.
\<close>

definition Server_create ::
    "(nat \<Rightarrow> bool) \<Rightarrow> string \<Rightarrow> string \<Rightarrow> string \<Rightarrow> string \<Rightarrow> string \<Rightarrow> string \<Rightarrow> string \<Rightarrow> 't server option" where
  "Server_create mem uid def_host prt chrt alog elog pidf =
     (if \<not> mem 0 then None
      else case RouteMap_create (mem 1) True of
        None \<Rightarrow> None
      | Some hs \<Rightarrow>
          if \<not> mem 2 then None
          else if \<not> mem 3 then None
          else if \<not> mem 4 then None
          else if \<not> mem 5 then None
          else if \<not> mem 6 then None
          else Some \<lparr>port = atoi prt, listen_fd = 0, default_host = None, hosts = hs, uuid = uid,
                     chroot_dir = chrt, access_log = alog, error_log = elog, pid_file = pidf,
                     default_hostname = def_host\<rparr>)"

definition Server_add_host :: "bool \<Rightarrow> 't server \<Rightarrow> bstring option \<Rightarrow> 't host \<Rightarrow> (int \<times> 't server) cres" where
  "Server_add_host mem srv pat h =
     cbind (RouteMap_insert_reversed mem (hosts srv) pat h) (\<lambda>(rc, hs). Inr (rc, srv\<lparr>hosts := hs\<rparr>))"

definition Server_set_default_host :: "'t server \<Rightarrow> 't host option \<Rightarrow> 't server" where
  "Server_set_default_host srv h = srv\<lparr>default_host := h\<rparr>"

definition Server_match_backend :: "'t server \<Rightarrow> bstring \<Rightarrow> ('t host option) cres" where
  "Server_match_backend srv tgt =
     cbind (RouteMap_match_suffix (hosts srv) tgt)
       (\<lambda>found. case found of
          Some route \<Rightarrow> Inr (Some (data route))
        | None \<Rightarrow>
            cbind (bstring_match tgt (default_hostname srv))
              (\<lambda>r. Inr (if r \<noteq> None then default_host srv else None)))"

section \<open>Insertion and the table a route map stands for\<close>

definition route_prefix :: "bstring \<Rightarrow> string" where
  "route_prefix p = tst_key (takeWhile (\<lambda>c. c \<noteq> CHR ''('') p)"

definition host_suffix :: "bstring \<Rightarrow> string" where
  "host_suffix p = tst_key (takeWhile (\<lambda>c. c \<noteq> CHR '')'') (rev p))"

definition route_of :: "char \<Rightarrow> bstring \<Rightarrow> 'd \<Rightarrow> 'd route" where
  "route_of paren p d = \<lparr>pattern = p, data = d, has_pattern = paren \<in> set p\<rparr>"

definition route_table :: "'d RouteMap \<Rightarrow> string \<Rightarrow> 'd route option" where
  "route_table m = tst_map (routes m)"

definition routes_ok :: "'d RouteMap \<Rightarrow> bool" where
  "routes_ok m \<longleftrightarrow> tst_inv (routes m)"

lemma insert_base_cases:
  assumes "routes_ok m"
  shows "RouteMap_insert_base True m prefix (Some p) d has =
    (if route_table m (tst_key prefix) = None
     then Inr (Some (m\<lparr>routes := projr (tst_insert (routes m) prefix \<lparr>pattern = p, data = d, has_pattern = has\<rparr>)\<rparr>))
     else Inl Assert_fail)"
proof -
  let ?r = "\<lparr>pattern = p, data = d, has_pattern = has\<rparr>"
  have inv: "tst_inv (routes m)" using assms by (simp add: routes_ok_def)
  show ?thesis
  proof (cases "route_table m (tst_key prefix) = None")
    case True
    then obtain t where "tst_insert_base (routes m) prefix ?r = Inr t"
      using insert_fresh [OF inv, of prefix ?r] by (auto simp: route_table_def)
    with insert_not_Null [OF this] True show ?thesis
      by (simp add: RouteMap_insert_base_def tst_insert_def)
  next
    case False
    then show ?thesis using insert_dup [OF inv, of prefix ?r]
      by (simp add: RouteMap_insert_base_def tst_insert_def route_table_def)
  qed
qed

lemma insert_base_effect:
  assumes "routes_ok m" "RouteMap_insert_base mem m prefix pat d has = Inr (Some m')"
  shows "\<exists>p. pat = Some p \<and> mem \<and> routes_ok m' \<and> destroy_cb m' = destroy_cb m \<and>
    route_table m' = (route_table m)(tst_key prefix \<mapsto> \<lparr>pattern = p, data = d, has_pattern = has\<rparr>) \<and>
    route_table m (tst_key prefix) = None"
proof -
  from assms(2) obtain p t where p: "pat = Some p" "mem"
    "tst_insert_base (routes m) prefix \<lparr>pattern = p, data = d, has_pattern = has\<rparr> = Inr t" "m' = m\<lparr>routes := t\<rparr>"
    by (auto simp: RouteMap_insert_base_def tst_insert_def split: if_splits option.splits)
  have inv: "tst_inv (routes m)" using assms(1) by (simp add: routes_ok_def)
  have "tst_map (routes m) (tst_key prefix) = None" using insert_dup [OF inv] p(3) by fastforce
  then show ?thesis using p insert_inv [OF p(3) inv] insert_map [OF p(3) inv]
    by (auto simp: routes_ok_def route_table_def fun_eq_iff)
qed

lemma takeWhile_head: "c \<in> set p \<Longrightarrow> take (length (takeWhile (\<lambda>x. x \<noteq> c) p)) p = takeWhile (\<lambda>x. x \<noteq> c) p"
  by (metis takeWhile_eq_take)

lemma takeWhile_no: "c \<notin> set p \<Longrightarrow> takeWhile (\<lambda>x. x \<noteq> c) p = p"
  by (auto simp: takeWhile_eq_all_conv)

lemma RouteMap_insert_eq:
  "RouteMap_insert mem m (Some p) d =
     cbind (RouteMap_insert_base mem m (takeWhile (\<lambda>c. c \<noteq> CHR ''('') p) (Some p) d (CHR ''('' \<in> set p))
       (\<lambda>r. case r of None \<Rightarrow> Inr (-1, m) | Some m' \<Rightarrow> Inr (0, m'))"
  by (simp add: RouteMap_insert_def bstrchr_spec bHead_spec takeWhile_head takeWhile_no Let_def)

lemma RouteMap_insert_reversed_eq:
  "RouteMap_insert_reversed mem m (Some p) d =
     cbind (RouteMap_insert_base mem m (takeWhile (\<lambda>c. c \<noteq> CHR '')'') (rev p)) (Some p) d (CHR '')'' \<in> set p))
       (\<lambda>r. case r of None \<Rightarrow> Inr (-1, m) | Some m' \<Rightarrow> Inr (0, m'))"
proof (cases "CHR '')'' \<in> set p")
  case True
  let ?k = "length (takeWhile (\<lambda>c. c \<noteq> CHR '')'') (rev p))"
  have "takeWhile (\<lambda>c. c \<noteq> CHR '')'') (rev p) \<noteq> rev p" using True by (simp add: takeWhile_eq_all_conv)
  then have "?k \<noteq> length (rev p)"
    using takeWhile_eq_take [of "\<lambda>c. c \<noteq> CHR '')''" "rev p"] by (metis take_all_iff order_refl)
  with length_takeWhile_le [of "\<lambda>c. c \<noteq> CHR '')''" "rev p"] have less: "?k < length p" by simp
  have "rev (drop (length p - ?k) p) = takeWhile (\<lambda>c. c \<noteq> CHR '')'') (rev p)"
    using takeWhile_eq_take [of "\<lambda>c. c \<noteq> CHR '')''" "rev p"] by (simp add: rev_drop less_imp_le [OF less] flip: take_rev)
  moreover have "int (length p) - (int (length p) - 1 - int ?k) - 1 = int ?k" by simp
  ultimately show ?thesis using True less
    by (simp add: RouteMap_insert_reversed_def bstrrchr_spec bTail_spec bReverse_spec Let_def)
qed (simp add: RouteMap_insert_reversed_def bstrrchr_spec bReverse_spec takeWhile_no Let_def)

lemma insert_eq_effect:
  assumes "routes_ok m"
    and "ins = cbind (RouteMap_insert_base mem m prefix (Some p) d has)
           (\<lambda>r. case r of None \<Rightarrow> Inr (-1, m) | Some m' \<Rightarrow> Inr (0, m'))"
  shows "case ins of
      Inl f \<Rightarrow> f = Assert_fail \<and> route_table m (tst_key prefix) \<noteq> None
    | Inr (rc, m') \<Rightarrow> routes_ok m' \<and>
        (rc = 0 \<and> route_table m (tst_key prefix) = None \<and>
           route_table m' = (route_table m)(tst_key prefix \<mapsto> \<lparr>pattern = p, data = d, has_pattern = has\<rparr>)
         \<or> rc = -1 \<and> \<not> mem \<and> m' = m)"
proof (cases mem)
  case True
  show ?thesis
  proof (cases "route_table m (tst_key prefix) = None")
    case fresh: True
    then obtain m' where m': "RouteMap_insert_base True m prefix (Some p) d has = Inr (Some m')"
      using insert_base_cases [OF assms(1), of prefix p d has] by simp
    then show ?thesis using insert_base_effect [OF assms(1) m'] True fresh assms(2) by simp
  next
    case False
    with insert_base_cases [OF assms(1), of prefix p d has] True assms(2) show ?thesis by simp
  qed
next
  case False
  then show ?thesis using assms by (simp add: RouteMap_insert_base_def)
qed

text \<open>Loading a host's routes row by row, as the configuration does.\<close>

fun add_backends :: "'t host \<Rightarrow> (string \<times> int \<times> 't) list \<Rightarrow> 't host cres" where
  "add_backends h [] = Inr h"
| "add_backends h ((path, type, tgt) # rows) =
     cbind (Host_add_backend True True h path (int (length path)) type tgt)
       (\<lambda>(rc, h'). if rc = 0 then add_backends h' rows else Inr h')"

definition route_rows :: "(string \<times> int \<times> 't) list \<Rightarrow> (string \<times> 't backend route) list" where
  "route_rows rows =
     map (\<lambda>(p, type, tgt). (route_prefix p, route_of (CHR ''('') p \<lparr>btype = type, target = tgt\<rparr>)) rows"

definition valid_rows :: "(string \<times> int \<times> 't) list \<Rightarrow> bool" where
  "valid_rows rows \<longleftrightarrow> distinct (map fst (route_rows rows)) \<and> (\<forall>(p, type, tgt)\<in>set rows. type \<in> {1, 2, 3})"

lemma route_rows_keys: "map fst (route_rows rows) = map (\<lambda>r. route_prefix (fst r)) rows"
  by (auto simp: route_rows_def)

lemma route_rows_keys_set: "fst ` set (route_rows rows) = (\<lambda>r. route_prefix (fst r)) ` set rows"
  using arg_cong [OF route_rows_keys, of set rows] by simp

lemma Host_add_backend_step:
  assumes "routes_ok (hroutes h)" "type \<in> {1, 2, 3}" "route_table (hroutes h) (route_prefix path) = None"
  shows "\<exists>h'. Host_add_backend True True h path (int (length path)) type tgt = Inr (0, h') \<and>
    routes_ok (hroutes h') \<and>
    route_table (hroutes h') = (route_table (hroutes h))
      (route_prefix path \<mapsto> route_of (CHR ''('') path \<lparr>btype = type, target = tgt\<rparr>)"
  using insert_eq_effect [OF assms(1) RouteMap_insert_eq [where mem = True and p = path and d = "\<lparr>btype = type, target = tgt\<rparr>"]]
    assms(2,3)
  by (auto simp: Host_add_backend_def blk2bstr_def route_prefix_def route_of_def split: sum.splits)

lemma add_backends_table:
  assumes "routes_ok (hroutes h)" "valid_rows rows"
    and "\<And>k. k \<in> fst ` set (route_rows rows) \<Longrightarrow> route_table (hroutes h) k = None"
  shows "\<exists>h'. add_backends h rows = Inr h' \<and> routes_ok (hroutes h') \<and>
    route_table (hroutes h') = route_table (hroutes h) ++ map_of (route_rows rows)"
  using assms
proof (induction rows arbitrary: h)
  case (Cons row rows)
  obtain p type tgt where row: "row = (p, type, tgt)" by (cases row)
  let ?r = "route_of (CHR ''('') p \<lparr>btype = type, target = tgt\<rparr>"
  obtain h1 where h1: "Host_add_backend True True h p (int (length p)) type tgt = Inr (0, h1)"
    "routes_ok (hroutes h1)" "route_table (hroutes h1) = (route_table (hroutes h))(route_prefix p \<mapsto> ?r)"
    using Host_add_backend_step [of h type p tgt] Cons.prems row
    by (auto simp: valid_rows_def route_rows_keys route_rows_keys_set)
  have rows: "valid_rows rows" "route_prefix p \<notin> fst ` set (route_rows rows)"
    using Cons.prems(2) row by (auto simp: valid_rows_def route_rows_keys route_rows_keys_set)
  have "route_table (hroutes h1) k = None" if "k \<in> fst ` set (route_rows rows)" for k
  proof -
    have "k \<noteq> route_prefix p" using that rows(2) by blast
    moreover have "route_table (hroutes h) k = None"
      using that by (intro Cons.prems(3)) (auto simp: route_rows_keys_set)
    ultimately show ?thesis by (simp add: h1(3))
  qed
  then obtain h' where "add_backends h1 rows = Inr h'" "routes_ok (hroutes h')"
    "route_table (hroutes h') = route_table (hroutes h1) ++ map_of (route_rows rows)"
    using Cons.IH [OF h1(2) rows(1)] by blast
  moreover have "map_of (route_rows rows) (route_prefix p) = None"
    using rows(2) by (simp add: map_of_eq_None_iff)
  ultimately show ?case using row h1
    by (auto simp: route_rows_def fun_eq_iff map_add_def split: option.splits)
qed (simp add: route_rows_def)

text \<open>The route's prefix begins the path; the path ends inside the prefix of a route, and is the prefix of none.\<close>

definition on_path :: "bstring \<Rightarrow> bstring \<Rightarrow> bool" where
  "on_path p tgt \<longleftrightarrow> route_prefix p = take (length (route_prefix p)) tgt"

definition cut_short :: "(string \<times> int \<times> 't) list \<Rightarrow> bstring \<Rightarrow> bool" where
  "cut_short rows tgt \<longleftrightarrow> (\<exists>(p, type, t)\<in>set rows. take (length tgt) (route_prefix p) = tgt) \<and> (\<forall>(p, type, t)\<in>set rows. route_prefix p \<noteq> tgt)"

lemma route_prefix_nonempty: "route_prefix p \<noteq> []"
  by (simp add: route_prefix_def tst_key_def)

lemma rows_None: "map_of (route_rows rows) k = None \<longleftrightarrow> (\<forall>(p, type, t)\<in>set rows. route_prefix p \<noteq> k)"
  unfolding map_of_eq_None_iff route_rows_keys_set by force

lemma rows_Some:
  assumes "valid_rows rows" "(p, type, t) \<in> set rows"
  shows "map_of (route_rows rows) (route_prefix p) = Some (route_of (CHR ''('') p \<lparr>btype = type, target = t\<rparr>)"
proof (rule map_of_is_SomeI)
  show "distinct (map fst (route_rows rows))" using assms(1) by (simp add: valid_rows_def)
  show "(route_prefix p, route_of (CHR ''('') p \<lparr>btype = type, target = t\<rparr>) \<in> set (route_rows rows)"
    unfolding route_rows_def set_map by (rule rev_image_eqI [OF assms(2)]) simp
qed

lemma rows_extended:
  "(\<exists>r. map_of (route_rows rows) (tgt @ r) \<noteq> None) \<longleftrightarrow> (\<exists>(p, type, t)\<in>set rows. take (length tgt) (route_prefix p) = tgt)"
proof -
  have "(\<exists>r. route_prefix p = tgt @ r) \<longleftrightarrow> take (length tgt) (route_prefix p) = tgt" for p
    by (metis append_eq_conv_conj append_take_drop_id)
  then show ?thesis unfolding rows_None by fast
qed

lemma found_longest:
  assumes "valid_rows rows" "(p, type, t) \<in> set rows" "on_path p tgt"
    and longest: "\<forall>(p', type', t')\<in>set rows. on_path p' tgt \<longrightarrow> length (route_prefix p') \<le> length (route_prefix p)"
    and "\<not> cut_short rows tgt" "tst_inv m" "tst_map m = map_of (route_rows rows)"
  shows "tst_search_prefix m tgt = Some (route_of (CHR ''('') p \<lparr>btype = type, target = t\<rparr>)"
proof -
  let ?m = "map_of (route_rows rows)" and ?k = "length (route_prefix p)"
  have tgt: "tgt \<noteq> []" using assms(3) route_prefix_nonempty [of p] by (auto simp: on_path_def)
  have tk: "take ?k tgt = route_prefix p" using assms(3) by (simp add: on_path_def)
  have "length (take ?k tgt) = ?k" by (simp only: tk)
  then have "?k \<le> length tgt" unfolding length_take by linarith
  then have kl: "?k \<le> length tgt" "0 < ?k" "take ?k tgt = route_prefix p" using route_prefix_nonempty [of p] tk by simp_all
  note row = rows_Some [OF assms(1,2)]
  show ?thesis
  proof (cases "\<exists>r. ?m (tgt @ r) \<noteq> None")
    case True
    then obtain q y u where q: "(q, y, u) \<in> set rows" "route_prefix q = tgt"
      using assms(5) unfolding rows_extended cut_short_def by blast
    then have "on_path q tgt" by (simp add: on_path_def)
    with longest q have "length tgt \<le> ?k" by fastforce
    then have "route_prefix p = tgt" using kl by simp
    then show ?thesis using True row search_prefix_spec [OF assms(6) tgt] by (simp add: is_key_prefix_def assms(7))
  next
    case False
    then have "?m tgt = None" by (metis append_Nil2)
    then have less: "?k \<le> length tgt - 1" using row kl by (cases "?k = length tgt") auto
    have none: "?m (take j tgt) = None" if "?k < j" "j \<le> length tgt - 1" for j
      unfolding rows_None
    proof clarify
      fix q y u assume q: "(q, y, u) \<in> set rows" "route_prefix q = take j tgt"
      then have "on_path q tgt" "length (route_prefix q) = j" using that by (simp_all add: on_path_def)
      with longest q that show False by fastforce
    qed
    have "best_prefix ?m tgt (length tgt - 1) = ?m (route_prefix p)"
    proof (cases "best_prefix ?m tgt (length tgt - 1)")
      case None
      then have "?m (take ?k tgt) = None" using kl(2) less by (simp only: best_prefix_None)
      then show ?thesis using row unfolding kl(3) by simp
    next
      case (Some v)
      then obtain k where k: "0 < k" "k \<le> length tgt - 1" "?m (take k tgt) = Some v"
        "\<forall>j. k < j \<and> j \<le> length tgt - 1 \<longrightarrow> ?m (take j tgt) = None" using best_prefix_Some by metis
      have "\<not> ?k < k" using none [of k] k(2,3) by auto
      moreover have "\<not> k < ?k" using k(4) [rule_format, of ?k] less row unfolding kl(3) by auto
      ultimately have "k = ?k" by simp
      then show ?thesis using Some k(3) kl(3) by simp
    qed
    then show ?thesis using False row search_prefix_spec [OF assms(6) tgt] by (simp add: is_key_prefix_def assms(7))
  qed
qed

lemma found_none:
  assumes "(\<forall>(p, type, t)\<in>set rows. \<not> on_path p tgt) \<or> cut_short rows tgt" "tst_inv m" "tst_map m = map_of (route_rows rows)"
  shows "tst_search_prefix m tgt = None"
proof (cases "tgt = []")
  case False
  let ?m = "map_of (route_rows rows)"
  have "\<forall>(p, type, t)\<in>set rows. route_prefix p \<noteq> tgt" using assms(1) by (auto simp: cut_short_def on_path_def)
  then have none: "?m tgt = None" by (simp add: rows_None)
  show ?thesis
  proof (cases "\<exists>r. ?m (tgt @ r) \<noteq> None")
    case True
    then show ?thesis using none search_prefix_spec [OF assms(2) False] by (simp add: is_key_prefix_def assms(3))
  next
    case ext: False
    then have "\<forall>(p, type, t)\<in>set rows. \<not> on_path p tgt" using assms(1) unfolding cut_short_def rows_extended by blast
    moreover have "on_path q tgt" if "route_prefix q = take j tgt" for q j using that by (simp add: on_path_def min_def)
    ultimately have "?m (take j tgt) = None" for j unfolding rows_None by fastforce
    then have "best_prefix ?m tgt (length tgt - 1) = None" by (simp add: best_prefix_None)
    then show ?thesis using ext search_prefix_spec [OF assms(2) False] by (simp add: is_key_prefix_def assms(3))
  qed
qed (simp add: tst_search_prefix_def)

definition fresh_host :: "string \<Rightarrow> 't host" where
  "fresh_host name = \<lparr>hroutes = \<lparr>routes = Null, destroy_cb = True\<rparr>, hname = name\<rparr>"

lemma fresh_host_routes: "routes_ok (hroutes (fresh_host n))" "route_table (hroutes (fresh_host n)) = Map.empty"
  by (auto simp: routes_ok_def fresh_host_def route_table_def fun_eq_iff)

lemma Host_match_found:
  "RouteMap_simple_prefix_match (hroutes h) tgt = accept_route tgt (Some (route_of (CHR ''('') p b)) \<Longrightarrow>
   Host_match_backend h tgt =
     (if CHR ''('' \<in> set p
      then cbind (bstring_match tgt p) (\<lambda>r. Inr (if r \<noteq> None then (Some b, Some p) else (None, None)))
      else Inr (Some b, Some p))"
  by (cases "bstring_match tgt p") (auto simp: Host_match_backend_def accept_route_def route_of_def)

text \<open>What a collection can return.\<close>

lemma tst_values_ran: "tst_inv t \<Longrightarrow> set_mset (tst_values t) = ran (tst_map t)"
  by (simp add: tst_values_map finite_dom_tst_map) (force simp: ran_def dom_def)

lemma collect_loop_values:
  "collect_loop t lst s = (p, lst') \<Longrightarrow>
   set_mset (tst_values p) \<subseteq> set_mset (tst_values t) \<and>
   set_mset (tst_values lst') \<subseteq> set_mset (tst_values t) \<union> set_mset (tst_values lst)"
  by (induction t lst s rule: collect_loop.induct) (auto split: if_splits)

lemma collect_values:
  assumes "tst_collect mem t s (Some test) = Some vs" "\<And>n. mem n" "v \<in> set vs"
  shows "v \<in># tst_values t \<and> test v s"
proof -
  obtain p lst where loop: "collect_loop t t s = (p, lst)" by (cases "collect_loop t t s")
  let ?q = "if p = Null then lst else p"
  have "vs = (if p = Null \<and> lst = Null then [] else filter (\<lambda>v. test v s) (bfs [?q]))"
    using assms(1) collect_spec [of mem t s "Some test", OF assms(2)] loop by (simp add: option.case(2)) (auto split: if_splits)
  then have "v \<in> set (bfs [?q])" "test v s" using assms(3) by (auto split: if_splits)
  moreover have "set (bfs [?q]) = set_mset (tst_values ?q)"
    using bfs_mset [of "[?q]"] by (metis set_mset_mset list.simps(8,9) sum_list_simps(1,2) add_0_right)
  moreover have "set_mset (tst_values ?q) \<subseteq> set_mset (tst_values t)"
    using collect_loop_values [OF loop] by auto
  ultimately show ?thesis by blast
qed

section \<open>Properties\<close>

definition sample_map :: "nat RouteMap" where
  "sample_map = \<lparr>routes = Null, destroy_cb = True\<rparr>"

definition sample_rows :: "(string \<times> int \<times> nat) list" where
  "sample_rows = [(''/'', BACKEND_DIR, 1), (''/chat/(.*)'', BACKEND_HANDLER, 2)]"

definition sample_server :: "nat server" where
  "sample_server = the (Server_create (\<lambda>_. True) ''id'' ''localhost'' ''6767'' [] [] [] [])"

definition sample_full :: "nat RouteMap" where
  "sample_full = \<lparr>routes = Node (CHR ''/'') Null (Node (CHR ''a'') Null Null Null
     (Some (route_of (CHR ''('') ''/a(b+)$'' 7))) Null None, destroy_cb = True\<rparr>"

lemma sample_map_ok: "routes_ok sample_map"
  by (simp add: sample_map_def routes_ok_def)

text \<open>
  \<^verbatim>\<open>RouteMap_insert\<close> files a route under the part of its pattern before the first
  parenthesis and changes nothing else; a prefix that is taken ends in the tree's
  \<^verbatim>\<open>assert\<close>, a failed allocation in -1.
\<close>

theorem RouteMap_insert_correct:
  assumes "routes_ok m"
  shows "case RouteMap_insert mem m (Some p) d of
           Inl f \<Rightarrow> f = Assert_fail \<and> route_table m (route_prefix p) \<noteq> None
         | Inr (rc, m') \<Rightarrow> routes_ok m' \<and>
             (rc = 0 \<and> route_table m (route_prefix p) = None \<and>
                route_table m' = (route_table m)(route_prefix p \<mapsto> route_of (CHR ''('') p d)
              \<or> rc = -1 \<and> \<not> mem \<and> m' = m)"
  unfolding route_prefix_def route_of_def by (rule insert_eq_effect [OF assms RouteMap_insert_eq])

lemma RouteMap_insert_correct_witness:
  "case RouteMap_insert True sample_map (Some ''/app/(.*)'') (7::nat) of
     Inl f \<Rightarrow> f = Assert_fail \<and> route_table sample_map (route_prefix ''/app/(.*)'') \<noteq> None
   | Inr (rc, m') \<Rightarrow> routes_ok m' \<and>
       (rc = 0 \<and> route_table sample_map (route_prefix ''/app/(.*)'') = None \<and>
          route_table m' = (route_table sample_map)
            (route_prefix ''/app/(.*)'' \<mapsto> route_of (CHR ''('') ''/app/(.*)'' (7::nat))
        \<or> rc = -1 \<and> \<not> True \<and> m' = sample_map)"
  by (rule RouteMap_insert_correct [OF sample_map_ok])

text \<open>
  the same for the reversed maps of host names, whose key is the reversed part behind
  the last closing parenthesis.
\<close>

theorem RouteMap_insert_reversed_correct:
  assumes "routes_ok m"
  shows "case RouteMap_insert_reversed mem m (Some p) d of
           Inl f \<Rightarrow> f = Assert_fail \<and> route_table m (host_suffix p) \<noteq> None
         | Inr (rc, m') \<Rightarrow> routes_ok m' \<and>
             (rc = 0 \<and> route_table m (host_suffix p) = None \<and>
                route_table m' = (route_table m)(host_suffix p \<mapsto> route_of (CHR '')'') p d)
              \<or> rc = -1 \<and> \<not> mem \<and> m' = m)"
  unfolding host_suffix_def route_of_def by (rule insert_eq_effect [OF assms RouteMap_insert_reversed_eq])

lemma RouteMap_insert_reversed_correct_witness:
  "case RouteMap_insert_reversed True sample_map (Some ''(.+).example.com'') (7::nat) of
     Inl f \<Rightarrow> f = Assert_fail \<and> route_table sample_map (host_suffix ''(.+).example.com'') \<noteq> None
   | Inr (rc, m') \<Rightarrow> routes_ok m' \<and>
       (rc = 0 \<and> route_table sample_map (host_suffix ''(.+).example.com'') = None \<and>
          route_table m' = (route_table sample_map)
            (host_suffix ''(.+).example.com'' \<mapsto> route_of (CHR '')'') ''(.+).example.com'' (7::nat))
        \<or> rc = -1 \<and> \<not> True \<and> m' = sample_map)"
  by (rule RouteMap_insert_reversed_correct [OF sample_map_ok])

text \<open>
  C23: a host loaded with routes of distinct prefixes answers every path: from the route with the longest prefix of the path,
  directly when the route has no parenthesis and otherwise exactly when its pattern matches, and with no backend when no
  prefix fits.  The one exception, which the manual does not have, is a path that is itself the beginning of a longer route's
  prefix and no route's prefix exactly: it has no backend, whatever shorter routes there are.
\<close>

theorem Host_match_longest_prefix:
  assumes "valid_rows rows"
  shows "\<exists>h. add_backends (fresh_host name) rows = Inr h \<and>
    (\<forall>(p, type, t)\<in>set rows. on_path p tgt \<and>
       (\<forall>(p', type', t')\<in>set rows. on_path p' tgt \<longrightarrow> length (route_prefix p') \<le> length (route_prefix p)) \<and> \<not> cut_short rows tgt \<longrightarrow>
       Host_match_backend h tgt =
         (if CHR ''('' \<in> set p
          then cbind (bstring_match tgt p) (\<lambda>r. Inr (if r \<noteq> None then (Some \<lparr>btype = type, target = t\<rparr>, Some p) else (None, None)))
          else Inr (Some \<lparr>btype = type, target = t\<rparr>, Some p))) \<and>
    ((\<forall>(p, type, t)\<in>set rows. \<not> on_path p tgt) \<or> cut_short rows tgt \<longrightarrow> Host_match_backend h tgt = Inr (None, None))"
proof -
  obtain h where h: "add_backends (fresh_host name) rows = Inr h" "routes_ok (hroutes h)"
    "route_table (hroutes h) = map_of (route_rows rows)"
    using add_backends_table [OF fresh_host_routes(1) assms(1)] by (auto simp: fresh_host_routes(2))
  have "Host_match_backend h tgt =
      (if CHR ''('' \<in> set p
       then cbind (bstring_match tgt p) (\<lambda>r. Inr (if r \<noteq> None then (Some \<lparr>btype = type, target = t\<rparr>, Some p) else (None, None)))
       else Inr (Some \<lparr>btype = type, target = t\<rparr>, Some p))"
    if "(p, type, t) \<in> set rows" "on_path p tgt"
      "\<forall>(p', type', t')\<in>set rows. on_path p' tgt \<longrightarrow> length (route_prefix p') \<le> length (route_prefix p)" "\<not> cut_short rows tgt"
    for p type t
    using found_longest [OF assms that] h(2,3)
    by (intro Host_match_found) (simp add: RouteMap_simple_prefix_match_def routes_ok_def route_table_def)
  moreover have "Host_match_backend h tgt = Inr (None, None)" if "(\<forall>(p, type, t)\<in>set rows. \<not> on_path p tgt) \<or> cut_short rows tgt"
    using found_none [OF that] h(2,3)
    by (simp add: Host_match_backend_def RouteMap_simple_prefix_match_def accept_route_def routes_ok_def route_table_def)
  ultimately show ?thesis using h(1) by (intro exI [of _ h]) auto
qed

lemma sample_rows_valid: "valid_rows sample_rows"
  by (auto simp: sample_rows_def valid_rows_def route_rows_def route_prefix_def tst_key_def)

lemma Host_match_longest_prefix_witness:
  "\<exists>h. add_backends (fresh_host ''localhost'') sample_rows = Inr h \<and>
    Host_match_backend h ''/x'' = Inr (Some \<lparr>btype = BACKEND_DIR, target = 1\<rparr>, Some ''/'') \<and>
    Host_match_backend h ''/ch'' = Inr (None, None)"
proof -
  have p: "route_prefix ''/'' = ''/''" "route_prefix ''/chat/(.*)'' = ''/chat/''" by (simp_all add: route_prefix_def tst_key_def)
  from Host_match_longest_prefix [OF sample_rows_valid, of "''localhost''" "''/x''"] obtain h where
    h: "add_backends (fresh_host ''localhost'') sample_rows = Inr h"
      "Host_match_backend h ''/x'' = Inr (Some \<lparr>btype = BACKEND_DIR, target = 1\<rparr>, Some ''/'')"
    by (auto simp: sample_rows_def on_path_def cut_short_def p)
  from Host_match_longest_prefix [OF sample_rows_valid, of "''localhost''" "''/ch''"] h(1) have
    "Host_match_backend h ''/ch'' = Inr (None, None)"
    by (auto simp: sample_rows_def on_path_def cut_short_def p)
  with h show ?thesis by blast
qed

text \<open>
  The host table answers a name that differs from a configured host in its first
  character as if it were that host.
\<close>

theorem Server_wrong_host:
  "cbind (Server_add_host True sample_server (Some ''b.com'') (fresh_host ''b.com''))
     (\<lambda>(rc, srv). cbind (Server_match_backend srv ''a.com'') (\<lambda>h. Inr (rc, map_option hname h))) =
   Inr (0, Some ''b.com'')"
  by (simp add: sample_server_def Server_create_def RouteMap_create_def Server_add_host_def RouteMap_insert_reversed_eq
      RouteMap_insert_base_def tst_insert_def tst_insert_base.simps c_lt_def schar_def fresh_host_def
      Server_match_backend_def RouteMap_match_suffix_def tst_search_suffix_def accept_route_def)

text \<open>
  \<^verbatim>\<open>Server_match_backend\<close> without a route for the name: the default host exactly when
  the default host's name, read as a pattern, matches.
\<close>

theorem Server_default_host:
  assumes "RouteMap_match_suffix (hosts srv) tgt = Inr None" "wf_pattern (default_hostname srv)"
  shows "Server_match_backend srv tgt =
    Inr (if \<exists>e. matches tgt (length tgt) (default_hostname srv) 0 e then default_host srv else None)"
proof -
  have "bstring_match tgt (default_hostname srv) \<noteq> Inl f" for f
    using match_no_fault [OF assms(2)] by (simp add: bstring_match_def)
  then obtain r where r: "bstring_match tgt (default_hostname srv) = Inr r"
    by (cases "bstring_match tgt (default_hostname srv)") auto
  with match_correct_on [of tgt "length tgt" "default_hostname srv" 0] assms(1) show ?thesis
    by (cases r) (auto simp: Server_match_backend_def bstring_match_def correct_on_def)
qed

lemma Server_default_host_witness:
  "Server_match_backend sample_server ''localhost:6767'' =
    Inr (if \<exists>e. matches ''localhost:6767'' (length ''localhost:6767'') (default_hostname sample_server) 0 e
         then default_host sample_server else None)"
proof (rule Server_default_host)
  show "RouteMap_match_suffix (hosts sample_server) ''localhost:6767'' = Inr None"
    by (simp add: sample_server_def Server_create_def RouteMap_create_def RouteMap_match_suffix_def
        tst_search_suffix_def accept_route_def)
  show "wf_pattern (default_hostname sample_server)" by code_simp
qed

text \<open>
  \<^verbatim>\<open>Server_create\<close> accepts any text for the port: when memory is there it answers a server
  whose port is what \<^verbatim>\<open>atoi\<close> makes of it, and so port 0 for a text that is no number.
\<close>

theorem Server_create_any_port:
  "(\<exists>srv. Server_create (\<lambda>_. True) u d prt c a e p = Some srv \<and> port srv = atoi prt) \<and>
   map_option port (Server_create (\<lambda>_. True) u d ''http'' c a e p) = Some 0"
proof -
  have "atoi ''http'' = 0" by code_simp
  then show ?thesis by (simp add: Server_create_def RouteMap_create_def)
qed

text \<open>
  every route \<^verbatim>\<open>RouteMap_match\<close> answers is stored in the map and, when it has a pattern,
  its pattern matches the path.
\<close>

theorem RouteMap_match_sound:
  assumes "routes_ok m" "\<And>n. mem n" "RouteMap_match mem m path = Inr found" "r \<in> set found"
  shows "(\<exists>k. route_table m k = Some r) \<and>
    (has_pattern r \<longrightarrow> (\<exists>e. matches path (length path) (pattern r) 0 e))"
proof -
  let ?test = "\<lambda>r k. RouteMap_collect_match r k \<noteq> Inr False"
  from assms(3) have coll: "tst_collect mem (routes m) path (Some ?test) = Some found"
    and nofault: "List.find (\<lambda>r. isl (RouteMap_collect_match r path)) found = None"
    by (auto simp: RouteMap_match_def split: option.splits)
  have "r \<in># tst_values (routes m)" and test: "?test r path"
    using collect_values [OF coll assms(2,4)] by auto
  then have "\<exists>k. route_table m k = Some r"
    using tst_values_ran assms(1) by (auto simp: routes_ok_def route_table_def ran_def)
  moreover have "\<not> isl (RouteMap_collect_match r path)"
    using nofault assms(4) by (auto simp: find_None_iff)
  then have "\<exists>e. matches path (length path) (pattern r) 0 e" if "has_pattern r"
    using test that match_correct_on [of path "length path" "pattern r" 0]
    by (cases "pattern_match path (length path) (pattern r)")
      (auto simp: RouteMap_collect_match_def pattern_match_def correct_on_def)
  ultimately show ?thesis by blast
qed

lemma RouteMap_match_sound_witness:
  "(\<exists>k. route_table sample_full k = Some (route_of (CHR ''('') ''/a(b+)$'' 7)) \<and>
   (has_pattern (route_of (CHR ''('') ''/a(b+)$'' (7::nat)) \<longrightarrow>
     (\<exists>e. matches ''/abb'' (length ''/abb'') (pattern (route_of (CHR ''('') ''/a(b+)$'' (7::nat))) 0 e))"
proof (rule RouteMap_match_sound [where mem = "\<lambda>_. True" and found = "[route_of (CHR ''('') ''/a(b+)$'' 7]"])
  show "routes_ok sample_full" by (simp add: routes_ok_def sample_full_def c_lt_def schar_def)
  have "RouteMap_collect_match (route_of (CHR ''('') ''/a(b+)$'' (7::nat)) ''/abb'' = Inr True" by code_simp
  then show "RouteMap_match (\<lambda>_. True) sample_full ''/abb'' = Inr [route_of (CHR ''('') ''/a(b+)$'' 7]"
    by (simp add: RouteMap_match_def collect_spec sample_full_def c_lt_def schar_def present_def children_def)
qed auto

end
