(* ===== verification/State.thy ===== *)
theory State
  imports Prelude
begin

text \<open>
  The connection state machine: \<^verbatim>\<open>src/state.c\<close>, the C code Ragel generated from
  \<^verbatim>\<open>state.rl\<close>, against the machine \<^verbatim>\<open>state_machine.rl\<close> declares.  An action callback
  takes the event and the connection data and answers the next event; \<^verbatim>\<open>NULL\<close> callbacks are \<open>None\<close>.
  The generated code has one label per transition (\<^verbatim>\<open>trN\<close>) and per target
  (\<^verbatim>\<open>stN\<close>); its state numbers are kept.
\<close>

section \<open>Events and actions\<close>

abbreviation (input) FINISHED :: int where "FINISHED \<equiv> 100"
abbreviation (input) ACCEPT :: int where "ACCEPT \<equiv> 101"
abbreviation (input) CLOSE :: int where "CLOSE \<equiv> 102"
abbreviation (input) CONNECT :: int where "CONNECT \<equiv> 103"
abbreviation (input) DIRECTORY :: int where "DIRECTORY \<equiv> 104"
abbreviation (input) FAILED :: int where "FAILED \<equiv> 105"
abbreviation (input) HANDLER :: int where "HANDLER \<equiv> 106"
abbreviation (input) HTTP_REQ :: int where "HTTP_REQ \<equiv> 107"
abbreviation (input) MSG_REQ :: int where "MSG_REQ \<equiv> 108"
abbreviation (input) OPEN :: int where "OPEN \<equiv> 109"
abbreviation (input) PROXY :: int where "PROXY \<equiv> 110"
abbreviation (input) REMOTE_CLOSE :: int where "REMOTE_CLOSE \<equiv> 111"
abbreviation (input) REQ_RECV :: int where "REQ_RECV \<equiv> 112"
abbreviation (input) REQ_SENT :: int where "REQ_SENT \<equiv> 113"
abbreviation (input) RESP_SENT :: int where "RESP_SENT \<equiv> 114"
abbreviation (input) SOCKET_REQ :: int where "SOCKET_REQ \<equiv> 115"
abbreviation (input) TIMEOUT :: int where "TIMEOUT \<equiv> 116"
abbreviation (input) EVENT_END :: int where "EVENT_END \<equiv> 117"

datatype action =
    A_open | A_error | A_finish | A_close | A_parse | A_register_request | A_identify_request
  | A_route_request | A_send_socket_response | A_msg_to_handler | A_http_to_handler | A_http_to_proxy
  | A_http_to_directory | A_proxy_deliver | A_proxy_failed | A_proxy_reply_parse | A_proxy_req_parse
  | A_proxy_close

type_synonym 'd state_action_cb = "int \<Rightarrow> 'd \<Rightarrow> int \<times> 'd"
type_synonym 'd state_actions = "action \<Rightarrow> 'd state_action_cb option"

text \<open>The \<^verbatim>\<open>CALL\<close> macro on \<^verbatim>\<open>next\<close> and the data.\<close>

definition CALL :: "'d state_actions \<Rightarrow> action \<Rightarrow> int \<Rightarrow> int \<times> 'd \<Rightarrow> int \<times> 'd" where
  "CALL acts a c nd = (case acts a of None \<Rightarrow> nd | Some f \<Rightarrow> f c (snd nd))"

section \<open>The generated machine\<close>

text \<open>
  The result of a transition: the new \<^verbatim>\<open>cs\<close>, whether it went through \<^verbatim>\<open>++p == pe\<close> to
  \<^verbatim>\<open>_test_eof\<close> (rather than to \<^verbatim>\<open>_out\<close>), and \<^verbatim>\<open>next\<close> with the data.
\<close>

type_synonym 'd outcome = "int \<times> bool \<times> int \<times> 'd"

definition st0 :: "int \<times> 'd \<Rightarrow> 'd outcome" where
  "st0 nd = (0, False, nd)"

definition st :: "int \<Rightarrow> int \<times> 'd \<Rightarrow> 'd outcome" where
  "st s nd = (s, True, nd)"

definition tr0 :: "'d state_actions \<Rightarrow> int \<Rightarrow> int \<times> 'd \<Rightarrow> 'd outcome" where
  "tr0 acts p nd = st0 (CALL acts A_error p nd)"

text \<open>The cases of the \<^verbatim>\<open>switch\<close> that belong to \<^verbatim>\<open>Connection\<close>; \<open>None\<close> when there is none.\<close>

definition connection_case :: "'d state_actions \<Rightarrow> int \<Rightarrow> int \<Rightarrow> int \<times> 'd \<Rightarrow> 'd outcome option" where
  "connection_case acts cs p nd =
     (let tr = (\<lambda>a s. Some (st s (CALL acts a p nd))); err = Some (tr0 acts p nd) in
      if cs = 17 then (if p = 109 then tr A_open 1 else Some (st0 nd))
      else if cs = 1 then (if p = 101 then tr A_parse 2 else err)
      else if cs = 2 then
        (if p = 102 then tr A_close 18 else if p = 112 then tr A_register_request 3 else err)
      else if cs = 18 then (if p = 109 then tr A_open 1 else err)
      else if cs = 3 then
        (if p = 102 then tr A_close 18 else if p = 107 then tr A_route_request 4
         else if p = 108 then tr A_route_request 8 else if p = 115 then tr A_send_socket_response 5
         else err)
      else if cs = 4 then
        (if p = 102 then tr A_close 18 else if p = 104 then tr A_http_to_directory 5
         else if p = 106 then tr A_http_to_handler 9 else if p = 110 then tr A_http_to_proxy 11
         else err)
      else if cs = 5 then
        (if p = 102 then tr A_close 18 else if p = 114 then tr A_parse 6 else err)
      else if cs = 6 then
        (if p = 102 then tr A_close 18 else if p = 112 then tr A_identify_request 7 else err)
      else if cs = 7 then
        (if p = 107 then tr A_route_request 4 else if p = 108 then tr A_route_request 8
         else if p = 115 then tr A_send_socket_response 5 else err)
      else if cs = 8 then (if p = 106 then tr A_msg_to_handler 9 else err)
      else if cs = 9 then (if p = 113 then tr A_parse 6 else err)
      else if cs = 10 then err
      else None)"

text \<open>
  The cases of \<^verbatim>\<open>Proxy\<close>.  \<^verbatim>\<open>tr18\<close> and \<^verbatim>\<open>tr20\<close> step back (\<^verbatim>\<open>p--\<close>) and enter
  \<^verbatim>\<open>st6\<close> and \<^verbatim>\<open>st4\<close>, which therefore read the same event again.
\<close>

definition proxy_case :: "'d state_actions \<Rightarrow> int \<Rightarrow> int \<Rightarrow> int \<times> 'd \<Rightarrow> 'd outcome option" where
  "proxy_case acts cs p nd =
     (let tr = (\<lambda>a s. Some (st s (CALL acts a p nd))); err = Some (tr0 acts p nd);
          tr18 = connection_case acts 6 p nd;
          tr20 = connection_case acts 4 p (CALL acts A_proxy_close p nd) in
      if cs = 11 then
        (if p = 103 then tr A_proxy_deliver 12 else if p = 105 then tr A_proxy_failed 13
         else Some (st0 nd))
      else if cs = 12 then
        (if p = 111 then tr A_proxy_close 13 else if p = 113 then tr A_proxy_reply_parse 15 else err)
      else if cs = 13 then (if p = 102 then tr18 else err)
      else if cs = 14 then err
      else if cs = 15 then
        (if p = 111 then tr A_proxy_close 13 else if p = 112 then tr A_proxy_req_parse 16 else err)
      else if cs = 16 then
        (if p = 104 then tr20 else if p = 106 then tr20 else if p = 107 then tr A_proxy_deliver 12
         else if p = 110 then tr20 else if p = 111 then tr A_proxy_close 13 else err)
      else None)"

text \<open>
  \<^verbatim>\<open>_test_eof\<close>: with \<^verbatim>\<open>p == eof\<close> the current event is the 0 behind the queue's only entry.
\<close>

definition test_eof :: "'d state_actions \<Rightarrow> int \<Rightarrow> int \<times> 'd \<Rightarrow> int \<times> 'd" where
  "test_eof acts cs nd =
     (if cs \<in> {1, 2, 3, 4, 5, 6, 7, 8, 9, 10, 12, 13, 14, 15, 16} then CALL acts A_error 0 nd
      else if cs = 18 then CALL acts A_finish 0 nd
      else nd)"

text \<open>
  \<^verbatim>\<open>State_exec\<close>.  A \<^verbatim>\<open>cs\<close> without a case, the error state 0 in particular, falls out of the
  \<^verbatim>\<open>switch\<close> into \<^verbatim>\<open>_test_eof1\<close> with \<^verbatim>\<open>p\<close> still on the event.
\<close>

definition State_init :: int where
  "State_init = 17"

definition State_exec :: "'d state_actions \<Rightarrow> int \<Rightarrow> int \<Rightarrow> 'd \<Rightarrow> int \<times> int \<times> 'd" where
  "State_exec acts cs event data =
     (let (cs', at_eof, nd) =
        (case connection_case acts cs event (0, data) of
           Some out \<Rightarrow> out
         | None \<Rightarrow>
             (case proxy_case acts cs event (0, data) of
                Some out \<Rightarrow> out
              | None \<Rightarrow> (1, False, 0, data)));
          (next, data') = (if at_eof \<and> event = CLOSE then test_eof acts cs' nd else nd) in
      (next, cs', data'))"

definition State_invariant :: "int \<Rightarrow> int" where
  "State_invariant cs = (if cs = 0 then -1 else if cs \<ge> 17 then 1 else 0)"

definition State_finish :: "int \<Rightarrow> int" where
  "State_finish cs = State_invariant cs"

definition EVENT_NAMES :: "string list" where
  "EVENT_NAMES = [''FINISHED'', ''ACCEPT'', ''CLOSE'', ''CONNECT'', ''DIRECTORY'', ''FAILED'', ''HANDLER'',
     ''HTTP_REQ'', ''MSG_REQ'', ''OPEN'', ''PROXY'', ''REMOTE_CLOSE'', ''REQ_RECV'', ''REQ_SENT'',
     ''RESP_SENT'', ''SOCKET_REQ'', ''TIMEOUT'']"

definition State_event_name :: "int \<Rightarrow> string cres" where
  "State_event_name event =
     (let event = (if event = 0 then FINISHED else event) in
      if FINISHED \<le> event \<and> event < EVENT_END then Inr (EVENT_NAMES ! nat (event - FINISHED))
      else Inl Assert_fail)"

section \<open>The declared machine\<close>

text \<open>
  \<^verbatim>\<open>state_machine.rl\<close>: the named states, and one rule per arrow.  \<open>Identified\<close> is the
  unnamed state in the middle of the two-event arrows of \<^verbatim>\<open>Idle\<close>; \<open>Final\<close> is where a
  connection ends and the next repetition of \<^verbatim>\<open>main\<close> starts.  The arrows that leave the proxy
  hold the event and take the arrow of the state they enter.
\<close>

datatype rl_state =
    Start | Accepting | Identifying | Registered | Idle | Identified | MSGRouting | HTTPRouting
  | Queueing | Responding | Final | P_start | P_Proxying | P_Sending | P_Receiving | P_Closing | Err

inductive arrow :: "rl_state \<Rightarrow> int \<Rightarrow> action list \<Rightarrow> rl_state \<Rightarrow> bool" where
  "arrow Start OPEN [A_open] Accepting"
| "arrow Final OPEN [A_open] Accepting"
| "arrow Accepting ACCEPT [A_parse] Identifying"
| "arrow Identifying REQ_RECV [A_register_request] Registered"
| "arrow Registered HTTP_REQ [A_route_request] HTTPRouting"
| "arrow Registered MSG_REQ [A_route_request] MSGRouting"
| "arrow Registered SOCKET_REQ [A_send_socket_response] Responding"
| "arrow Idle REQ_RECV [A_identify_request] Identified"
| "arrow Identified HTTP_REQ [A_route_request] HTTPRouting"
| "arrow Identified MSG_REQ [A_route_request] MSGRouting"
| "arrow Identified SOCKET_REQ [A_send_socket_response] Responding"
| "arrow MSGRouting HANDLER [A_msg_to_handler] Queueing"
| "arrow HTTPRouting HANDLER [A_http_to_handler] Queueing"
| "arrow HTTPRouting PROXY [A_http_to_proxy] P_start"
| "arrow HTTPRouting DIRECTORY [A_http_to_directory] Responding"
| "arrow Queueing REQ_SENT [A_parse] Idle"
| "arrow Responding RESP_SENT [A_parse] Idle"
| "s \<in> {Identifying, Registered, Idle, HTTPRouting, Responding} \<Longrightarrow> arrow s CLOSE [A_close] Final"
| "arrow P_start CONNECT [A_proxy_deliver] P_Sending"
| "arrow P_start FAILED [A_proxy_failed] P_Closing"
| "arrow P_Proxying HTTP_REQ [A_proxy_deliver] P_Sending"
| "arrow HTTPRouting e as s \<Longrightarrow> e \<in> {PROXY, HANDLER, DIRECTORY} \<Longrightarrow> arrow P_Proxying e (A_proxy_close # as) s"
| "arrow P_Sending REQ_SENT [A_proxy_reply_parse] P_Receiving"
| "arrow P_Receiving REQ_RECV [A_proxy_req_parse] P_Proxying"
| "s \<in> {P_Proxying, P_Sending, P_Receiving} \<Longrightarrow> arrow s REMOTE_CLOSE [A_proxy_close] P_Closing"
| "arrow Idle CLOSE as s \<Longrightarrow> arrow P_Closing CLOSE as s"

inductive_simps arrow_simps [fsm_simps]:
  "arrow Start e as s'"
  "arrow Accepting e as s'"
  "arrow Identifying e as s'"
  "arrow Registered e as s'"
  "arrow Idle e as s'"
  "arrow Identified e as s'"
  "arrow MSGRouting e as s'"
  "arrow HTTPRouting e as s'"
  "arrow Queueing e as s'"
  "arrow Responding e as s'"
  "arrow Final e as s'"
  "arrow P_start e as s'"
  "arrow P_Proxying e as s'"
  "arrow P_Sending e as s'"
  "arrow P_Receiving e as s'"
  "arrow P_Closing e as s'"
  "arrow Err e as s'"

fun cs_of :: "rl_state \<Rightarrow> int" where
  "cs_of Err = 0" | "cs_of Accepting = 1" | "cs_of Identifying = 2" | "cs_of Registered = 3"
| "cs_of HTTPRouting = 4" | "cs_of Responding = 5" | "cs_of Idle = 6" | "cs_of Identified = 7"
| "cs_of MSGRouting = 8" | "cs_of Queueing = 9" | "cs_of P_start = 11" | "cs_of P_Sending = 12"
| "cs_of P_Closing = 13" | "cs_of P_Receiving = 15" | "cs_of P_Proxying = 16" | "cs_of Start = 17"
| "cs_of Final = 18"

text \<open>
  \<^verbatim>\<open><err(error)\<close> puts the error action on every state but the start states of the two
  machines, \<^verbatim>\<open>%eof(finish)\<close> the finish action on the final state at the end of the input.
\<close>

definition declared :: "rl_state \<Rightarrow> int \<Rightarrow> (action \<times> int) list \<Rightarrow> rl_state \<Rightarrow> bool" where
  "declared s e calls s' \<longleftrightarrow>
     (\<exists>as. arrow s e as s' \<and>
        calls = map (\<lambda>a. (a, e)) as @ (if e = CLOSE \<and> s' = Final then [(A_finish, 0)] else []))
   \<or> (\<nexists>as s''. arrow s e as s'') \<and> s' = Err \<and>
        calls = (if s \<in> {Start, P_start} then [] else [(A_error, e)])"

definition run_calls :: "'d state_actions \<Rightarrow> (action \<times> int) list \<Rightarrow> int \<times> 'd \<Rightarrow> int \<times> 'd" where
  "run_calls acts calls nd = fold (\<lambda>(a, c). CALL acts a c) calls nd"

lemma run_calls_simps [simp]:
  "run_calls acts [] nd = nd"
  "run_calls acts ((a, c) # calls) nd = run_calls acts calls (CALL acts a c nd)"
  by (simp_all add: run_calls_def)

lemmas exec_defs = State_exec_def connection_case_def proxy_case_def test_eof_def st_def st0_def tr0_def Let_def


section \<open>The generated machine implements the declared one\<close>

lemma cs_of_inj: "cs_of s = cs_of s' \<longleftrightarrow> s = s'"
  by (cases s; cases s') simp_all

lemma arrow_unique: "arrow s e as s' \<Longrightarrow> arrow s e as' s'' \<Longrightarrow> as' = as \<and> s'' = s'"
  by (cases s) (auto simp: fsm_simps)

lemma declared_unique: "declared s e calls s' \<Longrightarrow> declared s e calls' s'' \<Longrightarrow> calls' = calls \<and> s'' = s'"
  unfolding declared_def using arrow_unique [of s e] by blast

text \<open>What one event does in a given state, as a computation.\<close>

definition exec_as :: "'d state_actions \<Rightarrow> rl_state \<Rightarrow> int \<Rightarrow> 'd \<Rightarrow> (action \<times> int) list \<Rightarrow> rl_state \<Rightarrow> bool" where
  "exec_as acts s e data calls s' \<longleftrightarrow>
     State_exec acts (cs_of s) e data =
       (let (n, data') = run_calls acts calls (0, data) in (n, cs_of s', data'))"

lemma outcome_split: "(let (n, d') = run_calls acts calls nd in (n, c, d')) =
    (fst (run_calls acts calls nd), c, snd (run_calls acts calls nd))"
  by (simp add: case_prod_beta Let_def)

lemma exec_arrow:
  assumes "arrow s e as s'"
  shows "exec_as acts s e data (map (\<lambda>a. (a, e)) as @ (if e = CLOSE \<and> s' = Final then [(A_finish, 0)] else [])) s'"
  using assms unfolding exec_as_def outcome_split
  by cases (simp_all add: fsm_simps exec_defs case_prod_beta, auto simp: fsm_simps exec_defs case_prod_beta)

lemma exec_no_arrow:
  assumes "\<nexists>as s'. arrow s e as s'" "s \<noteq> Err"
  shows "exec_as acts s e data (if s \<in> {Start, P_start} then [] else [(A_error, e)]) Err"
  using assms unfolding exec_as_def outcome_split
  by (cases s) (auto simp: fsm_simps exec_defs case_prod_beta)

lemma arrow_actions:
  "arrow s e as s' \<Longrightarrow> e \<noteq> CLOSE \<Longrightarrow>
   as \<noteq> [] \<and> set as \<inter> {A_error, A_close, A_finish} = {} \<and> s' \<notin> {Start, Final, Err} \<and>
   (s' = P_start \<longrightarrow> last as = A_http_to_proxy) \<and> (s = Start \<longrightarrow> e = OPEN \<and> as = [A_open]) \<and>
   (s \<notin> {Start, Final} \<longrightarrow> A_open \<notin> set as)"
  by (cases s) (auto simp: fsm_simps)

lemma arrow_CLOSE:
  "(\<exists>as s'. arrow s CLOSE as s') \<longleftrightarrow> s \<in> {Identifying, Registered, Idle, HTTPRouting, Responding, P_Closing}"
  "arrow s CLOSE as s' \<Longrightarrow> as = [A_close] \<and> s' = Final"
  by (cases s; auto simp: fsm_simps)+

lemma exec_Err: "State_exec acts (cs_of Err) e data = (0, cs_of Accepting, data)"
  by (simp add: exec_defs)

section \<open>The connection task\<close>

text \<open>
  \<^verbatim>\<open>Connection_task\<close> in \<^verbatim>\<open>src/connection.c\<close>: the machine is fed the event each action
  answers until that is \<^verbatim>\<open>CLOSE\<close>; an event out of range is answered with \<open>fail\<close> (the 500
  response) and ends the loop; either way \<^verbatim>\<open>CLOSE\<close> is run last.  A client that keeps the
  connection busy keeps the loop going, so it is a partial function.
\<close>

definition valid_event :: "int \<Rightarrow> bool" where
  "valid_event next \<longleftrightarrow> FINISHED \<le> next \<and> next < EVENT_END"

partial_function (option) task_loop ::
    "'d state_actions \<Rightarrow> (int \<Rightarrow> 'd \<Rightarrow> 'd) \<Rightarrow> int \<Rightarrow> int \<Rightarrow> 'd \<Rightarrow> (int \<times> 'd) option" where
  "task_loop acts fail cs next data =
     (if next = CLOSE then Some (cs, data)
      else case State_exec acts cs next data of (next', cs', data') \<Rightarrow>
        if valid_event next' then task_loop acts fail cs' next' data'
        else Some (cs', fail next' data'))"

definition Connection_task :: "'d state_actions \<Rightarrow> (int \<Rightarrow> 'd \<Rightarrow> 'd) \<Rightarrow> 'd \<Rightarrow> (int \<times> 'd) option" where
  "Connection_task acts fail data =
     (case task_loop acts fail State_init OPEN data of
        None \<Rightarrow> None
      | Some (cs, data') \<Rightarrow>
          (case State_exec acts cs CLOSE data' of (next, cs', data'') \<Rightarrow> Some (cs', data'')))"

text \<open>The same actions, keeping a log of the calls.\<close>

definition logged :: "'d state_actions \<Rightarrow> ('d \<times> (action \<times> int) list) state_actions" where
  "logged acts a =
     map_option (\<lambda>f c (d, l). case f c d of (n, d') \<Rightarrow> (n, d', l @ [(a, c)])) (acts a)"

text \<open>
  What the machine needs of a connection's actions: all are there, the error action closes,
  and the proxy entry answers one of the two events its start state accepts.
\<close>

locale connection_actions =
  fixes acts :: "'d state_actions"
    and fail :: "int \<Rightarrow> 'd \<Rightarrow> 'd"
  assumes total: "acts a \<noteq> None"
    and error_closes: "acts A_error = Some f \<Longrightarrow> fst (f c d) = CLOSE"
    and proxy_answers: "acts A_http_to_proxy = Some f \<Longrightarrow> fst (f c d) \<in> {CONNECT, FAILED}"
begin

abbreviation lfail :: "int \<Rightarrow> 'd \<times> (action \<times> int) list \<Rightarrow> 'd \<times> (action \<times> int) list" where
  "lfail n dl \<equiv> (fail n (fst dl), snd dl)"

definition quiet :: "(action \<times> int) list \<Rightarrow> bool" where
  "quiet l \<longleftrightarrow> (\<forall>(a, c)\<in>set l. a \<notin> {A_open, A_error, A_close, A_finish})"

lemma call_logged:
  "CALL (logged acts) a c (n, d, l) = (n', d', l') \<Longrightarrow> l' = l @ [(a, c)] \<and>
     (a = A_error \<longrightarrow> n' = CLOSE) \<and> (a = A_http_to_proxy \<longrightarrow> n' \<in> {CONNECT, FAILED})"
  using total [of a] error_closes proxy_answers
  by (auto simp: CALL_def logged_def split: option.splits prod.splits) (metis fst_conv)+

text \<open>The states the loop is in when it looks at the next event.\<close>

definition loop_inv :: "rl_state \<Rightarrow> int \<Rightarrow> (action \<times> int) list \<Rightarrow> bool" where
  "loop_inv s next l \<longleftrightarrow>
     s = Start \<and> next = OPEN \<and> l = []
   \<or> s \<notin> {Start, Final, Err} \<and> (\<exists>r. l = (A_open, OPEN) # r \<and> quiet r) \<and>
       (s = P_start \<longrightarrow> next \<in> {CONNECT, FAILED})
   \<or> s = Err \<and> next = CLOSE \<and> (\<exists>c r. l = (A_open, OPEN) # r @ [(A_error, c)] \<and> quiet r)"

lemma run_calls_logged:
  "run_calls (logged acts) calls (n, d, l) = (n', d', l') \<Longrightarrow> l' = l @ calls \<and>
     (calls \<noteq> [] \<longrightarrow> fst (last calls) = A_error \<longrightarrow> n' = CLOSE) \<and>
     (calls \<noteq> [] \<longrightarrow> fst (last calls) = A_http_to_proxy \<longrightarrow> n' \<in> {CONNECT, FAILED})"
proof (induction calls arbitrary: n d l)
  case (Cons ac calls)
  obtain a c where ac: "ac = (a, c)" by (cases ac)
  obtain n1 d1 l1 where call: "CALL (logged acts) a c (n, d, l) = (n1, d1, l1)"
    by (cases "CALL (logged acts) a c (n, d, l)") auto
  with Cons.prems ac have "run_calls (logged acts) calls (n1, d1, l1) = (n', d', l')" by simp
  from Cons.IH [OF this] call_logged [OF call] Cons.prems ac call show ?case
    by (cases calls) auto
qed simp

lemma quiet_simps [simp]:
  "quiet []" "quiet (l @ l') \<longleftrightarrow> quiet l \<and> quiet l'"
  "quiet ((a, c) # l) \<longleftrightarrow> a \<notin> {A_open, A_error, A_close, A_finish} \<and> quiet l"
  by (auto simp: quiet_def)

definition live :: "rl_state \<Rightarrow> (action \<times> int) list \<Rightarrow> bool" where
  "live s l \<longleftrightarrow> s \<notin> {Start, Final, Err} \<and> (\<exists>r. l = (A_open, OPEN) # r \<and> quiet r)"

definition failed :: "rl_state \<Rightarrow> (action \<times> int) list \<Rightarrow> bool" where
  "failed s l \<longleftrightarrow> s = Err \<and> (\<exists>c r. l = (A_open, OPEN) # r @ [(A_error, c)] \<and> quiet r)"

lemma loop_inv_alt:
  "loop_inv s next l \<longleftrightarrow> s = Start \<and> next = OPEN \<and> l = [] \<or>
     live s l \<and> (s = P_start \<longrightarrow> next \<in> {CONNECT, FAILED}) \<or> failed s l \<and> next = CLOSE"
  unfolding loop_inv_def live_def failed_def by blast

lemma quiet_calls: "set as \<inter> {A_open, A_error, A_close, A_finish} = {} \<Longrightarrow> quiet (map (\<lambda>a. (a, e)) as)"
  by (induction as) auto

lemma loop_step:
  assumes "loop_inv s next l" "next \<noteq> CLOSE"
    and exec: "State_exec (logged acts) (cs_of s) next (d, l) = (n', cs', d', l')"
  shows "\<exists>s'. cs' = cs_of s' \<and> (live s' l' \<and> (s' = P_start \<longrightarrow> n' \<in> {CONNECT, FAILED}) \<or> failed s' l' \<and> n' = CLOSE)"
proof -
  have s: "s \<noteq> Err" using assms(1,2) by (auto simp: loop_inv_alt live_def)
  have cases: "s = Start \<and> next = OPEN \<and> l = [] \<or> live s l \<and> (s = P_start \<longrightarrow> next \<in> {CONNECT, FAILED})"
    using assms(1,2) by (auto simp: loop_inv_alt)
  show ?thesis
  proof (cases "\<exists>as s'. arrow s next as s'")
    case True
    then obtain as s' where ar: "arrow s next as s'" by blast
    note act = arrow_actions [OF ar assms(2)]
    have run: "run_calls (logged acts) (map (\<lambda>a. (a, next)) as) (0, d, l) = (n', d', l')" "cs' = cs_of s'"
      using exec_arrow [OF ar, of "logged acts" "(d, l)"] exec assms(2)
      by (auto simp: exec_as_def split: prod.splits)
    have ends: "l' = l @ map (\<lambda>a. (a, next)) as" "s' = P_start \<longrightarrow> n' \<in> {CONNECT, FAILED}"
      using run_calls_logged [OF run(1)] act by (auto simp: last_map)
    have "live s' l'"
    proof (cases "s = Start")
      case True
      then show ?thesis using cases act ends by (auto simp: live_def)
    next
      case False
      then have "live s l" using cases by simp
      moreover from this have "quiet (map (\<lambda>a. (a, next)) as)" using act by (intro quiet_calls) (auto simp: live_def)
      ultimately show ?thesis using act ends(1) by (auto simp: live_def)
    qed
    then show ?thesis using run(2) ends(2) by blast
  next
    case False
    have st: "s \<notin> {Start, P_start}" using False cases by (auto simp: fsm_simps live_def)
    have run: "run_calls (logged acts) [(A_error, next)] (0, d, l) = (n', d', l')" "cs' = cs_of Err"
      using exec_no_arrow [OF False s, of "logged acts" "(d, l)"] exec st
      by (auto simp: exec_as_def split: prod.splits)
    have "failed Err l'" "n' = CLOSE"
      using run_calls_logged [OF run(1)] cases st by (auto simp: failed_def live_def)
    then show ?thesis using run(2) by blast
  qed
qed

definition ends_well :: "int \<times> 'd \<times> (action \<times> int) list \<Rightarrow> bool" where
  "ends_well res \<longleftrightarrow>
     (\<exists>s'. fst res = cs_of s' \<and> (live s' (snd (snd res)) \<and> s' \<noteq> P_start \<or> failed s' (snd (snd res))))"

lemma loop_round:
  assumes "loop_inv s nx (snd dl)"
    and body: "(if nx = CLOSE then Some (cs_of s, dl)
      else case State_exec (logged acts) (cs_of s) nx dl of (nx', cs', dl') \<Rightarrow>
        if valid_event nx' then loop cs' nx' dl' else Some (cs', lfail nx' dl')) = Some res"
    and IH: "\<And>s' nx' dl'. loop (cs_of s') nx' dl' = Some res \<Longrightarrow> loop_inv s' nx' (snd dl') \<Longrightarrow> ends_well res"
  shows "ends_well res"
proof (cases "nx = CLOSE")
  case True
  with assms(1) body show ?thesis by (auto simp: loop_inv_alt ends_well_def)
next
  case False
  obtain d l where dl: "dl = (d, l)" by (cases dl)
  obtain n' cs' d' l' where exec: "State_exec (logged acts) (cs_of s) nx dl = (n', cs', d', l')"
    by (cases "State_exec (logged acts) (cs_of s) nx dl") auto
  obtain s' where s': "cs' = cs_of s'"
    "live s' l' \<and> (s' = P_start \<longrightarrow> n' \<in> {CONNECT, FAILED}) \<or> failed s' l' \<and> n' = CLOSE"
    using loop_step [OF _ False, of s l d n' cs' d' l'] exec assms(1) dl by auto
  show ?thesis
  proof (cases "valid_event n'")
    case True
    with body False exec s'(1) have "loop (cs_of s') n' (d', l') = Some res" by simp
    from IH [OF this] s'(2) show ?thesis by (auto simp: loop_inv_alt)
  next
    case invalid: False
    with body False exec have "res = (cs', lfail n' (d', l'))" by simp
    with s' invalid show ?thesis by (auto simp: valid_event_def ends_well_def)
  qed
qed

lemma task_loop_end:
  assumes "task_loop (logged acts) lfail (cs_of s) nx dl = Some res" "loop_inv s nx (snd dl)"
  shows "ends_well res"
proof -
  let ?P = "\<lambda>a f cs nx dl res. a = logged acts \<longrightarrow> f = lfail \<longrightarrow>
     (\<forall>s. cs = cs_of s \<longrightarrow> loop_inv s nx (snd dl) \<longrightarrow> ends_well res)"
  have "?P (logged acts) lfail (cs_of s) nx dl res"
  proof (rule task_loop.raw_induct [where P = ?P, OF _ assms(1)], intro impI allI)
    fix loop a f cs nx dl res s
    assume IH: "\<And>a f cs nx dl res. loop a f cs nx dl = Some res \<Longrightarrow> ?P a f cs nx dl res"
      and body: "(if nx = CLOSE then Some (cs, dl)
        else case State_exec a cs nx dl of (nx', cs', dl') \<Rightarrow>
          if valid_event nx' then loop a f cs' nx' dl' else Some (cs', f nx' dl')) = Some res"
      and eq: "a = logged acts" "f = lfail" "cs = cs_of s" and inv: "loop_inv s nx (snd dl)"
    show "ends_well res"
      by (rule loop_round [OF inv body [unfolded eq]]) (use IH [of "logged acts" lfail] in blast)
  qed
  with assms(2) show ?thesis by blast
qed

text \<open>
  What is logged over a whole task: \<^verbatim>\<open>open\<close> first and, behind actions that neither open nor close
  nor fail, either \<^verbatim>\<open>close\<close> and \<^verbatim>\<open>finish\<close> or one \<^verbatim>\<open>error\<close>.
\<close>

lemma task_log:
  assumes "Connection_task (logged acts) lfail (d, []) = Some (cs', d', l')"
  shows "\<exists>r. quiet r \<and> (l' = (A_open, OPEN) # r @ [(A_close, CLOSE), (A_finish, 0)] \<and> cs' = 18 \<or>
                       (\<exists>c. l' = (A_open, OPEN) # r @ [(A_error, c)]) \<and> cs' \<in> {0, 1})"
proof -
  from assms obtain cs1 d1 l1 n where loop: "task_loop (logged acts) lfail State_init OPEN (d, []) = Some (cs1, d1, l1)"
    and exec: "State_exec (logged acts) cs1 CLOSE (d1, l1) = (n, cs', d', l')"
    by (auto simp: Connection_task_def split: option.splits prod.splits)
  obtain s where s: "cs1 = cs_of s" "live s l1 \<and> s \<noteq> P_start \<or> failed s l1"
    using task_loop_end [of Start OPEN "(d, [])" "(cs1, d1, l1)"] loop
    by (auto simp: State_init_def loop_inv_alt ends_well_def)
  consider (Err) "failed s l1" | (closing) "live s l1" "\<exists>as s'. arrow s CLOSE as s'"
    | (stuck) "live s l1" "\<nexists>as s'. arrow s CLOSE as s'" "s \<noteq> P_start" using s(2) by blast
  then show ?thesis
  proof cases
    case Err
    with exec s(1) exec_Err [of "logged acts"] show ?thesis by (auto simp: failed_def)
  next
    case closing
    then obtain as s' where ar: "arrow s CLOSE as s'" by blast
    have run: "run_calls (logged acts) [(A_close, CLOSE), (A_finish, 0)] (0, d1, l1) = (n, d', l')" "cs' = cs_of Final"
      using exec_arrow [OF ar, of "logged acts" "(d1, l1)"] exec s(1) arrow_CLOSE(2) [OF ar]
      by (auto simp: exec_as_def split: prod.splits)
    with run_calls_logged [OF run(1)] closing(1) show ?thesis by (auto simp: live_def)
  next
    case stuck
    have st: "s \<noteq> Err" "s \<notin> {Start, P_start}" using stuck by (auto simp: live_def)
    have run: "run_calls (logged acts) [(A_error, CLOSE)] (0, d1, l1) = (n, d', l')" "cs' = cs_of Err"
      using exec_no_arrow [OF stuck(2) st(1), of "logged acts" "(d1, l1)"] exec s(1) st(2)
      by (auto simp: exec_as_def split: prod.splits)
    with run_calls_logged [OF run(1)] stuck(1) show ?thesis by (auto simp: live_def)
  qed
qed

end

section \<open>Properties\<close>

text \<open>
  C24: the generated C machine implements the declared one: in the state number of every
  named state, each event runs exactly the actions of the declared arrow, in order and
  with the declared end-of-input action, and leads to the declared state; an event
  without an arrow runs the error action, if the state has it, and leads to the error state.
\<close>

theorem State_exec_implements_rl:
  assumes "s \<noteq> Err"
  shows "\<exists>calls s'. declared s e calls s' \<and>
           State_exec acts (cs_of s) e data =
             (let (next, data') = run_calls acts calls (0, data) in (next, cs_of s', data'))"
proof (cases "\<exists>as s'. arrow s e as s'")
  case True
  then obtain as s' where "arrow s e as s'" by blast
  then show ?thesis using exec_arrow [of s e as s' acts data] unfolding exec_as_def declared_def by blast
next
  case False
  then show ?thesis using exec_no_arrow [OF False assms, of acts data] unfolding exec_as_def declared_def by blast
qed

lemma State_exec_implements_rl_witness:
  "\<exists>calls s'. declared Idle CLOSE calls s' \<and>
     State_exec (\<lambda>a. Some (\<lambda>c (n::nat). (CLOSE, Suc n))) (cs_of Idle) CLOSE 0 =
       (let (next, data') = run_calls (\<lambda>a. Some (\<lambda>c n. (CLOSE, Suc n))) calls (0, 0) in (next, cs_of s', data'))"
  by (rule State_exec_implements_rl) simp

text \<open>
  Names of events: 0 is read as \<^verbatim>\<open>FINISHED\<close>, every event of the enumeration has
  the name of its constant, and anything else ends in the \<^verbatim>\<open>assert\<close>; the table is never
  read outside its bounds.
\<close>

theorem State_event_name_bounds:
  "case State_event_name event of
     Inr name \<Rightarrow> (event = 0 \<or> 100 \<le> event \<and> event < 117) \<and> name \<in> set EVENT_NAMES
   | Inl f \<Rightarrow> f = Assert_fail \<and> event \<noteq> 0 \<and> \<not> (100 \<le> event \<and> event < 117)"
proof -
  have "length EVENT_NAMES = 17" by (simp add: EVENT_NAMES_def)
  then show ?thesis by (auto simp: State_event_name_def Let_def nat_less_iff)
qed

end
