(* ===== verification/Register.thy ===== *)
theory Register
  imports Prelude
begin

text \<open>
  \<^verbatim>\<open>src/register.c\<close>: the table of registered connections and the 16-bit identities handlers
  know them by.  The static arrays are total functions whose index the code bounds by an
  \<^verbatim>\<open>assert\<close>; an index that reaches an array unchecked below 0 is \<open>Out_of_bounds\<close>.  The
  clock is an argument, and \<^verbatim>\<open>fdclose\<close> is recorded in the result.
\<close>

section \<open>State and operations\<close>

record registration =
  conn_type :: "8 word"
  rid :: "16 word"
  last_ping :: "32 word"

record register =
  REGISTRATIONS :: "nat \<Rightarrow> registration"
  REG_COUNT :: "16 word"
  REG_ID_TO_FD :: "16 word \<Rightarrow> 16 word"

definition MAX_REGISTERED_FDS :: int where
  "MAX_REGISTERED_FDS = 64 * 1024"

definition zero_registration :: registration where
  "zero_registration = \<lparr>conn_type = 0, rid = 0, last_ping = 0\<rparr>"

text \<open>\<^verbatim>\<open>Register_init\<close> clears the tables and leaves the counter as it is.\<close>

definition Register_init :: "register \<Rightarrow> register" where
  "Register_init st = st\<lparr>REGISTRATIONS := (\<lambda>_. zero_registration), REG_ID_TO_FD := (\<lambda>_. 0)\<rparr>"

definition Register_clear :: "register \<Rightarrow> nat \<Rightarrow> register" where
  "Register_clear st fd =
     (let reg = REGISTRATIONS st fd in
      st\<lparr>REGISTRATIONS := (REGISTRATIONS st)(fd := reg\<lparr>conn_type := 0, last_ping := 0\<rparr>),
         REG_ID_TO_FD := (REG_ID_TO_FD st)(rid reg := 0)\<rparr>)"

definition Register_connect :: "register \<Rightarrow> int \<Rightarrow> int \<Rightarrow> int \<Rightarrow> (int \<times> register) cres" where
  "Register_connect st fd ctype now =
     (if \<not> fd < MAX_REGISTERED_FDS then Inl Assert_fail
      else if ctype = 0 then Inl Assert_fail
      else if fd < 0 then Inl Out_of_bounds
      else
        (let st1 = (if conn_type (REGISTRATIONS st (nat fd)) \<noteq> 0 then Register_clear st (nat fd) else st);
             id = REG_COUNT st1 in
         Inr (uint id,
              st1\<lparr>REGISTRATIONS := (REGISTRATIONS st1)
                    (nat fd := \<lparr>conn_type = word_of_int ctype, rid = id, last_ping = word_of_int now\<rparr>),
                  REG_COUNT := REG_COUNT st1 + 1,
                  REG_ID_TO_FD := (REG_ID_TO_FD st1)(id := word_of_int fd)\<rparr>)))"

definition Register_disconnect :: "register \<Rightarrow> int \<Rightarrow> (int \<times> int list \<times> register) cres" where
  "Register_disconnect st fd =
     (if \<not> fd < MAX_REGISTERED_FDS then Inl Assert_fail
      else if \<not> fd \<ge> 0 then Inr (-1, [fd], st)
      else if conn_type (REGISTRATIONS st (nat fd)) = 0 then Inr (-1, [fd], st)
      else
        (let st' = Register_clear st (nat fd) in
         Inr (uint (rid (REGISTRATIONS st' (nat fd))), [fd], st')))"

definition Register_ping :: "register \<Rightarrow> int \<Rightarrow> int \<Rightarrow> (int \<times> register) cres" where
  "Register_ping st fd now =
     (if \<not> fd < MAX_REGISTERED_FDS then Inl Assert_fail
      else if fd < 0 then Inl Out_of_bounds
      else
        (let reg = REGISTRATIONS st (nat fd) in
         if conn_type reg = 0 then Inr (-1, st)
         else Inr (to_int32 (uint (word_of_int now :: 32 word)),
                   st\<lparr>REGISTRATIONS := (REGISTRATIONS st)(nat fd := reg\<lparr>last_ping := word_of_int now\<rparr>)\<rparr>)))"

definition Register_fd_exists :: "register \<Rightarrow> int \<Rightarrow> int cres" where
  "Register_fd_exists st fd =
     (if \<not> fd < MAX_REGISTERED_FDS then Inl Assert_fail
      else if fd < 0 then Inl Out_of_bounds
      else Inr (uint (conn_type (REGISTRATIONS st (nat fd)))))"

definition Register_fd_for_id :: "register \<Rightarrow> int \<Rightarrow> int cres" where
  "Register_fd_for_id st ident =
     (if \<not> ident < MAX_REGISTERED_FDS then Inl Assert_fail
      else if ident < 0 then Inl Out_of_bounds
      else Inr (uint (REG_ID_TO_FD st (word_of_int ident))))"

definition Register_id_for_fd :: "register \<Rightarrow> int \<Rightarrow> int cres" where
  "Register_id_for_fd st fd =
     (if \<not> fd < MAX_REGISTERED_FDS then Inl Assert_fail
      else if fd < 0 then Inl Out_of_bounds
      else Inr (uint (rid (REGISTRATIONS st (nat fd)))))"

text \<open>\<^verbatim>\<open>Register_info\<close>: the report, with the decimal digits \<^verbatim>\<open>bformata\<close> prints for \<^verbatim>\<open>%d\<close>.\<close>

fun nat_digits :: "nat \<Rightarrow> string" where
  "nat_digits n = (if n < 10 then [char_of (48 + n)] else nat_digits (n div 10) @ [char_of (48 + n mod 10)])"

declare nat_digits.simps [simp del]

definition int_digits :: "int \<Rightarrow> string" where
  "int_digits i = (if i < 0 then CHR ''-'' # nat_digits (nat (- i)) else nat_digits (nat i))"

definition info_entry :: "register \<Rightarrow> int \<Rightarrow> nat \<Rightarrow> bstring \<times> int \<Rightarrow> bstring \<times> int" where
  "info_entry st now i = (\<lambda>(result, total).
     let reg = REGISTRATIONS st i in
     if conn_type reg \<noteq> 0
     then (result @ [CHR 0x22] @ int_digits (uint (rid reg)) @ [CHR 0x22] @ '':'' @
             int_digits (to_int32 (now - uint (last_ping reg))) @ '','', total + 1)
     else (result, total))"

definition Register_info :: "register \<Rightarrow> int \<Rightarrow> bstring" where
  "Register_info st now =
     (let (result, total) = fold (info_entry st now) [0..<nat MAX_REGISTERED_FDS] (''{'', 0) in
      result @ [CHR 0x22] @ ''total'' @ [CHR 0x22] @ '': '' @ int_digits total @ ''}'')"

section \<open>Identities under wrap-around\<close>

definition live_fd :: "register \<Rightarrow> nat \<Rightarrow> bool" where
  "live_fd st fd \<longleftrightarrow> conn_type (REGISTRATIONS st fd) \<noteq> 0"

text \<open>
  Histories of the register: \<open>n\<close> counts the connects without wrapping and \<open>b fd\<close> is the
  number of the connect that registered \<open>fd\<close>.  A connect is allowed while no other live
  registration is as old as the whole range of identities.
\<close>

inductive history :: "(nat \<Rightarrow> nat) \<Rightarrow> nat \<Rightarrow> register \<Rightarrow> bool" where
  init: "REG_COUNT st = of_nat n \<Longrightarrow> history b n (Register_init st)"
| connect: "history b n st \<Longrightarrow> Register_connect st fd ctype now = Inr (rc, st') \<Longrightarrow>
    (\<And>fd'. live_fd st fd' \<Longrightarrow> fd' \<noteq> nat fd \<Longrightarrow> n < b fd' + 65536) \<Longrightarrow>
    history (b(nat fd := n)) (Suc n) st'"
| disconnect: "history b n st \<Longrightarrow> Register_disconnect st fd = Inr (rc, closed, st') \<Longrightarrow> history b n st'"
| ping: "history b n st \<Longrightarrow> Register_ping st fd now = Inr (rc, st') \<Longrightarrow> history b n st'"

definition exact_ids :: "(nat \<Rightarrow> nat) \<Rightarrow> nat \<Rightarrow> register \<Rightarrow> bool" where
  "exact_ids b n st \<longleftrightarrow> REG_COUNT st = of_nat n \<and>
     (\<forall>fd. live_fd st fd \<longrightarrow> fd < 65536 \<and> b fd < n \<and> n \<le> b fd + 65536 \<and>
        rid (REGISTRATIONS st fd) = of_nat (b fd) \<and> REG_ID_TO_FD st (of_nat (b fd)) = of_nat fd) \<and>
     (\<forall>fd fd'. live_fd st fd \<longrightarrow> live_fd st fd' \<longrightarrow> b fd = b fd' \<longrightarrow> fd = fd')"

lemma of_nat_16_eq:
  assumes "(of_nat a :: 16 word) = of_nat b" "a < b + 65536" "b < a + 65536"
  shows "a = b"
proof -
  have eq: "a mod 65536 = b mod 65536" using assms(1) by (simp add: word_of_nat_eq_iff take_bit_eq_mod)
  have "a = b" if "a \<le> b" "b < a + 65536" "a mod 65536 = b mod 65536" for a b :: nat
  proof -
    have "65536 dvd b - a" using that(1,3) by (metis mod_eq_dvd_iff_nat)
    with that(2) show ?thesis using that(1) by (auto dest!: dvd_imp_le)
  qed
  from this [of a b] this [of b a] eq assms(2,3) show ?thesis by (cases "a \<le> b") simp_all
qed

lemma clear_live: "live_fd (Register_clear st fd) fd' \<longleftrightarrow> live_fd st fd' \<and> fd' \<noteq> fd"
  by (simp add: live_fd_def Register_clear_def Let_def)

lemma exact_idsD:
  assumes "exact_ids b n st" "live_fd st fd"
  shows "fd < 65536" "b fd < n" "n \<le> b fd + 65536" "rid (REGISTRATIONS st fd) = of_nat (b fd)"
    "REG_ID_TO_FD st (of_nat (b fd)) = of_nat fd"
  using assms by (auto simp: exact_ids_def)

lemma ids_distinct:
  assumes "exact_ids b n st" "live_fd st fd" "live_fd st fd'" "fd \<noteq> fd'"
  shows "(of_nat (b fd) :: 16 word) \<noteq> of_nat (b fd')"
proof
  assume eq: "(of_nat (b fd) :: 16 word) = of_nat (b fd')"
  have "b fd = b fd'"
    using of_nat_16_eq [OF eq] exact_idsD(2,3) [OF assms(1,2)] exact_idsD(2,3) [OF assms(1,3)] by linarith
  with assms show False by (auto simp: exact_ids_def)
qed

lemma clear_exact:
  assumes "exact_ids b n st" "live_fd st fd"
  shows "exact_ids b n (Register_clear st fd)"
proof -
  have count: "REG_COUNT (Register_clear st fd) = REG_COUNT st"
    by (simp add: Register_clear_def Let_def)
  have "rid (REGISTRATIONS (Register_clear st fd) fd') = of_nat (b fd')"
    "REG_ID_TO_FD (Register_clear st fd) (of_nat (b fd')) = of_nat fd'"
    if "live_fd st fd'" "fd' \<noteq> fd" for fd'
    using exact_idsD(4,5) [OF assms(1) that(1)] exact_idsD(4) [OF assms] ids_distinct [OF assms(1) that(1) assms(2) that(2)] that(2)
    by (simp_all add: Register_clear_def Let_def)
  with count assms(1) show ?thesis unfolding exact_ids_def clear_live by simp
qed

lemma connect_exact:
  assumes "exact_ids b n st" "Register_connect st fd ctype now = Inr (rc, st')"
    and window: "\<And>fd'. live_fd st fd' \<Longrightarrow> fd' \<noteq> nat fd \<Longrightarrow> n < b fd' + 65536"
  shows "exact_ids (b(nat fd := n)) (Suc n) st'"
proof -
  define st1 where "st1 = (if live_fd st (nat fd) then Register_clear st (nat fd) else st)"
  have ex: "exact_ids b n st1" using assms(1) clear_exact by (simp add: st1_def)
  have l1: "live_fd st1 fd' \<longleftrightarrow> live_fd st fd' \<and> fd' \<noteq> nat fd" for fd'
    by (auto simp: st1_def clear_live)
  have fd: "0 \<le> fd" "fd < 65536"
    and st': "st' = st1\<lparr>REGISTRATIONS := (REGISTRATIONS st1)
        (nat fd := \<lparr>conn_type = word_of_int ctype, rid = of_nat n, last_ping = word_of_int now\<rparr>),
      REG_COUNT := of_nat n + 1, REG_ID_TO_FD := (REG_ID_TO_FD st1)(of_nat n := word_of_int fd)\<rparr>"
    using assms(2) ex
    by (auto simp: Register_connect_def MAX_REGISTERED_FDS_def st1_def live_fd_def Let_def exact_ids_def split: if_splits)
  have live': "live_fd st' fd' \<Longrightarrow> fd' = nat fd \<or> live_fd st1 fd'" for fd'
    by (auto simp: st' live_fd_def split: if_splits)
  have other: "b fd' < n" "n < b fd' + 65536" "rid (REGISTRATIONS st1 fd') = of_nat (b fd')"
      "REG_ID_TO_FD st1 (of_nat (b fd')) = of_nat fd'" "(of_nat (b fd') :: 16 word) \<noteq> of_nat n"
      "fd' < 65536" "fd' \<noteq> nat fd"
    if "live_fd st1 fd'" for fd'
    using exact_idsD [OF ex that] window [of fd'] that of_nat_16_eq [of "b fd'" n] by (auto simp: l1)
  have fdw: "(word_of_int fd :: 16 word) = of_nat (nat fd)" using fd by simp
  have regs: "fd' < 65536 \<and> (b(nat fd := n)) fd' < Suc n \<and> Suc n \<le> (b(nat fd := n)) fd' + 65536 \<and>
      rid (REGISTRATIONS st' fd') = of_nat ((b(nat fd := n)) fd') \<and>
      REG_ID_TO_FD st' (of_nat ((b(nat fd := n)) fd')) = of_nat fd'" if "live_fd st' fd'" for fd'
  proof (cases "fd' = nat fd")
    case True
    with fd fdw show ?thesis by (simp add: st')
  next
    case False
    with live' [OF that] have "live_fd st1 fd'" by simp
    from other [OF this] show ?thesis by (simp add: st')
  qed
  have inj: "fd' = fd''" if "live_fd st' fd'" "live_fd st' fd''" "(b(nat fd := n)) fd' = (b(nat fd := n)) fd''" for fd' fd''
  proof -
    have "fd' = fd''" if "live_fd st1 fd'" "live_fd st1 fd''" "b fd' = b fd''"
      using ex that by (auto simp: exact_ids_def)
    then show ?thesis using live' [OF that(1)] live' [OF that(2)] that(3) other(1) [of fd'] other(1) [of fd'']
      by (auto split: if_splits)
  qed
  have "REG_COUNT st' = of_nat (Suc n)" by (simp add: st')
  with regs inj show ?thesis unfolding exact_ids_def by blast
qed

lemma disconnect_exact:
  "exact_ids b n st \<Longrightarrow> Register_disconnect st fd = Inr (rc, closed, st') \<Longrightarrow> exact_ids b n st'"
  using clear_exact [of b n st "nat fd"]
  by (auto simp: Register_disconnect_def Let_def live_fd_def split: if_splits)

lemma ping_exact:
  assumes "exact_ids b n st" "Register_ping st fd now = Inr (rc, st')"
  shows "exact_ids b n st'"
proof -
  have "live_fd st' fd' = live_fd st fd'" "rid (REGISTRATIONS st' fd') = rid (REGISTRATIONS st fd')"
    "REG_COUNT st' = REG_COUNT st" "REG_ID_TO_FD st' = REG_ID_TO_FD st" for fd'
    using assms(2) by (auto simp: Register_ping_def live_fd_def Let_def split: if_splits)
  with assms(1) show ?thesis by (simp add: exact_ids_def)
qed

lemma history_exact: "history b n st \<Longrightarrow> exact_ids b n st"
proof (induction rule: history.induct)
  case (init st n b)
  then show ?case by (simp add: exact_ids_def Register_init_def live_fd_def zero_registration_def)
qed (blast intro: connect_exact disconnect_exact ping_exact)+

section \<open>Properties\<close>

text \<open>
  C25: as long as no live registration outlives 65536 later connects, identities are exact:
  the identity of every registered descriptor leads back to that descriptor, and
  two registered descriptors never share one.
\<close>

theorem Register_ids_exact:
  assumes "history b n st" "live_fd st fd"
  shows "cbind (Register_id_for_fd st (int fd)) (Register_fd_for_id st) = Inr (int fd) \<and>
    (\<forall>fd'. live_fd st fd' \<and> Register_id_for_fd st (int fd') = Register_id_for_fd st (int fd) \<longrightarrow> fd' = fd)"
proof (intro conjI allI impI)
  have ex: "exact_ids b n st" using history_exact assms(1) .
  note d = exact_idsD [OF ex assms(2)]
  have "uint (of_nat fd :: 16 word) = int fd" using d(1) by (simp add: uint_nat unat_of_nat)
  moreover have "uint (of_nat (b fd) :: 16 word) < 65536" by (rule order_less_le_trans [OF uint_lt2p]) simp
  ultimately show "cbind (Register_id_for_fd st (int fd)) (Register_fd_for_id st) = Inr (int fd)"
    using d by (simp add: Register_id_for_fd_def Register_fd_for_id_def MAX_REGISTERED_FDS_def)
  fix fd' assume fd': "live_fd st fd' \<and> Register_id_for_fd st (int fd') = Register_id_for_fd st (int fd)"
  note d' = exact_idsD [OF ex conjunct1 [OF fd']]
  have "uint (of_nat (b fd') :: 16 word) = uint (of_nat (b fd) :: 16 word)"
    using fd' d d' by (simp add: Register_id_for_fd_def MAX_REGISTERED_FDS_def)
  then have "(of_nat (b fd') :: 16 word) = of_nat (b fd)" by (simp only: word_uint_eq_iff)
  then show "fd' = fd" using ids_distinct [OF ex conjunct1 [OF fd'] assms(2)] by blast
qed

definition empty_register :: register where
  "empty_register = \<lparr>REGISTRATIONS = (\<lambda>_. zero_registration), REG_COUNT = 0, REG_ID_TO_FD = (\<lambda>_. 0)\<rparr>"

definition one_registered :: register where
  "one_registered = snd (projr (Register_connect (Register_init empty_register) 5 1 0))"

lemma one_registered_history: "history ((\<lambda>_. 0)(5 := 0)) 1 one_registered"
proof -
  have "history (\<lambda>_. 0) 0 (Register_init empty_register)"
    by (rule history.init) (simp add: empty_register_def)
  moreover have "Register_connect (Register_init empty_register) 5 1 0 = Inr (0, one_registered)"
    by (simp add: one_registered_def Register_connect_def MAX_REGISTERED_FDS_def Let_def empty_register_def
        Register_init_def zero_registration_def)
  moreover have "\<not> live_fd (Register_init empty_register) fd" for fd
    by (simp add: live_fd_def Register_init_def zero_registration_def)
  ultimately show ?thesis using history.connect [of "\<lambda>_. 0" 0 _ 5 1 0] by simp
qed

lemma Register_ids_exact_witness:
  "cbind (Register_id_for_fd one_registered (int 5)) (Register_fd_for_id one_registered) = Inr (int 5) \<and>
    {fd'. live_fd one_registered fd' \<and>
       Register_id_for_fd one_registered (int fd') = Register_id_for_fd one_registered (int 5)} \<subseteq> {5}"
proof -
  have "live_fd one_registered 5"
    by (simp add: live_fd_def one_registered_def Register_connect_def MAX_REGISTERED_FDS_def Let_def
        empty_register_def Register_init_def zero_registration_def)
  from Register_ids_exact [OF one_registered_history this] show ?thesis by blast
qed

text \<open>
  once the counter has come round to the identity of a live registration, the next
  connect takes that identity over, and disconnecting the older owner then
  removes the newer owner's entry: its identity leads to descriptor 0.
\<close>

theorem Register_wrap_collision:
  assumes "live_fd st fd" "REG_COUNT st = rid (REGISTRATIONS st fd)" "fd < 65536" "fd' < 65536" "fd' \<noteq> fd"
    "\<not> live_fd st fd'" "ctype \<noteq> 0"
  shows "\<exists>st1 st2 r1 r2 c. Register_connect st (int fd') ctype now = Inr (r1, st1) \<and>
     cbind (Register_id_for_fd st1 (int fd)) (Register_fd_for_id st1) = Inr (int fd') \<and>
     Register_disconnect st1 (int fd) = Inr (r2, c, st2) \<and>
     cbind (Register_id_for_fd st2 (int fd')) (Register_fd_for_id st2) = Inr 0"
proof -
  have "uint (of_nat fd' :: 16 word) = int fd'" using assms(4) by (simp add: uint_nat unat_of_nat)
  moreover have "uint (rid (REGISTRATIONS st fd)) < 65536" by (rule order_less_le_trans [OF uint_lt2p]) simp
  ultimately show ?thesis using assms
    by (simp add: Register_connect_def Register_disconnect_def Register_id_for_fd_def Register_fd_for_id_def
        MAX_REGISTERED_FDS_def Let_def live_fd_def Register_clear_def)
qed

lemma Register_wrap_collision_witness:
  "\<exists>st1 st2 r1 r2 c.
     Register_connect (one_registered\<lparr>REG_COUNT := 0\<rparr>) (int 6) 1 9 = Inr (r1, st1) \<and>
     cbind (Register_id_for_fd st1 (int 5)) (Register_fd_for_id st1) = Inr (int 6) \<and>
     Register_disconnect st1 (int 5) = Inr (r2, c, st2) \<and>
     cbind (Register_id_for_fd st2 (int 6)) (Register_fd_for_id st2) = Inr 0"
  by (rule Register_wrap_collision)
    (simp_all add: live_fd_def one_registered_def Register_connect_def MAX_REGISTERED_FDS_def Let_def
      empty_register_def Register_init_def zero_registration_def)

text \<open>
  \<^verbatim>\<open>Register_disconnect\<close> closes the descriptor whether or not it was registered, and
  afterwards it is not registered.
\<close>

theorem Register_disconnect_closes:
  assumes "fd < 65536"
  shows "\<exists>rc st'. Register_disconnect st fd = Inr (rc, [fd], st') \<and>
    (0 \<le> fd \<longrightarrow> Register_fd_exists st' fd = Inr 0) \<and>
    (rc \<noteq> -1 \<longleftrightarrow> 0 \<le> fd \<and> live_fd st (nat fd))"
proof -
  have "uint (rid r) \<noteq> -1" for r :: registration using uint_ge_0 [of "rid r"] by linarith
  then show ?thesis using assms
    by (auto simp: Register_disconnect_def Register_fd_exists_def MAX_REGISTERED_FDS_def Let_def live_fd_def
        Register_clear_def)
qed

lemma Register_disconnect_closes_witness:
  "\<exists>rc st'. Register_disconnect one_registered 5 = Inr (rc, [5], st') \<and>
    (0 \<le> (5::int) \<longrightarrow> Register_fd_exists st' 5 = Inr 0) \<and>
    (rc \<noteq> -1 \<longleftrightarrow> 0 \<le> (5::int) \<and> live_fd one_registered (nat 5))"
  by (rule Register_disconnect_closes) simp

end
