(* ===== verification/Cache.thy ===== *)
theory Cache
  imports Prelude
begin

text \<open>
  \<^verbatim>\<open>src/cache.c\<close>: the fixed-size cache of the directory server.  The slots are a list of
  tag and data, at least \<^verbatim>\<open>MIN_CACHE_SIZE\<close> of them; the loops run over the first
  \<^verbatim>\<open>size\<close>.  The lookup callback is a parameter, and what the evict callback is
  called with is part of the result.
\<close>

section \<open>State and operations\<close>

definition MIN_CACHE_SIZE :: int where
  "MIN_CACHE_SIZE = 16"

definition INT_MAX :: int where
  "INT_MAX = 2147483647"

record 'd cache_entry =
  tag :: int
  cdata :: "'d option"

record 'd cache =
  size :: int
  has_evict :: bool
  arr :: "'d cache_entry list"

definition Cache_create :: "bool \<Rightarrow> int \<Rightarrow> bool \<Rightarrow> bool \<Rightarrow> 'd cache option" where
  "Cache_create mem n lookup evict =
     (if \<not> lookup then None
      else if \<not> mem then None
      else Some \<lparr>size = n, has_evict = evict,
             arr = map (\<lambda>i. \<lparr>tag = (if int i < n then INT_MAX else 0), cdata = None\<rparr>)
                     [0..<nat (max n MIN_CACHE_SIZE)]\<rparr>)"

definition live_slots :: "'d cache \<Rightarrow> 'd cache_entry list" where
  "live_slots c = take (nat (size c)) (arr c)"

definition Cache_destroy :: "'d cache option \<Rightarrow> 'd list" where
  "Cache_destroy c =
     (case c of None \<Rightarrow> []
      | Some c \<Rightarrow> if has_evict c then List.map_filter cdata (live_slots c) else [])"

definition tick :: "'d cache_entry \<Rightarrow> 'd cache_entry" where
  "tick e = (if tag e > 0 then e\<lparr>tag := tag e - 1\<rparr> else e)"

text \<open>The two loops of \<^verbatim>\<open>Cache_lookup\<close>: up to the hit, and behind it.\<close>

fun lookup_loop :: "('d \<Rightarrow> 'k \<Rightarrow> bool) \<Rightarrow> 'k \<Rightarrow> 'd cache_entry list \<Rightarrow> 'd option \<times> 'd cache_entry list" where
  "lookup_loop lookup key [] = (None, [])"
| "lookup_loop lookup key (e # es) =
     (let e' = tick e in
      case cdata e' of
        Some d \<Rightarrow>
          if lookup d key then (Some d, e'\<lparr>tag := INT_MAX\<rparr> # map tick es)
          else (let (r, es') = lookup_loop lookup key es in (r, e' # es'))
      | None \<Rightarrow> (let (r, es') = lookup_loop lookup key es in (r, e' # es')))"

definition Cache_lookup :: "('d \<Rightarrow> 'k \<Rightarrow> bool) \<Rightarrow> 'd cache option \<Rightarrow> 'k \<Rightarrow> 'd option \<times> 'd cache option" where
  "Cache_lookup lookup c key =
     (case c of
        None \<Rightarrow> (None, None)
      | Some c \<Rightarrow>
          (let (r, es) = lookup_loop lookup key (live_slots c) in
           (r, Some (c\<lparr>arr := es @ drop (nat (size c)) (arr c)\<rparr>))))"

text \<open>The loop of \<^verbatim>\<open>Cache_add\<close>: the first slot with the least tag, tags as before the tick.\<close>

function add_loop :: "'d cache_entry list \<Rightarrow> int \<Rightarrow> nat \<Rightarrow> nat \<Rightarrow> int \<Rightarrow> nat \<times> 'd cache_entry list" where
  "add_loop es n i min_idx min_tag =
     (if int i < n then
        (let t = tag (es ! i); es' = es[i := tick (es ! i)] in
         if t < min_tag then add_loop es' n (Suc i) i t else add_loop es' n (Suc i) min_idx min_tag)
      else (min_idx, es))"
  by pat_completeness auto
termination
  by (relation "measure (\<lambda>(es, n, i, mi, mt). nat n - i)") auto

declare add_loop.simps [simp del]

definition Cache_add :: "'d cache option \<Rightarrow> 'd option \<Rightarrow> 'd list \<times> 'd cache option" where
  "Cache_add c d =
     (case (c, d) of
        (Some c, Some d) \<Rightarrow>
          (let (min_idx, es) =
             add_loop ((arr c)[0 := tick (arr c ! 0)]) (size c) 1 0 (tag (arr c ! 0));
             old = cdata (es ! min_idx) in
           (if has_evict c then (case old of Some o1 \<Rightarrow> [o1] | None \<Rightarrow> []) else [],
            Some (c\<lparr>arr := es[min_idx := \<lparr>tag = INT_MAX, cdata = Some d\<rparr>]\<rparr>)))
      | _ \<Rightarrow> ([], c))"

text \<open>\<^verbatim>\<open>Cache_evict_object\<close> compares addresses; equal data stand for the same object.\<close>

definition evict_slot :: "'d \<Rightarrow> 'd cache_entry \<Rightarrow> 'd cache_entry" where
  "evict_slot obj e = (if cdata e = Some obj then \<lparr>tag = 0, cdata = None\<rparr> else e)"

definition Cache_evict_object :: "'d cache option \<Rightarrow> 'd option \<Rightarrow> 'd list \<times> 'd cache option" where
  "Cache_evict_object c obj =
     (case (c, obj) of
        (Some c, Some obj) \<Rightarrow>
          (if has_evict c then filter (\<lambda>d. d = obj) (List.map_filter cdata (live_slots c)) else [],
           Some (c\<lparr>arr := map (evict_slot obj) (live_slots c) @ drop (nat (size c)) (arr c)\<rparr>))
      | _ \<Rightarrow> ([], c))"

section \<open>Tags measure the time since the last use\<close>

text \<open>
  The invariant of a cache with slots, and the least-recently-used policy it stands for: \<open>ages ! i\<close>
  is the number of operations since slot \<open>i\<close> was last used or filled.
\<close>

definition cache_ok :: "'d cache \<Rightarrow> bool" where
  "cache_ok c \<longleftrightarrow> 0 < size c \<and> size c \<le> int (length (arr c)) \<and> (\<forall>e\<in>set (arr c). 0 \<le> tag e \<and> tag e \<le> INT_MAX)"

definition age_tag :: "nat \<Rightarrow> int" where
  "age_tag a = max 0 (INT_MAX - int a)"

definition aged :: "'d cache \<Rightarrow> nat list \<Rightarrow> bool" where
  "aged c ages \<longleftrightarrow> cache_ok c \<and> map tag (live_slots c) = map age_tag ages"

lemma tick_tag: "0 \<le> tag e \<Longrightarrow> tag (tick e) = max 0 (tag e - 1)"
  by (simp add: tick_def)

lemma tick_data [simp]: "cdata (tick e) = cdata e"
  by (simp add: tick_def)

lemma tick_age: "tag e = age_tag a \<Longrightarrow> tag (tick e) = age_tag (Suc a)"
  by (auto simp: tick_def age_tag_def)

lemma map_tick_age: "map tag es = map age_tag ages \<Longrightarrow> map (tag \<circ> tick) es = map (age_tag \<circ> Suc) ages"
  by (induction es arbitrary: ages) (auto simp: tick_age Cons_eq_map_conv)

lemma lookup_loop_None:
  "lookup_loop lk key es = (None, es') \<Longrightarrow>
   es' = map tick es \<and> (\<forall>e\<in>set es. \<forall>d. cdata e = Some d \<longrightarrow> \<not> lk d key)"
  by (induction es arbitrary: es') (auto simp: Let_def split: option.splits prod.splits if_splits)

lemma lookup_loop_Some:
  "lookup_loop lk key es = (Some d, es') \<Longrightarrow>
   \<exists>i<length es. cdata (es ! i) = Some d \<and> lk d key \<and> es' = (map tick es)[i := (tick (es ! i))\<lparr>tag := INT_MAX\<rparr>] \<and>
     (\<forall>j<i. \<forall>d'. cdata (es ! j) = Some d' \<longrightarrow> \<not> lk d' key)"
proof (induction es arbitrary: es')
  case (Cons e es)
  show ?case
  proof (cases "\<exists>d'. cdata e = Some d' \<and> lk d' key")
    case True
    with Cons.prems show ?thesis by (intro exI [of _ 0]) (auto simp: Let_def)
  next
    case False
    with Cons.prems obtain es1 where es1: "lookup_loop lk key es = (Some d, es1)" "es' = tick e # es1"
      by (auto simp: Let_def split: option.splits prod.splits)
    with Cons.IH [OF es1(1)] obtain i where "i < length es" "cdata (es ! i) = Some d" "lk d key"
      "es1 = (map tick es)[i := (tick (es ! i))\<lparr>tag := INT_MAX\<rparr>]"
      "\<forall>j<i. \<forall>d'. cdata (es ! j) = Some d' \<longrightarrow> \<not> lk d' key" by blast
    with es1(2) False show ?thesis
      by (intro exI [of _ "Suc i"]) (auto simp: nth_Cons' less_Suc_eq_0_disj)
  qed
qed simp

lemma add_loop_list:
  "nat n \<le> length es \<Longrightarrow> i \<le> nat n \<Longrightarrow>
   snd (add_loop es n i mi mt) = take i es @ map tick (drop i (take (nat n) es)) @ drop (nat n) es"
proof (induction es n i mi mt rule: add_loop.induct)
  case (1 es n i mi mt)
  show ?case
  proof (cases "int i < n")
    case True
    then have i: "i < nat n" "i < length es" using 1(3) by auto
    let ?es = "es[i := tick (es ! i)]"
    have "take (Suc i) ?es = take i es @ [tick (es ! i)]" using i by (simp add: take_Suc_conv_app_nth)
    moreover have "drop (Suc i) (take (nat n) ?es) = drop (Suc i) (take (nat n) es)" "drop (nat n) ?es = drop (nat n) es"
      using i by (simp_all add: drop_take)
    moreover have "drop i (take (nat n) es) = es ! i # drop (Suc i) (take (nat n) es)"
      using i Cons_nth_drop_Suc [of i "take (nat n) es"] by simp
    ultimately have "take (Suc i) ?es @ map tick (drop (Suc i) (take (nat n) ?es)) @ drop (nat n) ?es =
        take i es @ map tick (drop i (take (nat n) es)) @ drop (nat n) es" by simp
    with 1(1,2) True i 1(3,4) show ?thesis
      by (subst add_loop.simps) (auto simp: Let_def)
  next
    case False
    then have "nat n = i" using 1(4) by linarith
    with False show ?thesis by (subst add_loop.simps) simp
  qed
qed

lemma add_loop_min:
  "nat n \<le> length es \<Longrightarrow> fst (add_loop es n i mi mt) = v \<Longrightarrow>
   (v = mi \<and> (\<forall>j. i \<le> j \<and> j < nat n \<longrightarrow> mt \<le> tag (es ! j))) \<or>
   (i \<le> v \<and> v < nat n \<and> tag (es ! v) < mt \<and> (\<forall>j. i \<le> j \<and> j < nat n \<longrightarrow> tag (es ! v) \<le> tag (es ! j)))"
proof (induction "nat n - i" arbitrary: es i mi mt)
  case 0
  then show ?case by (auto simp: add_loop.simps [of es n i])
next
  case (Suc k)
  then have i: "int i < n" "i < nat n" by auto
  let ?es = "es[i := tick (es ! i)]" and ?t = "tag (es ! i)"
  have "k = nat n - Suc i" "nat n \<le> length ?es" using Suc.hyps(2) Suc.prems(1) by auto
  note IH = Suc.hyps(1) [OF this]
  have nth: "?es ! j = es ! j" if "Suc i \<le> j" for j using that by simp
  have range: "(\<forall>j. i \<le> j \<and> j < nat n \<longrightarrow> P j) \<longleftrightarrow> P i \<and> (\<forall>j. Suc i \<le> j \<and> j < nat n \<longrightarrow> P j)" for P
    using i(2) by (metis Suc_leD le_eq_less_or_eq less_eq_Suc_le)
  show ?case
  proof (cases "?t < mt")
    case True
    with Suc.prems i have "fst (add_loop ?es n (Suc i) i ?t) = v" by (simp add: add_loop.simps [of es n i] Let_def)
    from IH [OF this] show ?thesis unfolding range using i True nth
      by (elim disjE conjE) (simp, simp)
  next
    case False
    with Suc.prems i have "fst (add_loop ?es n (Suc i) mi mt) = v" by (simp add: add_loop.simps [of es n i] Let_def)
    from IH [OF this] show ?thesis unfolding range using i False nth
      by (elim disjE conjE) (simp, simp)
  qed
qed

text \<open>The slot \<^verbatim>\<open>Cache_add\<close> overwrites has the least tag of all.\<close>

lemma Cache_add_slots:
  assumes "cache_ok c" "Cache_add (Some c) (Some d) = (evicted, c')"
  shows "\<exists>v c1. c' = Some c1 \<and> v < nat (size c) \<and> size c1 = size c \<and> has_evict c1 = has_evict c \<and>
    live_slots c1 = (map tick (live_slots c))[v := \<lparr>tag = INT_MAX, cdata = Some d\<rparr>] \<and>
    drop (nat (size c)) (arr c1) = drop (nat (size c)) (arr c) \<and>
    (\<forall>j<nat (size c). tag (live_slots c ! v) \<le> tag (live_slots c ! j)) \<and>
    evicted = (if has_evict c then (case cdata (live_slots c ! v) of Some o1 \<Rightarrow> [o1] | None \<Rightarrow> []) else [])"
proof -
  let ?n = "nat (size c)" and ?es0 = "(arr c)[0 := tick (arr c ! 0)]"
  have n: "0 < ?n" "?n \<le> length (arr c)" using assms(1) by (auto simp: cache_ok_def)
  obtain v es where loop: "add_loop ?es0 (size c) 1 0 (tag (arr c ! 0)) = (v, es)" by fastforce
  have "take 1 ?es0 = [tick (arr c ! 0)]" using n by (cases "arr c") auto
  moreover have "drop 1 (take ?n ?es0) = drop 1 (take ?n (arr c))" by (simp add: drop_take)
  moreover have "take ?n (arr c) = arr c ! 0 # drop 1 (take ?n (arr c))"
    using n by (cases "arr c"; cases ?n) auto
  ultimately have es: "es = map tick (live_slots c) @ drop ?n (arr c)"
    using add_loop_list [of "size c" ?es0 1 0 "tag (arr c ! 0)"] loop n unfolding live_slots_def
    by (metis (no_types, lifting) One_nat_def Suc_leI append_Cons append_Nil drop_update_cancel length_list_update
        list.simps(9) snd_conv)
  have slot: "live_slots c ! j = arr c ! j" if "j < ?n" for j using that by (simp add: live_slots_def)
  have "v = 0 \<and> (\<forall>j. 1 \<le> j \<and> j < ?n \<longrightarrow> tag (arr c ! 0) \<le> tag (arr c ! j)) \<or>
      1 \<le> v \<and> v < ?n \<and> tag (arr c ! v) < tag (arr c ! 0) \<and> (\<forall>j. 1 \<le> j \<and> j < ?n \<longrightarrow> tag (arr c ! v) \<le> tag (arr c ! j))"
    using add_loop_min [of "size c" ?es0 1 0 "tag (arr c ! 0)" v] loop n by fastforce
  then have v: "v < ?n" "\<forall>j<?n. tag (live_slots c ! v) \<le> tag (live_slots c ! j)"
    using n(1) by (auto simp: slot) (metis One_nat_def Suc_leI gr0I order_le_less order_refl)+
  have len: "length (live_slots c) = ?n" using n by (simp add: live_slots_def)
  have upd: "es[v := x] = (map tick (live_slots c))[v := x] @ drop ?n (arr c)" for x
    using v(1) len by (simp add: es list_update_append)
  have old: "cdata (es ! v) = cdata (live_slots c ! v)" using v(1) len by (simp add: es nth_append)
  let ?c1 = "c\<lparr>arr := (map tick (live_slots c))[v := \<lparr>tag = INT_MAX, cdata = Some d\<rparr>] @ drop ?n (arr c)\<rparr>"
  have res: "c' = Some ?c1" "evicted = (if has_evict c then (case cdata (live_slots c ! v) of Some o1 \<Rightarrow> [o1] | None \<Rightarrow> []) else [])"
    using assms(2) loop upd old by (auto simp: Cache_add_def)
  have "live_slots ?c1 = (map tick (live_slots c))[v := \<lparr>tag = INT_MAX, cdata = Some d\<rparr>]"
    "drop ?n (arr ?c1) = drop ?n (arr c)"
    using len unfolding live_slots_def [of ?c1] by simp_all
  then show ?thesis by (intro exI [of _ v] exI [of _ ?c1]) (simp add: res v)
qed

lemma ages_live: "aged c ages \<Longrightarrow> length ages = nat (size c)"
  unfolding aged_def cache_ok_def by (metis length_map length_take live_slots_def min.absorb2 nat_le_iff)

lemma aged_intro:
  assumes "cache_ok c" "size c1 = size c" "live_slots c1 = es" "drop (nat (size c)) (arr c1) = drop (nat (size c)) (arr c)"
    "length es = nat (size c)" "map tag es = map age_tag ages"
  shows "aged c1 ages"
proof -
  have arr: "arr c1 = es @ drop (nat (size c)) (arr c)"
    using assms(2-4) append_take_drop_id [of "nat (size c)" "arr c1"] by (simp add: live_slots_def)
  have "0 \<le> tag e \<and> tag e \<le> INT_MAX" if "e \<in> set es" for e
    using that assms(6) by (metis age_tag_def diff_ge_0_iff_ge imageE list.set_map max.cobounded1 max.bounded_iff
        of_nat_0_le_iff INT_MAX_def diff_le_eq le_add_same_cancel1 zero_le_numeral imageI)
  moreover have "0 \<le> tag e \<and> tag e \<le> INT_MAX" if "e \<in> set (drop (nat (size c)) (arr c))" for e
    using assms(1) that by (auto simp: cache_ok_def dest: in_set_dropD)
  ultimately have "cache_ok c1" using assms(1,2,5) unfolding cache_ok_def arr by auto
  then show ?thesis using assms(3,6) by (simp add: aged_def)
qed

lemma age_tag_mono: "age_tag a \<le> age_tag a' \<longleftrightarrow> min a' 2147483647 \<le> min a 2147483647"
  by (auto simp: age_tag_def INT_MAX_def)

section \<open>Properties\<close>

text \<open>
  C26: \<^verbatim>\<open>Cache_add\<close> implements least-recently-used replacement: with \<open>ages\<close> counting the operations
  since each slot was last used (which the 31-bit tags can tell apart up to their range), the
  new object replaces a slot of greatest age, whose object is the one handed to the evict
  callback, every other slot keeps its object and grows older by one, and the new one has age 0.
\<close>

theorem Cache_add_lru:
  assumes "aged c ages"
  shows "\<exists>v c' evicted. Cache_add (Some c) (Some d) = (evicted, Some c') \<and> v < length ages \<and>
    aged c' ((map Suc ages)[v := 0]) \<and>
    (\<forall>a\<in>set ages. min a 2147483647 \<le> min (ages ! v) 2147483647) \<and>
    map cdata (live_slots c') = (map cdata (live_slots c))[v := Some d] \<and>
    evicted = (if has_evict c then (case cdata (live_slots c ! v) of Some o1 \<Rightarrow> [o1] | None \<Rightarrow> []) else [])"
proof -
  have ok: "cache_ok c" and tags: "map tag (live_slots c) = map age_tag ages" using assms by (auto simp: aged_def)
  obtain evicted c'' where add: "Cache_add (Some c) (Some d) = (evicted, c'')" by fastforce
  obtain v c' where c': "c'' = Some c'" "v < nat (size c)" "size c' = size c"
      "live_slots c' = (map tick (live_slots c))[v := \<lparr>tag = INT_MAX, cdata = Some d\<rparr>]"
      "drop (nat (size c)) (arr c') = drop (nat (size c)) (arr c)"
    and least: "\<forall>j<nat (size c). tag (live_slots c ! v) \<le> tag (live_slots c ! j)"
    and ev: "evicted = (if has_evict c then (case cdata (live_slots c ! v) of Some o1 \<Rightarrow> [o1] | None \<Rightarrow> []) else [])"
    using Cache_add_slots [OF ok add] by blast
  have len: "length ages = nat (size c)" "length (live_slots c) = nat (size c)"
    using ages_live [OF assms] tags map_eq_imp_length_eq by force+
  have "map tag (live_slots c') = map age_tag ((map Suc ages)[v := 0])"
    using map_tick_age [OF tags] by (simp add: c'(4) map_update age_tag_def INT_MAX_def)
  then have "aged c' ((map Suc ages)[v := 0])"
    using c'(4) len by (intro aged_intro [OF ok c'(3) refl c'(5)]) simp_all
  moreover have "tag (live_slots c ! j) = age_tag (ages ! j)" if "j < nat (size c)" for j
    using arg_cong [OF tags, of "\<lambda>xs. xs ! j"] that len by simp
  with least c'(2) len have "\<forall>a\<in>set ages. min a 2147483647 \<le> min (ages ! v) 2147483647"
    by (auto simp: in_set_conv_nth age_tag_mono)
  moreover have "map cdata (live_slots c') = (map cdata (live_slots c))[v := Some d]"
    by (simp add: c'(4) map_update comp_def)
  ultimately show ?thesis
    by (intro exI [of _ v] exI [of _ c'] exI [of _ evicted] conjI) (use add c'(1,2) ev len in simp_all)
qed

definition sample_cache :: "nat cache" where
  "sample_cache = the (Cache_create True 2 True True)"

lemma sample_aged: "aged sample_cache [0, 0]"
  by (simp add: sample_cache_def Cache_create_def MIN_CACHE_SIZE_def aged_def cache_ok_def live_slots_def
      age_tag_def INT_MAX_def upt_rec)

lemma Cache_add_lru_witness:
  "\<exists>v c' evicted. Cache_add (Some sample_cache) (Some 7) = (evicted, Some c') \<and> v < length [0, 0 :: nat] \<and>
    aged c' ((map Suc [0, 0])[v := 0]) \<and>
    (\<forall>a\<in>set [0, 0]. min a (2147483647::nat) \<le> min ([0, 0] ! v) 2147483647) \<and>
    map cdata (live_slots c') = (map cdata (live_slots sample_cache))[v := Some 7] \<and>
    evicted = (if has_evict sample_cache
               then (case cdata (live_slots sample_cache ! v) of Some o1 \<Rightarrow> [o1] | None \<Rightarrow> []) else [])"
  by (rule Cache_add_lru [OF sample_aged])

text \<open>
  \<^verbatim>\<open>Cache_lookup\<close> answers the first object the callback accepts, makes its slot the
  youngest and every other slot one older, and never changes which objects are cached; it
  answers nothing exactly when no object is accepted.
\<close>

theorem Cache_lookup_touches:
  assumes "aged c ages"
  shows "\<exists>c'. snd (Cache_lookup lk (Some c) key) = Some c' \<and>
    map cdata (live_slots c') = map cdata (live_slots c) \<and>
    (case fst (Cache_lookup lk (Some c) key) of
       None \<Rightarrow> aged c' (map Suc ages) \<and> (\<forall>d. Some d \<in> set (map cdata (live_slots c)) \<longrightarrow> \<not> lk d key)
     | Some d \<Rightarrow> lk d key \<and> (\<exists>i<length ages. cdata (live_slots c ! i) = Some d \<and> aged c' ((map Suc ages)[i := 0])))"
proof -
  have ok: "cache_ok c" and tags: "map tag (live_slots c) = map age_tag ages" using assms by (auto simp: aged_def)
  have len: "length ages = nat (size c)" "length (live_slots c) = nat (size c)"
    using ages_live [OF assms] tags map_eq_imp_length_eq by force+
  obtain r es where loop: "lookup_loop lk key (live_slots c) = (r, es)" by fastforce
  let ?c' = "c\<lparr>arr := es @ drop (nat (size c)) (arr c)\<rparr>"
  have res: "Cache_lookup lk (Some c) key = (r, Some ?c')" by (simp add: Cache_lookup_def loop)
  have aged: "aged ?c' ages'" "live_slots ?c' = es" if "length es = nat (size c)" "map tag es = map age_tag ages'" for ages'
    using that by (auto intro!: aged_intro [OF ok] simp: live_slots_def)
  show ?thesis
  proof (cases r)
    case None
    have es: "es = map tick (live_slots c)"
      "\<forall>e\<in>set (live_slots c). \<forall>d. cdata e = Some d \<longrightarrow> \<not> lk d key"
      using lookup_loop_None [OF loop [unfolded None]] by auto
    have "map tag es = map age_tag (map Suc ages)" using map_tick_age [OF tags] by (simp add: es(1))
    with aged [of "map Suc ages"] len have "aged ?c' (map Suc ages)" "live_slots ?c' = es" by (simp_all add: es(1))
    then show ?thesis using es None by (intro exI [of _ ?c']) (auto simp: res comp_def image_iff dest: sym)
  next
    case (Some d)
    from lookup_loop_Some [OF loop [unfolded Some]] obtain i where i: "i < length (live_slots c)" "cdata (live_slots c ! i) = Some d"
      "lk d key" and es: "es = (map tick (live_slots c))[i := (tick (live_slots c ! i))\<lparr>tag := INT_MAX\<rparr>]" by blast
    have "map tag es = map age_tag ((map Suc ages)[i := 0])"
      using map_tick_age [OF tags] by (simp add: es map_update age_tag_def INT_MAX_def)
    moreover have "map cdata es = map cdata (live_slots c)"
      using i(1) by (simp add: es map_update comp_def) (metis list_update_id nth_map)
    moreover have "length es = nat (size c)" using len by (simp add: es)
    ultimately have "aged ?c' ((map Suc ages)[i := 0])" "map cdata (live_slots ?c') = map cdata (live_slots c)"
      using aged [of "(map Suc ages)[i := 0]"] by simp_all
    then show ?thesis using i len Some by (intro exI [of _ ?c'] conjI) (auto simp: res intro!: exI [of _ i])
  qed
qed

lemma Cache_lookup_touches_witness:
  "\<exists>c'. snd (Cache_lookup (\<lambda>d k. d = k) (Some sample_cache) 7) = Some c' \<and>
    map cdata (live_slots c') = map cdata (live_slots sample_cache) \<and>
    (case fst (Cache_lookup (\<lambda>d k. d = k) (Some sample_cache) 7) of
       None \<Rightarrow> aged c' (map Suc [0, 0]) \<and> (\<forall>d. Some d \<in> set (map cdata (live_slots sample_cache)) \<longrightarrow> \<not> (\<lambda>d k. d = k) d 7)
     | Some d \<Rightarrow> (\<lambda>d k. d = k) d 7 \<and> (\<exists>i<length [0, 0 :: nat]. cdata (live_slots sample_cache ! i) = Some d \<and>
         aged c' ((map Suc [0, 0])[i := 0])))"
  by (rule Cache_lookup_touches [OF sample_aged])

end
