(* ===== verification/Dict.thy ===== *)
theory Dict
  imports Bstr
begin

text \<open>
  The dictionary of \<^verbatim>\<open>src/adt/dict.c\<close>, a red-black tree with parent pointers and optional
  duplicate keys, as the request headers use it.  A subtree is a value and a
  pointer into the tree is a subtree with the path of frames up to the root: the parent
  pointer is the first frame, the sentinel \<^verbatim>\<open>nil\<close> the empty path or the empty subtree.  The
  comparison function is a parameter with the laws of a \<^verbatim>\<open>strcmp\<close>-like function.
\<close>

section \<open>Nodes and paths\<close>

datatype color = Red | Black

datatype ('k, 'v) dnode = Nil | N color "('k, 'v) dnode" 'k 'v "('k, 'v) dnode"

text \<open>The frame of a node that is its parent's left or right child.\<close>

datatype ('k, 'v) frame =
    FL color 'k 'v "('k, 'v) dnode"
  | FR color "('k, 'v) dnode" 'k 'v

type_synonym ('k, 'v) path = "('k, 'v) frame list"

record ('k, 'v) dict =
  root :: "('k, 'v) dnode"
  nodecount :: nat
  maxcount :: nat
  dupes :: bool

fun node_color :: "('k, 'v) dnode \<Rightarrow> color" where
  "node_color Nil = Black"
| "node_color (N c l k v r) = c"

fun paint :: "color \<Rightarrow> ('k, 'v) dnode \<Rightarrow> ('k, 'v) dnode" where
  "paint c Nil = Nil"
| "paint c (N _ l k v r) = N c l k v r"

fun frame_color :: "('k, 'v) frame \<Rightarrow> color" where
  "frame_color (FL c k v r) = c"
| "frame_color (FR c l k v) = c"

fun plug :: "('k, 'v) dnode \<Rightarrow> ('k, 'v) path \<Rightarrow> ('k, 'v) dnode" where
  "plug t [] = t"
| "plug t (FL c k v r # p) = plug (N c t k v r) p"
| "plug t (FR c l k v # p) = plug (N c l k v t) p"

section \<open>Operations\<close>

definition dict_create :: "nat \<Rightarrow> ('k, 'v) dict" where
  "dict_create maxc = \<lparr>root = Nil, nodecount = 0, maxcount = maxc, dupes = False\<rparr>"

definition dict_allow_dupes :: "('k, 'v) dict \<Rightarrow> ('k, 'v) dict" where
  "dict_allow_dupes d = d\<lparr>dupes := True\<rparr>"

text \<open>\<^verbatim>\<open>free_nodes\<close> frees children before their parent; the freed nodes in order.\<close>

fun free_nodes :: "('k, 'v) dnode \<Rightarrow> ('k \<times> 'v) list" where
  "free_nodes Nil = []"
| "free_nodes (N c l k v r) = free_nodes l @ free_nodes r @ [(k, v)]"

definition dict_free_nodes :: "('k, 'v) dict \<Rightarrow> ('k \<times> 'v) list \<times> ('k, 'v) dict" where
  "dict_free_nodes d = (free_nodes (root d), d\<lparr>root := Nil, nodecount := 0\<rparr>)"

definition dict_destroy :: "('k, 'v) dict \<Rightarrow> unit cres" where
  "dict_destroy d = (if nodecount d = 0 then Inr () else Inl Assert_fail)"

text \<open>First, last, next and previous, on a node with its path.\<close>

fun leftmost :: "('k, 'v) dnode \<Rightarrow> ('k, 'v) path \<Rightarrow> ('k, 'v) dnode \<times> ('k, 'v) path" where
  "leftmost Nil p = (Nil, p)"
| "leftmost (N c l k v r) p = (if l = Nil then (N c l k v r, p) else leftmost l (FL c k v r # p))"

fun rightmost :: "('k, 'v) dnode \<Rightarrow> ('k, 'v) path \<Rightarrow> ('k, 'v) dnode \<times> ('k, 'v) path" where
  "rightmost Nil p = (Nil, p)"
| "rightmost (N c l k v r) p = (if r = Nil then (N c l k v r, p) else rightmost r (FR c l k v # p))"

definition dict_first :: "('k, 'v) dict \<Rightarrow> (('k, 'v) dnode \<times> ('k, 'v) path) option" where
  "dict_first d = (if root d = Nil then None else Some (leftmost (root d) []))"

definition dict_last :: "('k, 'v) dict \<Rightarrow> (('k, 'v) dnode \<times> ('k, 'v) path) option" where
  "dict_last d = (if root d = Nil then None else Some (rightmost (root d) []))"

fun climb_right :: "('k, 'v) dnode \<Rightarrow> ('k, 'v) path \<Rightarrow> (('k, 'v) dnode \<times> ('k, 'v) path) option" where
  "climb_right t [] = None"
| "climb_right t (FR c l k v # p) = climb_right (N c l k v t) p"
| "climb_right t (FL c k v r # p) = Some (N c t k v r, p)"

fun climb_left :: "('k, 'v) dnode \<Rightarrow> ('k, 'v) path \<Rightarrow> (('k, 'v) dnode \<times> ('k, 'v) path) option" where
  "climb_left t [] = None"
| "climb_left t (FL c k v r # p) = climb_left (N c t k v r) p"
| "climb_left t (FR c l k v # p) = Some (N c l k v t, p)"

fun dict_next :: "('k, 'v) dnode \<Rightarrow> ('k, 'v) path \<Rightarrow> (('k, 'v) dnode \<times> ('k, 'v) path) option" where
  "dict_next Nil p = None"
| "dict_next (N c l k v r) p =
     (if r \<noteq> Nil then Some (leftmost r (FR c l k v # p)) else climb_right (N c l k v r) p)"

fun dict_prev :: "('k, 'v) dnode \<Rightarrow> ('k, 'v) path \<Rightarrow> (('k, 'v) dnode \<times> ('k, 'v) path) option" where
  "dict_prev Nil p = None"
| "dict_prev (N c l k v r) p =
     (if l \<noteq> Nil then Some (rightmost l (FL c k v r # p)) else climb_left (N c l k v r) p)"

text \<open>\<^verbatim>\<open>dict_lookup\<close>, with the search for the leftmost of equal keys.\<close>

fun skip_right :: "('k \<Rightarrow> 'k \<Rightarrow> int) \<Rightarrow> 'k \<Rightarrow> ('k, 'v) dnode \<Rightarrow> ('k, 'v) dnode" where
  "skip_right cmp key Nil = Nil"
| "skip_right cmp key (N c l k v r) = (if cmp key k \<noteq> 0 then skip_right cmp key r else N c l k v r)"

lemma skip_right_size: "size (skip_right cmp key t) \<le> size t"
  by (induction t) auto

function leftmost_dupe :: "('k \<Rightarrow> 'k \<Rightarrow> int) \<Rightarrow> 'k \<Rightarrow> 'k \<times> 'v \<Rightarrow> ('k, 'v) dnode \<Rightarrow> 'k \<times> 'v" where
  "leftmost_dupe cmp key saved t =
     (case skip_right cmp key t of Nil \<Rightarrow> saved | N c l k v r \<Rightarrow> leftmost_dupe cmp key (k, v) l)"
  by pat_completeness auto
termination
proof (relation "measure (\<lambda>(cmp, key, saved, t). size t)")
  fix cmp :: "'k \<Rightarrow> 'k \<Rightarrow> int" and key saved and t :: "('k, 'v) dnode" and c l k v r
  assume "skip_right cmp key t = N c l k v r"
  then show "((cmp, key, (k, v), l), (cmp, key, saved, t)) \<in> measure (\<lambda>(cmp, key, saved, t). size t)"
    using skip_right_size [of cmp key t] by simp
qed simp

declare leftmost_dupe.simps [simp del]

fun lookup_loop :: "('k \<Rightarrow> 'k \<Rightarrow> int) \<Rightarrow> bool \<Rightarrow> 'k \<Rightarrow> ('k, 'v) dnode \<Rightarrow> ('k \<times> 'v) option" where
  "lookup_loop cmp dup key Nil = None"
| "lookup_loop cmp dup key (N c l k v r) =
     (let result = cmp key k in
      if result < 0 then lookup_loop cmp dup key l
      else if result > 0 then lookup_loop cmp dup key r
      else if \<not> dup then Some (k, v)
      else Some (leftmost_dupe cmp key (k, v) l))"

definition dict_lookup :: "('k \<Rightarrow> 'k \<Rightarrow> int) \<Rightarrow> ('k, 'v) dict \<Rightarrow> 'k \<Rightarrow> ('k \<times> 'v) option" where
  "dict_lookup cmp d key = lookup_loop cmp (dupes d) key (root d)"

fun lower_loop :: "('k \<Rightarrow> 'k \<Rightarrow> int) \<Rightarrow> bool \<Rightarrow> 'k \<Rightarrow> ('k \<times> 'v) option \<Rightarrow> ('k, 'v) dnode \<Rightarrow> ('k \<times> 'v) option" where
  "lower_loop cmp dup key tentative Nil = tentative"
| "lower_loop cmp dup key tentative (N c l k v r) =
     (let result = cmp key k in
      if result > 0 then lower_loop cmp dup key tentative r
      else if result < 0 then lower_loop cmp dup key (Some (k, v)) l
      else if \<not> dup then Some (k, v)
      else lower_loop cmp dup key (Some (k, v)) l)"

definition dict_lower_bound :: "('k \<Rightarrow> 'k \<Rightarrow> int) \<Rightarrow> ('k, 'v) dict \<Rightarrow> 'k \<Rightarrow> ('k \<times> 'v) option" where
  "dict_lower_bound cmp d key = lower_loop cmp (dupes d) key None (root d)"

fun upper_loop :: "('k \<Rightarrow> 'k \<Rightarrow> int) \<Rightarrow> bool \<Rightarrow> 'k \<Rightarrow> ('k \<times> 'v) option \<Rightarrow> ('k, 'v) dnode \<Rightarrow> ('k \<times> 'v) option" where
  "upper_loop cmp dup key tentative Nil = tentative"
| "upper_loop cmp dup key tentative (N c l k v r) =
     (let result = cmp key k in
      if result < 0 then upper_loop cmp dup key tentative l
      else if result > 0 then upper_loop cmp dup key (Some (k, v)) r
      else if \<not> dup then Some (k, v)
      else upper_loop cmp dup key (Some (k, v)) r)"

definition dict_upper_bound :: "('k \<Rightarrow> 'k \<Rightarrow> int) \<Rightarrow> ('k, 'v) dict \<Rightarrow> 'k \<Rightarrow> ('k \<times> 'v) option" where
  "dict_upper_bound cmp d key = upper_loop cmp (dupes d) key None (root d)"

section \<open>Verification functions of the code\<close>

fun inorder :: "('k, 'v) dnode \<Rightarrow> ('k \<times> 'v) list" where
  "inorder Nil = []"
| "inorder (N c l k v r) = inorder l @ (k, v) # inorder r"

fun verify_node_count :: "('k, 'v) dnode \<Rightarrow> nat" where
  "verify_node_count Nil = 0"
| "verify_node_count (N c l k v r) = 1 + verify_node_count l + verify_node_count r"

text \<open>
  \<^verbatim>\<open>verify_bintree\<close> walks from \<^verbatim>\<open>dict_first\<close> by \<^verbatim>\<open>dict_next\<close>; \<open>fuel\<close> is the number of nodes.
\<close>

fun node_key :: "('k, 'v) dnode \<times> ('k, 'v) path \<Rightarrow> 'k option" where
  "node_key (Nil, p) = None"
| "node_key (N c l k v r, p) = Some k"

fun walk_keys :: "nat \<Rightarrow> (('k, 'v) dnode \<times> ('k, 'v) path) option \<Rightarrow> ('k \<times> 'v) list" where
  "walk_keys (Suc n) (Some (N c l k v r, p)) = (k, v) # walk_keys n (dict_next (N c l k v r) p)"
| "walk_keys _ _ = []"

fun ordered_walk :: "('k \<Rightarrow> 'k \<Rightarrow> int) \<Rightarrow> bool \<Rightarrow> ('k \<times> 'v) list \<Rightarrow> bool" where
  "ordered_walk cmp dup (x # y # xs) =
     (if dup then (if cmp (fst x) (fst y) > 0 then False else ordered_walk cmp dup (y # xs))
      else (if cmp (fst x) (fst y) \<ge> 0 then False else ordered_walk cmp dup (y # xs)))"
| "ordered_walk cmp dup _ = True"

definition verify_bintree :: "('k \<Rightarrow> 'k \<Rightarrow> int) \<Rightarrow> ('k, 'v) dict \<Rightarrow> bool" where
  "verify_bintree cmp d = ordered_walk cmp (dupes d) (walk_keys (verify_node_count (root d)) (dict_first d))"

fun verify_redblack :: "('k, 'v) dnode \<Rightarrow> nat" where
  "verify_redblack Nil = 1"
| "verify_redblack (N c l k v r) =
     (let height_left = verify_redblack l; height_right = verify_redblack r in
      if height_left = 0 \<or> height_right = 0 then 0
      else if height_left \<noteq> height_right then 0
      else if c = Red then
        (if node_color l \<noteq> Black then 0 else if node_color r \<noteq> Black then 0 else height_left)
      else height_left + 1)"

definition dict_verify :: "('k \<Rightarrow> 'k \<Rightarrow> int) \<Rightarrow> ('k, 'v) dict \<Rightarrow> bool" where
  "dict_verify cmp d \<longleftrightarrow> node_color (root d) = Black \<and> verify_bintree cmp d \<and>
     verify_redblack (root d) \<noteq> 0 \<and> verify_node_count (root d) = nodecount d"

section \<open>Insertion\<close>

fun insert_descend ::
    "('k \<Rightarrow> 'k \<Rightarrow> int) \<Rightarrow> bool \<Rightarrow> 'k \<Rightarrow> ('k, 'v) dnode \<Rightarrow> ('k, 'v) path \<Rightarrow> (('k, 'v) path) cres" where
  "insert_descend cmp dup key Nil p = Inr p"
| "insert_descend cmp dup key (N c l k v r) p =
     (let result = cmp key k in
      if \<not> (dup \<or> result \<noteq> 0) then Inl Assert_fail
      else if result < 0 then insert_descend cmp dup key l (FL c k v r # p)
      else insert_descend cmp dup key r (FR c l k v # p))"

text \<open>
  The adjustment loop: \<open>t\<close> is the red \<^verbatim>\<open>node\<close>, the first frame its \<^verbatim>\<open>parent\<close>, the second its
  \<^verbatim>\<open>grandpa\<close>.  A red parent without a grandparent would turn the sentinel into a tree node: that
  fault is \<open>Null_deref\<close>.
\<close>

fun insert_fix :: "('k, 'v) dnode \<Rightarrow> ('k, 'v) path \<Rightarrow> ('k, 'v) dnode cres" where
  "insert_fix t [] = Inr t"
| "insert_fix t [f] = (if frame_color f = Red then Inl Null_deref else Inr (plug t [f]))"
| "insert_fix t (FL pc pk pv pr # FL gc gk gv uncle # p) =
     (if pc \<noteq> Red then Inr (plug t (FL pc pk pv pr # FL gc gk gv uncle # p))
      else if node_color uncle = Red then
        insert_fix (N Red (N Black t pk pv pr) gk gv (paint Black uncle)) p
      else Inr (plug (N Black t pk pv (N Red pr gk gv uncle)) p))"
| "insert_fix t (FR pc pl pk pv # FL gc gk gv uncle # p) =
     (if pc \<noteq> Red then Inr (plug t (FR pc pl pk pv # FL gc gk gv uncle # p))
      else if node_color uncle = Red then
        insert_fix (N Red (N Black pl pk pv t) gk gv (paint Black uncle)) p
      else (case t of
          Nil \<Rightarrow> Inl Null_deref
        | N c a k v b \<Rightarrow> Inr (plug (N Black (N Red pl pk pv a) k v (N Red b gk gv uncle)) p)))"
| "insert_fix t (FR pc pl pk pv # FR gc uncle gk gv # p) =
     (if pc \<noteq> Red then Inr (plug t (FR pc pl pk pv # FR gc uncle gk gv # p))
      else if node_color uncle = Red then
        insert_fix (N Red (paint Black uncle) gk gv (N Black pl pk pv t)) p
      else Inr (plug (N Black (N Red uncle gk gv pl) pk pv t) p))"
| "insert_fix t (FL pc pk pv pr # FR gc uncle gk gv # p) =
     (if pc \<noteq> Red then Inr (plug t (FL pc pk pv pr # FR gc uncle gk gv # p))
      else if node_color uncle = Red then
        insert_fix (N Red (paint Black uncle) gk gv (N Black t pk pv pr)) p
      else (case t of
          Nil \<Rightarrow> Inl Null_deref
        | N c a k v b \<Rightarrow> Inr (plug (N Black (N Red uncle gk gv a) k v (N Red b pk pv pr)) p)))"

text \<open>The code asserts \<^verbatim>\<open>dict_verify\<close> behind every insertion.\<close>

definition dict_insert :: "('k \<Rightarrow> 'k \<Rightarrow> int) \<Rightarrow> ('k, 'v) dict \<Rightarrow> 'k \<Rightarrow> 'v \<Rightarrow> (('k, 'v) dict) cres" where
  "dict_insert cmp d key data =
     (if nodecount d = maxcount d then Inl Assert_fail
      else cbind (insert_descend cmp (dupes d) key (root d) [])
        (\<lambda>p. cbind (insert_fix (N Red Nil key data Nil) p)
          (\<lambda>t. let d' = d\<lparr>root := paint Black t, nodecount := Suc (nodecount d)\<rparr> in
               if dict_verify cmp d' then Inr d' else Inl Assert_fail)))"

definition dict_alloc_insert ::
    "bool \<Rightarrow> ('k \<Rightarrow> 'k \<Rightarrow> int) \<Rightarrow> ('k, 'v) dict \<Rightarrow> 'k \<Rightarrow> 'v \<Rightarrow> (int \<times> ('k, 'v) dict) cres" where
  "dict_alloc_insert mem cmp d key data =
     (if mem then cbind (dict_insert cmp d key data) (\<lambda>d'. Inr (1, d')) else Inr (0, d))"

section \<open>Paths and the order of the nodes\<close>

fun pre :: "('k, 'v) path \<Rightarrow> ('k \<times> 'v) list" where
  "pre [] = []"
| "pre (FL c k v r # p) = pre p"
| "pre (FR c l k v # p) = pre p @ inorder l @ [(k, v)]"

fun post :: "('k, 'v) path \<Rightarrow> ('k \<times> 'v) list" where
  "post [] = []"
| "post (FL c k v r # p) = (k, v) # inorder r @ post p"
| "post (FR c l k v # p) = post p"

lemma inorder_plug: "inorder (plug t p) = pre p @ inorder t @ post p"
  by (induction t p rule: plug.induct) auto

lemma inorder_paint [simp]: "inorder (paint c t) = inorder t"
  by (cases t) auto

lemma node_count_inorder: "verify_node_count t = length (inorder t)"
  by (induction t) auto

lemma leftmost_spec:
  "t \<noteq> Nil \<Longrightarrow> \<exists>c k v r p'. leftmost t p = (N c Nil k v r, p') \<and> inorder t @ post p = (k, v) # inorder r @ post p'"
  by (induction t p rule: leftmost.induct) auto

lemma climb_right_spec:
  "(climb_right t p = None \<and> post p = []) \<or>
   (\<exists>c l k v r p'. climb_right t p = Some (N c l k v r, p') \<and> post p = (k, v) # inorder r @ post p')"
  by (induction t p rule: climb_right.induct) auto

definition content :: "(('k, 'v) dnode \<times> ('k, 'v) path) option \<Rightarrow> ('k \<times> 'v) list" where
  "content loc = (case loc of Some (N c l k v r, p) \<Rightarrow> (k, v) # inorder r @ post p | _ \<Rightarrow> [])"

lemma dict_next_spec: "content (dict_next (N c l k v r) p) = inorder r @ post p"
proof (cases "r = Nil")
  case True
  then show ?thesis using climb_right_spec [of "N c l k v r" p] by (auto simp: content_def)
next
  case False
  then show ?thesis using leftmost_spec [of r "FR c l k v # p"] by (auto simp: content_def)
qed

lemma walk_spec: "walk_keys n loc = take n (content loc)"
proof (induction n arbitrary: loc)
  case (Suc n)
  show ?case
  proof (cases "\<exists>c l k v r p. loc = Some (N c l k v r, p)")
    case True
    then obtain c l k v r p where "loc = Some (N c l k v r, p)" by blast
    with Suc dict_next_spec [of c l k v r p] show ?thesis by (simp add: content_def)
  next
    case False
    then have "content loc = []" by (auto simp: content_def split: option.splits dnode.splits)
    moreover have "walk_keys (Suc n) loc = []"
      using False by (cases "(Suc n, loc)" rule: walk_keys.cases) auto
    ultimately show ?thesis by simp
  qed
qed simp

lemma walk_inorder: "walk_keys (verify_node_count (root d)) (dict_first d) = inorder (root d)"
proof (cases "root d = Nil")
  case False
  then have "content (dict_first d) = inorder (root d)"
    using leftmost_spec [OF False, of "[]"] by (auto simp: content_def dict_first_def)
  then show ?thesis by (simp add: walk_spec node_count_inorder)
qed (simp add: dict_first_def)

section \<open>Balance\<close>

text \<open>A path into which a valid subtree of black height \<open>h\<close> fits.\<close>

fun path_ok :: "('k, 'v) path \<Rightarrow> nat \<Rightarrow> bool" where
  "path_ok [] h \<longleftrightarrow> True"
| "path_ok (f # p) h \<longleftrightarrow>
     (let s = (case f of FL c k v r \<Rightarrow> r | FR c l k v \<Rightarrow> l) in
      verify_redblack s = h \<and>
      (frame_color f = Red \<longrightarrow> node_color s = Black \<and> p \<noteq> [] \<and> frame_color (hd p) = Black) \<and>
      path_ok p (if frame_color f = Black then Suc h else h))"

lemma color_not [simp]: "c \<noteq> Red \<longleftrightarrow> c = Black" "c \<noteq> Black \<longleftrightarrow> c = Red"
  by (cases c; simp)+

lemma plug_ok:
  "verify_redblack t = h \<Longrightarrow> h \<noteq> 0 \<Longrightarrow> path_ok p h \<Longrightarrow>
   (p \<noteq> [] \<and> frame_color (hd p) = Red \<longrightarrow> node_color t = Black) \<Longrightarrow> verify_redblack (plug t p) \<noteq> 0"
proof (induction t p arbitrary: h rule: plug.induct)
  case (2 t c k v r p)
  show ?case using 2(2-) unfolding plug.simps
    by (intro 2(1) [where h = "if c = Black then Suc h else h"]) (auto simp: Let_def split: if_splits)
next
  case (3 t c l k v p)
  show ?case using 3(2-) unfolding plug.simps
    by (intro 3(1) [where h = "if c = Black then Suc h else h"]) (auto simp: Let_def split: if_splits)
qed simp

lemma paint_black: "node_color t = Red \<Longrightarrow> verify_redblack t \<noteq> 0 \<Longrightarrow>
    verify_redblack (paint Black t) = Suc (verify_redblack t)"
  by (cases t) (auto simp: Let_def split: if_splits)

lemma paint_black_ok: "verify_redblack t \<noteq> 0 \<Longrightarrow> verify_redblack (paint Black t) \<noteq> 0"
  by (cases t) (auto simp: Let_def split: if_splits)

lemma insert_fix_inorder: "insert_fix t p = Inr t' \<Longrightarrow> inorder t' = pre p @ inorder t @ post p"
  by (induction t p rule: insert_fix.induct) (auto simp: inorder_plug split: if_splits dnode.splits)

lemma insert_fix_ok:
  "node_color t = Red \<Longrightarrow> verify_redblack t = h \<Longrightarrow> h \<noteq> 0 \<Longrightarrow> path_ok p h \<Longrightarrow>
   \<exists>t'. insert_fix t p = Inr t' \<and> verify_redblack t' \<noteq> 0"
proof (induction t p arbitrary: h rule: insert_fix.induct)
  case (1 t)
  then show ?case by simp
next
  case (2 t f)
  then show ?case by (cases f) (auto simp: Let_def split: if_splits)
next
  case (3 t pc pk pv pr gc gk gv uncle p)
  note c = 3(2-)
  show ?case
  proof (cases pc)
    case Black
    with c show ?thesis using plug_ok [of t h "FL pc pk pv pr # FL gc gk gv uncle # p"] by simp
  next
    case Red
    with c have g: "gc = Black" "verify_redblack uncle = h" "path_ok p (Suc h)" by (auto simp: Let_def)
    show ?thesis
    proof (cases "node_color uncle")
      case u: Red
      have "verify_redblack (N Red (N Black t pk pv pr) gk gv (paint Black uncle)) = Suc h"
        using c Red u g paint_black [of uncle] by (cases uncle) (auto simp: Let_def split: if_splits)
      with 3(1) [of "Suc h"] Red u g show ?thesis by simp
    next
      case u: Black
      have "verify_redblack (N Black t pk pv (N Red pr gk gv uncle)) = Suc h" using c Red u g by (auto simp: Let_def split: if_splits)
      with plug_ok [of "N Black t pk pv (N Red pr gk gv uncle)" "Suc h" p] g Red u show ?thesis by simp
    qed
  qed
next
  case (4 t pc pl pk pv gc gk gv uncle p)
  note c = 4(2-)
  show ?case
  proof (cases pc)
    case Black
    with c show ?thesis using plug_ok [of t h "FR pc pl pk pv # FL gc gk gv uncle # p"] by simp
  next
    case Red
    with c have g: "gc = Black" "verify_redblack uncle = h" "path_ok p (Suc h)" by (auto simp: Let_def)
    show ?thesis
    proof (cases "node_color uncle")
      case u: Red
      have "verify_redblack (N Red (N Black pl pk pv t) gk gv (paint Black uncle)) = Suc h"
        using c Red u g paint_black [of uncle] by (cases uncle) (auto simp: Let_def split: if_splits)
      with 4(1) [of "Suc h"] Red u g show ?thesis by simp
    next
      case u: Black
      obtain a k v b where t: "t = N Red a k v b" using c(1) by (cases t) auto
      have "verify_redblack (N Black (N Red pl pk pv a) k v (N Red b gk gv uncle)) = Suc h" using c Red u g t by (auto simp: Let_def split: if_splits)
      with plug_ok [of "N Black (N Red pl pk pv a) k v (N Red b gk gv uncle)" "Suc h" p] g Red u t show ?thesis by simp
    qed
  qed
next
  case (5 t pc pl pk pv gc uncle gk gv p)
  note c = 5(2-)
  show ?case
  proof (cases pc)
    case Black
    with c show ?thesis using plug_ok [of t h "FR pc pl pk pv # FR gc uncle gk gv # p"] by simp
  next
    case Red
    with c have g: "gc = Black" "verify_redblack uncle = h" "path_ok p (Suc h)" by (auto simp: Let_def)
    show ?thesis
    proof (cases "node_color uncle")
      case u: Red
      have "verify_redblack (N Red (paint Black uncle) gk gv (N Black pl pk pv t)) = Suc h"
        using c Red u g paint_black [of uncle] by (cases uncle) (auto simp: Let_def split: if_splits)
      with 5(1) [of "Suc h"] Red u g show ?thesis by simp
    next
      case u: Black
      have "verify_redblack (N Black (N Red uncle gk gv pl) pk pv t) = Suc h" using c Red u g by (auto simp: Let_def split: if_splits)
      with plug_ok [of "N Black (N Red uncle gk gv pl) pk pv t" "Suc h" p] g Red u show ?thesis by simp
    qed
  qed
next
  case (6 t pc pk pv pr gc uncle gk gv p)
  note c = 6(2-)
  show ?case
  proof (cases pc)
    case Black
    with c show ?thesis using plug_ok [of t h "FL pc pk pv pr # FR gc uncle gk gv # p"] by simp
  next
    case Red
    with c have g: "gc = Black" "verify_redblack uncle = h" "path_ok p (Suc h)" by (auto simp: Let_def)
    show ?thesis
    proof (cases "node_color uncle")
      case u: Red
      have "verify_redblack (N Red (paint Black uncle) gk gv (N Black t pk pv pr)) = Suc h"
        using c Red u g paint_black [of uncle] by (cases uncle) (auto simp: Let_def split: if_splits)
      with 6(1) [of "Suc h"] Red u g show ?thesis by simp
    next
      case u: Black
      obtain a k v b where t: "t = N Red a k v b" using c(1) by (cases t) auto
      have "verify_redblack (N Black (N Red uncle gk gv a) k v (N Red b pk pv pr)) = Suc h" using c Red u g t by (auto simp: Let_def split: if_splits)
      with plug_ok [of "N Black (N Red uncle gk gv a) k v (N Red b pk pv pr)" "Suc h" p] g Red u t show ?thesis by simp
    qed
  qed
qed

section \<open>Order\<close>

text \<open>The contract of a comparison function.\<close>

locale comparator =
  fixes cmp :: "'k \<Rightarrow> 'k \<Rightarrow> int"
  assumes cmp_refl: "cmp a a = 0"
    and cmp_flip: "cmp a b < 0 \<longleftrightarrow> 0 < cmp b a"
    and cmp_trans: "cmp a b \<le> 0 \<Longrightarrow> cmp b c \<le> 0 \<Longrightarrow> cmp a c \<le> 0"
begin

definition leq :: "'k \<times> 'v \<Rightarrow> 'k \<times> 'v \<Rightarrow> bool" where
  "leq x y \<longleftrightarrow> cmp (fst x) (fst y) \<le> 0"

definition lt :: "'k \<times> 'v \<Rightarrow> 'k \<times> 'v \<Rightarrow> bool" where
  "lt x y \<longleftrightarrow> cmp (fst x) (fst y) < 0"

lemma cmp_le_flip: "cmp a b \<le> 0 \<longleftrightarrow> 0 \<le> cmp b a"
  using cmp_flip [of b a] by linarith

lemma cmp_lt_le_trans: "cmp a b < 0 \<Longrightarrow> cmp b c \<le> 0 \<Longrightarrow> cmp a c < 0"
  using cmp_trans [of b c a] cmp_le_flip cmp_flip by (metis leD not_le_imp_less)

lemma cmp_le_lt_trans: "cmp a b \<le> 0 \<Longrightarrow> cmp b c < 0 \<Longrightarrow> cmp a c < 0"
  using cmp_trans [of c a b] cmp_le_flip cmp_flip by (metis leD not_le_imp_less)

lemma ordered_walk_sorted:
  "ordered_walk cmp dup xs \<longleftrightarrow> sorted_wrt (if dup then leq else lt) xs"
proof (induction xs rule: induct_list012)
  case (3 x y xs)
  have "transp (if dup then leq else lt :: 'k \<times> 'v \<Rightarrow> 'k \<times> 'v \<Rightarrow> bool)" for dup
    unfolding transp_def leq_def lt_def by (auto intro: cmp_trans cmp_lt_le_trans less_imp_le)
  then have "sorted_wrt (if dup then leq else lt) (x # y # xs) \<longleftrightarrow>
      (if dup then leq else lt) x y \<and> sorted_wrt (if dup then leq else lt) (y # xs)"
    by (rule sorted_wrt2)
  then show ?case using 3(2) by (auto simp: leq_def lt_def)
qed auto

definition sorted_dict :: "('k, 'v) dict \<Rightarrow> bool" where
  "sorted_dict d \<longleftrightarrow> sorted_wrt (if dupes d then leq else lt) (inorder (root d))"

lemma dict_verify_iff:
  "dict_verify cmp d \<longleftrightarrow> node_color (root d) = Black \<and> sorted_dict d \<and>
     verify_redblack (root d) \<noteq> 0 \<and> length (inorder (root d)) = nodecount d"
  unfolding dict_verify_def verify_bintree_def walk_inorder ordered_walk_sorted sorted_dict_def
  by (simp add: node_count_inorder)

abbreviation before :: "'k \<Rightarrow> 'k \<times> 'v \<Rightarrow> bool" where
  "before key x \<equiv> 0 \<le> cmp key (fst x)"

definition ins_sorted :: "'k \<Rightarrow> 'v \<Rightarrow> ('k \<times> 'v) list \<Rightarrow> ('k \<times> 'v) list" where
  "ins_sorted key v xs = takeWhile (before key) xs @ (key, v) # dropWhile (before key) xs"

lemma sorted_leq: "sorted_wrt (if dup then leq else lt) xs \<Longrightarrow> sorted_wrt leq xs"
  by (erule sorted_wrt_mono_rel [rotated]) (auto simp: leq_def lt_def split: if_splits)

lemma before_split:
  assumes "sorted_wrt leq (xs @ (k, v) # ys)"
  shows "cmp key k < 0 \<Longrightarrow> takeWhile (before key) (xs @ (k, v) # ys) = takeWhile (before key) xs"
    "cmp key k < 0 \<Longrightarrow> dropWhile (before key) (xs @ (k, v) # ys) = dropWhile (before key) xs @ (k, v) # ys"
    "\<not> cmp key k < 0 \<Longrightarrow> takeWhile (before key) (xs @ (k, v) # ys) = xs @ (k, v) # takeWhile (before key) ys"
    "\<not> cmp key k < 0 \<Longrightarrow> dropWhile (before key) (xs @ (k, v) # ys) = dropWhile (before key) ys"
proof -
  have le: "cmp (fst x) k \<le> 0" if "x \<in> set xs" for x using assms that by (auto simp: sorted_wrt_append leq_def)
  have all: "before key x" if "x \<in> set xs" "\<not> cmp key k < 0" for x
    using le [OF that(1)] that(2) cmp_trans [of "fst x" k key] cmp_le_flip by simp
  show "takeWhile (before key) (xs @ (k, v) # ys) = takeWhile (before key) xs"
    "dropWhile (before key) (xs @ (k, v) # ys) = dropWhile (before key) xs @ (k, v) # ys" if "cmp key k < 0"
    using that by (induction xs) auto
  show "takeWhile (before key) (xs @ (k, v) # ys) = xs @ (k, v) # takeWhile (before key) ys"
    "dropWhile (before key) (xs @ (k, v) # ys) = dropWhile (before key) ys" if "\<not> cmp key k < 0"
    using that all by (simp_all add: takeWhile_append2 dropWhile_append2)
qed

lemma after_key:
  "sorted_wrt leq xs \<Longrightarrow> y \<in> set (dropWhile (before key) xs) \<Longrightarrow> cmp key (fst y) < 0"
  by (induction xs) (auto simp: leq_def not_le intro: cmp_lt_le_trans split: if_splits)

lemma ins_sorted_sorted:
  assumes "sorted_wrt (if dup then leq else lt) xs" "dup \<or> (\<forall>x\<in>set xs. cmp key (fst x) \<noteq> 0)"
  shows "sorted_wrt (if dup then leq else lt) (ins_sorted key v xs)"
proof -
  let ?R = "if dup then leq else lt" and ?a = "takeWhile (before key) xs" and ?b = "dropWhile (before key) xs"
  have "sorted_wrt ?R (?a @ ?b)" using assms(1) by simp
  then have s: "sorted_wrt ?R ?a" "sorted_wrt ?R ?b" "\<forall>x\<in>set ?a. \<forall>y\<in>set ?b. ?R x y"
    unfolding sorted_wrt_append by auto
  have "cmp key (fst y) < 0" if "y \<in> set ?b" for y using after_key [OF sorted_leq [OF assms(1)] that] .
  then have "\<forall>y\<in>set ?b. ?R (key, v) y" by (auto simp: leq_def lt_def less_imp_le)
  moreover have "?R x (key, v)" if "x \<in> set ?a" for x
  proof -
    have "0 \<le> cmp key (fst x)" "x \<in> set xs" using that by (auto dest: set_takeWhileD)
    with assms(2) cmp_flip [of "fst x" key] cmp_le_flip show ?thesis
      by (cases dup) (auto simp: leq_def lt_def less_le)
  qed
  ultimately show ?thesis using s by (auto simp: ins_sorted_def sorted_wrt_append)
qed

lemma descend_order:
  "insert_descend cmp dup key t p = Inr p' \<Longrightarrow> sorted_wrt leq (inorder t) \<Longrightarrow>
   pre p' = pre p @ takeWhile (before key) (inorder t) \<and> post p' = dropWhile (before key) (inorder t) @ post p"
proof (induction t arbitrary: p)
  case (N c l k v r)
  have s: "sorted_wrt leq (inorder l)" "sorted_wrt leq (inorder r)" "sorted_wrt leq (inorder l @ (k, v) # inorder r)"
    using N.prems(2) by (auto simp: sorted_wrt_append)
  show ?case
  proof (cases "cmp key k < 0")
    case True
    then show ?thesis using N.IH(1) [OF _ s(1), of "FL c k v r # p"] N.prems(1) before_split [OF s(3)]
      by (auto simp: Let_def split: if_splits)
  next
    case False
    then show ?thesis using N.IH(2) [OF _ s(2), of "FR c l k v # p"] N.prems(1) before_split [OF s(3)]
      by (auto simp: Let_def split: if_splits)
  qed
qed simp

lemma descend_total:
  "dup \<or> (\<forall>x\<in>set (inorder t). cmp key (fst x) \<noteq> 0) \<Longrightarrow> \<exists>p'. insert_descend cmp dup key t p = Inr p'"
  by (induction t arbitrary: p) (auto simp: Let_def)

end

lemma descend_path_ok:
  "insert_descend cmp dup key t p = Inr p' \<Longrightarrow> verify_redblack t = h \<Longrightarrow> h \<noteq> 0 \<Longrightarrow> path_ok p h \<Longrightarrow>
   (p = [] \<or> frame_color (hd p) = Red \<longrightarrow> node_color t = Black) \<Longrightarrow> path_ok p' 1"
proof (induction t arbitrary: p h)
  case (N c l k v r)
  let ?h = "verify_redblack l"
  have h: "verify_redblack r = ?h" "?h \<noteq> 0" "h = (if c = Black then Suc ?h else ?h)"
    "c = Red \<longrightarrow> node_color l = Black \<and> node_color r = Black"
    using N.prems(2,3) by (auto simp: Let_def split: if_splits)
  have c: "c = Red \<longrightarrow> p \<noteq> [] \<and> frame_color (hd p) = Black" using N.prems(5) by (cases c) auto
  have "path_ok (FL c k v r # p) ?h" "path_ok (FR c l k v # p) ?h"
    using N.prems(4) h c by (auto simp: Let_def)
  with N.IH(1) [of "FL c k v r # p" ?h] N.IH(2) [of "FR c l k v # p" ?h] N.prems(1) h show ?case
    by (auto simp: Let_def split: if_splits)
qed simp

context comparator
begin

lemma dict_insert_ok:
  assumes "dict_verify cmp d" "nodecount d \<noteq> maxcount d"
    and "dupes d \<or> (\<forall>x\<in>set (inorder (root d)). cmp key (fst x) \<noteq> 0)"
  shows "\<exists>d'. dict_insert cmp d key v = Inr d' \<and> dict_verify cmp d' \<and> dupes d' = dupes d \<and>
    maxcount d' = maxcount d \<and> nodecount d' = Suc (nodecount d) \<and>
    inorder (root d') = ins_sorted key v (inorder (root d))"
proof -
  note d = assms(1) [unfolded dict_verify_iff]
  have srt: "sorted_wrt (if dupes d then leq else lt) (inorder (root d))" using d by (simp add: sorted_dict_def)
  obtain p where p: "insert_descend cmp (dupes d) key (root d) [] = Inr p"
    using descend_total [OF assms(3)] by blast
  have pp: "pre p = takeWhile (before key) (inorder (root d))" "post p = dropWhile (before key) (inorder (root d))"
    using descend_order [OF p sorted_leq [OF srt]] by simp_all
  have "path_ok p 1" using descend_path_ok [OF p refl] d by simp
  then obtain t where t: "insert_fix (N Red Nil key v Nil) p = Inr t" "verify_redblack t \<noteq> 0"
    using insert_fix_ok [of "N Red Nil key v Nil" 1 p] by (auto simp: Let_def)
  let ?d = "d\<lparr>root := paint Black t, nodecount := Suc (nodecount d)\<rparr>"
  have io: "inorder (paint Black t) = ins_sorted key v (inorder (root d))"
    using insert_fix_inorder [OF t(1)] pp by (simp add: ins_sorted_def)
  have "sorted_wrt (if dupes d then leq else lt) (ins_sorted key v (inorder (root d)))"
    using ins_sorted_sorted [OF srt assms(3)] .
  moreover have "length (ins_sorted key v (inorder (root d))) = Suc (nodecount d)"
    using d by (simp add: ins_sorted_def) (metis length_append takeWhile_dropWhile_id)
  moreover have "node_color (paint Black t) = Black" by (cases t) auto
  ultimately have "dict_verify cmp ?d"
    using io paint_black_ok [OF t(2)] by (simp add: dict_verify_iff sorted_dict_def)
  then show ?thesis using assms(2) p t(1) io by (simp add: dict_insert_def Let_def)
qed

text \<open>Lookup answers the first entry with an equal key.\<close>

abbreviation same :: "'k \<Rightarrow> 'k \<times> 'v \<Rightarrow> bool" where
  "same key x \<equiv> cmp key (fst x) = 0"

lemma find_append: "List.find P (xs @ ys) = (case List.find P xs of None \<Rightarrow> List.find P ys | r \<Rightarrow> r)"
  by (induction xs) auto

lemma find_none: "(\<And>x. x \<in> set xs \<Longrightarrow> \<not> P x) \<Longrightarrow> List.find P xs = None"
  by (auto simp: find_None_iff)

lemma skip_right_find:
  "sorted_wrt leq (inorder t) \<Longrightarrow> (\<forall>x\<in>set (inorder t). cmp (fst x) key \<le> 0) \<Longrightarrow>
   List.find (same key) (inorder t) =
     (case skip_right cmp key t of Nil \<Rightarrow> None | N c l k v r \<Rightarrow>
        (case List.find (same key) (inorder l) of None \<Rightarrow> Some (k, v) | r \<Rightarrow> r)) \<and>
   (case skip_right cmp key t of Nil \<Rightarrow> True | N c l k v r \<Rightarrow> sorted_wrt leq (inorder l) \<and>
      (\<forall>x\<in>set (inorder l). cmp (fst x) key \<le> 0))"
proof (induction t)
  case (N c l k v r)
  show ?case
  proof (cases "cmp key k = 0")
    case True
    then show ?thesis using N.prems by (simp add: sorted_wrt_append find_append split: option.splits)
  next
    case False
    have "cmp k key \<le> 0" using N.prems(2) by simp
    then have "0 < cmp key k" using False cmp_le_flip [of k key] by linarith
    then have "\<not> same key x" if "x \<in> set (inorder l)" for x
    proof -
      have "cmp (fst x) k \<le> 0" using N.prems(1) that by (auto simp: sorted_wrt_append leq_def)
      with \<open>0 < cmp key k\<close> have "cmp (fst x) key < 0"
        using cmp_le_lt_trans [of "fst x" k key] cmp_flip [of k key] by simp
      then show ?thesis using cmp_flip [of "fst x" key] by simp
    qed
    then have "List.find (same key) (inorder l) = None" by (rule find_none)
    with False N.IH(2) N.prems show ?thesis by (auto simp: sorted_wrt_append find_append)
  qed
qed simp

lemma leftmost_dupe_find:
  "sorted_wrt leq (inorder t) \<Longrightarrow> (\<forall>x\<in>set (inorder t). cmp (fst x) key \<le> 0) \<Longrightarrow>
   leftmost_dupe cmp key saved t = (case List.find (same key) (inorder t) of None \<Rightarrow> saved | Some x \<Rightarrow> x)"
proof (induction t arbitrary: saved rule: measure_induct_rule [of size])
  case (less t)
  note sk = skip_right_find [OF less.prems]
  show ?case
  proof (cases "skip_right cmp key t")
    case Nil
    with sk show ?thesis by (simp add: leftmost_dupe.simps [of _ _ _ t])
  next
    case (N c l k v r)
    then have "size l < size t" using skip_right_size [of cmp key t] by simp
    with less.IH [OF this] sk N show ?thesis
      by (simp add: leftmost_dupe.simps [of _ _ _ t] split: option.splits)
  qed
qed

lemma lookup_loop_find:
  "sorted_wrt (if dup then leq else lt) (inorder t) \<Longrightarrow>
   lookup_loop cmp dup key t = List.find (same key) (inorder t)"
proof (induction t)
  case (N c l k v r)
  let ?R = "if dup then leq else lt"
  have s: "sorted_wrt ?R (inorder l)" "sorted_wrt ?R (inorder r)" "\<forall>x\<in>set (inorder l). ?R x (k, v)"
    "\<forall>x\<in>set (inorder r). ?R (k, v) x" using N.prems by (auto simp: sorted_wrt_append)
  have le: "cmp (fst x) k \<le> 0" if "x \<in> set (inorder l)" for x using s(3) that by (auto simp: leq_def lt_def split: if_splits)
  have ge: "cmp k (fst x) \<le> 0" if "x \<in> set (inorder r)" for x using s(4) that by (auto simp: leq_def lt_def split: if_splits)
  consider (less) "cmp key k < 0" | (greater) "cmp key k > 0" | (eq) "cmp key k = 0" by linarith
  then show ?case
  proof cases
    case less
    have "\<not> same key x" if "x \<in> set (inorder r)" for x
      using cmp_lt_le_trans [OF less ge [OF that]] by simp
    then have "List.find (same key) (inorder r) = None" by (rule find_none)
    with less N.IH(1) [OF s(1)] show ?thesis by (simp add: find_append Let_def split: option.splits)
  next
    case greater
    have "\<not> same key x" if "x \<in> set (inorder l)" for x
      using cmp_le_lt_trans [OF le [OF that], of key] cmp_flip [of k key] cmp_flip [of "fst x" key] greater by simp
    then have "List.find (same key) (inorder l) = None" by (rule find_none)
    with greater N.IH(2) [OF s(2)] show ?thesis by (simp add: find_append Let_def)
  next
    case eq
    show ?thesis
    proof (cases dup)
      case True
      have "cmp (fst x) key \<le> 0" if "x \<in> set (inorder l)" for x
        using cmp_trans [OF le [OF that], of key] eq cmp_le_flip [of k key] by simp
      with leftmost_dupe_find [of l key "(k, v)"] sorted_leq [OF s(1)] True eq show ?thesis
        by (auto simp: find_append Let_def split: option.splits)
    next
      case False
      have "\<not> same key x" if "x \<in> set (inorder l)" for x
      proof -
        have "cmp (fst x) k < 0" using s(3) that False by (auto simp: lt_def)
        with eq have "cmp (fst x) key < 0" using cmp_lt_le_trans [of "fst x" k key] cmp_le_flip [of k key] by simp
        then show ?thesis using cmp_flip [of "fst x" key] by simp
      qed
      then have "List.find (same key) (inorder l) = None" by (rule find_none)
      with False eq show ?thesis by (simp add: find_append Let_def)
    qed
  qed
qed simp

lemma dict_lookup_find:
  "dict_verify cmp d \<Longrightarrow> dict_lookup cmp d key = List.find (same key) (inorder (root d))"
  by (simp add: dict_lookup_def lookup_loop_find dict_verify_iff sorted_dict_def)

lemma lookup_after_insert:
  assumes "dict_verify cmp d" "dict_insert cmp d key v = Inr d'" "dict_verify cmp d'"
    and io: "inorder (root d') = ins_sorted key v (inorder (root d))"
  shows "dict_lookup cmp d' k = (if cmp k key = 0 \<and> dict_lookup cmp d k = None then Some (key, v) else dict_lookup cmp d k)"
proof -
  let ?xs = "inorder (root d)" and ?a = "takeWhile (before key) (inorder (root d))"
    and ?b = "dropWhile (before key) (inorder (root d))"
  have srt: "sorted_wrt leq ?xs" using assms(1) sorted_leq by (auto simp: dict_verify_iff sorted_dict_def)
  have old: "List.find (same k) ?xs = (case List.find (same k) ?a of None \<Rightarrow> List.find (same k) ?b | r \<Rightarrow> r)"
    using find_append [of "same k" ?a ?b] by simp
  have noneb: "List.find (same k) ?b = None" if "cmp k key = 0"
  proof (rule find_none)
    fix y assume "y \<in> set ?b"
    then show "\<not> same k y" using cmp_le_lt_trans [of k key "fst y"] after_key [OF srt] that by simp
  qed
  have "List.find (same k) (inorder (root d')) = (case List.find (same k) ?a of
      None \<Rightarrow> if cmp k key = 0 then Some (key, v) else List.find (same k) ?b | r \<Rightarrow> r)"
    by (simp add: io ins_sorted_def find_append split: option.splits)
  with old noneb show ?thesis
    unfolding dict_lookup_find [OF assms(3)] dict_lookup_find [OF assms(1)]
    by (cases "List.find (same k) ?a"; cases "cmp k key = 0") simp_all
qed

end

interpretation hdr: comparator bstricmp
  by unfold_locales (rule bstricmp_refl bstricmp_flip bstricmp_trans; assumption?)+

lemma header_insert:
  assumes "dict_verify bstricmp d" "nodecount d \<noteq> maxcount d" "dupes d"
  shows "\<exists>d'. dict_insert bstricmp d key v = Inr d' \<and> dict_verify bstricmp d' \<and>
    nodecount d' = Suc (nodecount d) \<and> maxcount d' = maxcount d \<and> dupes d' \<and>
    (\<forall>k. dict_lookup bstricmp d' k =
       (if bstricmp k key = 0 \<and> dict_lookup bstricmp d k = None then Some (key, v) else dict_lookup bstricmp d k))"
proof -
  obtain d' where d': "dict_insert bstricmp d key v = Inr d'" "dict_verify bstricmp d'"
    "nodecount d' = Suc (nodecount d)" "maxcount d' = maxcount d" "dupes d' = dupes d"
    "inorder (root d') = hdr.ins_sorted key v (inorder (root d))"
    using hdr.dict_insert_ok [OF assms(1,2)] assms(3) by blast
  with hdr.lookup_after_insert [OF assms(1) d'(1,2,6)] assms(3) show ?thesis by blast
qed

section \<open>Properties\<close>

text \<open>
  C27: inserting into a well-formed header dictionary that is not full succeeds, the
  \<^verbatim>\<open>assert(dict_verify(dict))\<close> at its end included: order, red-black balance and node count
  are kept; afterwards a lookup finds what it found before, and the new entry
  under every spelling of its name that had none.
\<close>

theorem dict_insert_lookup:
  assumes "dict_verify bstricmp d" "nodecount d \<noteq> maxcount d" "dupes d"
  shows "\<exists>d'. dict_insert bstricmp d key v = Inr d' \<and> dict_verify bstricmp d' \<and>
    nodecount d' = Suc (nodecount d) \<and> maxcount d' = maxcount d \<and> dupes d' \<and>
    (\<forall>k. dict_lookup bstricmp d' k =
       (if bstricmp k key = 0 \<and> dict_lookup bstricmp d k = None then Some (key, v) else dict_lookup bstricmp d k))"
  using assms by (rule header_insert)

definition sample_headers :: "(bstring, bstring) dict" where
  "sample_headers = dict_allow_dupes (dict_create 1280)"

lemma sample_headers_ok: "dict_verify bstricmp sample_headers" "nodecount sample_headers \<noteq> maxcount sample_headers"
  "dupes sample_headers"
  by (simp_all add: sample_headers_def dict_allow_dupes_def dict_create_def dict_verify_def verify_bintree_def dict_first_def)

lemma dict_insert_lookup_witness:
  "\<exists>d'. dict_insert bstricmp sample_headers ''Host'' ''a.com'' = Inr d' \<and> dict_verify bstricmp d' \<and>
    nodecount d' = Suc (nodecount sample_headers) \<and> maxcount d' = maxcount sample_headers \<and> dupes d' \<and>
    (\<forall>k. dict_lookup bstricmp d' k =
       (if bstricmp k ''Host'' = 0 \<and> dict_lookup bstricmp sample_headers k = None then Some (''Host'', ''a.com'')
        else dict_lookup bstricmp sample_headers k))"
  by (rule dict_insert_lookup [OF sample_headers_ok])

text \<open>
  The walk from \<^verbatim>\<open>dict_first\<close> by \<^verbatim>\<open>dict_next\<close> over the parent pointers visits every node exactly once,
  in key order.
\<close>

theorem dict_walk_complete:
  "walk_keys (verify_node_count (root d)) (dict_first d) = inorder (root d) \<and>
   length (inorder (root d)) = verify_node_count (root d)"
  using walk_inorder [of d] node_count_inorder [of "root d"] by simp

end
