(* ===== verification/Request.thy ===== *)
theory Request
  imports Dict Register Routing
begin

text \<open>
  \<^verbatim>\<open>src/request.c\<close> with the macros of \<^verbatim>\<open>request.h\<close> and the names of \<^verbatim>\<open>headers.c\<close>: the request
  a parser fills through callbacks, header lookup, and the message handlers
  receive (the lengths printed in it are those of strings, which fit an \<^verbatim>\<open>int\<close>).  The Ragel-generated HTTP parser is a parameter: one function to reset it, one to run
  it over a buffer, answering the callbacks it made in their order, and one to ask whether
  it has finished.
\<close>

section \<open>Names\<close>

definition HTTP_CONTENT_LENGTH :: bstring where "HTTP_CONTENT_LENGTH = ''Content-Length''"
definition HTTP_HOST :: bstring where "HTTP_HOST = ''Host''"
definition HTTP_METHOD :: bstring where "HTTP_METHOD = ''METHOD''"
definition HTTP_VERSION :: bstring where "HTTP_VERSION = ''VERSION''"
definition HTTP_URI :: bstring where "HTTP_URI = ''URI''"
definition HTTP_PATH :: bstring where "HTTP_PATH = ''PATH''"
definition HTTP_QUERY :: bstring where "HTTP_QUERY = ''QUERY''"
definition HTTP_FRAGMENT :: bstring where "HTTP_FRAGMENT = ''FRAGMENT''"
definition JSON_METHOD :: bstring where "JSON_METHOD = ''JSON''"
definition HTTP_PATTERN :: bstring where "HTTP_PATTERN = ''PATTERN''"
definition HTTP_CONNECTION :: bstring where "HTTP_CONNECTION = ''Connection''"
definition HTTP_IF_MATCH :: bstring where "HTTP_IF_MATCH = ''If-Match''"
definition HTTP_IF_NONE_MATCH :: bstring where "HTTP_IF_NONE_MATCH = ''If-None-Match''"
definition HTTP_IF_MODIFIED_SINCE :: bstring where "HTTP_IF_MODIFIED_SINCE = ''If-Modified-Since''"
definition HTTP_IF_UNMODIFIED_SINCE :: bstring where "HTTP_IF_UNMODIFIED_SINCE = ''If-Unmodified-Since''"
definition HTTP_GET :: bstring where "HTTP_GET = ''GET''"
definition HTTP_HEAD :: bstring where "HTTP_HEAD = ''HEAD''"

section \<open>The request\<close>

text \<open>The parts of the parser's state the server reads, and the rest of it.\<close>

record 'p http_parser =
  json_sent :: int
  socket_started :: int
  content_len :: int
  body_start :: nat
  machine :: 'p

text \<open>The callbacks a run of the parser makes.\<close>

datatype parser_call =
    On_method string | On_uri string | On_fragment string | On_path string | On_query string
  | On_version string | On_field string string | On_header_done

record 'p parser_ops =
  http_parser_init :: "'p http_parser \<Rightarrow> 'p http_parser"
  http_parser_execute :: "'p http_parser \<Rightarrow> string \<Rightarrow> nat \<Rightarrow> parser_call list \<times> 'p http_parser \<times> nat"
  http_parser_finish :: "'p http_parser \<Rightarrow> int"

record ('p, 't) request =
  request_method :: "bstring option"
  version :: "bstring option"
  uri :: "bstring option"
  path :: "bstring option"
  query_string :: "bstring option"
  fragment :: "bstring option"
  host :: "bstring option"
  host_name :: "bstring option"
  req_pattern :: "bstring option"
  target_host :: "'t host option"
  headers :: "(bstring, bstring) dict"
  action :: "'t backend option"
  status_code :: int
  response_size :: int
  parser :: "'p http_parser"

abbreviation Request_is_json :: "('p, 't) request \<Rightarrow> bool" where
  "Request_is_json req \<equiv> json_sent (parser req) = 1"

abbreviation Request_is_socket :: "('p, 't) request \<Rightarrow> bool" where
  "Request_is_socket req \<equiv> socket_started (parser req) = 1"

definition Request_is_http :: "('p, 't) request \<Rightarrow> bool" where
  "Request_is_http req \<longleftrightarrow> \<not> (Request_is_json req \<or> Request_is_socket req)"

definition Request_init :: "settings \<Rightarrow> int" where
  "Request_init sets = Setting_get_int sets ''limits.header_count'' (128 * 10)"

definition Request_get :: "('p, 't) request \<Rightarrow> bstring \<Rightarrow> bstring option" where
  "Request_get req field = map_option snd (dict_lookup bstricmp (headers req) field)"

definition request_method_cb :: "string \<Rightarrow> ('p, 't) request \<Rightarrow> ('p, 't) request" where
  "request_method_cb s req = req\<lparr>request_method := Some s\<rparr>"

definition fragment_cb :: "string \<Rightarrow> ('p, 't) request \<Rightarrow> ('p, 't) request" where
  "fragment_cb s req = req\<lparr>fragment := Some s\<rparr>"

definition http_version_cb :: "string \<Rightarrow> ('p, 't) request \<Rightarrow> ('p, 't) request" where
  "http_version_cb s req = req\<lparr>version := Some s\<rparr>"

definition header_done_cb :: "('p, 't) request \<Rightarrow> ('p, 't) request" where
  "header_done_cb req =
     (let req1 = (case Request_get req HTTP_CONTENT_LENGTH of
                    None \<Rightarrow> req
                  | Some clen \<Rightarrow> req\<lparr>parser := (parser req)\<lparr>content_len := atoi clen\<rparr>\<rparr>);
          h = Request_get req1 HTTP_HOST;
          req2 = req1\<lparr>host := h\<rparr> in
      case h of
        None \<Rightarrow> req2
      | Some hst \<Rightarrow>
          (let colon = bstrchr hst (CHR '':'') in
           req2\<lparr>host_name := (if colon > 0 then bHead hst colon else Some hst)\<rparr>))"

definition uri_cb :: "string \<Rightarrow> ('p, 't) request \<Rightarrow> ('p, 't) request" where
  "uri_cb s req = req\<lparr>uri := Some s\<rparr>"

definition path_cb :: "string \<Rightarrow> ('p, 't) request \<Rightarrow> ('p, 't) request" where
  "path_cb s req = req\<lparr>path := Some s\<rparr>"

definition query_string_cb :: "string \<Rightarrow> ('p, 't) request \<Rightarrow> ('p, 't) request" where
  "query_string_cb s req = req\<lparr>query_string := Some s\<rparr>"

text \<open>Memory for the dictionary's nodes is taken to be there.\<close>

definition header_field_cb :: "string \<Rightarrow> string \<Rightarrow> ('p, 't) request \<Rightarrow> (('p, 't) request) cres" where
  "header_field_cb field val req =
     cbind (dict_alloc_insert True bstricmp (headers req) field val)
       (\<lambda>(_, d). Inr (req\<lparr>headers := d\<rparr>))"

fun run_parser_call :: "parser_call \<Rightarrow> ('p, 't) request \<Rightarrow> (('p, 't) request) cres" where
  "run_parser_call (On_method s) req = Inr (request_method_cb s req)"
| "run_parser_call (On_uri s) req = Inr (uri_cb s req)"
| "run_parser_call (On_fragment s) req = Inr (fragment_cb s req)"
| "run_parser_call (On_path s) req = Inr (path_cb s req)"
| "run_parser_call (On_query s) req = Inr (query_string_cb s req)"
| "run_parser_call (On_version s) req = Inr (http_version_cb s req)"
| "run_parser_call (On_field f v) req = header_field_cb f v req"
| "run_parser_call On_header_done req = Inr (header_done_cb req)"

fun run_parser_calls :: "parser_call list \<Rightarrow> ('p, 't) request \<Rightarrow> (('p, 't) request) cres" where
  "run_parser_calls [] req = Inr req"
| "run_parser_calls (c # cs) req = cbind (run_parser_call c req) (run_parser_calls cs)"

definition Request_create :: "bool \<Rightarrow> nat \<Rightarrow> 'p http_parser \<Rightarrow> (('p, 't) request) option" where
  "Request_create mem max_headers p =
     (if \<not> mem then None
      else Some \<lparr>request_method = None, version = None, uri = None, path = None, query_string = None,
             fragment = None, host = None, host_name = None, req_pattern = None, target_host = None,
             headers = dict_allow_dupes (dict_create max_headers), action = None, status_code = 0,
             response_size = 0, parser = p\<rparr>)"

definition Request_nuke_parts :: "('p, 't) request \<Rightarrow> ('p, 't) request" where
  "Request_nuke_parts req =
     req\<lparr>request_method := None, version := None, uri := None, path := None, query_string := None,
         fragment := None, host_name := None, status_code := 0, response_size := 0\<rparr>"

definition Request_start :: "'p parser_ops \<Rightarrow> ('p, 't) request \<Rightarrow> ('p, 't) request" where
  "Request_start ops req =
     (let req1 = Request_nuke_parts (req\<lparr>parser := http_parser_init ops (parser req)\<rparr>) in
      req1\<lparr>headers := snd (dict_free_nodes (headers req1))\<rparr>)"

definition Request_destroy :: "('p, 't) request \<Rightarrow> unit cres" where
  "Request_destroy req = dict_destroy (snd (dict_free_nodes (headers (Request_nuke_parts req))))"

text \<open>
  \<^verbatim>\<open>Request_parse\<close>: the parser runs over the whole buffer from where it stopped.  The callbacks see the
  request in the parser's order, so the length a header announces is set behind the run.
\<close>

definition Request_parse ::
    "'p parser_ops \<Rightarrow> ('p, 't) request \<Rightarrow> string \<Rightarrow> nat \<Rightarrow> (int \<times> nat \<times> ('p, 't) request) cres" where
  "Request_parse ops req buf nparsed =
     (let (calls, p, nparsed') = http_parser_execute ops (parser req) buf nparsed in
      cbind (run_parser_calls calls (req\<lparr>parser := p\<rparr>))
        (\<lambda>req'. Inr (http_parser_finish ops (parser req'), nparsed', req')))"

text \<open>\<^verbatim>\<open>strptime\<close> and \<^verbatim>\<open>mktime\<close> are a parameter: \<open>None\<close> when the date does not parse.\<close>

definition Request_get_date :: "(string \<Rightarrow> string \<Rightarrow> int option) \<Rightarrow> ('p, 't) request \<Rightarrow> bstring \<Rightarrow> string \<Rightarrow> int" where
  "Request_get_date to_time req field format =
     (case Request_get req field of
        Some val \<Rightarrow> (case to_time val format of None \<Rightarrow> 0 | Some t \<Rightarrow> to_int32 t)
      | None \<Rightarrow> 0)"

section \<open>The handler message\<close>

text \<open>What \<^verbatim>\<open>%s\<close> prints for \<^verbatim>\<open>bdata(b)\<close>: up to a \<^verbatim>\<open>'\0'\<close>, and the C library's text for \<^verbatim>\<open>NULL\<close>.\<close>

definition fmt_s :: "bstring option \<Rightarrow> string" where
  "fmt_s b = (case b of None \<Rightarrow> ''(null)'' | Some s \<Rightarrow> takeWhile (\<lambda>c. c \<noteq> NUL) s)"

abbreviation QUOTE :: char where "QUOTE \<equiv> CHR 0x22"

abbreviation BSLASH :: char where "BSLASH \<equiv> CHR 0x5C"

text \<open>The \<^verbatim>\<open>B\<close> macro.\<close>

definition B :: "bstring \<Rightarrow> bstring option \<Rightarrow> string" where
  "B k v = (case v of None \<Rightarrow> []
     | Some _ \<Rightarrow> '','' @ [QUOTE] @ fmt_s (Some k) @ [QUOTE] @ '':'' @ [QUOTE] @ fmt_s v @ [QUOTE])"

text \<open>\<^verbatim>\<open>bfindreplace\<close> for a pattern of one character: every occurrence, left to right.\<close>

definition replace_char :: "char \<Rightarrow> string \<Rightarrow> string \<Rightarrow> string" where
  "replace_char c rep s = concat (map (\<lambda>x. if x = c then rep else [x]) s)"

definition escape_value :: "bstring \<Rightarrow> bstring" where
  "escape_value v = replace_char QUOTE [BSLASH, QUOTE] (replace_char BSLASH [BSLASH, BSLASH] v)"

definition header_pairs :: "(bstring, bstring) dict \<Rightarrow> (bstring \<times> bstring) list" where
  "header_pairs d = walk_keys (verify_node_count (root d)) (dict_first d)"

definition payload_headers :: "('p, 't) request \<Rightarrow> string" where
  "payload_headers req =
     ''{'' @ [QUOTE] @ fmt_s (Some HTTP_PATH) @ [QUOTE] @ '':'' @ [QUOTE] @ fmt_s (path req) @ [QUOTE] @
     (if Request_is_json req then B HTTP_METHOD (Some JSON_METHOD) else B HTTP_METHOD (request_method req)) @
     B HTTP_VERSION (version req) @ B HTTP_URI (uri req) @ B HTTP_QUERY (query_string req) @
     B HTTP_FRAGMENT (fragment req) @ B HTTP_PATTERN (req_pattern req) @
     concat (map (\<lambda>(k, v). B k (Some (escape_value v))) (header_pairs (headers req))) @ ''}''"

text \<open>
  The body is \<^verbatim>\<open>len\<close> bytes from \<^verbatim>\<open>buf\<close> on.  \<^verbatim>\<open>bcatblk\<close> refuses a negative length, so nothing is
  appended then, while \<^verbatim>\<open>%d\<close> prints the negative number.
\<close>

definition Request_to_payload ::
    "register \<Rightarrow> ('p, 't) request \<Rightarrow> bstring option \<Rightarrow> int \<Rightarrow> string \<Rightarrow> int \<Rightarrow> (bstring option) cres" where
  "Request_to_payload reg req ident fd buf len =
     cbind (Register_id_for_fd reg fd)
       (\<lambda>i. if i = -1 then Inr None
            else if len > int (length buf) then Inl Out_of_bounds
            else Inr (Some
              (fmt_s ident @ '' '' @ int_digits i @ '' '' @ fmt_s (path req) @ '' '' @
               int_digits (int (length (payload_headers req))) @ '':'' @ fmt_s (Some (payload_headers req)) @ '','' @
               int_digits len @ '':'' @ take (nat len) buf @ '','')))"

section \<open>Reading the message back\<close>

text \<open>
  The handler's side of the protocol: the sender, the connection and the path up to their spaces,
  then the headers and the body as netstrings.
\<close>

definition read_netstring :: "string \<Rightarrow> (string \<times> string) option" where
  "read_netstring s =
     (let ds = takeWhile isdigit s; r = drop (length ds) s; n = nat (digits_val ds) in
      if ds \<noteq> [] \<and> cstr_hd r = CHR '':'' \<and> n < length (tl r) \<and> tl r ! n = CHR '',''
      then Some (take n (tl r), drop (Suc n) (tl r)) else None)"

definition read_word :: "string \<Rightarrow> string \<times> string" where
  "read_word s = (takeWhile (\<lambda>c. c \<noteq> CHR '' '') s, tl (dropWhile (\<lambda>c. c \<noteq> CHR '' '') s))"

definition read_payload :: "string \<Rightarrow> (string \<times> string \<times> string \<times> string \<times> string) option" where
  "read_payload s =
     (let (sender, s1) = read_word s; (conn, s2) = read_word s1; (pth, s3) = read_word s2 in
      Option.bind (read_netstring s3) (\<lambda>(hdrs, s4).
        Option.bind (read_netstring s4) (\<lambda>(body, s5).
          if s5 = [] then Some (sender, conn, pth, hdrs, body) else None)))"

lemma digit_char: "n < 10 \<Longrightarrow> isdigit (char_of (48 + n)) \<and> digit_val (char_of (48 + n)) = int n"
proof -
  assume n: "n < 10"
  have "(of_char (char_of (48 + n) :: char) :: int) = int (of_char (char_of (48 + n) :: char))"
    by (metis of_nat_of_char)
  then show ?thesis using n by (simp add: isdigit_def digit_val_def)
qed

lemma nat_digits_props:
  "nat_digits n \<noteq> [] \<and> (\<forall>c\<in>set (nat_digits n). isdigit c) \<and>
   foldl (\<lambda>acc c. 10 * acc + digit_val c) 0 (nat_digits n) = int n"
proof (induction n rule: nat_digits.induct)
  case (1 n)
  show ?case
  proof (cases "n < 10")
    case True
    then show ?thesis using digit_char [of n] by (simp add: nat_digits.simps [of n])
  next
    case False
    then show ?thesis using 1 [OF False] digit_char [of "n mod 10"]
      by (simp add: nat_digits.simps [of n]) presburger
  qed
qed

lemma takeWhile_digits:
  "(\<forall>c\<in>set xs. isdigit c) \<Longrightarrow> \<not> isdigit c \<Longrightarrow> takeWhile isdigit (xs @ c # ys) = xs"
  by (induction xs) auto

lemma read_netstring_written:
  "read_netstring (int_digits (int (length b)) @ '':'' @ b @ '','' @ rest) = Some (b, rest)"
proof -
  let ?ds = "nat_digits (length b)"
  note d = nat_digits_props [of "length b"]
  have colon: "\<not> isdigit (CHR '':'')" by (simp add: isdigit_def)
  have "takeWhile isdigit (?ds @ CHR '':'' # b @ CHR '','' # rest) = ?ds"
    using takeWhile_digits [OF _ colon, of ?ds] d by blast
  moreover have tw: "takeWhile isdigit ?ds = ?ds" using d unfolding takeWhile_eq_all_conv by blast
  have "digits_val ?ds = int (length b)" unfolding digits_val_def tw using d by blast
  ultimately show ?thesis using d by (simp add: read_netstring_def int_digits_def Let_def nth_append)
qed

lemma read_word_written: "CHR '' '' \<notin> set w \<Longrightarrow> read_word (w @ '' '' @ s) = (w, s)"
  by (induction w) (auto simp: read_word_def)

lemma int_digits_no_space: "0 \<le> i \<Longrightarrow> CHR '' '' \<notin> set (int_digits i)"
  using nat_digits_props [of "nat i"] by (auto simp: int_digits_def isdigit_def)

lemma fmt_s_plain: "NUL \<notin> set s \<Longrightarrow> fmt_s (Some s) = s"
  by (auto simp: fmt_s_def takeWhile_eq_all_conv)

text \<open>Undoing the escapes of a header value.\<close>

fun unescape :: "string \<Rightarrow> string" where
  "unescape [] = []"
| "unescape [c] = [c]"
| "unescape (c # d # s) = (if c = BSLASH then d # unescape s else c # unescape (d # s))"

fun closes_early :: "string \<Rightarrow> bool" where
  "closes_early [] = False"
| "closes_early [c] = (c = QUOTE \<or> c = BSLASH)"
| "closes_early (c # d # s) = (if c = BSLASH then closes_early s else c = QUOTE \<or> closes_early (d # s))"

lemma escape_Cons:
  "escape_value (c # v) =
     (if c = BSLASH then BSLASH # BSLASH # escape_value v
      else if c = QUOTE then BSLASH # QUOTE # escape_value v else c # escape_value v)"
  by (simp add: escape_value_def replace_char_def)

lemma unescape_plain: "c \<noteq> BSLASH \<Longrightarrow> unescape (c # s) = c # unescape s"
  by (cases s) auto

lemma closes_plain: "c \<noteq> BSLASH \<Longrightarrow> c \<noteq> QUOTE \<Longrightarrow> closes_early (c # s) = closes_early s"
  by (cases s) auto

text \<open>A run of header callbacks.\<close>

abbreviation field_calls :: "(string \<times> string) list \<Rightarrow> parser_call list" where
  "field_calls fs \<equiv> map (\<lambda>(f, v). On_field f v) fs"

definition headers_ok :: "('p, 't) request \<Rightarrow> bool" where
  "headers_ok req \<longleftrightarrow> dict_verify bstricmp (headers req) \<and> dupes (headers req) \<and>
     nodecount (headers req) \<le> maxcount (headers req)"

lemma field_call:
  assumes "headers_ok req" "nodecount (headers req) \<noteq> maxcount (headers req)"
  shows "\<exists>req'. run_parser_call (On_field f v) req = Inr req' \<and> headers_ok req' \<and>
    nodecount (headers req') = Suc (nodecount (headers req)) \<and> maxcount (headers req') = maxcount (headers req) \<and>
    (\<forall>k. Request_get req' k =
       (if bstricmp k f = 0 \<and> Request_get req k = None then Some v else Request_get req k))"
proof -
  from header_insert [of "headers req" f v] assms obtain d' where d': "dict_insert bstricmp (headers req) f v = Inr d'"
    "dict_verify bstricmp d'" "nodecount d' = Suc (nodecount (headers req))" "maxcount d' = maxcount (headers req)"
    "dupes d'" "\<forall>k. dict_lookup bstricmp d' k =
       (if bstricmp k f = 0 \<and> dict_lookup bstricmp (headers req) k = None then Some (f, v)
        else dict_lookup bstricmp (headers req) k)"
    by (auto simp: headers_ok_def)
  then show ?thesis using assms
    by (intro exI [of _ "req\<lparr>headers := d'\<rparr>"])
      (auto simp: header_field_cb_def dict_alloc_insert_def headers_ok_def Request_get_def)
qed

lemma field_call_full:
  "nodecount (headers req) = maxcount (headers req) \<Longrightarrow> run_parser_call (On_field f v) req = Inl Assert_fail"
  by (simp add: header_field_cb_def dict_alloc_insert_def dict_insert_def)

section \<open>Properties\<close>

text \<open>
  C37: the message for a handler can be read back: for a sender and a path without spaces and
  zero bytes, and headers without zero bytes, splitting at the spaces and the netstring
  lengths gives back exactly the sender, the connection's identity, the path, the header object
  and the body, whatever bytes the body holds.
\<close>

theorem Request_payload_roundtrip:
  assumes "Request_to_payload reg req (Some ident) fd buf len = Inr (Some msg)" "path req = Some pth" "0 \<le> len"
    "CHR '' '' \<notin> set ident" "NUL \<notin> set ident" "CHR '' '' \<notin> set pth" "NUL \<notin> set pth"
    "NUL \<notin> set (payload_headers req)"
  shows "\<exists>i. Register_id_for_fd reg fd = Inr i \<and>
    read_payload msg = Some (ident, int_digits i, pth, payload_headers req, take (nat len) buf)"
proof -
  let ?body = "take (nat len) buf"
  obtain i where i: "Register_id_for_fd reg fd = Inr i" and l: "len = int (length ?body)"
    and msg: "msg = ident @ '' '' @ int_digits i @ '' '' @ pth @ '' '' @
      int_digits (int (length (payload_headers req))) @ '':'' @ payload_headers req @ '','' @
      int_digits len @ '':'' @ ?body @ '',''"
    using assms by (auto simp: Request_to_payload_def fmt_s_plain split: if_splits)
  have "0 \<le> i" using i by (auto simp: Register_id_for_fd_def split: if_splits)
  then have "read_payload msg = Some (ident, int_digits i, pth, payload_headers req, ?body)"
    unfolding msg read_payload_def
    using assms(4,6) int_digits_no_space read_netstring_written [of ?body "[]", folded l]
      read_netstring_written [of "payload_headers req" "int_digits len @ '':'' @ ?body @ '',''"]
    by (simp add: read_word_written [simplified])
  with i show ?thesis by blast
qed

definition sample_request :: "(unit, nat) request" where
  "sample_request = (the (Request_create True 4
      \<lparr>json_sent = 0, socket_started = 0, content_len = 0, body_start = 0, machine = ()\<rparr>))
    \<lparr>path := Some ''/a'', request_method := Some ''POST''\<rparr>"

lemma sample_payload_headers:
  "payload_headers sample_request =
     ''{'' @ [QUOTE] @ ''PATH'' @ [QUOTE] @ '':'' @ [QUOTE] @ ''/a'' @ [QUOTE] @ B ''METHOD'' (Some ''POST'') @ ''}''"
  by (simp add: payload_headers_def sample_request_def Request_create_def B_def fmt_s_def HTTP_PATH_def
      HTTP_METHOD_def header_pairs_def dict_create_def dict_allow_dupes_def)

lemma Request_payload_roundtrip_witness:
  "\<exists>msg. Request_to_payload empty_register sample_request (Some ''test'') 5 ''a,b'' 3 = Inr (Some msg) \<and>
     (\<exists>i. Register_id_for_fd empty_register 5 = Inr i \<and>
       read_payload msg = Some (''test'', int_digits i, ''/a'', payload_headers sample_request, take (nat 3) ''a,b''))"
proof -
  obtain msg where msg: "Request_to_payload empty_register sample_request (Some ''test'') 5 ''a,b'' 3 = Inr (Some msg)"
    by (simp add: Request_to_payload_def Register_id_for_fd_def MAX_REGISTERED_FDS_def empty_register_def zero_registration_def)
  have "NUL \<notin> set (payload_headers sample_request)" by (simp add: sample_payload_headers B_def fmt_s_def)
  with msg Request_payload_roundtrip [OF msg, of "''/a''"] show ?thesis
    by (simp add: sample_request_def)
qed

text \<open>
  C38: the escapes of a header value can be undone, and an escaped value
  never ends the JSON string that it is put into.
\<close>

theorem header_value_escaped:
  "unescape (escape_value v) = v \<and> \<not> closes_early (escape_value v)"
  by (induction v) (auto simp: escape_Cons unescape_plain closes_plain, simp_all add: escape_value_def replace_char_def)

text \<open>
  The headers a request keeps: as long as the dictionary has room, every header callback is
  taken, and a lookup answers the first value given under a name that is
  the same but for case, behind what was there before; one header too many
  ends the process in an assertion.
\<close>

theorem Request_headers_first:
  assumes "headers_ok req"
  shows "case run_parser_calls (field_calls fs) req of
     Inr req' \<Rightarrow> nodecount (headers req) + length fs \<le> maxcount (headers req) \<and>
       (\<forall>k. Request_get req' k =
         (case Request_get req k of Some v \<Rightarrow> Some v
          | None \<Rightarrow> map_option snd (List.find (\<lambda>(f, _). bstricmp k f = 0) fs)))
   | Inl e \<Rightarrow> e = Assert_fail \<and> nodecount (headers req) + length fs > maxcount (headers req)"
  using assms
proof (induction fs arbitrary: req)
  case (Cons fv fs)
  obtain f v where fv: "fv = (f, v)" by (cases fv)
  show ?case
  proof (cases "nodecount (headers req) = maxcount (headers req)")
    case True
    then show ?thesis using field_call_full [of req f v] by (simp add: fv)
  next
    case False
    from field_call [OF Cons.prems False, of f v] obtain req1 where r: "run_parser_call (On_field f v) req = Inr req1"
      "headers_ok req1" "nodecount (headers req1) = Suc (nodecount (headers req))"
      "maxcount (headers req1) = maxcount (headers req)"
      "\<forall>k. Request_get req1 k = (if bstricmp k f = 0 \<and> Request_get req k = None then Some v else Request_get req k)"
      by blast
    from Cons.IH [OF r(2)] show ?thesis
      by (auto simp: fv r split: sum.splits option.splits simp del: run_parser_call.simps)
  qed
qed (simp add: headers_ok_def split: option.splits)

lemma Request_headers_first_witness:
  "case run_parser_calls (field_calls [(''Host'', ''a''), (''host'', ''b'')]) sample_request of
     Inr req' \<Rightarrow> nodecount (headers sample_request) + length [(''Host'', ''a''), (''host'', ''b'')] \<le> maxcount (headers sample_request) \<and>
       (\<forall>k. Request_get req' k =
         (case Request_get sample_request k of Some v \<Rightarrow> Some v
          | None \<Rightarrow> map_option snd (List.find (\<lambda>(f, _). bstricmp k f = 0) [(''Host'', ''a''), (''host'', ''b'')])))
   | Inl e \<Rightarrow> e = Assert_fail \<and>
       nodecount (headers sample_request) + length [(''Host'', ''a''), (''host'', ''b'')] > maxcount (headers sample_request)"
  by (rule Request_headers_first)
    (simp add: headers_ok_def sample_request_def Request_create_def dict_allow_dupes_def dict_create_def
      dict_verify_def verify_bintree_def dict_first_def)

end
