(* ===== verification/Response.thy ===== *)
theory Response
  imports Prelude
begin

text \<open>
  The canned responses of \<^verbatim>\<open>src/response.c\<close>, as the bytes that go out; the operations that
  send them work on a connection and are with it.
\<close>

section \<open>Responses\<close>

abbreviation CRLF :: string where "CRLF \<equiv> [CHR 0x0D, CHR 0x0A]"

definition VERSION :: string where "VERSION = ''Mongrel2/1.2-d5224c71cb''"

definition HTTP_400 :: bstring where
  "HTTP_400 = ''HTTP/1.1 400 Bad Request'' @ CRLF @ ''Content-Type: text/plain'' @ CRLF @
     ''Connection: close'' @ CRLF @ ''Content-Length: 11'' @ CRLF @ ''Server: '' @ VERSION @ CRLF @ CRLF @
     ''Bad Request''"

definition HTTP_404 :: bstring where
  "HTTP_404 = ''HTTP/1.1 404 Not Found'' @ CRLF @ ''Content-Type: text/plain'' @ CRLF @
     ''Connection: close'' @ CRLF @ ''Content-Length: 9'' @ CRLF @ ''Server: '' @ VERSION @ CRLF @ CRLF @
     ''Not Found''"

definition HTTP_413 :: bstring where
  "HTTP_413 = ''HTTP/1.1 413 Request Entity Too Large'' @ CRLF @ ''Content-Type: text/plain'' @ CRLF @
     ''Connection: close'' @ CRLF @ ''Content-Length: 16'' @ CRLF @ ''Server: '' @ VERSION @ CRLF @ CRLF @
     ''Entity Too Large''"

definition HTTP_501 :: bstring where
  "HTTP_501 = ''HTTP/1.1 501 Not Implemented'' @ CRLF @ ''Content-Type: text/plain'' @ CRLF @
     ''Connection: close'' @ CRLF @ ''Content-Length: 15'' @ CRLF @ ''Server: '' @ VERSION @ CRLF @ CRLF @
     ''Not Implemented''"

definition HTTP_502 :: bstring where
  "HTTP_502 = ''HTTP/1.1 502 Bad Gateway'' @ CRLF @ ''Content-Type: text/plain'' @ CRLF @
     ''Connection: close'' @ CRLF @ ''Content-Length: 11'' @ CRLF @ ''Server: '' @ VERSION @ CRLF @ CRLF @
     ''Bad Gateway''"

definition HTTP_500 :: bstring where
  "HTTP_500 = ''HTTP/1.1 500 Internal Server Error'' @ CRLF @ ''Content-Type: text/plain'' @ CRLF @
     ''Connection: close'' @ CRLF @ ''Content-Length: 21'' @ CRLF @ ''Server: '' @ VERSION @ CRLF @ CRLF @
     ''Internal Server Error''"

definition HTTP_405 :: bstring where
  "HTTP_405 = ''HTTP/1.1 405 Method Not Allowed'' @ CRLF @ ''Content-Type: text/plain'' @ CRLF @
     ''Connection: close'' @ CRLF @ ''Content-Length: 18'' @ CRLF @ ''Server: '' @ VERSION @ CRLF @ CRLF @
     ''Method Not Allowed''"

definition HTTP_412 :: bstring where
  "HTTP_412 = ''HTTP/1.1 412 Precondition Failed'' @ CRLF @ ''Content-Type: text/plain'' @ CRLF @
     ''Connection: close'' @ CRLF @ ''Content-Length: 19'' @ CRLF @ ''Server: '' @ VERSION @ CRLF @ CRLF @
     ''Precondition Failed''"

definition HTTP_304 :: bstring where
  "HTTP_304 = ''HTTP/1.1 304 Not Modified'' @ CRLF @ ''Content-Type: text/plain'' @ CRLF @
     ''Connection: close'' @ CRLF @ ''Content-Length: 0'' @ CRLF @ ''Server: '' @ VERSION @ CRLF @ CRLF"

abbreviation DQ :: string where "DQ \<equiv> [CHR 0x22]"

definition FLASH_RESPONSE :: bstring where
  "FLASH_RESPONSE = ''<?xml version='' @ DQ @ ''1.0'' @ DQ @ ''?>'' @
     ''<!DOCTYPE cross-domain-policy SYSTEM '' @ DQ @
     ''http://www.macromedia.com/xml/dtds/cross-domain-policy.dtd'' @ DQ @ ''>'' @
     ''<cross-domain-policy> <allow-access-from domain='' @ DQ @ ''*'' @ DQ @ '' to-ports='' @ DQ @ ''*'' @ DQ @
     '' /></cross-domain-policy>''"

section \<open>Reading a response\<close>

text \<open>A client's view: lines up to \<^verbatim>\<open>CRLF\<close>, headers up to an empty line, the rest is the body.\<close>

fun read_line :: "string \<Rightarrow> (string \<times> string) option" where
  "read_line (a # b # s) =
     (if a = CHR 0x0D \<and> b = CHR 0x0A then Some ([], s)
      else map_option (\<lambda>(l, r). (a # l, r)) (read_line (b # s)))"
| "read_line _ = None"

fun read_headers :: "nat \<Rightarrow> string \<Rightarrow> (string list \<times> string) option" where
  "read_headers 0 s = None"
| "read_headers (Suc n) s =
     (case read_line s of
        None \<Rightarrow> None
      | Some (l, r) \<Rightarrow> if l = [] then Some ([], r) else map_option (\<lambda>(ls, b). (l # ls, b)) (read_headers n r))"

definition header_value :: "string \<Rightarrow> string list \<Rightarrow> string option" where
  "header_value name ls =
     map_option (drop (length name + 2)) (List.find (\<lambda>l. take (length name + 2) l = name @ '': '') ls)"

text \<open>A complete response: a status line with the code, and a body of the announced length.\<close>

definition complete_response :: "string \<Rightarrow> string \<Rightarrow> bool" where
  "complete_response cd resp \<longleftrightarrow>
     (case read_headers 16 resp of
        Some (status # hdrs, body) \<Rightarrow>
          take (length (''HTTP/1.1 '' @ cd)) status = ''HTTP/1.1 '' @ cd \<and>
          (case header_value ''Content-Length'' hdrs of
             Some v \<Rightarrow> v \<noteq> [] \<and> (\<forall>c\<in>set v. isdigit c) \<and> atoi v = int (length body)
           | None \<Rightarrow> False)
      | _ \<Rightarrow> False)"

definition status_responses :: "(string \<times> bstring) list" where
  "status_responses =
     [(''304'', HTTP_304), (''400'', HTTP_400), (''404'', HTTP_404), (''405'', HTTP_405), (''412'', HTTP_412),
      (''413'', HTTP_413), (''500'', HTTP_500), (''501'', HTTP_501), (''502'', HTTP_502)]"

section \<open>Properties\<close>

text \<open>
  every canned response is a complete HTTP response: its status line carries the code it
  is named by, the headers end in an empty line, and \<^verbatim>\<open>Content-Length\<close> is the length of the body, so a client
  that keeps the connection reads neither short nor into the next response.
\<close>

theorem status_responses_complete:
  "list_all (\<lambda>(cd, resp). complete_response cd resp) status_responses"
  by code_simp

end
