(* ===== verification/Dir.thy ===== *)
theory Dir
  imports Request Cache Response
begin

text \<open>
  The part of \<^verbatim>\<open>src/dir.c\<close> that finds files: file records with their user counts, the
  record cache, path resolution below the base directory, and the conditional
  request logic.  The file system and \<^verbatim>\<open>strftime\<close> are parameters; the clock is an argument, and one
  operation sees one instant of it.
\<close>

section \<open>File records\<close>

record stat_buf =
  st_isdir :: bool
  st_mtime :: int
  st_size :: int

record FileRecord =
  is_dir :: int
  fr_fd :: int
  users :: int
  loaded :: int
  fr_date :: "bstring option"
  last_mod :: "bstring option"
  content_type :: "bstring option"
  fr_header :: "bstring option"
  request_path :: "bstring option"
  full_path :: "bstring option"
  etag :: "bstring option"
  sb :: stat_buf

text \<open>Records live at addresses; a freed address holds nothing.  \<open>closed\<close> keeps what \<^verbatim>\<open>fdclose\<close> got.\<close>

record files =
  frecs :: "nat \<rightharpoonup> FileRecord"
  next_fr :: nat
  closed :: "int list"

record dir =
  fr_cache :: "nat cache option"
  base :: bstring
  normalized_base :: "bstring option"
  index_file :: bstring
  default_ctype :: bstring

record dir_limits =
  MAX_SEND_BUFFER :: int
  MAX_DIR_PATH :: int

record file_ops =
  stat_of :: "string \<Rightarrow> stat_buf option"
  open_file :: "string \<Rightarrow> int"
  realpath :: "string \<Rightarrow> string option"
  bStrfTime :: "int \<Rightarrow> bstring option"

definition cstr :: "string \<Rightarrow> string" where
  "cstr s = takeWhile (\<lambda>c. c \<noteq> NUL) s"

definition bchar :: "bstring option \<Rightarrow> int \<Rightarrow> char" where
  "bchar b p = (case b of None \<Rightarrow> NUL | Some s \<Rightarrow> if 0 \<le> p \<and> p < int (length s) then s ! nat p else NUL)"

definition ETAG_PATTERN :: bstring where
  "ETAG_PATTERN = ''[a-e0-9]+-[a-e0-9]+''"

definition RFC_822_TIME :: string where
  "RFC_822_TIME = ''%a, %d %b %Y %H:%M:%S GMT''"

text \<open>\<^verbatim>\<open>%x\<close> and \<^verbatim>\<open>%d\<close> take 32 bits of the 64 that \<^verbatim>\<open>time_t\<close> and \<^verbatim>\<open>off_t\<close> hold.\<close>

definition hex_char :: "nat \<Rightarrow> char" where
  "hex_char n = char_of (if n < 10 then 48 + n else 87 + n)"

fun hex_digits :: "nat \<Rightarrow> string" where
  "hex_digits n = (if n < 16 then [hex_char n] else hex_digits (n div 16) @ [hex_char (n mod 16)])"

declare hex_digits.simps [simp del]

definition etag_of :: "stat_buf \<Rightarrow> bstring" where
  "etag_of st = hex_digits (nat (st_mtime st mod 2 ^ 32)) @ ''-'' @ hex_digits (nat (st_size st mod 2 ^ 32))"

definition RESPONSE_FORMAT :: "bstring option \<Rightarrow> bstring option \<Rightarrow> int \<Rightarrow> bstring option \<Rightarrow> bstring option \<Rightarrow> bstring" where
  "RESPONSE_FORMAT dat ctype len modi tg =
     ''HTTP/1.1 200 OK'' @ CRLF @ ''Date: '' @ fmt_s dat @ CRLF @ ''Content-Type: '' @ fmt_s ctype @ CRLF @
     ''Content-Length: '' @ int_digits (to_int32 len) @ CRLF @ ''Last-Modified: '' @ fmt_s modi @ CRLF @
     ''ETag: '' @ fmt_s tg @ CRLF @ ''Server: '' @ VERSION @ CRLF @ CRLF"

definition DIR_REDIRECT_FORMAT :: "bstring option \<Rightarrow> bstring option \<Rightarrow> bstring" where
  "DIR_REDIRECT_FORMAT hst ur =
     ''HTTP/1.1 301 Moved Permanently'' @ CRLF @ ''Location: http://'' @ fmt_s hst @ fmt_s ur @ ''/'' @ CRLF @
     ''Content-Length: 0'' @ CRLF @ ''Server: '' @ VERSION @ CRLF @ CRLF"

definition fr_zero :: FileRecord where
  "fr_zero = \<lparr>is_dir = 0, fr_fd = 0, users = 0, loaded = 0, fr_date = None, last_mod = None, content_type = None,
     fr_header = None, request_path = None, full_path = None, etag = None,
     sb = \<lparr>st_isdir = False, st_mtime = 0, st_size = 0\<rparr>\<rparr>"

text \<open>\<^verbatim>\<open>FileRecord_destroy\<close>: the descriptors it closes.\<close>

definition FileRecord_destroy :: "FileRecord \<Rightarrow> int list" where
  "FileRecord_destroy fr = (if is_dir fr = 0 then [fr_fd fr] else [])"

definition Dir_find_file ::
    "bool \<Rightarrow> file_ops \<Rightarrow> mime_state \<Rightarrow> int \<Rightarrow> bstring \<Rightarrow> bstring \<Rightarrow> FileRecord option \<times> int list" where
  "Dir_find_file mem fops mime now pth default_type =
     (if \<not> mem then (None, [])
      else
        (let fr = fr_zero\<lparr>users := 1\<rparr> in
         case stat_of fops (cstr pth) of
           None \<Rightarrow> (None, FileRecord_destroy fr)
         | Some st \<Rightarrow>
             (let fr = fr\<lparr>sb := st\<rparr> in
              if st_isdir st then (Some (fr\<lparr>full_path := Some pth, is_dir := 1\<rparr>), [])
              else
                (let fr = fr\<lparr>fr_fd := open_file fops (cstr pth)\<rparr> in
                 if \<not> fr_fd fr \<ge> 0 then (None, FileRecord_destroy fr)
                 else
                   (let fr = fr\<lparr>loaded := now, last_mod := bStrfTime fops (st_mtime st)\<rparr> in
                    if last_mod fr = None then (None, FileRecord_destroy fr)
                    else
                      (let fr = fr\<lparr>content_type := MIME_match_ext mime pth (Some default_type)\<rparr> in
                       if content_type fr = None then (None, FileRecord_destroy fr)
                       else
                         (let fr = fr\<lparr>full_path := Some pth, fr_date := bStrfTime fops now, etag := Some (etag_of st)\<rparr> in
                          (Some (fr\<lparr>fr_header := Some (RESPONSE_FORMAT (fr_date fr) (content_type fr) (st_size st)
                                                   (last_mod fr) (etag fr))\<rparr>), []))))))))"

text \<open>\<^verbatim>\<open>FileRecord_release\<close>, with the read of a freed record as a fault.\<close>

definition FileRecord_release :: "nat option \<Rightarrow> files \<Rightarrow> files cres" where
  "FileRecord_release a fs =
     (case a of
        None \<Rightarrow> Inr fs
      | Some a \<Rightarrow>
          (case frecs fs a of
             None \<Rightarrow> Inl Out_of_bounds
           | Some fr \<Rightarrow>
               (let fr = fr\<lparr>users := users fr - 1\<rparr> in
                if \<not> users fr \<ge> 0 then Inr (fs\<lparr>frecs := (frecs fs)(a \<mapsto> fr)\<rparr>)
                else if users fr \<le> 0
                then Inr (fs\<lparr>frecs := (frecs fs)(a := None), closed := closed fs @ FileRecord_destroy fr\<rparr>)
                else Inr (fs\<lparr>frecs := (frecs fs)(a \<mapsto> fr)\<rparr>))))"

fun filerecord_cache_evict :: "nat list \<Rightarrow> files \<Rightarrow> files cres" where
  "filerecord_cache_evict [] fs = Inr fs"
| "filerecord_cache_evict (a # as) fs = cbind (FileRecord_release (Some a) fs) (filerecord_cache_evict as)"

definition filerecord_cache_lookup :: "files \<Rightarrow> nat \<Rightarrow> bstring \<Rightarrow> bool" where
  "filerecord_cache_lookup fs a key =
     (case frecs fs a of None \<Rightarrow> False | Some fr \<Rightarrow> bstrcmp (request_path fr) (Some key) = 0)"

section \<open>Directories\<close>

abbreviation (input) FR_CACHE_SIZE :: int where "FR_CACHE_SIZE \<equiv> 32"
abbreviation (input) FR_CACHE_TIME_TO_LIVE :: int where "FR_CACHE_TIME_TO_LIVE \<equiv> 10"

definition Dir_create ::
    "settings \<Rightarrow> bool \<Rightarrow> bool \<Rightarrow> dir_limits \<Rightarrow> string \<Rightarrow> string \<Rightarrow> string \<Rightarrow> dir option \<times> dir_limits" where
  "Dir_create sets mem1 mem2 lim bas index ctype =
     (if \<not> mem1 then (None, lim)
      else
        (let lim = (if MAX_SEND_BUFFER lim = 0 \<or> MAX_DIR_PATH lim = 0
                    then \<lparr>MAX_SEND_BUFFER = Setting_get_int sets ''limits.dir_send_buffer'' (16 * 1024),
                          MAX_DIR_PATH = Setting_get_int sets ''limits.dir_max_path'' 256\<rparr>
                    else lim) in
         if \<not> int (length bas) < MAX_DIR_PATH lim then (None, lim)
         else if bchar (Some bas) 0 = CHR ''/'' then (None, lim)
         else if bchar (Some bas) (int (length bas) - 1) \<noteq> CHR ''/'' then (None, lim)
         else case Cache_create mem2 FR_CACHE_SIZE True True of
           None \<Rightarrow> (None, lim)
         | Some ca \<Rightarrow> (Some \<lparr>fr_cache = Some ca, base = bas, normalized_base = None, index_file = index,
                           default_ctype = ctype\<rparr>, lim)))"

definition Dir_destroy :: "dir option \<Rightarrow> files \<Rightarrow> files cres" where
  "Dir_destroy d fs =
     (case d of None \<Rightarrow> Inr fs
      | Some d \<Rightarrow> (case fr_cache d of None \<Rightarrow> Inr fs | Some ca \<Rightarrow> filerecord_cache_evict (Cache_destroy (Some ca)) fs))"

definition normalize_path :: "file_ops \<Rightarrow> bstring \<Rightarrow> int \<times> bstring" where
  "normalize_path fops tgt =
     (case realpath fops (cstr tgt) of Some normalized \<Rightarrow> (0, normalized) | None \<Rightarrow> (1, tgt))"

definition Dir_lazy_normalize_base :: "file_ops \<Rightarrow> dir \<Rightarrow> int \<times> dir" where
  "Dir_lazy_normalize_base fops d =
     (case normalized_base d of
        Some _ \<Rightarrow> (0, d)
      | None \<Rightarrow>
          (let (rc, nb) = normalize_path fops (base d); d = d\<lparr>normalized_base := Some nb\<rparr> in
           if rc = 0 then (0, d) else (-1, d)))"

text \<open>A cache that holds a freed record is read out of bounds.\<close>

definition cached :: "dir \<Rightarrow> nat list" where
  "cached d = (case fr_cache d of None \<Rightarrow> [] | Some ca \<Rightarrow> List.map_filter cdata (live_slots ca))"

definition stat_bdata :: "file_ops \<Rightarrow> bstring option \<Rightarrow> stat_buf option" where
  "stat_bdata fops p = (case p of None \<Rightarrow> None | Some s \<Rightarrow> stat_of fops (cstr s))"

definition FileRecord_cache_check ::
    "file_ops \<Rightarrow> int \<Rightarrow> dir \<Rightarrow> bstring \<Rightarrow> files \<Rightarrow> (nat option \<times> dir \<times> files) cres" where
  "FileRecord_cache_check fops now d pth fs =
     (if \<exists>a\<in>set (cached d). frecs fs a = None then Inl Out_of_bounds
      else
        (let (file, ca) = Cache_lookup (filerecord_cache_lookup fs) (fr_cache d) pth; d = d\<lparr>fr_cache := ca\<rparr> in
         case file of
           None \<Rightarrow> Inr (None, d, fs)
         | Some a \<Rightarrow>
             (let fr = the (frecs fs a) in
              if now - loaded fr > FR_CACHE_TIME_TO_LIVE then
                (if (case stat_bdata fops (full_path fr) of
                       None \<Rightarrow> True
                     | Some st \<Rightarrow> st_mtime (sb fr) \<noteq> st_mtime st \<or> st_size (sb fr) \<noteq> st_size st)
                 then (let (ev, ca) = Cache_evict_object (fr_cache d) (Some a) in
                       cbind (filerecord_cache_evict ev fs) (\<lambda>fs. Inr (None, d\<lparr>fr_cache := ca\<rparr>, fs)))
                 else Inr (Some a, d, fs\<lparr>frecs := (frecs fs)(a \<mapsto> fr\<lparr>loaded := now\<rparr>)\<rparr>))
              else Inr (Some a, d, fs))))"

text \<open>The path below the base: \<^verbatim>\<open>path->data + blength(prefix) - 1\<close> must lie inside the path.\<close>

definition path_tail :: "bstring \<Rightarrow> bstring \<Rightarrow> string cres" where
  "path_tail prefix pth =
     (if length prefix > length pth + 1 then Inl Out_of_bounds else Inr (cstr (drop (length prefix - 1) pth)))"

definition Dir_target :: "dir \<Rightarrow> bstring \<Rightarrow> bstring \<Rightarrow> bstring cres" where
  "Dir_target d prefix pth =
     (if bchar (Some pth) (int (length pth) - 1) = CHR ''/''
      then cbind (path_tail prefix pth) (\<lambda>t. Inr (fmt_s (normalized_base d) @ t @ cstr (index_file d)))
      else if biseq (Some prefix) (Some pth) \<noteq> 0
      then Inr (fmt_s (normalized_base d) @ cstr pth)
      else cbind (path_tail prefix pth) (\<lambda>t. Inr (fmt_s (normalized_base d) @ t)))"

definition Dir_add_record :: "dir \<Rightarrow> bstring \<Rightarrow> FileRecord \<Rightarrow> files \<Rightarrow> (nat option \<times> dir \<times> files) cres" where
  "Dir_add_record d pth fr fs =
     (let a = next_fr fs;
          fs = fs\<lparr>frecs := (frecs fs)(a \<mapsto> fr\<lparr>users := users fr + 1, request_path := Some pth\<rparr>), next_fr := Suc a\<rparr>;
          (ev, ca) = Cache_add (fr_cache d) (Some a) in
      cbind (filerecord_cache_evict ev fs) (\<lambda>fs. Inr (Some a, d\<lparr>fr_cache := ca\<rparr>, fs)))"

definition Dir_resolve_file ::
    "bool \<Rightarrow> file_ops \<Rightarrow> dir_limits \<Rightarrow> mime_state \<Rightarrow> int \<Rightarrow> dir \<Rightarrow> bstring option \<Rightarrow> bstring \<Rightarrow> files \<Rightarrow>
     (nat option \<times> dir \<times> files) cres" where
  "Dir_resolve_file mem fops lim mime now d pat pth fs =
     (let (rc, d) = Dir_lazy_normalize_base fops d in
      if rc \<noteq> 0 then Inr (None, d, fs)
      else cbind (FileRecord_cache_check fops now d pth fs) (\<lambda>(file, d, fs).
        case file of
          Some a \<Rightarrow> Inr (Some a, d, fs\<lparr>frecs := (frecs fs)(a := map_option (\<lambda>fr. fr\<lparr>users := users fr + 1\<rparr>) (frecs fs a))\<rparr>)
        | None \<Rightarrow>
            (let prefix = (case pat of None \<Rightarrow> None
                           | Some p \<Rightarrow> if bstrchr p (CHR ''('') > 0 then bHead p (bstrchr p (CHR ''('')) else Some p) in
             if bchar prefix 0 \<noteq> CHR ''/'' then Inr (None, d, fs)
             else if \<not> int (length (the prefix)) < MAX_DIR_PATH lim then Inr (None, d, fs)
             else cbind (Dir_target d (the prefix) pth) (\<lambda>tgt.
               let (rc, tgt) = normalize_path fops tgt; nb = normalized_base d in
               if rc \<noteq> 0 then Inr (None, d, fs)
               else if bstrncmp (Some tgt) nb (case nb of None \<Rightarrow> 0 | Some b \<Rightarrow> int (length b)) \<noteq> 0
               then Inr (None, d, fs)
               else case Dir_find_file mem fops mime now tgt (default_ctype d) of
                 (None, cl) \<Rightarrow> Inr (None, d, fs\<lparr>closed := closed fs @ cl\<rparr>)
               | (Some fr, cl) \<Rightarrow> Dir_add_record d pth fr fs))))"

section \<open>Conditional requests\<close>

definition Dir_if_modified_since ::
    "int \<Rightarrow> ('p, 't) request \<Rightarrow> FileRecord \<Rightarrow> int \<Rightarrow> bstring option \<times> ('p, 't) request" where
  "Dir_if_modified_since now req fr if_modified_since =
     (if if_modified_since \<le> to_int32 now \<and> st_mtime (sb fr) \<le> if_modified_since
      then (Some HTTP_304, req\<lparr>status_code := 304\<rparr>) else (None, req))"

definition Dir_none_match ::
    "int \<Rightarrow> ('p, 't) request \<Rightarrow> FileRecord \<Rightarrow> int \<Rightarrow> bstring option \<Rightarrow> bstring option \<times> ('p, 't) request" where
  "Dir_none_match now req fr if_modified_since if_none_match =
     (if biseqcstr if_none_match ''*'' \<noteq> 0 \<or> biseq if_none_match (etag fr) \<noteq> 0
      then (Some HTTP_304, req\<lparr>status_code := 304\<rparr>)
      else if if_modified_since \<noteq> 0 then Dir_if_modified_since now req fr if_modified_since
      else (None, req))"

definition Dir_calculate_response ::
    "(string \<Rightarrow> string \<Rightarrow> int option) \<Rightarrow> int \<Rightarrow> ('p, 't) request \<Rightarrow> FileRecord option \<Rightarrow>
     (bstring option \<times> ('p, 't) request) cres" where
  "Dir_calculate_response to_time now req file =
     (case file of
        None \<Rightarrow> Inr (Some HTTP_404, req\<lparr>status_code := 404\<rparr>)
      | Some fr \<Rightarrow>
          if is_dir fr \<noteq> 0 then Inr (Some (DIR_REDIRECT_FORMAT (host req) (uri req)), req)
          else
            (let if_match = Request_get req HTTP_IF_MATCH in
             cbind (if if_match = None \<or> biseqcstr if_match ''*'' \<noteq> 0 then Inr (Some 0)
                    else bstring_match (the if_match) ETAG_PATTERN) (\<lambda>ok.
               if ok = None then Inr (Some HTTP_412, req\<lparr>status_code := 412\<rparr>)
               else
                 (let if_none_match = Request_get req HTTP_IF_NONE_MATCH;
                      if_unmodified_since = Request_get_date to_time req HTTP_IF_UNMODIFIED_SINCE RFC_822_TIME;
                      if_modified_since = Request_get_date to_time req HTTP_IF_MODIFIED_SINCE RFC_822_TIME in
                  Inr (if if_unmodified_since \<noteq> 0 then
                         (if st_mtime (sb fr) > if_unmodified_since then (Some HTTP_412, req\<lparr>status_code := 412\<rparr>)
                          else if if_none_match \<noteq> None then Dir_none_match now req fr if_modified_since if_none_match
                          else if if_modified_since \<noteq> 0 then Dir_if_modified_since now req fr if_modified_since
                          else (Some HTTP_500, req\<lparr>status_code := 500\<rparr>))
                       else if if_none_match \<noteq> None then Dir_none_match now req fr if_modified_since if_none_match
                       else if if_modified_since \<noteq> 0 then Dir_if_modified_since now req fr if_modified_since
                       else (None, req\<lparr>status_code := 200\<rparr>))))))"

end
