(* ===== verification/DirSafe.thy ===== *)
theory DirSafe
  imports Dir "HOL-Library.Multiset"
begin

text \<open>
  What the directory server relies on and promises: the cache as an interface, the user
  counts of file records, which equal the number of cache slots and requests that hold them, and
  that every file it opens or keeps lies below the base as the code compares it.
\<close>

section \<open>The cache as an interface\<close>

locale object_cache =
  fixes held :: "'s \<Rightarrow> nat multiset"
    and ok :: "'s \<Rightarrow> bool"
    and look :: "(nat \<Rightarrow> 'k \<Rightarrow> bool) \<Rightarrow> 's \<Rightarrow> 'k \<Rightarrow> nat option \<times> 's"
    and add :: "'s \<Rightarrow> nat \<Rightarrow> nat list \<times> 's"
    and evict :: "'s \<Rightarrow> nat \<Rightarrow> nat list \<times> 's"
  assumes look_held: "ok s \<Longrightarrow> look lk s k = (r, s') \<Longrightarrow> ok s' \<and> held s' = held s \<and> (\<forall>a. r = Some a \<longrightarrow> a \<in># held s)"
    and add_held: "ok s \<Longrightarrow> add s a = (ev, s') \<Longrightarrow> ok s' \<and> held s' + mset ev = held s + {#a#}"
    and evict_held: "ok s \<Longrightarrow> evict s a = (ev, s') \<Longrightarrow> ok s' \<and> held s' + mset ev = held s"
begin

text \<open>What leaves the cache was in it, or is what was just put into it.\<close>

lemma add_evicts: "ok s \<Longrightarrow> add s a = (ev, s') \<Longrightarrow> mset ev \<subseteq># held s + {#a#} \<and> held s' = held s + {#a#} - mset ev"
  using add_held [of s a ev s'] by (metis add_diff_cancel_right' mset_subset_eq_add_right)

lemma evict_evicts: "ok s \<Longrightarrow> evict s a = (ev, s') \<Longrightarrow> mset ev \<subseteq># held s \<and> held s' = held s - mset ev"
  using evict_held [of s a ev s'] by (metis add_diff_cancel_right' mset_subset_eq_add_right)

end

subsection \<open>The code's cache provides it\<close>

definition cache_held :: "nat cache option \<Rightarrow> nat multiset" where
  "cache_held c = (case c of None \<Rightarrow> {#} | Some c \<Rightarrow> mset (List.map_filter cdata (live_slots c)))"

definition cache_good :: "nat cache option \<Rightarrow> bool" where
  "cache_good c \<longleftrightarrow> (\<exists>ca. c = Some ca \<and> cache_ok ca \<and> has_evict ca)"

lemma map_filter_update:
  "v < length es \<Longrightarrow> mset (List.map_filter f (es[v := x])) + (case f (es ! v) of None \<Rightarrow> {#} | Some y \<Rightarrow> {#y#}) =
     mset (List.map_filter f es) + (case f x of None \<Rightarrow> {#} | Some y \<Rightarrow> {#y#})"
proof (induction es arbitrary: v)
  case (Cons e es)
  show ?case
  proof (cases v)
    case 0
    then show ?thesis by (simp add: List.map_filter_simps split: option.splits)
  next
    case (Suc w)
    then show ?thesis using Cons.IH [of w] Cons.prems by (simp add: List.map_filter_simps split: option.splits)
  qed
qed simp

lemma map_filter_as_filter: "List.map_filter f es = map the (filter (\<lambda>r. r \<noteq> None) (map f es))"
  by (induction es) (simp_all add: List.map_filter_simps split: option.splits)

lemma map_filter_mem: "a \<in> set (List.map_filter f es) \<longleftrightarrow> Some a \<in> set (map f es)"
  by (induction es) (auto simp: List.map_filter_simps split: option.splits)

lemma map_filter_cdata: "map cdata es = map cdata es' \<Longrightarrow> List.map_filter cdata es = List.map_filter cdata es'"
  by (simp add: map_filter_as_filter)

lemma slots_ok:
  assumes "cache_ok c" "size c1 = size c" "live_slots c1 = es" "length es = nat (size c)"
    "drop (nat (size c)) (arr c1) = drop (nat (size c)) (arr c)" "\<forall>e\<in>set es. 0 \<le> tag e \<and> tag e \<le> INT_MAX"
  shows "cache_ok c1"
proof -
  have arr: "arr c1 = es @ drop (nat (size c)) (arr c)"
    using assms(2,3,5) append_take_drop_id [of "nat (size c)" "arr c1"] by (simp add: live_slots_def)
  have "0 \<le> tag e \<and> tag e \<le> INT_MAX" if "e \<in> set (drop (nat (size c)) (arr c))" for e
    using assms(1) that by (auto simp: cache_ok_def dest: in_set_dropD)
  then show ?thesis using assms(1,2,4,6) unfolding cache_ok_def arr by auto
qed

lemma tick_range: "0 \<le> tag e \<and> tag e \<le> INT_MAX \<Longrightarrow> 0 \<le> tag (tick e) \<and> tag (tick e) \<le> INT_MAX"
  by (auto simp: tick_def)

lemma live_range: "cache_ok c \<Longrightarrow> e \<in> set (live_slots c) \<Longrightarrow> 0 \<le> tag e \<and> tag e \<le> INT_MAX"
  by (auto simp: cache_ok_def live_slots_def dest: in_set_takeD)

lemma live_length: "cache_ok c \<Longrightarrow> length (live_slots c) = nat (size c)"
  by (auto simp: cache_ok_def live_slots_def)

lemma lookup_held:
  assumes "cache_good s" "Cache_lookup lk s k = (r, s')"
  shows "cache_good s' \<and> cache_held s' = cache_held s \<and> (\<forall>a. r = Some a \<longrightarrow> a \<in># cache_held s)"
proof -
  obtain c where c: "s = Some c" "cache_ok c" "has_evict c" using assms(1) by (auto simp: cache_good_def)
  obtain es where loop: "lookup_loop lk k (live_slots c) = (r, es)" and s': "s' = Some (c\<lparr>arr := es @ drop (nat (size c)) (arr c)\<rparr>)"
    using assms(2) c(1) by (auto simp: Cache_lookup_def split: prod.splits)
  have "map cdata es = map cdata (live_slots c) \<and> length es = length (live_slots c) \<and>
      (\<forall>e\<in>set es. 0 \<le> tag e \<and> tag e \<le> INT_MAX) \<and> (\<forall>a. r = Some a \<longrightarrow> Some a \<in> set (map cdata (live_slots c)))"
  proof (cases r)
    case None
    from lookup_loop_None [OF loop [unfolded None]] have "es = map tick (live_slots c)" by blast
    then show ?thesis using None live_range [OF c(2)] tick_range by (auto simp: comp_def)
  next
    case (Some d)
    from lookup_loop_Some [OF loop [unfolded Some]] obtain i where i: "i < length (live_slots c)" "cdata (live_slots c ! i) = Some d"
      and es: "es = (map tick (live_slots c))[i := (tick (live_slots c ! i))\<lparr>tag := INT_MAX\<rparr>]" by blast
    have "map cdata es = map cdata (live_slots c)"
      using i(1) by (simp add: es map_update comp_def) (metis list_update_id nth_map)
    moreover have "0 \<le> tag e \<and> tag e \<le> INT_MAX" if "e \<in> set es" for e
      using that live_range [OF c(2)] tick_range set_update_subset_insert [of "map tick (live_slots c)" i]
      by (fastforce simp: es INT_MAX_def)
    ultimately show ?thesis using i Some by (auto simp: es) (metis nth_mem imageI)
  qed
  then have es: "map cdata es = map cdata (live_slots c)" "length es = length (live_slots c)"
    "\<forall>e\<in>set es. 0 \<le> tag e \<and> tag e \<le> INT_MAX" and hit: "\<forall>a. r = Some a \<longrightarrow> Some a \<in> set (map cdata (live_slots c))" by blast+
  let ?c' = "c\<lparr>arr := es @ drop (nat (size c)) (arr c)\<rparr>"
  have live: "live_slots ?c' = es" using es(2) live_length [OF c(2)] by (simp add: live_slots_def)
  have "cache_ok ?c'"
    by (rule slots_ok [OF c(2) _ live _ _ es(3)]) (use es(2) live_length [OF c(2)] in simp_all)
  then have "cache_good s'" using c(3) by (simp add: cache_good_def s')
  moreover have "cache_held s' = cache_held s"
    using map_filter_cdata [OF es(1)] by (simp add: cache_held_def s' c(1) live)
  moreover have "\<forall>a. r = Some a \<longrightarrow> a \<in># cache_held s"
    using hit by (simp add: cache_held_def c(1) map_filter_mem del: set_map)
  ultimately show ?thesis by blast
qed

lemma add_held:
  assumes "cache_good s" "Cache_add s (Some a) = (ev, s')"
  shows "cache_good s' \<and> cache_held s' + mset ev = cache_held s + {#a#}"
proof -
  obtain c where c: "s = Some c" "cache_ok c" "has_evict c" using assms(1) by (auto simp: cache_good_def)
  obtain v c1 where c1: "s' = Some c1" "v < nat (size c)" "size c1 = size c" "has_evict c1 = has_evict c"
      "live_slots c1 = (map tick (live_slots c))[v := \<lparr>tag = INT_MAX, cdata = Some a\<rparr>]"
      "drop (nat (size c)) (arr c1) = drop (nat (size c)) (arr c)"
    and ev: "ev = (if has_evict c then (case cdata (live_slots c ! v) of Some o1 \<Rightarrow> [o1] | None \<Rightarrow> []) else [])"
    using Cache_add_slots [OF c(2) assms(2) [unfolded c(1)]] by blast
  have "0 \<le> tag e \<and> tag e \<le> INT_MAX" if "e \<in> set (live_slots c1)" for e
    using that live_range [OF c(2)] tick_range set_update_subset_insert [of "map tick (live_slots c)" v]
    by (fastforce simp: c1(5) INT_MAX_def)
  then have "cache_ok c1"
    by (intro slots_ok [OF c(2) c1(3) refl _ c1(6)]) (simp_all add: c1(5) live_length [OF c(2)])
  moreover have "mset (List.map_filter cdata (live_slots c1)) + mset ev = mset (List.map_filter cdata (live_slots c)) + {#a#}"
    using map_filter_update [of v "map tick (live_slots c)" cdata "\<lparr>tag = INT_MAX, cdata = Some a\<rparr>"] c1(2) live_length [OF c(2)]
      map_filter_cdata [of "map tick (live_slots c)" "live_slots c"]
    by (simp add: c1(5) ev c(3) comp_def split: option.splits)
  ultimately show ?thesis by (simp add: cache_good_def cache_held_def c(1,3) c1(1,4))
qed

lemma evict_mset:
  "mset (List.map_filter cdata (map (evict_slot a) es)) + mset (filter (\<lambda>d. d = a) (List.map_filter cdata es)) =
     mset (List.map_filter cdata es)"
  by (induction es) (auto simp: List.map_filter_simps evict_slot_def split: option.splits)

lemma evict_held:
  assumes "cache_good s" "Cache_evict_object s (Some a) = (ev, s')"
  shows "cache_good s' \<and> cache_held s' + mset ev = cache_held s"
proof -
  obtain c where c: "s = Some c" "cache_ok c" "has_evict c" using assms(1) by (auto simp: cache_good_def)
  let ?c' = "c\<lparr>arr := map (evict_slot a) (live_slots c) @ drop (nat (size c)) (arr c)\<rparr>"
  have s': "s' = Some ?c'" "ev = filter (\<lambda>d. d = a) (List.map_filter cdata (live_slots c))"
    using assms(2) c(1,3) by (simp_all add: Cache_evict_object_def)
  have live: "live_slots ?c' = map (evict_slot a) (live_slots c)"
    using live_length [OF c(2)] by (simp add: live_slots_def)
  have "cache_ok ?c'"
    by (rule slots_ok [OF c(2) _ live])
      (use live_length [OF c(2)] live_range [OF c(2)] in \<open>auto simp: evict_slot_def INT_MAX_def\<close>)
  then show ?thesis using c(3) evict_mset [of a "live_slots c"] by (simp add: cache_good_def cache_held_def c(1) s' live)
qed

interpretation file_cache: object_cache cache_held cache_good Cache_lookup "\<lambda>s a. Cache_add s (Some a)"
  "\<lambda>s a. Cache_evict_object s (Some a)"
proof (unfold_locales, goal_cases)
  case 1
  then show ?case by (rule lookup_held)
next
  case 2
  then show ?case by (rule add_held)
next
  case 3
  then show ?case by (rule evict_held)
qed

section \<open>User counts\<close>

text \<open>
  \<open>M\<close> holds an address once for every cache slot and every request in progress that has it.
  The counts are right when each record's \<^verbatim>\<open>users\<close> is that number, and nothing freed or not yet
  allocated is held.
\<close>

definition balance :: "files \<Rightarrow> nat multiset \<Rightarrow> bool" where
  "balance fs M \<longleftrightarrow> (\<forall>a. case frecs fs a of
       None \<Rightarrow> count M a = 0
     | Some fr \<Rightarrow> users fr = int (count M a) \<and> 0 < count M a \<and> a < next_fr fs)"

lemma balance_alloc: "balance fs M \<Longrightarrow> a \<in># M \<Longrightarrow> \<exists>fr. frecs fs a = Some fr \<and> users fr = int (count M a) \<and> a < next_fr fs"
  unfolding balance_def by (drule spec [of _ a]) (auto simp: count_eq_zero_iff split: option.splits)

lemma balance_fresh: "balance fs M \<Longrightarrow> next_fr fs \<le> a \<Longrightarrow> frecs fs a = None \<and> count M a = 0"
  unfolding balance_def by (drule spec [of _ a]) (auto split: option.splits)

text \<open>Replacing one record, with as many holders as its count says.\<close>

lemma balance_update:
  assumes "balance fs M" "\<forall>b. b \<noteq> a \<longrightarrow> count M' b = count M b" "next_fr fs \<le> n"
    "case r of None \<Rightarrow> count M' a = 0 | Some fr \<Rightarrow> users fr = int (count M' a) \<and> 0 < count M' a \<and> a < n"
  shows "balance (fs\<lparr>frecs := (frecs fs)(a := r), next_fr := n, closed := cl\<rparr>) M'"
  unfolding balance_def
proof
  fix b
  show "case frecs (fs\<lparr>frecs := (frecs fs)(a := r), next_fr := n, closed := cl\<rparr>) b of
      None \<Rightarrow> count M' b = 0
    | Some fr \<Rightarrow> users fr = int (count M' b) \<and> 0 < count M' b \<and> b < next_fr (fs\<lparr>frecs := (frecs fs)(a := r), next_fr := n, closed := cl\<rparr>)"
    using assms(2-4) assms(1) [unfolded balance_def, rule_format, of b]
    by (cases "b = a") (auto split: option.splits)
qed

lemma release_balance:
  assumes "balance fs (add_mset a M)"
  shows "\<exists>fs'. FileRecord_release (Some a) fs = Inr fs' \<and> balance fs' M"
proof -
  obtain fr where fr: "frecs fs a = Some fr" "users fr = int (Suc (count M a))" "a < next_fr fs"
    using balance_alloc [OF assms, of a] by auto
  show ?thesis
  proof (cases "count M a = 0")
    case True
    have "balance (fs\<lparr>frecs := (frecs fs)(a := None), next_fr := next_fr fs, closed := closed fs @ FileRecord_destroy (fr\<lparr>users := users fr - 1\<rparr>)\<rparr>) M"
      by (rule balance_update [OF assms]) (simp_all add: True)
    then show ?thesis using True fr(2) by (simp add: FileRecord_release_def fr(1) Let_def)
  next
    case False
    have "balance (fs\<lparr>frecs := (frecs fs)(a \<mapsto> fr\<lparr>users := users fr - 1\<rparr>), next_fr := next_fr fs, closed := closed fs\<rparr>) M"
      by (rule balance_update [OF assms]) (use False fr in \<open>simp_all del: count_greater_zero_iff\<close>)
    then show ?thesis using False fr(2) by (simp add: FileRecord_release_def fr(1) Let_def del: count_greater_zero_iff)
  qed
qed

lemma evict_balance:
  "balance fs (M + mset ev) \<Longrightarrow> \<exists>fs'. filerecord_cache_evict ev fs = Inr fs' \<and> balance fs' M"
proof (induction ev arbitrary: fs)
  case (Cons a ev)
  from release_balance [of fs a "M + mset ev"] Cons.prems
  obtain fs1 where "FileRecord_release (Some a) fs = Inr fs1" "balance fs1 (M + mset ev)" by auto
  with Cons.IH show ?case by simp
qed simp

text \<open>What every operation keeps of a record that stays: its path and its place in the store.\<close>

definition kept :: "files \<Rightarrow> files \<Rightarrow> bool" where
  "kept fs fs' \<longleftrightarrow> (\<forall>a fr'. frecs fs' a = Some fr' \<longrightarrow> (\<exists>fr. frecs fs a = Some fr \<and> full_path fr' = full_path fr))"

lemma kept_refl [simp]: "kept fs fs"
  by (simp add: kept_def)

lemma kept_trans: "kept fs fs1 \<Longrightarrow> kept fs1 fs2 \<Longrightarrow> kept fs fs2"
  unfolding kept_def by metis

lemma release_kept: "FileRecord_release a fs = Inr fs' \<Longrightarrow> kept fs fs'"
  by (auto simp: FileRecord_release_def kept_def Let_def split: option.splits if_splits)

lemma evict_kept: "filerecord_cache_evict ev fs = Inr fs' \<Longrightarrow> kept fs fs'"
proof (induction ev arbitrary: fs)
  case (Cons a ev)
  then show ?case using release_kept kept_trans by auto blast
qed simp

section \<open>The state of a directory\<close>

text \<open>
  \<open>H\<close> holds what requests in progress and the caches of other directories have.  The path check
  of the code compares the first \<open>length nb\<close> characters.
\<close>

definition below :: "bstring option \<Rightarrow> bstring option \<Rightarrow> bool" where
  "below nb p \<longleftrightarrow> (\<exists>b q. nb = Some b \<and> p = Some (b @ q))"

definition dir_inv :: "dir \<Rightarrow> nat multiset \<Rightarrow> files \<Rightarrow> bool" where
  "dir_inv d H fs \<longleftrightarrow> cache_good (fr_cache d) \<and> balance fs (cache_held (fr_cache d) + H) \<and>
     (\<forall>a fr. a \<in># cache_held (fr_cache d) \<longrightarrow> frecs fs a = Some fr \<longrightarrow> below (normalized_base d) (full_path fr))"

text \<open>\<^verbatim>\<open>realpath\<close> answers C strings.\<close>

definition realpath_cstr :: "file_ops \<Rightarrow> bool" where
  "realpath_cstr fops \<longleftrightarrow> (\<forall>p r. realpath fops p = Some r \<longrightarrow> NUL \<notin> set r)"

lemma ncmp_loop_nz: "NUL \<notin> set xs \<Longrightarrow> ncmp_loop xs ys \<noteq> Some 0"
  by (induction xs ys rule: ncmp_loop.induct) (auto simp: schar_inj)

lemma ncmp_loop_eq: "length xs = length ys \<Longrightarrow> NUL \<notin> set xs \<Longrightarrow> ncmp_loop xs ys = None \<Longrightarrow> xs = ys"
  by (induction xs ys rule: ncmp_loop.induct) (auto split: if_splits)

lemma bstrncmp_below:
  assumes "bstrncmp (Some tgt) (Some nb) (int (length nb)) = 0" "NUL \<notin> set tgt"
  shows "below (Some nb) (Some tgt)"
proof -
  let ?m = "min (length tgt) (length nb)"
  have m: "nat (min (int (length nb)) (min (int (length tgt)) (int (length nb)))) = ?m" by simp
  have "NUL \<notin> set (take ?m tgt)" using assms(2) by (auto dest: in_set_takeD)
  note take = ncmp_loop_nz [OF this, of "take ?m nb"] ncmp_loop_eq [OF _ this, of "take ?m nb"]
  have loop: "ncmp_loop (take ?m tgt) (take ?m nb) = None \<and> length nb \<le> length tgt"
    using assms(1) take(1) unfolding bstrncmp_def Let_def m prod.case option.case
    by (auto split: option.splits if_splits)
  have "take ?m tgt = take ?m nb" using loop by (intro take(2)) (simp, blast)
  then have "take (length nb) tgt = nb" using loop by (simp add: min_absorb2)
  then show ?thesis unfolding below_def by (metis append_take_drop_id)
qed

lemma dir_invD:
  assumes "dir_inv d H fs"
  shows "cache_good (fr_cache d)" "balance fs (cache_held (fr_cache d) + H)"
    "a \<in># cache_held (fr_cache d) \<Longrightarrow> frecs fs a = Some fr \<Longrightarrow> below (normalized_base d) (full_path fr)"
  using assms by (auto simp: dir_inv_def)

text \<open>The check of the cache never reads a freed record, and frees what it evicts when no request has it.\<close>

lemma cache_check_inv:
  assumes "dir_inv d H fs"
  shows "\<exists>r d' fs'. FileRecord_cache_check fops now d pth fs = Inr (r, d', fs') \<and> dir_inv d' H fs' \<and>
    normalized_base d' = normalized_base d \<and> default_ctype d' = default_ctype d \<and> index_file d' = index_file d \<and>
    (\<forall>a. r = Some a \<longrightarrow> a \<in># cache_held (fr_cache d'))"
proof -
  note inv = dir_invD [OF assms]
  have held: "set (cached d) = set_mset (cache_held (fr_cache d))"
    by (simp add: cached_def cache_held_def split: option.splits)
  then have alloc: "\<not> (\<exists>a\<in>set (cached d). frecs fs a = None)"
    using balance_alloc [OF inv(2)] by fastforce
  obtain r ca where look: "Cache_lookup (filerecord_cache_lookup fs) (fr_cache d) pth = (r, ca)" by fastforce
  have ca: "cache_good ca" "cache_held ca = cache_held (fr_cache d)" "\<And>a. r = Some a \<Longrightarrow> a \<in># cache_held (fr_cache d)"
    using file_cache.look_held [OF inv(1) look] by auto
  have same: "dir_inv (d\<lparr>fr_cache := ca\<rparr>) H fs"
    using inv ca(1,2) by (simp add: dir_inv_def)
  show ?thesis
  proof (cases r)
    case None
    then show ?thesis using same by (simp add: FileRecord_cache_check_def alloc look)
  next
    case (Some a)
    then have a: "a \<in># cache_held (fr_cache d)" using ca(3) by simp
    obtain fr where fr: "frecs fs a = Some fr" "users fr = int (count (cache_held (fr_cache d) + H) a)" "a < next_fr fs"
      using balance_alloc [OF inv(2), of a] a by auto
    obtain ev ca' where ev: "Cache_evict_object ca (Some a) = (ev, ca')" by fastforce
    have ca': "cache_good ca'" "cache_held ca' + mset ev = cache_held (fr_cache d)"
      using file_cache.evict_held [OF ca(1) ev] ca(2) by auto
    obtain fs1 where fs1: "filerecord_cache_evict ev fs = Inr fs1" "balance fs1 (cache_held ca' + H)"
      using evict_balance [of fs "cache_held ca' + H" ev] inv(2) ca'(2) by (metis add.assoc add.commute)
    have evicted: "dir_inv (d\<lparr>fr_cache := ca'\<rparr>) H fs1"
      using ca' fs1 inv(3) evict_kept [OF fs1(1)] unfolding dir_inv_def kept_def
      by (simp) (metis mset_subset_eqD mset_subset_eq_add_left)
    let ?fs2 = "fs\<lparr>frecs := (frecs fs)(a \<mapsto> fr\<lparr>loaded := now\<rparr>)\<rparr>"
    have "balance (fs\<lparr>frecs := (frecs fs)(a \<mapsto> fr\<lparr>loaded := now\<rparr>), next_fr := next_fr fs, closed := closed fs\<rparr>)
        (cache_held (fr_cache d) + H)"
      by (rule balance_update [OF inv(2)]) (use a fr in simp_all)
    then have fresh: "dir_inv (d\<lparr>fr_cache := ca\<rparr>) H ?fs2"
      using inv(3) ca(1,2) fr(1) by (auto simp: dir_inv_def)
    show ?thesis using same fresh evicted a fs1(1) ca(2) Some
      by (simp add: FileRecord_cache_check_def alloc look fr(1) ev Let_def split: option.splits)
  qed
qed

lemma find_file_record:
  "Dir_find_file mem fops mime now p ct = (Some fr, cl) \<Longrightarrow> users fr = 1 \<and> full_path fr = Some p"
  by (auto simp: Dir_find_file_def Let_def fr_zero_def split: if_splits option.splits)

lemma dir_inv_closed [simp]: "dir_inv d H (fs\<lparr>closed := cl\<rparr>) = dir_inv d H fs"
  by (simp add: dir_inv_def balance_def cong: option.case_cong)

text \<open>A new record has two holders: its cache slot and the request it was opened for.\<close>

lemma add_record_inv:
  assumes "dir_inv d H fs" "users fr = 1" "below (normalized_base d) (full_path fr)"
  shows "\<exists>a d' fs'. Dir_add_record d pth fr fs = Inr (Some a, d', fs') \<and> dir_inv d' (add_mset a H) fs' \<and>
    (\<exists>fr'. frecs fs' a = Some fr' \<and> below (normalized_base d') (full_path fr'))"
proof -
  note inv = dir_invD [OF assms(1)]
  let ?a = "next_fr fs" and ?fr = "fr\<lparr>users := users fr + 1, request_path := Some pth\<rparr>"
  let ?fs = "fs\<lparr>frecs := (frecs fs)(?a \<mapsto> ?fr), next_fr := Suc ?a\<rparr>"
  have zero: "count (cache_held (fr_cache d) + H) ?a = 0" using balance_fresh [OF inv(2) order_refl] by blast
  have "balance (fs\<lparr>frecs := (frecs fs)(?a \<mapsto> ?fr), next_fr := Suc ?a, closed := closed fs\<rparr>)
      (cache_held (fr_cache d) + {#?a#} + add_mset ?a H)"
    by (rule balance_update [OF inv(2)]) (use zero assms(2) in simp_all)
  then have bal: "balance ?fs (cache_held (fr_cache d) + {#?a#} + add_mset ?a H)" by simp
  obtain ev ca where add: "Cache_add (fr_cache d) (Some ?a) = (ev, ca)" by fastforce
  have ca: "cache_good ca" "cache_held ca + mset ev = cache_held (fr_cache d) + {#?a#}"
    using file_cache.add_held [OF inv(1) add] by auto
  obtain fs' where fs': "filerecord_cache_evict ev ?fs = Inr fs'" "balance fs' (cache_held ca + add_mset ?a H)"
    using evict_balance [of ?fs "cache_held ca + add_mset ?a H" ev] bal [folded ca(2)] by (auto simp: ac_simps)
  obtain fr' where fr': "frecs fs' ?a = Some fr'" using balance_alloc [OF fs'(2), of ?a] by auto
  have paths: "below (normalized_base d) (full_path fb)"
    if b: "b \<in># cache_held (fr_cache d) + {#?a#}" and fb: "frecs fs' b = Some fb" for b fb
  proof -
    obtain fb0 where fb0: "frecs ?fs b = Some fb0" "full_path fb = full_path fb0"
      using evict_kept [OF fs'(1)] fb unfolding kept_def by blast
    show ?thesis using fb0 b assms(3) inv(3) [of b fb0] by (cases "b = ?a") auto
  qed
  have "b \<in># cache_held (fr_cache d) + {#?a#}" if "b \<in># cache_held ca" for b
    unfolding ca(2) [symmetric] using that by simp
  with paths have "dir_inv (d\<lparr>fr_cache := ca\<rparr>) (add_mset ?a H) fs'"
    using ca(1) fs'(2) unfolding dir_inv_def by simp blast
  then show ?thesis using fs'(1) fr' paths [OF _ fr'] add by (simp add: Dir_add_record_def Let_def)
qed

lemma normalize_inv:
  assumes "dir_inv d H fs" "Dir_lazy_normalize_base fops d = (rc, d')"
  shows "dir_inv d' H fs \<and> normalized_base d' \<noteq> None"
proof (cases "normalized_base d")
  case None
  note inv = dir_invD [OF assms(1)]
  have "a \<notin># cache_held (fr_cache d)" for a
    using balance_alloc [OF inv(2), of a] inv(3) [of a] by (auto simp: None below_def)
  then show ?thesis using assms None
    by (auto simp: Dir_lazy_normalize_base_def dir_inv_def Let_def split: prod.splits if_splits)
next
  case (Some nb)
  then show ?thesis using assms by (auto simp: Dir_lazy_normalize_base_def)
qed

text \<open>A hit takes one more holder.\<close>

lemma hit_inv:
  assumes "dir_inv d H fs" "a \<in># cache_held (fr_cache d)"
  defines "fs' \<equiv> fs\<lparr>frecs := (frecs fs)(a := map_option (\<lambda>fr. fr\<lparr>users := users fr + 1\<rparr>) (frecs fs a))\<rparr>"
  shows "dir_inv d (add_mset a H) fs' \<and> (\<exists>fr. frecs fs' a = Some fr \<and> below (normalized_base d) (full_path fr))"
proof -
  note inv = dir_invD [OF assms(1)]
  obtain fr where fr: "frecs fs a = Some fr" "users fr = int (count (cache_held (fr_cache d) + H) a)" "a < next_fr fs"
    using balance_alloc [OF inv(2), of a] assms(2) by auto
  have "balance (fs\<lparr>frecs := (frecs fs)(a \<mapsto> fr\<lparr>users := users fr + 1\<rparr>), next_fr := next_fr fs, closed := closed fs\<rparr>)
      (cache_held (fr_cache d) + add_mset a H)"
    by (rule balance_update [OF inv(2)]) (use fr in simp_all)
  then show ?thesis using inv(1,3) assms(2) fr(1) by (auto simp: dir_inv_def fs'_def)
qed

lemma bHead_length: "bHead p n = Some q \<Longrightarrow> length q \<le> length p"
  using bHead_spec [of n p] by (cases "0 \<le> n") (auto simp: bHead_def)

lemma target_fault:
  "Dir_target d prefix pth = Inl e \<Longrightarrow> length pth + 1 < length prefix"
  by (auto simp: Dir_target_def path_tail_def cbind_Inl_iff split: if_splits)

definition holder :: "nat option \<Rightarrow> nat multiset" where
  "holder r = (case r of None \<Rightarrow> {#} | Some a \<Rightarrow> {#a#})"

definition resolved :: "nat multiset \<Rightarrow> nat option \<times> dir \<times> files \<Rightarrow> bool" where
  "resolved H = (\<lambda>(r, d, fs). dir_inv d (H + holder r) fs \<and>
     (\<forall>a. r = Some a \<longrightarrow> (\<exists>fr. frecs fs a = Some fr \<and> below (normalized_base d) (full_path fr))))"

text \<open>One resolution: it faults only by reading behind a path shorter than its route.\<close>

lemma resolve_inv:
  assumes "dir_inv d H fs" "realpath_cstr fops"
  shows "case Dir_resolve_file mem fops lim mime now d pat pth fs of
      Inl e \<Rightarrow> (\<exists>p. pat = Some p \<and> length pth + 1 < length p)
    | Inr res \<Rightarrow> resolved H res"
proof -
  obtain rc d1 where norm: "Dir_lazy_normalize_base fops d = (rc, d1)" by fastforce
  have d1: "dir_inv d1 H fs" "normalized_base d1 \<noteq> None" using normalize_inv [OF assms(1) norm] by auto
  obtain r d2 fs2 where chk: "FileRecord_cache_check fops now d1 pth fs = Inr (r, d2, fs2)" "dir_inv d2 H fs2"
      "normalized_base d2 = normalized_base d1" "\<forall>a. r = Some a \<longrightarrow> a \<in># cache_held (fr_cache d2)"
    using cache_check_inv [OF d1(1)] by blast
  have none: "resolved H (None, d2, fs2\<lparr>closed := cl\<rparr>)" "resolved H (None, d2, fs2)" "resolved H (None, d1, fs)" for cl
    using chk(2) d1(1) by (simp_all add: resolved_def holder_def)
  obtain nb where nb: "normalized_base d2 = Some nb" using chk(3) d1(2) by auto
  define prefix where "prefix = (case pat of None \<Rightarrow> None
    | Some p \<Rightarrow> if bstrchr p (CHR ''('') > 0 then bHead p (bstrchr p (CHR ''('')) else Some p)"
  have prefix: "\<exists>p. pat = Some p \<and> length q \<le> length p" if "prefix = Some q" for q
    using that bHead_length by (auto simp: prefix_def split: option.splits if_splits)
  have slash: "\<exists>q. prefix = Some q" if "bchar prefix 0 = CHR ''/''"
    using that by (cases prefix) (auto simp: bchar_def)
  have opened: "case (case Dir_find_file mem fops mime now tgt (default_ctype d2) of
          (None, cl) \<Rightarrow> Inr (None, d2, fs2\<lparr>closed := closed fs2 @ cl\<rparr>)
        | (Some fr, cl) \<Rightarrow> Dir_add_record d2 pth fr fs2) of Inl e \<Rightarrow> False | Inr res \<Rightarrow> resolved H res"
    if tgt: "normalize_path fops t0 = (0, tgt)" and base: "bstrncmp (Some tgt) (Some nb) (int (length nb)) = 0" for t0 tgt
  proof -
    have "NUL \<notin> set tgt" using tgt assms(2) by (auto simp: normalize_path_def realpath_cstr_def split: option.splits)
    from bstrncmp_below [OF base this] have bel: "below (normalized_base d2) (Some tgt)" by (simp add: nb)
    show ?thesis
    proof (cases "Dir_find_file mem fops mime now tgt (default_ctype d2)")
      case (Pair fo cl)
      show ?thesis
      proof (cases fo)
        case (Some fr)
        with Pair have "users fr = 1" "below (normalized_base d2) (full_path fr)"
          using find_file_record [of mem fops mime now tgt _ fr cl] bel by auto
        from add_record_inv [OF chk(2) this, of pth] show ?thesis
          using Pair Some by (auto simp: resolved_def holder_def)
      qed (simp add: Pair none)
    qed
  qed
  show ?thesis
  proof (cases r)
    case (Some a)
    with hit_inv [OF chk(2), of a] chk(4) show ?thesis
      by (auto simp: Dir_resolve_file_def norm chk(1) resolved_def holder_def d1(1))
  next
    case None
    note run = Dir_resolve_file_def prefix_def [symmetric] norm chk(1)
    show ?thesis
    proof (cases "rc = 0 \<and> bchar prefix 0 = CHR ''/'' \<and> int (length (the prefix)) < MAX_DIR_PATH lim")
      case False
      then show ?thesis using None none(2,3) by (auto simp: run)
    next
      case True
      then obtain q where q: "prefix = Some q" using slash by blast
      show ?thesis
      proof (cases "Dir_target d2 q pth")
        case (Inl e)
        then show ?thesis using True None q prefix [OF q] target_fault [OF Inl] by (auto simp: run)
      next
        case (Inr t0)
        obtain rc' tgt where tgt: "normalize_path fops t0 = (rc', tgt)" by fastforce
        with True None q Inr show ?thesis
          using opened [of t0 tgt] none(2) by (auto simp: run nb Let_def split: sum.splits)
      qed
    qed
  qed
qed

section \<open>Requests in any order\<close>

text \<open>
  Requests that overlap: each resolves a path, keeps the record while it streams, and
  releases it; \<open>H\<close> are the records kept.  Every step may find another file system and another time.
\<close>

definition no_files :: files where
  "no_files = \<lparr>frecs = Map.empty, next_fr = 0, closed = []\<rparr>"

inductive dir_reach :: "dir \<Rightarrow> nat multiset \<Rightarrow> files \<Rightarrow> bool" where
  start: "Dir_create sets True True lim bas index ctype = (Some d, lim') \<Longrightarrow> dir_reach d {#} no_files"
| resolve: "dir_reach d H fs \<Longrightarrow> realpath_cstr fops \<Longrightarrow>
    Dir_resolve_file mem fops lim mime now d pat pth fs = Inr (r, d', fs') \<Longrightarrow> dir_reach d' (H + holder r) fs'"
| release: "dir_reach d H fs \<Longrightarrow> a \<in># H \<Longrightarrow> FileRecord_release (Some a) fs = Inr fs' \<Longrightarrow> dir_reach d (H - {#a#}) fs'"

lemma fresh_cache: "Cache_create True 32 True True = Some ca \<Longrightarrow> cache_good (Some ca) \<and> cache_held (Some ca) = {#}"
  by (auto simp: Cache_create_def cache_good_def cache_ok_def cache_held_def live_slots_def MIN_CACHE_SIZE_def INT_MAX_def
      map_filter_as_filter filter_empty_conv dest: in_set_takeD)

lemma dir_reach_inv: "dir_reach d H fs \<Longrightarrow> dir_inv d H fs"
proof (induction rule: dir_reach.induct)
  case (start sets lim bas index ctype d lim')
  then obtain ca where "Cache_create True 32 True True = Some ca" "fr_cache d = Some ca"
    by (auto simp: Dir_create_def Let_def split: if_splits option.splits)
  then show ?case using fresh_cache [of ca] by (auto simp: dir_inv_def balance_def no_files_def)
next
  case (resolve d H fs fops mem lim mime now pat pth r d' fs')
  then show ?case using resolve_inv [OF resolve.IH resolve.hyps(2), of pat pth mem lim mime now]
    by (auto simp: resolved_def)
next
  case (release d H fs a fs')
  note inv = dir_invD [OF release.IH]
  have "balance fs (add_mset a (cache_held (fr_cache d) + (H - {#a#})))" using inv(2) release.hyps(2) by simp
  from release_balance [OF this] release.hyps(3) have bal: "balance fs' (cache_held (fr_cache d) + (H - {#a#}))" by auto
  then show ?case using inv(1,3) release_kept [OF release.hyps(3)] unfolding dir_inv_def kept_def by metis
qed

section \<open>Properties\<close>

text \<open>
  C32: user counts are exact however requests overlap: in every state a directory reaches
  the count of each record is the number of cache slots and requests that hold it; the release of
  a held record succeeds; nothing held is freed; and once every request has ended, destroying the
  directory frees every record.
\<close>

theorem Dir_user_counts:
  assumes "dir_reach d H fs"
  shows "(\<forall>a\<in>#H. \<exists>fr fs'. frecs fs a = Some fr \<and> users fr = int (count (cache_held (fr_cache d) + H) a) \<and>
            FileRecord_release (Some a) fs = Inr fs') \<and>
    (\<forall>a fr. frecs fs a = Some fr \<longrightarrow> users fr = int (count (cache_held (fr_cache d) + H) a) \<and> 0 < users fr) \<and>
    (H = {#} \<longrightarrow> (\<exists>fs'. Dir_destroy (Some d) fs = Inr fs' \<and> frecs fs' = Map.empty))"
proof (intro conjI ballI allI impI)
  note inv = dir_invD [OF dir_reach_inv [OF assms]]
  show "\<exists>fr fs'. frecs fs a = Some fr \<and> users fr = int (count (cache_held (fr_cache d) + H) a) \<and>
      FileRecord_release (Some a) fs = Inr fs'" if "a \<in># H" for a
    using balance_alloc [OF inv(2), of a] release_balance [of fs a "cache_held (fr_cache d) + (H - {#a#})"] inv(2) that by auto
  show "users fr = int (count (cache_held (fr_cache d) + H) a)" "0 < users fr" if "frecs fs a = Some fr" for a fr
    using inv(2) [unfolded balance_def, rule_format, of a] that by (simp_all del: count_greater_zero_iff count_union)
  show "\<exists>fs'. Dir_destroy (Some d) fs = Inr fs' \<and> frecs fs' = Map.empty" if "H = {#}"
  proof -
    obtain ca where ca: "fr_cache d = Some ca" "has_evict ca" using inv(1) by (auto simp: cache_good_def)
    then have "balance fs ({#} + mset (Cache_destroy (Some ca)))"
      using inv(2) that by (simp add: Cache_destroy_def cache_held_def)
    then obtain fs' where fs': "filerecord_cache_evict (Cache_destroy (Some ca)) fs = Inr fs'" "balance fs' {#}"
      using evict_balance by blast
    have "frecs fs' a = None" for a using fs'(2) [unfolded balance_def, rule_format, of a] by (simp split: option.splits)
    then show ?thesis using fs'(1) ca(1) by (auto simp: Dir_destroy_def)
  qed
qed

text \<open>
  C33: a resolution in a state the directory reaches gives back a record whose path starts with the
  base, and faults only when the route is longer than the path and one character.
\<close>

theorem Dir_serves_base_prefix:
  assumes "dir_reach d H fs" "realpath_cstr fops"
  shows "case Dir_resolve_file mem fops lim mime now d pat pth fs of
      Inl e \<Rightarrow> (\<exists>p. pat = Some p \<and> length pth + 1 < length p)
    | Inr (None, d', fs') \<Rightarrow> dir_reach d' H fs'
    | Inr (Some a, d', fs') \<Rightarrow> dir_reach d' (add_mset a H) fs' \<and>
        (\<exists>fr nb q. frecs fs' a = Some fr \<and> normalized_base d' = Some nb \<and> full_path fr = Some (nb @ q))"
  using resolve_inv [OF dir_reach_inv [OF assms(1)] assms(2), of pat pth mem lim mime now]
    dir_reach.resolve [OF assms(1), where mem = mem and fops = fops and lim = lim and mime = mime and now = now and
      pat = pat and pth = pth] assms(2)
  by (auto simp: resolved_def holder_def below_def split: sum.splits option.splits)

text \<open>A file system with a directory beside the base whose name extends the base's.\<close>

definition sites_fops :: file_ops where
  "sites_fops = \<lparr>stat_of = (\<lambda>p. Some \<lparr>st_isdir = False, st_mtime = 7, st_size = 9\<rparr>), open_file = (\<lambda>p. 5),
     realpath = (\<lambda>p. if p = ''www/'' then Some ''/srv/www''
                     else if p = ''/srv/www/index.html'' then Some ''/srv/www/index.html''
                     else if p = ''/srv/www/../www-secret/key'' then Some ''/srv/www-secret/key'' else None),
     bStrfTime = (\<lambda>t. Some ''now'')\<rparr>"

definition sites_limits :: dir_limits where
  "sites_limits = \<lparr>MAX_SEND_BUFFER = 16384, MAX_DIR_PATH = 256\<rparr>"

definition sites_dir :: dir where
  "sites_dir = the (fst (Dir_create Null True True sites_limits ''www/'' ''index.html'' ''text/plain''))"

lemma sites_realpath: "realpath_cstr sites_fops"
  by (simp add: realpath_cstr_def sites_fops_def)

text \<open>The record of the first request for a path, and the state behind it.\<close>

definition sites_resolve :: "bstring \<Rightarrow> (nat option \<times> dir \<times> files) cres" where
  "sites_resolve pth = Dir_resolve_file True sites_fops sites_limits mime_init 100 sites_dir (Some ''/'') pth no_files"

definition sites_after :: "nat option \<times> dir \<times> files" where
  "sites_after = (case sites_resolve ''/'' of Inr x \<Rightarrow> x | Inl _ \<Rightarrow> (None, sites_dir, no_files))"

lemma sites_start: "dir_reach sites_dir {#} no_files"
  by (rule dir_reach.start [of Null sites_limits "''www/''" "''index.html''" "''text/plain''" _ sites_limits])
    (simp add: sites_dir_def Dir_create_def sites_limits_def bchar_def Cache_create_def)

lemma sites_found: "isl (sites_resolve ''/'') = False \<and> fst sites_after = Some 0"
  unfolding sites_after_def sites_resolve_def by code_simp

lemma sites_reach: "dir_reach (fst (snd sites_after)) {#0#} (snd (snd sites_after))"
proof -
  have "sites_resolve ''/'' = Inr (Some 0, fst (snd sites_after), snd (snd sites_after))"
    using sites_found by (cases "sites_resolve ''/''") (auto simp: sites_after_def)
  from dir_reach.resolve [OF sites_start sites_realpath this [unfolded sites_resolve_def]] show ?thesis by (simp add: holder_def)
qed

lemma Dir_user_counts_witness:
  "\<exists>fr fs'. frecs (snd (snd sites_after)) 0 = Some fr \<and>
     users fr = int (count (cache_held (fr_cache (fst (snd sites_after))) + {#0#}) 0) \<and>
     FileRecord_release (Some 0) (snd (snd sites_after)) = Inr fs'"
  using Dir_user_counts [OF sites_reach] by simp

lemma Dir_serves_base_prefix_witness:
  "case sites_resolve ''/'' of
      Inl e \<Rightarrow> (\<exists>p. Some ''/'' = Some p \<and> length ''/'' + 1 < length p)
    | Inr (None, d', fs') \<Rightarrow> dir_reach d' {#} fs'
    | Inr (Some a, d', fs') \<Rightarrow> dir_reach d' {#a#} fs' \<and>
        (\<exists>fr nb q. frecs fs' a = Some fr \<and> normalized_base d' = Some nb \<and> full_path fr = Some (nb @ q))"
  unfolding sites_resolve_def by (rule Dir_serves_base_prefix [OF sites_start sites_realpath])

text \<open>
  The comparison with the base stops inside a name: with the base \<^verbatim>\<open>/srv/www\<close>, a request for
  \<^verbatim>\<open>/../www-secret/key\<close> is answered with the file \<^verbatim>\<open>/srv/www-secret/key\<close> of the directory beside it.
\<close>

theorem Dir_serves_sibling:
  "(case sites_resolve ''/../www-secret/key'' of
      Inr (Some a, d, fs) \<Rightarrow> Some (normalized_base d, map_option full_path (frecs fs a))
    | _ \<Rightarrow> None) = Some (Some ''/srv/www'', Some (Some ''/srv/www-secret/key''))"
  unfolding sites_resolve_def by code_simp

end
