(* ===== verification/Wire.thy ===== *)
theory Wire
  imports Dir State
begin

text \<open>
  The connection record of \<^verbatim>\<open>src/connection.h\<close>, the sockets it reads and writes
  (\<^verbatim>\<open>fdrecv\<close>, \<^verbatim>\<open>fdsend\<close> of \<^verbatim>\<open>task/fd.c\<close>, plain and TLS sending and receiving of
  \<^verbatim>\<open>connection.c\<close>), and the senders of \<^verbatim>\<open>response.c\<close>.  A descriptor is the script of what its
  peer does: what each receive finds, what a receive answers at the end, and how much each \<^verbatim>\<open>send\<close> takes.
\<close>

section \<open>Descriptors\<close>

record chan =
  inbox :: "string list"
  in_end :: int
  outbox :: string
  accepts :: "int list"

text \<open>\<^verbatim>\<open>fdrecv\<close> waits until there is something; a negative length is a huge \<^verbatim>\<open>size_t\<close>.\<close>

definition fdrecv :: "chan \<Rightarrow> int \<Rightarrow> int \<times> string \<times> chan" where
  "fdrecv ch n =
     (case inbox ch of
        [] \<Rightarrow> (min 0 (in_end ch), [], ch)
      | s # ss \<Rightarrow>
          (let got = (if n < 0 then s else take (nat n) s); rest = drop (length got) s in
           (int (length got), got, ch\<lparr>inbox := (if rest = [] then ss else rest # ss)\<rparr>)))"

text \<open>
  The loop of \<^verbatim>\<open>fdsend\<close> and \<^verbatim>\<open>fdwrite\<close>: the result, how many bytes went out, and the rest of
  the script.  Behind the script everything is taken.
\<close>

fun send_loop :: "int list \<Rightarrow> nat \<Rightarrow> nat \<Rightarrow> int \<times> nat \<times> int list" where
  "send_loop acc n tot =
     (if \<not> tot < n then (int tot, tot, acc)
      else case acc of
        [] \<Rightarrow> (int n, n, [])
      | m # acc' \<Rightarrow>
          if m < 0 then (m, tot, acc')
          else if m = 0 then (int tot, tot, acc')
          else send_loop acc' n (tot + min (nat m) (n - tot)))"

declare send_loop.simps [simp del]

definition fdsend :: "chan \<Rightarrow> string \<Rightarrow> int \<Rightarrow> (int \<times> chan) cres" where
  "fdsend ch s n =
     (if n > int (length s) then Inl Out_of_bounds
      else
        (let (rc, done, acc) = send_loop (accepts ch) (nat n) 0 in
         Inr (rc, ch\<lparr>outbox := outbox ch @ take done s, accepts := acc\<rparr>)))"

lemma send_loop_bounds:
  "tot \<le> n \<Longrightarrow> send_loop acc n tot = (rc, d, acc') \<Longrightarrow> d \<le> n \<and> (0 \<le> rc \<longrightarrow> rc = int d)"
proof (induction acc arbitrary: tot)
  case (Cons m acc)
  have le: "tot + min (nat m) (n - tot) \<le> n" using Cons.prems(1) by simp
  show ?case using Cons.IH [OF le] Cons.prems by (subst (asm) (2) send_loop.simps) (auto split: if_splits)
qed (auto simp: send_loop.simps split: if_splits)

text \<open>What a send that answers the full length, or any length, has put on the wire.\<close>

lemma fdsend_sent:
  assumes "fdsend ch s n = Inr (rc, ch')"
  shows "inbox ch' = inbox ch \<and> in_end ch' = in_end ch \<and> rc \<le> max 0 n \<and>
    (0 \<le> rc \<longrightarrow> outbox ch' = outbox ch @ take (nat rc) s)"
proof -
  obtain d acc where l: "send_loop (accepts ch) (nat n) 0 = (rc, d, acc)" and n: "n \<le> int (length s)"
    and ch': "ch' = ch\<lparr>outbox := outbox ch @ take d s, accepts := acc\<rparr>"
    using assms by (auto simp: fdsend_def split: if_splits prod.splits)
  from send_loop_bounds [OF _ l] ch' show ?thesis by auto
qed

text \<open>What a receive of a given length takes: a prefix of what the peer still sends.\<close>

definition received :: "chan \<Rightarrow> int \<Rightarrow> int \<Rightarrow> string \<Rightarrow> chan \<Rightarrow> bool" where
  "received ch len n got ch' \<longleftrightarrow>
     concat (inbox ch) = got @ concat (inbox ch') \<and> length got \<le> nat len \<and>
     (n = int (length got) \<or> got = [] \<and> n \<le> 0) \<and> outbox ch' = outbox ch \<and> accepts ch' = accepts ch \<and>
     ([] \<notin> set (inbox ch) \<longrightarrow> [] \<notin> set (inbox ch') \<and> (0 < len \<and> inbox ch \<noteq> [] \<longrightarrow> got \<noteq> []))"

lemma fdrecv_received: "0 \<le> len \<Longrightarrow> fdrecv ch len = (n, got, ch') \<Longrightarrow> received ch len n got ch'"
  by (auto simp: fdrecv_def received_def Let_def split: list.splits if_splits)

section \<open>The connection\<close>

text \<open>The members of the backend union; a directory is shared, so the target is its number.\<close>

record handler =
  send_socket :: "int option"
  recv_socket :: "int option"
  send_ident :: bstring
  recv_ident :: bstring
  recv_spec :: bstring
  send_spec :: bstring
  h_task :: "nat option"
  running :: int

record proxy =
  proxy_server :: bstring
  proxy_port :: int

datatype target = T_handler handler | T_dir nat | T_proxy proxy

record 'c httpclient_parser =
  cl_body_start :: int
  cl_content_len :: int
  cl_status :: int
  cl_chunked :: int
  chunks_done :: int
  cl_machine :: 'c

text \<open>
  The connection.  \<open>ssl_buff\<close> points into the receive buffer: it is the offset with the number of the
  allocation it was taken from, since \<^verbatim>\<open>h_realloc\<close> gives the buffer a new one.  The second
  half is the world behind the connection: its sockets, what the TLS library answers, the proxy
  backends that can be dialled, the messages handed to handlers, the register, directories and file
  records, temporary files (descriptor, name and what each write takes), the access log.
\<close>

record ('p, 'c) conn =
  server :: "target server"
  conn_fd :: int
  proxy_fd :: int
  req :: "('p, target) request"
  nread :: int
  nparsed :: nat
  registered :: int
  rport :: int
  buf :: string
  proxy_buf :: "string option"
  client :: "'c httpclient_parser option"
  remote :: string
  conn_close :: int
  ssl :: bool
  ssl_buff :: "(nat \<times> int) option"
  ssl_buff_len :: int
  buf_gen :: nat
  sock :: chan
  ssl_in :: "(int \<times> string option) list"
  backend_sock :: chan
  dials :: "(int \<times> chan) list"
  mq_results :: "int list"
  delivered :: "(int option \<times> string) list"
  registry :: register
  dirs :: "nat \<Rightarrow> dir"
  files :: files
  temps :: "(int \<times> bstring \<times> int list) list"
  uploads :: "(bstring \<times> string) list"
  unlinked :: "bstring list"
  access_log_lines :: "(int \<times> int) list"
  fds_closed :: "int list"
  clock :: "int list"
  freed :: bool

text \<open>\<^verbatim>\<open>time(NULL)\<close>: an action of the connection sees one instant, the next action the next.\<close>

definition now :: "('p, 'c) conn \<Rightarrow> int" where
  "now c = (case clock c of [] \<Rightarrow> 0 | t # _ \<Rightarrow> t)"

text \<open>
  What a run is given: the generated parsers, the file system and the bytes of its files, the settings, the limits
  set from them, and whether \<^verbatim>\<open>fdwait\<close> succeeds behind so many bytes.
\<close>

record 'c client_ops =
  httpclient_parser_init :: "'c httpclient_parser \<Rightarrow> 'c httpclient_parser"
  httpclient_parser_execute :: "'c httpclient_parser \<Rightarrow> string \<Rightarrow> int \<Rightarrow> int \<Rightarrow> int \<times> 'c httpclient_parser"
  httpclient_parser_has_error :: "'c httpclient_parser \<Rightarrow> bool"
  httpclient_parser_finish :: "'c httpclient_parser \<Rightarrow> int"

record limits =
  MAX_CONTENT_LENGTH :: int
  BUFFER_SIZE :: int
  CONNECTION_STACK :: int

record ('p, 'c) env =
  http :: "'p parser_ops"
  httpclient :: "'c client_ops"
  fops :: file_ops
  file_data :: "string \<Rightarrow> string"
  to_time :: "string \<Rightarrow> string \<Rightarrow> int option"
  sets :: settings
  lims :: limits
  dir_lims :: dir_limits
  mime :: mime_state
  fdwait_ok :: "nat \<Rightarrow> bool"
  new_client :: "'c httpclient_parser"
  mem :: bool

section \<open>Sending and receiving\<close>

text \<open>Bytes arrive at an offset of the buffer; behind its end is a fault.\<close>

definition put_buf :: "string \<Rightarrow> int \<Rightarrow> string \<Rightarrow> string cres" where
  "put_buf b off s =
     (if off < 0 \<or> off + int (length s) > int (length b) then Inl Out_of_bounds
      else Inr (take (nat off) b @ s @ drop (nat off + length s) b))"

abbreviation put_at :: "string \<Rightarrow> int \<Rightarrow> string \<Rightarrow> string" where
  "put_at b off s \<equiv> take (nat off) b @ s @ drop (nat off + length s) b"

lemma put_at_length: "0 \<le> off \<Longrightarrow> off + int (length s) \<le> int (length b) \<Longrightarrow> length (put_at b off s) = length b"
  by simp

lemma put_at_append:
  assumes "0 \<le> off" "off + int (length s) + int (length t) \<le> int (length b)"
  shows "put_at (put_at b off s) (off + int (length s)) t = put_at b off (s @ t)"
proof -
  have "nat (off + int (length s)) = nat off + length s" using assms by (simp add: nat_add_distrib)
  then show ?thesis using assms by (simp add: nat_le_iff ac_simps)
qed

definition plaintext_send :: "('p, 'c) conn \<Rightarrow> string \<Rightarrow> int \<Rightarrow> (int \<times> ('p, 'c) conn) cres" where
  "plaintext_send c s len = cbind (fdsend (sock c) s len) (\<lambda>(rc, ch). Inr (rc, c\<lparr>sock := ch\<rparr>))"

definition plaintext_recv :: "('p, 'c) conn \<Rightarrow> int \<Rightarrow> int \<Rightarrow> (int \<times> ('p, 'c) conn) cres" where
  "plaintext_recv c off len =
     (let (n, got, ch) = fdrecv (sock c) len in
      if got = [] then Inr (n, c\<lparr>sock := ch\<rparr>)
      else cbind (put_buf (buf c) off got) (\<lambda>b. Inr (n, c\<lparr>sock := ch, buf := b\<rparr>)))"

text \<open>\<^verbatim>\<open>ssl_write\<close> is the library's: it takes everything or answers a negative code.\<close>

definition ssl_send :: "('p, 'c) conn \<Rightarrow> string \<Rightarrow> int \<Rightarrow> (int \<times> ('p, 'c) conn) cres" where
  "ssl_send c s len =
     (if \<not> ssl c then Inr (-1, c)
      else if len > int (length s) then Inl Out_of_bounds
      else case accepts (sock c) of
        m # acc \<Rightarrow>
          if m < 0 then Inr (m, c\<lparr>sock := (sock c)\<lparr>accepts := acc\<rparr>\<rparr>)
          else Inr (len, c\<lparr>sock := (sock c)\<lparr>accepts := acc, outbox := outbox (sock c) @ take (nat len) s\<rparr>\<rparr>)
      | [] \<Rightarrow> Inr (len, c\<lparr>sock := (sock c)\<lparr>outbox := outbox (sock c) @ take (nat len) s\<rparr>\<rparr>))"

text \<open>The \<^verbatim>\<open>do\<close> loop around \<^verbatim>\<open>ssl_read\<close>; \<^verbatim>\<open>SSL_OK\<close> is 0, and behind the script the peer is gone.\<close>

fun ssl_read_loop :: "(int \<times> string option) list \<Rightarrow> int \<times> string option \<times> (int \<times> string option) list" where
  "ssl_read_loop [] = (-1, None, [])"
| "ssl_read_loop ((n, p) # rs) = (if n = 0 then ssl_read_loop rs else (n, p, rs))"

definition copy_in :: "('p, 'c) conn \<Rightarrow> int \<Rightarrow> string \<Rightarrow> int \<Rightarrow> (int \<times> ('p, 'c) conn) cres" where
  "copy_in c off src n =
     (if n > int (length src) then Inl Out_of_bounds
      else cbind (put_buf (buf c) off (take (nat n) src)) (\<lambda>b. Inr (n, c\<lparr>buf := b\<rparr>)))"

definition ssl_recv :: "('p, 'c) conn \<Rightarrow> int \<Rightarrow> int \<Rightarrow> (int \<times> ('p, 'c) conn) cres" where
  "ssl_recv c off len =
     (if \<not> ssl c then Inr (-1, c)
      else case ssl_buff c of
        Some (gen, o1) \<Rightarrow>
          (let (n, c') = (if ssl_buff_len c < len then (ssl_buff_len c, c\<lparr>ssl_buff_len := 0, ssl_buff := None\<rparr>)
                          else (len, c\<lparr>ssl_buff := Some (gen, o1 + len), ssl_buff_len := ssl_buff_len c - len\<rparr>)) in
           if n < 0 then Inr (n, c')
           else if gen \<noteq> buf_gen c \<or> o1 < 0 then Inl Out_of_bounds
           else copy_in c' off (drop (nat o1) (buf c)) n)
      | None \<Rightarrow>
          (let (n, p, rs) = ssl_read_loop (ssl_in c); c = c\<lparr>ssl_in := rs\<rparr>;
               (n, c) = (if n > len then (len, c\<lparr>ssl_buff := Some (buf_gen c, off + len), ssl_buff_len := n - len\<rparr>)
                         else (n, c)) in
           if n < 0 then Inr (n, c)
           else case p of None \<Rightarrow> Inr (-1, c) | Some src \<Rightarrow> copy_in c off src n))"

definition conn_send :: "('p, 'c) conn \<Rightarrow> string \<Rightarrow> int \<Rightarrow> (int \<times> ('p, 'c) conn) cres" where
  "conn_send c s len = (if ssl c then ssl_send c s len else plaintext_send c s len)"

definition conn_recv :: "('p, 'c) conn \<Rightarrow> int \<Rightarrow> int \<Rightarrow> (int \<times> ('p, 'c) conn) cres" where
  "conn_recv c off len = (if ssl c then ssl_recv c off len else plaintext_recv c off len)"

definition Response_send_status :: "('p, 'c) conn \<Rightarrow> bstring \<Rightarrow> (int \<times> ('p, 'c) conn) cres" where
  "Response_send_status c err = conn_send c err (int (length err))"

text \<open>One byte more than the string: the terminator XML sockets expect.\<close>

definition Response_send_socket_policy :: "('p, 'c) conn \<Rightarrow> (int \<times> ('p, 'c) conn) cres" where
  "Response_send_socket_policy c =
     conn_send c (FLASH_RESPONSE @ [NUL]) (int (length FLASH_RESPONSE) + 1)"

end
