(* ===== verification/Serve.thy ===== *)
theory Serve
  imports Wire
begin

text \<open>
  The part of \<^verbatim>\<open>src/dir.c\<close> that answers requests: sending the header, streaming the file by
  \<^verbatim>\<open>sendfile\<close> or, under TLS, through a buffer, and \<^verbatim>\<open>Dir_serve_file\<close>.
\<close>

section \<open>Streaming\<close>

text \<open>\<^verbatim>\<open>blength\<close> and \<^verbatim>\<open>bdata\<close> of a header that is there for every regular file.\<close>

definition header_text :: "FileRecord \<Rightarrow> string" where
  "header_text fr = (case fr_header fr of None \<Rightarrow> [] | Some h \<Rightarrow> h)"

definition Dir_send_header :: "FileRecord \<Rightarrow> ('p, 'c) conn \<Rightarrow> (bool \<times> ('p, 'c) conn) cres" where
  "Dir_send_header fr c =
     cbind (conn_send c (header_text fr) (int (length (header_text fr))))
       (\<lambda>(rc, c). Inr (rc = int (length (header_text fr)), c))"

text \<open>\<^verbatim>\<open>sendfile\<close>: at most \<open>cnt\<close> bytes from the offset, 0 at the end of the file.\<close>

definition Dir_send :: "chan \<Rightarrow> string \<Rightarrow> nat \<Rightarrow> int \<Rightarrow> int \<times> chan" where
  "Dir_send ch dat off cnt =
     (let want = (if cnt < 0 then drop off dat else take (nat cnt) (drop off dat)) in
      if want = [] then (0, ch)
      else case accepts ch of
        [] \<Rightarrow> (int (length want), ch\<lparr>outbox := outbox ch @ want\<rparr>)
      | m # acc \<Rightarrow>
          if m \<le> 0 then (m, ch\<lparr>accepts := acc\<rparr>)
          else (int (length (take (nat m) want)), ch\<lparr>outbox := outbox ch @ take (nat m) want, accepts := acc\<rparr>))"

text \<open>The \<^verbatim>\<open>sendfile\<close> loop: \<^verbatim>\<open>-1\<close> for a failed send, otherwise what was sent when it ended.\<close>

function sendfile_loop :: "(nat \<Rightarrow> bool) \<Rightarrow> string \<Rightarrow> int \<Rightarrow> int \<Rightarrow> nat \<Rightarrow> chan \<Rightarrow> int \<times> chan" where
  "sendfile_loop wait dat block fsize tot ch =
     (if wait tot \<and> int tot < fsize then
        (case Dir_send ch dat tot block of
           (sent, ch) \<Rightarrow>
             if \<not> sent > 0 then (-1, ch) else sendfile_loop wait dat block fsize (tot + nat sent) ch)
      else (int tot, ch))"
  by pat_completeness auto
termination
  by (relation "measure (\<lambda>(w, d, b, fsize, tot, ch). nat fsize - tot)") auto

declare sendfile_loop.simps [simp del]

text \<open>The buffered loops of the TLS path: one block, and block after block.\<close>

function send_block :: "('p, 'c) conn \<Rightarrow> string \<Rightarrow> nat \<Rightarrow> (bool \<times> ('p, 'c) conn) cres" where
  "send_block c blk sent =
     (if sent < length blk then
        (case conn_send c (drop sent blk) (int (length blk - sent)) of
           Inl e \<Rightarrow> Inl e
         | Inr (amt, c) \<Rightarrow> if \<not> amt > 0 then Inr (False, c) else send_block c blk (sent + nat amt))
      else Inr (True, c))"
  by pat_completeness auto
termination
  by (relation "measure (\<lambda>(c, blk, sent). length blk - sent)") auto

declare send_block.simps [simp del]

function buffered_loop :: "('p, 'c) conn \<Rightarrow> string \<Rightarrow> nat \<Rightarrow> nat \<Rightarrow> (int \<times> ('p, 'c) conn) cres" where
  "buffered_loop c dat bufsize tot =
     (let blk = take bufsize (drop tot dat) in
      if length blk > 0 then
        (case send_block c blk 0 of
           Inl e \<Rightarrow> Inl e
         | Inr (ok, c) \<Rightarrow> if \<not> ok then Inr (-1, c) else buffered_loop c dat bufsize (tot + length blk))
      else Inr (int tot, c))"
  by pat_completeness auto
termination
  by (relation "measure (\<lambda>(c, dat, bufsize, tot). length dat - tot)") auto

declare buffered_loop.simps [simp del]

definition Dir_stream_file :: "('p, 'c) env \<Rightarrow> FileRecord \<Rightarrow> ('p, 'c) conn \<Rightarrow> (int \<times> ('p, 'c) conn) cres" where
  "Dir_stream_file E fr c =
     cbind (Dir_send_header fr c) (\<lambda>(ok, c).
       if \<not> ok then Inr (-1, c)
       else
         (let fpath = cstr (case full_path fr of None \<Rightarrow> [] | Some p \<Rightarrow> p); dat = file_data E fpath;
              fsize = st_size (sb fr); block = MAX_SEND_BUFFER (dir_lims E) in
          cbind (if \<not> ssl c then
                   (let (tot, ch) = sendfile_loop (fdwait_ok E) dat block fsize 0 (sock c) in
                    Inr (tot, c\<lparr>sock := ch\<rparr>))
                 else if \<not> open_file (fops E) fpath \<ge> 0 then Inr (-1, c)
                 else if block < 0 then Inr (-1, c)
                 else buffered_loop c dat (nat block) 0) (\<lambda>(tot, c).
            if tot = -1 then Inr (-1, c)
            else if \<not> tot \<le> fsize then Inr (-1, c)
            else if tot \<noteq> fsize then Inr (-1, c)
            else Inr (to_int32 tot, c))))"

section \<open>Serving\<close>

definition put_dir :: "nat \<Rightarrow> dir \<Rightarrow> files \<Rightarrow> ('p, 'c) conn \<Rightarrow> ('p, 'c) conn" where
  "put_dir n d fs c = c\<lparr>dirs := (dirs c)(n := d), files := fs\<rparr>"

definition release_file :: "nat option \<Rightarrow> int \<Rightarrow> ('p, 'c) conn \<Rightarrow> (int \<times> ('p, 'c) conn) cres" where
  "release_file a rc c = cbind (FileRecord_release a (files c)) (\<lambda>fs. Inr (rc, c\<lparr>files := fs\<rparr>))"

definition Dir_serve_file :: "('p, 'c) env \<Rightarrow> nat \<Rightarrow> ('p, 'c) conn \<Rightarrow> (int \<times> ('p, 'c) conn) cres" where
  "Dir_serve_file E n c =
     (let is_get = biseq (request_method (req c)) (Some HTTP_GET) \<noteq> 0;
          is_head = \<not> is_get \<and> biseq (request_method (req c)) (Some HTTP_HEAD) \<noteq> 0 in
      case path (req c) of
        None \<Rightarrow> Inr (-1, c)
      | Some pth \<Rightarrow>
          (let c = c\<lparr>req := (req c)\<lparr>response_size := 0\<rparr>\<rparr> in
           if \<not> (is_get \<or> is_head) then
             cbind (Response_send_status (c\<lparr>req := (req c)\<lparr>status_code := 405\<rparr>\<rparr>) HTTP_405) (\<lambda>(rc, c). Inr (-1, c))
           else
             cbind (Dir_resolve_file (mem E) (fops E) (dir_lims E) (mime E) (now c) (dirs c n)
                      (req_pattern (req c)) pth (files c)) (\<lambda>(file, d, fs).
               let c = put_dir n d fs c; fr = Option.bind file (frecs fs) in
               cbind (Dir_calculate_response (to_time E) (now c) (req c) fr) (\<lambda>(resp, rq).
                 let c = c\<lparr>req := rq\<rparr> in
                 case resp of
                   Some r \<Rightarrow>
                     cbind (Response_send_status c r) (\<lambda>(rc, c).
                       release_file file (if rc = int (length r) then 0 else -1) c)
                 | None \<Rightarrow>
                     (case fr of
                        None \<Rightarrow> Inl Null_deref
                      | Some fr \<Rightarrow>
                          if is_get then
                            cbind (Dir_stream_file E fr c) (\<lambda>(rc, c).
                              release_file file (if rc = st_size (sb fr) then 0 else -1)
                                (c\<lparr>req := (req c)\<lparr>response_size := rc\<rparr>\<rparr>))
                          else
                            cbind (Dir_send_header fr c) (\<lambda>(ok, c).
                              release_file file (if ok then 0 else -1) c))))))"

end
