(* ===== verification/Sample_World.thy ===== *)
theory Sample_World
  imports Wire
begin

text \<open>
  Concrete parameters, small enough to compute with, on which the properties of the connection, the proxy and
  the directory server are shown to apply.
\<close>

section \<open>A small world\<close>

text \<open>
  A connection to a server without hosts, and a parser that takes any four bytes as a complete header
  announcing three more.
\<close>

definition sample_parser :: "unit http_parser" where
  "sample_parser = \<lparr>json_sent = 0, socket_started = 0, content_len = 0, body_start = 0, machine = ()\<rparr>"

definition sample_client :: "unit httpclient_parser" where
  "sample_client = \<lparr>cl_body_start = 0, cl_content_len = 0, cl_status = 0, cl_chunked = 0, chunks_done = 0, cl_machine = ()\<rparr>"

definition sample_http :: "unit parser_ops" where
  "sample_http = \<lparr>http_parser_init = (\<lambda>p. sample_parser),
     http_parser_execute = (\<lambda>p b n. if length b \<ge> 4
        then ([On_method ''POST'', On_path ''/a''], p\<lparr>body_start := 4, content_len := 3\<rparr>, length b) else ([], p, length b)),
     http_parser_finish = (\<lambda>p. if body_start p = 4 then 1 else 0)\<rparr>"

definition sample_env :: "(unit, unit) env" where
  "sample_env = \<lparr>http = sample_http,
     httpclient = \<lparr>httpclient_parser_init = (\<lambda>p. p), httpclient_parser_execute = (\<lambda>p b n k. (n, p)),
       httpclient_parser_has_error = (\<lambda>p. False), httpclient_parser_finish = (\<lambda>p. 1)\<rparr>,
     fops = \<lparr>stat_of = (\<lambda>_. None), open_file = (\<lambda>_. -1), realpath = (\<lambda>_. None), bStrfTime = (\<lambda>_. None)\<rparr>,
     file_data = (\<lambda>_. []), to_time = (\<lambda>_ _. None), sets = Null,
     lims = \<lparr>MAX_CONTENT_LENGTH = 100, BUFFER_SIZE = 20, CONNECTION_STACK = 0\<rparr>,
     dir_lims = \<lparr>MAX_SEND_BUFFER = 16, MAX_DIR_PATH = 256\<rparr>, mime = mime_init, fdwait_ok = (\<lambda>_. True),
     new_client = sample_client, mem = True\<rparr>"

definition sample_handler :: handler where
  "sample_handler = \<lparr>send_socket = Some 1, recv_socket = Some 2, send_ident = ''test'', recv_ident = ''test'',
     recv_spec = [], send_spec = [], h_task = None, running = 1\<rparr>"

definition quiet_chan :: chan where
  "quiet_chan = \<lparr>inbox = [], in_end = 0, outbox = [], accepts = []\<rparr>"

definition sample_conn_for :: "string list \<Rightarrow> (unit, unit) conn" where
  "sample_conn_for packets =
     \<lparr>server = the (Server_create (\<lambda>_. True) ''id'' ''localhost'' ''6767'' [] [] [] []), conn_fd = 5, proxy_fd = 0,
      req = the (Request_create True 4 sample_parser), nread = 0, nparsed = 0, registered = 0, rport = 0,
      buf = replicate 21 NUL, proxy_buf = None, client = None, remote = replicate 17 NUL, conn_close = 0,
      ssl = False, ssl_buff = None, ssl_buff_len = 0, buf_gen = 0,
      sock = \<lparr>inbox = packets, in_end = 0, outbox = [], accepts = []\<rparr>, ssl_in = [], backend_sock = quiet_chan,
      dials = [], mq_results = [], delivered = [], registry = empty_register,
      dirs = (\<lambda>_. \<lparr>fr_cache = None, base = [], normalized_base = None, index_file = [], default_ctype = []\<rparr>),
      files = \<lparr>frecs = (\<lambda>_. None), next_fr = 0, closed = []\<rparr>, temps = [], uploads = [], unlinked = [],
      access_log_lines = [], fds_closed = [], clock = [], freed = False\<rparr>"

end
