(* ===== verification/Proxy.thy ===== *)
theory Proxy
  imports Sample_World
begin

text \<open>
  \<^verbatim>\<open>src/proxy.c\<close>: streaming a backend's response to the client.  The loops stop only when the
  backend lets them, so they are partial: \<open>None\<close> is a loop that never returns.  The generated
  client parser is a parameter of the environment.
\<close>

section \<open>Operations\<close>

definition Proxy_create :: "bool \<Rightarrow> bstring \<Rightarrow> int \<Rightarrow> proxy option" where
  "Proxy_create m srv prt = (if m then Some \<lparr>proxy_server = srv, proxy_port = prt\<rparr> else None)"

text \<open>\<^verbatim>\<open>fdrecv(conn->proxy_fd, conn->proxy_buf + start, len)\<close>.\<close>

definition proxy_recv :: "('p, 'c) conn \<Rightarrow> int \<Rightarrow> int \<Rightarrow> (int \<times> ('p, 'c) conn) cres" where
  "proxy_recv c start len =
     (case proxy_buf c of
        None \<Rightarrow> Inl Null_deref
      | Some pb \<Rightarrow>
          (let (n, got, ch) = fdrecv (backend_sock c) len in
           if got = [] then Inr (n, c\<lparr>backend_sock := ch\<rparr>)
           else cbind (put_buf pb start got) (\<lambda>b. Inr (n, c\<lparr>backend_sock := ch, proxy_buf := Some b\<rparr>))))"

definition send_proxy_buf :: "('p, 'c) conn \<Rightarrow> int \<Rightarrow> (int \<times> ('p, 'c) conn) cres" where
  "send_proxy_buf c n = (case proxy_buf c of None \<Rightarrow> Inl Null_deref | Some pb \<Rightarrow> conn_send c pb n)"

text \<open>The loop of \<^verbatim>\<open>Proxy_stream_response\<close>: whether it failed, and what remains.\<close>

partial_function (option) stream_loop ::
    "int \<Rightarrow> ('p, 'c) conn \<Rightarrow> int \<Rightarrow> ((bool \<times> int \<times> ('p, 'c) conn) cres) option" where
  "stream_loop bufsize c remaining =
     (if remaining > 0 then
        (case proxy_recv c 0 (if remaining > bufsize then bufsize else remaining) of
           Inl e \<Rightarrow> Some (Inl e)
         | Inr (n, c1) \<Rightarrow>
             if n = -1 then Some (Inr (False, remaining, c1))
             else (case send_proxy_buf c1 n of
                Inl e \<Rightarrow> Some (Inl e)
              | Inr (rc, c2) \<Rightarrow>
                  if rc = -1 then Some (Inr (False, remaining, c2))
                  else stream_loop bufsize c2 (remaining - n)))
      else Some (Inr (True, remaining, c)))"

definition Proxy_stream_response ::
    "('p, 'c) env \<Rightarrow> ('p, 'c) conn \<Rightarrow> int \<Rightarrow> int \<Rightarrow> ((int \<times> ('p, 'c) conn) cres) option" where
  "Proxy_stream_response E c tot n =
     (case send_proxy_buf c n of
        Inl e \<Rightarrow> Some (Inl e)
      | Inr (rc, c) \<Rightarrow>
          if rc \<noteq> n then Some (Inr (-1, c))
          else Option.bind (stream_loop (BUFFER_SIZE (lims E)) c (tot - n)) (\<lambda>r. Some
            (cbind r (\<lambda>(ok, remaining, c).
               if \<not> ok then Inr (-1, c)
               else if remaining \<noteq> 0 then Inl Assert_fail
               else Inr (tot, c)))))"

partial_function (option) scan_chunks ::
    "'c client_ops \<Rightarrow> string \<Rightarrow> 'c httpclient_parser \<Rightarrow> int \<Rightarrow> int \<Rightarrow> (int \<times> 'c httpclient_parser) option" where
  "scan_chunks ops pb cl n from =
     (let (rc, cl1) = httpclient_parser_execute ops (httpclient_parser_init ops cl) pb n from in
      if rc = -1 then Some (-1, cl1)
      else if httpclient_parser_has_error ops cl1 then Some (-1, cl1)
      else if cl_chunked cl1 = 0 then Some (from, cl1)
      else
        (let fin = cl_body_start cl1 + cl_content_len cl1 + 2 in
         if chunks_done cl1 = 0 \<and> cl_content_len cl1 > 0 \<and> fin < n - 1
         then scan_chunks ops pb cl1 n fin
         else Some (fin, cl1)))"

definition proxy_read_some :: "('p, 'c) env \<Rightarrow> ('p, 'c) conn \<Rightarrow> int \<Rightarrow> (int \<times> ('p, 'c) conn) cres" where
  "proxy_read_some E c start =
     cbind (proxy_recv c start (BUFFER_SIZE (lims E) - start)) (\<lambda>(n, c).
       if n = -1 then Inr (-1, c)
       else cbind (put_buf (the (proxy_buf c)) n [NUL]) (\<lambda>b. Inr (n, c\<lparr>proxy_buf := Some b\<rparr>)))"

definition Proxy_read_and_parse :: "('p, 'c) env \<Rightarrow> ('p, 'c) conn \<Rightarrow> int \<Rightarrow> (int \<times> ('p, 'c) conn) cres" where
  "Proxy_read_and_parse E c start =
     (case client c of
        None \<Rightarrow> Inl Assert_fail
      | Some cl \<Rightarrow>
          (let ops = httpclient E; cl = httpclient_parser_init ops cl in
           cbind (proxy_read_some E (c\<lparr>client := Some cl\<rparr>) start) (\<lambda>(n, c).
             if n = -1 then Inr (-1, c)
             else
               (let (_, cl) = httpclient_parser_execute ops cl (the (proxy_buf c)) n 0; c = c\<lparr>client := Some cl\<rparr> in
                if httpclient_parser_has_error ops cl then Inr (-1, c)
                else if httpclient_parser_finish ops cl = 0 then Inr (-1, c)
                else Inr (n, c)))))"

text \<open>\<^verbatim>\<open>memmove(proxy_buf + rc, proxy_buf, nread - rc)\<close> within one buffer.\<close>

definition move_up :: "string \<Rightarrow> int \<Rightarrow> int \<Rightarrow> string cres" where
  "move_up pb off n = (if n < 0 \<or> n > int (length pb) then Inl Out_of_bounds else put_buf pb off (take (nat n) pb))"

text \<open>What \<^verbatim>\<open>Proxy_stream_chunks\<close> does behind the chunks it has streamed, when there are more.\<close>

definition next_chunks :: "('p, 'c) env \<Rightarrow> ('p, 'c) conn \<Rightarrow> int \<Rightarrow> int \<Rightarrow> (int \<times> ('p, 'c) conn) cres" where
  "next_chunks E c rc n =
     cbind (if rc < n - 1
            then cbind (move_up (the (proxy_buf c)) rc (n - rc)) (\<lambda>b. Inr (n - rc, c\<lparr>proxy_buf := Some b\<rparr>))
            else Inr (0, c)) (\<lambda>(n, c).
       proxy_read_some E (c\<lparr>client := map_option (\<lambda>cl. cl\<lparr>cl_body_start := 0\<rparr>) (client c)\<rparr>) n)"

partial_function (option) Proxy_stream_chunks ::
    "('p, 'c) env \<Rightarrow> ('p, 'c) conn \<Rightarrow> int \<Rightarrow> ((int \<times> ('p, 'c) conn) cres) option" where
  "Proxy_stream_chunks E c n =
     (case (client c, proxy_buf c) of
        (None, _) \<Rightarrow> Some (Inl Assert_fail)
      | (Some cl, None) \<Rightarrow> Some (Inl Null_deref)
      | (Some cl, Some pb) \<Rightarrow>
          if chunks_done cl \<noteq> 0 then Some (Inr (1, c))
          else Option.bind (scan_chunks (httpclient E) pb cl n (cl_body_start cl)) (\<lambda>(fin, cl).
            if fin = -1 then Some (Inr (-1, c\<lparr>client := Some cl\<rparr>))
            else Option.bind (Proxy_stream_response E (c\<lparr>client := Some cl\<rparr>) fin (if fin > n then n else fin)) (\<lambda>r.
              case r of
                Inl e \<Rightarrow> Some (Inl e)
              | Inr (rc, c1) \<Rightarrow>
                  if rc \<noteq> fin then Some (Inr (-1, c1))
                  else if chunks_done cl \<noteq> 0 then Some (Inr (1, c1))
                  else (case next_chunks E c1 rc n of
                     Inl e \<Rightarrow> Some (Inl e)
                   | Inr (n1, c2) \<Rightarrow> Proxy_stream_chunks E c2 n1))))"

section \<open>Streaming a response of known length\<close>

text \<open>A plain client that takes everything.\<close>

definition open_client :: "('p, 'c) conn \<Rightarrow> bool" where
  "open_client c \<longleftrightarrow> \<not> ssl c \<and> accepts (sock c) = []"

lemma send_proxy_buf_open:
  assumes "open_client c" "proxy_buf c = Some pb" "n \<le> int (length pb)"
  shows "send_proxy_buf c n =
    Inr (int (nat n), c\<lparr>sock := (sock c)\<lparr>outbox := outbox (sock c) @ take (nat n) pb, accepts := []\<rparr>\<rparr>)"
  using assms by (auto simp: send_proxy_buf_def conn_send_def plaintext_send_def fdsend_def open_client_def send_loop.simps)

lemma proxy_recv_eq:
  assumes "proxy_buf c = Some pb" "0 \<le> len" "len \<le> int (length pb)" "fdrecv (backend_sock c) len = (n, got, ch)"
  shows "proxy_recv c 0 len = Inr (n, c\<lparr>backend_sock := ch, proxy_buf := Some (put_at pb 0 got)\<rparr>)"
proof -
  have "length got \<le> nat len" using fdrecv_received [OF assms(2,4)] by (simp add: received_def)
  then show ?thesis using assms by (cases c) (auto simp: proxy_recv_def put_buf_def)
qed

lemma stream_loop_sends:
  assumes "open_client c" "proxy_buf c = Some pb" "0 < bufsize" "bufsize \<le> int (length pb)"
    "[] \<notin> set (inbox (backend_sock c))" "0 \<le> remaining" "nat remaining \<le> length (concat (inbox (backend_sock c)))"
  shows "\<exists>c'. stream_loop bufsize c remaining = Some (Inr (True, 0, c')) \<and>
    outbox (sock c') = outbox (sock c) @ take (nat remaining) (concat (inbox (backend_sock c)))"
  using assms
proof (induction "nat remaining" arbitrary: c pb remaining rule: less_induct)
  case less
  let ?s = "concat (inbox (backend_sock c))"
  show ?case
  proof (cases "remaining > 0")
    case False
    then show ?thesis using less.prems by (subst stream_loop.simps) simp
  next
    case True
    let ?len = "if remaining > bufsize then bufsize else remaining"
    obtain n got ch where r: "fdrecv (backend_sock c) ?len = (n, got, ch)" by (cases "fdrecv (backend_sock c) ?len")
    have "0 \<le> ?len" "?len \<le> int (length pb)" "0 < ?len" using True less.prems by auto
    note rec = fdrecv_received [OF this(1) r] and pr = proxy_recv_eq [OF less.prems(2) this(1,2) r]
    have "inbox (backend_sock c) \<noteq> []" using less.prems(7) True by auto
    then have got: "got \<noteq> []" "n = int (length got)" "?s = got @ concat (inbox ch)" "[] \<notin> set (inbox ch)" "n \<le> ?len"
      using rec less.prems(5) \<open>0 < ?len\<close> by (auto simp: received_def)
    let ?c1 = "c\<lparr>backend_sock := ch, proxy_buf := Some (put_at pb 0 got)\<rparr>"
    let ?c2 = "?c1\<lparr>sock := (sock c)\<lparr>outbox := outbox (sock c) @ got, accepts := []\<rparr>\<rparr>"
    have gl: "length got \<le> length pb" using got(2,5) \<open>?len \<le> int (length pb)\<close> by linarith
    have snd: "send_proxy_buf ?c1 n = Inr (n, ?c2)"
      using send_proxy_buf_open [of ?c1 "put_at pb 0 got" n] less.prems(1) got(2) by (simp add: open_client_def)
    have step: "stream_loop bufsize c remaining = stream_loop bufsize ?c2 (remaining - n)"
      using True pr snd got(1,2) by (subst stream_loop.simps) simp
    have small: "nat (remaining - n) < nat remaining" using got(1,2) True by auto
    have "open_client ?c2" "proxy_buf ?c2 = Some (put_at pb 0 got)" "bufsize \<le> int (length (put_at pb 0 got))"
      "[] \<notin> set (inbox (backend_sock ?c2))" "0 \<le> remaining - n"
      "nat (remaining - n) \<le> length (concat (inbox (backend_sock ?c2)))"
      using less.prems got gl by (auto simp: open_client_def split: if_splits)
    from less.hyps [OF small this(1,2) less.prems(3) this(3-6)] obtain c' where
      c': "stream_loop bufsize ?c2 (remaining - n) = Some (Inr (True, 0, c'))"
      "outbox (sock c') = outbox (sock ?c2) @ take (nat (remaining - n)) (concat (inbox ch))" by auto
    have "take (nat remaining) ?s = got @ take (nat (remaining - n)) (concat (inbox ch))"
    proof -
      have le: "int (length got) \<le> remaining" using got(2,5) by (auto split: if_splits)
      then have "nat (remaining - n) = nat remaining - length got" "length got \<le> nat remaining"
        using got(2) by (simp_all add: nat_diff_distrib)
      then show ?thesis using got(3) by simp
    qed
    then show ?thesis using step c' by (intro exI [of _ c']) simp
  qed
qed

text \<open>A backend that has closed: the loop gets nothing, sends nothing, and goes round.\<close>

definition backend_closed :: "('p, 'c) conn \<Rightarrow> bool" where
  "backend_closed c \<longleftrightarrow> inbox (backend_sock c) = [] \<and> in_end (backend_sock c) = 0 \<and> proxy_buf c \<noteq> None \<and> \<not> ssl c"

lemma closed_round:
  assumes "backend_closed c"
  shows "\<exists>c1 c2. proxy_recv c 0 len = Inr (0, c1) \<and> send_proxy_buf c1 0 = Inr (0, c2) \<and> backend_closed c2"
proof -
  obtain pb where pb: "proxy_buf c = Some pb" using assms by (auto simp: backend_closed_def)
  have "proxy_recv c 0 len = Inr (0, c)" using assms pb by (cases c) (simp add: proxy_recv_def fdrecv_def backend_closed_def)
  moreover have "\<exists>c2. send_proxy_buf c 0 = Inr (0, c2) \<and> backend_closed c2"
    using assms pb by (auto simp: send_proxy_buf_def conn_send_def plaintext_send_def fdsend_def send_loop.simps backend_closed_def)
  ultimately show ?thesis by blast
qed

lemma stream_loop_spins:
  assumes "backend_closed c" "remaining > 0"
  shows "stream_loop bufsize c remaining = None"
proof (rule ccontr)
  assume "stream_loop bufsize c remaining \<noteq> None"
  then obtain r where r: "stream_loop bufsize c remaining = Some r" by blast
  have "\<not> (backend_closed c \<and> remaining > 0)"
  proof (rule stream_loop.raw_induct [where P = "\<lambda>b c rem r. \<not> (backend_closed c \<and> rem > 0)", OF _ r])
    fix loop b c rem r
    assume IH: "\<And>b c rem r. loop b c rem = Some r \<Longrightarrow> \<not> (backend_closed c \<and> rem > 0)"
      and body: "(if rem > 0 then
        (case proxy_recv c 0 (if rem > b then b else rem) of
           Inl e \<Rightarrow> Some (Inl e)
         | Inr (n, c1) \<Rightarrow>
             if n = -1 then Some (Inr (False, rem, c1))
             else (case send_proxy_buf c1 n of
                Inl e \<Rightarrow> Some (Inl e)
              | Inr (rc, c2) \<Rightarrow>
                  if rc = -1 then Some (Inr (False, rem, c2))
                  else loop b c2 (rem - n)))
      else Some (Inr (True, rem, c))) = Some r"
    show "\<not> (backend_closed c \<and> rem > 0)"
    proof
      assume a: "backend_closed c \<and> rem > 0"
      obtain c1 c2 where "proxy_recv c 0 (if rem > b then b else rem) = Inr (0, c1)" "send_proxy_buf c1 0 = Inr (0, c2)"
        "backend_closed c2" using closed_round a by blast
      then show False using body IH [of b c2 rem r] a by simp
    qed
  qed
  with assms show False by blast
qed

section \<open>Properties\<close>

text \<open>
  C39: a response of known length is streamed to its end: when the backend sends what it announced, in whatever packets, and
  the client takes it, the call returns, and the client has received exactly the announced bytes, those already read and
  those still to come.
\<close>

theorem Proxy_stream_response_complete:
  assumes "open_client c" "proxy_buf c = Some pb" "0 < BUFFER_SIZE (lims E)" "BUFFER_SIZE (lims E) \<le> int (length pb)"
    "[] \<notin> set (inbox (backend_sock c))" "0 \<le> n" "n \<le> tot" "n \<le> int (length pb)"
    "tot \<le> int (length (take (nat n) pb @ concat (inbox (backend_sock c))))"
  shows "\<exists>c'. Proxy_stream_response E c tot n = Some (Inr (tot, c')) \<and>
    outbox (sock c') = outbox (sock c) @ take (nat tot) (take (nat n) pb @ concat (inbox (backend_sock c)))"
proof -
  let ?c1 = "c\<lparr>sock := (sock c)\<lparr>outbox := outbox (sock c) @ take (nat n) pb, accepts := []\<rparr>\<rparr>"
  have snd: "send_proxy_buf c n = Inr (n, ?c1)" using send_proxy_buf_open [OF assms(1,2,8)] assms(6) by simp
  have len: "length (take (nat n) pb) = nat n" using assms(6,8) by simp
  have "open_client ?c1" "proxy_buf ?c1 = Some pb" "[] \<notin> set (inbox (backend_sock ?c1))" "0 \<le> tot - n"
    "nat (tot - n) \<le> length (concat (inbox (backend_sock ?c1)))"
    using assms len by (auto simp: open_client_def)
  from stream_loop_sends [OF this(1,2) assms(3,4) this(3-5)] obtain c' where
    c': "stream_loop (BUFFER_SIZE (lims E)) ?c1 (tot - n) = Some (Inr (True, 0, c'))"
    "outbox (sock c') = outbox (sock ?c1) @ take (nat (tot - n)) (concat (inbox (backend_sock ?c1)))" by blast
  have "take (nat tot) (take (nat n) pb @ concat (inbox (backend_sock c))) =
      take (nat n) pb @ take (nat (tot - n)) (concat (inbox (backend_sock c)))"
    using len assms(6,7) by (simp add: nat_diff_distrib)
  then show ?thesis using snd c' by (simp add: Proxy_stream_response_def)
qed

definition sample_proxied :: "string list \<Rightarrow> (unit, unit) conn" where
  "sample_proxied packets = (sample_conn_for [])\<lparr>proxy_fd := 9, proxy_buf := Some (''HTTP'' @ replicate 17 NUL),
     client := Some sample_client, backend_sock := quiet_chan\<lparr>inbox := packets\<rparr>\<rparr>"

lemma sample_proxied_simps:
  "open_client (sample_proxied ps)" "proxy_buf (sample_proxied ps) = Some (''HTTP'' @ replicate 17 NUL)"
  "inbox (backend_sock (sample_proxied ps)) = ps" "accepts (sock (sample_proxied ps)) = []"
  "backend_closed (sample_proxied [])" "BUFFER_SIZE (lims sample_env) = 20"
  by (simp_all add: sample_proxied_def open_client_def sample_conn_for_def backend_closed_def quiet_chan_def sample_env_def)

lemma Proxy_stream_response_complete_witness:
  "\<exists>c'. Proxy_stream_response sample_env (sample_proxied [''/1.1 2'', ''00'']) 10 4 = Some (Inr (10, c')) \<and>
    outbox (sock c') = outbox (sock (sample_proxied [''/1.1 2'', ''00''])) @
      take (nat 10) (take (nat 4) (''HTTP'' @ replicate 17 NUL) @ concat (inbox (backend_sock (sample_proxied [''/1.1 2'', ''00'']))))"
  by (rule Proxy_stream_response_complete) (simp_all add: sample_proxied_simps)

text \<open>
  C40: a backend that closes the connection before it has sent what it announced catches the server in a loop: \<^verbatim>\<open>fdrecv\<close>
  answers 0, which is not taken as an error, and the call never returns.
\<close>

theorem Proxy_stream_response_spins:
  assumes "backend_closed c" "proxy_buf c = Some pb" "accepts (sock c) = []" "0 \<le> n" "n \<le> int (length pb)" "n < tot"
  shows "Proxy_stream_response E c tot n = None"
proof -
  let ?c1 = "c\<lparr>sock := (sock c)\<lparr>outbox := outbox (sock c) @ take (nat n) pb, accepts := []\<rparr>\<rparr>"
  have snd: "send_proxy_buf c n = Inr (n, ?c1)"
    using send_proxy_buf_open [OF _ assms(2,5)] assms(1,3,4) by (simp add: open_client_def backend_closed_def)
  have "backend_closed ?c1" using assms(1) by (simp add: backend_closed_def)
  then have "stream_loop (BUFFER_SIZE (lims E)) ?c1 (tot - n) = None" by (rule stream_loop_spins) (use assms(6) in simp)
  then show ?thesis using snd by (simp add: Proxy_stream_response_def)
qed

lemma Proxy_stream_response_spins_witness:
  "Proxy_stream_response sample_env (sample_proxied []) 10 4 = None"
  by (rule Proxy_stream_response_spins [OF sample_proxied_simps(5,2,4)]) simp_all

text \<open>
  a backend that sends more in its first packet than the response it announces ends the server: the bytes that
  remain are then fewer than none, and the assertion behind the loop fails.
\<close>

theorem Proxy_stream_response_overrun:
  assumes "open_client c" "proxy_buf c = Some pb" "n \<le> int (length pb)" "tot < n" "0 \<le> tot"
  shows "Proxy_stream_response E c tot n = Some (Inl Assert_fail)"
  using send_proxy_buf_open [OF assms(1-3)] assms(4,5)
  by (simp add: Proxy_stream_response_def stream_loop.simps)

lemma Proxy_stream_response_overrun_witness:
  "Proxy_stream_response sample_env (sample_proxied []) 2 4 = Some (Inl Assert_fail)"
  by (rule Proxy_stream_response_overrun [OF sample_proxied_simps(1,2)]) simp_all

end
