(* ===== verification/HandlerParser.thy ===== *)
theory HandlerParser
  imports Request
begin

text \<open>
  \<^verbatim>\<open>src/handler_parser.c\<close>, the machine generated from \<^verbatim>\<open>handler_parser.rl\<close> that reads the
  messages of handlers: a sender, a netstring of target identities, and the body.  The machine
  is generated with \<^verbatim>\<open>noend\<close>, so it does not look at the end of the buffer: a read behind the
  message is \<open>Out_of_bounds\<close>.
\<close>

section \<open>The parser\<close>

record hparser =
  hp_body_start :: nat
  hp_body_length :: int
  hp_uuid :: "bstring option"
  target_count :: nat
  target_max :: nat
  targets :: "int list"

definition HandlerParser_create :: "bool \<Rightarrow> bool \<Rightarrow> nat \<Rightarrow> hparser option" where
  "HandlerParser_create mem1 mem2 max_targets =
     (if \<not> mem1 then None
      else if \<not> mem2 then None
      else Some \<lparr>hp_body_start = 0, hp_body_length = 0, hp_uuid = None, target_count = 0,
                target_max = max_targets, targets = replicate max_targets 0\<rparr>)"

definition HandlerParser_reset :: "hparser \<Rightarrow> hparser" where
  "HandlerParser_reset hp = hp\<lparr>hp_uuid := None\<rparr>"

text \<open>The local variables of \<^verbatim>\<open>HandlerParser_execute\<close>.\<close>

record hp_local =
  cs :: int
  pos :: nat
  mark :: nat
  targets_start :: nat
  target_expected_len :: int

text \<open>\<^verbatim>\<open>strtoul\<close> at a mark, clamped to 64 bits.\<close>

definition strtoul_at :: "string \<Rightarrow> nat \<Rightarrow> int" where
  "strtoul_at b m = min (2 ^ 64 - 1) (digits_val (drop m b))"

text \<open>The labels the generated code jumps to.\<close>

datatype hp_label = St0 | Tr0 | St2 | Tr2 | Tr4 | St4 | Tr6 | Tr7 | Tr8 | Tr9 | Tr11 | Tr13 | St7 | St8

definition uuid_char :: "char \<Rightarrow> bool" where
  "uuid_char c \<longleftrightarrow> c = CHR ''-'' \<or> isdigit c \<or> isalpha c"

definition hp_jump :: "int \<Rightarrow> char \<Rightarrow> hp_label" where
  "hp_jump st c =
     (if st = 1 then (if uuid_char c then Tr0 else St0)
      else if st = 2 then (if c = CHR '' '' then Tr2 else if uuid_char c then St2 else St0)
      else if st = 3 then (if isdigit c then Tr4 else St0)
      else if st = 4 then (if c = CHR '':'' then Tr6 else if isdigit c then St4 else St0)
      else if st = 5 then (if c = CHR '','' then Tr7 else if isdigit c then Tr8 else St0)
      else if st = 6 then (if c = CHR '' '' then Tr9 else St0)
      else if st = 7 then (if c = CHR '' '' then St8 else if c = CHR '','' then Tr11 else if isdigit c then St7 else St0)
      else if st = 8 then (if c = CHR '','' then Tr11 else if isdigit c then Tr13 else St0)
      else St0)"

text \<open>The actions; the flag falls on a jump to \<^verbatim>\<open>error\<close>.\<close>

type_synonym hp_state = "bool \<times> hparser \<times> hp_local"

definition hp_goto :: "int \<Rightarrow> hp_local \<Rightarrow> hp_local" where
  "hp_goto st l = l\<lparr>pos := Suc (pos l), cs := st\<rparr>"

definition hp_length :: "string \<Rightarrow> hparser \<Rightarrow> hp_local \<Rightarrow> hp_state" where
  "hp_length b hp l =
     (mark l + length (takeWhile isdigit (drop (mark l) b)) = pos l,
      hp, l\<lparr>target_expected_len := to_int32 (strtoul_at b (mark l))\<rparr>)"

definition hp_identifier :: "string \<Rightarrow> hparser \<Rightarrow> hp_local \<Rightarrow> hp_state" where
  "hp_identifier b hp l =
     (if target_count hp < target_max hp
      then (True, hp\<lparr>targets := (targets hp)[target_count hp := strtoul_at b (mark l)],
                     target_count := Suc (target_count hp)\<rparr>, l)
      else (False, hp, l))"

definition hp_targets_end :: "hparser \<Rightarrow> hp_local \<Rightarrow> hp_state" where
  "hp_targets_end hp l = (int (pos l) - int (targets_start l) = target_expected_len l, hp, l)"

fun hp_then :: "hp_state \<Rightarrow> (hparser \<Rightarrow> hp_local \<Rightarrow> hp_state) \<Rightarrow> hp_state" where
  "hp_then (ok, hp, l) f = (if ok then f hp l else (False, hp, l))"

fun hp_act :: "string \<Rightarrow> hp_label \<Rightarrow> hparser \<Rightarrow> hp_local \<Rightarrow> hp_state" where
  "hp_act b Tr0 hp l = (True, hp, hp_goto 2 (l\<lparr>mark := pos l\<rparr>))"
| "hp_act b St2 hp l = (True, hp, hp_goto 2 l)"
| "hp_act b Tr2 hp l =
     (True, hp\<lparr>hp_uuid := blk2bstr (drop (mark l) b) (int (pos l) - int (mark l))\<rparr>, hp_goto 3 l)"
| "hp_act b Tr4 hp l = (True, hp, hp_goto 4 (l\<lparr>mark := pos l\<rparr>))"
| "hp_act b St4 hp l = (True, hp, hp_goto 4 l)"
| "hp_act b Tr6 hp l = hp_then (hp_length b hp l) (\<lambda>hp l. (True, hp, hp_goto 5 l))"
| "hp_act b Tr7 hp l =
     hp_then (hp_targets_end hp (l\<lparr>targets_start := pos l\<rparr>)) (\<lambda>hp l. (True, hp, hp_goto 6 l))"
| "hp_act b Tr8 hp l = (True, hp, hp_goto 7 (l\<lparr>targets_start := pos l, mark := pos l\<rparr>))"
| "hp_act b Tr11 hp l =
     hp_then (hp_then (hp_identifier b hp l) hp_targets_end) (\<lambda>hp l. (True, hp, hp_goto 6 l))"
| "hp_act b Tr13 hp l = hp_then (hp_identifier b hp l) (\<lambda>hp l. (True, hp, hp_goto 7 (l\<lparr>mark := pos l\<rparr>)))"
| "hp_act b St7 hp l = (True, hp, hp_goto 7 l)"
| "hp_act b St8 hp l = (True, hp, hp_goto 8 l)"
| "hp_act b Tr9 hp l = (True, hp, hp_goto 9 l)"
| "hp_act b St0 hp l = (True, hp, l\<lparr>cs := 0\<rparr>)"

lemma hp_act_pos: "hp_act b lab hp l = (True, hp', l') \<Longrightarrow> lab \<noteq> St0 \<Longrightarrow> pos l' = Suc (pos l)"
  by (cases lab) (auto simp: hp_goto_def hp_length_def hp_targets_end_def hp_identifier_def split: if_splits)

text \<open>The run up to \<^verbatim>\<open>error\<close> or \<^verbatim>\<open>_out\<close>: in state 0, or behind the action \<^verbatim>\<open>done\<close>.\<close>

function hp_run :: "string \<Rightarrow> hparser \<Rightarrow> hp_local \<Rightarrow> hp_state cres" where
  "hp_run b hp l =
     (if \<not> pos l < length b then Inl Out_of_bounds
      else
        (let lab = hp_jump (cs l) (b ! pos l) in
         case hp_act b lab hp l of
           (ok, hp', l') \<Rightarrow>
             if \<not> ok \<or> lab = St0 \<or> lab = Tr9 then Inr (ok, hp', l') else hp_run b hp' l'))"
  by pat_completeness auto
termination
  by (relation "measure (\<lambda>(b, hp, l). length b - pos l)") (auto dest!: hp_act_pos [OF sym])

declare hp_run.simps [simp del]

definition HandlerParser_execute :: "hparser \<Rightarrow> string \<Rightarrow> (int \<times> hparser) cres" where
  "HandlerParser_execute hp b =
     cbind (hp_run b (hp\<lparr>target_count := 0, hp_uuid := None\<rparr>)
              \<lparr>cs = 1, pos = 0, mark = 0, targets_start = 0, target_expected_len = 0\<rparr>)
       (\<lambda>(ok, hp, l).
          if \<not> ok then Inr (-1, hp)
          else if \<not> pos l \<le> length b then Inr (-1, hp)
          else
            (let hp = hp\<lparr>hp_body_start := pos l, hp_body_length := int (length b) - int (pos l)\<rparr> in
             Inr (if cs l = 0 then -1 else if cs l \<ge> 9 then 1 else 0, hp)))"

section \<open>Reading a well-formed message\<close>

text \<open>One character in a state that goes on.\<close>

lemma hp_step:
  assumes "pos l < length b" "hp_jump (cs l) (b ! pos l) = lab" "lab \<noteq> St0" "lab \<noteq> Tr9"
    "hp_act b lab hp l = (True, hp', l')"
  shows "hp_run b hp l = hp_run b hp' l'"
  using assms by (subst hp_run.simps) (simp add: Let_def)

text \<open>Runs of characters that keep a state.\<close>

lemma hp_run_keep:
  assumes "\<And>c. P c \<Longrightarrow> hp_jump st c = lab" "\<And>hp l. hp_act b lab hp l = (True, hp, hp_goto st l)"
    "lab \<noteq> St0" "lab \<noteq> Tr9"
  shows "cs l = st \<Longrightarrow> b = u @ w @ v \<Longrightarrow> pos l = length u \<Longrightarrow> \<forall>c\<in>set w. P c \<Longrightarrow>
    hp_run b hp l = hp_run b hp (l\<lparr>pos := length u + length w\<rparr>)"
proof (induction w arbitrary: l u)
  case (Cons c w)
  have "hp_run b hp l = hp_run b hp (hp_goto st l)"
    using Cons.prems assms by (intro hp_step) auto
  also have "\<dots> = hp_run b hp ((hp_goto st l)\<lparr>pos := length (u @ [c]) + length w\<rparr>)"
    using Cons.prems by (intro Cons.IH) (auto simp: hp_goto_def)
  also have "(hp_goto st l)\<lparr>pos := length (u @ [c]) + length w\<rparr> = l\<lparr>pos := length u + length (c # w)\<rparr>"
    using Cons.prems by (simp add: hp_goto_def)
  finally show ?case .
next
  case Nil
  then show ?case by (cases l) simp
qed

lemma digit_chars: "isdigit c \<Longrightarrow> c \<noteq> CHR '' '' \<and> c \<noteq> CHR '','' \<and> c \<noteq> CHR '':'' \<and> uuid_char c"
  by (auto simp: isdigit_def uuid_char_def)

lemma uuid_not_space: "uuid_char c \<Longrightarrow> c \<noteq> CHR '' ''"
  by (auto simp: isdigit_def uuid_char_def isalpha_def isupper_def islower_def)

lemmas keep_uuid = hp_run_keep [where P = uuid_char and st = 2 and lab = St2]
lemmas keep_length = hp_run_keep [where P = isdigit and st = 4 and lab = St4]
lemmas keep_ident = hp_run_keep [where P = isdigit and st = 7 and lab = St7]

text \<open>Targets as handlers write them: decimal numbers with one space between them.\<close>

definition more_ids :: "nat list \<Rightarrow> string" where
  "more_ids ids = concat (map (\<lambda>i. '' '' @ nat_digits i) ids)"

fun id_text :: "nat list \<Rightarrow> string" where
  "id_text [] = []"
| "id_text (i # ids) = nat_digits i @ more_ids ids"

fun record_ids :: "nat list \<Rightarrow> hparser \<Rightarrow> hparser" where
  "record_ids [] hp = hp"
| "record_ids (i # ids) hp =
     record_ids ids (hp\<lparr>targets := (targets hp)[target_count hp := int i], target_count := Suc (target_count hp)\<rparr>)"

lemma digits_val_written:
  assumes "\<not> isdigit c"
  shows "digits_val (nat_digits i @ c # v) = int i"
    "length (takeWhile isdigit (nat_digits i @ c # v)) = length (nat_digits i)"
proof -
  have tw: "takeWhile isdigit (nat_digits i @ c # v) = nat_digits i"
    using takeWhile_digits [OF _ assms] nat_digits_props by blast
  show "digits_val (nat_digits i @ c # v) = int i"
    unfolding digits_val_def tw using nat_digits_props by blast
  show "length (takeWhile isdigit (nat_digits i @ c # v)) = length (nat_digits i)" by (simp add: tw)
qed

lemma strtoul_written:
  assumes "\<not> isdigit c" "i < 2 ^ 64"
  shows "strtoul_at (u @ nat_digits i @ c # v) (length u) = int i"
proof -
  have "int i \<le> 2 ^ 64 - 1" using assms(2) by simp
  then show ?thesis using assms(1) by (simp add: strtoul_at_def digits_val_written)
qed

lemma ident_stored:
  assumes "b = u @ nat_digits i @ c # v" "\<not> isdigit c" "i < 2 ^ 64" "mark l = length u" "target_count hp < target_max hp"
  shows "hp_identifier b hp l = (True, record_ids [i] hp, l)"
  using assms strtoul_written [of c i u v] by (simp add: hp_identifier_def)

text \<open>From the end of the first number to the comma.\<close>

lemma ids_run:
  assumes "cs l = 7" "b = u @ nat_digits i @ more_ids ids @ '','' @ v" "mark l = length u"
    "pos l = length u + length (nat_digits i)" "\<forall>j\<in>set (i # ids). j < 2 ^ 64"
    "target_count hp + length (i # ids) \<le> target_max hp"
    "target_expected_len l = int (length (u @ nat_digits i @ more_ids ids)) - int (targets_start l)"
  shows "\<exists>l'. hp_run b hp l = hp_run b (record_ids (i # ids) hp) l' \<and> cs l' = 6 \<and>
    pos l' = Suc (length (u @ nat_digits i @ more_ids ids))"
  using assms
proof (induction ids arbitrary: i u l hp)
  case Nil
  have at: "b ! pos l = CHR '',''" using Nil.prems by (simp add: more_ids_def nth_append)
  have st: "hp_identifier b hp l = (True, record_ids [i] hp, l)"
    using Nil.prems by (intro ident_stored [of b u i "CHR '',''" v]) (auto simp: more_ids_def isdigit_def)
  have len: "int (pos l) - int (targets_start l) = target_expected_len l" using Nil.prems by (simp add: more_ids_def)
  have act: "hp_act b Tr11 hp l = (True, record_ids [i] hp, hp_goto 6 l)" by (simp add: st hp_targets_end_def len)
  have "hp_run b hp l = hp_run b (record_ids [i] hp) (hp_goto 6 l)"
    using Nil.prems at by (intro hp_step [OF _ _ _ _ act]) (simp_all add: hp_jump_def)
  then show ?case using Nil.prems by (intro exI [of _ "hp_goto 6 l"]) (simp add: hp_goto_def more_ids_def)
next
  case (Cons j ids)
  let ?u = "u @ nat_digits i @ '' ''"
  let ?l1 = "hp_goto 8 l" and ?hp = "record_ids [i] hp"
  obtain d ds where dj: "nat_digits j = d # ds" and dd: "isdigit d" "\<forall>c\<in>set ds. isdigit c"
    using nat_digits_props [of j] by (cases "nat_digits j") auto
  have b: "b = ?u @ nat_digits j @ more_ids ids @ '','' @ v" using Cons.prems(2) by (simp add: more_ids_def)
  have p1: "pos ?l1 = length ?u" "cs ?l1 = 8" "mark ?l1 = length u" using Cons.prems by (simp_all add: hp_goto_def)
  have "hp_run b hp l = hp_run b hp ?l1"
    using Cons.prems by (intro hp_step [where lab = St8]) (auto simp: hp_jump_def more_ids_def nth_append)
  also have "\<dots> = hp_run b ?hp (hp_goto 7 (?l1\<lparr>mark := pos ?l1\<rparr>))"
  proof (rule hp_step [where lab = Tr13])
    show "hp_jump (cs ?l1) (b ! pos ?l1) = Tr13"
      using p1 digit_chars [OF dd(1)] dd(1) unfolding b by (simp add: hp_jump_def dj nth_append)
    have "hp_identifier b hp ?l1 = (True, ?hp, ?l1)"
      using Cons.prems p1 by (intro ident_stored [of b u i "CHR '' ''"]) (auto simp: more_ids_def isdigit_def)
    then show "hp_act b Tr13 hp ?l1 = (True, ?hp, hp_goto 7 (?l1\<lparr>mark := pos ?l1\<rparr>))" by simp
  qed (use p1 in \<open>simp_all add: b dj\<close>)
  also have "\<dots> = hp_run b ?hp ((hp_goto 7 (?l1\<lparr>mark := pos ?l1\<rparr>))\<lparr>pos := length (?u @ [d]) + length ds\<rparr>)"
    using p1 dd digit_chars unfolding b
    by (intro keep_ident [where u = "?u @ [d]" and v = "more_ids ids @ '','' @ v"])
      (auto simp: hp_jump_def dj hp_goto_def)
  also have "\<exists>l'. \<dots> = hp_run b (record_ids (j # ids) ?hp) l' \<and> cs l' = 6 \<and>
      pos l' = Suc (length (?u @ nat_digits j @ more_ids ids))"
    using Cons.prems p1 by (intro Cons.IH) (simp_all add: b dj hp_goto_def more_ids_def)
  finally show ?case by (simp add: more_ids_def)
qed

lemma record_ids_effect:
  "target_count hp + length ids \<le> length (targets hp) \<Longrightarrow>
   take (target_count hp + length ids) (targets (record_ids ids hp)) = take (target_count hp) (targets hp) @ map int ids \<and>
   target_count (record_ids ids hp) = target_count hp + length ids \<and> hp_uuid (record_ids ids hp) = hp_uuid hp \<and>
   target_max (record_ids ids hp) = target_max hp"
proof (induction ids arbitrary: hp)
  case (Cons i ids)
  let ?hp = "hp\<lparr>targets := (targets hp)[target_count hp := int i], target_count := Suc (target_count hp)\<rparr>"
  have "take (Suc (target_count hp)) (targets ?hp) = take (target_count hp) (targets hp) @ [int i]"
    using Cons.prems by (simp add: take_Suc_conv_app_nth)
  with Cons.IH [of ?hp] Cons.prems show ?case by simp
qed simp

definition handler_message :: "string \<Rightarrow> nat list \<Rightarrow> string \<Rightarrow> string" where
  "handler_message uid ids body =
     uid @ '' '' @ nat_digits (length (id_text ids)) @ '':'' @ id_text ids @ '','' @ '' '' @ body"

text \<open>The sender and the length of the targets.\<close>

lemma uuid_run:
  assumes "b = uid @ '' '' @ v" "uid \<noteq> []" "\<forall>c\<in>set uid. uuid_char c" "cs l = 1" "pos l = 0"
  shows "hp_run b hp l = hp_run b (hp\<lparr>hp_uuid := Some uid\<rparr>) (l\<lparr>pos := Suc (length uid), cs := 3, mark := 0\<rparr>)"
proof -
  obtain d ds where d: "uid = d # ds" using assms(2) by (cases uid) auto
  have n: "nat (1 + int (length ds)) = Suc (length ds)" by simp
  let ?l1 = "hp_goto 2 (l\<lparr>mark := pos l\<rparr>)" and ?l2 = "(hp_goto 2 (l\<lparr>mark := pos l\<rparr>))\<lparr>pos := length [d] + length ds\<rparr>"
  have "hp_run b hp l = hp_run b hp ?l1"
    using assms by (intro hp_step [where lab = Tr0]) (auto simp: hp_jump_def d)
  also have "\<dots> = hp_run b hp ?l2"
    using assms uuid_not_space by (intro keep_uuid [where u = "[d]" and v = "'' '' @ v"]) (auto simp: hp_jump_def d hp_goto_def)
  also have "\<dots> = hp_run b (hp\<lparr>hp_uuid := Some uid\<rparr>) (hp_goto 3 ?l2)"
    using assms by (intro hp_step [where lab = Tr2]) (auto simp: hp_jump_def d hp_goto_def nth_append blk2bstr_def n)
  also have "hp_goto 3 ?l2 = l\<lparr>pos := Suc (length uid), cs := 3, mark := 0\<rparr>" using assms by (simp add: hp_goto_def d)
  finally show ?thesis .
qed

lemma length_run:
  assumes "b = u @ nat_digits n @ '':'' @ v" "int n < 2 ^ 31" "cs l = 3" "pos l = length u"
  shows "hp_run b hp l = hp_run b hp
    (l\<lparr>pos := Suc (length u + length (nat_digits n)), cs := 5, mark := length u, target_expected_len := int n\<rparr>)"
proof -
  obtain d ds where d: "nat_digits n = d # ds" and dd: "isdigit d" "\<forall>c\<in>set ds. isdigit c"
    using nat_digits_props [of n] by (cases "nat_digits n") auto
  let ?l1 = "hp_goto 4 (l\<lparr>mark := pos l\<rparr>)"
  let ?l2 = "?l1\<lparr>pos := length (u @ [d]) + length ds\<rparr>"
  have colon: "\<not> isdigit (CHR '':'')" by (simp add: isdigit_def)
  have n: "n < 2 ^ 64" "to_int32 (int n) = int n" using assms(2) by (simp_all add: to_int32_def)
  have "hp_run b hp l = hp_run b hp ?l1"
    using assms dd by (intro hp_step [where lab = Tr4]) (auto simp: hp_jump_def d nth_append)
  also have "\<dots> = hp_run b hp ?l2"
    using assms dd digit_chars by (intro keep_length [where u = "u @ [d]" and v = "'':'' @ v"]) (auto simp: hp_jump_def d hp_goto_def)
  also have "\<dots> = hp_run b hp (hp_goto 5 (?l2\<lparr>target_expected_len := int n\<rparr>))"
  proof (rule hp_step [where lab = Tr6])
    have "mark ?l2 = length u" "pos ?l2 = length u + length (nat_digits n)" using assms by (simp_all add: hp_goto_def d)
    then have "hp_length b hp ?l2 = (True, hp, ?l2\<lparr>target_expected_len := int n\<rparr>)"
      using strtoul_written [OF colon n(1), of u v] digits_val_written(2) [OF colon, of n v] assms(1) n(2)
      by (simp add: hp_length_def)
    then show "hp_act b Tr6 hp ?l2 = (True, hp, hp_goto 5 (?l2\<lparr>target_expected_len := int n\<rparr>))" by simp
  qed (use assms in \<open>simp_all add: hp_jump_def hp_goto_def d nth_append\<close>)
  also have "hp_goto 5 (?l2\<lparr>target_expected_len := int n\<rparr>) =
      l\<lparr>pos := Suc (length u + length (nat_digits n)), cs := 5, mark := length u, target_expected_len := int n\<rparr>"
    using assms by (simp add: hp_goto_def d)
  finally show ?thesis .
qed

lemma targets_run:
  assumes "b = u @ id_text ids @ '','' @ v" "cs l = 5" "pos l = length u" "target_expected_len l = int (length (id_text ids))"
    "\<forall>j\<in>set ids. j < 2 ^ 64" "target_count hp + length ids \<le> target_max hp"
  shows "\<exists>l'. hp_run b hp l = hp_run b (record_ids ids hp) l' \<and> cs l' = 6 \<and> pos l' = Suc (length (u @ id_text ids))"
proof (cases ids)
  case Nil
  have "hp_run b hp l = hp_run b hp (hp_goto 6 (l\<lparr>targets_start := pos l\<rparr>))"
    using assms Nil by (intro hp_step [where lab = Tr7]) (auto simp: hp_jump_def nth_append hp_targets_end_def)
  then show ?thesis using Nil assms by (auto simp: hp_goto_def)
next
  case (Cons i js)
  obtain d ds where d: "nat_digits i = d # ds" and dd: "isdigit d" "\<forall>c\<in>set ds. isdigit c"
    using nat_digits_props [of i] by (cases "nat_digits i") auto
  let ?l1 = "hp_goto 7 (l\<lparr>targets_start := pos l, mark := pos l\<rparr>)"
  let ?l2 = "?l1\<lparr>pos := length (u @ [d]) + length ds\<rparr>"
  have "hp_run b hp l = hp_run b hp ?l1"
    using assms dd digit_chars [OF dd(1)] Cons by (intro hp_step [where lab = Tr8]) (auto simp: hp_jump_def d nth_append)
  also have "\<dots> = hp_run b hp ?l2"
    using assms dd digit_chars Cons
    by (intro keep_ident [where u = "u @ [d]" and v = "more_ids js @ '','' @ v"]) (auto simp: hp_jump_def d hp_goto_def)
  also have "\<exists>l'. \<dots> = hp_run b (record_ids (i # js) hp) l' \<and> cs l' = 6 \<and> pos l' = Suc (length (u @ nat_digits i @ more_ids js))"
    using assms Cons by (intro ids_run) (auto simp: hp_goto_def d)
  finally show ?thesis using Cons by simp
qed

text \<open>What every run keeps.\<close>

lemma hp_act_keeps:
  "hp_act b lab hp l = (ok, hp', l') \<Longrightarrow> target_count hp \<le> target_max hp \<Longrightarrow>
   target_count hp' \<le> target_max hp' \<and> target_max hp' = target_max hp \<and> length (targets hp') = length (targets hp)"
  by (cases lab) (auto simp: hp_length_def hp_targets_end_def hp_identifier_def split: if_splits)

lemma hp_run_keeps:
  "hp_run b hp l = Inr (ok, hp', l') \<Longrightarrow> target_count hp \<le> target_max hp \<Longrightarrow>
   target_count hp' \<le> target_max hp' \<and> target_max hp' = target_max hp \<and> length (targets hp') = length (targets hp) \<and>
   (ok \<longrightarrow> cs l' = 0 \<and> pos l' < length b \<or> cs l' = 9 \<and> 0 < pos l' \<and> pos l' \<le> length b)"
proof (induction b hp l rule: hp_run.induct)
  case (1 b hp l)
  let ?lab = "hp_jump (cs l) (b ! pos l)"
  have in_b: "pos l < length b" using 1(2) hp_run.simps [of b hp l] by (cases "pos l < length b") simp_all
  obtain ok1 hp1 l1 where act: "hp_act b ?lab hp l = (ok1, hp1, l1)" by (cases "hp_act b ?lab hp l") auto
  note keep = hp_act_keeps [OF act 1(3)]
  have run: "hp_run b hp l = (if \<not> ok1 \<or> ?lab = St0 \<or> ?lab = Tr9 then Inr (ok1, hp1, l1) else hp_run b hp1 l1)"
    using in_b act by (subst hp_run.simps) (simp add: Let_def)
  show ?case
  proof (cases "\<not> ok1 \<or> ?lab = St0 \<or> ?lab = Tr9")
    case True
    then have "(ok, hp', l') = (ok1, hp1, l1)" using 1(2) unfolding run by simp
    then have eq: "ok = ok1" "hp' = hp1" "l' = l1" by simp_all
    have "ok1 \<longrightarrow> cs l1 = 0 \<and> pos l1 < length b \<or> cs l1 = 9 \<and> 0 < pos l1 \<and> pos l1 \<le> length b"
      using True
    proof (elim disjE)
      assume "?lab = St0"
      then have "l1 = l\<lparr>cs := 0\<rparr>" using act by (metis hp_act.simps(14) prod.inject)
      then show ?thesis using in_b by simp
    next
      assume "?lab = Tr9"
      then have "l1 = hp_goto 9 l" using act by (metis hp_act.simps(13) prod.inject)
      then show ?thesis using in_b by (simp add: hp_goto_def)
    qed simp
    with keep show ?thesis unfolding eq by blast
  next
    case False
    then have "hp_run b hp1 l1 = Inr (ok, hp', l')" using 1(2) unfolding run by simp
    from 1(1) [OF _ refl act [symmetric] refl _ this] False in_b keep show ?thesis by auto
  qed
qed

text \<open>A message is read as it was written.\<close>

lemma HandlerParser_reads:
  assumes "uid \<noteq> []" "\<forall>c\<in>set uid. uuid_char c" "\<forall>j\<in>set ids. j < 2 ^ 64" "length ids \<le> target_max hp"
    "length (targets hp) = target_max hp" "int (length (id_text ids)) < 2 ^ 31"
  shows "\<exists>hp'. HandlerParser_execute hp (handler_message uid ids body) = Inr (1, hp') \<and> hp_uuid hp' = Some uid \<and>
    target_count hp' = length ids \<and> take (length ids) (targets hp') = map int ids \<and>
    drop (hp_body_start hp') (handler_message uid ids body) = body \<and> hp_body_length hp' = int (length body)"
proof -
  let ?b = "handler_message uid ids body" and ?n = "length (id_text ids)"
  let ?u = "uid @ '' '' @ nat_digits ?n @ '':''"
  let ?l0 = "\<lparr>cs = 1, pos = 0, mark = 0, targets_start = 0, target_expected_len = 0\<rparr>"
  let ?l1 = "?l0\<lparr>pos := Suc (length uid), cs := 3, mark := 0\<rparr>"
  let ?l2 = "?l1\<lparr>pos := Suc (length (uid @ '' '') + length (nat_digits ?n)), cs := 5, mark := length (uid @ '' ''),
    target_expected_len := int ?n\<rparr>"
  let ?hp0 = "hp\<lparr>target_count := 0, hp_uuid := None\<rparr>" and ?hp1 = "hp\<lparr>target_count := 0, hp_uuid := Some uid\<rparr>"
  have "hp_run ?b ?hp0 ?l0 = hp_run ?b (?hp0\<lparr>hp_uuid := Some uid\<rparr>) ?l1"
    using assms by (intro uuid_run) (auto simp: handler_message_def)
  also have "?hp0\<lparr>hp_uuid := Some uid\<rparr> = ?hp1" by simp
  also have "hp_run ?b ?hp1 ?l1 = hp_run ?b ?hp1 ?l2"
    using assms by (intro length_run) (simp_all add: handler_message_def)
  also obtain l3 where l3: "hp_run ?b ?hp1 ?l2 = hp_run ?b (record_ids ids ?hp1) l3" "cs l3 = 6"
    "pos l3 = Suc (length (?u @ id_text ids))"
    using targets_run [of ?b ?u ids "'' '' @ body" ?l2 ?hp1] assms by (auto simp: handler_message_def)
  note l3(1)
  also have "hp_run ?b (record_ids ids ?hp1) l3 = Inr (True, record_ids ids ?hp1, hp_goto 9 l3)"
    using l3(2,3) by (subst hp_run.simps) (simp add: handler_message_def hp_jump_def nth_append)
  finally have run: "hp_run ?b ?hp0 ?l0 = Inr (True, record_ids ids ?hp1, hp_goto 9 l3)" .
  have b: "?b = (?u @ id_text ids @ '','' @ '' '') @ body" and p: "pos (hp_goto 9 l3) = length (?u @ id_text ids @ '','' @ '' '')"
    using l3(3) by (simp_all add: handler_message_def hp_goto_def)
  have "drop (pos (hp_goto 9 l3)) ?b = body" unfolding p b by (rule append_eq_conv_conj [THEN iffD1, THEN conjunct2, symmetric, OF refl])
  moreover have "int (length ?b) - int (pos (hp_goto 9 l3)) = int (length body)"
    "pos (hp_goto 9 l3) \<le> length ?b" "cs (hp_goto 9 l3) = 9"
    using l3(3) by (simp_all add: handler_message_def hp_goto_def)
  ultimately show ?thesis using record_ids_effect [of ?hp1 ids] assms(4,5)
    unfolding HandlerParser_execute_def run by simp
qed

section \<open>Properties\<close>

text \<open>
  C36: a handler's message is read as it was written: for a sender of letters, digits and dashes, and no
  more targets than the limit allows, the parser answers success with the sender, exactly
  the targets in their order, and the body, whatever bytes it holds.
\<close>

theorem HandlerParser_roundtrip:
  assumes "uid \<noteq> []" "\<forall>c\<in>set uid. uuid_char c" "\<forall>j\<in>set ids. j < 2 ^ 64" "length ids \<le> target_max hp"
    "length (targets hp) = target_max hp" "int (length (id_text ids)) < 2 ^ 31"
  shows "\<exists>hp'. HandlerParser_execute hp (handler_message uid ids body) = Inr (1, hp') \<and> hp_uuid hp' = Some uid \<and>
    target_count hp' = length ids \<and> take (length ids) (targets hp') = map int ids \<and>
    drop (hp_body_start hp') (handler_message uid ids body) = body \<and> hp_body_length hp' = int (length body)"
  by (rule HandlerParser_reads [OF assms])

definition sample_hparser :: hparser where
  "sample_hparser = the (HandlerParser_create True True 128)"

lemma HandlerParser_roundtrip_witness:
  "\<exists>hp'. HandlerParser_execute sample_hparser (handler_message ''ab-1'' [7, 12] ''hello'') = Inr (1, hp') \<and>
    hp_uuid hp' = Some ''ab-1'' \<and> target_count hp' = length [7::nat, 12] \<and>
    take (length [7::nat, 12]) (targets hp') = map int [7, 12] \<and>
    drop (hp_body_start hp') (handler_message ''ab-1'' [7, 12] ''hello'') = ''hello'' \<and>
    hp_body_length hp' = int (length ''hello'')"
  by (rule HandlerParser_roundtrip)
    (simp_all add: sample_hparser_def HandlerParser_create_def uuid_char_def isdigit_def isalpha_def islower_def isupper_def
      more_ids_def nat_digits.simps)

text \<open>
  Whatever bytes a handler sends, if the parser answers then with 1 or -1 and never with more targets than
  the array has room for; the array keeps its size, and on success body and header make up the message.
\<close>

theorem HandlerParser_bounds:
  assumes "HandlerParser_execute hp b = Inr (rc, hp')"
  shows "rc \<in> {-1, 1} \<and> target_count hp' \<le> target_max hp' \<and> target_max hp' = target_max hp \<and>
    length (targets hp') = length (targets hp) \<and>
    (rc = 1 \<longrightarrow> 0 < hp_body_start hp' \<and> hp_body_start hp' \<le> length b \<and>
       hp_body_length hp' = int (length (drop (hp_body_start hp') b)))"
proof -
  obtain ok hp1 l where run: "hp_run b (hp\<lparr>target_count := 0, hp_uuid := None\<rparr>)
      \<lparr>cs = 1, pos = 0, mark = 0, targets_start = 0, target_expected_len = 0\<rparr> = Inr (ok, hp1, l)"
    using assms by (auto simp: HandlerParser_execute_def)
  from hp_run_keeps [OF run] have "target_count hp1 \<le> target_max hp1" "target_max hp1 = target_max hp"
    "length (targets hp1) = length (targets hp)" "ok \<longrightarrow> cs l = 0 \<and> pos l < length b \<or> cs l = 9 \<and> 0 < pos l \<and> pos l \<le> length b"
    by simp_all
  then show ?thesis using assms run by (auto simp: HandlerParser_execute_def Let_def split: if_splits)
qed

definition small_hparser :: hparser where
  "small_hparser = the (HandlerParser_create True True 2)"

lemma small_run:
  "HandlerParser_execute small_hparser ''a 1:7, x'' = Inr (1, small_hparser\<lparr>hp_uuid := Some ''a'', target_count := 1,
     targets := [7, 0], hp_body_start := 7, hp_body_length := 1\<rparr>)"
  by code_simp

lemma HandlerParser_bounds_witness:
  "\<exists>hp'. HandlerParser_execute small_hparser ''a 1:7, x'' = Inr (1, hp') \<and>
    (1::int) \<in> {-1, 1} \<and> target_count hp' \<le> target_max hp' \<and> target_max hp' = target_max small_hparser \<and>
    length (targets hp') = length (targets small_hparser) \<and> 0 < hp_body_start hp' \<and> hp_body_start hp' \<le> length ''a 1:7, x'' \<and>
    hp_body_length hp' = int (length (drop (hp_body_start hp') ''a 1:7, x''))"
proof -
  obtain hp' where r: "HandlerParser_execute small_hparser ''a 1:7, x'' = Inr (1, hp')" using small_run by blast
  from r HandlerParser_bounds [OF r] show ?thesis by blast
qed

text \<open>
  The generated machine does not look at the end of its input: a message that stops inside the
  sender is read past its end.
\<close>

theorem HandlerParser_overread:
  assumes "uid \<noteq> []" "\<forall>c\<in>set uid. uuid_char c"
  shows "HandlerParser_execute hp uid = Inl Out_of_bounds"
proof -
  let ?l0 = "\<lparr>cs = 1, pos = 0, mark = 0, targets_start = 0, target_expected_len = 0\<rparr>"
  let ?hp = "hp\<lparr>target_count := 0, hp_uuid := None\<rparr>"
  obtain d ds where d: "uid = d # ds" using assms(1) by (cases uid) auto
  have "hp_run uid ?hp ?l0 = hp_run uid ?hp (hp_goto 2 (?l0\<lparr>mark := pos ?l0\<rparr>))"
    using assms by (intro hp_step [where lab = Tr0]) (auto simp: hp_jump_def d)
  also have "\<dots> = hp_run uid ?hp ((hp_goto 2 (?l0\<lparr>mark := pos ?l0\<rparr>))\<lparr>pos := length [d] + length ds\<rparr>)"
    using assms uuid_not_space by (intro keep_uuid [where u = "[d]" and v = "[]"]) (auto simp: hp_jump_def d hp_goto_def)
  also have "\<dots> = Inl Out_of_bounds" by (subst hp_run.simps) (simp add: d)
  finally show ?thesis by (simp add: HandlerParser_execute_def)
qed

lemma HandlerParser_overread_witness:
  "HandlerParser_execute sample_hparser ''a1'' = Inl Out_of_bounds"
  by (rule HandlerParser_overread) (simp_all add: uuid_char_def isdigit_def isalpha_def islower_def isupper_def)

end
