(* ===== verification/Base64.thy ===== *)
theory Base64
  imports Prelude
begin

text \<open>
  The base64 routines of \<^verbatim>\<open>src/bstr/bstraux.c\<close>, which carry messages to socket clients.  Bytes are
  integers where the code widens them; appending a character is taken to find memory.
\<close>

unbundle bit_operations_syntax

section \<open>Encoding\<close>

definition b64ETable :: string where
  "b64ETable = ''ABCDEFGHIJKLMNOPQRSTUVWXYZabcdefghijklmnopqrstuvwxyz0123456789+/''"

abbreviation byte :: "char \<Rightarrow> int" where "byte c \<equiv> of_char c"

definition b64_char :: "int \<Rightarrow> char" where
  "b64_char i = b64ETable ! nat i"

fun b64_encode :: "string \<Rightarrow> string" where
  "b64_encode (x # y # z # rest) =
     b64_char (drop_bit 2 (byte x)) #
     b64_char ((push_bit 4 (byte x) OR drop_bit 4 (byte y)) AND 0x3F) #
     b64_char ((push_bit 2 (byte y) OR drop_bit 6 (byte z)) AND 0x3F) #
     b64_char (byte z AND 0x3F) # b64_encode rest"
| "b64_encode [x, y] =
     [b64_char (drop_bit 2 (byte x)), b64_char ((push_bit 4 (byte x) OR drop_bit 4 (byte y)) AND 0x3F),
      b64_char (push_bit 2 (byte y) AND 0x3F), CHR ''='']"
| "b64_encode [x] = [b64_char (drop_bit 2 (byte x)), b64_char (push_bit 4 (byte x) AND 0x3F), CHR ''='', CHR ''='']"
| "b64_encode [] = []"

definition bBase64Encode :: "bstring option \<Rightarrow> bstring option" where
  "bBase64Encode b = map_option b64_encode b"

section \<open>Decoding\<close>

definition base64DecodeSymbol :: "char \<Rightarrow> int" where
  "base64DecodeSymbol alpha =
     (if isupper alpha then byte alpha - byte (CHR ''A'')
      else if islower alpha then 26 + (byte alpha - byte (CHR ''a''))
      else if isdigit alpha then 52 + (byte alpha - byte (CHR ''0''))
      else if alpha = CHR ''+'' then 62
      else if alpha = CHR ''/'' then 63
      else if alpha = CHR ''='' then -2
      else -1)"

text \<open>One of the four \<^verbatim>\<open>do\<close> loops: the next symbol, the padding, or the end.\<close>

datatype b64_sym = Sym int string | Pad string | End

fun next_sym :: "string \<Rightarrow> b64_sym" where
  "next_sym [] = End"
| "next_sym (c # s) =
     (if c = CHR ''='' then Pad s
      else if base64DecodeSymbol c < 0 then next_sym s
      else Sym (base64DecodeSymbol c) s)"

lemma next_sym_shorter: "next_sym s = Sym v r \<Longrightarrow> length r < length s"
  by (induction s) (auto split: if_splits)

text \<open>A truncated input: with the flag the output so far, without it nothing.\<close>

definition trunc :: "bool \<Rightarrow> string \<Rightarrow> bstring option \<times> int" where
  "trunc flag out = (if flag then (Some out, 1) else (None, 0))"

definition uchar :: "int \<Rightarrow> int" where
  "uchar i = take_bit 8 i"

function b64_decode :: "bool \<Rightarrow> string \<Rightarrow> string \<Rightarrow> bstring option \<times> int" where
  "b64_decode flag s out =
     (case next_sym s of
        End \<Rightarrow> (Some out, 0)
      | Pad _ \<Rightarrow> trunc flag out
      | Sym v0 s1 \<Rightarrow>
          (case next_sym s1 of
             End \<Rightarrow> trunc flag out
           | Pad _ \<Rightarrow> trunc flag out
           | Sym v1 s2 \<Rightarrow>
               (let c0 = char_of (uchar (push_bit 2 v0) OR uchar (drop_bit 4 v1)) in
                case next_sym s2 of
                  End \<Rightarrow> trunc flag out
                | Pad r \<Rightarrow> if r = [] \<or> hd r \<noteq> CHR ''='' then trunc flag out else (Some (out @ [c0]), 0)
                | Sym v2 s3 \<Rightarrow>
                    (let c1 = char_of (uchar (push_bit 4 v1) OR uchar (drop_bit 2 v2)) in
                     case next_sym s3 of
                       End \<Rightarrow> trunc flag out
                     | Pad _ \<Rightarrow> (Some (out @ [c0, c1]), 0)
                     | Sym v3 s4 \<Rightarrow>
                         b64_decode flag s4 (out @ [c0, c1, char_of (uchar (push_bit 6 v2) OR uchar v3)])))))"
  by pat_completeness auto
termination
  by (relation "measure (\<lambda>(flag, s, out). length s)") (auto dest!: next_sym_shorter)

declare b64_decode.simps [simp del]

definition bBase64DecodeEx :: "bstring option \<Rightarrow> bool \<Rightarrow> bstring option \<times> int" where
  "bBase64DecodeEx b flag = (case b of None \<Rightarrow> (None, 0) | Some s \<Rightarrow> b64_decode flag s [])"

section \<open>Symbols and bits\<close>

lemma b64_table: "map base64DecodeSymbol b64ETable = map int [0..<64]"
  by (simp add: b64ETable_def base64DecodeSymbol_def isupper_def islower_def isdigit_def upt_rec)

lemma b64_no_pad: "CHR ''='' \<notin> set b64ETable"
  by (simp add: b64ETable_def)

lemma next_sym_table:
  assumes "0 \<le> i" "i < 64"
  shows "next_sym (b64_char i # s) = Sym i s"
proof -
  have len: "length b64ETable = 64" using b64_table by (metis length_map length_upt diff_zero)
  have n: "nat i < 64" using assms by linarith
  have "base64DecodeSymbol (b64ETable ! nat i) = map base64DecodeSymbol b64ETable ! nat i"
    using n len by simp
  also have "\<dots> = i" using n assms unfolding b64_table by simp
  finally have sym: "base64DecodeSymbol (b64_char i) = i" by (simp add: b64_char_def)
  have "b64_char i \<noteq> CHR ''=''"
    using b64_no_pad n len by (metis b64_char_def nth_mem)
  with sym assms show ?thesis by simp
qed

lemma sixbits: "0 \<le> (i::int) AND 0x3F" "(i::int) AND 0x3F < 64"
proof -
  have "i AND 0x3F = take_bit 6 i" by (simp add: take_bit_eq_mask mask_numeral)
  then show "0 \<le> (i::int) AND 0x3F" "(i::int) AND 0x3F < 64" by (simp_all add: take_bit_eq_mod)
qed

lemma byte_range: "0 \<le> byte c" "byte c < 256" "take_bit 8 (byte c) = byte c"
  using of_char_range [of c] by (simp_all add: take_bit_eq_mod)

lemma byte_bit: "8 \<le> n \<Longrightarrow> \<not> bit (byte c) n"
  by (metis byte_range(3) bit_take_bit_iff not_less)

lemma top_bits: "0 \<le> drop_bit 2 (byte c)" "drop_bit 2 (byte c) < 64"
  using byte_range [of c] by (simp_all add: drop_bit_eq_div)

lemma mask6: "bit (0x3F :: int) n \<longleftrightarrow> n < 6"
proof -
  have eq: "(0x3F :: int) = mask 6" by (simp add: mask_numeral)
  show ?thesis unfolding eq bit_mask_iff by simp
qed

lemmas byte_bits = uchar_def bit_take_bit_iff bit_or_iff bit_and_iff bit_push_bit_iff_int bit_drop_bit_eq o_def mask6

text \<open>The three bytes come back from the four groups of six bits.\<close>

lemma first_byte:
  assumes "\<And>n. 4 \<le> n \<Longrightarrow> \<not> bit w n"
  shows "uchar (push_bit 2 (drop_bit 2 (byte x))) OR uchar (drop_bit 4 ((push_bit 4 (byte x) OR w) AND 0x3F)) = byte x"
proof (rule bit_eqI)
  fix n
  have w: "\<not> bit w (4 + n)" using assms by simp
  show "bit (uchar (push_bit 2 (drop_bit 2 (byte x))) OR uchar (drop_bit 4 ((push_bit 4 (byte x) OR w) AND 0x3F))) n =
    bit (byte x) n"
    unfolding byte_bits using w byte_bit [of n x] le_add_diff_inverse [of 2 n] by (cases "n < 2"; cases "n < 8") (auto simp del: le_add_diff_inverse)
qed

lemma second_byte:
  assumes "\<And>n. 2 \<le> n \<Longrightarrow> \<not> bit w n"
  shows "uchar (push_bit 4 ((push_bit 4 x OR drop_bit 4 (byte y)) AND 0x3F)) OR
    uchar (drop_bit 2 ((push_bit 2 (byte y) OR w) AND 0x3F)) = byte y"
proof (rule bit_eqI)
  fix n
  have w: "\<not> bit w (2 + n)" using assms by simp
  show "bit (uchar (push_bit 4 ((push_bit 4 x OR drop_bit 4 (byte y)) AND 0x3F)) OR
    uchar (drop_bit 2 ((push_bit 2 (byte y) OR w) AND 0x3F))) n = bit (byte y) n"
    unfolding byte_bits using w byte_bit [of n y] by (cases "n < 4"; cases "n < 8") auto
qed

lemma third_byte:
  "uchar (push_bit 6 ((push_bit 2 y OR drop_bit 6 (byte z)) AND 0x3F)) OR uchar (byte z AND 0x3F) = byte z"
proof (rule bit_eqI)
  fix n
  show "bit (uchar (push_bit 6 ((push_bit 2 y OR drop_bit 6 (byte z)) AND 0x3F)) OR uchar (byte z AND 0x3F)) n = bit (byte z) n"
    unfolding byte_bits using byte_bit [of n z] by (cases "n < 6"; cases "n < 8") auto
qed

lemma high_bits: "4 \<le> n \<Longrightarrow> \<not> bit (drop_bit 4 (byte y)) n" "2 \<le> n \<Longrightarrow> \<not> bit (drop_bit 6 (byte z)) n"
  by (simp_all add: bit_drop_bit_eq byte_bit)

lemma no_bits: "k \<le> n \<Longrightarrow> \<not> bit (0::int) n"
  by simp

lemmas bytes_back = first_byte [OF high_bits(1)] second_byte [OF high_bits(2)] third_byte
  first_byte [OF no_bits, unfolded or.right_neutral] second_byte [OF no_bits, unfolded or.right_neutral]

lemma next_sym_pad: "next_sym (CHR ''='' # s) = Pad s"
  by simp

lemmas syms_back = next_sym_table [OF top_bits] next_sym_table [OF sixbits]

section \<open>Properties\<close>

text \<open>
  Decoding undoes encoding, for every string of bytes and every length modulo three, without a truncation error.
\<close>

theorem base64_roundtrip:
  "bBase64DecodeEx (bBase64Encode (Some s)) flag = (Some s, 0)"
proof -
  have "b64_decode flag (b64_encode s) out = (Some (out @ s), 0)" for out
  proof (induction s arbitrary: out rule: b64_encode.induct)
    case (1 x y z rest)
    show ?case
      by (subst b64_decode.simps)
        (simp only: b64_encode.simps syms_back b64_sym.case Let_def bytes_back char_of_char append_assoc append_Cons append_Nil 1)
  next
    case (2 x y)
    show ?case
      by (subst b64_decode.simps)
        (simp only: b64_encode.simps syms_back b64_sym.case Let_def bytes_back char_of_char append_assoc append_Cons append_Nil
          next_sym_pad if_True list.sel list.distinct simp_thms if_False)
  next
    case (3 x)
    show ?case
      by (subst b64_decode.simps)
        (simp only: b64_encode.simps syms_back b64_sym.case Let_def bytes_back char_of_char append_assoc append_Cons append_Nil
          next_sym_pad if_True list.sel list.distinct simp_thms if_False)
  qed (simp add: b64_decode.simps)
  from this [of "[]"] show ?thesis by (simp add: bBase64DecodeEx_def bBase64Encode_def)
qed

end
