(* ===== verification/Handler.thy ===== *)
theory Handler
  imports HandlerParser Sample_World Base64
begin

text \<open>
  \<^verbatim>\<open>src/handler.c\<close>: what handlers send back is parsed and delivered to the connections it names,
  raw or as base64 (\<^verbatim>\<open>Connection_deliver\<close> of \<^verbatim>\<open>connection.c\<close>).  ZeroMQ is a script: what each
  call to it answers and the messages it brings.
\<close>

section \<open>State\<close>

record hworld =
  h_reg :: register
  fds :: "int \<Rightarrow> chan"
  mq :: "int list"
  h_delivered :: "(int option \<times> string) list"
  h_closed :: "int list"

definition LEAVE_HEADER :: bstring where
  "LEAVE_HEADER = ''{'' @ DQ @ ''METHOD'' @ DQ @ '':'' @ DQ @ ''JSON'' @ DQ @ ''}''"

definition LEAVE_MSG :: bstring where
  "LEAVE_MSG = ''{'' @ DQ @ ''type'' @ DQ @ '':'' @ DQ @ ''disconnect'' @ DQ @ ''}''"

section \<open>Creation\<close>

definition Handler_create ::
    "settings \<Rightarrow> bool \<Rightarrow> int \<Rightarrow> string \<Rightarrow> string \<Rightarrow> string \<Rightarrow> string \<Rightarrow> handler option \<times> int" where
  "Handler_create setg m stack sspec sident rspec rident =
     (let stack = (if stack = 0 then Setting_get_int setg ''limits.handler_stack'' (100 * 1024) else stack) in
      if \<not> m then (None, stack)
      else (Some \<lparr>send_socket = None, recv_socket = None, send_ident = sident, recv_ident = rident,
                  recv_spec = rspec, send_spec = sspec, h_task = None, running = 0\<rparr>, stack))"

text \<open>The sockets \<^verbatim>\<open>zmq_close\<close> gets.\<close>

definition Handler_destroy :: "handler option \<Rightarrow> int list" where
  "Handler_destroy h =
     (case h of None \<Rightarrow> []
      | Some h \<Rightarrow> (case recv_socket h of None \<Rightarrow> [] | Some s \<Rightarrow> [s]) @ (case send_socket h of None \<Rightarrow> [] | Some s \<Rightarrow> [s]))"

text \<open>Binding is tried again every second: over the answers to come, \<open>None\<close> when none of them is 0.\<close>

fun bind_loop :: "int list \<Rightarrow> (int list) option" where
  "bind_loop [] = None"
| "bind_loop (rc # rcs) = (if rc \<noteq> 0 then bind_loop rcs else Some rcs)"

definition Handler_send_create :: "int \<Rightarrow> int \<Rightarrow> int list \<Rightarrow> (int option \<times> int list) option" where
  "Handler_send_create socket opt binds =
     (if opt \<noteq> 0 then Some (None, binds) else map_option (\<lambda>r. (Some socket, r)) (bind_loop binds))"

definition Handler_recv_create :: "int option \<Rightarrow> int \<Rightarrow> int list \<Rightarrow> (int option \<times> int list) option" where
  "Handler_recv_create socket opt binds =
     (case socket of None \<Rightarrow> Some (None, binds)
      | Some s \<Rightarrow> if opt \<noteq> 0 then Some (None, binds) else map_option (\<lambda>r. (Some s, r)) (bind_loop binds))"

definition Handler_setup ::
    "nat \<Rightarrow> int \<Rightarrow> int option \<Rightarrow> int \<Rightarrow> int \<Rightarrow> int list \<Rightarrow> handler \<Rightarrow> (int \<times> handler \<times> int list) option" where
  "Handler_setup self ssock rsock sopt ropt binds h =
     Option.bind (Handler_send_create ssock sopt binds) (\<lambda>(s, binds).
       let h = h\<lparr>h_task := Some self, send_socket := s\<rparr> in
       if s = None then Some (-1, h, binds)
       else Option.bind (Handler_recv_create rsock ropt binds) (\<lambda>(r, binds).
         let h = h\<lparr>recv_socket := r\<rparr> in
         if r = None then Some (-1, h, binds) else Some (0, h, binds)))"

section \<open>Delivery\<close>

text \<open>\<^verbatim>\<open>Handler_deliver\<close>: the answer of the first ZeroMQ call that fails, or of \<^verbatim>\<open>mqsend\<close>.\<close>

definition Handler_deliver ::
    "bool \<Rightarrow> int option \<Rightarrow> string option \<Rightarrow> int \<Rightarrow> int list \<times> (int option \<times> string) list \<Rightarrow>
     int \<times> int list \<times> (int option \<times> string) list" where
  "Handler_deliver m socket buffer len = (\<lambda>(results, out).
     if \<not> m then (-1, results, out)
     else case Option.bind buffer (\<lambda>s. blk2bstr s len) of
       None \<Rightarrow> (-1, results, out)
     | Some msg \<Rightarrow>
         (case results of
            [] \<Rightarrow> (0, [], out @ [(socket, msg)])
          | r # rs \<Rightarrow> if r = 0 then (0, rs, out @ [(socket, msg)]) else (-1, rs, out)))"

definition Handler_notify_leave :: "bool \<Rightarrow> handler \<Rightarrow> int \<Rightarrow> hworld \<Rightarrow> hworld cres" where
  "Handler_notify_leave m h ident w =
     (case send_socket h of
        None \<Rightarrow> Inl Assert_fail
      | Some s \<Rightarrow>
          (let payload = fmt_s (Some (send_ident h)) @ '' '' @ int_digits ident @ '' @* '' @
                 int_digits (int (length LEAVE_HEADER)) @ '':'' @ LEAVE_HEADER @ '','' @
                 int_digits (int (length LEAVE_MSG)) @ '':'' @ LEAVE_MSG @ '','';
               (rc, rs, out) = Handler_deliver m (Some s) (Some payload) (int (length payload)) (mq w, h_delivered w) in
           Inr (w\<lparr>mq := rs, h_delivered := out\<rparr>)))"

definition send_fd :: "int \<Rightarrow> string \<Rightarrow> int \<Rightarrow> hworld \<Rightarrow> (int \<times> hworld) cres" where
  "send_fd fd s len w = cbind (fdsend (fds w fd) s len) (\<lambda>(rc, ch). Inr (rc, w\<lparr>fds := (fds w)(fd := ch)\<rparr>))"

definition Connection_deliver_raw :: "int \<Rightarrow> bstring \<Rightarrow> hworld \<Rightarrow> (int \<times> hworld) cres" where
  "Connection_deliver_raw to_fd b w = send_fd to_fd b (int (length b)) w"

text \<open>The encoded message goes out with its terminator.\<close>

definition Connection_deliver :: "int \<Rightarrow> bstring \<Rightarrow> hworld \<Rightarrow> (int \<times> hworld) cres" where
  "Connection_deliver to_fd b w =
     (let b64 = the (bBase64Encode (Some b)) in
      cbind (send_fd to_fd (b64 @ [NUL]) (int (length b64) + 1) w)
        (\<lambda>(rc, w). Inr (if rc = int (length b64) + 1 then 0 else -1, w)))"

text \<open>A bstring always has its terminator, so only a final \<^verbatim>\<open>'\0'\<close> of the payload itself changes it.\<close>

definition handler_cap_payload :: "bstring \<Rightarrow> bstring cres" where
  "handler_cap_payload payload =
     (if payload = [] then Inl Out_of_bounds
      else if last payload = NUL then Inr (butlast payload) else Inr payload)"

definition deliver_payload :: "bool \<Rightarrow> int \<Rightarrow> bstring \<Rightarrow> hworld \<Rightarrow> (int \<times> hworld) cres" where
  "deliver_payload raw fd payload w =
     (if raw then cbind (Connection_deliver_raw fd payload w) (\<lambda>(rc, w). Inr (if rc \<noteq> -1 then 0 else -1, w))
      else cbind (handler_cap_payload payload) (\<lambda>p.
        cbind (Connection_deliver fd p w) (\<lambda>(rc, w). Inr (if rc \<noteq> -1 then 0 else -1, w))))"

definition disconnect_fd :: "int \<Rightarrow> hworld \<Rightarrow> (int \<times> hworld) cres" where
  "disconnect_fd fd w =
     cbind (Register_disconnect (h_reg w) fd) (\<lambda>(rc, cl, reg). Inr (rc, w\<lparr>h_reg := reg, h_closed := h_closed w @ cl\<rparr>))"

abbreviation (input) CONN_TYPE_HTTP :: int where "CONN_TYPE_HTTP \<equiv> 1"
abbreviation (input) CONN_TYPE_MSG :: int where "CONN_TYPE_MSG \<equiv> 2"
abbreviation (input) CONN_TYPE_SOCKET :: int where "CONN_TYPE_SOCKET \<equiv> 3"

definition handler_process_request ::
    "bool \<Rightarrow> handler \<Rightarrow> int \<Rightarrow> int \<Rightarrow> int \<Rightarrow> string \<Rightarrow> hworld \<Rightarrow> hworld cres" where
  "handler_process_request m h ident fd ctype body w =
     (if ctype = 0 then Handler_notify_leave m h ident w
      else
        cbind (if body = [] then disconnect_fd fd w
               else deliver_payload (ctype \<noteq> CONN_TYPE_MSG) fd body w) (\<lambda>(rc, w).
          if rc \<noteq> -1 then Inr w else cbind (disconnect_fd fd w) (\<lambda>(_, w). Inr w)))"

section \<open>The task\<close>

text \<open>What a receive brings: its result, whether the handler is still running behind it, and the message.\<close>

type_synonym mq_event = "int \<times> int \<times> string"

definition handler_recv_parse ::
    "mq_event \<Rightarrow> handler \<Rightarrow> hparser \<Rightarrow> (int \<times> handler \<times> hparser) cres" where
  "handler_recv_parse ev h hp =
     (case ev of (rc, run, msg) \<Rightarrow>
        if running h = 0 then Inr (-1, h, hp)
        else
          (let h = h\<lparr>running := run\<rparr> in
           if rc \<noteq> 0 then Inr (-1, h, hp)
           else if run = 0 then Inr (-1, h, hp)
           else cbind (HandlerParser_execute hp msg) (\<lambda>(r, hp). Inr (if r = 1 then 0 else -1, h, hp))))"

fun deliver_targets :: "bool \<Rightarrow> handler \<Rightarrow> int list \<Rightarrow> string \<Rightarrow> hworld \<Rightarrow> hworld cres" where
  "deliver_targets m h [] body w = Inr w"
| "deliver_targets m h (t # ts) body w =
     (let ident = to_int32 t in
      cbind (Register_fd_for_id (h_reg w) ident) (\<lambda>fd.
        cbind (Register_fd_exists (h_reg w) fd) (\<lambda>ctype.
          cbind (handler_process_request m h ident fd ctype body w) (deliver_targets m h ts body))))"

text \<open>The loop of \<^verbatim>\<open>Handler_task\<close> over the messages to come; it waits behind the last.\<close>

fun handler_loop :: "bool \<Rightarrow> mq_event list \<Rightarrow> handler \<Rightarrow> hparser \<Rightarrow> hworld \<Rightarrow> (handler \<times> hparser \<times> hworld) cres" where
  "handler_loop m [] h hp w = Inr (h, hp, w)"
| "handler_loop m (ev # evs) h hp w =
     (if running h = 0 then Inr (h, hp, w)
      else
        cbind (handler_recv_parse ev h hp) (\<lambda>(rc, h, hp).
          if rc = -1 \<or> target_count hp = 0 then handler_loop m evs h hp w
          else
            cbind (deliver_targets m h (take (target_count hp) (targets hp))
                     (drop (hp_body_start hp) (snd (snd ev))) w)
              (\<lambda>w. handler_loop m evs h (HandlerParser_reset hp) w)))"

definition Handler_task ::
    "settings \<Rightarrow> bool \<Rightarrow> nat \<Rightarrow> int \<Rightarrow> int option \<Rightarrow> int \<Rightarrow> int \<Rightarrow> int list \<Rightarrow> mq_event list \<Rightarrow> handler \<Rightarrow> hworld \<Rightarrow>
     ((int \<times> handler \<times> hworld) cres) option" where
  "Handler_task setg m self ssock rsock sopt ropt binds evs h w =
     (let max_targets = Setting_get_int setg ''limits.handler_targets'' 128 in
      case HandlerParser_create m (m \<and> 0 \<le> max_targets) (nat max_targets) of
        None \<Rightarrow> Some (Inr (1, h, w))
      | Some hp \<Rightarrow>
          Option.bind (Handler_setup self ssock rsock sopt ropt binds h) (\<lambda>(rc, h, binds).
            if rc \<noteq> 0 then Some (Inr (1, h, w))
            else Some (cbind (handler_loop m evs h hp w) (\<lambda>(h, hp, w). Inr (0, h, w)))))"

section \<open>Who gets a message\<close>

text \<open>The descriptor and the type the register has for a target, and what a connection of a type is sent.\<close>

definition target_fd :: "hworld \<Rightarrow> int \<Rightarrow> int" where
  "target_fd w t = uint (REG_ID_TO_FD (h_reg w) (word_of_int (to_int32 t)))"

definition target_type :: "hworld \<Rightarrow> int \<Rightarrow> int" where
  "target_type w t = uint (conn_type (REGISTRATIONS (h_reg w) (nat (target_fd w t))))"

definition on_wire :: "int \<Rightarrow> string \<Rightarrow> string" where
  "on_wire ctype body =
     (if ctype = CONN_TYPE_MSG
      then the (bBase64Encode (Some (if last body = NUL then butlast body else body))) @ [NUL] else body)"

definition leave_note :: "handler \<Rightarrow> int \<Rightarrow> string" where
  "leave_note h ident = fmt_s (Some (send_ident h)) @ '' '' @ int_digits ident @ '' @* '' @
     int_digits (int (length LEAVE_HEADER)) @ '':'' @ LEAVE_HEADER @ '','' @
     int_digits (int (length LEAVE_MSG)) @ '':'' @ LEAVE_MSG @ '',''"

lemma send_fd_all:
  "accepts (fds w fd) = [] \<Longrightarrow> send_fd fd s (int (length s)) w =
     Inr (int (length s), w\<lparr>fds := (fds w)(fd := (fds w fd)\<lparr>outbox := outbox (fds w fd) @ s\<rparr>)\<rparr>)"
  by (cases "fds w fd") (auto simp: send_fd_def fdsend_def send_loop.simps Let_def)

lemma send_fd_term:
  "accepts (fds w fd) = [] \<Longrightarrow> send_fd fd (s @ [NUL]) (int (length s) + 1) w =
     Inr (int (length s) + 1, w\<lparr>fds := (fds w)(fd := (fds w fd)\<lparr>outbox := outbox (fds w fd) @ s @ [NUL]\<rparr>)\<rparr>)"
  using send_fd_all [of w fd "s @ [NUL]"] by (simp add: add.commute)

lemma deliver_payload_all:
  assumes "accepts (fds w fd) = []" "body \<noteq> []"
  shows "deliver_payload (ctype \<noteq> CONN_TYPE_MSG) fd body w =
    Inr (0, w\<lparr>fds := (fds w)(fd := (fds w fd)\<lparr>outbox := outbox (fds w fd) @ on_wire ctype body\<rparr>)\<rparr>)"
proof -
  define p where "p = (if last body = NUL then butlast body else body)"
  let ?b = "the (bBase64Encode (Some p))"
  have cap: "handler_cap_payload body = Inr p" using assms(2) by (simp add: handler_cap_payload_def p_def)
  have "deliver_payload False fd body w =
      Inr (0, w\<lparr>fds := (fds w)(fd := (fds w fd)\<lparr>outbox := outbox (fds w fd) @ ?b @ [NUL]\<rparr>)\<rparr>)"
    by (simp add: deliver_payload_def Connection_deliver_def cap Let_def send_fd_term [OF assms(1)] del: cbind_Inr_iff)
  moreover have "deliver_payload True fd body w =
      Inr (0, w\<lparr>fds := (fds w)(fd := (fds w fd)\<lparr>outbox := outbox (fds w fd) @ body\<rparr>)\<rparr>)"
    by (simp add: deliver_payload_def Connection_deliver_raw_def send_fd_all [OF assms(1)])
  ultimately show ?thesis by (simp add: on_wire_def p_def)
qed

lemma process_live:
  assumes "accepts (fds w fd) = []" "body \<noteq> []" "ctype \<noteq> 0"
  shows "handler_process_request m h ident fd ctype body w =
    Inr (w\<lparr>fds := (fds w)(fd := (fds w fd)\<lparr>outbox := outbox (fds w fd) @ on_wire ctype body\<rparr>)\<rparr>)"
  using assms deliver_payload_all [OF assms(1,2), of ctype] by (simp add: handler_process_request_def)

text \<open>The notices that get through: ZeroMQ refuses those whose result, the next of the script, is not 0.\<close>

fun got_through :: "int list \<Rightarrow> 'a list \<Rightarrow> 'a list" where
  "got_through [] ns = ns"
| "got_through (r # rs) [] = []"
| "got_through (r # rs) (n # ns) = (if r = 0 then n # got_through rs ns else got_through rs ns)"

lemma got_through_Nil [simp]: "got_through rs [] = []"
  by (cases rs) simp_all

lemma got_through_Cons: "got_through rs (n # ns) = got_through (take 1 rs) [n] @ got_through (drop 1 rs) ns"
  by (cases rs) simp_all

lemma process_gone:
  assumes "send_socket h = Some s"
  shows "handler_process_request True h ident fd 0 body w =
    Inr (w\<lparr>mq := drop 1 (mq w), h_delivered := h_delivered w @ got_through (take 1 (mq w)) [(Some s, leave_note h ident)]\<rparr>)"
  using assms
  by (cases "mq w")
    (simp_all add: handler_process_request_def Handler_notify_leave_def Handler_deliver_def leave_note_def blk2bstr_def Let_def)

text \<open>Delivering to one list of targets and then to another.\<close>

lemma deliver_append:
  "deliver_targets m h (ts @ us) body w = cbind (deliver_targets m h ts body w) (deliver_targets m h us body)"
proof (induction ts arbitrary: w)
  case (Cons t ts)
  then have "deliver_targets m h (ts @ us) body = (\<lambda>w. cbind (deliver_targets m h ts body w) (deliver_targets m h us body))"
    by (rule ext)
  then show ?case by (simp add: Let_def cbind_assoc)
qed simp

text \<open>An identity that is none: negative as an \<^verbatim>\<open>int\<close>, or behind the register's last.\<close>

definition bad_identity :: "nat \<Rightarrow> bool" where
  "bad_identity t \<longleftrightarrow> to_int32 (int t) < 0 \<or> 65536 \<le> to_int32 (int t)"

lemma deliver_bad:
  "bad_identity t \<Longrightarrow> deliver_targets m h (int t # ts) body w = Inl (if to_int32 (int t) < 0 then Out_of_bounds else Assert_fail)"
  by (auto simp: bad_identity_def Register_fd_for_id_def MAX_REGISTERED_FDS_def Let_def)

section \<open>Properties\<close>

text \<open>
  C34: a message with a body reaches exactly its targets, in their order: each connection the register knows is sent
  the body once for every time it is named, as it stands or, for a message connection, in base64 with
  a terminator; for every identity the register does not know the handler is sent one
  leave notice, as far as ZeroMQ takes it; no other descriptor is written to and the register does not change.
  The conditions: the identities are numbers from 0 to 65535 (others end the server), the body is not empty (an empty one
  disconnects the targets), the descriptors of the known targets take what is written to them (one that does not is
  disconnected), and memory for the notices is there.
\<close>

theorem deliver_targets_delivers:
  assumes "body \<noteq> []" "send_socket h = Some s"
    "\<forall>t\<in>set ts. 0 \<le> to_int32 t \<and> to_int32 t < 65536" "\<forall>t\<in>set ts. target_type w t \<noteq> 0 \<longrightarrow> accepts (fds w (target_fd w t)) = []"
  shows "\<exists>w'. deliver_targets True h ts body w = Inr w' \<and> h_reg w' = h_reg w \<and> h_closed w' = h_closed w \<and>
    (\<forall>fd. outbox (fds w' fd) = outbox (fds w fd) @
       concat (map (\<lambda>t. on_wire (target_type w t) body) (filter (\<lambda>t. target_type w t \<noteq> 0 \<and> target_fd w t = fd) ts))) \<and>
    h_delivered w' = h_delivered w @
      got_through (mq w) (map (\<lambda>t. (Some s, leave_note h (to_int32 t))) (filter (\<lambda>t. target_type w t = 0) ts))"
  using assms(3,4)
proof (induction ts arbitrary: w)
  case (Cons t ts)
  let ?id = "to_int32 t" and ?fd = "target_fd w t" and ?ty = "target_type w t"
  have id: "0 \<le> ?id" "?id < 65536" using Cons.prems(1) by auto
  have fd: "0 \<le> ?fd" "?fd < 65536" using uint_lt2p [of "REG_ID_TO_FD (h_reg w) (word_of_int ?id)"]
    by (simp_all add: target_fd_def)
  have step: "deliver_targets True h (t # ts) body w =
      cbind (handler_process_request True h ?id ?fd ?ty body w) (deliver_targets True h ts body)"
    using id fd by (simp add: Let_def Register_fd_for_id_def Register_fd_exists_def target_fd_def target_type_def
        MAX_REGISTERED_FDS_def)
  show ?case
  proof (cases "?ty = 0")
    case True
    let ?w1 = "w\<lparr>mq := drop 1 (mq w), h_delivered := h_delivered w @ got_through (take 1 (mq w)) [(Some s, leave_note h ?id)]\<rparr>"
    have same: "target_fd ?w1 = target_fd w" "target_type ?w1 = target_type w"
      by (simp_all add: target_fd_def target_type_def fun_eq_iff)
    have "\<forall>t\<in>set ts. target_type ?w1 t \<noteq> 0 \<longrightarrow> accepts (fds ?w1 (target_fd ?w1 t)) = []"
      unfolding same using Cons.prems(2) by auto
    with Cons.IH [of ?w1] Cons.prems obtain w' where w': "deliver_targets True h ts body ?w1 = Inr w'"
        "h_reg w' = h_reg w" "h_closed w' = h_closed w" "h_delivered w' = h_delivered ?w1 @
          got_through (drop 1 (mq w)) (map (\<lambda>t. (Some s, leave_note h (to_int32 t))) (filter (\<lambda>t. target_type w t = 0) ts))"
      and out: "\<forall>fd. outbox (fds w' fd) = outbox (fds w fd) @
        concat (map (\<lambda>t. on_wire (target_type w t) body) (filter (\<lambda>t. target_type w t \<noteq> 0 \<and> target_fd w t = fd) ts))"
      unfolding same by auto
    have "deliver_targets True h (t # ts) body w = Inr w'"
      unfolding step True process_gone [OF assms(2)] using w'(1) by simp
    moreover have "h_delivered w' = h_delivered w @ got_through (mq w)
        (map (\<lambda>t. (Some s, leave_note h (to_int32 t))) (filter (\<lambda>t. target_type w t = 0) (t # ts)))"
      using w'(4) True got_through_Cons [of "mq w" "(Some s, leave_note h ?id)"] by simp
    ultimately show ?thesis using w'(2,3) out True by (intro exI [of _ w']) simp
  next
    case False
    let ?w1 = "w\<lparr>fds := (fds w)(?fd := (fds w ?fd)\<lparr>outbox := outbox (fds w ?fd) @ on_wire ?ty body\<rparr>)\<rparr>"
    have same: "target_fd ?w1 = target_fd w" "target_type ?w1 = target_type w"
      by (simp_all add: target_fd_def target_type_def fun_eq_iff)
    have "\<forall>t\<in>set ts. target_type ?w1 t \<noteq> 0 \<longrightarrow> accepts (fds ?w1 (target_fd ?w1 t)) = []"
      unfolding same using Cons.prems(2) by auto
    with Cons.IH [of ?w1] Cons.prems obtain w' where w': "deliver_targets True h ts body ?w1 = Inr w'"
        "h_reg w' = h_reg w" "h_closed w' = h_closed w"
        "h_delivered w' = h_delivered w @
          got_through (mq w) (map (\<lambda>t. (Some s, leave_note h (to_int32 t))) (filter (\<lambda>t. target_type w t = 0) ts))"
      and out: "\<forall>fd. outbox (fds w' fd) = outbox (fds ?w1 fd) @
        concat (map (\<lambda>t. on_wire (target_type w t) body) (filter (\<lambda>t. target_type w t \<noteq> 0 \<and> target_fd w t = fd) ts))"
      unfolding same by auto
    have acc: "accepts (fds w ?fd) = []" using Cons.prems(2) False by simp
    show ?thesis using w' out False
      by (intro exI [of _ w']) (auto simp: step process_live [OF acc assms(1) False] simp del: deliver_targets.simps)
  qed
qed simp

text \<open>A register with two connections, one for messages.\<close>

definition sample_hworld :: hworld where
  "sample_hworld = \<lparr>h_reg = (case cbind (Register_connect empty_register 5 1 0) (\<lambda>(_, r). Register_connect r 6 2 0) of
       Inr (_, r) \<Rightarrow> r | Inl _ \<Rightarrow> empty_register),
     fds = (\<lambda>_. quiet_chan), mq = [], h_delivered = [], h_closed = []\<rparr>"

lemma deliver_targets_delivers_witness:
  "\<exists>w'. deliver_targets True sample_handler [1, 0, 9, 1] ''hi'' sample_hworld = Inr w' \<and> h_reg w' = h_reg sample_hworld \<and>
    h_closed w' = [] \<and>
    (\<forall>fd. outbox (fds w' fd) = concat (map (\<lambda>t. on_wire (target_type sample_hworld t) ''hi'')
       (filter (\<lambda>t. target_type sample_hworld t \<noteq> 0 \<and> target_fd sample_hworld t = fd) [1, 0, 9, 1]))) \<and>
    h_delivered w' = map (\<lambda>t. (Some 1, leave_note sample_handler (to_int32 t)))
      (filter (\<lambda>t. target_type sample_hworld t = 0) [1, 0, 9, 1])"
  using deliver_targets_delivers [of "''hi''" sample_handler 1 "[1, 0, 9, 1]" sample_hworld]
  by (simp add: sample_handler_def sample_hworld_def quiet_chan_def to_int32_def)

text \<open>
  C35: a handler's message can end the server.  Whichever running handler gets a message that names an identity out of
  range, wherever among its targets, the loop ends in a fault: unless a target in front of it ends it already, the assertion of
  \<^verbatim>\<open>Register_fd_for_id\<close> fails for an identity from 65536 on, and one that is negative as an \<^verbatim>\<open>int\<close> makes it
  read in front of its table.
\<close>

theorem handler_message_fatal:
  assumes "running h \<noteq> 0" "run \<noteq> 0" "uid \<noteq> []" "\<forall>c\<in>set uid. uuid_char c" "\<forall>j\<in>set ids. j < 2 ^ 64" "length ids \<le> target_max hp"
    "length (targets hp) = target_max hp" "int (length (id_text ids)) < 2 ^ 31" "ids = us @ t # vs" "bad_identity t"
  shows "(\<exists>e. handler_loop m ((0, run, handler_message uid ids body) # evs) h hp w = Inl e) \<and>
    (deliver_targets m (h\<lparr>running := run\<rparr>) (map int us) body w = Inr w1 \<longrightarrow>
       handler_loop m ((0, run, handler_message uid ids body) # evs) h hp w =
         Inl (if to_int32 (int t) < 0 then Out_of_bounds else Assert_fail))"
proof -
  from HandlerParser_reads [OF assms(3-8), of body] obtain hp' where
    r: "HandlerParser_execute hp (handler_message uid ids body) = Inr (1, hp')" "target_count hp' = length ids"
      "take (length ids) (targets hp') = map int ids" "drop (hp_body_start hp') (handler_message uid ids body) = body" by blast
  have l: "handler_loop m ((0, run, handler_message uid ids body) # evs) h hp w =
      cbind (cbind (deliver_targets m (h\<lparr>running := run\<rparr>) (map int us) body w)
          (deliver_targets m (h\<lparr>running := run\<rparr>) (int t # map int vs) body))
        (\<lambda>w. handler_loop m evs (h\<lparr>running := run\<rparr>) (HandlerParser_reset hp') w)"
    using assms(1,2,9) r deliver_append [of m "h\<lparr>running := run\<rparr>" "map int us" "int t # map int vs" body w]
    by (simp add: handler_recv_parse_def Let_def del: deliver_targets.simps)
  show ?thesis unfolding l
    by (cases "deliver_targets m (h\<lparr>running := run\<rparr>) (map int us) body w")
      (simp_all add: deliver_bad [OF assms(10)] del: deliver_targets.simps)
qed

lemma handler_message_fatal_witness:
  "handler_loop True [(0, 1, handler_message ''test'' [100000, 1] ''hi'')] sample_handler sample_hparser sample_hworld = Inl Assert_fail \<and>
   handler_loop True [(0, 1, handler_message ''test'' [2147483648] ''hi'')] sample_handler sample_hparser sample_hworld = Inl Out_of_bounds"
proof -
  have s: "running sample_handler \<noteq> 0" "(1 :: int) \<noteq> 0" "''test'' \<noteq> []" "\<forall>c\<in>set ''test''. uuid_char c"
    "length (targets sample_hparser) = target_max sample_hparser" "target_max sample_hparser = 128"
    by (simp_all add: sample_handler_def sample_hparser_def HandlerParser_create_def uuid_char_def isdigit_def isalpha_def islower_def isupper_def)
  show ?thesis
    using handler_message_fatal [OF s(1-4) _ _ s(5), where ids = "[100000, 1]" and us = "[]" and t = 100000 and vs = "[1]" and m = True
        and body = "''hi''" and evs = "[]" and w = sample_hworld and ?w1.0 = sample_hworld]
      handler_message_fatal [OF s(1-4) _ _ s(5), where ids = "[2147483648]" and us = "[]" and t = 2147483648 and vs = "[]" and m = True
        and body = "''hi''" and evs = "[]" and w = sample_hworld and ?w1.0 = sample_hworld] s(6)
    by (simp add: bad_identity_def to_int32_def nat_digits.simps more_ids_def)
qed

end
