(* ===== verification/Connection.thy ===== *)
theory Connection
  imports Serve Proxy Handler
begin

text \<open>
  \<^verbatim>\<open>src/connection.c\<close>: the actions of a connection, bound into the table \<^verbatim>\<open>CONN_ACTIONS\<close> that the
  state machine calls.  An action answers the next event.  Faults and loops that never return
  are values, so that the task over the actions is defined on every input.
\<close>

section \<open>Set-up\<close>

abbreviation (input) IPADDR_SIZE :: nat where "IPADDR_SIZE \<equiv> 16"

definition Connection_init :: "settings \<Rightarrow> limits" where
  "Connection_init setg =
     \<lparr>MAX_CONTENT_LENGTH = Setting_get_int setg ''limits.content_length'' (20 * 1024),
      BUFFER_SIZE = Setting_get_int setg ''limits.buffer_size'' (4 * 1024),
      CONNECTION_STACK = Setting_get_int setg ''limits.connection_stack_size'' (32 * 1024)\<rparr>"

definition Connection_destroy :: "('p, 'c) conn \<Rightarrow> (('p, 'c) conn) cres" where
  "Connection_destroy c = cbind (Request_destroy (req c)) (\<lambda>_. Inr (c\<lparr>freed := True\<rparr>))"

text \<open>
  \<^verbatim>\<open>Connection_create\<close> in a world \<open>w\<close>: its checked allocations are \<open>m 0\<close>, \<open>m 1\<close>, \<open>m 2\<close>, and \<open>ctx\<close> says
  whether there is a TLS context and whether a session could be made from it.
\<close>

definition Connection_create ::
    "('p, 'c) env \<Rightarrow> (nat \<Rightarrow> bool) \<Rightarrow> nat \<Rightarrow> 'p http_parser \<Rightarrow> ('p, 'c) conn \<Rightarrow> target server \<Rightarrow> int \<Rightarrow> int \<Rightarrow> string \<Rightarrow>
     bool option \<Rightarrow> ('p, 'c) conn option" where
  "Connection_create E m max_headers hp w srv f rprt rem ctx =
     (if \<not> m 0 then None
      else case Request_create (m 1) max_headers hp of
        None \<Rightarrow> None
      | Some rq \<Rightarrow>
          if \<not> m 2 then None
          else if ctx = Some False then None
          else Some (w\<lparr>server := srv, conn_fd := f, proxy_fd := 0, req := rq, nread := 0, nparsed := 0, registered := 0,
                 rport := rprt, buf := replicate (nat (BUFFER_SIZE (lims E)) + 1) NUL, proxy_buf := None, client := None,
                 remote := take IPADDR_SIZE rem @ [NUL], conn_close := 0, ssl := ctx \<noteq> None, ssl_buff := None,
                 ssl_buff_len := 0, freed := False\<rparr>))"

section \<open>Small helpers\<close>

type_synonym ('p, 'c) act_result = "(int \<times> ('p, 'c) conn) cres"

text \<open>\<^verbatim>\<open>error_response\<close>: the status is sent, whatever comes of it, and the action ends in \<open>nxt\<close>.\<close>

definition error_response :: "('p, 'c) conn \<Rightarrow> bstring \<Rightarrow> int \<Rightarrow> ('p, 'c) act_result" where
  "error_response c resp nxt = cbind (Response_send_status c resp) (\<lambda>(_, c). Inr (nxt, c))"

text \<open>\<^verbatim>\<open>Request_get_action\<close>: reading the union through another member than was written is a fault.\<close>

definition get_handler :: "('p, 'c) conn \<Rightarrow> (handler option) cres" where
  "get_handler c =
     (case action (req c) of None \<Rightarrow> Inr None
      | Some b \<Rightarrow> (case target b of T_handler h \<Rightarrow> Inr (Some h) | _ \<Rightarrow> Inl Out_of_bounds))"

definition get_dir :: "('p, 'c) conn \<Rightarrow> (nat option) cres" where
  "get_dir c =
     (case action (req c) of None \<Rightarrow> Inr None
      | Some b \<Rightarrow> (case target b of T_dir d \<Rightarrow> Inr (Some d) | _ \<Rightarrow> Inl Out_of_bounds))"

definition get_proxy :: "('p, 'c) conn \<Rightarrow> proxy option" where
  "get_proxy c =
     (case action (req c) of None \<Rightarrow> None
      | Some b \<Rightarrow> (case target b of T_proxy p \<Rightarrow> Some p | _ \<Rightarrow> None))"

text \<open>\<^verbatim>\<open>Log_request\<close> of \<^verbatim>\<open>log.c\<close> prints the name of the target host.\<close>

definition Log_request :: "('p, 'c) conn \<Rightarrow> int \<Rightarrow> int \<Rightarrow> (('p, 'c) conn) cres" where
  "Log_request c status sz =
     (case target_host (req c) of
        None \<Rightarrow> Inl Null_deref
      | Some _ \<Rightarrow> Inr (c\<lparr>access_log_lines := access_log_lines c @ [(status, sz)]\<rparr>))"

definition deliver_message :: "('p, 'c) env \<Rightarrow> handler \<Rightarrow> bstring option \<Rightarrow> ('p, 'c) conn \<Rightarrow> int \<times> ('p, 'c) conn" where
  "deliver_message E h payload c =
     (let (rc, rs, out) = Handler_deliver (mem E) (send_socket h) payload
            (case payload of None \<Rightarrow> 0 | Some p \<Rightarrow> int (length p)) (mq_results c, delivered c) in
      (rc, c\<lparr>mq_results := rs, delivered := out\<rparr>))"

definition request_payload ::
    "handler \<Rightarrow> string \<Rightarrow> int \<Rightarrow> ('p, 'c) conn \<Rightarrow> (bstring option) cres" where
  "request_payload h body len c = Request_to_payload (registry c) (req c) (Some (send_ident h)) (conn_fd c) body len"

definition add_header :: "bstring \<Rightarrow> bstring \<Rightarrow> ('p, 'c) conn \<Rightarrow> (('p, 'c) conn) cres" where
  "add_header k v c = cbind (header_field_cb k v (req c)) (\<lambda>rq. Inr (c\<lparr>req := rq\<rparr>))"

section \<open>Reading a header\<close>

definition check_should_close :: "('p, 'c) conn \<Rightarrow> ('p, 'c) conn" where
  "check_should_close c =
     (if version (req c) \<noteq> None \<and> biseqcstr (version (req c)) ''HTTP/1.0'' \<noteq> 0 then c\<lparr>conn_close := 1\<rparr>
      else
        (let cc = Request_get (req c) HTTP_CONNECTION in
         if cc \<noteq> None \<and> biseqcstrcaseless cc ''close'' \<noteq> 0 then c\<lparr>conn_close := 1\<rparr>
         else c\<lparr>conn_close := 0\<rparr>))"

definition parse_buffer :: "('p, 'c) env \<Rightarrow> ('p, 'c) conn \<Rightarrow> (int \<times> nat \<times> ('p, target) request) cres" where
  "parse_buffer E c =
     (if nread c > int (length (buf c)) then Inl Out_of_bounds
      else Request_parse (http E) (req c) (take (nat (nread c)) (buf c)) (nparsed c))"

text \<open>The loop of \<^verbatim>\<open>Connection_read_header\<close>: whether it ran to its end, \<^verbatim>\<open>finished\<close>, and the connection.\<close>

function read_loop ::
    "('p, 'c) env \<Rightarrow> ('p, 'c) conn \<Rightarrow> int \<Rightarrow> int \<Rightarrow> int \<Rightarrow> (bool \<times> int \<times> ('p, 'c) conn) cres" where
  "read_loop E c finished remaining cur =
     (if finished \<noteq> 1 \<and> remaining \<ge> 0 then
        (case conn_recv c cur remaining of
           Inl e \<Rightarrow> Inl e
         | Inr (n, c1) \<Rightarrow>
             if \<not> n > 0 then Inr (False, finished, c1)
             else
               (let nr = nread c + n; c1 = c1\<lparr>nread := nr\<rparr> in
                if cstr_at (buf c1) (nat (BUFFER_SIZE (lims E))) \<noteq> NUL then Inr (False, finished, c1)
                else (case parse_buffer E c1 of
                   Inl e \<Rightarrow> Inl e
                 | Inr (fin, np, rq) \<Rightarrow>
                     read_loop E (c1\<lparr>req := rq, nparsed := np, nread := nr\<rparr>) fin (BUFFER_SIZE (lims E) - 1 - nr) nr)))
      else Inr (True, finished, c))"
  by pat_completeness auto
termination
  by (relation "measures [\<lambda>(E, c, finished, remaining, cur). if remaining = BUFFER_SIZE (lims E) - 1 - nread c then 0 else 1,
        \<lambda>(E, c, finished, remaining, cur). nat (remaining + 1)]") auto

declare read_loop.simps [simp del]

definition Connection_read_header :: "('p, 'c) env \<Rightarrow> ('p, 'c) conn \<Rightarrow> ('p, 'c) act_result" where
  "Connection_read_header E c =
     (let bsz = BUFFER_SIZE (lims E); c = c\<lparr>nparsed := 0, req := Request_start (http E) (req c)\<rparr> in
      cbind (put_buf (buf c) bsz [NUL]) (\<lambda>b.
        cbind (read_loop E (c\<lparr>buf := b\<rparr>) 0 (bsz - 1) 0) (\<lambda>(ok, finished, c).
          if \<not> ok then Inr (-1, c)
          else if finished \<noteq> 1 then error_response c HTTP_400 (-1)
          else cbind (add_header ''X-Forwarded-For'' (take IPADDR_SIZE (remote c)) c) (\<lambda>c.
            Inr (nread c, check_should_close c)))))"

definition connection_parse :: "('p, 'c) env \<Rightarrow> int \<Rightarrow> ('p, 'c) conn \<Rightarrow> ('p, 'c) act_result" where
  "connection_parse E event c =
     cbind (Connection_read_header E (c\<lparr>nread := 0\<rparr>)) (\<lambda>(n, c). Inr (if n > 0 then REQ_RECV else CLOSE, c))"

section \<open>Opening, identifying and routing\<close>

definition connection_open :: "int \<Rightarrow> ('p, 'c) conn \<Rightarrow> ('p, 'c) act_result" where
  "connection_open event c = Inr (ACCEPT, if registered c = 0 then c\<lparr>registered := 1\<rparr> else c)"

definition connection_finish :: "int \<Rightarrow> ('p, 'c) conn \<Rightarrow> ('p, 'c) act_result" where
  "connection_finish event c = cbind (Connection_destroy c) (\<lambda>c. Inr (CLOSE, c))"

definition connection_send_socket_response :: "int \<Rightarrow> ('p, 'c) conn \<Rightarrow> ('p, 'c) act_result" where
  "connection_send_socket_response event c =
     cbind (Response_send_socket_policy c) (\<lambda>(rc, c). Inr (if rc > 0 then RESP_SENT else CLOSE, c))"

definition ident_and_register :: "int \<Rightarrow> ('p, 'c) conn \<Rightarrow> bool \<Rightarrow> ('p, 'c) act_result" where
  "ident_and_register event c reg_too =
     (let (ctype, nxt) =
        (if Request_is_socket (req c) then (CONN_TYPE_SOCKET, SOCKET_REQ)
         else if Request_is_json (req c) then (CONN_TYPE_MSG, MSG_REQ)
         else if Request_is_http (req c) then (CONN_TYPE_HTTP, HTTP_REQ) else (0, CLOSE)) in
      if ctype = 0 then error_response c HTTP_500 CLOSE
      else if reg_too
      then cbind (Register_connect (registry c) (conn_fd c) ctype (now c)) (\<lambda>(_, reg). Inr (nxt, c\<lparr>registry := reg\<rparr>))
      else Inr (nxt, c))"

definition connection_register_request :: "int \<Rightarrow> ('p, 'c) conn \<Rightarrow> ('p, 'c) act_result" where
  "connection_register_request event c = ident_and_register event c True"

definition connection_identify_request :: "int \<Rightarrow> ('p, 'c) conn \<Rightarrow> ('p, 'c) act_result" where
  "connection_identify_request event c = ident_and_register event c False"

definition Connection_backend_event :: "target backend \<Rightarrow> ('p, 'c) conn \<Rightarrow> ('p, 'c) act_result" where
  "Connection_backend_event found c =
     (if btype found = BACKEND_HANDLER then Inr (HANDLER, c)
      else if btype found = BACKEND_DIR then Inr (DIRECTORY, c)
      else if btype found = BACKEND_PROXY then Inr (PROXY, c)
      else error_response c HTTP_501 CLOSE)"

text \<open>A request without a path is looked up with \<^verbatim>\<open>bdata\<close> and \<^verbatim>\<open>blength\<close> of \<^verbatim>\<open>NULL\<close>: a length of 0.\<close>

definition connection_route_request :: "int \<Rightarrow> ('p, 'c) conn \<Rightarrow> ('p, 'c) act_result" where
  "connection_route_request event c =
     cbind (case host_name (req c) of
              Some hn \<Rightarrow> Server_match_backend (server c) hn
            | None \<Rightarrow> Inr (default_host (server c))) (\<lambda>h.
       case h of
         None \<Rightarrow> error_response c HTTP_404 CLOSE
       | Some h \<Rightarrow>
           cbind (Host_match_backend h (case path (req c) of None \<Rightarrow> [] | Some p \<Rightarrow> p)) (\<lambda>(found, pat).
             case found of
               None \<Rightarrow> error_response c HTTP_404 CLOSE
             | Some b \<Rightarrow>
                 Connection_backend_event b
                   (c\<lparr>req := (req c)\<lparr>action := Some b, target_host := Some h, req_pattern := pat\<rparr>\<rparr>)))"

section \<open>To handlers\<close>

definition PING_PATTERN :: bstring where
  "PING_PATTERN = ''@[a-z/]- {'' @ DQ @ ''type'' @ DQ @ '':'' @ [BSLASH] @ ''s*'' @ DQ @ ''ping'' @ DQ @ ''}''"

definition connection_msg_to_handler :: "('p, 'c) env \<Rightarrow> int \<Rightarrow> ('p, 'c) conn \<Rightarrow> ('p, 'c) act_result" where
  "connection_msg_to_handler E event c =
     cbind (get_handler c) (\<lambda>h.
       case h of
         None \<Rightarrow> Inr (CLOSE, c)
       | Some h \<Rightarrow>
           cbind (pattern_match (buf c) (nparsed c) PING_PATTERN) (\<lambda>ping.
             if ping \<noteq> None then
               cbind (Log_request c 200 0) (\<lambda>c.
                 cbind (Register_ping (registry c) (conn_fd c) (now c)) (\<lambda>(_, reg).
                   Inr (REQ_SENT, c\<lparr>registry := reg\<rparr>)))
             else
               (let header_len = int (length (case path (req c) of None \<Rightarrow> [] | Some p \<Rightarrow> p)) + 1;
                    len = nread c - header_len - 1 in
                if \<not> len \<ge> 0 then Inr (CLOSE, c)
                else
                  cbind (Log_request c 200 len) (\<lambda>c.
                    cbind (request_payload h (drop (nat header_len) (buf c)) len c) (\<lambda>payload.
                      let (rc, c) = deliver_message E h payload c in
                      Inr (if rc = 0 then REQ_SENT else CLOSE, c))))))"

text \<open>A write to the temporary file, which is a descriptor of its own.\<close>

definition temp_chan :: "int list \<Rightarrow> chan" where
  "temp_chan acc = \<lparr>inbox = [], in_end = 0, outbox = [], accepts = acc\<rparr>"

text \<open>The \<^verbatim>\<open>for\<close> loop of \<^verbatim>\<open>connection_upload_file\<close>: whether no check failed, what is left, and the file.\<close>

function upload_loop ::
    "int \<Rightarrow> ('p, 'c) conn \<Rightarrow> chan \<Rightarrow> int \<Rightarrow> (bool \<times> int \<times> chan \<times> ('p, 'c) conn) cres" where
  "upload_loop bsz c tmp clen =
     (if clen > 0 then
        (case conn_recv c 0 (if clen < bsz then clen else bsz) of
           Inl e \<Rightarrow> Inl e
         | Inr (n, c) \<Rightarrow>
             if \<not> n > 0 then Inr (False, clen, tmp, c)
             else (case fdsend tmp (buf c) n of
                Inl e \<Rightarrow> Inl e
              | Inr (rc, tmp) \<Rightarrow>
                  if \<not> rc > 0 then Inr (False, clen, tmp, c)
                  else upload_loop bsz c tmp (clen - rc)))
      else Inr (True, clen, tmp, c))"
  by pat_completeness auto
termination
  by (relation "measure (\<lambda>(bsz, c, tmp, clen). nat clen)") auto

declare upload_loop.simps [simp del]

text \<open>The \<^verbatim>\<open>error\<close> label: the descriptor is closed whatever it is, and the file, if there is a name, removed.\<close>

definition upload_error :: "int \<Rightarrow> bstring option \<Rightarrow> ('p, 'c) conn \<Rightarrow> (bstring option \<times> ('p, 'c) conn) cres" where
  "upload_error tmpfd store c =
     Inr (None, c\<lparr>fds_closed := fds_closed c @ [tmpfd],
       unlinked := unlinked c @ (case store of None \<Rightarrow> [] | Some s \<Rightarrow> [s])\<rparr>)"

definition upload_body ::
    "('p, 'c) env \<Rightarrow> int \<Rightarrow> int \<Rightarrow> bstring \<Rightarrow> chan \<Rightarrow> int \<Rightarrow> ('p, 'c) conn \<Rightarrow> (bstring option \<times> ('p, 'c) conn) cres" where
  "upload_body E header_len clen store tmp tmpfd c =
     cbind (if nread c - header_len > 0
            then cbind (fdsend tmp (drop (nat header_len) (buf c)) (nread c - header_len)) (\<lambda>(rc, tmp).
              Inr (rc = nread c - header_len, rc, tmp))
            else Inr (True, 0, tmp)) (\<lambda>(ok, rc, tmp).
       if \<not> ok then upload_error tmpfd (Some store) c
       else
         cbind (upload_loop (BUFFER_SIZE (lims E)) (c\<lparr>nread := 0\<rparr>) tmp (clen - rc)) (\<lambda>(ok, left, tmp, c).
           if \<not> ok \<or> left \<noteq> 0 then upload_error tmpfd (Some store) c
           else
             cbind (add_header ''X-Mongrel2-Upload-Done'' store c) (\<lambda>c.
               Inr (Some store, c\<lparr>fds_closed := fds_closed c @ [tmpfd], uploads := uploads c @ [(store, outbox tmp)]\<rparr>))))"

definition connection_upload_file ::
    "('p, 'c) env \<Rightarrow> handler \<Rightarrow> int \<Rightarrow> int \<Rightarrow> ('p, 'c) conn \<Rightarrow> (bstring option \<times> ('p, 'c) conn) cres" where
  "connection_upload_file E h header_len clen c =
     (case Setting_get_str (sets E) ''upload.temp_store'' None of
        None \<Rightarrow> cbind (Response_send_status c HTTP_413) (\<lambda>(_, c). upload_error 0 None c)
      | Some template \<Rightarrow>
          (case temps c of
             [] \<Rightarrow> upload_error (-1) (Some template) c
           | (tmpfd, store, acc) # ts \<Rightarrow>
               (let c = c\<lparr>temps := ts\<rparr> in
                if tmpfd = -1 then upload_error tmpfd (Some store) c
                else
                  cbind (add_header ''X-Mongrel2-Upload-Start'' store c) (\<lambda>c.
                    cbind (request_payload h [] 0 c) (\<lambda>result.
                      if result = None then upload_error tmpfd (Some store) c
                      else
                        (let (rc, c) = deliver_message E h result c in
                         if rc = -1 then upload_error tmpfd (Some store) c
                         else upload_body E header_len clen store (temp_chan acc) tmpfd c))))))"

text \<open>The loop that reads the rest of the body behind what has been read.\<close>

function body_loop :: "('p, 'c) conn \<Rightarrow> int \<Rightarrow> int \<Rightarrow> (bool \<times> int \<times> ('p, 'c) conn) cres" where
  "body_loop c body remaining =
     (if remaining > 0 then
        (case conn_recv c body remaining of
           Inl e \<Rightarrow> Inl e
         | Inr (rc, c) \<Rightarrow>
             if \<not> rc > 0 then Inr (False, remaining, c) else body_loop c (body + rc) (remaining - rc))
      else Inr (True, remaining, c))"
  by pat_completeness auto
termination
  by (relation "measure (\<lambda>(c, body, remaining). nat remaining)") auto

declare body_loop.simps [simp del]

text \<open>\<^verbatim>\<open>h_realloc\<close>: a new allocation with the old bytes; what lies behind them is unspecified, here zero.\<close>

definition grow_buf :: "int \<Rightarrow> ('p, 'c) conn \<Rightarrow> ('p, 'c) conn" where
  "grow_buf n c =
     c\<lparr>buf := take (nat n) (buf c) @ replicate (nat n - length (buf c)) NUL, buf_gen := Suc (buf_gen c)\<rparr>"

text \<open>The body for the handler: the bytes from \<^verbatim>\<open>body\<close> on, its length, or \<open>None\<close> at a failed check.\<close>

definition handler_body ::
    "('p, 'c) env \<Rightarrow> handler \<Rightarrow> int \<Rightarrow> int \<Rightarrow> ('p, 'c) conn \<Rightarrow> ((string \<times> int) option \<times> ('p, 'c) conn) cres" where
  "handler_body E h header_len clen c =
     (let tot = header_len + clen in
      if clen = 0 then Inr (Some ([], 0), c)
      else if clen > MAX_CONTENT_LENGTH (lims E) then
        cbind (connection_upload_file E h header_len clen c) (\<lambda>(store, c).
          Inr (if store \<noteq> None then Some ([], 0) else None, c))
      else
        (let c = (if tot > BUFFER_SIZE (lims E) then grow_buf tot c else c) in
         cbind (if nread c < tot then body_loop c (nread c) clen else Inr (True, 0, c)) (\<lambda>(ok, remaining, c).
           if \<not> ok \<or> remaining \<noteq> 0 then Inr (None, c)
           else Inr (Some (drop (nat header_len) (buf c), clen), c))))"

definition connection_http_to_handler :: "('p, 'c) env \<Rightarrow> int \<Rightarrow> ('p, 'c) conn \<Rightarrow> ('p, 'c) act_result" where
  "connection_http_to_handler E event c =
     (let clen = content_len (parser (req c)); header_len = int (body_start (parser (req c))) in
      cbind (get_handler c) (\<lambda>h.
        case h of
          None \<Rightarrow> error_response c HTTP_404 CLOSE
        | Some h \<Rightarrow>
            cbind (handler_body E h header_len clen c) (\<lambda>(r, c).
              case r of
                None \<Rightarrow> Inr (CLOSE, c)
              | Some (body, len) \<Rightarrow>
                  cbind (Log_request c 200 len) (\<lambda>c.
                    cbind (request_payload h body len c) (\<lambda>result.
                      if result = None then Inr (CLOSE, c)
                      else
                        (let (rc, c) = deliver_message E h result c in
                         if rc = -1 then error_response c HTTP_502 CLOSE else Inr (REQ_SENT, c)))))))"

section \<open>To directories\<close>

definition connection_http_to_directory :: "('p, 'c) env \<Rightarrow> int \<Rightarrow> ('p, 'c) conn \<Rightarrow> ('p, 'c) act_result" where
  "connection_http_to_directory E event c =
     cbind (get_dir c) (\<lambda>d.
       case d of
         None \<Rightarrow> Inl Null_deref
       | Some d \<Rightarrow>
           cbind (Dir_serve_file E d c) (\<lambda>(rc, c).
             if rc \<noteq> 0 then Inr (CLOSE, c)
             else
               cbind (Log_request c (status_code (req c)) (response_size (req c))) (\<lambda>c.
                 Inr (if conn_close c \<noteq> 0 then CLOSE else RESP_SENT, c))))"

section \<open>To proxies\<close>

text \<open>The machine comes here only behind the event of a proxy backend; no target at all is answered like one that cannot be dialled.\<close>

definition connection_http_to_proxy :: "('p, 'c) env \<Rightarrow> int \<Rightarrow> ('p, 'c) conn \<Rightarrow> int \<times> ('p, 'c) conn" where
  "connection_http_to_proxy E event c =
     (case get_proxy c of
        None \<Rightarrow> (FAILED, c)
      | Some _ \<Rightarrow>
          (let (pfd, c) = (case dials c of
                 [] \<Rightarrow> (-1, c\<lparr>proxy_fd := -1\<rparr>)
               | (f, ch) # ds \<Rightarrow> (f, c\<lparr>proxy_fd := f, backend_sock := ch, dials := ds\<rparr>)) in
           if pfd = -1 then (FAILED, c)
           else if proxy_buf c = None \<and> \<not> mem E then (FAILED, c)
           else
             (let c = (if proxy_buf c = None
                       then c\<lparr>proxy_buf := Some (replicate (nat (BUFFER_SIZE (lims E)) + 1) NUL)\<rparr> else c) in
              if client c = None \<and> \<not> mem E then (FAILED, c)
              else (CONNECT, if client c = None then c\<lparr>client := Some (new_client E)\<rparr> else c))))"

definition send_backend :: "int \<Rightarrow> ('p, 'c) conn \<Rightarrow> (int \<times> ('p, 'c) conn) cres" where
  "send_backend n c = cbind (fdsend (backend_sock c) (buf c) n) (\<lambda>(rc, ch). Inr (rc, c\<lparr>backend_sock := ch\<rparr>))"

lemma send_backend_negative: "send_backend n c = Inr (rc, c') \<Longrightarrow> n \<le> 0 \<Longrightarrow> rc = 0"
  by (auto simp: send_backend_def fdsend_def send_loop.simps)

text \<open>The streaming loop; the flag falls at a failed check.\<close>

function deliver_loop :: "int \<Rightarrow> ('p, 'c) conn \<Rightarrow> int \<Rightarrow> (bool \<times> ('p, 'c) conn) cres" where
  "deliver_loop bsz c total_len =
     (case send_backend (nread c) c of
        Inl e \<Rightarrow> Inl e
      | Inr (rc, c1) \<Rightarrow>
          if rc \<noteq> nread c then Inr (False, c1)
          else if total_len - rc > 0 then
            (case conn_recv c1 0 bsz of
               Inl e \<Rightarrow> Inl e
             | Inr (n, c2) \<Rightarrow>
                 if \<not> n > 0 then Inr (False, c2\<lparr>nread := n\<rparr>)
                 else deliver_loop bsz (c2\<lparr>nread := n\<rparr>) (total_len - rc))
          else Inr (True, c1\<lparr>nread := 0\<rparr>))"
  by pat_completeness auto
termination
  by (relation "measure (\<lambda>(bsz, c, total_len). 2 * nat total_len + (if nread c > 0 then 0 else 1))")
    (auto dest: send_backend_negative simp: not_less)

declare deliver_loop.simps [simp del]

definition connection_proxy_deliver :: "('p, 'c) env \<Rightarrow> int \<Rightarrow> ('p, 'c) conn \<Rightarrow> ('p, 'c) act_result" where
  "connection_proxy_deliver E event c =
     (let total_len = int (body_start (parser (req c))) + content_len (parser (req c)) in
      if total_len < nread c then
        cbind (send_backend total_len c) (\<lambda>(rc, c).
          if \<not> rc > 0 then Inr (REMOTE_CLOSE, c)
          else
            (let rest = nread c - total_len in
             cbind (put_buf (buf c) 0 (take (nat rest) (drop (nat total_len) (buf c)))) (\<lambda>b.
               Inr (REQ_SENT, c\<lparr>nread := rest, buf := b\<rparr>))))
      else if total_len > nread c then
        cbind (deliver_loop (BUFFER_SIZE (lims E)) c total_len) (\<lambda>(ok, c). Inr (if ok then REQ_SENT else REMOTE_CLOSE, c))
      else
        cbind (send_backend total_len c) (\<lambda>(rc, c).
          if rc \<noteq> total_len then Inr (REMOTE_CLOSE, c) else Inr (REQ_SENT, c\<lparr>nread := 0\<rparr>)))"

text \<open>A response without a length is passed on until the backend closes.\<close>

partial_function (option) until_close ::
    "int \<Rightarrow> ('p, 'c) conn \<Rightarrow> int \<Rightarrow> ((bool \<times> ('p, 'c) conn) cres) option" where
  "until_close bsz c n =
     (case send_proxy_buf c n of
        Inl e \<Rightarrow> Some (Inl e)
      | Inr (rc, c1) \<Rightarrow>
          if rc \<noteq> n then Some (Inr (False, c1))
          else (case proxy_recv c1 0 bsz of
             Inl e \<Rightarrow> Some (Inl e)
           | Inr (n1, c2) \<Rightarrow> if n1 > 0 then until_close bsz c2 n1 else Some (Inr (True, c2))))"

definition reply_result :: "('p, 'c) env \<Rightarrow> int \<Rightarrow> ('p, 'c) conn \<Rightarrow> ((bool \<times> ('p, 'c) conn) cres) option" where
  "reply_result E n c =
     (case client c of
        None \<Rightarrow> Some (Inl Null_deref)
      | Some cl \<Rightarrow>
          if cl_chunked cl \<noteq> 0 then
            map_option (\<lambda>r. cbind r (\<lambda>(rc, c). Inr (rc \<noteq> -1, c))) (Proxy_stream_chunks E c n)
          else if cl_content_len cl \<ge> 0 then
            map_option (\<lambda>r. cbind r (\<lambda>(rc, c). Inr (rc \<noteq> -1, c)))
              (Proxy_stream_response E c (cl_body_start cl + cl_content_len cl) n)
          else if cl_content_len cl = -1 then until_close (BUFFER_SIZE (lims E)) c n
          else Some (Inr (False, c)))"

definition connection_proxy_reply_parse ::
    "('p, 'c) env \<Rightarrow> int \<Rightarrow> ('p, 'c) conn \<Rightarrow> ('p, 'c) act_result option" where
  "connection_proxy_reply_parse E event c =
     (case Proxy_read_and_parse E c 0 of
        Inl e \<Rightarrow> Some (Inl e)
      | Inr (n, c) \<Rightarrow>
          if n = -1 then Some (Inr (FAILED, c))
          else map_option (\<lambda>r. cbind r (\<lambda>(ok, c).
            if \<not> ok then Inr (FAILED, c)
            else
              (let cl = the (client c) in
               cbind (Log_request c (cl_status cl) (cl_content_len cl)) (\<lambda>c. Inr (REQ_RECV, c)))))
            (reply_result E n c))"

text \<open>Backends are told apart by their contents.  The host is compared with a copy of itself.\<close>

definition connection_proxy_req_parse :: "('p, 'c) env \<Rightarrow> int \<Rightarrow> ('p, 'c) conn \<Rightarrow> ('p, 'c) act_result" where
  "connection_proxy_req_parse E event c =
     (let th = target_host (req c); req_action = action (req c) in
      cbind (Connection_read_header E c) (\<lambda>(rc, c).
        if \<not> rc > 0 then Inr (REMOTE_CLOSE, c)
        else if \<not> Request_is_http (req c) then error_response c HTTP_400 REMOTE_CLOSE
        else
          (let hst = host (req c) in
           if biseq hst (host (req c)) = 0 then Inr (PROXY, c)
           else
             (case (th, path (req c)) of
                (Some h, Some p) \<Rightarrow>
                  cbind (Host_match_backend h p) (\<lambda>(found, _).
                    case found of
                      None \<Rightarrow> error_response c HTTP_404 REMOTE_CLOSE
                    | Some b \<Rightarrow>
                        if found \<noteq> req_action
                        then Connection_backend_event b (c\<lparr>req := (req c)\<lparr>action := Some b\<rparr>\<rparr>)
                        else Inr (HTTP_REQ, c))
              | _ \<Rightarrow> Inl Null_deref))))"

definition connection_proxy_failed :: "int \<Rightarrow> ('p, 'c) conn \<Rightarrow> ('p, 'c) act_result" where
  "connection_proxy_failed event c = error_response c HTTP_502 CLOSE"

definition connection_proxy_close :: "int \<Rightarrow> ('p, 'c) conn \<Rightarrow> ('p, 'c) act_result" where
  "connection_proxy_close event c = Inr (CLOSE, c\<lparr>fds_closed := fds_closed c @ [proxy_fd c], proxy_fd := 0\<rparr>)"

section \<open>Closing\<close>

definition close_or_error :: "int \<Rightarrow> ('p, 'c) conn \<Rightarrow> int \<Rightarrow> ('p, 'c) act_result" where
  "close_or_error event c nxt =
     cbind (if proxy_fd c \<noteq> 0 then connection_proxy_close event c else Inr (CLOSE, c)) (\<lambda>(_, c).
       cbind (Register_disconnect (registry c) (conn_fd c)) (\<lambda>(_, cl, reg).
         Inr (nxt, c\<lparr>registry := reg, fds_closed := fds_closed c @ cl\<rparr>)))"

definition connection_close :: "int \<Rightarrow> ('p, 'c) conn \<Rightarrow> ('p, 'c) act_result" where
  "connection_close event c = close_or_error event c 0"

definition connection_error :: "int \<Rightarrow> ('p, 'c) conn \<Rightarrow> ('p, 'c) act_result" where
  "connection_error event c = close_or_error event c CLOSE"

section \<open>The table and the task\<close>

text \<open>The server while a task runs: going on, ended by a fault, or caught in a loop.\<close>

datatype ('p, 'c) proc = Running "('p, 'c) conn" | Faulted fault | Spinning

text \<open>
  An action on it.  Time passes from action to action, and a freed connection must not be used.  What an
  action answers when the server is gone does not matter; it is \<open>dflt\<close>.
\<close>

definition lift_act ::
    "int \<Rightarrow> (int \<Rightarrow> ('p, 'c) conn \<Rightarrow> ('p, 'c) act_result option) \<Rightarrow> ('p, 'c) proc state_action_cb" where
  "lift_act dflt f event s =
     (case s of
        Running c \<Rightarrow>
          if freed c then (dflt, Faulted Out_of_bounds)
          else (case f event (c\<lparr>clock := tl (clock c)\<rparr>) of
             None \<Rightarrow> (dflt, Spinning)
           | Some (Inl e) \<Rightarrow> (dflt, Faulted e)
           | Some (Inr (nxt, c)) \<Rightarrow> (nxt, Running c))
      | _ \<Rightarrow> (dflt, s))"

fun CONN_ACTIONS :: "('p, 'c) env \<Rightarrow> ('p, 'c) proc state_actions" where
  "CONN_ACTIONS E A_open = Some (lift_act CLOSE (\<lambda>e c. Some (connection_open e c)))"
| "CONN_ACTIONS E A_error = Some (lift_act CLOSE (\<lambda>e c. Some (connection_error e c)))"
| "CONN_ACTIONS E A_finish = Some (lift_act CLOSE (\<lambda>e c. Some (connection_finish e c)))"
| "CONN_ACTIONS E A_close = Some (lift_act CLOSE (\<lambda>e c. Some (connection_close e c)))"
| "CONN_ACTIONS E A_parse = Some (lift_act CLOSE (\<lambda>e c. Some (connection_parse E e c)))"
| "CONN_ACTIONS E A_register_request = Some (lift_act CLOSE (\<lambda>e c. Some (connection_register_request e c)))"
| "CONN_ACTIONS E A_identify_request = Some (lift_act CLOSE (\<lambda>e c. Some (connection_identify_request e c)))"
| "CONN_ACTIONS E A_route_request = Some (lift_act CLOSE (\<lambda>e c. Some (connection_route_request e c)))"
| "CONN_ACTIONS E A_send_socket_response = Some (lift_act CLOSE (\<lambda>e c. Some (connection_send_socket_response e c)))"
| "CONN_ACTIONS E A_msg_to_handler = Some (lift_act CLOSE (\<lambda>e c. Some (connection_msg_to_handler E e c)))"
| "CONN_ACTIONS E A_http_to_handler = Some (lift_act CLOSE (\<lambda>e c. Some (connection_http_to_handler E e c)))"
| "CONN_ACTIONS E A_http_to_proxy = Some (lift_act FAILED (\<lambda>e c. Some (Inr (connection_http_to_proxy E e c))))"
| "CONN_ACTIONS E A_http_to_directory = Some (lift_act CLOSE (\<lambda>e c. Some (connection_http_to_directory E e c)))"
| "CONN_ACTIONS E A_proxy_deliver = Some (lift_act CLOSE (\<lambda>e c. Some (connection_proxy_deliver E e c)))"
| "CONN_ACTIONS E A_proxy_failed = Some (lift_act CLOSE (\<lambda>e c. Some (connection_proxy_failed e c)))"
| "CONN_ACTIONS E A_proxy_reply_parse = Some (lift_act CLOSE (connection_proxy_reply_parse E))"
| "CONN_ACTIONS E A_proxy_req_parse = Some (lift_act CLOSE (\<lambda>e c. Some (connection_proxy_req_parse E e c)))"
| "CONN_ACTIONS E A_proxy_close = Some (lift_act CLOSE (\<lambda>e c. Some (connection_proxy_close e c)))"

text \<open>The \<^verbatim>\<open>error_unless\<close> of \<^verbatim>\<open>Connection_task\<close>.\<close>

definition invalid_event :: "int \<Rightarrow> ('p, 'c) proc \<Rightarrow> ('p, 'c) proc" where
  "invalid_event nxt s =
     snd (lift_act CLOSE (\<lambda>_ c. Some (error_response c HTTP_500 CLOSE)) nxt s)"

text \<open>The table meets what the machine needs of it.\<close>

lemma error_response_next: "error_response c r nxt = Inr (n, c') \<Longrightarrow> n = nxt"
  by (auto simp: error_response_def)

lemma close_or_error_next: "close_or_error e c nxt = Inr (n, c') \<Longrightarrow> n = nxt"
  by (auto simp: close_or_error_def)

lemma http_to_proxy_next: "fst (connection_http_to_proxy E e c) \<in> {CONNECT, FAILED}"
  by (auto simp: connection_http_to_proxy_def Let_def split: option.splits list.splits prod.splits)

interpretation conn_task: connection_actions "CONN_ACTIONS E" invalid_event for E
proof unfold_locales
  show "CONN_ACTIONS E a \<noteq> None" for a by (cases a) simp_all
next
  fix f c d
  assume "CONN_ACTIONS E A_error = Some f"
  then show "fst (f c d) = CLOSE"
    by (auto simp: lift_act_def connection_error_def dest: close_or_error_next split: proc.splits sum.splits prod.splits)
next
  fix f c d
  assume "CONN_ACTIONS E A_http_to_proxy = Some f"
  then show "fst (f c d) \<in> {CONNECT, FAILED}"
    using http_to_proxy_next [of E c] by (auto simp: lift_act_def split: proc.splits prod.splits) (metis fst_conv)+
qed

section \<open>Receiving on a plain connection\<close>

text \<open>
  What one receive inside the buffer does: a prefix of what the client still sends goes to its place,
  and nothing else changes.
\<close>

lemma conn_recv_plain:
  assumes "\<not> ssl c" "0 \<le> off" "0 \<le> len"
    "off + int (min (nat len) (length (concat (inbox (sock c))))) \<le> int (length (buf c))"
  shows "\<exists>n got ch. conn_recv c off len = Inr (n, c\<lparr>sock := ch, buf := put_at (buf c) off got\<rparr>) \<and>
    received (sock c) len n got ch"
proof -
  obtain n got ch where r: "fdrecv (sock c) len = (n, got, ch)" by (cases "fdrecv (sock c) len")
  then have rec: "received (sock c) len n got ch" using fdrecv_received [OF assms(3)] by blast
  have "conn_recv c off len = Inr (n, c\<lparr>sock := ch, buf := put_at (buf c) off got\<rparr>)"
  proof (cases "got = []")
    case True
    then show ?thesis using r assms(1) by (cases c) (simp add: conn_recv_def plaintext_recv_def)
  next
    case False
    have "length got \<le> min (nat len) (length (concat (inbox (sock c))))" using rec by (simp add: received_def)
    then have "off + int (length got) \<le> int (length (buf c))" using assms(4) of_nat_mono by fastforce
    with False show ?thesis using r assms(1,2)
      by (simp add: conn_recv_def plaintext_recv_def put_buf_def)
  qed
  with rec show ?thesis by blast
qed

text \<open>The body loop takes what it is told to, or all there is.\<close>

lemma body_loop_plain:
  assumes "\<not> ssl c" "0 \<le> body" "0 \<le> remaining" "[] \<notin> set (inbox (sock c))"
    "body + int (min (nat remaining) (length (concat (inbox (sock c))))) \<le> int (length (buf c))"
  shows "\<exists>ch. body_loop c body remaining =
      Inr (nat remaining \<le> length (concat (inbox (sock c))),
           remaining - int (min (nat remaining) (length (concat (inbox (sock c))))),
           c\<lparr>sock := ch, buf := put_at (buf c) body (take (nat remaining) (concat (inbox (sock c))))\<rparr>) \<and>
    outbox ch = outbox (sock c) \<and> accepts ch = accepts (sock c)"
  using assms
proof (induction "nat remaining" arbitrary: c body remaining rule: less_induct)
  case less
  let ?s = "concat (inbox (sock c))"
  show ?case
  proof (cases "remaining > 0")
    case False
    then show ?thesis using less.prems by (subst body_loop.simps) (cases c, simp)
  next
    case True
    from conn_recv_plain [of c body remaining] less.prems obtain n got ch where
      r: "conn_recv c body remaining = Inr (n, c\<lparr>sock := ch, buf := put_at (buf c) body got\<rparr>)"
      and rec: "received (sock c) remaining n got ch" by auto
    show ?thesis
    proof (cases "?s = []")
      case empty: True
      moreover have eq: "?s = got @ concat (inbox ch)" using rec by (simp add: received_def)
      ultimately have g: "got = []" by (metis append_is_Nil_conv)
      then have "n \<le> 0" using rec by (auto simp: received_def)
      then have "body_loop c body remaining = Inr (False, remaining, c\<lparr>sock := ch, buf := put_at (buf c) body []\<rparr>)"
        using r True g by (subst body_loop.simps) simp
      then show ?thesis using rec True unfolding empty by (intro exI [of _ ch]) (simp add: received_def)
    next
      case some: False
      then have ne: "got \<noteq> []" using rec True less.prems(4) by (auto simp: received_def)
      then have n: "n = int (length got)" "n > 0" "n \<le> remaining" and s: "?s = got @ concat (inbox ch)"
        using rec True by (auto simp: received_def)
      let ?c = "c\<lparr>sock := ch, buf := put_at (buf c) body got\<rparr>"
      have mn: "min (nat remaining) (length ?s) = length got + min (nat (remaining - n)) (length (concat (inbox ch)))"
        using n s by simp
      have len: "length (put_at (buf c) body got) = length (buf c)"
        using less.prems mn by (intro put_at_length) auto
      have small: "nat (remaining - n) < nat remaining" using n True by linarith
      have pk: "[] \<notin> set (inbox (sock ?c))" using rec less.prems(4) by (simp add: received_def)
      have room: "body + n + int (min (nat (remaining - n)) (length (concat (inbox (sock ?c))))) \<le> int (length (buf ?c))"
        using less.prems(5) mn n len by simp
      from less.hyps [OF small, of ?c "body + n", OF _ _ _ pk room] less.prems(1,2) n obtain ch2 where
        IH: "body_loop ?c (body + n) (remaining - n) =
          Inr (nat (remaining - n) \<le> length (concat (inbox ch)),
            remaining - n - int (min (nat (remaining - n)) (length (concat (inbox ch)))),
            ?c\<lparr>sock := ch2, buf := put_at (buf ?c) (body + n) (take (nat (remaining - n)) (concat (inbox ch)))\<rparr>)"
        and out: "outbox ch2 = outbox ch" "accepts ch2 = accepts ch"
        by auto
      have tk: "take (nat remaining) ?s = got @ take (nat (remaining - n)) (concat (inbox ch))"
        using n s by (simp add: nat_diff_distrib)
      have bc: "buf ?c = put_at (buf c) body got" by simp
      have n1: "body + n = body + int (length got)" using n(1) by simp
      have bound: "body + int (length got) + int (length (take (nat (remaining - n)) (concat (inbox ch)))) \<le> int (length (buf c))"
        using room n(1) len by (simp add: min.commute)
      have putf: "put_at (buf ?c) (body + n) (take (nat (remaining - n)) (concat (inbox ch))) =
          put_at (buf c) body (take (nat remaining) ?s)"
        unfolding tk bc n1 by (rule put_at_append [OF less.prems(2) bound])
      have step: "body_loop c body remaining = body_loop ?c (body + n) (remaining - n)"
        using r n(2) True by (subst body_loop.simps) simp
      have cnt: "(nat (remaining - n) \<le> length (concat (inbox ch))) = (nat remaining \<le> length ?s)"
        "remaining - n - int (min (nat (remaining - n)) (length (concat (inbox ch)))) = remaining - int (min (nat remaining) (length ?s))"
        using n(1) s mn by (auto simp: nat_le_iff)
      have upd: "?c\<lparr>sock := ch2, buf := x\<rparr> = c\<lparr>sock := ch2, buf := x\<rparr>" for x by simp
      have "outbox ch2 = outbox (sock c) \<and> accepts ch2 = accepts (sock c)" using out rec by (simp add: received_def)
      then show ?thesis unfolding step IH putf cnt upd by blast
    qed
  qed
qed

text \<open>
  A request for a handler, on a plain connection whose client goes on sending, with at most as long a body as is not uploaded;
  memory is there and ZeroMQ takes the message.
\<close>

definition client_stream :: "('p, 'c) conn \<Rightarrow> string" where
  "client_stream c = take (nat (nread c)) (buf c) @ concat (inbox (sock c))"

definition ready_for_handler :: "('p, 'c) env \<Rightarrow> handler \<Rightarrow> ('p, 'c) conn \<Rightarrow> bool" where
  "ready_for_handler E h c \<longleftrightarrow>
     \<not> ssl c \<and> get_handler c = Inr (Some h) \<and> target_host (req c) \<noteq> None \<and> mem E \<and> mq_results c = [] \<and>
     0 \<le> conn_fd c \<and> conn_fd c < MAX_REGISTERED_FDS \<and> BUFFER_SIZE (lims E) < int (length (buf c)) \<and>
     0 \<le> nread c \<and> nread c \<le> BUFFER_SIZE (lims E) \<and> [] \<notin> set (inbox (sock c)) \<and>
     0 \<le> content_len (parser (req c)) \<and> content_len (parser (req c)) \<le> MAX_CONTENT_LENGTH (lims E)"

lemma payload_take:
  "0 \<le> len \<Longrightarrow> len \<le> int (length b) \<Longrightarrow> Request_to_payload reg rq ident f b len = Request_to_payload reg rq ident f (take (nat len) b) len"
  by (cases "Register_id_for_fd reg f") (simp_all add: Request_to_payload_def min_absorb2 nat_le_iff)

lemma payload_some:
  "0 \<le> f \<Longrightarrow> f < MAX_REGISTERED_FDS \<Longrightarrow> len \<le> int (length b) \<Longrightarrow> \<exists>msg. Request_to_payload reg rq ident f b len = Inr (Some msg)"
proof -
  assume a: "0 \<le> f" "f < MAX_REGISTERED_FDS" "len \<le> int (length b)"
  have "0 \<le> uint (rid (REGISTRATIONS reg (nat f)))" by simp
  then have "uint (rid (REGISTRATIONS reg (nat f))) \<noteq> -1" by linarith
  then show ?thesis using a by (simp add: Request_to_payload_def Register_id_for_fd_def)
qed

lemma deliver_after_body:
  assumes "ready_for_handler E h c"
    and body: "handler_body E h (int (body_start (parser (req c)))) (content_len (parser (req c))) c =
      Inr (Some (b, content_len (parser (req c))), c\<lparr>sock := ch, buf := bf, buf_gen := g\<rparr>)"
    and len: "content_len (parser (req c)) \<le> int (length b)"
  shows "\<exists>msg c'. connection_http_to_handler E e c = Inr (REQ_SENT, c') \<and> delivered c' = delivered c @ [(send_socket h, msg)] \<and>
    Request_to_payload (registry c) (req c) (Some (send_ident h)) (conn_fd c)
      (take (nat (content_len (parser (req c)))) b) (content_len (parser (req c))) = Inr (Some msg)"
proof -
  let ?len = "content_len (parser (req c))"
  obtain msg where msg: "Request_to_payload (registry c) (req c) (Some (send_ident h)) (conn_fd c) b ?len = Inr (Some msg)"
    using payload_some len assms(1) unfolding ready_for_handler_def by blast
  let ?c1 = "c\<lparr>sock := ch, buf := bf, buf_gen := g\<rparr>"
  obtain hst where hst: "target_host (req c) = Some hst" and gh: "get_handler c = Inr (Some h)" "mem E" "mq_results c = []"
    using assms(1) by (auto simp: ready_for_handler_def)
  let ?c2 = "?c1\<lparr>access_log_lines := access_log_lines c @ [(200, ?len)]\<rparr>"
  have log: "Log_request ?c1 200 ?len = Inr ?c2" using hst by (simp add: Log_request_def)
  have pay: "request_payload h b ?len ?c2 = Inr (Some msg)" using msg by (simp add: request_payload_def)
  have del: "deliver_message E h (Some msg) ?c2 = (0, ?c2\<lparr>mq_results := [], delivered := delivered c @ [(send_socket h, msg)]\<rparr>)"
    using gh by (simp add: deliver_message_def Handler_deliver_def blk2bstr_def)
  have "connection_http_to_handler E e c = Inr (REQ_SENT, ?c2\<lparr>mq_results := [], delivered := delivered c @ [(send_socket h, msg)]\<rparr>)"
    unfolding connection_http_to_handler_def Let_def gh(1) body cbind.simps option.case prod.case log pay del by simp
  then have "\<exists>c'. connection_http_to_handler E e c = Inr (REQ_SENT, c') \<and> delivered c' = delivered c @ [(send_socket h, msg)]"
    by simp
  moreover have "0 \<le> ?len" using assms(1) by (simp add: ready_for_handler_def)
  note trans [OF payload_take [OF this len, symmetric] msg]
  ultimately show ?thesis by blast
qed

text \<open>The buffer has room for the body, grown if need be, and keeps what was read.\<close>

definition body_conn :: "('p, 'c) env \<Rightarrow> int \<Rightarrow> ('p, 'c) conn \<Rightarrow> ('p, 'c) conn" where
  "body_conn E tot c = (if tot > BUFFER_SIZE (lims E) then grow_buf tot c else c)"

lemma body_conn_room:
  assumes "BUFFER_SIZE (lims E) < int (length (buf c))" "nread c \<le> BUFFER_SIZE (lims E)"
  shows "\<exists>bf g. body_conn E tot c = c\<lparr>buf := bf, buf_gen := g\<rparr> \<and> tot \<le> int (length bf) \<and>
    nread c \<le> int (length bf) \<and> take (nat (nread c)) bf = take (nat (nread c)) (buf c)"
proof (cases "tot > BUFFER_SIZE (lims E)")
  case True
  then show ?thesis using assms
    by (intro exI [of _ "take (nat tot) (buf c) @ replicate (nat tot - length (buf c)) NUL"] exI [of _ "Suc (buf_gen c)"])
      (auto simp: body_conn_def grow_buf_def min_def)
next
  case False
  then show ?thesis using assms by (cases c) (auto simp: body_conn_def)
qed

lemma handler_body_eq:
  "clen \<noteq> 0 \<Longrightarrow> clen \<le> MAX_CONTENT_LENGTH (lims E) \<Longrightarrow> handler_body E h hlen clen c =
     (let c = body_conn E (hlen + clen) c in
      cbind (if nread c < hlen + clen then body_loop c (nread c) clen else Inr (True, 0, c)) (\<lambda>(ok, remaining, c).
        if \<not> ok \<or> remaining \<noteq> 0 then Inr (None, c) else Inr (Some (drop (nat hlen) (buf c), clen), c)))"
  by (simp add: handler_body_def body_conn_def Let_def)

text \<open>Nothing of the body has been read yet: it comes from the client behind the header.\<close>

lemma handler_body_fresh:
  assumes "ready_for_handler E h c" "nread c = hlen" "clen = content_len (parser (req c))" "clen \<noteq> 0"
    "nat clen \<le> length (concat (inbox (sock c)))"
  shows "\<exists>ch bf g b. handler_body E h hlen clen c = Inr (Some (b, clen), c\<lparr>sock := ch, buf := bf, buf_gen := g\<rparr>) \<and>
    clen \<le> int (length b) \<and> take (nat clen) b = take (nat clen) (concat (inbox (sock c)))"
proof -
  let ?s = "concat (inbox (sock c))"
  note rdy = assms(1) [unfolded ready_for_handler_def, folded assms(3)]
  obtain bf g where c1: "body_conn E (hlen + clen) c = c\<lparr>buf := bf, buf_gen := g\<rparr>"
    and room: "hlen + clen \<le> int (length bf)" "nread c \<le> int (length bf)"
    using body_conn_room [of E c "hlen + clen"] rdy by blast
  let ?c1 = "c\<lparr>buf := bf, buf_gen := g\<rparr>"
  have "nread c + int (min (nat clen) (length ?s)) \<le> int (length bf)" using room assms(2,5) rdy by simp
  then obtain ch where loop: "body_loop ?c1 (nread c) clen =
      Inr (True, 0, ?c1\<lparr>sock := ch, buf := put_at bf (nread c) (take (nat clen) ?s)\<rparr>)"
    using body_loop_plain [of ?c1 "nread c" clen] assms(5) rdy by auto
  let ?bf = "put_at bf (nread c) (take (nat clen) ?s)"
  have hb: "handler_body E h hlen clen c =
      Inr (Some (drop (nat hlen) ?bf, clen), ?c1\<lparr>sock := ch, buf := ?bf\<rparr>)"
    using rdy assms(2,4) c1 loop by (subst handler_body_eq) (auto simp: Let_def)
  have d: "drop (nat hlen) ?bf = take (nat clen) ?s @ drop (nat hlen + nat clen) bf"
  proof -
    have "nat hlen \<le> length bf" using room(2) assms(2) by simp
    then have "min (length bf) (nat hlen) = nat hlen" by simp
    then show ?thesis using assms(2,5) by (simp add: min_absorb2)
  qed
  have "clen \<le> int (length (drop (nat hlen) ?bf)) \<and> take (nat clen) (drop (nat hlen) ?bf) = take (nat clen) ?s"
    unfolding d using assms(5) rdy by simp
  moreover have upd: "?c1\<lparr>sock := ch, buf := x\<rparr> = c\<lparr>sock := ch, buf := x, buf_gen := g\<rparr>" for x by simp
  ultimately show ?thesis using hb unfolding upd by blast
qed

text \<open>All of the body has been read with the header.\<close>

lemma handler_body_read:
  assumes "ready_for_handler E h c" "hlen + clen \<le> nread c" "0 \<le> hlen" "clen = content_len (parser (req c))" "clen \<noteq> 0"
  shows "handler_body E h hlen clen c = Inr (Some (drop (nat hlen) (buf c), clen), c) \<and>
    clen \<le> int (length (drop (nat hlen) (buf c))) \<and>
    take (nat clen) (drop (nat hlen) (buf c)) = take (nat clen) (drop (nat hlen) (take (nat (nread c)) (buf c)))"
proof -
  note rdy = assms(1) [unfolded ready_for_handler_def, folded assms(4)]
  have "body_conn E (hlen + clen) c = c" using assms rdy by (simp add: body_conn_def)
  then have "handler_body E h hlen clen c = Inr (Some (drop (nat hlen) (buf c), clen), c)"
    using rdy assms(2,5) by (subst handler_body_eq) (auto simp: Let_def)
  moreover have le: "nat clen \<le> nat (nread c) - nat hlen" "nat (nread c) \<le> length (buf c)" "0 \<le> clen"
    using assms rdy by linarith+
  moreover have "clen \<le> int (length (drop (nat hlen) (buf c)))" using le by simp
  ultimately show ?thesis by (simp add: drop_take min_absorb1)
qed

text \<open>The buffer while a header is read.\<close>

definition buf_ok :: "('p, 'c) env \<Rightarrow> ('p, 'c) conn \<Rightarrow> bool" where
  "buf_ok E c \<longleftrightarrow> \<not> ssl c \<and> 0 < BUFFER_SIZE (lims E) \<and> int (length (buf c)) = BUFFER_SIZE (lims E) + 1 \<and>
     buf c ! nat (BUFFER_SIZE (lims E)) = NUL"

text \<open>A fault of the parser's callbacks: one of the assertions of the header dictionary.\<close>

definition callback_fault :: "('p, 'c) env \<Rightarrow> fault \<Rightarrow> bool" where
  "callback_fault E e \<longleftrightarrow> (\<exists>calls (rq :: ('p, target) request). run_parser_calls calls rq = Inl e)"

lemma parse_buffer_fault:
  "parse_buffer E c = Inl e \<Longrightarrow> nread c \<le> int (length (buf c)) \<Longrightarrow> callback_fault E e"
  unfolding callback_fault_def
  by (auto simp: parse_buffer_def Request_parse_def cbind_Inl_iff split: prod.splits if_splits)

lemma read_loop_safe:
  assumes "buf_ok E c" "0 \<le> nread c" "nread c < BUFFER_SIZE (lims E)" "remaining = BUFFER_SIZE (lims E) - 1 - nread c"
    "cur = nread c"
  shows "case read_loop E c finished remaining cur of
     Inl e \<Rightarrow> callback_fault E e
   | Inr (ok, fin, c') \<Rightarrow> buf_ok E c' \<and> nread c \<le> nread c' \<and> nread c' < BUFFER_SIZE (lims E) \<and> (ok \<longrightarrow> fin = 1) \<and>
       outbox (sock c') = outbox (sock c)"
  using assms
proof (induction "nat remaining" arbitrary: c finished remaining cur rule: less_induct)
  case less
  let ?B = "BUFFER_SIZE (lims E)"
  show ?case
  proof (cases "finished = 1")
    case True
    then show ?thesis using less.prems by (subst read_loop.simps) simp
  next
    case False
    have rem: "remaining \<ge> 0" using less.prems by simp
    have "cur + int (min (nat remaining) (length (concat (inbox (sock c))))) \<le> int (length (buf c))"
      using less.prems min.cobounded1 [of "nat remaining" "length (concat (inbox (sock c)))"] by (simp add: buf_ok_def)
    from conn_recv_plain [OF _ _ rem this] less.prems obtain n got ch where
      r: "conn_recv c cur remaining = Inr (n, c\<lparr>sock := ch, buf := put_at (buf c) cur got\<rparr>)"
      and rec: "received (sock c) remaining n got ch" by (auto simp: buf_ok_def)
    show ?thesis
    proof (cases "n > 0")
      case False
      then have "got = []" using rec by (auto simp: received_def)
      then show ?thesis using False \<open>finished \<noteq> 1\<close> rem r rec less.prems
        by (subst read_loop.simps) (simp add: buf_ok_def received_def)
    next
      case pos: True
      let ?c1 = "c\<lparr>sock := ch, buf := put_at (buf c) cur got, nread := nread c + n\<rparr>"
      have n: "n = int (length got)" "n \<le> remaining" using rec pos rem by (auto simp: received_def)
      have len: "length (put_at (buf c) cur got) = length (buf c)"
        using less.prems n by (intro put_at_length) (auto simp: buf_ok_def)
      have "put_at (buf c) cur got ! nat ?B = NUL"
        using less.prems n by (auto simp: buf_ok_def nth_append nat_le_iff)
      then have ok1: "buf_ok E ?c1" and cap: "cstr_at (buf ?c1) (nat ?B) = NUL"
        using less.prems len by (auto simp: buf_ok_def cstr_at_def)
      have in1: "nread ?c1 \<le> int (length (buf ?c1))" using less.prems n len by (simp add: buf_ok_def)
      have out: "outbox (sock ?c1) = outbox (sock c)" using rec by (simp add: received_def)
      show ?thesis
      proof (cases "parse_buffer E ?c1")
        case (Inl e)
        from parse_buffer_fault [OF Inl in1] show ?thesis
          using Inl \<open>finished \<noteq> 1\<close> rem r pos cap by (subst read_loop.simps) (simp add: Let_def)
      next
        case (Inr res)
        obtain fin np rq where res: "res = (fin, np, rq)" by (cases res)
        let ?c2 = "?c1\<lparr>req := rq, nparsed := np, nread := nread c + n\<rparr>"
        have step: "read_loop E c finished remaining cur = read_loop E ?c2 fin (?B - 1 - (nread c + n)) (nread c + n)"
          using Inr res \<open>finished \<noteq> 1\<close> rem r pos cap by (subst read_loop.simps) (simp add: Let_def)
        have ok2: "buf_ok E ?c2" using ok1 by (simp add: buf_ok_def)
        have smaller: "nat (?B - 1 - (nread c + n)) < nat remaining" using less.prems n pos by linarith
        have IH: "case read_loop E ?c2 fin (?B - 1 - (nread c + n)) (nread c + n) of
            Inl e \<Rightarrow> callback_fault E e
          | Inr (ok, fin, c') \<Rightarrow> buf_ok E c' \<and> nread ?c2 \<le> nread c' \<and> nread c' < BUFFER_SIZE (lims E) \<and>
              (ok \<longrightarrow> fin = 1) \<and> outbox (sock c') = outbox (sock ?c2)"
          by (rule less.hyps [OF smaller ok2]) (use less.prems n pos in simp_all)
        then show ?thesis unfolding step using out pos by (auto split: sum.splits)
      qed
    qed
  qed
qed

lemma add_header_fault: "add_header k v c = Inl e \<Longrightarrow> callback_fault (E :: ('p, 'c) env) e" for c :: "('p, 'd) conn"
proof -
  assume "add_header k v c = Inl e"
  then have "run_parser_calls [On_field k v] (req c) = Inl e" by (auto simp: add_header_def cbind_Inl_iff)
  then show ?thesis unfolding callback_fault_def by blast
qed

lemma add_header_frame:
  "add_header k v c = Inr c' \<Longrightarrow> \<exists>rq. c' = c\<lparr>req := rq\<rparr>"
  by (auto simp: add_header_def)

lemma should_close_frame: "\<exists>x. check_should_close c = c\<lparr>conn_close := x\<rparr>"
  by (auto simp: check_should_close_def Let_def)

text \<open>A header read into a fresh buffer.\<close>

lemma read_header_safe:
  assumes "\<not> ssl c" "0 < BUFFER_SIZE (lims E)" "int (length (buf c)) = BUFFER_SIZE (lims E) + 1" "nread c = 0"
  shows "case Connection_read_header E c of
     Inl e \<Rightarrow> callback_fault E e
   | Inr (n, c') \<Rightarrow> buf_ok E c' \<and> 0 \<le> nread c' \<and> nread c' < BUFFER_SIZE (lims E) \<and> outbox (sock c') = outbox (sock c) \<and>
       (n = -1 \<or> n = nread c')"
proof -
  let ?B = "BUFFER_SIZE (lims E)"
  let ?c0 = "c\<lparr>nparsed := 0, req := Request_start (http E) (req c)\<rparr>"
  let ?b = "put_at (buf c) ?B [NUL]"
  let ?c1 = "?c0\<lparr>buf := ?b\<rparr>"
  have put: "put_buf (buf ?c0) ?B [NUL] = Inr ?b" using assms by (simp add: put_buf_def)
  have ok: "buf_ok E ?c1" using assms by (auto simp: buf_ok_def nth_append)
  note loop = read_loop_safe [OF ok, of "?B - 1" 0 0, simplified assms, simplified]
  show ?thesis
  proof (cases "read_loop E ?c1 0 (?B - 1) 0")
    case (Inl e)
    then show ?thesis using loop put assms by (simp add: Connection_read_header_def Let_def)
  next
    case (Inr res)
    obtain okf fin c2 where res: "res = (okf, fin, c2)" by (cases res)
    have l: "buf_ok E c2" "0 \<le> nread c2" "nread c2 < ?B" "okf \<longrightarrow> fin = 1" "outbox (sock c2) = outbox (sock c)"
      using loop Inr res assms by auto
    show ?thesis
    proof (cases okf)
      case False
      then show ?thesis using put Inr res l by (simp add: Connection_read_header_def Let_def)
    next
      case True
      show ?thesis
      proof (cases "add_header ''X-Forwarded-For'' (take IPADDR_SIZE (remote c2)) c2")
        case (Inl e)
        from add_header_fault [OF this] show ?thesis using True put Inr res l Inl by (simp add: Connection_read_header_def Let_def)
      next
        case (Inr c3)
        obtain rq where c3: "c3 = c2\<lparr>req := rq\<rparr>" using add_header_frame [OF Inr] by blast
        obtain x where "check_should_close c3 = c3\<lparr>conn_close := x\<rparr>" using should_close_frame by blast
        then show ?thesis using True put \<open>read_loop E ?c1 0 (?B - 1) 0 = Inr res\<close> res l Inr c3
          by (simp add: Connection_read_header_def Let_def buf_ok_def)
      qed
    qed
  qed
qed

section \<open>A routed request\<close>

text \<open>The sample connection with a routed request for a handler, and what has been read of it.\<close>

definition sample_routed :: "string \<Rightarrow> string list \<Rightarrow> (unit, unit) conn" where
  "sample_routed seen packets =
     (sample_conn_for packets)\<lparr>nread := int (length seen), buf := seen @ replicate (21 - length seen) NUL,
       req := (req (sample_conn_for []))\<lparr>action := Some \<lparr>btype = BACKEND_HANDLER, target = T_handler sample_handler\<rparr>,
         target_host := Some \<lparr>hroutes = \<lparr>routes = Null, destroy_cb = True\<rparr>, hname = ''localhost''\<rparr>,
         path := Some ''/a'', parser := sample_parser\<lparr>body_start := 4, content_len := 3\<rparr>\<rparr>\<rparr>"

section \<open>Properties\<close>

text \<open>
  C28: the life of a connection, over the code's own actions: when the task ends, the log of its calls
  starts with \<^verbatim>\<open>open\<close>, which is called only then, and behind actions that neither close nor fail it ends either with \<^verbatim>\<open>close\<close>
  followed by \<^verbatim>\<open>finish\<close>, once each, in the final state, or with a single \<^verbatim>\<open>error\<close>, and then
  \<^verbatim>\<open>finish\<close>, which frees the connection, is never called.
\<close>

theorem Connection_task_log:
  assumes "Connection_task (logged (CONN_ACTIONS E)) (\<lambda>n dl. (invalid_event n (fst dl), snd dl)) (s, []) =
    Some (cs', s', l')"
  shows "\<exists>r. (\<forall>(a, c)\<in>set r. a \<notin> {A_open, A_error, A_close, A_finish}) \<and>
    (l' = (A_open, OPEN) # r @ [(A_close, CLOSE), (A_finish, 0)] \<and> cs' = 18 \<or>
     (\<exists>c. l' = (A_open, OPEN) # r @ [(A_error, c)]) \<and> cs' \<in> {0, 1})"
  using conn_task.task_log [OF assms] unfolding conn_task.quiet_def by blast

definition some_result :: "'a option \<Rightarrow> bool" where
  "some_result r = (case r of None \<Rightarrow> False | Some _ \<Rightarrow> True)"

declare task_loop.simps [code]

lemma sample_task_ends:
  "some_result (Connection_task (logged (CONN_ACTIONS sample_env)) (\<lambda>n dl. (invalid_event n (fst dl), snd dl))
     (Running (sample_conn_for [''ab'']), []))"
  by code_simp

lemma Connection_task_log_witness:
  "\<exists>cs' s' l'. Connection_task (logged (CONN_ACTIONS sample_env)) (\<lambda>n dl. (invalid_event n (fst dl), snd dl))
       (Running (sample_conn_for [''ab'']), []) = Some (cs', s', l') \<and>
     (\<exists>r. (\<forall>(a, c)\<in>set r. a \<notin> {A_open, A_error, A_close, A_finish}) \<and>
       (l' = (A_open, OPEN) # r @ [(A_close, CLOSE), (A_finish, 0)] \<and> cs' = 18 \<or>
        (\<exists>c. l' = (A_open, OPEN) # r @ [(A_error, c)]) \<and> cs' \<in> {0, 1}))"
proof -
  obtain cs' s' l' where run: "Connection_task (logged (CONN_ACTIONS sample_env))
      (\<lambda>n dl. (invalid_event n (fst dl), snd dl)) (Running (sample_conn_for [''ab'']), []) = Some (cs', s', l')"
    using sample_task_ends by (auto simp: some_result_def split: option.splits)
  with Connection_task_log [OF run] show ?thesis by blast
qed

text \<open>
  reading a request on a plain connection stays inside its buffer: whatever the client sends and in whatever
  pieces, nothing is written behind the terminator, which stays; fewer than \<^verbatim>\<open>BUFFER_SIZE\<close> bytes are read; the
  only faults are those of the parser's callbacks.  It also never answers anything: a header that does not
  end within the buffer closes the connection without the 400 the code has for it.
\<close>

theorem connection_parse_in_bounds:
  assumes "\<not> ssl c" "0 < BUFFER_SIZE (lims E)" "int (length (buf c)) = BUFFER_SIZE (lims E) + 1"
  shows "case connection_parse E event c of
     Inl e \<Rightarrow> callback_fault E e
   | Inr (nxt, c') \<Rightarrow> int (length (buf c')) = BUFFER_SIZE (lims E) + 1 \<and> buf c' ! nat (BUFFER_SIZE (lims E)) = NUL \<and>
       0 \<le> nread c' \<and> nread c' < BUFFER_SIZE (lims E) \<and> outbox (sock c') = outbox (sock c) \<and>
       (nxt = REQ_RECV \<and> 0 < nread c' \<or> nxt = CLOSE)"
proof -
  have "\<not> ssl (c\<lparr>nread := 0\<rparr>)" "int (length (buf (c\<lparr>nread := 0\<rparr>))) = BUFFER_SIZE (lims E) + 1" "nread (c\<lparr>nread := 0\<rparr>) = 0"
    using assms by simp_all
  from read_header_safe [OF this(1) assms(2) this(2,3)] show ?thesis
    by (cases "Connection_read_header E (c\<lparr>nread := 0\<rparr>)") (auto simp: connection_parse_def buf_ok_def)
qed

lemma connection_parse_in_bounds_witness:
  "case connection_parse sample_env 101 (sample_conn_for [''abcd'']) of
     Inl e \<Rightarrow> callback_fault sample_env e
   | Inr (nxt, c') \<Rightarrow> int (length (buf c')) = BUFFER_SIZE (lims sample_env) + 1 \<and> buf c' ! nat (BUFFER_SIZE (lims sample_env)) = NUL \<and>
       0 \<le> nread c' \<and> nread c' < BUFFER_SIZE (lims sample_env) \<and>
       outbox (sock c') = outbox (sock (sample_conn_for [''abcd''])) \<and> (nxt = REQ_RECV \<and> 0 < nread c' \<or> nxt = CLOSE)"
  by (rule connection_parse_in_bounds) (simp_all add: sample_conn_for_def sample_env_def)

text \<open>
  C29: a request whose body the server has read completely with its header, or not begun to read, reaches its
  handler, as long as the body is at most \<^verbatim>\<open>MAX_CONTENT_LENGTH\<close> long (a longer one goes to the upload instead), the
  connection is not encrypted, memory is there and ZeroMQ takes the message: the action answers \<^verbatim>\<open>REQ_SENT\<close> and hands the handler's socket one message, whose body is
  exactly the announced number of bytes that follow the header in what the client sends.
\<close>

theorem http_to_handler_delivers:
  assumes "ready_for_handler E h c"
    and "hlen = int (body_start (parser (req c)))" "clen = content_len (parser (req c))"
    and "nread c = hlen \<or> hlen + clen \<le> nread c"
    and "hlen + clen \<le> int (length (client_stream c))"
  shows "\<exists>msg c'. connection_http_to_handler E event c = Inr (REQ_SENT, c') \<and>
    delivered c' = delivered c @ [(send_socket h, msg)] \<and>
    Request_to_payload (registry c) (req c) (Some (send_ident h)) (conn_fd c)
      (take (nat clen) (drop (nat hlen) (client_stream c))) clen = Inr (Some msg)"
proof (cases "clen = 0")
  case True
  then have "handler_body E h (int (body_start (parser (req c)))) (content_len (parser (req c))) c =
      Inr (Some ([], content_len (parser (req c))), c\<lparr>sock := sock c, buf := buf c, buf_gen := buf_gen c\<rparr>)"
    using assms(3) by (simp add: handler_body_def Let_def)
  from deliver_after_body [OF assms(1) this, of event] True assms(3) show ?thesis by simp
next
  case body: False
  show ?thesis
  proof (cases "nread c = hlen")
    case True
    have buflen: "length (take (nat (nread c)) (buf c)) = nat hlen"
      using assms(1) True by (simp add: ready_for_handler_def min_absorb2 nat_le_iff)
    then have "nat clen \<le> length (concat (inbox (sock c)))" using assms(2,5) by (simp add: client_stream_def)
    from handler_body_fresh [OF assms(1) True assms(3) body this] obtain ch bf g b where
      b: "handler_body E h hlen clen c = Inr (Some (b, clen), c\<lparr>sock := ch, buf := bf, buf_gen := g\<rparr>)"
      "clen \<le> int (length b)" "take (nat clen) b = take (nat clen) (concat (inbox (sock c)))" by blast
    have "take (nat clen) (drop (nat hlen) (client_stream c)) = take (nat clen) b"
      unfolding client_stream_def b(3) using buflen by simp
    then show ?thesis using deliver_after_body [OF assms(1), where b = b and ch = ch and bf = bf and g = g and e = event] b(1,2) assms(2,3) by simp
  next
    case False
    then have "hlen + clen \<le> nread c" "0 \<le> hlen" using assms(2,4) by auto
    note b = handler_body_read [OF assms(1) this assms(3) body]
    have "c = c\<lparr>sock := sock c, buf := buf c, buf_gen := buf_gen c\<rparr>" by simp
    moreover have "take (nat clen) (drop (nat hlen) (client_stream c)) =
        take (nat clen) (drop (nat hlen) (buf c))"
    proof -
      have "nat clen \<le> length (drop (nat hlen) (take (nat (nread c)) (buf c)))"
        using \<open>hlen + clen \<le> nread c\<close> \<open>0 \<le> hlen\<close> assms(1) by (simp add: ready_for_handler_def) linarith
      then show ?thesis unfolding client_stream_def using b by simp
    qed
    ultimately show ?thesis
      using deliver_after_body [OF assms(1), where b = "drop (nat hlen) (buf c)" and ch = "sock c" and bf = "buf c" and g = "buf_gen c" and e = event] b assms(2,3) by simp
  qed
qed

lemma sample_ready:
  "ready_for_handler sample_env sample_handler (sample_routed ''head'' [''bo'', ''dy''])"
  "ready_for_handler sample_env sample_handler (sample_routed ''headb'' [''od''])"
  by (simp_all add: ready_for_handler_def sample_routed_def sample_conn_for_def sample_env_def get_handler_def
      MAX_REGISTERED_FDS_def sample_handler_def)

lemma http_to_handler_delivers_witness:
  "\<exists>msg c'. connection_http_to_handler sample_env 106 (sample_routed ''head'' [''bo'', ''dy'']) = Inr (REQ_SENT, c') \<and>
    delivered c' = delivered (sample_routed ''head'' [''bo'', ''dy'']) @ [(send_socket sample_handler, msg)] \<and>
    Request_to_payload (registry (sample_routed ''head'' [''bo'', ''dy''])) (req (sample_routed ''head'' [''bo'', ''dy'']))
      (Some (send_ident sample_handler)) (conn_fd (sample_routed ''head'' [''bo'', ''dy'']))
      (take (nat 3) (drop (nat 4) (client_stream (sample_routed ''head'' [''bo'', ''dy''])))) 3 = Inr (Some msg)"
  by (rule http_to_handler_delivers [OF sample_ready(1)])
    (simp_all add: sample_routed_def client_stream_def sample_conn_for_def)



end
