(* ===== verification/Linked.thy ===== *)
theory Linked
  imports Prelude
begin

text \<open>
  Doubly linked lists in a store with one function per pointer field, shared by \<open>AdtList\<close> (circular lists around a
  sentinel) and \<open>Tasklist\<close> (lists between two null pointers).
\<close>

section \<open>What stands in front of and behind a list\<close>

definition first_of :: "'a list \<Rightarrow> 'a option \<Rightarrow> 'a option" where
  "first_of xs a = (case xs of [] \<Rightarrow> a | x # _ \<Rightarrow> Some x)"

definition last_of :: "'a option \<Rightarrow> 'a list \<Rightarrow> 'a option" where
  "last_of b xs = (if xs = [] then b else Some (last xs))"

lemma first_of_simps [simp, dll_simps]:
  "first_of [] a = a" "first_of (x # xs) a = Some x" "first_of (xs @ ys) a = first_of xs (first_of ys a)"
  by (simp_all add: first_of_def split: list.splits)

lemma last_of_simps [simp, dll_simps]:
  "last_of b [] = b" "last_of b (x # xs) = last_of (Some x) xs" "last_of b (xs @ [x]) = Some x"
  "last_of b (xs @ ys) = last_of (last_of b xs) ys"
  by (auto simp: last_of_def)

lemma last_of_Some: "last_of (Some b) xs = Some (last (b # xs))"
  by (simp add: last_of_def)

lemma first_of_cases: "first_of xs a = (if xs = [] then a else Some (hd xs))"
  by (cases xs) auto

section \<open>A list that is linked both ways\<close>

text \<open>\<open>linked nx pv b xs a\<close>: the nodes \<open>xs\<close> follow each other, with \<open>b\<close> in front and \<open>a\<close> behind.\<close>

fun linked :: "('a \<Rightarrow> 'a option) \<Rightarrow> ('a \<Rightarrow> 'a option) \<Rightarrow> 'a option \<Rightarrow> 'a list \<Rightarrow> 'a option \<Rightarrow> bool" where
  "linked nx pv b [] a \<longleftrightarrow> True"
| "linked nx pv b (x # xs) a \<longleftrightarrow> pv x = b \<and> nx x = first_of xs a \<and> linked nx pv (Some x) xs a"

lemma linked_append [dll_simps]:
  "linked nx pv b (xs @ ys) a \<longleftrightarrow> linked nx pv b xs (first_of ys a) \<and> linked nx pv (last_of b xs) ys a"
  by (induction xs arbitrary: b) auto

text \<open>Only the fields of the nodes themselves matter.\<close>

lemma linked_cong:
  "(\<And>x. x \<in> set xs \<Longrightarrow> nx' x = nx x \<and> pv' x = pv x) \<Longrightarrow> linked nx' pv' b xs a = linked nx pv b xs a"
  by (induction xs arbitrary: b) auto

lemma linked_upd [simp, dll_simps]:
  "t \<notin> set xs \<Longrightarrow> linked (nx(t := v)) pv b xs a = linked nx pv b xs a"
  "t \<notin> set xs \<Longrightarrow> linked nx (pv(t := v)) b xs a = linked nx pv b xs a"
  by (rule linked_cong, force)+

text \<open>Redirecting what the ends point to.\<close>

lemma linked_before:
  "linked nx pv b (x # xs) a \<Longrightarrow> x \<notin> set xs \<Longrightarrow> linked nx (pv(x := b')) b' (x # xs) a"
  by simp

lemma linked_behind:
  assumes "linked nx pv b (xs @ [x]) a" "x \<notin> set xs"
  shows "linked (nx(x := a')) pv b (xs @ [x]) a'"
  using assms by (auto simp: linked_append)

text \<open>The ends of a list, redirected whether there are nodes or not.\<close>

lemma linked_redirect:
  assumes "linked nx pv b xs a" "distinct xs"
  shows "linked (case last_of None xs of None \<Rightarrow> nx | Some y \<Rightarrow> nx(y := a')) pv b xs a'"
    "linked nx (case first_of xs None of None \<Rightarrow> pv | Some y \<Rightarrow> pv(y := b')) b' xs a"
proof -
  show "linked (case last_of None xs of None \<Rightarrow> nx | Some y \<Rightarrow> nx(y := a')) pv b xs a'"
  proof (cases xs rule: rev_cases)
    case (snoc ys y)
    then show ?thesis using linked_behind [of nx pv b ys y a a'] assms by simp
  qed simp
  show "linked nx (case first_of xs None of None \<Rightarrow> pv | Some y \<Rightarrow> pv(y := b')) b' xs a"
    using assms by (cases xs) auto
qed

text \<open>The neighbours of a node.\<close>

lemma linked_neighbours:
  assumes "linked nx pv b (xs @ t # ys) a"
  shows "pv t = last_of b xs" "nx t = first_of ys a"
  using assms by (auto simp: linked_append)

lemma distinct_split:
  assumes "t \<in> set xs" "distinct xs"
  obtains us vs where "xs = us @ t # vs" "t \<notin> set us" "t \<notin> set vs" "distinct us" "distinct vs" "set us \<inter> set vs = {}"
    "remove1 t xs = us @ vs"
proof -
  from split_list [OF assms(1)] obtain us vs where "xs = us @ t # vs" by blast
  with assms(2) that [of us vs] show ?thesis by (auto simp: remove1_append)
qed

end
