(* ===== verification/Task.thy ===== *)
theory Task
  imports Linked Register
begin

text \<open>
  The coroutines of \<^verbatim>\<open>task/task.c\<close>: the task lists, the ready queue, the scheduler and the table of all tasks.  The
  fields of \<^verbatim>\<open>struct Task\<close> are functions of the task's address.  What a task does when the scheduler switches back to
  it is the part of its saved context the model keeps (\<open>resume\<close>); an operation that calls \<^verbatim>\<open>taskswitch\<close> is the code in
  front of the switch, and \<open>Locks\<close> and \<open>Fdtask\<close> say what follows behind it.  \<^verbatim>\<open>abort()\<close> is a fault.
\<close>

section \<open>Tasks and their lists\<close>

record tasklist =
  head :: "nat option"
  tail :: "nat option"

text \<open>The variables of type \<^verbatim>\<open>Tasklist\<close>; locks and rendezvous are named by their addresses.\<close>

datatype list_id = Taskrunqueue | Sleeping | Lock_waiting nat | Read_waiting nat | Write_waiting nat | Rendez_waiting nat

datatype resume =
    Res_start | Res_yield int | Res_qlock nat | Res_rlock nat | Res_wlock nat | Res_sleep nat | Res_delay "64 word" | Res_wait bool

record sched =
  t_next :: "nat \<Rightarrow> nat option"
  t_prev :: "nat \<Rightarrow> nat option"
  alarmtime :: "nat \<Rightarrow> 64 word"
  t_id :: "nat \<Rightarrow> int"
  exiting :: "nat \<Rightarrow> bool"
  alltaskslot :: "nat \<Rightarrow> nat"
  t_system :: "nat \<Rightarrow> bool"
  t_ready :: "nat \<Rightarrow> bool"
  t_name :: "nat \<Rightarrow> string"
  t_state :: "nat \<Rightarrow> string"
  t_context :: "nat \<Rightarrow> resume"
  tlists :: "list_id \<Rightarrow> tasklist"
  taskcount :: int
  tasknswitch :: int
  taskexitval :: int
  taskrunning :: "nat option"
  alltask :: "nat list"
  taskidgen :: int
  sleepingcounted :: int
  lock_owner :: "nat \<Rightarrow> nat option"
  readers :: "nat \<Rightarrow> int"
  writer :: "nat \<Rightarrow> nat option"
  rendez_lock :: "nat \<Rightarrow> nat option"

section \<open>The lists\<close>

definition addtask :: "list_id \<Rightarrow> nat \<Rightarrow> sched \<Rightarrow> sched" where
  "addtask l t s =
     (let s1 = (case tail (tlists s l) of
           Some q \<Rightarrow> s\<lparr>t_next := (t_next s)(q := Some t), t_prev := (t_prev s)(t := Some q)\<rparr>
         | None \<Rightarrow> s\<lparr>tlists := (tlists s)(l := (tlists s l)\<lparr>head := Some t\<rparr>), t_prev := (t_prev s)(t := None)\<rparr>) in
      s1\<lparr>tlists := (tlists s1)(l := (tlists s1 l)\<lparr>tail := Some t\<rparr>), t_next := (t_next s1)(t := None)\<rparr>)"

definition deltask :: "list_id \<Rightarrow> nat \<Rightarrow> sched \<Rightarrow> sched" where
  "deltask l t s =
     (let s1 = (case t_prev s t of
           Some p \<Rightarrow> s\<lparr>t_next := (t_next s)(p := t_next s t)\<rparr>
         | None \<Rightarrow> s\<lparr>tlists := (tlists s)(l := (tlists s l)\<lparr>head := t_next s t\<rparr>)\<rparr>) in
      (case t_next s1 t of
         Some n \<Rightarrow> s1\<lparr>t_prev := (t_prev s1)(n := t_prev s1 t)\<rparr>
       | None \<Rightarrow> s1\<lparr>tlists := (tlists s1)(l := (tlists s1 l)\<lparr>tail := t_prev s1 t\<rparr>)\<rparr>))"

text \<open>
  What the lists hold.  All lists go through the same two fields of a task, so a task is on one of them at most.
\<close>

definition task_list :: "sched \<Rightarrow> list_id \<Rightarrow> nat list \<Rightarrow> bool" where
  "task_list s l ts \<longleftrightarrow> distinct ts \<and> linked (t_next s) (t_prev s) None ts None \<and>
     head (tlists s l) = first_of ts None \<and> tail (tlists s l) = last_of None ts"

definition task_lists :: "sched \<Rightarrow> (list_id \<Rightarrow> nat list) \<Rightarrow> bool" where
  "task_lists s A \<longleftrightarrow> (\<forall>l. task_list s l (A l)) \<and> (\<forall>l k. l \<noteq> k \<longrightarrow> set (A l) \<inter> set (A k) = {})"

lemma addtask_fields:
  "addtask l t s = s\<lparr>t_next := t_next (addtask l t s), t_prev := t_prev (addtask l t s), tlists := tlists (addtask l t s)\<rparr>"
  by (simp add: addtask_def Let_def split: option.split)

lemma deltask_fields:
  "deltask l t s = s\<lparr>t_next := t_next (deltask l t s), t_prev := t_prev (deltask l t s), tlists := tlists (deltask l t s)\<rparr>"
  by (simp add: deltask_def Let_def split: option.split)

lemma addtask_other [simp]: "k \<noteq> l \<Longrightarrow> tlists (addtask l t s) k = tlists s k"
  by (simp add: addtask_def Let_def split: option.split)

lemma deltask_other [simp]: "k \<noteq> l \<Longrightarrow> tlists (deltask l t s) k = tlists s k"
  by (simp add: deltask_def Let_def split: option.split)

lemma addtask_list:
  assumes "task_list s l ts" "t \<notin> set ts"
  shows "task_list (addtask l t s) l (ts @ [t])"
proof (cases ts rule: rev_cases)
  case Nil
  with assms show ?thesis by (simp add: task_list_def addtask_def Let_def)
next
  case (snoc us q)
  with assms show ?thesis
    by (auto simp: task_list_def addtask_def Let_def linked_append)
qed

lemma deltask_list:
  assumes "task_list s l ts" "t \<in> set ts"
  shows "task_list (deltask l t s) l (remove1 t ts)"
proof -
  have d: "distinct ts" using assms(1) by (simp add: task_list_def)
  obtain us vs where u: "ts = us @ t # vs" "t \<notin> set us" "t \<notin> set vs" "distinct us" "distinct vs" "set us \<inter> set vs = {}"
    "remove1 t ts = us @ vs" by (rule distinct_split [OF assms(2) d])
  then have k: "linked (t_next s) (t_prev s) None (us @ t # vs) None" "head (tlists s l) = first_of ts None"
    "tail (tlists s l) = last_of None ts" using assms(1) by (simp_all add: task_list_def)
  note nb = linked_neighbours [OF k(1)]
  have "linked (t_next (deltask l t s)) (t_prev (deltask l t s)) None (us @ vs) None"
    using k(1) u
    by (cases us rule: rev_cases; cases vs) (auto simp: deltask_def Let_def linked_append)
  moreover have "head (tlists (deltask l t s) l) = first_of (us @ vs) None" "tail (tlists (deltask l t s) l) = last_of None (us @ vs)"
    using k nb u by (cases us rule: rev_cases; cases vs; auto simp: deltask_def Let_def linked_append last_of_Some)+
  ultimately show ?thesis using u by (simp add: task_list_def)
qed

text \<open>The other lists do not notice.\<close>

lemma addtask_frame:
  assumes "task_list s k us" "k \<noteq> l" "task_list s l ts" "t \<notin> set us" "set us \<inter> set ts = {}"
  shows "task_list (addtask l t s) k us"
proof -
  have "t_next (addtask l t s) x = t_next s x \<and> t_prev (addtask l t s) x = t_prev s x" if "x \<in> set us" for x
  proof -
    have "x \<noteq> t" "tail (tlists s l) \<noteq> Some x"
      using that assms by (auto simp: task_list_def last_of_def split: if_splits)
    then show ?thesis by (auto simp: addtask_def Let_def split: option.split)
  qed
  with assms(1,2) show ?thesis
    by (simp add: task_list_def) (metis linked_cong)
qed

lemma deltask_frame:
  assumes "task_list s k us" "k \<noteq> l" "task_list s l ts" "t \<in> set ts" "set us \<inter> set ts = {}"
  shows "task_list (deltask l t s) k us"
proof -
  have d: "distinct ts" using assms(3) by (simp add: task_list_def)
  obtain vs ws where u: "ts = vs @ t # ws" by (rule distinct_split [OF assms(4) d])
  have nb: "t_prev s t = last_of None vs" "t_next s t = first_of ws None"
    using assms(3) u by (auto simp: task_list_def intro: linked_neighbours)
  have "t_next (deltask l t s) x = t_next s x \<and> t_prev (deltask l t s) x = t_prev s x" if "x \<in> set us" for x
  proof -
    have "x \<notin> set vs" "x \<notin> set ws" "x \<noteq> t" using that assms(5) u by auto
    then have "t_prev s t \<noteq> Some x" "t_next s t \<noteq> Some x"
      using nb by (auto simp: last_of_def first_of_cases split: if_splits)
    then show ?thesis using \<open>x \<noteq> t\<close> by (auto simp: deltask_def Let_def split: option.split)
  qed
  with assms(1,2) show ?thesis
    by (simp add: task_list_def) (metis linked_cong)
qed

section \<open>The interface of the lists\<close>

text \<open>
  What the scheduler and the locks rely on: a family of queues that share their links.  \<open>rep s A\<close> says what every queue
  holds; a task is put at the end of one queue, taken out of the one it is on, and the first one can be read.
\<close>

locale task_queues =
  fixes rep :: "'s \<Rightarrow> ('k \<Rightarrow> 't list) \<Rightarrow> bool"
    and add :: "'k \<Rightarrow> 't \<Rightarrow> 's \<Rightarrow> 's"
    and del :: "'k \<Rightarrow> 't \<Rightarrow> 's \<Rightarrow> 's"
    and front :: "'k \<Rightarrow> 's \<Rightarrow> 't option"
  assumes rep_once: "rep s A \<Longrightarrow> distinct (A l) \<and> (l \<noteq> k \<longrightarrow> set (A l) \<inter> set (A k) = {})"
    and rep_front: "rep s A \<Longrightarrow> front l s = (case A l of [] \<Rightarrow> None | t # _ \<Rightarrow> Some t)"
    and rep_add: "rep s A \<Longrightarrow> (\<And>k. t \<notin> set (A k)) \<Longrightarrow> rep (add l t s) (A(l := A l @ [t]))"
    and rep_del: "rep s A \<Longrightarrow> t \<in> set (A l) \<Longrightarrow> rep (del l t s) (A(l := remove1 t (A l)))"
begin

lemma front_None [simp]: "rep s A \<Longrightarrow> front l s = None \<longleftrightarrow> A l = []"
  by (auto simp: rep_front split: list.split)

lemma front_Some: "rep s A \<Longrightarrow> front l s = Some t \<Longrightarrow> \<exists>ts. A l = t # ts"
  by (auto simp: rep_front split: list.splits)

lemma only_queue: "rep s A \<Longrightarrow> t \<in> set (A l) \<Longrightarrow> t \<in> set (A k) \<Longrightarrow> k = l"
  using rep_once [of s A l k] by blast

text \<open>Taking the first one out, and putting it on another queue.\<close>

lemma pop:
  assumes "rep s A" "front l s = Some t"
  shows "\<exists>ts. A l = t # ts \<and> rep (del l t s) (A(l := ts)) \<and> t \<notin> set ts \<and> (\<forall>k. t \<notin> set ((A(l := ts)) k))"
proof -
  obtain ts where ts: "A l = t # ts" using front_Some [OF assms] by blast
  have "t \<notin> set ts" using rep_once [OF assms(1), of l] ts by auto
  moreover have "t \<notin> set (A k)" if "k \<noteq> l" for k using only_queue [OF assms(1), of t l k] ts that by auto
  ultimately show ?thesis using rep_del [OF assms(1), of t l] ts by auto
qed

lemma hand_over:
  assumes "rep s A" "front l s = Some t" "l \<noteq> k"
  shows "\<exists>ts. A l = t # ts \<and> rep (add k t (del l t s)) (A(l := ts, k := A k @ [t]))"
proof -
  from pop [OF assms(1,2)] obtain ts where
    ts: "A l = t # ts" "rep (del l t s) (A(l := ts))" "\<forall>k. t \<notin> set ((A(l := ts)) k)" by blast
  from rep_add [OF ts(2), of t k] ts(1,3) assms(3) show ?thesis by auto
qed

end

definition list_head :: "list_id \<Rightarrow> sched \<Rightarrow> nat option" where
  "list_head l s = head (tlists s l)"

interpretation tq: task_queues task_lists addtask deltask list_head
proof unfold_locales
  fix s A l k t
  assume r: "task_lists s A"
  then show "distinct (A l) \<and> (l \<noteq> k \<longrightarrow> set (A l) \<inter> set (A k) = {})"
    by (auto simp: task_lists_def task_list_def)
  from r show "list_head l s = (case A l of [] \<Rightarrow> None | t # _ \<Rightarrow> Some t)"
    by (simp add: task_lists_def task_list_def list_head_def first_of_def)
  show "task_lists (addtask l t s) (A(l := A l @ [t]))" if new: "\<And>k. t \<notin> set (A k)"
  proof -
    have "task_list (addtask l t s) l (A l @ [t])" using r new by (auto simp: task_lists_def intro: addtask_list)
    moreover have "task_list (addtask l t s) k (A k)" if "k \<noteq> l" for k
      using addtask_frame [of s k "A k" l "A l" t] r new that by (auto simp: task_lists_def)
    ultimately show ?thesis using r new unfolding task_lists_def by auto
  qed
  show "task_lists (deltask l t s) (A(l := remove1 t (A l)))" if "t \<in> set (A l)"
  proof -
    have "task_list (deltask l t s) l (remove1 t (A l))" using r that by (auto simp: task_lists_def intro: deltask_list)
    moreover have "task_list (deltask l t s) k (A k)" if "k \<noteq> l" for k
      using deltask_frame [of s k "A k" l "A l" t] r \<open>t \<in> set (A l)\<close> that by (auto simp: task_lists_def)
    moreover have "set (remove1 t (A l)) \<inter> set (A k) = {}" if "k \<noteq> l" for k
      using r that set_remove1_subset [of t "A l"] unfolding task_lists_def by blast
    ultimately show ?thesis using r by (auto simp: task_lists_def)
  qed
qed

section \<open>The operations of \<^verbatim>\<open>task.c\<close>\<close>

text \<open>What reads \<^verbatim>\<open>taskrunning\<close>, which is null in the scheduler.\<close>

definition with_running :: "sched \<Rightarrow> (nat \<Rightarrow> 'a cres) \<Rightarrow> 'a cres" where
  "with_running s f = (case taskrunning s of None \<Rightarrow> Inl Null_deref | Some t \<Rightarrow> f t)"

text \<open>The two strings of a task have 256 bytes.\<close>

definition taskname :: "string \<Rightarrow> sched \<Rightarrow> sched cres" where
  "taskname str s = with_running s (\<lambda>t. Inr (s\<lparr>t_name := (t_name s)(t := take 255 str)\<rparr>))"

definition taskstate :: "string \<Rightarrow> sched \<Rightarrow> sched cres" where
  "taskstate str s = with_running s (\<lambda>t. Inr (s\<lparr>t_state := (t_state s)(t := take 255 str)\<rparr>))"

definition taskready :: "nat \<Rightarrow> sched \<Rightarrow> sched" where
  "taskready t s = addtask Taskrunqueue t (s\<lparr>t_ready := (t_ready s)(t := True)\<rparr>)"

text \<open>\<open>t\<close> is the address \<^verbatim>\<open>calloc\<close> answers.\<close>

definition taskalloc :: "nat \<Rightarrow> sched \<Rightarrow> sched" where
  "taskalloc t s =
     (let k = to_int32 (taskidgen s + 1) in
      s\<lparr>t_next := (t_next s)(t := None), t_prev := (t_prev s)(t := None), alarmtime := (alarmtime s)(t := 0),
        taskidgen := k, t_id := (t_id s)(t := k), exiting := (exiting s)(t := False), alltaskslot := (alltaskslot s)(t := 0),
        t_system := (t_system s)(t := False), t_ready := (t_ready s)(t := False), t_name := (t_name s)(t := []),
        t_state := (t_state s)(t := []), t_context := (t_context s)(t := Res_start)\<rparr>)"

definition TASK_LIST_GROWTH :: nat where
  "TASK_LIST_GROWTH = 256"

text \<open>\<open>addr\<close> and \<open>mem_ok\<close>: what \<^verbatim>\<open>calloc\<close> answers, and whether \<^verbatim>\<open>realloc\<close> does.\<close>

definition taskcreate :: "nat option \<Rightarrow> bool \<Rightarrow> sched \<Rightarrow> (int \<times> sched) cres" where
  "taskcreate addr mem_ok s =
     (case addr of
        None \<Rightarrow> Inl Assert_fail
      | Some t \<Rightarrow>
          let s1 = taskalloc t s; s2 = s1\<lparr>taskcount := taskcount s1 + 1\<rparr>; k = t_id s2 t; n = length (alltask s2) in
          if n mod TASK_LIST_GROWTH = 0 \<and> \<not> mem_ok then Inl Assert_fail
          else Inr (k, taskready t (s2\<lparr>alltaskslot := (alltaskslot s2)(t := n), alltask := alltask s2 @ [t]\<rparr>)))"

definition tasksystem :: "sched \<Rightarrow> sched cres" where
  "tasksystem s = with_running s (\<lambda>t.
     if t_system s t then Inr s else Inr (s\<lparr>t_system := (t_system s)(t := True), taskcount := taskcount s - 1\<rparr>))"

text \<open>What the scheduler does when \<open>t\<close> has switched back to it.\<close>

definition task_switched :: "nat \<Rightarrow> sched \<Rightarrow> sched cres" where
  "task_switched t s =
     (let s0 = s\<lparr>taskrunning := None\<rparr> in
      if \<not> exiting s0 t then Inr s0
      else
        (let s1 = (if t_system s0 t then s0 else s0\<lparr>taskcount := taskcount s0 - 1\<rparr>);
             i = alltaskslot s1 t; n = length (alltask s1) - 1 in
         if i < length (alltask s1)
         then (let q = alltask s1 ! n in
               Inr (s1\<lparr>alltask := take n ((alltask s1)[i := q]), alltaskslot := (alltaskslot s1)(q := i)\<rparr>))
         else Inl Out_of_bounds))"

text \<open>\<open>k\<close>: where the task goes on when it runs again.\<close>

definition taskswitch :: "resume \<Rightarrow> sched \<Rightarrow> sched cres" where
  "taskswitch k s = with_running s (\<lambda>t. task_switched t (s\<lparr>t_context := (t_context s)(t := k)\<rparr>))"

definition taskyield :: "sched \<Rightarrow> sched cres" where
  "taskyield s = with_running s (\<lambda>t.
     cbind (taskstate ''yield'' (taskready t s)) (taskswitch (Res_yield (tasknswitch s))))"

definition taskyield_result :: "int \<Rightarrow> sched \<Rightarrow> int" where
  "taskyield_result n s = tasknswitch s - n - 1"

definition anyready :: "sched \<Rightarrow> bool" where
  "anyready s \<longleftrightarrow> list_head Taskrunqueue s \<noteq> None"

definition taskexit :: "int \<Rightarrow> sched \<Rightarrow> sched cres" where
  "taskexit val s = with_running s (\<lambda>t. taskswitch Res_start (s\<lparr>taskexitval := val, exiting := (exiting s)(t := True)\<rparr>))"

text \<open>One turn of the scheduler's loop up to the switch: the process ends, or a task runs.\<close>

datatype turn = Process_exit int | Run_task sched

definition taskscheduler :: "sched \<Rightarrow> turn" where
  "taskscheduler s =
     (if taskcount s = 0 then Process_exit (taskexitval s)
      else (case list_head Taskrunqueue s of
         None \<Rightarrow> Process_exit 1
       | Some t \<Rightarrow>
           let s1 = deltask Taskrunqueue t s in
           Run_task (s1\<lparr>t_ready := (t_ready s1)(t := False), taskrunning := Some t, tasknswitch := tasknswitch s1 + 1\<rparr>)))"

definition taskid :: "sched \<Rightarrow> int cres" where
  "taskid s = with_running s (\<lambda>t. Inr (t_id s t))"

text \<open>The report of all tasks.\<close>

definition task_info :: "sched \<Rightarrow> nat \<Rightarrow> string" where
  "task_info s t =
     ''{\"id\": '' @ int_digits (t_id s t) @ '', \"system\": '' @ int_digits (if t_system s t then 1 else 0) @
     '', \"name\": \"'' @ t_name s t @ ''\", \"state\": \"'' @ t_state s t @ ''\", \"extra\": \"'' @
     (if taskrunning s = Some t then ''running'' else if t_ready s t then ''ready'' else []) @ ''\"}''"

fun task_infos :: "sched \<Rightarrow> nat list \<Rightarrow> string" where
  "task_infos s [] = []"
| "task_infos s [t] = task_info s t"
| "task_infos s (t # ts) = task_info s t @ [CHR 0x2C, CHR 0x0A] @ task_infos s ts"

definition taskgetinfo :: "sched \<Rightarrow> bstring" where
  "taskgetinfo s = ''{\"task_list\":['' @ task_infos s (alltask s) @ '']}'' @ [CHR 0x0A]"

text \<open>At the start of \<^verbatim>\<open>main\<close>, before the first \<^verbatim>\<open>taskcreate\<close>.\<close>

definition sched_init :: sched where
  "sched_init = \<lparr>t_next = (\<lambda>_. None), t_prev = (\<lambda>_. None), alarmtime = (\<lambda>_. 0), t_id = (\<lambda>_. 0), exiting = (\<lambda>_. False),
     alltaskslot = (\<lambda>_. 0), t_system = (\<lambda>_. False), t_ready = (\<lambda>_. False), t_name = (\<lambda>_. []), t_state = (\<lambda>_. []),
     t_context = (\<lambda>_. Res_start), tlists = (\<lambda>_. \<lparr>head = None, tail = None\<rparr>), taskcount = 0, tasknswitch = 0,
     taskexitval = 0, taskrunning = None, alltask = [], taskidgen = 0, sleepingcounted = 0, lock_owner = (\<lambda>_. None),
     readers = (\<lambda>_. 0), writer = (\<lambda>_. None), rendez_lock = (\<lambda>_. None)\<rparr>"

section \<open>What the operations leave alone\<close>

text \<open>Only the links and the ends of the lists matter to what they hold.\<close>

lemma task_lists_upd [simp]:
  "task_lists (s\<lparr>alarmtime := v0\<rparr>) A = task_lists s A"
  "task_lists (s\<lparr>t_id := v1\<rparr>) A = task_lists s A"
  "task_lists (s\<lparr>exiting := v2\<rparr>) A = task_lists s A"
  "task_lists (s\<lparr>alltaskslot := v3\<rparr>) A = task_lists s A"
  "task_lists (s\<lparr>t_system := v4\<rparr>) A = task_lists s A"
  "task_lists (s\<lparr>t_ready := v5\<rparr>) A = task_lists s A"
  "task_lists (s\<lparr>t_name := v6\<rparr>) A = task_lists s A"
  "task_lists (s\<lparr>t_state := v7\<rparr>) A = task_lists s A"
  "task_lists (s\<lparr>t_context := v8\<rparr>) A = task_lists s A"
  "task_lists (s\<lparr>taskcount := v9\<rparr>) A = task_lists s A"
  "task_lists (s\<lparr>tasknswitch := v10\<rparr>) A = task_lists s A"
  "task_lists (s\<lparr>taskexitval := v11\<rparr>) A = task_lists s A"
  "task_lists (s\<lparr>taskrunning := v12\<rparr>) A = task_lists s A"
  "task_lists (s\<lparr>alltask := v13\<rparr>) A = task_lists s A"
  "task_lists (s\<lparr>taskidgen := v14\<rparr>) A = task_lists s A"
  "task_lists (s\<lparr>sleepingcounted := v15\<rparr>) A = task_lists s A"
  "task_lists (s\<lparr>lock_owner := v16\<rparr>) A = task_lists s A"
  "task_lists (s\<lparr>readers := v17\<rparr>) A = task_lists s A"
  "task_lists (s\<lparr>writer := v18\<rparr>) A = task_lists s A"
  "task_lists (s\<lparr>rendez_lock := v19\<rparr>) A = task_lists s A"
  by (simp_all add: task_lists_def task_list_def)

lemma addtask_keeps [simp]:
  "alarmtime (addtask l t s) = alarmtime s"
  "t_id (addtask l t s) = t_id s"
  "exiting (addtask l t s) = exiting s"
  "alltaskslot (addtask l t s) = alltaskslot s"
  "t_system (addtask l t s) = t_system s"
  "t_ready (addtask l t s) = t_ready s"
  "t_name (addtask l t s) = t_name s"
  "t_state (addtask l t s) = t_state s"
  "t_context (addtask l t s) = t_context s"
  "taskcount (addtask l t s) = taskcount s"
  "tasknswitch (addtask l t s) = tasknswitch s"
  "taskexitval (addtask l t s) = taskexitval s"
  "taskrunning (addtask l t s) = taskrunning s"
  "alltask (addtask l t s) = alltask s"
  "taskidgen (addtask l t s) = taskidgen s"
  "sleepingcounted (addtask l t s) = sleepingcounted s"
  "lock_owner (addtask l t s) = lock_owner s"
  "readers (addtask l t s) = readers s"
  "writer (addtask l t s) = writer s"
  "rendez_lock (addtask l t s) = rendez_lock s"
  by (subst addtask_fields, simp)+

lemma deltask_keeps [simp]:
  "alarmtime (deltask l t s) = alarmtime s"
  "t_id (deltask l t s) = t_id s"
  "exiting (deltask l t s) = exiting s"
  "alltaskslot (deltask l t s) = alltaskslot s"
  "t_system (deltask l t s) = t_system s"
  "t_ready (deltask l t s) = t_ready s"
  "t_name (deltask l t s) = t_name s"
  "t_state (deltask l t s) = t_state s"
  "t_context (deltask l t s) = t_context s"
  "taskcount (deltask l t s) = taskcount s"
  "tasknswitch (deltask l t s) = tasknswitch s"
  "taskexitval (deltask l t s) = taskexitval s"
  "taskrunning (deltask l t s) = taskrunning s"
  "alltask (deltask l t s) = alltask s"
  "taskidgen (deltask l t s) = taskidgen s"
  "sleepingcounted (deltask l t s) = sleepingcounted s"
  "lock_owner (deltask l t s) = lock_owner s"
  "readers (deltask l t s) = readers s"
  "writer (deltask l t s) = writer s"
  "rendez_lock (deltask l t s) = rendez_lock s"
  by (subst deltask_fields, simp)+

lemma taskready_keeps [simp]:
  "alarmtime (taskready t s) = alarmtime s"
  "t_id (taskready t s) = t_id s"
  "exiting (taskready t s) = exiting s"
  "alltaskslot (taskready t s) = alltaskslot s"
  "t_system (taskready t s) = t_system s"
  "t_name (taskready t s) = t_name s"
  "t_state (taskready t s) = t_state s"
  "t_context (taskready t s) = t_context s"
  "taskcount (taskready t s) = taskcount s"
  "tasknswitch (taskready t s) = tasknswitch s"
  "taskexitval (taskready t s) = taskexitval s"
  "taskrunning (taskready t s) = taskrunning s"
  "alltask (taskready t s) = alltask s"
  "taskidgen (taskready t s) = taskidgen s"
  "sleepingcounted (taskready t s) = sleepingcounted s"
  "lock_owner (taskready t s) = lock_owner s"
  "readers (taskready t s) = readers s"
  "writer (taskready t s) = writer s"
  "rendez_lock (taskready t s) = rendez_lock s"
  "t_ready (taskready t s) = (t_ready s)(t := True)"
  by (simp_all add: taskready_def)

lemma taskready_lists:
  "task_lists s A \<Longrightarrow> (\<And>k. t \<notin> set (A k)) \<Longrightarrow>
   task_lists (taskready t s) (A(Taskrunqueue := A Taskrunqueue @ [t]))"
  by (simp add: taskready_def tq.rep_add)

text \<open>Switching away, and the scheduler's part behind it.\<close>

lemma taskswitch_stays:
  assumes "taskrunning s = Some t" "\<not> exiting s t"
  shows "taskswitch k s = Inr (s\<lparr>t_context := (t_context s)(t := k), taskrunning := None\<rparr>)"
  using assms by (simp add: taskswitch_def with_running_def task_switched_def)

lemma taskscheduler_runs:
  assumes "task_lists s A" "taskcount s \<noteq> 0" "A Taskrunqueue = t # ts"
  shows "\<exists>s1. taskscheduler s = Run_task s1 \<and> task_lists s1 (A(Taskrunqueue := ts)) \<and>
     s1 = s\<lparr>t_next := t_next s1, t_prev := t_prev s1, tlists := tlists s1, t_ready := (t_ready s)(t := False),
            taskrunning := Some t, tasknswitch := tasknswitch s + 1\<rparr>"
proof -
  have f: "list_head Taskrunqueue s = Some t" using tq.rep_front [OF assms(1)] assms(3) by simp
  from tq.pop [OF assms(1) f] assms(3) have "task_lists (deltask Taskrunqueue t s) (A(Taskrunqueue := ts))" by auto
  moreover have "deltask Taskrunqueue t s = s\<lparr>t_next := t_next (deltask Taskrunqueue t s),
      t_prev := t_prev (deltask Taskrunqueue t s), tlists := tlists (deltask Taskrunqueue t s)\<rparr>" by (rule deltask_fields)
  ultimately show ?thesis using assms(2) f by (auto simp: taskscheduler_def Let_def)
qed

end
