(* ===== verification/Locks.thy ===== *)
theory Locks
  imports Task
begin

text \<open>
  \<^verbatim>\<open>task/qlock.c\<close> and \<^verbatim>\<open>task/rendez.c\<close>: queueing locks, reader-writer locks and rendezvous.  An operation that blocks
  ends in the scheduler (\<^verbatim>\<open>taskrunning\<close> is null behind it); what it does when the task runs again is a \<open>_resumed\<close>
  definition, and \<open>resume_task\<close> chooses between them.
\<close>

section \<open>\<^verbatim>\<open>qlock.c\<close>\<close>

text \<open>Blocking: get in line, and leave.\<close>

definition block_on :: "list_id \<Rightarrow> string \<Rightarrow> resume \<Rightarrow> sched \<Rightarrow> sched cres" where
  "block_on l name k s = with_running s (\<lambda>t. cbind (taskstate name (addtask l t s)) (taskswitch k))"

text \<open>The result of a call that blocks is the 1 it answers when it is resumed.\<close>

definition qlock1 :: "nat \<Rightarrow> bool \<Rightarrow> sched \<Rightarrow> (int \<times> sched) cres" where
  "qlock1 l block s = with_running s (\<lambda>t.
     if lock_owner s l = None then Inr (1, s\<lparr>lock_owner := (lock_owner s)(l := Some t)\<rparr>)
     else if \<not> block then Inr (0, s)
     else cbind (block_on (Lock_waiting l) ''qlock'' (Res_qlock l) s) (\<lambda>s. Inr (1, s)))"

definition qlock_resumed :: "nat \<Rightarrow> sched \<Rightarrow> sched cres" where
  "qlock_resumed l s = with_running s (\<lambda>t. if lock_owner s l \<noteq> Some t then Inl Assert_fail else Inr s)"

definition qlock :: "nat \<Rightarrow> sched \<Rightarrow> sched cres" where
  "qlock l s = cbind (qlock1 l True s) (\<lambda>(_, s). Inr s)"

definition canqlock :: "nat \<Rightarrow> sched \<Rightarrow> (int \<times> sched) cres" where
  "canqlock l s = qlock1 l False s"

definition qunlock :: "nat \<Rightarrow> sched \<Rightarrow> sched cres" where
  "qunlock l s =
     (if lock_owner s l = None then Inl Assert_fail
      else (let w = list_head (Lock_waiting l) s; s1 = s\<lparr>lock_owner := (lock_owner s)(l := w)\<rparr> in
        case w of None \<Rightarrow> Inr s1 | Some t \<Rightarrow> Inr (taskready t (deltask (Lock_waiting l) t s1))))"

definition rlock1 :: "nat \<Rightarrow> bool \<Rightarrow> sched \<Rightarrow> (int \<times> sched) cres" where
  "rlock1 l block s =
     (if writer s l = None \<and> list_head (Write_waiting l) s = None
      then Inr (1, s\<lparr>readers := (readers s)(l := readers s l + 1)\<rparr>)
      else if \<not> block then Inr (0, s)
      else cbind (block_on (Read_waiting l) ''rlock'' (Res_rlock l) s) (\<lambda>s. Inr (1, s)))"

definition rlock :: "nat \<Rightarrow> sched \<Rightarrow> sched cres" where
  "rlock l s = cbind (rlock1 l True s) (\<lambda>(_, s). Inr s)"

definition canrlock :: "nat \<Rightarrow> sched \<Rightarrow> (int \<times> sched) cres" where
  "canrlock l s = rlock1 l False s"

definition wlock1 :: "nat \<Rightarrow> bool \<Rightarrow> sched \<Rightarrow> (int \<times> sched) cres" where
  "wlock1 l block s =
     (if writer s l = None \<and> readers s l = 0 then with_running s (\<lambda>t. Inr (1, s\<lparr>writer := (writer s)(l := Some t)\<rparr>))
      else if \<not> block then Inr (0, s)
      else cbind (block_on (Write_waiting l) ''wlock'' (Res_wlock l) s) (\<lambda>s. Inr (1, s)))"

definition wlock :: "nat \<Rightarrow> sched \<Rightarrow> sched cres" where
  "wlock l s = cbind (wlock1 l True s) (\<lambda>(_, s). Inr s)"

definition canwlock :: "nat \<Rightarrow> sched \<Rightarrow> (int \<times> sched) cres" where
  "canwlock l s = wlock1 l False s"

text \<open>The last reader lets the first writer in.\<close>

definition let_writer_in :: "nat \<Rightarrow> sched \<Rightarrow> sched" where
  "let_writer_in l s =
     (case (readers s l = 0, list_head (Write_waiting l) s) of
        (True, Some t) \<Rightarrow>
          let s1 = deltask (Write_waiting l) t s in taskready t (s1\<lparr>writer := (writer s1)(l := Some t)\<rparr>)
      | _ \<Rightarrow> s)"

definition runlock :: "nat \<Rightarrow> sched \<Rightarrow> sched" where
  "runlock l s = let_writer_in l (s\<lparr>readers := (readers s)(l := readers s l - 1)\<rparr>)"

partial_function (option) let_readers_in :: "nat \<Rightarrow> sched \<Rightarrow> sched option" where
  "let_readers_in l s =
     (case list_head (Read_waiting l) s of
        None \<Rightarrow> Some s
      | Some t \<Rightarrow>
          let s1 = deltask (Read_waiting l) t s in
          let_readers_in l (taskready t (s1\<lparr>readers := (readers s1)(l := readers s1 l + 1)\<rparr>)))"

definition wunlock :: "nat \<Rightarrow> sched \<Rightarrow> sched cres option" where
  "wunlock l s =
     (if writer s l = None then Some (Inl Assert_fail)
      else (let s1 = s\<lparr>writer := (writer s)(l := None)\<rparr> in
        if readers s1 l \<noteq> 0 then Some (Inl Assert_fail)
        else Option.bind (let_readers_in l s1) (\<lambda>s2. Some (Inr (let_writer_in l s2)))))"

section \<open>\<^verbatim>\<open>rendez.c\<close>\<close>

definition tasksleep :: "nat \<Rightarrow> sched \<Rightarrow> sched cres" where
  "tasksleep r s = with_running s (\<lambda>t.
     let s1 = addtask (Rendez_waiting r) t s in
     cbind (case rendez_lock s1 r of None \<Rightarrow> Inr s1 | Some l \<Rightarrow> qunlock l s1) (\<lambda>s2.
     cbind (taskstate ''sleep'' s2) (taskswitch (Res_sleep r))))"

definition sleep_resumed :: "nat \<Rightarrow> sched \<Rightarrow> sched cres" where
  "sleep_resumed r s = (case rendez_lock s r of None \<Rightarrow> Inr s | Some l \<Rightarrow> qlock l s)"

partial_function (option) wakeup_loop :: "nat \<Rightarrow> bool \<Rightarrow> int \<Rightarrow> sched \<Rightarrow> (int \<times> sched) option" where
  "wakeup_loop r everyone i s =
     (if i = 1 \<and> \<not> everyone then Some (i, s)
      else (case list_head (Rendez_waiting r) s of
         None \<Rightarrow> Some (i, s)
       | Some t \<Rightarrow> wakeup_loop r everyone (i + 1) (taskready t (deltask (Rendez_waiting r) t s))))"

definition taskwakeup :: "nat \<Rightarrow> sched \<Rightarrow> (int \<times> sched) option" where
  "taskwakeup r s = wakeup_loop r False 0 s"

definition taskwakeupall :: "nat \<Rightarrow> sched \<Rightarrow> (int \<times> sched) option" where
  "taskwakeupall r s = wakeup_loop r True 0 s"

definition taskbarrier :: "nat \<Rightarrow> sched \<Rightarrow> (int \<times> sched) cres option" where
  "taskbarrier r s = Option.bind (taskwakeupall r s) (\<lambda>(n, s1).
     Some (if n = 0 then cbind (tasksleep r s1) (\<lambda>s2. Inr (n, s2)) else Inr (n, s1)))"

section \<open>Going on behind a switch\<close>

definition resume_task :: "sched \<Rightarrow> sched cres" where
  "resume_task s = with_running s (\<lambda>t.
     case t_context s t of
       Res_qlock l \<Rightarrow> qlock_resumed l s
     | Res_sleep r \<Rightarrow> sleep_resumed r s
     | _ \<Rightarrow> Inr s)"

section \<open>What blocking and waking do\<close>

text \<open>The state behind blocking.\<close>

definition blocked :: "list_id \<Rightarrow> string \<Rightarrow> resume \<Rightarrow> nat \<Rightarrow> sched \<Rightarrow> sched" where
  "blocked l name k t s =
     (addtask l t s)\<lparr>t_state := (t_state s)(t := take 255 name), t_context := (t_context s)(t := k), taskrunning := None\<rparr>"

lemma block_on_eq:
  "taskrunning s = Some t \<Longrightarrow> \<not> exiting s t \<Longrightarrow> block_on l name k s = Inr (blocked l name k t s)"
  by (simp add: block_on_def with_running_def taskstate_def taskswitch_def task_switched_def blocked_def)

lemma blocked_keeps [simp]:
  "alarmtime (blocked l name k t s) = alarmtime s"
  "t_id (blocked l name k t s) = t_id s"
  "exiting (blocked l name k t s) = exiting s"
  "alltaskslot (blocked l name k t s) = alltaskslot s"
  "t_system (blocked l name k t s) = t_system s"
  "t_ready (blocked l name k t s) = t_ready s"
  "t_name (blocked l name k t s) = t_name s"
  "taskcount (blocked l name k t s) = taskcount s"
  "tasknswitch (blocked l name k t s) = tasknswitch s"
  "taskexitval (blocked l name k t s) = taskexitval s"
  "alltask (blocked l name k t s) = alltask s"
  "taskidgen (blocked l name k t s) = taskidgen s"
  "sleepingcounted (blocked l name k t s) = sleepingcounted s"
  "lock_owner (blocked l name k t s) = lock_owner s"
  "readers (blocked l name k t s) = readers s"
  "writer (blocked l name k t s) = writer s"
  "rendez_lock (blocked l name k t s) = rendez_lock s"
  "t_context (blocked l name k t s) = (t_context s)(t := k)" "taskrunning (blocked l name k t s) = None"
  by (simp_all add: blocked_def)

lemma blocked_lists:
  "task_lists s A \<Longrightarrow> (\<And>k. t \<notin> set (A k)) \<Longrightarrow> task_lists (blocked l name k t s) (A(l := A l @ [t]))"
  by (simp add: blocked_def tq.rep_add)

text \<open>The first in line is made ready.\<close>

definition woken :: "list_id \<Rightarrow> nat \<Rightarrow> sched \<Rightarrow> sched" where
  "woken l t s = taskready t (deltask l t s)"

lemma woken_keeps [simp]:
  "alarmtime (woken l t s) = alarmtime s"
  "t_id (woken l t s) = t_id s"
  "exiting (woken l t s) = exiting s"
  "alltaskslot (woken l t s) = alltaskslot s"
  "t_system (woken l t s) = t_system s"
  "t_name (woken l t s) = t_name s"
  "t_state (woken l t s) = t_state s"
  "t_context (woken l t s) = t_context s"
  "taskcount (woken l t s) = taskcount s"
  "tasknswitch (woken l t s) = tasknswitch s"
  "taskexitval (woken l t s) = taskexitval s"
  "taskrunning (woken l t s) = taskrunning s"
  "alltask (woken l t s) = alltask s"
  "taskidgen (woken l t s) = taskidgen s"
  "sleepingcounted (woken l t s) = sleepingcounted s"
  "lock_owner (woken l t s) = lock_owner s"
  "readers (woken l t s) = readers s"
  "writer (woken l t s) = writer s"
  "rendez_lock (woken l t s) = rendez_lock s"
  "t_ready (woken l t s) = (t_ready s)(t := True)"
  by (simp_all add: woken_def)

lemma woken_lists:
  assumes "task_lists s A" "A l = t # ts" "l \<noteq> Taskrunqueue"
  shows "task_lists (woken l t s) (A(l := ts, Taskrunqueue := A Taskrunqueue @ [t]))"
proof -
  have "list_head l s = Some t" using assms(1,2) by (simp add: tq.rep_front)
  from tq.pop [OF assms(1) this] assms(2) have p: "task_lists (deltask l t s) (A(l := ts))" "\<forall>k. t \<notin> set ((A(l := ts)) k)" by auto
  from taskready_lists [OF p(1), of t] p(2) assms(3) show ?thesis by (auto simp: woken_def)
qed

text \<open>The code writes to the lock before, between and after; the order does not matter.\<close>

lemma lists_upd:
  "addtask l t (s\<lparr>lock_owner := v\<rparr>) = (addtask l t s)\<lparr>lock_owner := v\<rparr>" "addtask l t (s\<lparr>writer := w\<rparr>) = (addtask l t s)\<lparr>writer := w\<rparr>"
  "addtask l t (s\<lparr>readers := r\<rparr>) = (addtask l t s)\<lparr>readers := r\<rparr>"
  "addtask l t (s\<lparr>t_ready := x\<rparr>) = (addtask l t s)\<lparr>t_ready := x\<rparr>"
  "deltask l t (s\<lparr>lock_owner := v\<rparr>) = (deltask l t s)\<lparr>lock_owner := v\<rparr>" "deltask l t (s\<lparr>writer := w\<rparr>) = (deltask l t s)\<lparr>writer := w\<rparr>"
  "deltask l t (s\<lparr>readers := r\<rparr>) = (deltask l t s)\<lparr>readers := r\<rparr>"
  by (simp_all add: addtask_def deltask_def Let_def split: option.split)

lemma woken_upd:
  "taskready t (deltask l t (s\<lparr>lock_owner := v\<rparr>)) = (woken l t s)\<lparr>lock_owner := v\<rparr>"
  "taskready t ((deltask l t s)\<lparr>writer := w\<rparr>) = (woken l t s)\<lparr>writer := w\<rparr>"
  "taskready t ((deltask l t s)\<lparr>readers := r\<rparr>) = (woken l t s)\<lparr>readers := r\<rparr>"
  "woken l t (s\<lparr>readers := r\<rparr>) = (woken l t s)\<lparr>readers := r\<rparr>"
  by (simp_all add: woken_def taskready_def lists_upd)

lemma let_writer_in_cases:
  assumes "task_lists s A"
  shows "let_writer_in l s =
     (case A (Write_waiting l) of
        [] \<Rightarrow> s
      | t # ts \<Rightarrow> if readers s l = 0 then (woken (Write_waiting l) t s)\<lparr>writer := (writer s)(l := Some t)\<rparr> else s)"
  using assms by (cases "readers s l = 0") (auto simp: let_writer_in_def tq.rep_front woken_upd Let_def split: list.split)

text \<open>All in line, in their order.\<close>

definition drained :: "list_id \<Rightarrow> nat list \<Rightarrow> sched \<Rightarrow> sched" where
  "drained l ts s = fold (woken l) ts s"

lemma drained_keeps [simp]:
  "alarmtime (drained l ts s) = alarmtime s"
  "t_id (drained l ts s) = t_id s"
  "exiting (drained l ts s) = exiting s"
  "alltaskslot (drained l ts s) = alltaskslot s"
  "t_system (drained l ts s) = t_system s"
  "t_name (drained l ts s) = t_name s"
  "t_state (drained l ts s) = t_state s"
  "t_context (drained l ts s) = t_context s"
  "taskcount (drained l ts s) = taskcount s"
  "tasknswitch (drained l ts s) = tasknswitch s"
  "taskexitval (drained l ts s) = taskexitval s"
  "taskrunning (drained l ts s) = taskrunning s"
  "alltask (drained l ts s) = alltask s"
  "taskidgen (drained l ts s) = taskidgen s"
  "sleepingcounted (drained l ts s) = sleepingcounted s"
  "lock_owner (drained l ts s) = lock_owner s"
  "readers (drained l ts s) = readers s"
  "writer (drained l ts s) = writer s"
  "rendez_lock (drained l ts s) = rendez_lock s"
  by (induction ts arbitrary: s) (simp_all add: drained_def)

lemma drained_lists:
  "task_lists s A \<Longrightarrow> A l = ts @ us \<Longrightarrow> l \<noteq> Taskrunqueue \<Longrightarrow>
   task_lists (drained l ts s) (A(l := us, Taskrunqueue := A Taskrunqueue @ ts))"
proof (induction ts arbitrary: s A)
  case Nil
  then show ?case by (simp add: drained_def fun_upd_idem)
next
  case (Cons t ts)
  have "task_lists (woken l t s) (A(l := ts @ us, Taskrunqueue := A Taskrunqueue @ [t]))"
    using woken_lists [of s A l t "ts @ us"] Cons.prems by simp
  let ?B = "A(l := ts @ us, Taskrunqueue := A Taskrunqueue @ [t])"
  have "?B l = ts @ us" using Cons.prems(3) by simp
  from Cons.IH [OF \<open>task_lists (woken l t s) ?B\<close> this Cons.prems(3)]
  have "task_lists (drained l ts (woken l t s)) (?B(l := us, Taskrunqueue := ?B Taskrunqueue @ ts))" .
  moreover have "?B(l := us, Taskrunqueue := ?B Taskrunqueue @ ts) = A(l := us, Taskrunqueue := A Taskrunqueue @ t # ts)"
    by (auto simp: fun_eq_iff)
  moreover have "drained l (t # ts) s = drained l ts (woken l t s)" by (simp add: drained_def)
  ultimately show ?case by metis
qed

lemma let_readers_in_holds:
  "task_lists s A \<Longrightarrow> let_readers_in l s =
     Some ((drained (Read_waiting l) (A (Read_waiting l)) s)\<lparr>readers := (readers s)(l := readers s l + int (length (A (Read_waiting l))))\<rparr>)"
proof (induction "A (Read_waiting l)" arbitrary: s A)
  case Nil
  then have "list_head (Read_waiting l) s = None" by (simp add: tq.rep_front flip: Nil(1))
  then show ?case by (subst let_readers_in.simps) (simp add: drained_def flip: Nil(1))
next
  case (Cons t ts)
  have h: "list_head (Read_waiting l) s = Some t" using Cons.prems by (simp add: tq.rep_front flip: Cons.hyps(2))
  let ?s = "(woken (Read_waiting l) t s)\<lparr>readers := (readers s)(l := readers s l + 1)\<rparr>"
  let ?A = "A(Read_waiting l := ts, Taskrunqueue := A Taskrunqueue @ [t])"
  have "task_lists ?s ?A" using woken_lists [of s A "Read_waiting l" t ts] Cons.prems Cons.hyps(2) by simp
  from Cons.hyps(1) [OF _ this] have "let_readers_in l ?s =
      Some ((drained (Read_waiting l) ts ?s)\<lparr>readers := (readers s)(l := readers s l + 1 + int (length ts))\<rparr>)" by simp
  moreover have "let_readers_in l s = let_readers_in l ?s"
    using h by (subst let_readers_in.simps) (simp add: woken_upd Let_def)
  moreover have "drained (Read_waiting l) us (u\<lparr>readers := r\<rparr>) = (drained (Read_waiting l) us u)\<lparr>readers := r\<rparr>" for us u r
    by (induction us arbitrary: u) (simp_all add: drained_def woken_upd)
  ultimately show ?case by (simp add: drained_def add.assoc flip: Cons.hyps(2))
qed

lemma wakeup_loop_holds:
  "task_lists s A \<Longrightarrow> 0 \<le> i \<Longrightarrow> everyone \<or> i \<le> 1 \<Longrightarrow>
   wakeup_loop r everyone i s =
     (let ts = (if everyone then A (Rendez_waiting r) else take (nat (1 - i)) (A (Rendez_waiting r))) in
      Some (i + int (length ts), drained (Rendez_waiting r) ts s))"
proof (induction "A (Rendez_waiting r)" arbitrary: s A i)
  case Nil
  then have "list_head (Rendez_waiting r) s = None" by (simp add: tq.rep_front flip: Nil(1))
  then show ?case by (subst wakeup_loop.simps) (simp add: drained_def flip: Nil(1))
next
  case (Cons t ts)
  have h: "list_head (Rendez_waiting r) s = Some t" using Cons.prems by (simp add: tq.rep_front flip: Cons.hyps(2))
  let ?s = "woken (Rendez_waiting r) t s"
  let ?A = "A(Rendez_waiting r := ts, Taskrunqueue := A Taskrunqueue @ [t])"
  have a: "task_lists ?s ?A" using woken_lists [of s A "Rendez_waiting r" t ts] Cons.prems Cons.hyps(2) by simp
  show ?case
  proof (cases "i = 1 \<and> \<not> everyone")
    case True
    then show ?thesis by (subst wakeup_loop.simps) (simp add: drained_def)
  next
    case False
    have "wakeup_loop r everyone i s = wakeup_loop r everyone (i + 1) ?s"
      using h False by (subst wakeup_loop.simps) (auto simp: woken_def)
    moreover have "wakeup_loop r everyone (i + 1) ?s =
      (let us = (if everyone then ts else []) in Some (i + 1 + int (length us), drained (Rendez_waiting r) us ?s))"
    proof (cases everyone)
      case True
      then show ?thesis using Cons.hyps(1) [OF _ a, of "i + 1"] Cons.prems(2) by simp
    next
      case nope: False
      then have "i = 0" using Cons.prems(2,3) False by auto
      with nope show ?thesis by (subst wakeup_loop.simps) (simp add: drained_def)
    qed
    moreover have "\<not> everyone \<Longrightarrow> i = 0" using Cons.prems(2,3) False by auto
    ultimately show ?thesis by (cases everyone) (simp_all add: drained_def Let_def flip: Cons.hyps(2))
  qed
qed

end
