(* ===== verification/Sleep.thy ===== *)
theory Sleep
  imports Task "HOL-Library.Signed_Division"
begin

text \<open>
  The sleeping tasks of \<^verbatim>\<open>task/fd.c\<close>: a list in the order of their alarm times, the time to the first of them, and
  waking those whose time has come.  The clock is an argument: what \<^verbatim>\<open>nsec()\<close> answers.
\<close>

section \<open>Going to sleep\<close>

text \<open>The loop that looks for the first task with no earlier alarm.\<close>

partial_function (option) later_sleeper :: "sched \<Rightarrow> 64 word \<Rightarrow> nat option \<Rightarrow> nat option option" where
  "later_sleeper s when p =
     (case p of
        None \<Rightarrow> Some None
      | Some t \<Rightarrow> if alarmtime s t < when then later_sleeper s when (t_next s t) else Some (Some t))"

text \<open>Linking the running task \<open>r\<close> in front of \<open>p\<close>.\<close>

definition link_sleeper :: "nat option \<Rightarrow> nat \<Rightarrow> sched \<Rightarrow> sched" where
  "link_sleeper p r s =
     (let s1 = (case p of
           Some t \<Rightarrow> s\<lparr>t_prev := (t_prev s)(r := t_prev s t), t_next := (t_next s)(r := Some t)\<rparr>
         | None \<Rightarrow> s\<lparr>t_prev := (t_prev s)(r := tail (tlists s Sleeping)), t_next := (t_next s)(r := None)\<rparr>);
          s2 = (case t_prev s1 r of
           Some q \<Rightarrow> s1\<lparr>t_next := (t_next s1)(q := Some r)\<rparr>
         | None \<Rightarrow> s1\<lparr>tlists := (tlists s1)(Sleeping := (tlists s1 Sleeping)\<lparr>head := Some r\<rparr>)\<rparr>) in
      (case t_next s2 r of
           Some q \<Rightarrow> s2\<lparr>t_prev := (t_prev s2)(q := Some r)\<rparr>
         | None \<Rightarrow> s2\<lparr>tlists := (tlists s2)(Sleeping := (tlists s2 Sleeping)\<lparr>tail := Some r\<rparr>)\<rparr>))"

definition count_sleeper :: "nat \<Rightarrow> sched \<Rightarrow> sched" where
  "count_sleeper r s =
     (if t_system s r then s
      else s\<lparr>sleepingcounted := sleepingcounted s + 1,
             taskcount := (if sleepingcounted s = 0 then taskcount s + 1 else taskcount s)\<rparr>)"

text \<open>Behind \<^verbatim>\<open>startfdtask\<close>; \<open>ms\<close> is 32 bits wide.\<close>

definition taskdelay :: "32 word \<Rightarrow> 64 word \<Rightarrow> sched \<Rightarrow> sched cres option" where
  "taskdelay ms now s =
     (let when = now + ucast ms * 1000000 in
      Option.bind (later_sleeper s when (list_head Sleeping s)) (\<lambda>p. Some (with_running s (\<lambda>r.
        let s1 = link_sleeper p r s; s2 = s1\<lparr>alarmtime := (alarmtime s1)(r := when)\<rparr> in
        taskswitch (Res_delay now) (count_sleeper r s2)))))"

definition taskdelay_result :: "64 word \<Rightarrow> 64 word \<Rightarrow> 32 word" where
  "taskdelay_result started now = ucast ((now - started) div 1000000)"

section \<open>Waking up\<close>

definition uncount_sleeper :: "nat \<Rightarrow> sched \<Rightarrow> sched" where
  "uncount_sleeper t s =
     (if t_system s t then s
      else s\<lparr>sleepingcounted := sleepingcounted s - 1,
             taskcount := (if sleepingcounted s - 1 = 0 then taskcount s - 1 else taskcount s)\<rparr>)"

partial_function (option) wake_sleepers :: "64 word \<Rightarrow> sched \<Rightarrow> sched option" where
  "wake_sleepers now s =
     (case list_head Sleeping s of
        None \<Rightarrow> Some s
      | Some t \<Rightarrow>
          if now \<ge> alarmtime s t then wake_sleepers now (taskready t (uncount_sleeper t (deltask Sleeping t s)))
          else Some s)"

definition next_task_sleeptime :: "int \<Rightarrow> 64 word \<Rightarrow> sched \<Rightarrow> int" where
  "next_task_sleeptime mn now s =
     (let ms = (case list_head Sleeping s of
           None \<Rightarrow> -1
         | Some t \<Rightarrow> if now \<ge> alarmtime s t then 0 else to_int32 (uint ((alarmtime s t - now) div 1000000)));
          ms = (if ms smod mn \<noteq> 0 then ms - ms smod mn else ms) in
      if ms = 0 then mn else ms)"

section \<open>The list of sleepers\<close>

definition earlier :: "sched \<Rightarrow> 64 word \<Rightarrow> nat list \<Rightarrow> nat list" where
  "earlier s when ts = takeWhile (\<lambda>t. alarmtime s t < when) ts"

definition later :: "sched \<Rightarrow> 64 word \<Rightarrow> nat list \<Rightarrow> nat list" where
  "later s when ts = dropWhile (\<lambda>t. alarmtime s t < when) ts"

lemma later_sleeper_is:
  "linked (t_next s) (t_prev s) b ts None \<Longrightarrow>
   later_sleeper s when (first_of ts None) = Some (first_of (later s when ts) None)"
proof (induction ts arbitrary: b)
  case Nil
  then show ?case by (subst later_sleeper.simps) (simp add: later_def)
next
  case (Cons t ts)
  then show ?case by (subst later_sleeper.simps) (auto simp: later_def)
qed

lemma link_sleeper_list:
  assumes "task_list s Sleeping (us @ vs)" "r \<notin> set us" "r \<notin> set vs"
  shows "task_list (link_sleeper (first_of vs None) r s) Sleeping (us @ r # vs)"
proof -
  have nb: "v = hd vs \<Longrightarrow> vs \<noteq> [] \<Longrightarrow> t_prev s v = last_of None us" for v
    using assms(1) by (cases vs) (auto simp: task_list_def linked_append)
  show ?thesis
    using assms nb
    by (cases us rule: rev_cases; cases vs; auto simp: task_list_def link_sleeper_def Let_def linked_append last_of_Some)
qed

lemma link_sleeper_frame:
  assumes "task_list s k us" "k \<noteq> Sleeping" "task_list s Sleeping ts" "r \<notin> set us" "set us \<inter> set ts = {}"
    "p = None \<or> (\<exists>t\<in>set ts. p = Some t)"
  shows "task_list (link_sleeper p r s) k us"
proof -
  have tl: "tail (tlists s Sleeping) \<noteq> Some x" if "x \<in> set us" for x
    using that assms by (auto simp: task_list_def last_of_def split: if_splits)
  have pv: "t_prev s t \<noteq> Some x" if "x \<in> set us" "t \<in> set ts" for x t
  proof -
    obtain vs ws where "ts = vs @ t # ws" using split_list [OF \<open>t \<in> set ts\<close>] by blast
    then have "t_prev s t = last_of None vs" using assms(3) by (auto simp: task_list_def intro: linked_neighbours)
    then show ?thesis using that(1) assms(5) \<open>ts = vs @ t # ws\<close> by (auto simp: last_of_def)
  qed
  have "t_next (link_sleeper p r s) x = t_next s x \<and> t_prev (link_sleeper p r s) x = t_prev s x" if "x \<in> set us" for x
  proof (cases p)
    case None
    then show ?thesis using that tl [OF that] assms(4) by (auto simp: link_sleeper_def Let_def split: option.split)
  next
    case (Some t)
    then have "t \<in> set ts" using assms(6) by auto
    then have "x \<noteq> t" "t_prev s t \<noteq> Some x" using that assms(5) pv by auto
    then show ?thesis using that Some assms(4) by (auto simp: link_sleeper_def Let_def split: option.split)
  qed
  moreover have "tlists (link_sleeper p r s) k = tlists s k" using assms(2)
    by (simp add: link_sleeper_def Let_def split: option.split)
  ultimately show ?thesis using assms(1) by (simp add: task_list_def) (metis linked_cong)
qed

lemma link_sleeper_lists:
  assumes "task_lists s A" "A Sleeping = us @ vs" "\<And>k. r \<notin> set (A k)"
  shows "task_lists (link_sleeper (first_of vs None) r s) (A(Sleeping := us @ r # vs))"
proof -
  let ?s = "link_sleeper (first_of vs None) r s"
  have sl: "task_list s Sleeping (us @ vs)" using assms(1,2) unfolding task_lists_def by metis
  have "task_list ?s Sleeping (us @ r # vs)" using link_sleeper_list [OF sl, of r] assms(2) assms(3) [of Sleeping] by auto
  moreover have "task_list ?s k (A k)" if "k \<noteq> Sleeping" for k
  proof (rule link_sleeper_frame [OF _ that sl])
    show "task_list s k (A k)" using assms(1) by (simp add: task_lists_def)
    show "r \<notin> set (A k)" by (rule assms(3))
    show "set (A k) \<inter> set (us @ vs) = {}" using assms(1) that unfolding task_lists_def assms(2) [symmetric] by blast
    show "first_of vs None = None \<or> (\<exists>t\<in>set (us @ vs). first_of vs None = Some t)" by (cases vs) auto
  qed
  moreover have "set (us @ r # vs) \<inter> set (A k) = {}" if "k \<noteq> Sleeping" for k
  proof -
    have "set (us @ r # vs) = insert r (set (A Sleeping))" using assms(2) by simp
    then show ?thesis using assms(1) assms(3) [of k] that by (auto simp: task_lists_def)
  qed
  ultimately show ?thesis using assms(1) unfolding task_lists_def by auto
qed

section \<open>What the operations do\<close>

text \<open>Sleepers stand in the order of their alarm times.\<close>

definition by_alarm :: "sched \<Rightarrow> nat list \<Rightarrow> bool" where
  "by_alarm s ts \<longleftrightarrow> sorted (map (alarmtime s) ts)"

lemma sorted_cut:
  assumes "sorted (map f ts)" "\<And>x y. x \<le> y \<Longrightarrow> P y \<Longrightarrow> P x"
  shows "takeWhile (\<lambda>t. P (f t)) ts = filter (\<lambda>t. P (f t)) ts" "dropWhile (\<lambda>t. P (f t)) ts = filter (\<lambda>t. \<not> P (f t)) ts"
proof -
  have "takeWhile (\<lambda>t. P (f t)) ts = filter (\<lambda>t. P (f t)) ts \<and> dropWhile (\<lambda>t. P (f t)) ts = filter (\<lambda>t. \<not> P (f t)) ts"
    using assms(1)
  proof (induction ts)
    case (Cons t ts)
    show ?case
    proof (cases "P (f t)")
      case False
      then have "\<not> P (f u)" if "u \<in> set ts" for u using assms(2) Cons.prems that by auto
      with False show ?thesis by (auto simp: filter_empty_conv intro: filter_True [symmetric])
    qed (use Cons in auto)
  qed simp
  then show "takeWhile (\<lambda>t. P (f t)) ts = filter (\<lambda>t. P (f t)) ts" "dropWhile (\<lambda>t. P (f t)) ts = filter (\<lambda>t. \<not> P (f t)) ts"
    by simp_all
qed

lemma by_alarm_split:
  assumes "by_alarm s ts"
  shows "earlier s when ts = filter (\<lambda>t. alarmtime s t < when) ts" "later s when ts = filter (\<lambda>t. \<not> alarmtime s t < when) ts"
  using sorted_cut [of "alarmtime s" ts "\<lambda>x. x < when"] assms by (auto simp: by_alarm_def earlier_def later_def)

lemma earlier_later: "earlier s when ts @ later s when ts = ts"
  by (simp add: earlier_def later_def)

lemma by_alarm_insert:
  assumes "by_alarm s ts" "r \<notin> set ts" "alarmtime s' = (alarmtime s)(r := when)"
  shows "by_alarm s' (earlier s when ts @ r # later s when ts)"
proof -
  have "alarmtime s' t = alarmtime s t" if "t \<in> set ts" for t using that assms(2,3) by auto
  then have m: "map (alarmtime s') us = map (alarmtime s) us" if "set us \<subseteq> set ts" for us using that by auto
  have se: "set (earlier s when ts) \<subseteq> set ts" "set (later s when ts) \<subseteq> set ts"
    by (auto simp: earlier_def later_def dest: set_takeWhileD set_dropWhileD)
  show ?thesis
    using assms se unfolding by_alarm_def
    by (auto simp: m sorted_append by_alarm_split [OF assms(1)] sorted_filter by_alarm_def)
qed

text \<open>A task that sleeps is put in front of the first with no earlier alarm, and the scheduler goes on.\<close>

lemma link_sleeper_fields:
  "link_sleeper p r s = s\<lparr>t_next := t_next (link_sleeper p r s), t_prev := t_prev (link_sleeper p r s), tlists := tlists (link_sleeper p r s)\<rparr>"
  by (simp add: link_sleeper_def Let_def split: option.split)

lemma link_sleeper_keeps [simp]:
  "alarmtime (link_sleeper p r s) = alarmtime s"
  "t_id (link_sleeper p r s) = t_id s"
  "exiting (link_sleeper p r s) = exiting s"
  "alltaskslot (link_sleeper p r s) = alltaskslot s"
  "t_system (link_sleeper p r s) = t_system s"
  "t_ready (link_sleeper p r s) = t_ready s"
  "t_name (link_sleeper p r s) = t_name s"
  "t_state (link_sleeper p r s) = t_state s"
  "t_context (link_sleeper p r s) = t_context s"
  "taskcount (link_sleeper p r s) = taskcount s"
  "tasknswitch (link_sleeper p r s) = tasknswitch s"
  "taskexitval (link_sleeper p r s) = taskexitval s"
  "taskrunning (link_sleeper p r s) = taskrunning s"
  "alltask (link_sleeper p r s) = alltask s"
  "taskidgen (link_sleeper p r s) = taskidgen s"
  "sleepingcounted (link_sleeper p r s) = sleepingcounted s"
  "lock_owner (link_sleeper p r s) = lock_owner s"
  "readers (link_sleeper p r s) = readers s"
  "writer (link_sleeper p r s) = writer s"
  "rendez_lock (link_sleeper p r s) = rendez_lock s"
  by (subst link_sleeper_fields, simp)+

lemma count_sleeper_keeps [simp]:
  "t_next (count_sleeper r s) = t_next s"
  "t_prev (count_sleeper r s) = t_prev s"
  "tlists (count_sleeper r s) = tlists s"
  "alarmtime (count_sleeper r s) = alarmtime s"
  "t_id (count_sleeper r s) = t_id s"
  "exiting (count_sleeper r s) = exiting s"
  "alltaskslot (count_sleeper r s) = alltaskslot s"
  "t_system (count_sleeper r s) = t_system s"
  "t_ready (count_sleeper r s) = t_ready s"
  "t_name (count_sleeper r s) = t_name s"
  "t_state (count_sleeper r s) = t_state s"
  "t_context (count_sleeper r s) = t_context s"
  "tasknswitch (count_sleeper r s) = tasknswitch s"
  "taskexitval (count_sleeper r s) = taskexitval s"
  "taskrunning (count_sleeper r s) = taskrunning s"
  "alltask (count_sleeper r s) = alltask s"
  "taskidgen (count_sleeper r s) = taskidgen s"
  "lock_owner (count_sleeper r s) = lock_owner s"
  "readers (count_sleeper r s) = readers s"
  "writer (count_sleeper r s) = writer s"
  "rendez_lock (count_sleeper r s) = rendez_lock s"
  "task_lists (count_sleeper r s) A = task_lists s A"
  by (simp_all add: count_sleeper_def)

lemma uncount_sleeper_keeps [simp]:
  "t_next (uncount_sleeper r s) = t_next s"
  "t_prev (uncount_sleeper r s) = t_prev s"
  "tlists (uncount_sleeper r s) = tlists s"
  "alarmtime (uncount_sleeper r s) = alarmtime s"
  "t_id (uncount_sleeper r s) = t_id s"
  "exiting (uncount_sleeper r s) = exiting s"
  "alltaskslot (uncount_sleeper r s) = alltaskslot s"
  "t_system (uncount_sleeper r s) = t_system s"
  "t_ready (uncount_sleeper r s) = t_ready s"
  "t_name (uncount_sleeper r s) = t_name s"
  "t_state (uncount_sleeper r s) = t_state s"
  "t_context (uncount_sleeper r s) = t_context s"
  "tasknswitch (uncount_sleeper r s) = tasknswitch s"
  "taskexitval (uncount_sleeper r s) = taskexitval s"
  "taskrunning (uncount_sleeper r s) = taskrunning s"
  "alltask (uncount_sleeper r s) = alltask s"
  "taskidgen (uncount_sleeper r s) = taskidgen s"
  "lock_owner (uncount_sleeper r s) = lock_owner s"
  "readers (uncount_sleeper r s) = readers s"
  "writer (uncount_sleeper r s) = writer s"
  "rendez_lock (uncount_sleeper r s) = rendez_lock s"
  "task_lists (uncount_sleeper r s) A = task_lists s A"
  by (simp_all add: uncount_sleeper_def)

lemma taskdelay_inserts:
  assumes "task_lists s A" "taskrunning s = Some r" "\<And>k. r \<notin> set (A k)" "\<not> exiting s r"
  shows "\<exists>s1. taskdelay ms now s = Some (Inr s1) \<and>
     task_lists s1 (A(Sleeping := earlier s (now + ucast ms * 1000000) (A Sleeping) @ r # later s (now + ucast ms * 1000000) (A Sleeping))) \<and>
     s1 = (count_sleeper r s)\<lparr>t_next := t_next s1, t_prev := t_prev s1, tlists := tlists s1,
        alarmtime := (alarmtime s)(r := now + ucast ms * 1000000), t_context := (t_context s)(r := Res_delay now), taskrunning := None\<rparr>"
proof -
  let ?when = "now + ucast ms * 1000000 :: 64 word"
  let ?p = "first_of (later s ?when (A Sleeping)) None"
  let ?s1 = "link_sleeper ?p r s"
  let ?s2 = "count_sleeper r (?s1\<lparr>alarmtime := (alarmtime s)(r := ?when)\<rparr>)"
  have tl: "task_list s Sleeping (A Sleeping)" using assms(1) by (simp add: task_lists_def)
  then have "later_sleeper s ?when (list_head Sleeping s) = Some ?p"
    using later_sleeper_is [of s None "A Sleeping"] by (simp add: task_list_def list_head_def)
  moreover have "taskswitch (Res_delay now) ?s2 = Inr (?s2\<lparr>t_context := (t_context s)(r := Res_delay now), taskrunning := None\<rparr>)"
    using assms(2,4) taskswitch_stays [of ?s2 r] by simp
  moreover have "task_lists ?s1 (A(Sleeping := earlier s ?when (A Sleeping) @ r # later s ?when (A Sleeping)))"
    by (rule link_sleeper_lists [OF assms(1)]) (simp_all add: earlier_later assms(3))
  moreover have "?s1 = s\<lparr>t_next := t_next ?s1, t_prev := t_prev ?s1, tlists := tlists ?s1\<rparr>" by (rule link_sleeper_fields)
  ultimately show ?thesis
    using assms(2) by (auto simp: taskdelay_def with_running_def Let_def count_sleeper_def)
qed

text \<open>Waking up: those in front whose time has come, in their order, to the end of the ready queue.\<close>

definition due :: "sched \<Rightarrow> 64 word \<Rightarrow> nat list \<Rightarrow> nat list" where
  "due s now ts = takeWhile (\<lambda>t. alarmtime s t \<le> now) ts"

definition not_due :: "sched \<Rightarrow> 64 word \<Rightarrow> nat list \<Rightarrow> nat list" where
  "not_due s now ts = dropWhile (\<lambda>t. alarmtime s t \<le> now) ts"

lemma by_alarm_due:
  assumes "by_alarm s ts"
  shows "due s now ts = filter (\<lambda>t. alarmtime s t \<le> now) ts" "not_due s now ts = filter (\<lambda>t. \<not> alarmtime s t \<le> now) ts"
  using sorted_cut [of "alarmtime s" ts "\<lambda>x. x \<le> now"] assms by (auto simp: by_alarm_def due_def not_due_def)

definition counted :: "sched \<Rightarrow> nat list \<Rightarrow> int" where
  "counted s ts = int (length (filter (\<lambda>t. \<not> t_system s t) ts))"

lemma counted_nonneg [simp]: "0 \<le> counted s ts"
  by (simp add: counted_def)

lemma counted_cong: "(\<And>t. t \<in> set ts \<Longrightarrow> t_system s' t = t_system s t) \<Longrightarrow> counted s' ts = counted s ts"
  by (auto simp: counted_def intro: arg_cong [where f = length] filter_cong)

lemma wake_sleepers_wakes:
  assumes "task_lists s A" "sleepingcounted s = counted s (A Sleeping)"
  shows "\<exists>s1. wake_sleepers now s = Some s1 \<and>
     task_lists s1 (A(Sleeping := not_due s now (A Sleeping), Taskrunqueue := A Taskrunqueue @ due s now (A Sleeping))) \<and>
     s1 = s\<lparr>t_next := t_next s1, t_prev := t_prev s1, tlists := tlists s1,
        t_ready := (\<lambda>t. t \<in> set (due s now (A Sleeping)) \<or> t_ready s t),
        sleepingcounted := counted s (not_due s now (A Sleeping)),
        taskcount := taskcount s - (if sleepingcounted s > 0 \<and> counted s (not_due s now (A Sleeping)) = 0 then 1 else 0)\<rparr>"
  using assms
proof (induction "A Sleeping" arbitrary: s A)
  case Nil
  have h: "list_head Sleeping s = None" using Nil(2) by (simp add: tq.rep_front flip: Nil(1))
  have w: "wake_sleepers now s = Some s" by (subst wake_sleepers.simps) (simp add: h)
  have e: "due s now (A Sleeping) = []" "not_due s now (A Sleeping) = []" "sleepingcounted s = 0" "counted s [] = 0"
    using Nil(3) by (simp_all add: due_def not_due_def counted_def flip: Nil(1))
  have "s = s\<lparr>t_next := t_next s, t_prev := t_prev s, tlists := tlists s, t_ready := (\<lambda>t. t \<in> set [] \<or> t_ready s t),
      sleepingcounted := 0, taskcount := taskcount s\<rparr>"
    using e by (intro sched.equality) simp_all
  with w Nil(2) show ?case unfolding e by (intro exI [of _ s]) (simp add: fun_upd_idem Nil(1) [symmetric] e)
next
  case (Cons t ts)
  have hd: "list_head Sleeping s = Some t" using Cons.prems(1) Cons.hyps(2) by (simp add: tq.rep_front flip: Cons.hyps(2))
  show ?case
  proof (cases "alarmtime s t \<le> now")
    case False
    then have e: "due s now (A Sleeping) = []" "not_due s now (A Sleeping) = A Sleeping"
      by (simp_all add: due_def not_due_def flip: Cons.hyps(2))
    from False hd have "wake_sleepers now s = Some s" by (subst wake_sleepers.simps) simp
    moreover have "s = s\<lparr>t_next := t_next s, t_prev := t_prev s, tlists := tlists s, t_ready := (\<lambda>t. t \<in> set [] \<or> t_ready s t),
        sleepingcounted := counted s (A Sleeping), taskcount := taskcount s - (if sleepingcounted s > 0 \<and> counted s (A Sleeping) = 0 then 1 else 0)\<rparr>"
      using Cons.prems(2) by (intro sched.equality) simp_all
    ultimately show ?thesis using Cons.prems(1) unfolding e by (intro exI [of _ s]) (simp add: fun_upd_idem)
  next
    case True
    let ?u = "uncount_sleeper t (deltask Sleeping t s)"
    let ?s = "taskready t ?u" and ?A = "A(Sleeping := ts, Taskrunqueue := A Taskrunqueue @ [t])"
    have p: "task_lists (deltask Sleeping t s) (A(Sleeping := ts))" "\<forall>k. t \<notin> set ((A(Sleeping := ts)) k)"
      using tq.pop [OF Cons.prems(1) hd] unfolding Cons.hyps(2) [symmetric] by blast+
    then have p: "task_lists ?u (A(Sleeping := ts))" "\<forall>k. t \<notin> set ((A(Sleeping := ts)) k)" by simp_all
    have l: "task_lists ?s ?A" using taskready_lists [OF p(1), of t] p(2) by auto
    have c: "sleepingcounted ?s = counted ?s (?A Sleeping)"
      using Cons.prems(2) by (simp add: uncount_sleeper_def counted_def flip: Cons.hyps(2))
    have q: "?A Sleeping = ts" by simp
    from Cons.hyps(1) [OF q [symmetric] l c, unfolded q] obtain s1 where
      s1: "wake_sleepers now ?s = Some s1"
        "task_lists s1 (?A(Sleeping := not_due ?s now ts, Taskrunqueue := ?A Taskrunqueue @ due ?s now ts))"
        "s1 = ?s\<lparr>t_next := t_next s1, t_prev := t_prev s1, tlists := tlists s1,
          t_ready := (\<lambda>u. u \<in> set (due ?s now ts) \<or> t_ready ?s u),
          sleepingcounted := counted ?s (not_due ?s now ts),
          taskcount := taskcount ?s - (if sleepingcounted ?s > 0 \<and> counted ?s (not_due ?s now ts) = 0 then 1 else 0)\<rparr>"
      by blast
    have w: "wake_sleepers now s = Some s1" using s1(1) hd True by (subst wake_sleepers.simps) simp
    have d: "due ?s now ts = due s now ts" "not_due ?s now ts = not_due s now ts" "counted ?s us = counted s us" for us
      by (simp_all add: due_def not_due_def counted_def)
    have e: "due s now (A Sleeping) = t # due s now ts" "not_due s now (A Sleeping) = not_due s now ts"
      using True by (simp_all add: due_def not_due_def flip: Cons.hyps(2))
    have le: "0 \<le> counted s ts" by simp
    note s1' = s1(3) [unfolded d]
    have g: "t_ready s1 = (\<lambda>u. u \<in> set (due s now ts) \<or> t_ready ?s u)" by (subst s1') simp
    have f1: "t_ready s1 = (\<lambda>u. u \<in> set (t # due s now ts) \<or> t_ready s u)" unfolding g by auto
    have f2: "sleepingcounted s1 = counted s (not_due s now ts)" by (subst s1') simp
    have g: "taskcount s1 = taskcount ?u - (if sleepingcounted ?u > 0 \<and> counted s (not_due s now ts) = 0 then 1 else 0)"
      by (subst s1') simp
    have "counted s (not_due s now ts) \<le> counted s ts"
      unfolding counted_def not_due_def by (metis (no_types) filter_append le_add2 length_append of_nat_le_iff takeWhile_dropWhile_id)
    moreover have "counted s (t # ts) = counted s ts + (if t_system s t then 0 else 1)" by (simp add: counted_def)
    moreover have "0 \<le> counted s ts" "0 \<le> counted s (not_due s now ts)" by simp_all
    moreover have "sleepingcounted s = counted s (t # ts)" using Cons.prems(2) by (simp flip: Cons.hyps(2))
    ultimately have f3: "taskcount s1 = taskcount s - (if sleepingcounted s > 0 \<and> counted s (not_due s now ts) = 0 then 1 else 0)"
      unfolding g by (cases "t_system s t"; cases "counted s ts = 0") (simp_all add: uncount_sleeper_def)
    note f = f1 f2 f3
    have "s1 = s\<lparr>t_next := t_next s1, t_prev := t_prev s1, tlists := tlists s1, t_ready := t_ready s1,
        sleepingcounted := sleepingcounted s1, taskcount := taskcount s1\<rparr>"
      by (intro sched.equality) ((subst s1(3))?, simp)+
    note k = this [unfolded f]
    have "task_lists s1 (A(Sleeping := not_due s now ts, Taskrunqueue := A Taskrunqueue @ t # due s now ts))"
      using s1(2) by (simp add: d fun_upd_twist)
    with w k show ?thesis unfolding e by (intro exI [of _ s1] conjI) simp_all
  qed
qed

section \<open>How long the poller may wait\<close>

text \<open>The time to the first alarm in milliseconds, when it fits in an \<^verbatim>\<open>int\<close>.\<close>

definition ms_left :: "64 word \<Rightarrow> sched \<Rightarrow> nat \<Rightarrow> int" where
  "ms_left now s t = (if alarmtime s t \<le> now then 0 else uint (alarmtime s t - now) div 1000000)"

lemma next_task_sleeptime_none:
  assumes "1 < mn" "list_head Sleeping s = None"
  shows "next_task_sleeptime mn now s = mn"
  using assms by (simp add: next_task_sleeptime_def smod_int_alt_def)

lemma next_task_sleeptime_some:
  assumes "0 < mn" "list_head Sleeping s = Some t" "ms_left now s t < 2 ^ 31"
  shows "next_task_sleeptime mn now s = (if ms_left now s t < mn then mn else ms_left now s t - ms_left now s t mod mn)"
proof -
  let ?m = "ms_left now s t"
  have nn: "0 \<le> ?m" by (simp add: ms_left_def pos_imp_zdiv_nonneg_iff)
  have v: "(if now \<ge> alarmtime s t then 0 else to_int32 (uint ((alarmtime s t - now) div 1000000))) = ?m"
    using assms(3) nn by (simp add: ms_left_def to_int32_def uint_div split: if_splits)
  have r: "?m smod mn = ?m mod mn" using nn assms(1) by (simp add: smod_int_alt_def sgn_if)
  have "next_task_sleeptime mn now s = (if ?m - ?m mod mn = 0 then mn else ?m - ?m mod mn)"
    using assms(2) v unfolding next_task_sleeptime_def Let_def by (simp add: r)
  moreover have "?m < mn \<Longrightarrow> ?m mod mn = ?m" using nn by simp
  moreover have "\<not> ?m < mn \<Longrightarrow> ?m - ?m mod mn \<noteq> 0" using assms(1) pos_mod_bound [of mn ?m] by linarith
  ultimately show ?thesis by simp
qed

end
