(* ===== verification/AdtList.thy ===== *)
theory AdtList
  imports Linked
begin

text \<open>
  \<^verbatim>\<open>adt/list.c\<close>, the linked lists of the poller: circular lists around a sentinel, the \<^verbatim>\<open>nilnode\<close>, which is the
  first member of \<^verbatim>\<open>list_t\<close> and so has the list's address.  The fields of nodes and lists are functions of their
  addresses.  Walks that need not end are in \<open>option\<close>.
\<close>

section \<open>Nodes and lists\<close>

record 'd list_store =
  l_next :: "nat \<Rightarrow> nat option"
  l_prev :: "nat \<Rightarrow> nat option"
  l_data :: "nat \<Rightarrow> 'd"
  list_nodecount :: "nat \<Rightarrow> nat"
  list_maxcount :: "nat \<Rightarrow> nat"

text \<open>A step that can fault, behind a walk that need not end.\<close>

fun walk_bind :: "'a cres option \<Rightarrow> ('a \<Rightarrow> 'b cres option) \<Rightarrow> 'b cres option" where
  "walk_bind None f = None"
| "walk_bind (Some (Inl e)) f = Some (Inl e)"
| "walk_bind (Some (Inr a)) f = f a"

definition list_init :: "nat \<Rightarrow> nat \<Rightarrow> 'd list_store \<Rightarrow> 'd list_store cres" where
  "list_init l maxcount h =
     (if maxcount = 0 then Inl Assert_fail
      else Inr (h\<lparr>l_next := (l_next h)(l := Some l), l_prev := (l_prev h)(l := Some l),
                 list_nodecount := (list_nodecount h)(l := 0), list_maxcount := (list_maxcount h)(l := maxcount)\<rparr>))"

text \<open>\<open>addr\<close>: what \<^verbatim>\<open>malloc\<close> answers.\<close>

definition list_create :: "nat option \<Rightarrow> nat \<Rightarrow> 'd list_store \<Rightarrow> (nat option \<times> 'd list_store) cres" where
  "list_create addr maxcount h =
     (case addr of None \<Rightarrow> Inr (None, h) | Some l \<Rightarrow> cbind (list_init l maxcount h) (\<lambda>h. Inr (Some l, h)))"

definition lnode_create :: "nat option \<Rightarrow> 'd \<Rightarrow> 'd list_store \<Rightarrow> nat option \<times> 'd list_store" where
  "lnode_create addr d h =
     (case addr of
        None \<Rightarrow> (None, h)
      | Some n \<Rightarrow> (Some n, h\<lparr>l_data := (l_data h)(n := d), l_next := (l_next h)(n := None), l_prev := (l_prev h)(n := None)\<rparr>))"

definition lnode_get :: "'d list_store \<Rightarrow> nat \<Rightarrow> 'd" where
  "lnode_get h n = l_data h n"

definition lnode_is_in_a_list :: "'d list_store \<Rightarrow> nat \<Rightarrow> bool" where
  "lnode_is_in_a_list h n \<longleftrightarrow> l_next h n \<noteq> None \<or> l_prev h n \<noteq> None"

definition list_count :: "'d list_store \<Rightarrow> nat \<Rightarrow> nat" where
  "list_count h l = list_nodecount h l"

definition list_isempty :: "'d list_store \<Rightarrow> nat \<Rightarrow> bool" where
  "list_isempty h l \<longleftrightarrow> list_nodecount h l = 0"

definition list_isfull :: "'d list_store \<Rightarrow> nat \<Rightarrow> bool" where
  "list_isfull h l \<longleftrightarrow> list_nodecount h l = list_maxcount h l"

definition list_first :: "'d list_store \<Rightarrow> nat \<Rightarrow> nat option" where
  "list_first h l = (if l_next h l = Some l then None else l_next h l)"

definition list_last :: "'d list_store \<Rightarrow> nat \<Rightarrow> nat option" where
  "list_last h l = (if l_prev h l = Some l then None else l_prev h l)"

section \<open>Walking\<close>

partial_function (option) contains_from :: "'d list_store \<Rightarrow> nat \<Rightarrow> nat \<Rightarrow> nat option \<Rightarrow> bool cres option" where
  "contains_from h l node n =
     (case n of
        None \<Rightarrow> Some (Inl Null_deref)
      | Some m \<Rightarrow> if m = l then Some (Inr False) else if node = m then Some (Inr True) else contains_from h l node (l_next h m))"

definition list_contains :: "'d list_store \<Rightarrow> nat \<Rightarrow> nat \<Rightarrow> bool cres option" where
  "list_contains h l node = contains_from h l node (l_next h l)"

partial_function (option) verify_from :: "'d list_store \<Rightarrow> nat \<Rightarrow> nat \<Rightarrow> nat option \<Rightarrow> bool cres option" where
  "verify_from h l count node =
     (case node of
        None \<Rightarrow> Some (Inl Null_deref)
      | Some n \<Rightarrow>
          if n = l then Some (Inr (count = 0))
          else if count = 0 then Some (Inr False)
          else (case l_next h n of
             None \<Rightarrow> Some (Inl Null_deref)
           | Some m \<Rightarrow> if l_prev h m \<noteq> Some n then Some (Inr False) else verify_from h l (count - 1) (Some m)))"

definition list_verify :: "'d list_store \<Rightarrow> nat \<Rightarrow> bool cres option" where
  "list_verify h l =
     (case l_next h l of
        None \<Rightarrow> Some (Inl Null_deref)
      | Some n \<Rightarrow>
          if l_prev h n \<noteq> Some l then Some (Inr False)
          else if list_nodecount h l > list_maxcount h l then Some (Inr False)
          else verify_from h l (list_nodecount h l) (Some n))"

section \<open>Insertion and deletion\<close>

text \<open>The assertions in front of an insertion of \<open>n\<close> next to \<open>this\<close>.\<close>

definition may_insert :: "nat \<Rightarrow> nat \<Rightarrow> nat \<Rightarrow> 'd list_store \<Rightarrow> bool cres option" where
  "may_insert l n this h =
     walk_bind (list_contains h l n) (\<lambda>c.
       if c \<or> lnode_is_in_a_list h n then Some (Inr False)
       else walk_bind (if this = l then Some (Inr True) else list_contains h l this) (\<lambda>c.
         Some (Inr (c \<and> list_nodecount h l + 1 < 2 ^ 64))))"

definition list_ins_after :: "nat \<Rightarrow> nat \<Rightarrow> nat \<Rightarrow> 'd list_store \<Rightarrow> 'd list_store cres option" where
  "list_ins_after l n this h =
     walk_bind (may_insert l n this h) (\<lambda>ok.
       if \<not> ok then Some (Inl Assert_fail)
       else (case l_next h this of
          None \<Rightarrow> Some (Inl Null_deref)
        | Some that \<Rightarrow>
            let h1 = h\<lparr>l_prev := (l_prev h)(n := Some this, that := Some n), l_next := (l_next h)(n := Some that, this := Some n),
                       list_nodecount := (list_nodecount h)(l := list_nodecount h l + 1)\<rparr> in
            if list_nodecount h1 l \<le> list_maxcount h1 l then Some (Inr h1) else Some (Inl Assert_fail)))"

definition list_ins_before :: "nat \<Rightarrow> nat \<Rightarrow> nat \<Rightarrow> 'd list_store \<Rightarrow> 'd list_store cres option" where
  "list_ins_before l n this h =
     walk_bind (may_insert l n this h) (\<lambda>ok.
       if \<not> ok then Some (Inl Assert_fail)
       else (case l_prev h this of
          None \<Rightarrow> Some (Inl Null_deref)
        | Some that \<Rightarrow>
            let h1 = h\<lparr>l_next := (l_next h)(n := Some this, that := Some n), l_prev := (l_prev h)(n := Some that, this := Some n),
                       list_nodecount := (list_nodecount h)(l := list_nodecount h l + 1)\<rparr> in
            if list_nodecount h1 l \<le> list_maxcount h1 l then Some (Inr h1) else Some (Inl Assert_fail)))"

definition list_append :: "nat \<Rightarrow> nat \<Rightarrow> 'd list_store \<Rightarrow> 'd list_store cres option" where
  "list_append l n h = list_ins_before l n l h"

definition list_prepend :: "nat \<Rightarrow> nat \<Rightarrow> 'd list_store \<Rightarrow> 'd list_store cres option" where
  "list_prepend l n h = list_ins_after l n l h"

definition list_delete :: "nat \<Rightarrow> nat \<Rightarrow> 'd list_store \<Rightarrow> (nat \<times> 'd list_store) cres option" where
  "list_delete l n h =
     walk_bind (list_contains h l n) (\<lambda>c.
       if \<not> c then Some (Inl Assert_fail)
       else (case (l_prev h n, l_next h n) of
          (Some p, Some q) \<Rightarrow>
            let nx = (l_next h)(p := Some q); pv = (l_prev h)(q := Some p) in
            Some (Inr (n, h\<lparr>l_next := nx(n := None), l_prev := pv(n := None),
              list_nodecount := (list_nodecount h)(l := list_nodecount h l - 1)\<rparr>))
        | _ \<Rightarrow> Some (Inl Null_deref)))"

text \<open>The macros: deleting from an empty list reads through a null pointer.\<close>

definition list_del_first :: "nat \<Rightarrow> 'd list_store \<Rightarrow> (nat \<times> 'd list_store) cres option" where
  "list_del_first l h = (case list_first h l of None \<Rightarrow> Some (Inl Null_deref) | Some n \<Rightarrow> list_delete l n h)"

definition list_del_last :: "nat \<Rightarrow> 'd list_store \<Rightarrow> (nat \<times> 'd list_store) cres option" where
  "list_del_last l h = (case list_last h l of None \<Rightarrow> Some (Inl Null_deref) | Some n \<Rightarrow> list_delete l n h)"

section \<open>What a list holds\<close>

definition adt_list :: "'d list_store \<Rightarrow> nat \<Rightarrow> nat list \<Rightarrow> bool" where
  "adt_list h l xs \<longleftrightarrow> distinct xs \<and> l \<notin> set xs \<and> linked (l_next h) (l_prev h) (Some l) xs (Some l) \<and>
     l_next h l = first_of xs (Some l) \<and> l_prev h l = last_of (Some l) xs \<and>
     list_nodecount h l = length xs \<and> length xs \<le> list_maxcount h l"

lemma contains_from_iff:
  "linked (l_next h) (l_prev h) b xs (Some l) \<Longrightarrow> l \<notin> set xs \<Longrightarrow>
   contains_from h l n (first_of xs (Some l)) = Some (Inr (n \<in> set xs))"
proof (induction xs arbitrary: b)
  case Nil
  then show ?case by (subst contains_from.simps) simp
next
  case (Cons x xs)
  then show ?case by (subst contains_from.simps) auto
qed

lemma list_contains_iff: "adt_list h l xs \<Longrightarrow> list_contains h l n = Some (Inr (n \<in> set xs))"
  by (auto simp: adt_list_def list_contains_def intro: contains_from_iff)

lemma verify_from_holds:
  "linked (l_next h) (l_prev h) b xs (Some l) \<Longrightarrow> l_prev h l = last_of b xs \<Longrightarrow> l \<notin> set xs \<Longrightarrow>
   verify_from h l (length xs) (first_of xs (Some l)) = Some (Inr True)"
proof (induction xs arbitrary: b)
  case Nil
  then show ?case by (subst verify_from.simps) simp
next
  case (Cons x xs)
  from Cons.prems have "l_next h x = first_of xs (Some l)" by simp
  moreover have "l_prev h y = Some x" if "first_of xs (Some l) = Some y" for y
    using Cons.prems that by (cases xs) auto
  moreover obtain y where "first_of xs (Some l) = Some y" by (cases xs) auto
  ultimately show ?case using Cons.IH [of "Some x"] Cons.prems by (subst verify_from.simps) auto
qed

lemma list_verify_holds: "adt_list h l xs \<Longrightarrow> list_verify h l = Some (Inr True)"
proof -
  assume a: "adt_list h l xs"
  obtain y where y: "first_of xs (Some l) = Some y" by (cases xs) auto
  have "l_prev h y = Some l" using a y by (cases xs) (auto simp: adt_list_def)
  then show ?thesis using a y verify_from_holds [of h "Some l" xs l] by (auto simp: adt_list_def list_verify_def)
qed

section \<open>What the operations do to it\<close>

text \<open>Everything that is neither in the list nor the node of the operation stays as it is.\<close>

definition adt_frame :: "'d list_store \<Rightarrow> 'd list_store \<Rightarrow> nat \<Rightarrow> nat set \<Rightarrow> bool" where
  "adt_frame h h' l S \<longleftrightarrow> (\<forall>x. x \<noteq> l \<longrightarrow> x \<notin> S \<longrightarrow> l_next h' x = l_next h x \<and> l_prev h' x = l_prev h x) \<and>
     (\<forall>k. k \<noteq> l \<longrightarrow> list_nodecount h' k = list_nodecount h k) \<and> l_data h' = l_data h \<and> list_maxcount h' = list_maxcount h"

lemma adt_frame_list:
  assumes "adt_frame h h' l S" "adt_list h k ys" "k \<noteq> l" "l \<notin> set ys" "k \<notin> S" "set ys \<inter> S = {}"
  shows "adt_list h' k ys"
proof -
  have "linked (l_next h') (l_prev h') (Some k) ys (Some k) = linked (l_next h) (l_prev h) (Some k) ys (Some k)"
    using assms by (intro linked_cong) (auto simp: adt_frame_def)
  then show ?thesis using assms by (simp add: adt_frame_def adt_list_def)
qed

definition free_node :: "'d list_store \<Rightarrow> nat \<Rightarrow> bool" where
  "free_node h n \<longleftrightarrow> l_next h n = None \<and> l_prev h n = None"

lemma free_node_fresh:
  assumes "adt_list h l xs" "free_node h n"
  shows "n \<noteq> l" "n \<notin> set xs"
proof -
  show "n \<noteq> l" using assms by (cases xs) (auto simp: adt_list_def free_node_def)
  show "n \<notin> set xs"
  proof
    assume "n \<in> set xs"
    then obtain us vs where "xs = us @ n # vs" by (meson split_list)
    with assms show False by (cases vs) (auto simp: adt_list_def free_node_def linked_append)
  qed
qed

lemma may_insert_holds:
  assumes "adt_list h l xs" "free_node h n" "this = l \<or> this \<in> set xs" "length xs + 1 < 2 ^ 64"
  shows "may_insert l n this h = Some (Inr True)"
  using assms free_node_fresh [OF assms(1,2)]
  by (auto simp: may_insert_def list_contains_iff free_node_def lnode_is_in_a_list_def adt_list_def)

lemma list_ins_before_holds:
  assumes "adt_list h l (us @ vs)" "free_node h n" "this = hd (vs @ [l])" "length (us @ vs) < list_maxcount h l"
    "length (us @ vs) + 1 < 2 ^ 64"
  shows "\<exists>h'. list_ins_before l n this h = Some (Inr h') \<and> adt_list h' l (us @ n # vs) \<and>
     adt_frame h h' l (insert n (set (us @ vs)))"
proof -
  let ?q = "last (l # us)"
  have n: "n \<noteq> l" "n \<notin> set us" "n \<notin> set vs" using free_node_fresh [OF assms(1,2)] by auto
  have pv: "l_prev h this = Some ?q" using assms(1,3) by (cases vs) (auto simp: adt_list_def linked_append last_of_Some)
  have m: "may_insert l n this h = Some (Inr True)"
    using assms by (intro may_insert_holds [OF assms(1,2)]) (cases vs; auto)+
  let ?h = "h\<lparr>l_next := (l_next h)(n := Some this, ?q := Some n), l_prev := (l_prev h)(n := Some ?q, this := Some n),
     list_nodecount := (list_nodecount h)(l := list_nodecount h l + 1)\<rparr>"
  have "list_ins_before l n this h = Some (Inr ?h)"
    using m pv assms(1,4) by (simp add: list_ins_before_def adt_list_def)
  moreover have "adt_list ?h l (us @ n # vs)"
    using assms(1,3,4) n by (cases us rule: rev_cases; cases vs) (auto simp: adt_list_def linked_append last_of_Some)
  moreover have "adt_frame h ?h l (insert n (set (us @ vs)))"
    using assms(3) by (cases us rule: rev_cases; cases vs) (auto simp: adt_frame_def)
  ultimately show ?thesis by blast
qed

lemma list_append_holds:
  assumes "adt_list h l xs" "free_node h n" "length xs < list_maxcount h l" "length xs + 1 < 2 ^ 64"
  shows "\<exists>h'. list_append l n h = Some (Inr h') \<and> adt_list h' l (xs @ [n]) \<and> adt_frame h h' l (insert n (set xs))"
  using list_ins_before_holds [of h l xs "[]" n l] assms by (simp add: list_append_def)

lemma list_delete_holds:
  assumes "adt_list h l xs" "n \<in> set xs"
  shows "\<exists>h'. list_delete l n h = Some (Inr (n, h')) \<and> adt_list h' l (remove1 n xs) \<and> free_node h' n \<and>
     adt_frame h h' l (set xs)"
proof -
  have d: "distinct xs" using assms(1) by (simp add: adt_list_def)
  obtain us vs where u: "xs = us @ n # vs" "n \<notin> set us" "n \<notin> set vs" "distinct us" "distinct vs" "set us \<inter> set vs = {}"
    "remove1 n xs = us @ vs" by (rule distinct_split [OF assms(2) d])
  let ?p = "last (l # us)" and ?q = "hd (vs @ [l])"
  have nb: "l_prev h n = Some ?p" "l_next h n = Some ?q"
    using assms(1) u(1) by (auto simp: adt_list_def linked_append last_of_Some first_of_cases)
  let ?h = "h\<lparr>l_next := ((l_next h)(?p := Some ?q))(n := None), l_prev := ((l_prev h)(?q := Some ?p))(n := None),
     list_nodecount := (list_nodecount h)(l := list_nodecount h l - 1)\<rparr>"
  have "list_delete l n h = Some (Inr (n, ?h))"
    using assms nb by (simp add: list_delete_def list_contains_iff)
  moreover have "adt_list ?h l (us @ vs)"
    using assms(1) u(1-6) by (cases us rule: rev_cases; cases vs) (auto simp: adt_list_def linked_append last_of_Some)
  moreover have "free_node ?h n" by (simp add: free_node_def)
  moreover have "adt_frame h ?h l (set xs)"
    unfolding u(1) by (cases us rule: rev_cases; cases vs) (auto simp: adt_frame_def)
  ultimately show ?thesis using u(7) by metis
qed

lemma list_del_last_holds:
  assumes "adt_list h l xs" "xs \<noteq> []"
  shows "\<exists>h'. list_del_last l h = Some (Inr (last xs, h')) \<and> adt_list h' l (butlast xs) \<and> free_node h' (last xs) \<and>
     adt_frame h h' l (set xs)"
proof -
  obtain us x where u: "xs = us @ [x]" using assms(2) by (cases xs rule: rev_cases) auto
  have "list_last h l = Some x" using assms(1) u by (auto simp: list_last_def adt_list_def)
  moreover have "remove1 x xs = us" using assms(1) u by (auto simp: adt_list_def remove1_append)
  ultimately show ?thesis using list_delete_holds [OF assms(1), of x] u by (simp add: list_del_last_def)
qed

lemma list_init_holds:
  assumes "0 < m"
  shows "\<exists>h'. list_init l m h = Inr h' \<and> adt_list h' l [] \<and> adt_frame (h\<lparr>list_maxcount := (list_maxcount h)(l := m)\<rparr>) h' l {}"
  using assms by (simp add: list_init_def adt_list_def adt_frame_def)

text \<open>Moving a node from one list to the end of another.\<close>

lemma move_node:
  assumes "adt_list h l xs" "adt_list h k ys" "l \<noteq> k" "l \<notin> set ys" "k \<notin> set xs" "set xs \<inter> set ys = {}" "n \<in> set xs"
    "length ys < list_maxcount h k" "length ys + 1 < 2 ^ 64"
  shows "\<exists>h1 h2. list_delete l n h = Some (Inr (n, h1)) \<and> list_append k n h1 = Some (Inr h2) \<and>
     adt_list h2 l (remove1 n xs) \<and> adt_list h2 k (ys @ [n]) \<and> l_data h2 = l_data h \<and> list_maxcount h2 = list_maxcount h"
proof -
  from list_delete_holds [OF assms(1,7)] obtain h1 where
    h1: "list_delete l n h = Some (Inr (n, h1))" "adt_list h1 l (remove1 n xs)" "free_node h1 n" "adt_frame h h1 l (set xs)" by blast
  have k1: "adt_list h1 k ys" using adt_frame_list [OF h1(4) assms(2)] assms(3-6) by auto
  have "list_maxcount h1 = list_maxcount h" "l_data h1 = l_data h" using h1(4) by (simp_all add: adt_frame_def)
  moreover from list_append_holds [OF k1 h1(3)] assms(8,9) this obtain h2 where
    h2: "list_append k n h1 = Some (Inr h2)" "adt_list h2 k (ys @ [n])" "adt_frame h1 h2 k (insert n (set ys))" by auto
  moreover have "adt_list h2 l (remove1 n xs)"
  proof (rule adt_frame_list [OF h2(3) h1(2) assms(3)])
    have d: "distinct xs" using assms(1) by (simp add: adt_list_def)
    show "k \<notin> set (remove1 n xs)" using assms(5) by (auto dest: notin_set_remove1 [rotated])
    show "l \<notin> insert n (set ys)" using assms(1,4,7) by (auto simp: adt_list_def)
    show "set (remove1 n xs) \<inter> insert n (set ys) = {}" using assms(6) d by auto
  qed
  ultimately show ?thesis using h1(1) by (auto simp: adt_frame_def)
qed

lemma list_del_last_is: "adt_list h l xs \<Longrightarrow> xs \<noteq> [] \<Longrightarrow> list_del_last l h = list_delete l (last xs) h"
  by (auto simp: list_del_last_def list_last_def adt_list_def last_of_Some)

end
