(* ===== verification/Poller.thy ===== *)
theory Poller
  imports AdtList "HOL-Library.Multiset"
begin

text \<open>
  \<^verbatim>\<open>superpoll.c\<close> as built on Linux (\<^verbatim>\<open>HAS_EPOLL\<close> is 1): an array for \<^verbatim>\<open>zmq_poll\<close>, the hot set, one of whose entries is
  the descriptor of an epoll, the idle set.  Idle slots wander between two lists of \<open>AdtList\<close>.  What the kernel and ZeroMQ
  answer is an argument: the \<open>revents\<close> of the array, the events of \<^verbatim>\<open>epoll_wait\<close>, the results of \<^verbatim>\<open>epoll_ctl\<close>.
\<close>

unbundle bit_operations_syntax

section \<open>The state\<close>

record pollitem =
  p_socket :: "nat option"
  p_fd :: int
  p_events :: nat
  p_revents :: nat

text \<open>\<^verbatim>\<open>data\<close> is a task or null; an \<^verbatim>\<open>IdleData\<close> is named by its index in \<^verbatim>\<open>idle_data\<close>.\<close>

record IdleData =
  i_fd :: int
  i_data :: "nat option"

record superpoll =
  pollfd :: "pollitem list"
  hot_data :: "nat option list"
  nfd_hot :: nat
  max_hot :: nat
  idle_fd :: int
  max_idle :: nat
  idle_data :: "IdleData list"
  idle_active :: nat
  idle_free :: nat
  lists :: "nat list_store"

record PollResult =
  hot_fds :: int
  idle_fds :: int
  hits :: "(pollitem \<times> nat option) list"
  hits_size :: nat

definition ZMQ_POLLIN :: nat where "ZMQ_POLLIN = 1"
definition ZMQ_POLLOUT :: nat where "ZMQ_POLLOUT = 2"
definition EPOLLIN :: nat where "EPOLLIN = 1"
definition EPOLLOUT :: nat where "EPOLLOUT = 4"

section \<open>Adding\<close>

definition SuperPoll_add_poll ::
    "superpoll \<Rightarrow> nat option \<Rightarrow> nat option \<Rightarrow> int \<Rightarrow> char \<Rightarrow> (int \<times> superpoll) cres" where
  "SuperPoll_add_poll sp data socket fd rw =
     (let cur = nfd_hot sp; bits = (if rw = CHR ''r'' then ZMQ_POLLIN else ZMQ_POLLOUT) in
      if \<not> cur < max_hot sp then Inr (-1, sp)
      else if rw \<noteq> CHR ''r'' \<and> rw \<noteq> CHR ''w'' then Inr (-1, sp)
      else if \<not> (cur < length (pollfd sp) \<and> cur < length (hot_data sp)) then Inl Out_of_bounds
      else Inr (int cur + 1, sp\<lparr>
        pollfd := (pollfd sp)[cur := \<lparr>p_socket = socket, p_fd = fd, p_events = bits, p_revents = 0\<rparr>],
        hot_data := (hot_data sp)[cur := data], nfd_hot := cur + 1\<rparr>))"

text \<open>What the two calls of \<^verbatim>\<open>epoll_ctl\<close> answer for a descriptor that is to be added.\<close>

datatype ctl_answer = Ctl_added | Ctl_modified | Ctl_not_modified | Ctl_failed

text \<open>Behind a successful \<^verbatim>\<open>EPOLL_CTL_MOD\<close> the code runs into the error branch.\<close>

definition SuperPoll_add_idle ::
    "superpoll \<Rightarrow> nat option \<Rightarrow> int \<Rightarrow> char \<Rightarrow> ctl_answer \<Rightarrow> (int \<times> superpoll) cres option" where
  "SuperPoll_add_idle sp data fd rw ctl =
     (if list_isempty (lists sp) (idle_free sp) then Some (Inr (-1, sp))
      else walk_bind (list_del_last (idle_free sp) (lists sp)) (\<lambda>(n, ls).
        let sp = sp\<lparr>lists := ls\<rparr>; i = lnode_get ls n in
        if \<not> i < length (idle_data sp) then Some (Inl Out_of_bounds)
        else (let sp = sp\<lparr>idle_data := (idle_data sp)[i := \<lparr>i_fd = fd, i_data = data\<rparr>]\<rparr> in
          walk_bind (list_append (idle_active sp) n (lists sp)) (\<lambda>ls.
            let sp = sp\<lparr>lists := ls\<rparr> in
            if rw \<noteq> CHR ''r'' \<and> rw \<noteq> CHR ''w'' then Some (Inr (-1, sp))
            else Some (Inr (if ctl = Ctl_added then 1 else -1, sp))))))"

definition SuperPoll_add ::
    "superpoll \<Rightarrow> nat option \<Rightarrow> nat option \<Rightarrow> int \<Rightarrow> char \<Rightarrow> bool \<Rightarrow> ctl_answer \<Rightarrow> (int \<times> superpoll) cres option" where
  "SuperPoll_add sp data socket fd rw hot ctl =
     (if socket \<noteq> None \<or> hot then Some (SuperPoll_add_poll sp data socket fd rw)
      else SuperPoll_add_idle sp data fd rw ctl)"

definition SuperPoll_arm_idle_fd :: "superpoll \<Rightarrow> (int \<times> superpoll) cres" where
  "SuperPoll_arm_idle_fd sp = SuperPoll_add_poll sp None None (idle_fd sp) CHR ''r''"

section \<open>Polling\<close>

definition SuperPoll_compact_down :: "superpoll \<Rightarrow> nat \<Rightarrow> superpoll cres" where
  "SuperPoll_compact_down sp i =
     (if nfd_hot sp = 0 \<or> \<not> (nfd_hot sp \<le> length (pollfd sp) \<and> nfd_hot sp \<le> length (hot_data sp) \<and> i < length (pollfd sp) \<and> i < length (hot_data sp))
      then Inl Out_of_bounds
      else (let n = nfd_hot sp - 1 in
        Inr (sp\<lparr>nfd_hot := n, pollfd := (pollfd sp)[i := pollfd sp ! n], hot_data := (hot_data sp)[i := hot_data sp ! n]\<rparr>)))"

definition SuperPoll_add_hit :: "PollResult \<Rightarrow> pollitem \<Rightarrow> nat option \<Rightarrow> PollResult cres" where
  "SuperPoll_add_hit result p data =
     (if length (hits result) < hits_size result then Inr (result\<lparr>hits := hits result @ [(p, data)]\<rparr>) else Inl Out_of_bounds)"

text \<open>
  An event of \<^verbatim>\<open>epoll_wait\<close>: its bits, the node it was registered with, and whether the descriptor can be removed.  \<open>ev\<close>
  is one variable for all events, so \<open>revents\<close> stays set from one to the next.
\<close>

type_synonym epoll_event = "nat \<times> nat \<times> bool"

definition event_revents :: "nat \<Rightarrow> nat \<Rightarrow> nat" where
  "event_revents bits revents =
     (let r = (if bits AND EPOLLIN \<noteq> 0 then ZMQ_POLLIN else revents) in if bits AND EPOLLOUT \<noteq> 0 then ZMQ_POLLOUT else r)"

fun idle_hits_loop ::
    "pollitem \<Rightarrow> epoll_event list \<Rightarrow> superpoll \<Rightarrow> PollResult \<Rightarrow> (bool \<times> superpoll \<times> PollResult) cres option" where
  "idle_hits_loop ev [] sp result = Some (Inr (True, sp, result))"
| "idle_hits_loop ev ((bits, node, removed) # events) sp result =
     (let i = lnode_get (lists sp) node in
      if \<not> i < length (idle_data sp) then Some (Inl Out_of_bounds)
      else (let d = idle_data sp ! i; ev = ev\<lparr>p_fd := i_fd d, p_revents := event_revents bits (p_revents ev)\<rparr> in
        walk_bind (Some (if p_revents ev \<noteq> 0 then SuperPoll_add_hit result ev (i_data d) else Inr result)) (\<lambda>result.
          if \<not> removed then Some (Inr (False, sp, result))
          else walk_bind (list_delete (idle_active sp) node (lists sp)) (\<lambda>(node, ls).
            walk_bind (list_append (idle_free sp) node ls) (\<lambda>ls.
              if list_count ls (idle_active sp) + list_count ls (idle_free sp) \<noteq> max_idle sp then Some (Inl Assert_fail)
              else idle_hits_loop ev events (sp\<lparr>lists := ls\<rparr>) result)))))"

definition no_item :: pollitem where
  "no_item = \<lparr>p_socket = None, p_fd = 0, p_events = 0, p_revents = 0\<rparr>"

text \<open>The events, or \<open>None\<close> when \<^verbatim>\<open>epoll_wait\<close> fails.\<close>

definition SuperPoll_add_idle_hits ::
    "epoll_event list option \<Rightarrow> superpoll \<Rightarrow> PollResult \<Rightarrow> (bool \<times> superpoll \<times> PollResult) cres option" where
  "SuperPoll_add_idle_hits answer sp result =
     (case answer of
        None \<Rightarrow> Some (Inr (False, sp, result))
      | Some events \<Rightarrow> walk_bind (idle_hits_loop no_item events sp result) (\<lambda>(ok, sp, result).
          Some (Inr (ok, sp, if ok then result\<lparr>idle_fds := int (length events)\<rparr> else result))))"

text \<open>From \<open>i\<close> on, the first entry with \<open>revents\<close>, or \<^verbatim>\<open>nfd_hot\<close>.\<close>

function next_ready :: "superpoll \<Rightarrow> nat \<Rightarrow> nat" where
  "next_ready sp i = (if i < nfd_hot sp \<and> p_revents (pollfd sp ! i) = 0 then next_ready sp (Suc i) else i)"
  by pat_completeness auto
termination
  by (relation "measure (\<lambda>(sp, i). nfd_hot sp - i)") auto

declare next_ready.simps [simp del]

text \<open>The loop over what has been found; \<open>epoll\<close> is a script of what \<^verbatim>\<open>epoll_wait\<close> answers.\<close>

fun poll_loop ::
    "nat \<Rightarrow> nat \<Rightarrow> epoll_event list option list \<Rightarrow> bool \<Rightarrow> superpoll \<Rightarrow> PollResult \<Rightarrow>
     (bool \<times> bool \<times> superpoll \<times> PollResult) cres option" where
  "poll_loop 0 cur epoll hit_idle sp result = Some (Inr (True, hit_idle, sp, result))"
| "poll_loop (Suc k) cur epoll hit_idle sp result =
     (let cur = next_ready sp cur in
      if \<not> (cur < length (pollfd sp) \<and> cur < length (hot_data sp)) then Some (Inl Out_of_bounds)
      else if p_fd (pollfd sp ! cur) = idle_fd sp then
        walk_bind (SuperPoll_add_idle_hits (case epoll of [] \<Rightarrow> Some [] | e # _ \<Rightarrow> e) sp result) (\<lambda>(ok, sp, result).
          if \<not> ok then Some (Inr (False, True, sp, result))
          else walk_bind (Some (SuperPoll_compact_down sp cur)) (\<lambda>sp. poll_loop k cur (tl epoll) True sp result))
      else
        walk_bind (Some (SuperPoll_add_hit result (pollfd sp ! cur) (hot_data sp ! cur))) (\<lambda>result.
          walk_bind (Some (SuperPoll_compact_down sp cur)) (\<lambda>sp. poll_loop k cur epoll hit_idle sp result)))"

text \<open>
  \<^verbatim>\<open>zmq_poll\<close>: what it answers, whether \<^verbatim>\<open>errno\<close> is \<^verbatim>\<open>EINTR\<close>, and the \<open>revents\<close> it leaves in the array.
\<close>

type_synonym zmq_answer = "int \<times> bool \<times> nat list"

definition with_revents :: "nat list \<Rightarrow> superpoll \<Rightarrow> superpoll" where
  "with_revents revs sp =
     sp\<lparr>pollfd := map2 (\<lambda>p r. p\<lparr>p_revents := r\<rparr>) (take (length revs) (pollfd sp)) revs @ drop (length revs) (pollfd sp)\<rparr>"

definition SuperPoll_poll ::
    "superpoll \<Rightarrow> PollResult \<Rightarrow> zmq_answer \<Rightarrow> epoll_event list option list \<Rightarrow> (int \<times> superpoll \<times> PollResult) cres option" where
  "SuperPoll_poll sp result zmq epoll =
     (let (nfound, eintr, revs) = zmq; result = result\<lparr>hits := []\<rparr>; sp = with_revents revs sp in
      if \<not> (nfound \<ge> 0 \<or> eintr) then Some (Inr (-1, sp, result))
      else walk_bind (poll_loop (nat nfound) 0 epoll False sp (result\<lparr>hot_fds := nfound\<rparr>)) (\<lambda>(ok, hit_idle, sp, result).
        if \<not> ok then Some (Inr (-1, sp, result))
        else walk_bind (Some (if hit_idle then SuperPoll_arm_idle_fd sp else Inr (0, sp))) (\<lambda>(_, sp).
          Some (Inr (int (length (hits result)), sp, result)))))"

definition PollResult_init :: "superpoll \<Rightarrow> PollResult" where
  "PollResult_init sp = \<lparr>hot_fds = 0, idle_fds = 0, hits = [], hits_size = max_hot sp + max_idle sp\<rparr>"

section \<open>Creation\<close>

text \<open>One free node for every slot, at the addresses \<^verbatim>\<open>malloc\<close> answers.\<close>

fun prime_free :: "nat \<Rightarrow> nat list \<Rightarrow> superpoll \<Rightarrow> superpoll cres option" where
  "prime_free i [] sp = Some (Inr sp)"
| "prime_free i (a # addrs) sp =
     walk_bind (list_append (idle_free sp) a (snd (lnode_create (Some a) i (lists sp)))) (\<lambda>ls.
       prime_free (Suc i) addrs (sp\<lparr>lists := ls\<rparr>))"

text \<open>
  \<open>efd\<close>: what \<^verbatim>\<open>epoll_create\<close> answers; \<open>free\<close>, \<open>active\<close> and \<open>addrs\<close>: the addresses of the lists and nodes; when there are
  fewer of these than slots, \<^verbatim>\<open>malloc\<close> has failed.
\<close>

definition SuperPoll_setup_idle ::
    "superpoll \<Rightarrow> nat \<Rightarrow> int \<Rightarrow> nat \<Rightarrow> nat \<Rightarrow> nat list \<Rightarrow> (int \<times> superpoll) cres option" where
  "SuperPoll_setup_idle sp total_open_fd efd free active addrs =
     (if max_hot sp > total_open_fd then Some (Inl Assert_fail)
      else (let m = total_open_fd - max_hot sp; sp = sp\<lparr>max_idle := m, idle_fd := efd\<rparr> in
        if efd = -1 then Some (Inr (-1, sp))
        else walk_bind (Some (list_init free m (lists sp))) (\<lambda>ls.
          walk_bind (prime_free 0 (take m addrs)
              (sp\<lparr>idle_data := replicate m \<lparr>i_fd = 0, i_data = None\<rparr>, idle_free := free, lists := ls\<rparr>)) (\<lambda>sp.
            if length addrs < m then Some (Inr (-1, sp))
            else walk_bind (Some (list_init active m (lists sp))) (\<lambda>ls.
              Some (Inr (0, sp\<lparr>idle_active := active, lists := ls\<rparr>)))))))"

text \<open>\<open>dividend\<close>: the setting \<^verbatim>\<open>superpoll.hot_dividend\<close>; dividing by 0 ends the process.\<close>

definition SuperPoll_create ::
    "nat \<Rightarrow> nat \<Rightarrow> int \<Rightarrow> nat \<Rightarrow> nat \<Rightarrow> nat list \<Rightarrow> superpoll option cres option" where
  "SuperPoll_create total_open_fd dividend efd free active addrs =
     (if dividend = 0 then Some (Inl Assert_fail)
      else (let m = total_open_fd div dividend;
          ls = \<lparr>l_next = (\<lambda>_. None), l_prev = (\<lambda>_. None), l_data = (\<lambda>_. 0), list_nodecount = (\<lambda>_. 0), list_maxcount = (\<lambda>_. 0)\<rparr>;
          sp = \<lparr>pollfd = [], hot_data = [], nfd_hot = 0, max_hot = m, idle_fd = 0, max_idle = 0, idle_data = [],
                idle_active = 0, idle_free = 0, lists = ls\<rparr> in
        walk_bind (SuperPoll_setup_idle sp total_open_fd efd free active addrs) (\<lambda>(rc, sp).
          if rc \<noteq> 0 then Some (Inr None)
          else walk_bind (Some (SuperPoll_arm_idle_fd (sp\<lparr>pollfd := replicate m no_item, hot_data := replicate m None\<rparr>))) (\<lambda>(rc, sp).
            Some (Inr (if rc \<noteq> -1 then Some sp else None))))))"

text \<open>
  The limit of open descriptors, kept in \<^verbatim>\<open>MAXFD\<close> once it is known: \<open>set_ok\<close> is whether \<^verbatim>\<open>setrlimit\<close> succeeds, \<open>soft\<close> what
  \<^verbatim>\<open>getrlimit\<close> answers.  The result is the limit and the new \<^verbatim>\<open>MAXFD\<close>.
\<close>

definition MAX_NOFILE :: int where "MAX_NOFILE = 1024 * 10"

definition SuperPoll_get_max_fd :: "int \<Rightarrow> bool \<Rightarrow> int option \<Rightarrow> int \<Rightarrow> int \<times> int" where
  "SuperPoll_get_max_fd requested_max set_ok soft MAXFD =
     (if MAXFD \<noteq> 0 then (MAXFD, MAXFD)
      else (let m = (if set_ok then requested_max else case soft of Some n \<Rightarrow> to_int32 n | None \<Rightarrow> 256) in (m, m)))"

section \<open>What a poller holds\<close>

definition poller :: "superpoll \<Rightarrow> nat list \<Rightarrow> nat list \<Rightarrow> bool" where
  "poller sp fs as \<longleftrightarrow> length (pollfd sp) = max_hot sp \<and> length (hot_data sp) = max_hot sp \<and> nfd_hot sp \<le> max_hot sp \<and>
     adt_list (lists sp) (idle_free sp) fs \<and> adt_list (lists sp) (idle_active sp) as \<and> idle_free sp \<noteq> idle_active sp \<and>
     idle_free sp \<notin> set as \<and> idle_active sp \<notin> set fs \<and> distinct (fs @ as) \<and> length fs + length as = max_idle sp \<and>
     max_idle sp < 2 ^ 63 \<and> list_maxcount (lists sp) (idle_free sp) = max_idle sp \<and>
     list_maxcount (lists sp) (idle_active sp) = max_idle sp \<and> length (idle_data sp) = max_idle sp \<and>
     (\<forall>n\<in>set (fs @ as). l_data (lists sp) n < max_idle sp) \<and> inj_on (l_data (lists sp)) (set (fs @ as))"

text \<open>The hot entries, the task of an idle slot, and all tasks that wait.\<close>

definition hot :: "superpoll \<Rightarrow> (pollitem \<times> nat option) list" where
  "hot sp = zip (take (nfd_hot sp) (pollfd sp)) (take (nfd_hot sp) (hot_data sp))"

definition idle_task :: "superpoll \<Rightarrow> nat \<Rightarrow> nat option" where
  "idle_task sp n = i_data (idle_data sp ! l_data (lists sp) n)"

definition tasks_of :: "nat option list \<Rightarrow> nat multiset" where
  "tasks_of ds = image_mset the (filter_mset (\<lambda>d. d \<noteq> None) (mset ds))"

definition waiting :: "superpoll \<Rightarrow> nat list \<Rightarrow> nat multiset" where
  "waiting sp as = tasks_of (map snd (hot sp)) + tasks_of (map (idle_task sp) as)"

lemma tasks_of_simps [simp]:
  "tasks_of [] = {#}" "tasks_of (None # ds) = tasks_of ds" "tasks_of (Some t # ds) = add_mset t (tasks_of ds)"
  "tasks_of (ds @ es) = tasks_of ds + tasks_of es"
  by (simp_all add: tasks_of_def)

lemma tasks_of_mset: "mset ds = mset es \<Longrightarrow> tasks_of ds = tasks_of es"
  by (simp add: tasks_of_def)

section \<open>Adding\<close>

lemma hot_length [simp]: "poller sp fs as \<Longrightarrow> length (hot sp) = nfd_hot sp"
  by (simp add: poller_def hot_def)

lemma SuperPoll_add_poll_holds:
  assumes "poller sp fs as" "nfd_hot sp < max_hot sp" "rw = CHR ''r'' \<or> rw = CHR ''w''"
  shows "\<exists>sp' p. SuperPoll_add_poll sp data socket fd rw = Inr (int (nfd_hot sp) + 1, sp') \<and> poller sp' fs as \<and>
     hot sp' = hot sp @ [(p, data)] \<and> p_fd p = fd \<and> p_revents p = 0 \<and>
     sp' = sp\<lparr>pollfd := pollfd sp', hot_data := hot_data sp', nfd_hot := nfd_hot sp + 1\<rparr>"
  using assms by (auto simp: SuperPoll_add_poll_def Let_def poller_def hot_def take_Suc_conv_app_nth)

lemma SuperPoll_add_poll_full:
  "\<not> nfd_hot sp < max_hot sp \<Longrightarrow> SuperPoll_add_poll sp data socket fd rw = Inr (-1, sp)"
  by (simp add: SuperPoll_add_poll_def)

text \<open>The idle slot at the end of the free list is taken, and its task waits.\<close>

lemma SuperPoll_add_idle_holds:
  assumes "poller sp (fs @ [n]) as" "rw = CHR ''r'' \<or> rw = CHR ''w''"
  shows "\<exists>sp'. SuperPoll_add_idle sp data fd rw ctl = Some (Inr (if ctl = Ctl_added then 1 else -1, sp')) \<and>
     poller sp' fs (as @ [n]) \<and> idle_task sp' n = data \<and> (\<forall>m\<in>set as. idle_task sp' m = idle_task sp m) \<and>
     sp' = sp\<lparr>idle_data := idle_data sp', lists := lists sp'\<rparr>"
proof -
  let ?f = "idle_free sp" and ?a = "idle_active sp"
  note P = assms(1) [unfolded poller_def]
  have fs: "adt_list (lists sp) ?f (fs @ [n])" using P by simp
  then have nf: "n \<noteq> ?f" by (auto simp: adt_list_def)
  have r: "remove1 n (fs @ [n]) = fs" using P by (auto simp: remove1_append)
  obtain h1 h2 where m: "list_delete ?f n (lists sp) = Some (Inr (n, h1))" "list_append ?a n h1 = Some (Inr h2)"
    "adt_list h2 ?f fs" "adt_list h2 ?a (as @ [n])" "l_data h2 = l_data (lists sp)" "list_maxcount h2 = list_maxcount (lists sp)"
    using move_node [OF fs, of ?a as n] P unfolding r by auto
  have d1: "l_data h1 = l_data (lists sp)" using list_delete_holds [OF fs, of n] m(1) by (auto simp: adt_frame_def)
  let ?i = "l_data (lists sp) n"
  have i: "?i < length (idle_data sp)" using P by auto
  let ?sp = "sp\<lparr>idle_data := (idle_data sp)[?i := \<lparr>i_fd = fd, i_data = data\<rparr>], lists := h2\<rparr>"
  have "list_del_last ?f (lists sp) = list_delete ?f n (lists sp)" using list_del_last_is [OF fs] by simp
  moreover have "\<not> list_isempty (lists sp) ?f" using fs by (simp add: list_isempty_def adt_list_def)
  ultimately have "SuperPoll_add_idle sp data fd rw ctl = Some (Inr (if ctl = Ctl_added then 1 else -1, ?sp))"
    using assms(2) m(1,2) d1 i by (auto simp: SuperPoll_add_idle_def lnode_get_def Let_def)
  moreover have "idle_task ?sp k = idle_task sp k" if "k \<in> set as" for k
  proof -
    have "l_data (lists sp) k \<noteq> ?i" using P that by (auto simp: inj_on_def)
    then show ?thesis using m(5) by (simp add: idle_task_def)
  qed
  moreover have "poller ?sp fs (as @ [n])" using P m(3-6) nf unfolding poller_def by (auto simp: Un_commute Un_left_commute)
  moreover have "idle_task ?sp n = data" using m(5) i by (simp add: idle_task_def)
  ultimately show ?thesis by (intro exI [of _ ?sp]) simp
qed

section \<open>Idle hits\<close>

text \<open>\<open>revents\<close> as it stands at each event.\<close>

fun sticky :: "nat \<Rightarrow> epoll_event list \<Rightarrow> nat list" where
  "sticky r [] = []"
| "sticky r ((bits, _, _) # events) = event_revents bits r # sticky (event_revents bits r) events"

lemma sticky_length [simp]: "length (sticky r events) = length events"
  by (induction r events rule: sticky.induct) auto

text \<open>The tasks that are readied, and those that are taken out without being readied.\<close>

definition hit_tasks :: "superpoll \<Rightarrow> nat \<Rightarrow> epoll_event list \<Rightarrow> nat option list" where
  "hit_tasks sp r events = map (\<lambda>(e, rv). idle_task sp (fst (snd e))) (filter (\<lambda>(e, rv). rv \<noteq> 0) (zip events (sticky r events)))"

definition dropped_tasks :: "superpoll \<Rightarrow> nat \<Rightarrow> epoll_event list \<Rightarrow> nat option list" where
  "dropped_tasks sp r events = map (\<lambda>(e, rv). idle_task sp (fst (snd e))) (filter (\<lambda>(e, rv). rv = 0) (zip events (sticky r events)))"

text \<open>The events name active nodes, each at most once, and their descriptors can be removed.\<close>

definition events_ok :: "nat list \<Rightarrow> epoll_event list \<Rightarrow> bool" where
  "events_ok as events \<longleftrightarrow> distinct (map (fst \<circ> snd) events) \<and> (\<forall>(_, n, removed)\<in>set events. n \<in> set as \<and> removed)"

lemma idle_hits_loop_holds:
  assumes "poller sp fs as" "events_ok as events" "length (hits result) + length events \<le> hits_size result"
  shows "\<exists>sp' result' as'. idle_hits_loop ev events sp result = Some (Inr (True, sp', result')) \<and>
     poller sp' (fs @ map (fst \<circ> snd) events) as' \<and> mset as = mset as' + mset (map (fst \<circ> snd) events) \<and>
     map snd (hits result') = map snd (hits result) @ hit_tasks sp (p_revents ev) events \<and>
     result' = result\<lparr>hits := hits result'\<rparr> \<and> (\<forall>n. idle_task sp' n = idle_task sp n) \<and>
     sp' = sp\<lparr>lists := lists sp'\<rparr>"
  using assms
proof (induction events arbitrary: sp fs as result ev)
  case Nil
  then show ?case by (auto simp: hit_tasks_def intro!: exI [of _ as])
next
  case (Cons e events)
  obtain bits n rem where e: "e = (bits, n, rem)" by (metis prod.exhaust)
  let ?f = "idle_free sp" and ?a = "idle_active sp"
  note P = Cons.prems(1) [unfolded poller_def]
  have n: "n \<in> set as" "rem" using Cons.prems(2) e by (auto simp: events_ok_def)
  have a: "adt_list (lists sp) ?a as" using P by simp
  have len: "length fs < max_idle sp" using P n by (cases as) auto
  obtain h1 h2 where m: "list_delete ?a n (lists sp) = Some (Inr (n, h1))" "list_append ?f n h1 = Some (Inr h2)"
    "adt_list h2 ?a (remove1 n as)" "adt_list h2 ?f (fs @ [n])" "l_data h2 = l_data (lists sp)" "list_maxcount h2 = list_maxcount (lists sp)"
    using move_node [OF a, of ?f fs n] P n len by (auto simp: Int_commute)
  let ?i = "l_data (lists sp) n"
  have i: "?i < length (idle_data sp)" using P n by auto
  let ?rv = "event_revents bits (p_revents ev)"
  let ?ev = "ev\<lparr>p_fd := i_fd (idle_data sp ! ?i), p_revents := ?rv\<rparr>"
  let ?result = "if ?rv \<noteq> 0 then result\<lparr>hits := hits result @ [(?ev, idle_task sp n)]\<rparr> else result"
  let ?sp = "sp\<lparr>lists := h2\<rparr>"
  have la: "length (remove1 n as) + 1 = length as" using n(1) length_pos_if_in_set [of n as] by (simp add: length_remove1)
  have cnt: "list_count h2 ?a + list_count h2 ?f = max_idle sp"
    using m(3,4) la P by (simp add: list_count_def adt_list_def)
  have step: "idle_hits_loop ev (e # events) sp result = idle_hits_loop ?ev events ?sp ?result"
    using i m(1,2) n(2) cnt Cons.prems(3) e by (simp add: Let_def lnode_get_def SuperPoll_add_hit_def idle_task_def)
  have na: "n \<noteq> ?a" using a n(1) by (auto simp: adt_list_def)
  have r: "set (remove1 n as) = set as - {n}" using P by simp
  have "poller ?sp (fs @ [n]) (remove1 n as)"
    using P m(3-6) n(1) na la r unfolding poller_def by (auto simp: inj_on_def)
  moreover have "events_ok (remove1 n as) events"
    using Cons.prems(2) e r by (auto simp: events_ok_def image_iff split: prod.splits)
  moreover have "length (hits ?result) + length events \<le> hits_size ?result" using Cons.prems(3) by auto
  ultimately obtain sp' result' as' where ih: "idle_hits_loop ?ev events ?sp ?result = Some (Inr (True, sp', result'))"
      "poller sp' ((fs @ [n]) @ map (fst \<circ> snd) events) as'" "mset (remove1 n as) = mset as' + mset (map (fst \<circ> snd) events)"
      "map snd (hits result') = map snd (hits ?result) @ hit_tasks ?sp (p_revents ?ev) events"
      "result' = ?result\<lparr>hits := hits result'\<rparr>" "\<forall>k. idle_task sp' k = idle_task ?sp k" "sp' = ?sp\<lparr>lists := lists sp'\<rparr>"
    using Cons.IH [of ?sp "fs @ [n]" "remove1 n as" ?result ?ev] by blast
  have it: "idle_task ?sp k = idle_task sp k" for k using m(5) by (simp add: idle_task_def)
  have "hit_tasks sp (p_revents ev) (e # events) = (if ?rv \<noteq> 0 then [idle_task sp n] else []) @ hit_tasks ?sp ?rv events"
    using e by (simp add: hit_tasks_def it)
  then have "map snd (hits result') = map snd (hits result) @ hit_tasks sp (p_revents ev) (e # events)" using ih(4) by auto
  moreover have "mset as = add_mset n (mset (remove1 n as))" using n(1) by simp
  moreover have "result' = result\<lparr>hits := hits result'\<rparr>" by (subst ih(5)) auto
  moreover have "sp' = sp\<lparr>lists := lists sp'\<rparr>" by (subst ih(7)) simp
  moreover have "map (fst \<circ> snd) (e # events) = n # map (fst \<circ> snd) events" using e by simp
  moreover have "\<forall>k. idle_task sp' k = idle_task sp k" using ih(6) it by simp
  moreover have "idle_hits_loop ev (e # events) sp result = Some (Inr (True, sp', result'))" by (simp only: step ih(1))
  ultimately show ?case using ih(2,3) by (intro exI [of _ sp'] exI [of _ result'] exI [of _ as']) (simp add: comp_def del: idle_hits_loop.simps)
qed

section \<open>The loop over what has been found\<close>

lemma next_ready_props:
  "i \<le> nfd_hot sp \<Longrightarrow> i \<le> next_ready sp i \<and> next_ready sp i \<le> nfd_hot sp \<and>
     (\<forall>j. i \<le> j \<and> j < next_ready sp i \<longrightarrow> p_revents (pollfd sp ! j) = 0) \<and>
     (next_ready sp i < nfd_hot sp \<longrightarrow> p_revents (pollfd sp ! next_ready sp i) \<noteq> 0)"
proof (induction sp i rule: next_ready.induct)
  case (1 sp i)
  show ?case
  proof (cases "i < nfd_hot sp \<and> p_revents (pollfd sp ! i) = 0")
    case True
    then have "next_ready sp i = next_ready sp (Suc i)" by (subst next_ready.simps) simp
    with 1 True show ?thesis by (metis Suc_leD Suc_leI le_antisym not_less_eq_eq)
  next
    case False
    then have "next_ready sp i = i" by (subst next_ready.simps) auto
    with 1 False show ?thesis by auto
  qed
qed

definition ready :: "pollitem \<times> nat option \<Rightarrow> bool" where
  "ready e \<longleftrightarrow> p_revents (fst e) \<noteq> 0"

lemma hot_nth: "poller sp fs as \<Longrightarrow> i < nfd_hot sp \<Longrightarrow> hot sp ! i = (pollfd sp ! i, hot_data sp ! i)"
  by (simp add: poller_def hot_def)

text \<open>Replacing an entry by the last one.\<close>

lemma mset_compact:
  assumes "i < length xs"
  shows "add_mset (xs ! i) (mset (butlast (xs[i := last xs]))) = mset xs"
proof (cases xs rule: rev_cases)
  case Nil
  with assms show ?thesis by simp
next
  case (snoc ys y)
  show ?thesis
  proof (cases "i = length ys")
    case False
    then have i: "i < length ys" using assms snoc by simp
    then have "ys ! i \<in># mset ys" by simp
    then have "add_mset (ys ! i) (add_mset y (mset ys - {#ys ! i#})) = add_mset y (mset ys)" by (metis add_mset_commute insert_DiffM)
    then show ?thesis using i snoc by (simp add: list_update_append nth_append mset_update)
  qed (simp add: snoc)
qed

lemma compact_down_holds:
  assumes "poller sp fs as" "i < nfd_hot sp"
  shows "\<exists>sp'. SuperPoll_compact_down sp i = Inr sp' \<and> poller sp' fs as \<and> hot sp' = butlast ((hot sp)[i := last (hot sp)]) \<and>
     nfd_hot sp' = nfd_hot sp - 1 \<and>
     sp' = sp\<lparr>nfd_hot := nfd_hot sp', pollfd := pollfd sp', hot_data := hot_data sp'\<rparr>"
proof -
  let ?n = "nfd_hot sp - 1"
  let ?sp = "sp\<lparr>nfd_hot := ?n, pollfd := (pollfd sp)[i := pollfd sp ! ?n], hot_data := (hot_data sp)[i := hot_data sp ! ?n]\<rparr>"
  have "poller ?sp fs as" using assms by (auto simp: poller_def)
  moreover have "hot ?sp = butlast ((hot sp)[i := last (hot sp)])"
  proof (rule nth_equalityI)
    show "length (hot ?sp) = length (butlast ((hot sp)[i := last (hot sp)]))"
      using assms \<open>poller ?sp fs as\<close> by simp
    fix j assume "j < length (hot ?sp)"
    then have j: "j < ?n" using \<open>poller ?sp fs as\<close> by simp
    have "last (hot sp) = hot sp ! ?n" using assms by (metis hot_length last_conv_nth length_0_conv not_less_zero)
    then show "hot ?sp ! j = butlast ((hot sp)[i := last (hot sp)]) ! j"
      using j assms hot_nth [OF \<open>poller ?sp fs as\<close>, of j] hot_nth [OF assms(1), of j] hot_nth [OF assms(1), of ?n]
      by (auto simp: nth_butlast nth_list_update poller_def)
  qed
  ultimately show ?thesis using assms
    by (intro exI [of _ ?sp]) (auto simp: SuperPoll_compact_down_def poller_def Let_def)
qed

text \<open>Nothing in front of \<open>cur\<close> is ready.\<close>

definition scanned :: "superpoll \<Rightarrow> nat \<Rightarrow> bool" where
  "scanned sp cur \<longleftrightarrow> cur \<le> nfd_hot sp \<and> (\<forall>i<cur. \<not> ready (hot sp ! i))"

lemma next_ready_found:
  assumes "poller sp fs as" "scanned sp cur" "filter ready (hot sp) \<noteq> []"
  shows "next_ready sp cur < nfd_hot sp" "ready (hot sp ! next_ready sp cur)" "scanned sp (next_ready sp cur)"
proof -
  let ?j = "next_ready sp cur"
  from next_ready_props [of cur sp] assms(2) have p: "cur \<le> ?j" "?j \<le> nfd_hot sp"
    "\<forall>j. cur \<le> j \<and> j < ?j \<longrightarrow> p_revents (pollfd sp ! j) = 0" "?j < nfd_hot sp \<longrightarrow> p_revents (pollfd sp ! ?j) \<noteq> 0"
    by (simp_all add: scanned_def)
  have nr: "\<not> ready (hot sp ! i)" if "i < ?j" for i
  proof (cases "i < cur")
    case False
    then show ?thesis using p that hot_nth [OF assms(1), of i] by (simp add: ready_def)
  qed (use assms(2) in \<open>simp add: scanned_def\<close>)
  obtain i where i: "i < nfd_hot sp" "ready (hot sp ! i)"
    using assms(1,3) by (auto simp: filter_empty_conv in_set_conv_nth)
  then show lt: "?j < nfd_hot sp" using nr p(2) by (metis le_neq_implies_less)
  show "ready (hot sp ! ?j)" using p(4) lt hot_nth [OF assms(1) lt] by (simp add: ready_def)
  show "scanned sp ?j" using nr p(2) by (simp add: scanned_def)
qed

text \<open>Taking the entry at \<open>j\<close> out, which is ready.\<close>

lemma take_out:
  assumes "poller sp fs as" "scanned sp j" "j < nfd_hot sp" "ready (hot sp ! j)"
  shows "\<exists>sp'. SuperPoll_compact_down sp j = Inr sp' \<and> poller sp' fs as \<and> scanned sp' j \<and>
     mset (hot sp) = add_mset (hot sp ! j) (mset (hot sp')) \<and>
     sp' = sp\<lparr>nfd_hot := nfd_hot sp', pollfd := pollfd sp', hot_data := hot_data sp'\<rparr>"
proof -
  from compact_down_holds [OF assms(1,3)] obtain sp' where
    c: "SuperPoll_compact_down sp j = Inr sp'" "poller sp' fs as" "hot sp' = butlast ((hot sp)[j := last (hot sp)])"
      "nfd_hot sp' = nfd_hot sp - 1" "sp' = sp\<lparr>nfd_hot := nfd_hot sp', pollfd := pollfd sp', hot_data := hot_data sp'\<rparr>" by blast
  have "hot sp' ! i = hot sp ! i" if "i < j" for i
    using that assms(1,3) unfolding c(3) by (simp add: nth_butlast)
  then have "scanned sp' j" using assms(2,3) c(4) by (auto simp: scanned_def)
  moreover have "mset (hot sp) = add_mset (hot sp ! j) (mset (hot sp'))"
    unfolding c(3) using assms(1,3) by (simp add: mset_compact)
  ultimately show ?thesis using c by blast
qed

lemma ready_count:
  assumes "mset xs = add_mset e (mset ys)"
  shows "length (filter P xs) = (if P e then Suc (length (filter P ys)) else length (filter P ys))"
proof -
  have "size (filter_mset P (mset xs)) = size (filter_mset P (add_mset e (mset ys)))" using assms by simp
  then show ?thesis by (simp flip: mset_filter)
qed

text \<open>An entry for the epoll that is ready.\<close>

definition idle_ready :: "superpoll \<Rightarrow> pollitem \<times> nat option \<Rightarrow> bool" where
  "idle_ready sp e \<longleftrightarrow> p_fd (fst e) = idle_fd sp \<and> ready e"

lemma poll_loop_hot:
  assumes "poller sp fs as" "scanned sp cur" "length (filter ready (hot sp)) = k" "filter (idle_ready sp) (hot sp) = []"
    "length (hits result) + k \<le> hits_size result"
  shows "\<exists>sp' result' hs. poll_loop k cur epoll hit_idle sp result = Some (Inr (True, hit_idle, sp', result')) \<and>
     poller sp' fs as \<and> mset (hot sp') = filter_mset (\<lambda>e. \<not> ready e) (mset (hot sp)) \<and>
     mset hs = filter_mset ready (mset (hot sp)) \<and> result' = result\<lparr>hits := hits result @ hs\<rparr> \<and>
     sp' = sp\<lparr>nfd_hot := nfd_hot sp', pollfd := pollfd sp', hot_data := hot_data sp'\<rparr>"
  using assms
proof (induction k arbitrary: sp cur result)
  case 0
  then have "filter ready (hot sp) = []" "filter (\<lambda>e. \<not> ready e) (hot sp) = hot sp" by (auto simp: filter_empty_conv)
  then have "filter_mset ready (mset (hot sp)) = {#}" "filter_mset (\<lambda>e. \<not> ready e) (mset (hot sp)) = mset (hot sp)"
    by (metis mset.simps(1) mset_filter, metis mset_filter)
  with 0 show ?case by (intro exI [of _ sp] exI [of _ result] exI [of _ "[]"]) simp
next
  case (Suc k)
  let ?j = "next_ready sp cur" and ?e = "hot sp ! next_ready sp cur"
  have ne: "filter ready (hot sp) \<noteq> []" using Suc.prems(3) by auto
  note f = next_ready_found [OF Suc.prems(1,2) ne]
  from take_out [OF Suc.prems(1) f(3,1,2)] obtain sp1 where
    t: "SuperPoll_compact_down sp ?j = Inr sp1" "poller sp1 fs as" "scanned sp1 ?j" "mset (hot sp) = add_mset ?e (mset (hot sp1))"
      "sp1 = sp\<lparr>nfd_hot := nfd_hot sp1, pollfd := pollfd sp1, hot_data := hot_data sp1\<rparr>" by blast
  have ie: "idle_ready sp1 = idle_ready sp" by (subst t(5)) (simp add: idle_ready_def fun_eq_iff)
  have e: "?e = (pollfd sp ! ?j, hot_data sp ! ?j)" using hot_nth [OF Suc.prems(1) f(1)] .
  have ni: "p_fd (pollfd sp ! ?j) \<noteq> idle_fd sp"
  proof
    assume "p_fd (pollfd sp ! ?j) = idle_fd sp"
    then have "idle_ready sp ?e" using f(2) e by (simp add: idle_ready_def)
    moreover have "?e \<in> set (hot sp)" using f(1) Suc.prems(1) by simp
    ultimately show False using Suc.prems(4) by (auto simp: filter_empty_conv)
  qed
  let ?result = "result\<lparr>hits := hits result @ [?e]\<rparr>"
  have step: "poll_loop (Suc k) cur epoll hit_idle sp result = poll_loop k ?j epoll hit_idle sp1 ?result"
    using f(1) Suc.prems(1,5) ni t(1) e by (simp add: Let_def poller_def SuperPoll_add_hit_def)
  have "length (filter ready (hot sp1)) = k" using ready_count [OF t(4), of ready] f(2) Suc.prems(3) by simp
  moreover have "filter (idle_ready sp1) (hot sp1) = []"
    using ready_count [OF t(4), of "idle_ready sp"] Suc.prems(4) by (auto simp: ie split: if_splits)
  moreover have "length (hits ?result) + k \<le> hits_size ?result" using Suc.prems(5) by simp
  ultimately obtain sp' result' hs where ih: "poll_loop k ?j epoll hit_idle sp1 ?result = Some (Inr (True, hit_idle, sp', result'))"
      "poller sp' fs as" "mset (hot sp') = filter_mset (\<lambda>e. \<not> ready e) (mset (hot sp1))"
      "mset hs = filter_mset ready (mset (hot sp1))" "result' = ?result\<lparr>hits := hits ?result @ hs\<rparr>"
      "sp' = sp1\<lparr>nfd_hot := nfd_hot sp', pollfd := pollfd sp', hot_data := hot_data sp'\<rparr>"
    using Suc.IH [OF t(2,3), of ?result] by blast
  have "mset (hot sp') = filter_mset (\<lambda>e. \<not> ready e) (mset (hot sp))" using ih(3) t(4) f(2) by simp
  moreover have "mset (?e # hs) = filter_mset ready (mset (hot sp))" using ih(4) t(4) f(2) by simp
  moreover have "sp' = sp\<lparr>nfd_hot := nfd_hot sp', pollfd := pollfd sp', hot_data := hot_data sp'\<rparr>"
    by (subst ih(6), subst t(5)) simp
  moreover have "result' = result\<lparr>hits := hits result @ (?e # hs)\<rparr>" using ih(5) by simp
  ultimately show ?case unfolding step using ih(1,2) by blast
qed

abbreviation nodes :: "epoll_event list \<Rightarrow> nat list" where
  "nodes events \<equiv> map (fst \<circ> snd) events"

lemma poll_loop_idle:
  assumes "poller sp fs as" "scanned sp cur" "length (filter ready (hot sp)) = k" "length (filter (idle_ready sp) (hot sp)) = 1"
    "events_ok as events" "length (hits result) + k + length events \<le> hits_size result"
  shows "\<exists>sp' result' as'. poll_loop k cur (Some events # epoll) b sp result = Some (Inr (True, True, sp', result')) \<and>
     poller sp' (fs @ nodes events) as' \<and> mset as = mset as' + mset (nodes events) \<and>
     mset (hot sp') = filter_mset (\<lambda>e. \<not> ready e) (mset (hot sp)) \<and>
     mset (map snd (hits result')) = mset (map snd (hits result)) + mset (hit_tasks sp 0 events) +
       image_mset snd (filter_mset (\<lambda>e. ready e \<and> \<not> idle_ready sp e) (mset (hot sp))) \<and>
     (\<forall>n. idle_task sp' n = idle_task sp n) \<and> hits_size result' = hits_size result \<and>
     sp' = sp\<lparr>lists := lists sp', nfd_hot := nfd_hot sp', pollfd := pollfd sp', hot_data := hot_data sp'\<rparr>"
  using assms
proof (induction k arbitrary: sp cur result b)
  case 0
  then show ?case by (auto simp: idle_ready_def filter_empty_conv length_Suc_conv)
next
  case (Suc k)
  let ?j = "next_ready sp cur" and ?e = "hot sp ! next_ready sp cur"
  have ne: "filter ready (hot sp) \<noteq> []" using Suc.prems(3) by auto
  note f = next_ready_found [OF Suc.prems(1,2) ne]
  have e: "?e = (pollfd sp ! ?j, hot_data sp ! ?j)" using hot_nth [OF Suc.prems(1) f(1)] .
  show ?case
  proof (cases "idle_ready sp ?e")
    case True
    then have fd: "p_fd (pollfd sp ! ?j) = idle_fd sp" using e by (simp add: idle_ready_def)
    obtain sp1 result1 as' where h: "idle_hits_loop no_item events sp result = Some (Inr (True, sp1, result1))"
      "poller sp1 (fs @ nodes events) as'" "mset as = mset as' + mset (nodes events)"
      "map snd (hits result1) = map snd (hits result) @ hit_tasks sp (p_revents no_item) events"
      "result1 = result\<lparr>hits := hits result1\<rparr>" "\<forall>n. idle_task sp1 n = idle_task sp n" "sp1 = sp\<lparr>lists := lists sp1\<rparr>"
      using idle_hits_loop_holds [OF Suc.prems(1,5), of result no_item] Suc.prems(6) by auto
    have same: "hot sp1 = hot sp" "scanned sp1 ?j" "?j < nfd_hot sp1" "idle_ready sp1 = idle_ready sp" "max_hot sp1 = max_hot sp"
      using f by (subst h(7); simp add: hot_def scanned_def idle_ready_def fun_eq_iff)+
    from take_out [OF h(2) same(2,3)] f(2) same(1) obtain sp2 where
      t: "SuperPoll_compact_down sp1 ?j = Inr sp2" "poller sp2 (fs @ nodes events) as'" "scanned sp2 ?j"
        "mset (hot sp) = add_mset ?e (mset (hot sp2))"
        "sp2 = sp1\<lparr>nfd_hot := nfd_hot sp2, pollfd := pollfd sp2, hot_data := hot_data sp2\<rparr>" by auto
    have ie: "idle_ready sp2 = idle_ready sp" using same(4) by (subst t(5)) (simp add: idle_ready_def fun_eq_iff)
    let ?r = "result1\<lparr>idle_fds := int (length events)\<rparr>"
    have step: "poll_loop (Suc k) cur (Some events # epoll) b sp result = poll_loop k ?j epoll True sp2 ?r"
      using f(1) Suc.prems(1) fd t(1) h(1) by (simp add: Let_def poller_def SuperPoll_add_idle_hits_def)
    have "length (hits result1) = length (hits result) + length (hit_tasks sp (p_revents no_item) events)"
      using arg_cong [OF h(4), of length] by simp
    moreover have "length (hit_tasks sp (p_revents no_item) events) \<le> length events"
      unfolding hit_tasks_def by (metis (no_types, lifting) length_filter_le length_map length_zip min.idem sticky_length)
    moreover have "hits_size result1 = hits_size result" by (subst h(5)) simp
    ultimately have cap: "length (hits ?r) + k \<le> hits_size ?r" using Suc.prems(6) by simp
    have cnt: "length (filter ready (hot sp2)) = k" using ready_count [OF t(4), of ready] f(2) Suc.prems(3) by simp
    have noi: "filter (idle_ready sp2) (hot sp2) = []"
      using ready_count [OF t(4), of "idle_ready sp"] Suc.prems(4) True by (auto simp: ie)
    from poll_loop_hot [OF t(2,3) cnt noi cap] obtain sp' result' hs where
      q: "poll_loop k ?j epoll True sp2 ?r = Some (Inr (True, True, sp', result'))" "poller sp' (fs @ nodes events) as'"
        "mset (hot sp') = filter_mset (\<lambda>e. \<not> ready e) (mset (hot sp2))" "mset hs = filter_mset ready (mset (hot sp2))"
        "result' = ?r\<lparr>hits := hits ?r @ hs\<rparr>" "sp' = sp2\<lparr>nfd_hot := nfd_hot sp', pollfd := pollfd sp', hot_data := hot_data sp'\<rparr>"
      by blast
    have "filter_mset (\<lambda>e. ready e \<and> \<not> idle_ready sp e) (mset (hot sp2)) = filter_mset ready (mset (hot sp2))"
      using noi unfolding ie by (intro filter_mset_cong refl) (auto simp: filter_empty_conv)
    then have "image_mset snd (filter_mset (\<lambda>e. ready e \<and> \<not> idle_ready sp e) (mset (hot sp))) = mset (map snd hs)"
      using t(4) True q(4) by simp
    moreover have "mset (map snd (hits result')) = mset (map snd (hits result)) + mset (hit_tasks sp 0 events) + mset (map snd hs)"
      using q(5) h(4) by (simp add: no_item_def flip: mset_map)
    moreover have "mset (hot sp') = filter_mset (\<lambda>e. \<not> ready e) (mset (hot sp))" using q(3) t(4) f(2) by simp
    moreover have s': "sp' = sp\<lparr>lists := lists sp', nfd_hot := nfd_hot sp', pollfd := pollfd sp', hot_data := hot_data sp'\<rparr>"
      by (subst q(6), subst t(5), subst h(7)) (simp, subst q(6), subst t(5), simp)
    moreover have "\<forall>n. idle_task sp' n = idle_task sp n"
    proof -
      have "idle_task sp' = idle_task sp1" by (subst q(6), subst t(5)) (simp add: idle_task_def fun_eq_iff)
      with h(6) show ?thesis by simp
    qed
    moreover have "hits_size result' = hits_size result" using q(5) \<open>hits_size result1 = hits_size result\<close> by simp
    ultimately show ?thesis unfolding step using q(1,2) h(3) by (intro exI [of _ sp'] exI [of _ result'] exI [of _ as']) (simp add: comp_def)
  next
    case False
    then have ni: "p_fd (pollfd sp ! ?j) \<noteq> idle_fd sp" using e f(2) by (simp add: idle_ready_def)
    from take_out [OF Suc.prems(1) f(3,1,2)] obtain sp1 where
      t: "SuperPoll_compact_down sp ?j = Inr sp1" "poller sp1 fs as" "scanned sp1 ?j" "mset (hot sp) = add_mset ?e (mset (hot sp1))"
        "sp1 = sp\<lparr>nfd_hot := nfd_hot sp1, pollfd := pollfd sp1, hot_data := hot_data sp1\<rparr>" by blast
    have ie: "idle_ready sp1 = idle_ready sp" by (subst t(5)) (simp add: idle_ready_def fun_eq_iff)
    let ?result = "result\<lparr>hits := hits result @ [?e]\<rparr>"
    have step: "poll_loop (Suc k) cur (Some events # epoll) b sp result = poll_loop k ?j (Some events # epoll) b sp1 ?result"
      using f(1) Suc.prems(1,6) ni t(1) e by (simp add: Let_def poller_def SuperPoll_add_hit_def)
    have "length (filter ready (hot sp1)) = k" using ready_count [OF t(4), of ready] f(2) Suc.prems(3) by simp
    moreover have "length (filter (idle_ready sp1) (hot sp1)) = 1"
      using ready_count [OF t(4), of "idle_ready sp"] Suc.prems(4) False by (auto simp: ie)
    moreover have "length (hits ?result) + k + length events \<le> hits_size ?result" using Suc.prems(6) by simp
    ultimately obtain sp' result' as' where
      ih: "poll_loop k ?j (Some events # epoll) b sp1 ?result = Some (Inr (True, True, sp', result'))"
        "poller sp' (fs @ nodes events) as'" "mset as = mset as' + mset (nodes events)"
        "mset (hot sp') = filter_mset (\<lambda>e. \<not> ready e) (mset (hot sp1))"
        "mset (map snd (hits result')) = mset (map snd (hits ?result)) + mset (hit_tasks sp1 0 events) +
          image_mset snd (filter_mset (\<lambda>e. ready e \<and> \<not> idle_ready sp1 e) (mset (hot sp1)))"
        "\<forall>n. idle_task sp' n = idle_task sp1 n" "hits_size result' = hits_size ?result"
        "sp' = sp1\<lparr>lists := lists sp', nfd_hot := nfd_hot sp', pollfd := pollfd sp', hot_data := hot_data sp'\<rparr>"
      using Suc.IH [OF t(2,3), of ?result b] Suc.prems(5) by blast
    have it: "idle_task sp1 = idle_task sp" by (subst t(5)) (simp add: idle_task_def fun_eq_iff)
    then have ht: "hit_tasks sp1 0 events = hit_tasks sp 0 events" by (simp add: hit_tasks_def)
    have "mset (hot sp') = filter_mset (\<lambda>e. \<not> ready e) (mset (hot sp))" using ih(4) t(4) f(2) by simp
    moreover have "mset (map snd (hits result')) = mset (map snd (hits result)) + mset (hit_tasks sp 0 events) +
        image_mset snd (filter_mset (\<lambda>e. ready e \<and> \<not> idle_ready sp e) (mset (hot sp)))"
      using ih(5) t(4) f(2) False by (simp add: ht ie)
    moreover have "sp' = sp\<lparr>lists := lists sp', nfd_hot := nfd_hot sp', pollfd := pollfd sp', hot_data := hot_data sp'\<rparr>"
      by (subst ih(8), subst t(5)) simp
    ultimately show ?thesis unfolding step using ih(1-3,6,7) it by (intro exI [of _ sp'] exI [of _ result'] exI [of _ as']) (simp add: comp_def)
  qed
qed

section \<open>A call of \<^verbatim>\<open>SuperPoll_poll\<close>\<close>

text \<open>The epoll has one entry in the hot set, and no task.\<close>

definition armed :: "superpoll \<Rightarrow> bool" where
  "armed sp \<longleftrightarrow> (\<exists>p. filter (\<lambda>e. p_fd (fst e) = idle_fd sp) (hot sp) = [(p, None)])"

definition poll_answer :: "superpoll \<Rightarrow> int \<Rightarrow> nat list \<Rightarrow> bool" where
  "poll_answer sp nfound revs \<longleftrightarrow> length revs = nfd_hot sp \<and> nfound = int (length (filter (\<lambda>r. r \<noteq> 0) revs))"

text \<open>The tasks whose entries are ready, and whether the epoll's entry is.\<close>

definition hot_hits :: "superpoll \<Rightarrow> nat list \<Rightarrow> nat multiset" where
  "hot_hits sp revs = tasks_of (map (snd \<circ> fst) (filter (\<lambda>(e, r). r \<noteq> 0) (zip (hot sp) revs)))"

definition epoll_ready :: "superpoll \<Rightarrow> nat list \<Rightarrow> bool" where
  "epoll_ready sp revs \<longleftrightarrow> (\<exists>(e, r)\<in>set (zip (hot sp) revs). p_fd (fst e) = idle_fd sp \<and> r \<noteq> 0)"

lemma with_revents_holds:
  assumes "poller sp fs as" "length revs = nfd_hot sp"
  shows "poller (with_revents revs sp) fs as"
    "hot (with_revents revs sp) = map2 (\<lambda>e r. ((fst e)\<lparr>p_revents := r\<rparr>, snd e)) (hot sp) revs"
proof -
  show "poller (with_revents revs sp) fs as" using assms by (simp add: poller_def with_revents_def)
  show "hot (with_revents revs sp) = map2 (\<lambda>e r. ((fst e)\<lparr>p_revents := r\<rparr>, snd e)) (hot sp) revs"
    using assms by (intro nth_equalityI) (auto simp: hot_def with_revents_def poller_def)
qed

lemma hit_or_dropped:
  "tasks_of (hit_tasks sp r events) + tasks_of (dropped_tasks sp r events) = tasks_of (map (idle_task sp) (nodes events))"
proof (induction r events rule: sticky.induct)
  case (2 r bits n rem events)
  then show ?case by (cases "idle_task sp n") (auto simp: hit_tasks_def dropped_tasks_def)
qed (simp add: hit_tasks_def dropped_tasks_def)

lemma tasks_of_image: "tasks_of (map f xs) = image_mset the (filter_mset (\<lambda>d. d \<noteq> None) (image_mset f (mset xs)))"
  by (simp add: tasks_of_def)

lemma tasks_of_split:
  assumes "mset xs = M + N" "mset ys = image_mset f M" "mset zs = image_mset f N"
  shows "tasks_of (map f xs) = tasks_of ys + tasks_of zs"
  using assms by (simp add: tasks_of_def)

lemma filter_revents:
  assumes "length revs = length es"
  shows "map snd (filter ready (map2 (\<lambda>e r. ((fst e)\<lparr>p_revents := r\<rparr>, snd e)) es revs)) =
     map (snd \<circ> fst) (filter (\<lambda>(e, r). r \<noteq> 0) (zip es revs))"
  using assms by (induction es revs rule: list_induct2') (auto simp: ready_def)

lemma length_ready_revs:
  "length es = length revs \<Longrightarrow> length (filter (\<lambda>(e, r). r \<noteq> 0) (zip es revs)) = length (filter (\<lambda>r. r \<noteq> (0 :: nat)) revs)"
  by (induction es revs rule: list_induct2) auto

lemma map_snd_revents:
  "length revs = length es \<Longrightarrow> map snd (map2 (\<lambda>e r. ((fst e)\<lparr>p_revents := r\<rparr>, snd e)) es revs) = map snd es"
  by (induction es revs rule: list_induct2') auto

lemma armed_idle:
  assumes "armed sp" "e \<in> set (hot sp)" "p_fd (fst e) = idle_fd sp"
  shows "snd e = None"
proof -
  obtain p where "filter (\<lambda>e. p_fd (fst e) = idle_fd sp) (hot sp) = [(p, None)]" using assms(1) by (auto simp: armed_def)
  moreover have "e \<in> set (filter (\<lambda>e. p_fd (fst e) = idle_fd sp) (hot sp))" using assms(2,3) by simp
  ultimately have "e \<in> set [(p, None)]" by metis
  then show ?thesis by simp
qed

lemma armed_with_revents:
  assumes "poller sp fs as" "length revs = nfd_hot sp" "armed sp"
  shows "armed (with_revents revs sp)"
    "length (filter (idle_ready (with_revents revs sp)) (hot (with_revents revs sp))) = (if epoll_ready sp revs then 1 else 0)"
    "length (filter ready (hot (with_revents revs sp))) = length (filter (\<lambda>r. r \<noteq> 0) revs)"
proof -
  let ?sp = "with_revents revs sp"
  have i: "idle_fd ?sp = idle_fd sp" by (simp add: with_revents_def)
  note h = with_revents_holds(2) [OF assms(1,2)]
  have l: "length (hot sp) = length revs" using assms(1,2) by simp
  have gen: "filter (\<lambda>e. p_fd (fst e) = fd) es = [(p, None)] \<Longrightarrow>
      (\<exists>q. filter (\<lambda>e. p_fd (fst e) = fd) (map2 (\<lambda>e r. ((fst e)\<lparr>p_revents := r\<rparr>, snd e)) es revs) = [(q, None)]) \<and>
      length (filter (\<lambda>e. p_fd (fst e) = fd \<and> ready e) (map2 (\<lambda>e r. ((fst e)\<lparr>p_revents := r\<rparr>, snd e)) es revs)) =
        (if \<exists>(e, r)\<in>set (zip es revs). p_fd (fst e) = fd \<and> r \<noteq> 0 then 1 else 0)"
    if "length es = length revs" for es :: "(pollitem \<times> nat option) list" and fd p
    using that
  proof (induction es revs rule: list_induct2)
    case (Cons e es r revs)
    show ?case
    proof (cases "p_fd (fst e) = fd")
      case True
      then have none: "filter (\<lambda>e. p_fd (fst e) = fd) es = []" and e: "e = (p, None)" using Cons.prems by auto
      from Cons.hyps none have "filter (\<lambda>e. p_fd (fst e) = fd) (map2 (\<lambda>e r. ((fst e)\<lparr>p_revents := r\<rparr>, snd e)) es revs) = []"
        "\<not> (\<exists>(e, r)\<in>set (zip es revs). p_fd (fst e) = fd \<and> r \<noteq> 0)"
        "filter (\<lambda>e. p_fd (fst e) = fd \<and> ready e) (map2 (\<lambda>e r. ((fst e)\<lparr>p_revents := r\<rparr>, snd e)) es revs) = []"
        by (induction es revs rule: list_induct2) (auto split: if_splits)
      then show ?thesis using True e by (auto simp: ready_def)
    next
      case False
      then show ?thesis using Cons by auto
    qed
  qed simp
  obtain p where "filter (\<lambda>e. p_fd (fst e) = idle_fd sp) (hot sp) = [(p, None)]" using assms(3) by (auto simp: armed_def)
  from gen [OF l this] show "armed ?sp" "length (filter (idle_ready ?sp) (hot ?sp)) = (if epoll_ready sp revs then 1 else 0)"
    unfolding armed_def idle_ready_def i h epoll_ready_def by simp_all
  show "length (filter ready (hot ?sp)) = length (filter (\<lambda>r. r \<noteq> 0) revs)"
    using arg_cong [OF filter_revents [of revs "hot sp"], of length] length_ready_revs [of "hot sp" revs] l by (simp add: h)
qed

text \<open>All that waited still waits, is hit, or is dropped; nothing is hit twice.\<close>

lemma poll_tasks_split:
  assumes "armed sp" "mset rest = filter_mset (\<lambda>e. \<not> ready e) (mset (hot sp))"
  shows "tasks_of (map snd (hot sp)) = tasks_of (map snd rest) +
     tasks_of (map snd (filter (\<lambda>e. ready e \<and> \<not> idle_ready sp e) (hot sp)))"
proof -
  let ?A = "filter (\<lambda>e. \<not> ready e) (hot sp)" and ?B = "filter (\<lambda>e. ready e \<and> \<not> idle_ready sp e) (hot sp)"
    and ?C = "filter (idle_ready sp) (hot sp)"
  have "mset (hot sp) = mset ?A + mset ?B + mset ?C"
    unfolding mset_filter by (rule multiset_eqI) (auto simp: idle_ready_def)
  from arg_cong [OF this, of "image_mset snd"] have "mset (map snd (hot sp)) = mset (map snd (?A @ ?B @ ?C))"
    by (simp only: mset_map mset_append image_mset_union map_append add.assoc)
  then have "tasks_of (map snd (hot sp)) = tasks_of (map snd (?A @ ?B @ ?C))" by (rule tasks_of_mset)
  moreover have "tasks_of (map snd ?C) = {#}"
  proof -
    have "filter (\<lambda>d. d \<noteq> None) (map snd ?C) = []"
      using armed_idle [OF assms(1)] by (auto simp: idle_ready_def filter_empty_conv)
    then show ?thesis unfolding tasks_of_def mset_filter [symmetric] by simp
  qed
  moreover have "tasks_of (map snd rest) = tasks_of (map snd ?A)"
    using assms(2) by (intro tasks_of_mset) simp
  ultimately show ?thesis by simp
qed

lemma ready_tasks:
  assumes "armed sp"
  shows "tasks_of (map snd (filter ready (hot sp))) = tasks_of (map snd (filter (\<lambda>e. ready e \<and> \<not> idle_ready sp e) (hot sp)))"
proof -
  have "tasks_of (map snd (filter ready es)) = tasks_of (map snd (filter (\<lambda>e. ready e \<and> \<not> idle_ready sp e) es))"
    if "\<forall>e\<in>set es. p_fd (fst e) = idle_fd sp \<longrightarrow> snd e = None" for es
    using that
  proof (induction es)
    case (Cons e es)
    then show ?case by (cases e; cases "snd e") (auto simp: idle_ready_def)
  qed simp
  then show ?thesis using armed_idle [OF assms] by blast
qed

text \<open>The entry of the epoll stays as long as it is not ready, and is armed again when it was.\<close>

lemma armed_rest:
  assumes "armed sp" "filter (idle_ready sp) (hot sp) = []" "mset (hot sp') = filter_mset (\<lambda>e. \<not> ready e) (mset (hot sp))"
    "idle_fd sp' = idle_fd sp"
  shows "armed sp'"
proof -
  obtain p where p: "filter (\<lambda>e. p_fd (fst e) = idle_fd sp) (hot sp) = [(p, None)]" using assms(1) by (auto simp: armed_def)
  have "mset (filter (\<lambda>e. p_fd (fst e) = idle_fd sp) (hot sp')) = mset (filter (\<lambda>e. p_fd (fst e) = idle_fd sp) (hot sp))"
    unfolding mset_filter assms(3) filter_filter_mset using assms(2)
    by (intro filter_mset_cong refl) (auto simp: idle_ready_def filter_empty_conv)
  then have "filter (\<lambda>e. p_fd (fst e) = idle_fd sp) (hot sp') = [(p, None)]"
    unfolding p by (simp only: mset.simps mset_single_iff)
  then show ?thesis by (auto simp: armed_def assms(4))
qed

lemma unarmed_rest:
  assumes "armed sp" "length (filter (idle_ready sp) (hot sp)) = 1" "mset (hot sp') = filter_mset (\<lambda>e. \<not> ready e) (mset (hot sp))"
  shows "filter (\<lambda>e. p_fd (fst e) = idle_fd sp) (hot sp') = []"
proof -
  obtain p where p: "filter (\<lambda>e. p_fd (fst e) = idle_fd sp) (hot sp) = [(p, None)]" using assms(1) by (auto simp: armed_def)
  have "filter (idle_ready sp) (hot sp) = filter ready (filter (\<lambda>e. p_fd (fst e) = idle_fd sp) (hot sp))"
    unfolding filter_filter by (rule filter_cong) (auto simp: idle_ready_def)
  then have "ready (p, None)" using assms(2) by (simp add: p split: if_splits)
  have "mset (filter (\<lambda>e. p_fd (fst e) = idle_fd sp) (hot sp')) =
      mset (filter (\<lambda>e. \<not> ready e) (filter (\<lambda>e. p_fd (fst e) = idle_fd sp) (hot sp)))"
    unfolding mset_filter assms(3) filter_filter_mset by (intro filter_mset_cong refl) auto
  then have "mset (filter (\<lambda>e. p_fd (fst e) = idle_fd sp) (hot sp')) = mset []" using \<open>ready (p, None)\<close> by (simp add: p)
  then show ?thesis by (simp only: mset.simps mset_zero_iff)
qed

text \<open>The poll as a whole.\<close>

lemma SuperPoll_poll_holds:
  assumes "poller sp fs as" "armed sp" "poll_answer sp nfound revs" "events_ok as events"
    "hits_size result = max_hot sp + max_idle sp"
  shows "\<exists>sp' result' fs' as'. SuperPoll_poll sp result (nfound, eintr, revs) [Some events] =
       Some (Inr (int (length (hits result')), sp', result')) \<and>
     poller sp' fs' as' \<and> armed sp' \<and> hits_size result' = hits_size result \<and> max_hot sp' = max_hot sp \<and> max_idle sp' = max_idle sp \<and>
     tasks_of (map snd (hits result')) = hot_hits sp revs + (if epoll_ready sp revs then tasks_of (hit_tasks sp 0 events) else {#}) \<and>
     waiting sp as = waiting sp' as' + tasks_of (map snd (hits result')) +
       (if epoll_ready sp revs then tasks_of (dropped_tasks sp 0 events) else {#}) \<and>
     nfd_hot sp + length as = nfd_hot sp' + length as' + length (hits result') +
       (if epoll_ready sp revs then length (dropped_tasks sp 0 events) else 0)"
proof -
  let ?sp = "with_revents revs sp" and ?result = "result\<lparr>hits := [], hot_fds := nfound\<rparr>"
  have len: "length revs = nfd_hot sp" using assms(3) by (simp add: poll_answer_def)
  note P = with_revents_holds [OF assms(1) len] and A = armed_with_revents [OF assms(1) len assms(2)]
  have sc: "scanned ?sp 0" by (simp add: scanned_def)
  have k: "length (filter ready (hot ?sp)) = nat nfound" using A(3) assms(3) by (simp add: poll_answer_def)
  have same: "max_hot ?sp = max_hot sp" "max_idle ?sp = max_idle sp" "idle_task ?sp = idle_task sp" "nfd_hot ?sp = nfd_hot sp"
    "idle_fd ?sp = idle_fd sp" by (auto simp: with_revents_def idle_task_def fun_eq_iff)
  have mh: "nfd_hot sp \<le> max_hot sp" using assms(1) by (simp add: poller_def)
  have kn: "nat nfound \<le> max_hot sp"
    using length_filter_le [of ready "hot ?sp"] hot_length [OF P(1)] k same(4) assms(1) by (simp add: poller_def)
  have hw: "tasks_of (map snd (hot ?sp)) = tasks_of (map snd (hot sp))"
    unfolding P(2) using len assms(1) by (simp only: map_snd_revents hot_length)
  have hh: "hot_hits sp revs = tasks_of (map snd (filter ready (hot ?sp)))"
    using filter_revents [of revs "hot sp"] len assms(1) by (simp add: hot_hits_def P(2))
  show ?thesis
  proof (cases "epoll_ready sp revs")
    case False
    then have noi: "filter (idle_ready ?sp) (hot ?sp) = []" using A(2) by simp
    have cap: "length (hits ?result) + nat nfound \<le> hits_size ?result" using kn assms(5) by simp
    from poll_loop_hot [OF P(1) sc k noi cap] obtain sp1 hs where
      l: "poll_loop (nat nfound) 0 [Some events] False ?sp ?result = Some (Inr (True, False, sp1, ?result\<lparr>hits := hs\<rparr>))"
        "poller sp1 fs as" "mset (hot sp1) = filter_mset (\<lambda>e. \<not> ready e) (mset (hot ?sp))" "mset hs = filter_mset ready (mset (hot ?sp))"
        "sp1 = ?sp\<lparr>nfd_hot := nfd_hot sp1, pollfd := pollfd sp1, hot_data := hot_data sp1\<rparr>" by fastforce
    have w: "SuperPoll_poll sp result (nfound, eintr, revs) [Some events] = Some (Inr (int (length hs), sp1, ?result\<lparr>hits := hs\<rparr>))"
      using l(1) assms(3) by (simp add: SuperPoll_poll_def poll_answer_def)
    have i1: "idle_task sp1 = idle_task sp" "max_hot sp1 = max_hot sp" "max_idle sp1 = max_idle sp" "idle_fd sp1 = idle_fd sp"
      using same by (subst l(5); simp add: idle_task_def fun_eq_iff)+
    have hs: "tasks_of (map snd hs) = hot_hits sp revs" unfolding hh using l(4) by (intro tasks_of_mset) simp
    have rb: "filter (\<lambda>e. ready e \<and> \<not> idle_ready ?sp e) (hot ?sp) = filter ready (hot ?sp)"
      using noi by (intro filter_cong refl) (auto simp: filter_empty_conv)
    have "tasks_of (map snd (hot sp)) = tasks_of (map snd (hot sp1)) + hot_hits sp revs"
      using poll_tasks_split [OF A(1) l(3)] unfolding rb hw hh .
    then have "waiting sp as = waiting sp1 as + hot_hits sp revs" by (simp add: waiting_def i1)
    moreover have "armed sp1"
      using A(1) noi l(3) i1(4) same(5) by (auto intro: armed_rest)
    moreover have "nfd_hot sp + length as = nfd_hot sp1 + length as + length hs"
    proof -
      have "length (hot sp1) = length (filter (\<lambda>e. \<not> ready e) (hot ?sp))" using arg_cong [OF l(3), of size] by (simp flip: mset_filter)
      moreover have "length hs = length (filter ready (hot ?sp))" using arg_cong [OF l(4), of size] by (simp flip: mset_filter)
      ultimately show ?thesis
        using sum_length_filter_compl [of ready "hot ?sp"] hot_length [OF l(2)] hot_length [OF P(1)] same(4) by linarith
    qed
    ultimately show ?thesis using w l(2) i1 hs False
      by (intro exI [of _ sp1] exI [of _ "?result\<lparr>hits := hs\<rparr>"] exI [of _ fs] exI [of _ as]) simp
  next
    case True
    then have one: "length (filter (idle_ready ?sp) (hot ?sp)) = 1" using A(2) by simp
    have "set (nodes events) \<subseteq> set as" "distinct (nodes events)" using assms(4) by (auto simp: events_ok_def)
    then have "length events \<le> length as" by (metis card_mono distinct_card length_map List.finite_set card_length le_trans)
    then have le: "length events \<le> max_idle sp" using assms(1) by (simp add: poller_def)
    have cap: "length (hits ?result) + nat nfound + length events \<le> hits_size ?result" using kn le assms(5) by simp
    from poll_loop_idle [OF P(1) sc k one assms(4) cap, of "[]" False] obtain sp1 result1 as' where
      l: "poll_loop (nat nfound) 0 [Some events] False ?sp ?result = Some (Inr (True, True, sp1, result1))"
        "poller sp1 (fs @ nodes events) as'" "mset as = mset as' + mset (nodes events)"
        "mset (hot sp1) = filter_mset (\<lambda>e. \<not> ready e) (mset (hot ?sp))"
        "mset (map snd (hits result1)) = mset (map snd (hits ?result)) + mset (hit_tasks ?sp 0 events) +
          image_mset snd (filter_mset (\<lambda>e. ready e \<and> \<not> idle_ready ?sp e) (mset (hot ?sp)))"
        "\<forall>n. idle_task sp1 n = idle_task ?sp n" "hits_size result1 = hits_size ?result"
        "sp1 = ?sp\<lparr>lists := lists sp1, nfd_hot := nfd_hot sp1, pollfd := pollfd sp1, hot_data := hot_data sp1\<rparr>" by blast
    have i1: "max_hot sp1 = max_hot sp" "max_idle sp1 = max_idle sp" "idle_fd sp1 = idle_fd sp"
      using same by (subst l(8); simp)+
    have "length (hot sp1) = length (filter (\<lambda>e. \<not> ready e) (hot ?sp))" using arg_cong [OF l(4), of size] by (simp flip: mset_filter)
    moreover have "length (filter ready (hot ?sp)) > 0" using one by (auto simp: idle_ready_def length_Suc_conv filter_eq_Cons_iff)
    ultimately have lt: "nfd_hot sp1 < max_hot sp1"
      using sum_length_filter_compl [of ready "hot ?sp"] hot_length [OF l(2)] hot_length [OF P(1)] same(4) mh i1(1) by linarith
    from SuperPoll_add_poll_holds [OF l(2) lt, of "CHR ''r''" None None "idle_fd sp1"] obtain sp2 p where
      r: "SuperPoll_arm_idle_fd sp1 = Inr (int (nfd_hot sp1) + 1, sp2)" "poller sp2 (fs @ nodes events) as'"
        "hot sp2 = hot sp1 @ [(p, None)]" "p_fd p = idle_fd sp1"
        "sp2 = sp1\<lparr>pollfd := pollfd sp2, hot_data := hot_data sp2, nfd_hot := nfd_hot sp1 + 1\<rparr>"
      by (auto simp: SuperPoll_arm_idle_fd_def)
    have i2: "max_hot sp2 = max_hot sp" "max_idle sp2 = max_idle sp" "idle_fd sp2 = idle_fd sp" "idle_task sp2 = idle_task sp1"
      using i1 by (subst r(5); simp add: idle_task_def fun_eq_iff)+
    have w: "SuperPoll_poll sp result (nfound, eintr, revs) [Some events] = Some (Inr (int (length (hits result1)), sp2, result1))"
      using l(1) r(1) assms(3) by (simp add: SuperPoll_poll_def poll_answer_def)
    have "armed sp2"
      using unarmed_rest [OF A(1) one l(4)] r(3,4) i1(3) i2(3) same(5) by (simp add: armed_def)
    moreover have ht: "hit_tasks ?sp 0 events = hit_tasks sp 0 events" "dropped_tasks ?sp 0 events = dropped_tasks sp 0 events"
      by (simp_all add: hit_tasks_def dropped_tasks_def same(3))
    moreover have hot: "tasks_of (map snd (hot sp)) = tasks_of (map snd (hot sp1)) +
        tasks_of (map snd (filter (\<lambda>e. ready e \<and> \<not> idle_ready ?sp e) (hot ?sp)))"
      using poll_tasks_split [OF A(1) l(4)] hw by simp
    moreover have hh2: "hot_hits sp revs = tasks_of (map snd (filter (\<lambda>e. ready e \<and> \<not> idle_ready ?sp e) (hot ?sp)))"
      unfolding hh by (rule ready_tasks [OF A(1)])
    moreover have "tasks_of (map snd (hits result1)) = tasks_of (hit_tasks sp 0 events) + hot_hits sp revs"
    proof -
      have "mset (map snd (hits result1)) =
          mset (hit_tasks sp 0 events @ map snd (filter (\<lambda>e. ready e \<and> \<not> idle_ready ?sp e) (hot ?sp)))"
        using l(5) ht by simp
      then show ?thesis using tasks_of_mset hh2 by (metis tasks_of_simps(4))
    qed
    moreover have "tasks_of (map (idle_task sp) as) = tasks_of (map (idle_task sp2) as') + tasks_of (map (idle_task sp) (nodes events))"
    proof -
      have "idle_task sp2 = idle_task sp" using i2(4) l(6) same(3) by (simp add: fun_eq_iff)
      moreover have "mset (map (idle_task sp) as) = mset (map (idle_task sp) (as' @ nodes events))"
        unfolding mset_map [of _ as] l(3) by (simp add: image_mset.compositionality)
      ultimately show ?thesis using tasks_of_mset by (metis map_append tasks_of_simps(4))
    qed
    moreover have "nfd_hot sp + length as = nfd_hot sp2 + length as' + length (hits result1) + length (dropped_tasks sp 0 events)"
    proof -
      let ?other = "\<lambda>e. ready e \<and> \<not> idle_ready ?sp e"
      have a: "length (hot sp1) = length (filter (\<lambda>e. \<not> ready e) (hot ?sp))" using arg_cong [OF l(4), of size] by (simp flip: mset_filter)
      have b: "length (hits result1) = length (hit_tasks sp 0 events) + length (filter ?other (hot ?sp))"
        using arg_cong [OF l(5), of size] ht by (simp flip: mset_filter)
      have c: "length as = length as' + length events" using arg_cong [OF l(3), of size] by simp
      have d: "length (filter ready (hot ?sp)) = length (filter (idle_ready ?sp) (hot ?sp)) + length (filter ?other (hot ?sp))"
        using sum_length_filter_compl [of "idle_ready ?sp" "filter ready (hot ?sp)"]
        by (simp add: idle_ready_def conj_commute cong: filter_cong)
      have e: "length events = length (hit_tasks sp 0 events) + length (dropped_tasks sp 0 events)"
        using sum_length_filter_compl [of "\<lambda>(e, rv). rv \<noteq> 0" "zip events (sticky 0 events)"]
        by (simp add: hit_tasks_def dropped_tasks_def case_prod_unfold)
      have "nfd_hot sp2 = nfd_hot sp1 + 1" by (subst r(5)) simp
      then show ?thesis
        using a b c d e one sum_length_filter_compl [of ready "hot ?sp"] hot_length [OF l(2)] hot_length [OF P(1)] same(4) by linarith
    qed
    ultimately show ?thesis using w r(2) i2 True l(7) hit_or_dropped [of sp 0 events]
      by (intro exI [of _ sp2] exI [of _ result1] exI [of _ "fs @ nodes events"] exI [of _ as'])
        (simp add: waiting_def r(3) ac_simps)
  qed
qed

section \<open>A new poller\<close>

lemma lnode_create_keeps:
  assumes "adt_list h l xs" "a \<noteq> l" "a \<notin> set xs"
  shows "adt_list (snd (lnode_create (Some a) d h)) l xs" "free_node (snd (lnode_create (Some a) d h)) a"
  using assms by (auto simp: lnode_create_def adt_list_def free_node_def)

lemma prime_free_holds:
  assumes "adt_list (lists sp) (idle_free sp) ns" "distinct (ns @ addrs)" "idle_free sp \<notin> set addrs"
    "length ns + length addrs \<le> list_maxcount (lists sp) (idle_free sp)" "list_maxcount (lists sp) (idle_free sp) < 2 ^ 63"
  shows "\<exists>sp'. prime_free i addrs sp = Some (Inr sp') \<and> adt_list (lists sp') (idle_free sp) (ns @ addrs) \<and>
     (\<forall>k<length addrs. l_data (lists sp') (addrs ! k) = i + k) \<and> (\<forall>n. n \<notin> set addrs \<longrightarrow> l_data (lists sp') n = l_data (lists sp) n) \<and>
     list_maxcount (lists sp') = list_maxcount (lists sp) \<and> sp' = sp\<lparr>lists := lists sp'\<rparr>"
  using assms
proof (induction addrs arbitrary: i ns sp)
  case (Cons a addrs)
  let ?h = "snd (lnode_create (Some a) i (lists sp))" and ?f = "idle_free sp"
  have a: "a \<noteq> ?f" "a \<notin> set ns" using Cons.prems(2,3) by auto
  note k = lnode_create_keeps [OF Cons.prems(1) a, of i]
  have mc: "list_maxcount ?h = list_maxcount (lists sp)" "l_data ?h = (l_data (lists sp))(a := i)" by (simp_all add: lnode_create_def)
  from list_append_holds [OF k] Cons.prems(4,5) mc obtain h1 where
    h1: "list_append ?f a ?h = Some (Inr h1)" "adt_list h1 ?f (ns @ [a])" "adt_frame ?h h1 ?f (insert a (set ns))" by auto
  have d1: "l_data h1 = (l_data (lists sp))(a := i)" "list_maxcount h1 = list_maxcount (lists sp)"
    using h1(3) mc by (simp_all add: adt_frame_def)
  have "\<exists>sp'. prime_free (Suc i) addrs (sp\<lparr>lists := h1\<rparr>) = Some (Inr sp') \<and> adt_list (lists sp') ?f ((ns @ [a]) @ addrs) \<and>
     (\<forall>k<length addrs. l_data (lists sp') (addrs ! k) = Suc i + k) \<and> (\<forall>n. n \<notin> set addrs \<longrightarrow> l_data (lists sp') n = l_data h1 n) \<and>
     list_maxcount (lists sp') = list_maxcount h1 \<and> sp' = (sp\<lparr>lists := h1\<rparr>)\<lparr>lists := lists sp'\<rparr>"
    using Cons.IH [of "sp\<lparr>lists := h1\<rparr>" "ns @ [a]" "Suc i"] Cons.prems h1(2) d1(2) by auto
  then obtain sp' where s: "prime_free (Suc i) addrs (sp\<lparr>lists := h1\<rparr>) = Some (Inr sp')"
    "adt_list (lists sp') ?f ((ns @ [a]) @ addrs)" "\<forall>k<length addrs. l_data (lists sp') (addrs ! k) = Suc i + k"
    "\<forall>n. n \<notin> set addrs \<longrightarrow> l_data (lists sp') n = l_data h1 n" "list_maxcount (lists sp') = list_maxcount h1"
    "sp' = sp\<lparr>lists := lists sp'\<rparr>" by auto
  have "l_data (lists sp') ((a # addrs) ! k) = i + k" if "k < length (a # addrs)" for k
    using that s(3,4) d1(1) Cons.prems(2) by (cases k) auto
  moreover have "l_data (lists sp') n = l_data (lists sp) n" if "n \<notin> set (a # addrs)" for n
    using that s(4) d1(1) by auto
  ultimately show ?case using s h1(1) d1(2) by (intro exI [of _ sp']) simp
qed auto

lemma SuperPoll_create_holds:
  assumes "dividend \<noteq> 0" "0 < maxfd div dividend" "maxfd div dividend < maxfd" "maxfd < 2 ^ 63" "efd \<noteq> -1"
    "distinct (free # active # addrs)" "length addrs = maxfd - maxfd div dividend"
  shows "\<exists>sp. SuperPoll_create maxfd dividend efd free active addrs = Some (Inr (Some sp)) \<and> poller sp addrs [] \<and> armed sp \<and>
     waiting sp [] = {#} \<and> max_hot sp = maxfd div dividend \<and> idle_fd sp = efd \<and> nfd_hot sp = 1"
proof -
  let ?m = "maxfd div dividend" and ?n = "maxfd - maxfd div dividend"
  let ?ls = "\<lparr>l_next = (\<lambda>_. None), l_prev = (\<lambda>_. None), l_data = (\<lambda>_. 0), list_nodecount = (\<lambda>_. 0), list_maxcount = (\<lambda>_. 0)\<rparr> :: nat list_store"
  let ?sp = "\<lparr>pollfd = [], hot_data = [], nfd_hot = 0, max_hot = ?m, idle_fd = 0, max_idle = 0, idle_data = [],
     idle_active = 0, idle_free = 0, lists = ?ls\<rparr>"
  have b: "?n < 2 ^ 63" using assms(4) by (rule le_less_trans [OF diff_le_self])
  obtain h1 where h1: "list_init free ?n ?ls = Inr h1" "adt_list h1 free []" "list_maxcount h1 free = ?n"
    using assms(3) by (auto simp: list_init_def adt_list_def)
  let ?sp1 = "?sp\<lparr>max_idle := ?n, idle_fd := efd, idle_data := replicate ?n \<lparr>i_fd = 0, i_data = None\<rparr>, idle_free := free, lists := h1\<rparr>"
  obtain sp2 where s2: "prime_free 0 addrs ?sp1 = Some (Inr sp2)" "adt_list (lists sp2) free addrs"
    "\<forall>k<length addrs. l_data (lists sp2) (addrs ! k) = k" "list_maxcount (lists sp2) = list_maxcount h1" "sp2 = ?sp1\<lparr>lists := lists sp2\<rparr>"
    using prime_free_holds [of ?sp1 "[]" addrs 0] h1 b assms(6,7) by auto
  obtain h3 where h3: "list_init active ?n (lists sp2) = Inr h3" "adt_list h3 active []" "list_maxcount h3 active = ?n"
    "list_maxcount h3 free = list_maxcount (lists sp2) free" "l_data h3 = l_data (lists sp2)" "adt_list h3 free addrs"
    using assms(3,6) s2(2) by (auto simp: list_init_def adt_list_def)
  let ?sp4 = "sp2\<lparr>idle_active := active, lists := h3, pollfd := replicate ?m no_item, hot_data := replicate ?m None\<rparr>"
  have su: "SuperPoll_setup_idle ?sp maxfd efd free active addrs = Some (Inr (0, sp2\<lparr>idle_active := active, lists := h3\<rparr>))"
    using assms(3,5,7) h1(1) s2(1) h3(1) by (simp add: SuperPoll_setup_idle_def Let_def)
  have f: "max_hot ?sp4 = ?m" "max_idle ?sp4 = ?n" "nfd_hot ?sp4 = 0" "idle_fd ?sp4 = efd" "idle_free ?sp4 = free"
    "idle_data ?sp4 = replicate ?n \<lparr>i_fd = 0, i_data = None\<rparr>" by (subst s2(5); simp)+
  have idx: "l_data h3 n < ?n \<and> (\<forall>k\<in>set addrs. l_data h3 k = l_data h3 n \<longrightarrow> k = n)" if "n \<in> set addrs" for n
    using that s2(3) assms(7) h3(5) by (auto simp: in_set_conv_nth)
  have p4: "poller ?sp4 addrs []"
    unfolding poller_def f using h1(3) h3 b assms(6,7) s2(4) idx by (auto simp: inj_on_def)
  have lt: "nfd_hot ?sp4 < max_hot ?sp4" using f assms(2) by simp
  have hot4: "hot ?sp4 = []" using f(3) by (simp add: hot_def)
  from SuperPoll_add_poll_holds [OF p4 lt, of "CHR ''r''" None None efd] f hot4 obtain sp5 p where
    r: "SuperPoll_arm_idle_fd ?sp4 = Inr (1, sp5)" "poller sp5 addrs []" "hot sp5 = [(p, None)]" "p_fd p = efd"
      "sp5 = ?sp4\<lparr>pollfd := pollfd sp5, hot_data := hot_data sp5, nfd_hot := 1\<rparr>"
    by (auto simp: SuperPoll_arm_idle_fd_def)
  have g: "idle_fd sp5 = efd" "max_hot sp5 = ?m" "nfd_hot sp5 = 1" using f by (subst r(5); simp)+
  have "SuperPoll_create maxfd dividend efd free active addrs = Some (Inr (Some sp5))"
    using assms(1) su r(1) by (simp add: SuperPoll_create_def Let_def)
  moreover have "armed sp5" using r(3,4) g by (simp add: armed_def)
  moreover have "waiting sp5 [] = {#}" using r(3) by (simp add: waiting_def)
  ultimately show ?thesis using r(2) g by blast
qed

end
