(* ===== verification/Fdtask.thy ===== *)
theory Fdtask
  imports Locks Sleep Poller
begin

text \<open>
  The rest of \<^verbatim>\<open>task/fd.c\<close>: waiting for a descriptor or a ZeroMQ socket, the task that polls for all others, and taking
  a task out of the poll.  The loops of \<^verbatim>\<open>fdrecv\<close> and \<^verbatim>\<open>fdsend\<close> around \<^verbatim>\<open>fdwait\<close> are in \<open>Wire\<close>.
\<close>

section \<open>Waiting\<close>

definition wait_name :: "nat option \<Rightarrow> int \<Rightarrow> char \<Rightarrow> string" where
  "wait_name socket fd rw =
     ''wait '' @ int_digits (case socket of Some p \<Rightarrow> to_int32 (int p) | None \<Rightarrow> fd) @ '':'' @
     (if rw = CHR ''r'' then ''read'' else if rw = CHR ''w'' then ''write'' else ''error'')"

text \<open>\<^verbatim>\<open>_wait\<close>, behind \<^verbatim>\<open>startfdtask\<close>.  The task leaves whether it has been registered or not.\<close>

definition task_wait ::
    "nat option \<Rightarrow> int \<Rightarrow> char \<Rightarrow> ctl_answer \<Rightarrow> superpoll \<Rightarrow> sched \<Rightarrow> (superpoll \<times> sched) cres option" where
  "task_wait socket fd rw ctl sp s =
     walk_bind (Some (taskstate (wait_name socket fd rw) s)) (\<lambda>s.
       walk_bind (SuperPoll_add sp (taskrunning s) socket fd rw (nfd_hot sp < max_hot sp) ctl) (\<lambda>(max, sp).
         walk_bind (Some (taskswitch (Res_wait (max \<noteq> -1)) s)) (\<lambda>s. Some (Inr (sp, s)))))"

definition fdwait :: "int \<Rightarrow> char \<Rightarrow> ctl_answer \<Rightarrow> superpoll \<Rightarrow> sched \<Rightarrow> (superpoll \<times> sched) cres option" where
  "fdwait fd rw = task_wait None fd rw"

definition mqwait :: "nat option \<Rightarrow> char \<Rightarrow> ctl_answer \<Rightarrow> superpoll \<Rightarrow> sched \<Rightarrow> (superpoll \<times> sched) cres option" where
  "mqwait socket rw = task_wait socket (-1) rw"

definition wait_result :: "bool \<Rightarrow> int" where
  "wait_result ok = (if ok then 0 else -1)"

section \<open>Polling\<close>

fun ready_hits :: "(pollitem \<times> nat option) list \<Rightarrow> sched \<Rightarrow> sched cres" where
  "ready_hits [] s = Inr s"
| "ready_hits ((_, None) # hs) s = Inl Null_deref"
| "ready_hits ((_, Some t) # hs) s = ready_hits hs (taskready t s)"

text \<open>
  The body of the loop of \<^verbatim>\<open>fdtask\<close> behind the yielding: \<open>now1\<close> and \<open>now2\<close> are what the clock answers in front of the poll
  and behind it.  The result is \<open>None\<close> when the poll fails, which ends the process.
\<close>

definition fdtask_poll ::
    "64 word \<Rightarrow> 64 word \<Rightarrow> (int \<Rightarrow> zmq_answer) \<Rightarrow> epoll_event list option list \<Rightarrow> superpoll \<Rightarrow> PollResult \<Rightarrow> sched \<Rightarrow>
     (superpoll \<times> PollResult \<times> sched) option cres option" where
  "fdtask_poll now1 now2 zmq epoll sp result s =
     walk_bind (Some (taskstate ''poll'' s)) (\<lambda>s.
       let ms = next_task_sleeptime 500 now1 s in
       walk_bind (SuperPoll_poll sp result (zmq ms) epoll) (\<lambda>(rc, sp, result).
         if rc = -1 then Some (Inr None)
         else walk_bind (Some (ready_hits (take (nat rc) (hits result)) s)) (\<lambda>s.
           Option.bind (wake_sleepers now2 s) (\<lambda>s. Some (Inr (Some (sp, result, s)))))))"

section \<open>Nuking\<close>

text \<open>Only the hot set is searched.\<close>

definition nuke_at :: "int \<Rightarrow> superpoll \<Rightarrow> sched \<Rightarrow> nat \<Rightarrow> bool" where
  "nuke_at i sp s k \<longleftrightarrow> (case hot_data sp ! k of None \<Rightarrow> False | Some t \<Rightarrow> t_id s t = i)"

fun nuke_loop :: "nat list \<Rightarrow> int \<Rightarrow> superpoll \<Rightarrow> sched \<Rightarrow> (int \<times> superpoll) cres" where
  "nuke_loop [] i sp s = Inr (-1, sp)"
| "nuke_loop (k # ks) i sp s =
     (if \<not> k < length (hot_data sp) then Inl Out_of_bounds
      else if nuke_at i sp s k then cbind (SuperPoll_compact_down sp k) (\<lambda>sp. Inr (0, sp))
      else nuke_loop ks i sp s)"

definition tasknuke :: "int \<Rightarrow> superpoll \<Rightarrow> sched \<Rightarrow> (int \<times> superpoll) cres" where
  "tasknuke i sp s = nuke_loop [0..<nfd_hot sp] i sp s"

definition SuperPoll_active_count :: "superpoll \<Rightarrow> nat" where
  "SuperPoll_active_count sp = nfd_hot sp + list_count (lists sp) (idle_active sp)"

definition taskwaiting :: "superpoll \<Rightarrow> int" where
  "taskwaiting sp = int (SuperPoll_active_count sp) - 1"

section \<open>Starting\<close>

text \<open>
  \<^verbatim>\<open>POLL\<close> and \<^verbatim>\<open>STARTED_FDTASK\<close>: the poller is created at the first use.  \<open>created\<close> is what \<^verbatim>\<open>SuperPoll_create\<close> answers; a
  null pointer is kept.
\<close>

definition startfdtask ::
    "superpoll option \<Rightarrow> nat option \<Rightarrow> bool \<Rightarrow> bool \<times> superpoll option \<times> sched \<Rightarrow> (bool \<times> superpoll option \<times> sched) cres" where
  "startfdtask created addr mem_ok = (\<lambda>(started, sp, s).
     if started then Inr (started, sp, s)
     else cbind (taskcreate addr mem_ok s) (\<lambda>(_, s). Inr (True, created, s)))"

end
