(* ===== verification/Config.thy ===== *)
theory Config
  imports Fdtask Connection
begin

text \<open>
  \<^verbatim>\<open>src/config/config.c\<close> and \<^verbatim>\<open>db.c\<close>: the tables of handlers, proxies and directories, the
  server with its hosts and routes, MIME types and settings, as the rows of the database give
  them.  SQLite is a parameter: the code and the rows each query answers, texts without a
  terminator inside, no \<^verbatim>\<open>NULL\<close> columns.  Allocations all succeed or all fail.
\<close>

section \<open>The database\<close>

type_synonym sql_answer = "int \<times> string list list"

record config_db =
  q_handlers :: sql_answer
  q_proxies :: sql_answer
  q_dirs :: sql_answer
  q_mimetypes :: sql_answer
  q_settings :: sql_answer
  q_server :: "string \<Rightarrow> sql_answer"
  q_hosts :: "string \<Rightarrow> sql_answer"
  q_routes :: "string \<Rightarrow> string \<Rightarrow> sql_answer"

text \<open>\<^verbatim>\<open>sqlite3_exec\<close> calls back for every row and gives up when a callback fails.\<close>

fun exec_rows :: "('s \<Rightarrow> string list \<Rightarrow> (int \<times> 's) cres) \<Rightarrow> string list list \<Rightarrow> 's \<Rightarrow> (int \<times> 's) cres" where
  "exec_rows cb [] s = Inr (0, s)"
| "exec_rows cb (row # rows) s = cbind (cb s row) (\<lambda>(rc, s). if rc \<noteq> 0 then Inr (4, s) else exec_rows cb rows s)"

definition DB_exec :: "('s \<Rightarrow> string list \<Rightarrow> (int \<times> 's) cres) \<Rightarrow> sql_answer \<Rightarrow> 's \<Rightarrow> (int \<times> 's) cres" where
  "DB_exec cb ans s =
     cbind (exec_rows cb (snd ans) s) (\<lambda>(rc, s). if rc = 0 \<and> fst ans = 0 then Inr (0, s) else Inr (-1, s))"

text \<open>\<^verbatim>\<open>CONFIG_DB\<close> is set even when opening fails.\<close>

definition DB_init :: "bool \<Rightarrow> int \<Rightarrow> (int \<times> bool) cres" where
  "DB_init opened rc = (if opened then Inl Assert_fail else Inr (rc, True))"

definition DB_close :: "bool \<Rightarrow> bool" where
  "DB_close opened = False"

section \<open>The tables\<close>

text \<open>A directory is known by the number of its creation.\<close>

record config =
  LOADED_HANDLERS :: "handler tst"
  LOADED_PROXIES :: "proxy tst"
  LOADED_DIRS :: "nat tst"
  made_dirs :: "dir list"
  HANDLER_STACK :: int
  dir_limits :: dir_limits
  host_limits :: host_limits
  settings :: settings
  mimes :: mime_state

definition Config_load_handler_cb :: "bool \<Rightarrow> config \<Rightarrow> string list \<Rightarrow> (int \<times> config) cres" where
  "Config_load_handler_cb m cfg d =
     (if length d \<noteq> 5 then Inr (-1, cfg)
      else
        (let (h, stack) = Handler_create (settings cfg) m (HANDLER_STACK cfg) (d ! 1) (d ! 2) (d ! 3) (d ! 4);
             cfg = cfg\<lparr>HANDLER_STACK := stack\<rparr> in
         case h of
           None \<Rightarrow> Inr (-1, cfg)
         | Some h \<Rightarrow> cbind (tst_insert (LOADED_HANDLERS cfg) (d ! 0) h) (\<lambda>t. Inr (0, cfg\<lparr>LOADED_HANDLERS := t\<rparr>))))"

definition Config_load_handlers :: "bool \<Rightarrow> config_db \<Rightarrow> config \<Rightarrow> (int \<times> config) cres" where
  "Config_load_handlers m db cfg = DB_exec (Config_load_handler_cb m) (q_handlers db) cfg"

definition Config_load_proxy_cb :: "bool \<Rightarrow> config \<Rightarrow> string list \<Rightarrow> (int \<times> config) cres" where
  "Config_load_proxy_cb m cfg d =
     (if length d \<noteq> 3 then Inr (-1, cfg)
      else case Proxy_create m (d ! 1) (atoi (d ! 2)) of
        None \<Rightarrow> Inr (-1, cfg)
      | Some p \<Rightarrow> cbind (tst_insert (LOADED_PROXIES cfg) (d ! 0) p) (\<lambda>t. Inr (0, cfg\<lparr>LOADED_PROXIES := t\<rparr>)))"

definition Config_load_proxies :: "bool \<Rightarrow> config_db \<Rightarrow> config \<Rightarrow> (int \<times> config) cres" where
  "Config_load_proxies m db cfg = DB_exec (Config_load_proxy_cb m) (q_proxies db) cfg"

definition Config_load_dir_cb :: "bool \<Rightarrow> config \<Rightarrow> string list \<Rightarrow> (int \<times> config) cres" where
  "Config_load_dir_cb m cfg d =
     (if length d \<noteq> 4 then Inr (-1, cfg)
      else
        (let (dr, lim) = Dir_create (settings cfg) m m (dir_limits cfg) (d ! 1) (d ! 2) (d ! 3);
             cfg = cfg\<lparr>dir_limits := lim\<rparr> in
         case dr of
           None \<Rightarrow> Inr (-1, cfg)
         | Some dr \<Rightarrow>
             cbind (tst_insert (LOADED_DIRS cfg) (d ! 0) (length (made_dirs cfg)))
               (\<lambda>t. Inr (0, cfg\<lparr>LOADED_DIRS := t, made_dirs := made_dirs cfg @ [dr]\<rparr>))))"

definition Config_load_dirs :: "bool \<Rightarrow> config_db \<Rightarrow> config \<Rightarrow> (int \<times> config) cres" where
  "Config_load_dirs m db cfg = DB_exec (Config_load_dir_cb m) (q_dirs db) cfg"

section \<open>The server\<close>

text \<open>The branches of \<^verbatim>\<open>Config_load_route_cb\<close>: the type and the target of a route, nothing when the check fails.\<close>

definition route_target :: "config \<Rightarrow> string \<Rightarrow> string \<Rightarrow> (int \<times> target) option" where
  "route_target cfg kind ident =
     (if kind = ''handler'' then map_option (\<lambda>h. (BACKEND_HANDLER, T_handler h)) (tst_search (LOADED_HANDLERS cfg) ident)
      else if kind = ''proxy'' then map_option (\<lambda>p. (BACKEND_PROXY, T_proxy p)) (tst_search (LOADED_PROXIES cfg) ident)
      else if kind = ''dir'' then map_option (\<lambda>n. (BACKEND_DIR, T_dir n)) (tst_search (LOADED_DIRS cfg) ident)
      else None)"

definition Config_load_route_cb :: "bool \<Rightarrow> config \<Rightarrow> target host \<Rightarrow> string list \<Rightarrow> (int \<times> target host) cres" where
  "Config_load_route_cb m cfg h d =
     (if length d \<noteq> 4 then Inr (-1, h)
      else case route_target cfg (d ! 3) (d ! 2) of
        None \<Rightarrow> Inr (-1, h)
      | Some (type, tgt) \<Rightarrow>
          cbind (Host_add_backend m m h (d ! 1) (int (length (d ! 1))) type tgt) (\<lambda>(_, h). Inr (0, h)))"

definition Config_load_host_cb ::
    "bool \<Rightarrow> config_db \<Rightarrow> config \<times> target server \<Rightarrow> string list \<Rightarrow> (int \<times> config \<times> target server) cres" where
  "Config_load_host_cb m db = (\<lambda>(cfg, srv) d.
     if length d \<noteq> 4 then Inr (-1, cfg, srv)
     else
       (let (h, lim) = Host_create (settings cfg) m m (host_limits cfg) (d ! 1); cfg = cfg\<lparr>host_limits := lim\<rparr> in
        case h of
          None \<Rightarrow> Inr (-1, cfg, srv)
        | Some h \<Rightarrow>
            cbind (DB_exec (Config_load_route_cb m cfg) (q_routes db (d ! 0) (d ! 3)) h) (\<lambda>(rc, h).
              if rc \<noteq> 0 then Inr (-1, cfg, srv)
              else cbind (Server_add_host m srv (Some (d ! 2)) h) (\<lambda>(_, srv).
                Inr (0, cfg,
                  if biseq (Some (hname h)) (Some (default_hostname srv)) \<noteq> 0
                  then srv\<lparr>default_host := Some h\<rparr> else srv)))))"

text \<open>\<^verbatim>\<open>Server_destroy\<close>: the descriptor it closes.\<close>

definition Server_destroy :: "'t server option \<Rightarrow> int list" where
  "Server_destroy srv = (case srv of None \<Rightarrow> [] | Some s \<Rightarrow> [listen_fd s])"

text \<open>A server destroyed on the way out is not looked at again, so it is dropped from the state.\<close>

definition Config_load_server_cb ::
    "bool \<Rightarrow> config_db \<Rightarrow> config \<times> target server option \<times> int list \<Rightarrow> string list \<Rightarrow>
     (int \<times> config \<times> target server option \<times> int list) cres" where
  "Config_load_server_cb m db = (\<lambda>(cfg, old, cl) d.
     if length d \<noteq> 8 then Inr (-1, cfg, old, cl)
     else
       (let cl = cl @ Server_destroy old in
        case Server_create (\<lambda>_. m) (d ! 1) (d ! 2) (d ! 3) (d ! 4) (d ! 5) (d ! 6) (d ! 7) of
          None \<Rightarrow> Inr (-1, cfg, None, cl)
        | Some srv \<Rightarrow>
            cbind (DB_exec (Config_load_host_cb m db) (q_hosts db (d ! 0)) (cfg, srv)) (\<lambda>(rc, cfg, srv).
              if rc \<noteq> 0 then Inr (-1, cfg, None, cl @ Server_destroy (Some srv))
              else Inr (0, cfg, Some srv, cl))))"

definition Config_load_server ::
    "bool \<Rightarrow> config_db \<Rightarrow> config \<Rightarrow> string \<Rightarrow> (target server option \<times> config \<times> int list) cres" where
  "Config_load_server m db cfg uid =
     cbind (Config_load_handlers m db cfg) (\<lambda>(_, cfg).
       cbind (Config_load_proxies m db cfg) (\<lambda>(_, cfg).
         cbind (Config_load_dirs m db cfg) (\<lambda>(_, cfg).
           cbind (DB_exec (Config_load_server_cb m db) (q_server db uid) (cfg, None, [])) (\<lambda>(rc, cfg, srv, cl).
             Inr (if rc = 0 then srv else None, cfg, cl)))))"

section \<open>MIME types and settings\<close>

definition Config_load_mimetypes_cb :: "config \<Rightarrow> string list \<Rightarrow> (int \<times> config) cres" where
  "Config_load_mimetypes_cb cfg d =
     (if length d \<noteq> 3 then Inr (-1, cfg)
      else cbind (MIME_add_type (settings cfg) (mimes cfg) (d ! 1) (d ! 2)) (\<lambda>(rc, ms).
        Inr (if rc = 0 then 0 else -1, cfg\<lparr>mimes := ms\<rparr>)))"

definition Config_load_mimetypes :: "config_db \<Rightarrow> config \<Rightarrow> (int \<times> config) cres" where
  "Config_load_mimetypes db cfg = DB_exec Config_load_mimetypes_cb (q_mimetypes db) cfg"

text \<open>\<open>pad\<close> is the memory behind a row's key.\<close>

definition Config_load_settings_cb :: "string \<Rightarrow> config \<Rightarrow> string list \<Rightarrow> (int \<times> config) cres" where
  "Config_load_settings_cb pad cfg d =
     (if length d \<noteq> 3 then Inr (-1, cfg)
      else cbind (Setting_add pad (settings cfg) (d ! 1) (d ! 2)) (\<lambda>(rc, s).
        Inr (if rc = 0 then 0 else -1, cfg\<lparr>settings := s\<rparr>)))"

definition Config_load_settings :: "string \<Rightarrow> config_db \<Rightarrow> config \<Rightarrow> (int \<times> config) cres" where
  "Config_load_settings pad db cfg = DB_exec (Config_load_settings_cb pad) (q_settings db) cfg"

section \<open>Starting and stopping\<close>

text \<open>
  The callbacks of the traversals collect the handlers whose task is made and the sockets that are closed; the values they
  change in place are changed in the tree.  Stopping takes the task of each running handler out of the poller and makes it
  ready, gives it a turn and a tenth of a second, and then closes the sockets.
\<close>

definition start_handler :: "handler \<Rightarrow> handler" where
  "start_handler h = (if running h = 0 then h\<lparr>running := 1\<rparr> else h)"

definition handlers_receive_start :: "handler \<Rightarrow> handler list \<Rightarrow> handler list" where
  "handlers_receive_start h started = (if running h = 0 then started @ [h] else started)"

definition Config_start_handlers :: "(nat \<Rightarrow> bool) \<Rightarrow> config \<Rightarrow> (handler list \<times> config) option" where
  "Config_start_handlers alloc cfg =
     map_option (\<lambda>started. (started, cfg\<lparr>LOADED_HANDLERS := map_tst start_handler (LOADED_HANDLERS cfg)\<rparr>))
       (tst_traverse alloc (LOADED_HANDLERS cfg) handlers_receive_start [])"

definition shutdown_handler :: "handler \<Rightarrow> (superpoll \<times> sched) cres \<Rightarrow> (superpoll \<times> sched) cres" where
  "shutdown_handler h w = cbind w (\<lambda>(sp, s).
     if running h = 0 then Inr (sp, s)
     else case h_task h of
       None \<Rightarrow> Inl Null_deref
     | Some t \<Rightarrow> cbind (tasknuke (t_id s t) sp s) (\<lambda>(rc, sp). Inr (sp, if rc = 0 then taskready t s else s)))"

definition close_handler :: "handler \<Rightarrow> int list \<Rightarrow> int list" where
  "close_handler h cl =
     cl @ (case send_socket h of None \<Rightarrow> [] | Some s \<Rightarrow> [s]) @ (case recv_socket h of None \<Rightarrow> [] | Some s \<Rightarrow> [s]) @
     Handler_destroy (Some (h\<lparr>send_socket := None, recv_socket := None\<rparr>))"

text \<open>\<open>away1\<close> and \<open>away2\<close>: what the other tasks do to the poller and the tasks while this one yields and sleeps.\<close>

definition Config_stop_handlers ::
    "(nat \<Rightarrow> bool) \<Rightarrow> (superpoll \<times> sched \<Rightarrow> superpoll \<times> sched) \<Rightarrow> (superpoll \<times> sched \<Rightarrow> superpoll \<times> sched) \<Rightarrow> 64 word \<Rightarrow>
     config \<Rightarrow> superpoll \<times> sched \<Rightarrow> (int list \<times> config \<times> superpoll \<times> sched) cres option" where
  "Config_stop_handlers alloc away1 away2 ns cfg w =
     walk_bind (tst_traverse alloc (LOADED_HANDLERS cfg) shutdown_handler (Inr w)) (\<lambda>(sp, s).
       walk_bind (Some (taskyield s)) (\<lambda>s.
         let (sp, s) = away1 (sp, s) in
         walk_bind (taskdelay 100 ns s) (\<lambda>s.
           let (sp, s) = away2 (sp, s) in
           map_option (\<lambda>cl. Inr (cl, cfg\<lparr>LOADED_HANDLERS := Null\<rparr>, sp, s))
             (tst_traverse alloc (map_tst (\<lambda>h. h\<lparr>running := 0\<rparr>) (LOADED_HANDLERS cfg)) close_handler []))))"

definition Config_stop_proxies :: "(nat \<Rightarrow> bool) \<Rightarrow> config \<Rightarrow> (proxy list \<times> config) option" where
  "Config_stop_proxies alloc cfg =
     map_option (\<lambda>gone. (gone, cfg\<lparr>LOADED_PROXIES := Null\<rparr>)) (tst_traverse alloc (LOADED_PROXIES cfg) (\<lambda>p gone. gone @ [p]) [])"

text \<open>The directories as they are now: \<open>ds n\<close>, with the records in their caches released.\<close>

definition stop_dir :: "(nat \<Rightarrow> dir) \<Rightarrow> nat \<Rightarrow> files cres \<Rightarrow> files cres" where
  "stop_dir ds n fs = cbind fs (Dir_destroy (Some (ds n)))"

definition Config_stop_dirs :: "(nat \<Rightarrow> bool) \<Rightarrow> (nat \<Rightarrow> dir) \<Rightarrow> files \<Rightarrow> config \<Rightarrow> (files cres \<times> config) option" where
  "Config_stop_dirs alloc ds fs cfg =
     map_option (\<lambda>fs. (fs, cfg\<lparr>LOADED_DIRS := Null\<rparr>)) (tst_traverse alloc (LOADED_DIRS cfg) (stop_dir ds) (Inr fs))"

section \<open>Routes are well typed\<close>

text \<open>
  A backend is a tagged union; its tag must name the member that was written.  What a table
  answers is among its values, and an insertion adds no other.
\<close>

fun typed :: "target backend \<Rightarrow> bool" where
  "typed b = (case target b of
       T_handler _ \<Rightarrow> btype b = BACKEND_HANDLER
     | T_proxy _ \<Rightarrow> btype b = BACKEND_PROXY
     | T_dir _ \<Rightarrow> btype b = BACKEND_DIR)"

definition host_typed :: "target host \<Rightarrow> bool" where
  "host_typed h \<longleftrightarrow> (\<forall>r\<in>set_tst (routes (hroutes h)). typed (data r))"

definition server_typed :: "target server \<Rightarrow> bool" where
  "server_typed s \<longleftrightarrow> (\<forall>r\<in>set_tst (routes (hosts s)). host_typed (data r)) \<and> (\<forall>h. default_host s = Some h \<longrightarrow> host_typed h)"

lemma node_value_set: "node_value t = Some v \<Longrightarrow> v \<in> set_tst t"
  by (cases t) auto

lemma prefix_loop_set: "prefix_loop t lst s = Some v \<Longrightarrow> v \<in> set_tst t \<union> set_tst lst"
  by (induction t lst s rule: prefix_loop.induct) (auto dest: node_value_set split: if_splits)

lemma suffix_loop_set: "suffix_loop t lst s = Some v \<Longrightarrow> v \<in> set_tst t \<union> set_tst lst"
  by (induction t lst s rule: suffix_loop.induct) (auto dest: node_value_set split: if_splits)

lemma chain_set: "set_tst (chain s v) = {v}"
  by (induction s v rule: chain.induct) auto

lemma insert_set: "tst_insert t s v = Inr t' \<Longrightarrow> set_tst t' \<subseteq> insert v (set_tst t)"
  unfolding tst_insert_def
proof (induction t s arbitrary: t' rule: tst_walk_induct)
  case (Null s)
  then show ?case by (auto simp: insert_Null chain_set)
next
  case (Node c l e h w s)
  then show ?case by (fastforce simp: insert_Node split: if_splits)
qed

lemma accept_route_from: "accept_route tgt found = Inr (Some r) \<Longrightarrow> found = Some r"
  by (auto simp: accept_route_def split: option.splits if_splits)

lemma prefix_match_set: "RouteMap_simple_prefix_match m tgt = Inr (Some r) \<Longrightarrow> r \<in> set_tst (routes m)"
  by (auto simp: RouteMap_simple_prefix_match_def tst_search_prefix_def split: if_splits
      dest!: accept_route_from prefix_loop_set)

lemma suffix_match_set: "RouteMap_match_suffix m tgt = Inr (Some r) \<Longrightarrow> r \<in> set_tst (routes m)"
  by (auto simp: RouteMap_match_suffix_def tst_search_suffix_def split: if_splits
      dest!: accept_route_from suffix_loop_set)

lemma insert_base_set:
  "RouteMap_insert_base m rm prefix pat d hp = Inr (Some rm') \<Longrightarrow> data ` set_tst (routes rm') \<subseteq> insert d (data ` set_tst (routes rm))"
  by (fastforce simp: RouteMap_insert_base_def split: if_splits option.splits dest: insert_set)

lemma insert_data:
  "RouteMap_insert m rm pat d = Inr (rc, rm') \<Longrightarrow> data ` set_tst (routes rm') \<subseteq> insert d (data ` set_tst (routes rm))"
  by (auto simp: RouteMap_insert_def Let_def split: option.splits if_splits dest!: insert_base_set)

lemma insert_reversed_data:
  "RouteMap_insert_reversed m rm pat d = Inr (rc, rm') \<Longrightarrow> data ` set_tst (routes rm') \<subseteq> insert d (data ` set_tst (routes rm))"
  by (auto simp: RouteMap_insert_reversed_def Let_def split: option.splits if_splits dest!: insert_base_set)

text \<open>What a query keeps when its callback keeps it for every row.\<close>

locale row_callback =
  fixes cb :: "'s \<Rightarrow> string list \<Rightarrow> (int \<times> 's) cres"
    and inv :: "'s \<Rightarrow> bool"
  assumes keeps: "inv s \<Longrightarrow> cb s row = Inr (rc, s') \<Longrightarrow> inv s'"
begin

lemma rows_keep: "inv s \<Longrightarrow> exec_rows cb rows s = Inr (rc, s') \<Longrightarrow> inv s'"
  by (induction rows arbitrary: s) (auto split: if_splits dest: keeps)

lemma exec_keeps: "inv s \<Longrightarrow> DB_exec cb ans s = Inr (rc, s') \<Longrightarrow> inv s'"
  by (auto simp: DB_exec_def split: if_splits dest: rows_keep)

end

lemma add_backend_typed:
  assumes "host_typed h" "typed \<lparr>btype = type, target = tgt\<rparr>" "Host_add_backend m1 m2 h p n type tgt = Inr (rc, h')"
  shows "host_typed h'"
proof -
  let ?b = "\<lparr>btype = type, target = tgt\<rparr>"
  have "h' = h \<or> (\<exists>rc r. RouteMap_insert m2 (hroutes h) (blk2bstr p n) ?b = Inr (rc, r) \<and> h' = h\<lparr>hroutes := r\<rparr>)"
    using assms(3) unfolding Host_add_backend_def cbind_Inr_iff if_distrib [of "\<lambda>x. x = Inr (rc, h')"]
    by (auto split: if_splits)
  then show ?thesis
  proof (elim disjE exE conjE)
    fix rc r
    assume r: "RouteMap_insert m2 (hroutes h) (blk2bstr p n) ?b = Inr (rc, r)" "h' = h\<lparr>hroutes := r\<rparr>"
    from insert_data [OF r(1)] assms(1,2) show ?thesis unfolding host_typed_def r(2) by (auto simp del: typed.simps)
  qed (use assms(1) in simp)
qed

lemma route_target_typed: "route_target cfg kind ident = Some (type, tgt) \<Longrightarrow> typed \<lparr>btype = type, target = tgt\<rparr>"
  by (auto simp: route_target_def split: if_splits)

lemma add_host_typed:
  assumes "server_typed s" "host_typed h" "Server_add_host m s pat h = Inr (rc, s')"
  shows "server_typed s'"
proof -
  obtain hs where hs: "RouteMap_insert_reversed m (hosts s) pat h = Inr (rc, hs)" "s' = s\<lparr>hosts := hs\<rparr>"
    using assms(3) by (auto simp: Server_add_host_def)
  from insert_reversed_data [OF hs(1)] assms(1,2) show ?thesis unfolding server_typed_def hs(2) by auto
qed

lemma fresh_typed:
  "Host_create setg m1 m2 lim nam = (Some h, lim') \<Longrightarrow> host_typed h"
  "Server_create al uid dh prt ch al' el pf = Some s \<Longrightarrow> server_typed s"
  by (auto simp: Host_create_def Server_create_def RouteMap_create_def host_typed_def server_typed_def Let_def
      split: if_splits)

interpretation route_rows: row_callback "Config_load_route_cb m cfg" host_typed for m cfg
proof unfold_locales
  fix h h' :: "target host" and d rc
  assume h: "host_typed h" "Config_load_route_cb m cfg h d = Inr (rc, h')"
  show "host_typed h'"
  proof (cases "h' = h")
    case False
    then obtain type tgt rc' where "route_target cfg (d ! 3) (d ! 2) = Some (type, tgt)"
        "Host_add_backend m m h (d ! 1) (int (length (d ! 1))) type tgt = Inr (rc', h')"
      using h(2) by (auto simp: Config_load_route_cb_def split: if_splits option.splits)
    then show ?thesis using add_backend_typed [OF h(1)] route_target_typed by blast
  qed (use h(1) in simp)
qed

interpretation host_rows: row_callback "Config_load_host_cb m db" "\<lambda>(cfg, srv). server_typed srv" for m db
proof unfold_locales
  fix s s' :: "config \<times> target server" and d rc
  assume s: "case s of (cfg, srv) \<Rightarrow> server_typed srv" "Config_load_host_cb m db s d = Inr (rc, s')"
  obtain cfg srv where cs: "s = (cfg, srv)" by fastforce
  obtain cfg' srv' where cs': "s' = (cfg', srv')" by fastforce
  obtain ho :: "target host option" and lim where hc: "Host_create (settings cfg) m m (host_limits cfg) (d ! 1) = (ho, lim)" by fastforce
  have st: "server_typed srv" using s(1) by (simp add: cs)
  show "case s' of (cfg, srv) \<Rightarrow> server_typed srv"
  proof (cases "srv' = srv")
    case False
    then obtain h h1 rc1 rc2 srv1 where "ho = Some h"
        and ex: "DB_exec (Config_load_route_cb m (cfg\<lparr>host_limits := lim\<rparr>)) (q_routes db (d ! 0) (d ! 3)) h = Inr (rc1, h1)"
        and add: "Server_add_host m srv (Some (d ! 2)) h1 = Inr (rc2, srv1)"
        and srv': "srv' = (if biseq (Some (hname h1)) (Some (default_hostname srv1)) \<noteq> 0
                           then srv1\<lparr>default_host := Some h1\<rparr> else srv1)"
      using s(2) by (auto simp: Config_load_host_cb_def cs cs' hc [unfolded One_nat_def] Let_def split: if_splits option.splits)
    then have "host_typed h1" using route_rows.exec_keeps [OF _ ex] fresh_typed(1) hc by blast
    with add_host_typed [OF st _ add] show ?thesis by (simp add: cs' srv' server_typed_def)
  qed (simp add: cs' st)
qed

interpretation server_rows: row_callback "Config_load_server_cb m db"
  "\<lambda>(cfg, srv, cl). \<forall>s. srv = Some s \<longrightarrow> server_typed s" for m db
proof unfold_locales
  fix s s' :: "config \<times> target server option \<times> int list" and d rc
  assume s: "case s of (cfg, srv, cl) \<Rightarrow> \<forall>s. srv = Some s \<longrightarrow> server_typed s" "Config_load_server_cb m db s d = Inr (rc, s')"
  obtain cfg srv cl where cs: "s = (cfg, srv, cl)" by (cases s)
  have "server_typed srv'" if "Server_create (\<lambda>_. m) (d ! 1) (d ! 2) (d ! 3) (d ! 4) (d ! 5) (d ! 6) (d ! 7) = Some srv0"
      "DB_exec (Config_load_host_cb m db) (q_hosts db (d ! 0)) (cfg, srv0) = Inr (rc', cfg', srv')" for srv0 rc' cfg' srv'
    using host_rows.exec_keeps [OF _ that(2)] fresh_typed(2) [OF that(1)] by simp
  then show "case s' of (cfg, srv, cl) \<Rightarrow> \<forall>s. srv = Some s \<longrightarrow> server_typed s"
    using s by (auto simp: Config_load_server_cb_def cs Let_def split: if_splits option.splits)
qed

section \<open>Properties\<close>

lemma load_server_typed: "Config_load_server m db cfg uid = Inr (Some srv, cfg', cl) \<Longrightarrow> server_typed srv"
  by (auto simp: Config_load_server_def split: if_splits dest!: server_rows.exec_keeps [rotated])

lemma host_lookup_typed:
  "server_typed s \<Longrightarrow> Server_match_backend s nam = Inr (Some h) \<Longrightarrow> host_typed h"
  by (auto simp: Server_match_backend_def server_typed_def split: option.splits if_splits dest!: suffix_match_set)

lemma backend_lookup_typed:
  "host_typed h \<Longrightarrow> Host_match_backend h p = Inr (Some b, pat) \<Longrightarrow> typed b"
  by (auto simp: Host_match_backend_def host_typed_def simp del: typed.simps split: option.splits dest!: prefix_match_set)

text \<open>
  C31: whatever the database holds, a server that was loaded from it routes every request to a backend of
  the member its event announces: after HANDLER the request has a handler, after DIRECTORY a
  directory, after PROXY a proxy, so the next action never reads the union through the wrong member;
  otherwise the answer is 404 and the connection closes.
\<close>

theorem loaded_server_routes_typed:
  assumes "Config_load_server m db cfg uid = Inr (Some srv, cfg', cl)" "server c = srv"
    "connection_route_request event c = Inr (nxt, c')"
  shows "(nxt = HANDLER \<and> (\<exists>h. get_handler c' = Inr (Some h))) \<or>
    (nxt = DIRECTORY \<and> (\<exists>n. get_dir c' = Inr (Some n))) \<or>
    (nxt = PROXY \<and> (\<exists>p. get_proxy c' = Some p)) \<or>
    (nxt = CLOSE \<and> error_response c HTTP_404 CLOSE = Inr (CLOSE, c'))"
proof -
  have ty: "server_typed (server c)" using load_server_typed [OF assms(1)] assms(2) by simp
  obtain ho where ho: "(case host_name (req c) of Some hn \<Rightarrow> Server_match_backend (server c) hn
      | None \<Rightarrow> Inr (default_host (server c))) = Inr ho"
    using assms(3) by (auto simp: connection_route_request_def)
  note step = assms(3) [unfolded connection_route_request_def ho cbind.simps]
  show ?thesis
  proof (cases ho)
    case None
    with step have "error_response c HTTP_404 CLOSE = Inr (nxt, c')" by simp
    with error_response_next [OF this] show ?thesis by simp
  next
    case (Some h)
    have h: "host_typed h"
    proof (cases "host_name (req c)")
      case None
      then show ?thesis using ho Some ty by (simp add: server_typed_def)
    next
      case hn: (Some nam)
      show ?thesis by (rule host_lookup_typed [OF ty]) (use ho Some hn in simp)
    qed
    define p where "p = (case path (req c) of None \<Rightarrow> [] | Some p \<Rightarrow> p)"
    obtain fo pat where p: "Host_match_backend h p = Inr (fo, pat)"
      using step Some by (auto simp: p_def)
    note step = step [folded p_def]
    show ?thesis
    proof (cases fo)
      case None
      with step Some p have "error_response c HTTP_404 CLOSE = Inr (nxt, c')" by simp
      with error_response_next [OF this] show ?thesis by simp
    next
      case fo: (Some b)
      have b: "typed b" by (rule backend_lookup_typed [OF h]) (use p fo in simp)
      have "Connection_backend_event b (c\<lparr>req := (req c)\<lparr>action := Some b, target_host := Some h, req_pattern := pat\<rparr>\<rparr>)
          = Inr (nxt, c')" using step Some p fo by simp
      then show ?thesis using b
        by (cases "target b") (auto simp: Connection_backend_event_def get_handler_def get_dir_def get_proxy_def)
    qed
  qed
qed

text \<open>A database with one server, whose host has a route to a handler and one to a directory.\<close>

definition sample_db :: config_db where
  "sample_db = \<lparr>q_handlers = (0, [[''1'', ''tcp://a'', ''send'', ''tcp://b'', ''recv'']]), q_proxies = (0, []),
     q_dirs = (0, [[''1'', ''static/'', ''index.html'', ''text/plain'']]), q_mimetypes = (0, []), q_settings = (0, []),
     q_server = (\<lambda>_. (0, [[''1'', ''uid'', ''localhost'', ''6767'', ''./'', ''/log'', ''/err'', ''/pid'']])),
     q_hosts = (\<lambda>_. (0, [[''1'', ''localhost'', ''localhost'', ''1'']])),
     q_routes = (\<lambda>_ _. (0, [[''1'', ''/a'', ''1'', ''handler''], [''2'', ''/b'', ''1'', ''dir'']]))\<rparr>"

definition empty_config :: config where
  "empty_config = \<lparr>LOADED_HANDLERS = Null, LOADED_PROXIES = Null, LOADED_DIRS = Null, made_dirs = [], HANDLER_STACK = 0,
     dir_limits = \<lparr>MAX_SEND_BUFFER = 0, MAX_DIR_PATH = 0\<rparr>, host_limits = \<lparr>MAX_HOST_NAME = 0, MAX_URL_PATH = 0\<rparr>,
     settings = Null, mimes = mime_init\<rparr>"

definition sample_load :: "target server option \<times> config \<times> int list" where
  "sample_load = projr (Config_load_server True sample_db empty_config ''uid'')"

definition loaded_conn :: "(unit, unit) conn" where
  "loaded_conn = (let c = sample_conn_for [] in c\<lparr>server := the (fst sample_load), req := (req c)\<lparr>path := Some ''/a''\<rparr>\<rparr>)"

definition loaded_routed :: "int \<times> (unit, unit) conn" where
  "loaded_routed = projr (connection_route_request 0 loaded_conn)"

lemma sample_loads:
  "\<not> isl (Config_load_server True sample_db empty_config ''uid'') \<and>
   (case fst sample_load of None \<Rightarrow> False | Some _ \<Rightarrow> True)"
  by code_simp

lemma loaded_routes: "\<not> isl (connection_route_request 0 loaded_conn) \<and> fst loaded_routed = HANDLER"
  by code_simp

lemma loaded_server_routes_typed_witness:
  "fst loaded_routed = HANDLER \<and> (\<exists>h. get_handler (snd loaded_routed) = Inr (Some h))"
proof -
  obtain srv cfg' cl where l: "Config_load_server True sample_db empty_config ''uid'' = Inr (Some srv, cfg', cl)" "server loaded_conn = srv"
    using sample_loads
    by (cases "Config_load_server True sample_db empty_config ''uid''")
      (auto simp: sample_load_def loaded_conn_def Let_def split: option.splits)
  have r: "connection_route_request 0 loaded_conn = Inr (HANDLER, snd loaded_routed)"
    using loaded_routes by (cases "connection_route_request 0 loaded_conn") (auto simp: loaded_routed_def)
  from loaded_server_routes_typed [OF l r] show ?thesis using loaded_routes by simp
qed

text \<open>What the rows of a table become, one insertion per row.\<close>

definition handler_of :: "string list \<Rightarrow> handler" where
  "handler_of d = \<lparr>send_socket = None, recv_socket = None, send_ident = d ! 2, recv_ident = d ! 4,
     recv_spec = d ! 3, send_spec = d ! 1, h_task = None, running = 0\<rparr>"

lemma handler_rows_load:
  "\<forall>d\<in>set rows. length d = 5 \<Longrightarrow> tst_table.load (LOADED_HANDLERS cfg) (map (\<lambda>d. (d ! 0, handler_of d)) rows) = Inr t \<Longrightarrow>
   \<exists>cfg'. exec_rows (Config_load_handler_cb True) rows cfg = Inr (0, cfg') \<and> LOADED_HANDLERS cfg' = t"
proof (induction rows arbitrary: cfg)
  case (Cons d rows)
  obtain stack where hc: "Handler_create (settings cfg) True (HANDLER_STACK cfg) (d ! 1) (d ! 2) (d ! 3) (d ! 4) = (Some (handler_of d), stack)"
    by (simp add: Handler_create_def handler_of_def Let_def)
  obtain t1 where t1: "tst_insert (LOADED_HANDLERS cfg) (d ! 0) (handler_of d) = Inr t1"
      "tst_table.load t1 (map (\<lambda>d. (d ! 0, handler_of d)) rows) = Inr t"
    using Cons.prems(2) by auto
  have "Config_load_handler_cb True cfg d = Inr (0, cfg\<lparr>HANDLER_STACK := stack, LOADED_HANDLERS := t1\<rparr>)"
    using Cons.prems(1) t1(1) hc [unfolded One_nat_def] by (simp add: Config_load_handler_cb_def)
  with Cons.IH [of "cfg\<lparr>HANDLER_STACK := stack, LOADED_HANDLERS := t1\<rparr>"] Cons.prems(1) t1(2) show ?case by simp
qed simp

text \<open>
  Loading the handler table: rows of five columns with distinct identities are all loaded, and the identity
  of a row then finds the handler with the row's sockets and identities, and nothing else is found.
\<close>

theorem Config_load_handlers_complete:
  assumes "LOADED_HANDLERS cfg = Null" "q_handlers db = (0, rows)" "\<forall>d\<in>set rows. length d = 5 \<and> d ! 0 \<noteq> []"
    "distinct (map (\<lambda>d. d ! 0) rows)"
  shows "\<exists>cfg'. Config_load_handlers True db cfg = Inr (0, cfg') \<and>
    (\<forall>k. k \<noteq> [] \<longrightarrow> tst_search (LOADED_HANDLERS cfg') k = map_of (map (\<lambda>d. (d ! 0, handler_of d)) rows) k)"
proof -
  let ?rows = "map (\<lambda>d. (d ! 0, handler_of d)) rows"
  have "distinct (map fst ?rows)" using assms(4) by (simp add: comp_def)
  moreover have "[] \<notin> fst ` set ?rows" using assms(3) by force
  ultimately obtain t where t: "tst_table.load Null ?rows = Inr t" "\<forall>k. k \<noteq> [] \<longrightarrow> tst_search t k = map_of ?rows k"
    using tst_table.load_rows [of Null ?rows] by (fastforce split: option.splits)
  from handler_rows_load [of rows cfg t] assms(1,3) t(1) obtain cfg' where
    "exec_rows (Config_load_handler_cb True) rows cfg = Inr (0, cfg')" "LOADED_HANDLERS cfg' = t" by auto
  with t(2) assms(2) show ?thesis by (simp add: Config_load_handlers_def DB_exec_def)
qed

lemma Config_load_handlers_complete_witness:
  "\<exists>cfg'. Config_load_handlers True sample_db empty_config = Inr (0, cfg') \<and>
     tst_search (LOADED_HANDLERS cfg') ''1'' = Some (handler_of [''1'', ''tcp://a'', ''send'', ''tcp://b'', ''recv''])"
  using Config_load_handlers_complete [of empty_config sample_db "[[''1'', ''tcp://a'', ''send'', ''tcp://b'', ''recv'']]"]
  by (auto simp: empty_config_def sample_db_def)

end
