(* ===== verification/Http11.thy ===== *)
theory Http11
  imports Request
begin

text \<open>
  The HTTP parser that Ragel generated from \<^verbatim>\<open>http11/http11_parser.rl\<close>, as it stands in
  \<^verbatim>\<open>http11/http11_parser.c\<close>: one definition per label of the generated code, \<open>http_case_n\<close> for the tests
  of state \<open>n\<close> on the signed character at \<^verbatim>\<open>p\<close>, \<open>http_trn\<close> for the actions at \<^verbatim>\<open>trn\<close> with the state they
  go to.
\<close>

section \<open>Labels\<close>

text \<open>The actions of the grammar; those of \<^verbatim>\<open>mark\<close> and \<^verbatim>\<open>start_value\<close> are the same code.\<close>

datatype http_action =
    Mark | Start_field | Write_field | Write_value | Request_method | Request_uri | Fragment | Start_query
  | Query_string | Http_version | Request_path | Done | Socket | Json

type_synonym http_trans = "http_action list \<times> nat"

text \<open>\<^verbatim>\<open>goto stn\<close>: no action.  State 0 is the error state.\<close>

definition http_st :: "nat \<Rightarrow> http_trans" where
  "http_st n = ([], n)"

definition http_tr0 :: http_trans where "http_tr0 = ([Mark], 2)"
definition http_tr3 :: http_trans where "http_tr3 = ([Mark], 82)"
definition http_tr4 :: http_trans where "http_tr4 = ([Request_method], 3)"
definition http_tr6 :: http_trans where "http_tr6 = ([Mark], 4)"
definition http_tr7 :: http_trans where "http_tr7 = ([Mark], 24)"
definition http_tr8 :: http_trans where "http_tr8 = ([Mark], 34)"
definition http_tr9 :: http_trans where "http_tr9 = ([Request_uri], 5)"
definition http_tr10 :: http_trans where "http_tr10 = ([Request_uri], 20)"
definition http_tr11 :: http_trans where "http_tr11 = ([Mark], 6)"
definition http_tr19 :: http_trans where "http_tr19 = ([Http_version], 14)"
definition http_tr20 :: http_trans where "http_tr20 = ([Http_version], 19)"
definition http_tr21 :: http_trans where "http_tr21 = ([Done], 95)"
definition http_tr23 :: http_trans where "http_tr23 = ([Start_field], 16)"
definition http_tr25 :: http_trans where "http_tr25 = ([Write_field], 17)"
definition http_tr26 :: http_trans where "http_tr26 = ([Mark], 18)"
definition http_tr27 :: http_trans where "http_tr27 = ([Mark, Write_value], 14)"
definition http_tr28 :: http_trans where "http_tr28 = ([Mark, Write_value], 19)"
definition http_tr29 :: http_trans where "http_tr29 = ([Mark], 17)"
definition http_tr31 :: http_trans where "http_tr31 = ([Write_value], 14)"
definition http_tr32 :: http_trans where "http_tr32 = ([Write_value], 19)"
definition http_tr34 :: http_trans where "http_tr34 = ([Mark], 21)"
definition http_tr35 :: http_trans where "http_tr35 = ([Mark, Fragment], 5)"
definition http_tr36 :: http_trans where "http_tr36 = ([Mark], 22)"
definition http_tr38 :: http_trans where "http_tr38 = ([Fragment], 5)"
definition http_tr42 :: http_trans where "http_tr42 = ([Request_path, Request_uri], 5)"
definition http_tr43 :: http_trans where "http_tr43 = ([Request_path, Request_uri], 20)"
definition http_tr45 :: http_trans where "http_tr45 = ([Request_path], 27)"
definition http_tr46 :: http_trans where "http_tr46 = ([Request_path], 30)"
definition http_tr52 :: http_trans where "http_tr52 = ([Start_query], 31)"
definition http_tr53 :: http_trans where "http_tr53 = ([Start_query, Query_string, Request_uri], 5)"
definition http_tr54 :: http_trans where "http_tr54 = ([Start_query, Query_string, Request_uri], 20)"
definition http_tr55 :: http_trans where "http_tr55 = ([Start_query], 32)"
definition http_tr57 :: http_trans where "http_tr57 = ([Query_string, Request_uri], 5)"
definition http_tr58 :: http_trans where "http_tr58 = ([Query_string, Request_uri], 20)"
definition http_tr106 :: http_trans where "http_tr106 = ([Socket, Done], 95)"
definition http_tr108 :: http_trans where "http_tr108 = ([Request_path], 84)"
definition http_tr110 :: http_trans where "http_tr110 = ([Request_path], 88)"
definition http_tr111 :: http_trans where "http_tr111 = ([Request_path], 91)"
definition http_tr113 :: http_trans where "http_tr113 = ([Json, Done], 96)"
definition http_tr119 :: http_trans where "http_tr119 = ([Start_query], 92)"
definition http_tr120 :: http_trans where "http_tr120 = ([Start_query, Query_string, Request_path], 84)"
definition http_tr121 :: http_trans where "http_tr121 = ([Start_query], 93)"
definition http_tr123 :: http_trans where "http_tr123 = ([Query_string, Request_path], 84)"

text \<open>The states.\<close>

definition http_case_1 :: "char \<Rightarrow> http_trans" where
  "http_case_1 c =
    (let v = schar c in
     if v = 36 then http_tr0 else if v = 60 then http_st 60 else if v = 64 then http_tr3
     else if v = 95 then http_tr0 else if v < 48 then (if 45 \<le> v \<and> v \<le> 46 then http_tr0
     else http_st 0) else if v > 57 then (if 65 \<le> v \<and> v \<le> 90 then http_tr0 else http_st 0)
     else http_tr0)"

definition http_case_2 :: "char \<Rightarrow> http_trans" where
  "http_case_2 c =
    (let v = schar c in
     if v = 32 then http_tr4 else if v = 36 then http_st 41 else if v = 95 then http_st 41
     else if v < 48 then (if 45 \<le> v \<and> v \<le> 46 then http_st 41 else http_st 0)
     else if v > 57 then (if 65 \<le> v \<and> v \<le> 90 then http_st 41 else http_st 0) else http_st 41)"

definition http_case_3 :: "char \<Rightarrow> http_trans" where
  "http_case_3 c =
    (let v = schar c in
     if v = 42 then http_tr6 else if v = 47 then http_tr7 else if v = 104 then http_tr8 else http_st 0)"

definition http_case_4 :: "char \<Rightarrow> http_trans" where
  "http_case_4 c =
    (let v = schar c in
     if v = 32 then http_tr9 else if v = 35 then http_tr10 else http_st 0)"

definition http_case_5 :: "char \<Rightarrow> http_trans" where
  "http_case_5 c =
    (let v = schar c in
     if v = 72 then http_tr11 else http_st 0)"

definition http_case_6 :: "char \<Rightarrow> http_trans" where
  "http_case_6 c =
    (let v = schar c in
     if v = 84 then http_st 7 else http_st 0)"

definition http_case_7 :: "char \<Rightarrow> http_trans" where
  "http_case_7 c =
    (let v = schar c in
     if v = 84 then http_st 8 else http_st 0)"

definition http_case_8 :: "char \<Rightarrow> http_trans" where
  "http_case_8 c =
    (let v = schar c in
     if v = 80 then http_st 9 else http_st 0)"

definition http_case_9 :: "char \<Rightarrow> http_trans" where
  "http_case_9 c =
    (let v = schar c in
     if v = 47 then http_st 10 else http_st 0)"

definition http_case_10 :: "char \<Rightarrow> http_trans" where
  "http_case_10 c =
    (let v = schar c in
     if v = 49 then http_st 11 else http_st 0)"

definition http_case_11 :: "char \<Rightarrow> http_trans" where
  "http_case_11 c =
    (let v = schar c in
     if v = 46 then http_st 12 else http_st 0)"

definition http_case_12 :: "char \<Rightarrow> http_trans" where
  "http_case_12 c =
    (let v = schar c in
     if 48 \<le> v \<and> v \<le> 49 then http_st 13 else http_st 0)"

definition http_case_13 :: "char \<Rightarrow> http_trans" where
  "http_case_13 c =
    (let v = schar c in
     if v = 10 then http_tr19 else if v = 13 then http_tr20 else http_st 0)"

definition http_case_14 :: "char \<Rightarrow> http_trans" where
  "http_case_14 c =
    (let v = schar c in
     if v = 10 then http_tr21 else if v = 13 then http_st 15 else if v = 33 then http_tr23
     else if v = 124 then http_tr23 else if v = 126 then http_tr23
     else if v < 45 then (if v > 39 then (if 42 \<le> v \<and> v \<le> 43 then http_tr23 else http_st 0)
     else if v \<ge> 35 then http_tr23 else http_st 0)
     else if v > 46 then (if v < 65 then (if 48 \<le> v \<and> v \<le> 57 then http_tr23 else http_st 0)
     else if v > 90 then (if 94 \<le> v \<and> v \<le> 122 then http_tr23 else http_st 0) else http_tr23)
     else http_tr23)"

definition http_case_15 :: "char \<Rightarrow> http_trans" where
  "http_case_15 c =
    (let v = schar c in
     if v = 10 then http_tr21 else http_st 0)"

definition http_case_16 :: "char \<Rightarrow> http_trans" where
  "http_case_16 c =
    (let v = schar c in
     if v = 33 then http_st 16 else if v = 58 then http_tr25 else if v = 124 then http_st 16
     else if v = 126 then http_st 16
     else if v < 45 then (if v > 39 then (if 42 \<le> v \<and> v \<le> 43 then http_st 16 else http_st 0)
     else if v \<ge> 35 then http_st 16 else http_st 0)
     else if v > 46 then (if v < 65 then (if 48 \<le> v \<and> v \<le> 57 then http_st 16 else http_st 0)
     else if v > 90 then (if 94 \<le> v \<and> v \<le> 122 then http_st 16 else http_st 0) else http_st 16)
     else http_st 16)"

definition http_case_17 :: "char \<Rightarrow> http_trans" where
  "http_case_17 c =
    (let v = schar c in
     if v = 10 then http_tr27 else if v = 13 then http_tr28 else if v = 32 then http_tr29 else http_tr26)"

definition http_case_18 :: "char \<Rightarrow> http_trans" where
  "http_case_18 c =
    (let v = schar c in
     if v = 10 then http_tr31 else if v = 13 then http_tr32 else http_st 18)"

definition http_case_19 :: "char \<Rightarrow> http_trans" where
  "http_case_19 c =
    (let v = schar c in
     if v = 10 then http_st 14 else http_st 0)"

definition http_case_20 :: "char \<Rightarrow> http_trans" where
  "http_case_20 c =
    (let v = schar c in
     if v = 32 then http_tr35 else if v = 37 then http_tr36 else if v = 60 then http_st 0
     else if v = 62 then http_st 0 else if v = 127 then http_st 0
     else if v > 31 then (if 34 \<le> v \<and> v \<le> 35 then http_st 0 else http_tr34)
     else if v \<ge> 0 then http_st 0 else http_tr34)"

definition http_case_21 :: "char \<Rightarrow> http_trans" where
  "http_case_21 c =
    (let v = schar c in
     if v = 32 then http_tr38 else if v = 37 then http_st 22 else if v = 60 then http_st 0
     else if v = 62 then http_st 0 else if v = 127 then http_st 0
     else if v > 31 then (if 34 \<le> v \<and> v \<le> 35 then http_st 0 else http_st 21)
     else if v \<ge> 0 then http_st 0 else http_st 21)"

definition http_case_22 :: "char \<Rightarrow> http_trans" where
  "http_case_22 c =
    (let v = schar c in
     if v < 65 then (if 48 \<le> v \<and> v \<le> 57 then http_st 23 else http_st 0)
     else if v > 70 then (if 97 \<le> v \<and> v \<le> 102 then http_st 23 else http_st 0) else http_st 23)"

definition http_case_23 :: "char \<Rightarrow> http_trans" where
  "http_case_23 c =
    (let v = schar c in
     if v < 65 then (if 48 \<le> v \<and> v \<le> 57 then http_st 21 else http_st 0)
     else if v > 70 then (if 97 \<le> v \<and> v \<le> 102 then http_st 21 else http_st 0) else http_st 21)"

definition http_case_24 :: "char \<Rightarrow> http_trans" where
  "http_case_24 c =
    (let v = schar c in
     if v = 32 then http_tr42 else if v = 34 then http_st 0 else if v = 35 then http_tr43
     else if v = 37 then http_st 25 else if v = 59 then http_tr45 else if v = 60 then http_st 0
     else if v = 62 then http_st 0 else if v = 63 then http_tr46 else if v = 127 then http_st 0
     else if 0 \<le> v \<and> v \<le> 31 then http_st 0 else http_st 24)"

definition http_case_25 :: "char \<Rightarrow> http_trans" where
  "http_case_25 c =
    (let v = schar c in
     if v < 65 then (if 48 \<le> v \<and> v \<le> 57 then http_st 26 else http_st 0)
     else if v > 70 then (if 97 \<le> v \<and> v \<le> 102 then http_st 26 else http_st 0) else http_st 26)"

definition http_case_26 :: "char \<Rightarrow> http_trans" where
  "http_case_26 c =
    (let v = schar c in
     if v < 65 then (if 48 \<le> v \<and> v \<le> 57 then http_st 24 else http_st 0)
     else if v > 70 then (if 97 \<le> v \<and> v \<le> 102 then http_st 24 else http_st 0) else http_st 24)"

definition http_case_27 :: "char \<Rightarrow> http_trans" where
  "http_case_27 c =
    (let v = schar c in
     if v = 32 then http_tr9 else if v = 34 then http_st 0 else if v = 35 then http_tr10
     else if v = 37 then http_st 28 else if v = 60 then http_st 0 else if v = 62 then http_st 0
     else if v = 63 then http_st 30 else if v = 127 then http_st 0
     else if 0 \<le> v \<and> v \<le> 31 then http_st 0 else http_st 27)"

definition http_case_28 :: "char \<Rightarrow> http_trans" where
  "http_case_28 c =
    (let v = schar c in
     if v < 65 then (if 48 \<le> v \<and> v \<le> 57 then http_st 29 else http_st 0)
     else if v > 70 then (if 97 \<le> v \<and> v \<le> 102 then http_st 29 else http_st 0) else http_st 29)"

definition http_case_29 :: "char \<Rightarrow> http_trans" where
  "http_case_29 c =
    (let v = schar c in
     if v < 65 then (if 48 \<le> v \<and> v \<le> 57 then http_st 27 else http_st 0)
     else if v > 70 then (if 97 \<le> v \<and> v \<le> 102 then http_st 27 else http_st 0) else http_st 27)"

definition http_case_30 :: "char \<Rightarrow> http_trans" where
  "http_case_30 c =
    (let v = schar c in
     if v = 32 then http_tr53 else if v = 34 then http_st 0 else if v = 35 then http_tr54
     else if v = 37 then http_tr55 else if v = 60 then http_st 0 else if v = 62 then http_st 0
     else if v = 127 then http_st 0 else if 0 \<le> v \<and> v \<le> 31 then http_st 0 else http_tr52)"

definition http_case_31 :: "char \<Rightarrow> http_trans" where
  "http_case_31 c =
    (let v = schar c in
     if v = 32 then http_tr57 else if v = 34 then http_st 0 else if v = 35 then http_tr58
     else if v = 37 then http_st 32 else if v = 60 then http_st 0 else if v = 62 then http_st 0
     else if v = 127 then http_st 0 else if 0 \<le> v \<and> v \<le> 31 then http_st 0 else http_st 31)"

definition http_case_32 :: "char \<Rightarrow> http_trans" where
  "http_case_32 c =
    (let v = schar c in
     if v < 65 then (if 48 \<le> v \<and> v \<le> 57 then http_st 33 else http_st 0)
     else if v > 70 then (if 97 \<le> v \<and> v \<le> 102 then http_st 33 else http_st 0) else http_st 33)"

definition http_case_33 :: "char \<Rightarrow> http_trans" where
  "http_case_33 c =
    (let v = schar c in
     if v < 65 then (if 48 \<le> v \<and> v \<le> 57 then http_st 31 else http_st 0)
     else if v > 70 then (if 97 \<le> v \<and> v \<le> 102 then http_st 31 else http_st 0) else http_st 31)"

definition http_case_34 :: "char \<Rightarrow> http_trans" where
  "http_case_34 c =
    (let v = schar c in
     if v = 116 then http_st 35 else http_st 0)"

definition http_case_35 :: "char \<Rightarrow> http_trans" where
  "http_case_35 c =
    (let v = schar c in
     if v = 116 then http_st 36 else http_st 0)"

definition http_case_36 :: "char \<Rightarrow> http_trans" where
  "http_case_36 c =
    (let v = schar c in
     if v = 112 then http_st 37 else http_st 0)"

definition http_case_37 :: "char \<Rightarrow> http_trans" where
  "http_case_37 c =
    (let v = schar c in
     if v = 58 then http_st 38 else http_st 0)"

definition http_case_38 :: "char \<Rightarrow> http_trans" where
  "http_case_38 c =
    (let v = schar c in
     if v = 32 then http_tr9 else if v = 34 then http_st 0 else if v = 35 then http_tr10
     else if v = 37 then http_st 39 else if v = 60 then http_st 0 else if v = 62 then http_st 0
     else if v = 127 then http_st 0 else if 0 \<le> v \<and> v \<le> 31 then http_st 0 else http_st 38)"

definition http_case_39 :: "char \<Rightarrow> http_trans" where
  "http_case_39 c =
    (let v = schar c in
     if v < 65 then (if 48 \<le> v \<and> v \<le> 57 then http_st 40 else http_st 0)
     else if v > 70 then (if 97 \<le> v \<and> v \<le> 102 then http_st 40 else http_st 0) else http_st 40)"

definition http_case_40 :: "char \<Rightarrow> http_trans" where
  "http_case_40 c =
    (let v = schar c in
     if v < 65 then (if 48 \<le> v \<and> v \<le> 57 then http_st 38 else http_st 0)
     else if v > 70 then (if 97 \<le> v \<and> v \<le> 102 then http_st 38 else http_st 0) else http_st 38)"

definition http_case_41 :: "char \<Rightarrow> http_trans" where
  "http_case_41 c =
    (let v = schar c in
     if v = 32 then http_tr4 else if v = 36 then http_st 42 else if v = 95 then http_st 42
     else if v < 48 then (if 45 \<le> v \<and> v \<le> 46 then http_st 42 else http_st 0)
     else if v > 57 then (if 65 \<le> v \<and> v \<le> 90 then http_st 42 else http_st 0) else http_st 42)"

definition http_case_42 :: "char \<Rightarrow> http_trans" where
  "http_case_42 c =
    (let v = schar c in
     if v = 32 then http_tr4 else if v = 36 then http_st 43 else if v = 95 then http_st 43
     else if v < 48 then (if 45 \<le> v \<and> v \<le> 46 then http_st 43 else http_st 0)
     else if v > 57 then (if 65 \<le> v \<and> v \<le> 90 then http_st 43 else http_st 0) else http_st 43)"

definition http_case_43 :: "char \<Rightarrow> http_trans" where
  "http_case_43 c =
    (let v = schar c in
     if v = 32 then http_tr4 else if v = 36 then http_st 44 else if v = 95 then http_st 44
     else if v < 48 then (if 45 \<le> v \<and> v \<le> 46 then http_st 44 else http_st 0)
     else if v > 57 then (if 65 \<le> v \<and> v \<le> 90 then http_st 44 else http_st 0) else http_st 44)"

definition http_case_44 :: "char \<Rightarrow> http_trans" where
  "http_case_44 c =
    (let v = schar c in
     if v = 32 then http_tr4 else if v = 36 then http_st 45 else if v = 95 then http_st 45
     else if v < 48 then (if 45 \<le> v \<and> v \<le> 46 then http_st 45 else http_st 0)
     else if v > 57 then (if 65 \<le> v \<and> v \<le> 90 then http_st 45 else http_st 0) else http_st 45)"

definition http_case_45 :: "char \<Rightarrow> http_trans" where
  "http_case_45 c =
    (let v = schar c in
     if v = 32 then http_tr4 else if v = 36 then http_st 46 else if v = 95 then http_st 46
     else if v < 48 then (if 45 \<le> v \<and> v \<le> 46 then http_st 46 else http_st 0)
     else if v > 57 then (if 65 \<le> v \<and> v \<le> 90 then http_st 46 else http_st 0) else http_st 46)"

definition http_case_46 :: "char \<Rightarrow> http_trans" where
  "http_case_46 c =
    (let v = schar c in
     if v = 32 then http_tr4 else if v = 36 then http_st 47 else if v = 95 then http_st 47
     else if v < 48 then (if 45 \<le> v \<and> v \<le> 46 then http_st 47 else http_st 0)
     else if v > 57 then (if 65 \<le> v \<and> v \<le> 90 then http_st 47 else http_st 0) else http_st 47)"

definition http_case_47 :: "char \<Rightarrow> http_trans" where
  "http_case_47 c =
    (let v = schar c in
     if v = 32 then http_tr4 else if v = 36 then http_st 48 else if v = 95 then http_st 48
     else if v < 48 then (if 45 \<le> v \<and> v \<le> 46 then http_st 48 else http_st 0)
     else if v > 57 then (if 65 \<le> v \<and> v \<le> 90 then http_st 48 else http_st 0) else http_st 48)"

definition http_case_48 :: "char \<Rightarrow> http_trans" where
  "http_case_48 c =
    (let v = schar c in
     if v = 32 then http_tr4 else if v = 36 then http_st 49 else if v = 95 then http_st 49
     else if v < 48 then (if 45 \<le> v \<and> v \<le> 46 then http_st 49 else http_st 0)
     else if v > 57 then (if 65 \<le> v \<and> v \<le> 90 then http_st 49 else http_st 0) else http_st 49)"

definition http_case_49 :: "char \<Rightarrow> http_trans" where
  "http_case_49 c =
    (let v = schar c in
     if v = 32 then http_tr4 else if v = 36 then http_st 50 else if v = 95 then http_st 50
     else if v < 48 then (if 45 \<le> v \<and> v \<le> 46 then http_st 50 else http_st 0)
     else if v > 57 then (if 65 \<le> v \<and> v \<le> 90 then http_st 50 else http_st 0) else http_st 50)"

definition http_case_50 :: "char \<Rightarrow> http_trans" where
  "http_case_50 c =
    (let v = schar c in
     if v = 32 then http_tr4 else if v = 36 then http_st 51 else if v = 95 then http_st 51
     else if v < 48 then (if 45 \<le> v \<and> v \<le> 46 then http_st 51 else http_st 0)
     else if v > 57 then (if 65 \<le> v \<and> v \<le> 90 then http_st 51 else http_st 0) else http_st 51)"

definition http_case_51 :: "char \<Rightarrow> http_trans" where
  "http_case_51 c =
    (let v = schar c in
     if v = 32 then http_tr4 else if v = 36 then http_st 52 else if v = 95 then http_st 52
     else if v < 48 then (if 45 \<le> v \<and> v \<le> 46 then http_st 52 else http_st 0)
     else if v > 57 then (if 65 \<le> v \<and> v \<le> 90 then http_st 52 else http_st 0) else http_st 52)"

definition http_case_52 :: "char \<Rightarrow> http_trans" where
  "http_case_52 c =
    (let v = schar c in
     if v = 32 then http_tr4 else if v = 36 then http_st 53 else if v = 95 then http_st 53
     else if v < 48 then (if 45 \<le> v \<and> v \<le> 46 then http_st 53 else http_st 0)
     else if v > 57 then (if 65 \<le> v \<and> v \<le> 90 then http_st 53 else http_st 0) else http_st 53)"

definition http_case_53 :: "char \<Rightarrow> http_trans" where
  "http_case_53 c =
    (let v = schar c in
     if v = 32 then http_tr4 else if v = 36 then http_st 54 else if v = 95 then http_st 54
     else if v < 48 then (if 45 \<le> v \<and> v \<le> 46 then http_st 54 else http_st 0)
     else if v > 57 then (if 65 \<le> v \<and> v \<le> 90 then http_st 54 else http_st 0) else http_st 54)"

definition http_case_54 :: "char \<Rightarrow> http_trans" where
  "http_case_54 c =
    (let v = schar c in
     if v = 32 then http_tr4 else if v = 36 then http_st 55 else if v = 95 then http_st 55
     else if v < 48 then (if 45 \<le> v \<and> v \<le> 46 then http_st 55 else http_st 0)
     else if v > 57 then (if 65 \<le> v \<and> v \<le> 90 then http_st 55 else http_st 0) else http_st 55)"

definition http_case_55 :: "char \<Rightarrow> http_trans" where
  "http_case_55 c =
    (let v = schar c in
     if v = 32 then http_tr4 else if v = 36 then http_st 56 else if v = 95 then http_st 56
     else if v < 48 then (if 45 \<le> v \<and> v \<le> 46 then http_st 56 else http_st 0)
     else if v > 57 then (if 65 \<le> v \<and> v \<le> 90 then http_st 56 else http_st 0) else http_st 56)"

definition http_case_56 :: "char \<Rightarrow> http_trans" where
  "http_case_56 c =
    (let v = schar c in
     if v = 32 then http_tr4 else if v = 36 then http_st 57 else if v = 95 then http_st 57
     else if v < 48 then (if 45 \<le> v \<and> v \<le> 46 then http_st 57 else http_st 0)
     else if v > 57 then (if 65 \<le> v \<and> v \<le> 90 then http_st 57 else http_st 0) else http_st 57)"

definition http_case_57 :: "char \<Rightarrow> http_trans" where
  "http_case_57 c =
    (let v = schar c in
     if v = 32 then http_tr4 else if v = 36 then http_st 58 else if v = 95 then http_st 58
     else if v < 48 then (if 45 \<le> v \<and> v \<le> 46 then http_st 58 else http_st 0)
     else if v > 57 then (if 65 \<le> v \<and> v \<le> 90 then http_st 58 else http_st 0) else http_st 58)"

definition http_case_58 :: "char \<Rightarrow> http_trans" where
  "http_case_58 c =
    (let v = schar c in
     if v = 32 then http_tr4 else if v = 36 then http_st 59 else if v = 95 then http_st 59
     else if v < 48 then (if 45 \<le> v \<and> v \<le> 46 then http_st 59 else http_st 0)
     else if v > 57 then (if 65 \<le> v \<and> v \<le> 90 then http_st 59 else http_st 0) else http_st 59)"

definition http_case_59 :: "char \<Rightarrow> http_trans" where
  "http_case_59 c =
    (let v = schar c in
     if v = 32 then http_tr4 else http_st 0)"

definition http_case_60 :: "char \<Rightarrow> http_trans" where
  "http_case_60 c =
    (let v = schar c in
     if v = 112 then http_st 61 else http_st 0)"

definition http_case_61 :: "char \<Rightarrow> http_trans" where
  "http_case_61 c =
    (let v = schar c in
     if v = 111 then http_st 62 else http_st 0)"

definition http_case_62 :: "char \<Rightarrow> http_trans" where
  "http_case_62 c =
    (let v = schar c in
     if v = 108 then http_st 63 else http_st 0)"

definition http_case_63 :: "char \<Rightarrow> http_trans" where
  "http_case_63 c =
    (let v = schar c in
     if v = 105 then http_st 64 else http_st 0)"

definition http_case_64 :: "char \<Rightarrow> http_trans" where
  "http_case_64 c =
    (let v = schar c in
     if v = 99 then http_st 65 else http_st 0)"

definition http_case_65 :: "char \<Rightarrow> http_trans" where
  "http_case_65 c =
    (let v = schar c in
     if v = 121 then http_st 66 else http_st 0)"

definition http_case_66 :: "char \<Rightarrow> http_trans" where
  "http_case_66 c =
    (let v = schar c in
     if v = 45 then http_st 67 else http_st 0)"

definition http_case_67 :: "char \<Rightarrow> http_trans" where
  "http_case_67 c =
    (let v = schar c in
     if v = 102 then http_st 68 else http_st 0)"

definition http_case_68 :: "char \<Rightarrow> http_trans" where
  "http_case_68 c =
    (let v = schar c in
     if v = 105 then http_st 69 else http_st 0)"

definition http_case_69 :: "char \<Rightarrow> http_trans" where
  "http_case_69 c =
    (let v = schar c in
     if v = 108 then http_st 70 else http_st 0)"

definition http_case_70 :: "char \<Rightarrow> http_trans" where
  "http_case_70 c =
    (let v = schar c in
     if v = 101 then http_st 71 else http_st 0)"

definition http_case_71 :: "char \<Rightarrow> http_trans" where
  "http_case_71 c =
    (let v = schar c in
     if v = 45 then http_st 72 else http_st 0)"

definition http_case_72 :: "char \<Rightarrow> http_trans" where
  "http_case_72 c =
    (let v = schar c in
     if v = 114 then http_st 73 else http_st 0)"

definition http_case_73 :: "char \<Rightarrow> http_trans" where
  "http_case_73 c =
    (let v = schar c in
     if v = 101 then http_st 74 else http_st 0)"

definition http_case_74 :: "char \<Rightarrow> http_trans" where
  "http_case_74 c =
    (let v = schar c in
     if v = 113 then http_st 75 else http_st 0)"

definition http_case_75 :: "char \<Rightarrow> http_trans" where
  "http_case_75 c =
    (let v = schar c in
     if v = 117 then http_st 76 else http_st 0)"

definition http_case_76 :: "char \<Rightarrow> http_trans" where
  "http_case_76 c =
    (let v = schar c in
     if v = 101 then http_st 77 else http_st 0)"

definition http_case_77 :: "char \<Rightarrow> http_trans" where
  "http_case_77 c =
    (let v = schar c in
     if v = 115 then http_st 78 else http_st 0)"

definition http_case_78 :: "char \<Rightarrow> http_trans" where
  "http_case_78 c =
    (let v = schar c in
     if v = 116 then http_st 79 else http_st 0)"

definition http_case_79 :: "char \<Rightarrow> http_trans" where
  "http_case_79 c =
    (let v = schar c in
     if v = 47 then http_st 80 else http_st 0)"

definition http_case_80 :: "char \<Rightarrow> http_trans" where
  "http_case_80 c =
    (let v = schar c in
     if v = 62 then http_st 81 else http_st 0)"

definition http_case_81 :: "char \<Rightarrow> http_trans" where
  "http_case_81 c =
    (let v = schar c in
     if v = 0 then http_tr106 else http_st 0)"

definition http_case_82 :: "char \<Rightarrow> http_trans" where
  "http_case_82 c =
    (let v = schar c in
     if v = 32 then http_tr108 else if v = 37 then http_st 86 else if v = 47 then http_st 0
     else if v = 59 then http_tr110 else if v = 60 then http_st 0 else if v = 62 then http_st 0
     else if v = 63 then http_tr111 else if v = 127 then http_st 0
     else if v > 31 then (if 34 \<le> v \<and> v \<le> 35 then http_st 0 else http_st 83)
     else if v \<ge> 0 then http_st 0 else http_st 83)"

definition http_case_83 :: "char \<Rightarrow> http_trans" where
  "http_case_83 c =
    (let v = schar c in
     if v = 32 then http_tr108 else if v = 37 then http_st 86 else if v = 59 then http_tr110
     else if v = 60 then http_st 0 else if v = 62 then http_st 0 else if v = 63 then http_tr111
     else if v = 127 then http_st 0 else if v > 31 then (if 34 \<le> v \<and> v \<le> 35 then http_st 0
     else http_st 83) else if v \<ge> 0 then http_st 0 else http_st 83)"

definition http_case_84 :: "char \<Rightarrow> http_trans" where
  "http_case_84 c =
    (let v = schar c in
     if v = 123 then http_st 85 else http_st 0)"

definition http_case_85 :: "char \<Rightarrow> http_trans" where
  "http_case_85 c =
    (let v = schar c in
     if v = 0 then http_tr113 else http_st 85)"

definition http_case_86 :: "char \<Rightarrow> http_trans" where
  "http_case_86 c =
    (let v = schar c in
     if v < 65 then (if 48 \<le> v \<and> v \<le> 57 then http_st 87 else http_st 0)
     else if v > 70 then (if 97 \<le> v \<and> v \<le> 102 then http_st 87 else http_st 0) else http_st 87)"

definition http_case_87 :: "char \<Rightarrow> http_trans" where
  "http_case_87 c =
    (let v = schar c in
     if v < 65 then (if 48 \<le> v \<and> v \<le> 57 then http_st 83 else http_st 0)
     else if v > 70 then (if 97 \<le> v \<and> v \<le> 102 then http_st 83 else http_st 0) else http_st 83)"

definition http_case_88 :: "char \<Rightarrow> http_trans" where
  "http_case_88 c =
    (let v = schar c in
     if v = 32 then http_tr108 else if v = 37 then http_st 89 else if v = 60 then http_st 0
     else if v = 62 then http_st 0 else if v = 63 then http_st 91 else if v = 127 then http_st 0
     else if v > 31 then (if 34 \<le> v \<and> v \<le> 35 then http_st 0 else http_st 88)
     else if v \<ge> 0 then http_st 0 else http_st 88)"

definition http_case_89 :: "char \<Rightarrow> http_trans" where
  "http_case_89 c =
    (let v = schar c in
     if v < 65 then (if 48 \<le> v \<and> v \<le> 57 then http_st 90 else http_st 0)
     else if v > 70 then (if 97 \<le> v \<and> v \<le> 102 then http_st 90 else http_st 0) else http_st 90)"

definition http_case_90 :: "char \<Rightarrow> http_trans" where
  "http_case_90 c =
    (let v = schar c in
     if v < 65 then (if 48 \<le> v \<and> v \<le> 57 then http_st 88 else http_st 0)
     else if v > 70 then (if 97 \<le> v \<and> v \<le> 102 then http_st 88 else http_st 0) else http_st 88)"

definition http_case_91 :: "char \<Rightarrow> http_trans" where
  "http_case_91 c =
    (let v = schar c in
     if v = 32 then http_tr120 else if v = 37 then http_tr121 else if v = 60 then http_st 0
     else if v = 62 then http_st 0 else if v = 127 then http_st 0
     else if v > 31 then (if 34 \<le> v \<and> v \<le> 35 then http_st 0 else http_tr119)
     else if v \<ge> 0 then http_st 0 else http_tr119)"

definition http_case_92 :: "char \<Rightarrow> http_trans" where
  "http_case_92 c =
    (let v = schar c in
     if v = 32 then http_tr123 else if v = 37 then http_st 93 else if v = 60 then http_st 0
     else if v = 62 then http_st 0 else if v = 127 then http_st 0
     else if v > 31 then (if 34 \<le> v \<and> v \<le> 35 then http_st 0 else http_st 92)
     else if v \<ge> 0 then http_st 0 else http_st 92)"

definition http_case_93 :: "char \<Rightarrow> http_trans" where
  "http_case_93 c =
    (let v = schar c in
     if v < 65 then (if 48 \<le> v \<and> v \<le> 57 then http_st 94 else http_st 0)
     else if v > 70 then (if 97 \<le> v \<and> v \<le> 102 then http_st 94 else http_st 0) else http_st 94)"

definition http_case_94 :: "char \<Rightarrow> http_trans" where
  "http_case_94 c =
    (let v = schar c in
     if v < 65 then (if 48 \<le> v \<and> v \<le> 57 then http_st 92 else http_st 0)
     else if v > 70 then (if 97 \<le> v \<and> v \<le> 102 then http_st 92 else http_st 0) else http_st 92)"

definition http_case_95 :: "char \<Rightarrow> http_trans" where
  "http_case_95 c =
     http_st 0"

definition http_case_96 :: "char \<Rightarrow> http_trans" where
  "http_case_96 c =
    (let v = schar c in
     if v = 0 then http_tr113 else http_st 85)"

text \<open>The \<^verbatim>\<open>switch\<close> on the state.  It has no case for the error state.\<close>

definition http_cases :: "(char \<Rightarrow> http_trans) list" where
  "http_cases =
    [http_case_1, http_case_2, http_case_3, http_case_4, http_case_5, http_case_6, http_case_7,
     http_case_8, http_case_9, http_case_10, http_case_11, http_case_12, http_case_13, http_case_14,
     http_case_15, http_case_16, http_case_17, http_case_18, http_case_19, http_case_20, http_case_21,
     http_case_22, http_case_23, http_case_24, http_case_25, http_case_26, http_case_27, http_case_28,
     http_case_29, http_case_30, http_case_31, http_case_32, http_case_33, http_case_34, http_case_35,
     http_case_36, http_case_37, http_case_38, http_case_39, http_case_40, http_case_41, http_case_42,
     http_case_43, http_case_44, http_case_45, http_case_46, http_case_47, http_case_48, http_case_49,
     http_case_50, http_case_51, http_case_52, http_case_53, http_case_54, http_case_55, http_case_56,
     http_case_57, http_case_58, http_case_59, http_case_60, http_case_61, http_case_62, http_case_63,
     http_case_64, http_case_65, http_case_66, http_case_67, http_case_68, http_case_69, http_case_70,
     http_case_71, http_case_72, http_case_73, http_case_74, http_case_75, http_case_76, http_case_77,
     http_case_78, http_case_79, http_case_80, http_case_81, http_case_82, http_case_83, http_case_84,
     http_case_85, http_case_86, http_case_87, http_case_88, http_case_89, http_case_90, http_case_91,
     http_case_92, http_case_93, http_case_94, http_case_95, http_case_96]"

definition http_jump :: "nat \<Rightarrow> char \<Rightarrow> http_trans" where
  "http_jump cs = (if 1 \<le> cs \<and> cs \<le> 96 then http_cases ! (cs - 1) else (\<lambda>_. http_st 0))"

section \<open>Running\<close>

text \<open>The rest of the parser's record.  Sizes are far below \<open>2 ^ 63\<close>; only the difference in \<^verbatim>\<open>LEN\<close> can wrap.\<close>

record http11_state =
  p_cs :: nat
  p_nread :: nat
  p_mark :: nat
  p_field_start :: nat
  p_field_len :: nat
  p_query_start :: nat

type_synonym http11 = "http11_state http_parser"

definition http_len :: "nat \<Rightarrow> nat \<Rightarrow> nat" where
  "http_len at p = nat ((int p - int at) mod 2 ^ 64)"

text \<open>What a callback copies: \<open>n\<close> bytes of the buffer from \<open>at\<close> on.\<close>

definition http_piece :: "string \<Rightarrow> nat \<Rightarrow> nat \<Rightarrow> string cres" where
  "http_piece buf at n = (if at + n \<le> length buf then Inr (take n (drop at buf)) else Inl Out_of_bounds)"

type_synonym http_run_state = "http11 \<times> parser_call list"

definition http_call :: "(string \<Rightarrow> parser_call) \<Rightarrow> nat \<Rightarrow> string \<Rightarrow> nat \<Rightarrow> http_run_state \<Rightarrow> http_run_state cres" where
  "http_call f at buf p = (\<lambda>(h, calls). cbind (http_piece buf at (http_len at p)) (\<lambda>s. Inr (h, calls @ [f s])))"

fun http_act :: "http_action \<Rightarrow> string \<Rightarrow> nat \<Rightarrow> http_run_state \<Rightarrow> http_run_state cres" where
  "http_act Mark buf p (h, calls) = Inr (h\<lparr>machine := (machine h)\<lparr>p_mark := p\<rparr>\<rparr>, calls)"
| "http_act Start_field buf p (h, calls) = Inr (h\<lparr>machine := (machine h)\<lparr>p_field_start := p\<rparr>\<rparr>, calls)"
| "http_act Write_field buf p (h, calls) =
     Inr (h\<lparr>machine := (machine h)\<lparr>p_field_len := http_len (p_field_start (machine h)) p\<rparr>\<rparr>, calls)"
| "http_act Write_value buf p (h, calls) =
     cbind (http_piece buf (p_field_start (machine h)) (p_field_len (machine h))) (\<lambda>f.
       http_call (On_field f) (p_mark (machine h)) buf p (h, calls))"
| "http_act Request_method buf p (h, calls) = http_call On_method (p_mark (machine h)) buf p (h, calls)"
| "http_act Request_uri buf p (h, calls) = http_call On_uri (p_mark (machine h)) buf p (h, calls)"
| "http_act Fragment buf p (h, calls) = http_call On_fragment (p_mark (machine h)) buf p (h, calls)"
| "http_act Start_query buf p (h, calls) = Inr (h\<lparr>machine := (machine h)\<lparr>p_query_start := p\<rparr>\<rparr>, calls)"
| "http_act Query_string buf p (h, calls) = http_call On_query (p_query_start (machine h)) buf p (h, calls)"
| "http_act Http_version buf p (h, calls) = http_call On_version (p_mark (machine h)) buf p (h, calls)"
| "http_act Request_path buf p (h, calls) = http_call On_path (p_mark (machine h)) buf p (h, calls)"
| "http_act Done buf p (h, calls) = Inr (h\<lparr>body_start := p + 1\<rparr>, calls @ [On_header_done])"
| "http_act Socket buf p (h, calls) = Inr (h\<lparr>socket_started := 1\<rparr>, calls)"
| "http_act Json buf p (h, calls) = Inr (h\<lparr>json_sent := 1\<rparr>, calls)"

fun http_acts :: "http_action list \<Rightarrow> string \<Rightarrow> nat \<Rightarrow> http_run_state \<Rightarrow> http_run_state cres" where
  "http_acts [] buf p r = Inr r"
| "http_acts (a # as) buf p r = cbind (http_act a buf p r) (http_acts as buf p)"

text \<open>
  The run over \<open>rest\<close>, what is left of \<open>buf\<close> behind \<open>p\<close>: the final state and position.  The error
  state leaves \<^verbatim>\<open>p\<close> where it is, and \<^verbatim>\<open>done\<close> breaks off behind it.
\<close>

fun http_run :: "string \<Rightarrow> string \<Rightarrow> nat \<Rightarrow> nat \<Rightarrow> http_run_state \<Rightarrow> (nat \<times> nat \<times> http_run_state) cres" where
  "http_run buf [] p cs r = Inr (cs, p, r)"
| "http_run buf (c # rest) p cs r =
     (let (acts, tgt) = http_jump cs c in
      if tgt = 0 then Inr (0, p, r)
      else cbind (http_acts acts buf p r) (\<lambda>r.
        if Done \<in> set acts then Inr (tgt, Suc p, r) else http_run buf rest (Suc p) tgt r))"

definition http11_init :: "http11 \<Rightarrow> http11" where
  "http11_init h =
     h\<lparr>body_start := 0, content_len := 0, socket_started := 0, json_sent := 0,
       machine := (machine h)\<lparr>p_cs := 1, p_mark := 0, p_nread := 0, p_field_len := 0, p_field_start := 0\<rparr>\<rparr>"

definition http11_has_error :: "http11 \<Rightarrow> bool" where
  "http11_has_error h \<longleftrightarrow> p_cs (machine h) = 0"

definition http11_is_finished :: "http11 \<Rightarrow> bool" where
  "http11_is_finished h \<longleftrightarrow> p_cs (machine h) \<ge> 95"

definition http11_finish :: "http11 \<Rightarrow> int" where
  "http11_finish h = (if http11_has_error h then -1 else if http11_is_finished h then 1 else 0)"

definition http11_execute :: "http11 \<Rightarrow> string \<Rightarrow> nat \<Rightarrow> (parser_call list \<times> http11 \<times> nat) cres" where
  "http11_execute h buf off =
     (if buf = [] then Inr ([], h, 0)
      else if \<not> off \<le> length buf then Inl Assert_fail
      else cbind (http_run buf (drop off buf) off (p_cs (machine h)) (h, [])) (\<lambda>(cs, p, h, calls).
        let h = (if \<not> http11_has_error h then h\<lparr>machine := (machine h)\<lparr>p_cs := cs\<rparr>\<rparr> else h);
            h = h\<lparr>machine := (machine h)\<lparr>p_nread := p_nread (machine h) + (p - off)\<rparr>\<rparr>;
            m = machine h in
        if p_nread m \<le> length buf \<and> body_start h \<le> length buf \<and> p_mark m < length buf \<and>
           p_field_len m \<le> length buf \<and> p_field_start m < length buf
        then Inr (calls, h, p_nread m) else Inl Assert_fail))"

text \<open>The parser as the server uses it.\<close>

definition http11_ops :: "http11_state parser_ops" where
  "http11_ops = \<lparr>http_parser_init = http11_init,
     http_parser_execute = (\<lambda>h b n. case http11_execute h b n of Inr r \<Rightarrow> r | Inl _ \<Rightarrow> ([], h, 0)),
     http_parser_finish = http11_finish\<rparr>"

end
