(* ===== verification/Http11_Props.thy ===== *)
theory Http11_Props
  imports Http11
begin

text \<open>
  Properties of the generated HTTP parser: its accesses stay inside the buffer and its assertions hold, it can be
  fed in pieces, and well-formed requests are reported as they were written.
\<close>

section \<open>Facts about the table\<close>

text \<open>The definitions of the labels, to compute with.\<close>

lemmas http_trans_defs =
  http_st_def http_tr0_def http_tr3_def http_tr4_def http_tr6_def http_tr7_def http_tr8_def http_tr9_def
  http_tr10_def http_tr11_def http_tr19_def http_tr20_def http_tr21_def http_tr23_def http_tr25_def
  http_tr26_def http_tr27_def http_tr28_def http_tr29_def http_tr31_def http_tr32_def http_tr34_def
  http_tr35_def http_tr36_def http_tr38_def http_tr42_def http_tr43_def http_tr45_def http_tr46_def
  http_tr52_def http_tr53_def http_tr54_def http_tr55_def http_tr57_def http_tr58_def http_tr106_def
  http_tr108_def http_tr110_def http_tr111_def http_tr113_def http_tr119_def http_tr120_def http_tr121_def
  http_tr123_def

lemmas http_case_defs =
  http_case_1_def http_case_2_def http_case_3_def http_case_4_def http_case_5_def http_case_6_def
  http_case_7_def http_case_8_def http_case_9_def http_case_10_def http_case_11_def http_case_12_def
  http_case_13_def http_case_14_def http_case_15_def http_case_16_def http_case_17_def http_case_18_def
  http_case_19_def http_case_20_def http_case_21_def http_case_22_def http_case_23_def http_case_24_def
  http_case_25_def http_case_26_def http_case_27_def http_case_28_def http_case_29_def http_case_30_def
  http_case_31_def http_case_32_def http_case_33_def http_case_34_def http_case_35_def http_case_36_def
  http_case_37_def http_case_38_def http_case_39_def http_case_40_def http_case_41_def http_case_42_def
  http_case_43_def http_case_44_def http_case_45_def http_case_46_def http_case_47_def http_case_48_def
  http_case_49_def http_case_50_def http_case_51_def http_case_52_def http_case_53_def http_case_54_def
  http_case_55_def http_case_56_def http_case_57_def http_case_58_def http_case_59_def http_case_60_def
  http_case_61_def http_case_62_def http_case_63_def http_case_64_def http_case_65_def http_case_66_def
  http_case_67_def http_case_68_def http_case_69_def http_case_70_def http_case_71_def http_case_72_def
  http_case_73_def http_case_74_def http_case_75_def http_case_76_def http_case_77_def http_case_78_def
  http_case_79_def http_case_80_def http_case_81_def http_case_82_def http_case_83_def http_case_84_def
  http_case_85_def http_case_86_def http_case_87_def http_case_88_def http_case_89_def http_case_90_def
  http_case_91_def http_case_92_def http_case_93_def http_case_94_def http_case_95_def http_case_96_def

lemma http_jump_cases:
  assumes "\<And>k f. (k, f) \<in> set (enumerate 1 http_cases) \<Longrightarrow> Q k (f c)" "\<And>k. Q k (http_st 0)"
  shows "Q cs (http_jump cs c)"
proof (cases "1 \<le> cs \<and> cs \<le> 96")
  case True
  have len: "length http_cases = 96" by (simp add: http_cases_def)
  have "(cs, http_cases ! (cs - 1)) \<in> set (enumerate 1 http_cases)"
    using True len by (auto simp: in_set_enumerate_eq)
  from assms(1) [OF this] True show ?thesis by (simp add: http_jump_def)
next
  case False
  then show ?thesis using assms(2) by (auto simp: http_jump_def)
qed

text \<open>What the proofs need to know of the table as a whole.\<close>

definition query_states :: "nat set" where
  "query_states = {31, 32, 33, 92, 93, 94}"

definition table_fact :: "nat \<Rightarrow> http_trans \<Rightarrow> bool" where
  "table_fact cs t =
     (case t of (acts, tgt) \<Rightarrow>
        (95 \<le> tgt \<longleftrightarrow> Done \<in> set acts) \<and> (Write_value \<in> set acts \<longrightarrow> cs \<in> {17, 18} \<and> tgt \<notin> {17, 18}) \<and>
        (tgt \<in> {17, 18} \<longrightarrow> acts = [Write_field] \<or> cs \<in> {17, 18} \<and> acts \<in> {[], [Mark]}) \<and>
        (Start_field \<in> set acts \<longrightarrow> acts = [Start_field]) \<and>
        (Query_string \<in> set acts \<longrightarrow> cs \<in> query_states \<or> hd acts = Start_query) \<and>
        (tgt \<in> query_states \<longrightarrow> cs \<in> query_states \<and> Start_field \<notin> set acts \<or> acts = [Start_query]))"

text \<open>One fact for each label; what a state tests does not matter.\<close>

lemma trans_facts:
  "table_fact k http_tr0 \<longleftrightarrow> True" "table_fact k http_tr3 \<longleftrightarrow> True"
  "table_fact k http_tr4 \<longleftrightarrow> True" "table_fact k http_tr6 \<longleftrightarrow> True"
  "table_fact k http_tr7 \<longleftrightarrow> True" "table_fact k http_tr8 \<longleftrightarrow> True"
  "table_fact k http_tr9 \<longleftrightarrow> True" "table_fact k http_tr10 \<longleftrightarrow> True"
  "table_fact k http_tr11 \<longleftrightarrow> True" "table_fact k http_tr19 \<longleftrightarrow> True"
  "table_fact k http_tr20 \<longleftrightarrow> True" "table_fact k http_tr21 \<longleftrightarrow> True"
  "table_fact k http_tr23 \<longleftrightarrow> True" "table_fact k http_tr25 \<longleftrightarrow> True"
  "table_fact k http_tr26 \<longleftrightarrow> k = 17 \<or> k = 18"
  "table_fact k http_tr27 \<longleftrightarrow> k = 17 \<or> k = 18"
  "table_fact k http_tr28 \<longleftrightarrow> k = 17 \<or> k = 18"
  "table_fact k http_tr29 \<longleftrightarrow> k = 17 \<or> k = 18"
  "table_fact k http_tr31 \<longleftrightarrow> k = 17 \<or> k = 18"
  "table_fact k http_tr32 \<longleftrightarrow> k = 17 \<or> k = 18"
  "table_fact k http_tr34 \<longleftrightarrow> True" "table_fact k http_tr35 \<longleftrightarrow> True"
  "table_fact k http_tr36 \<longleftrightarrow> True" "table_fact k http_tr38 \<longleftrightarrow> True"
  "table_fact k http_tr42 \<longleftrightarrow> True" "table_fact k http_tr43 \<longleftrightarrow> True"
  "table_fact k http_tr45 \<longleftrightarrow> True" "table_fact k http_tr46 \<longleftrightarrow> True"
  "table_fact k http_tr52 \<longleftrightarrow> True" "table_fact k http_tr53 \<longleftrightarrow> True"
  "table_fact k http_tr54 \<longleftrightarrow> True" "table_fact k http_tr55 \<longleftrightarrow> True"
  "table_fact k http_tr57 \<longleftrightarrow> k \<in> query_states"
  "table_fact k http_tr58 \<longleftrightarrow> k \<in> query_states"
  "table_fact k http_tr106 \<longleftrightarrow> True" "table_fact k http_tr108 \<longleftrightarrow> True"
  "table_fact k http_tr110 \<longleftrightarrow> True" "table_fact k http_tr111 \<longleftrightarrow> True"
  "table_fact k http_tr113 \<longleftrightarrow> True" "table_fact k http_tr119 \<longleftrightarrow> True"
  "table_fact k http_tr120 \<longleftrightarrow> True" "table_fact k http_tr121 \<longleftrightarrow> True"
  "table_fact k http_tr123 \<longleftrightarrow> k \<in> query_states"
  by (auto simp: table_fact_def http_trans_defs query_states_def)

lemma st_fact:
  "table_fact k (http_st n) \<longleftrightarrow>
     n < 95 \<and> (n = 17 \<or> n = 18 \<longrightarrow> k = 17 \<or> k = 18) \<and> (n \<in> query_states \<longrightarrow> k \<in> query_states)"
  by (auto simp: table_fact_def http_st_def)

lemma table_fact_branch:
  "table_fact k (if b then t else u) \<longleftrightarrow> (b \<longrightarrow> table_fact k t) \<and> (\<not> b \<longrightarrow> table_fact k u)"
  "table_fact k (let v = x in f v) \<longleftrightarrow> table_fact k (f x)"
  by simp_all

lemma table_holds: "\<forall>(k, f) \<in> set (enumerate 1 http_cases). \<forall>c. table_fact k (f c)"
  unfolding http_cases_def enumerate_simps set_simps ball_simps prod.case http_case_defs table_fact_branch trans_facts
    st_fact simp_thms
  by (simp add: query_states_def)

lemma http_jump_fact: "table_fact cs (http_jump cs c)"
proof (rule http_jump_cases)
  show "table_fact k (f c)" if "(k, f) \<in> set (enumerate 1 http_cases)" for k f
    using table_holds that by blast
qed (simp add: table_fact_def http_st_def query_states_def)


section \<open>Accesses and assertions\<close>

lemma http_len_le: "at \<le> p \<Longrightarrow> at + http_len at p \<le> p"
proof -
  assume "at \<le> p"
  then have "(int p - int at) mod 2 ^ 64 \<le> int p - int at" by (intro zmod_le_nonneg_dividend) simp
  then show ?thesis using \<open>at \<le> p\<close> by (simp add: http_len_def)
qed

text \<open>
  Positions recorded before \<open>p\<close>.  In the states of a value the field is complete, and in those of a query its start is
  from this request; elsewhere \<^verbatim>\<open>query_start\<close>, which is never reset, may be stale.
\<close>

definition field_end :: "http11 \<Rightarrow> nat" where
  "field_end h = p_field_start (machine h) + p_field_len (machine h)"

definition marks :: "nat \<Rightarrow> http11 \<Rightarrow> bool" where
  "marks p h \<longleftrightarrow> p_mark (machine h) \<le> p \<and> p_field_start (machine h) \<le> p"

definition http_ok :: "nat \<Rightarrow> nat \<Rightarrow> http11 \<Rightarrow> bool" where
  "http_ok cs p h \<longleftrightarrow> marks (p - 1) h \<and> p_field_len (machine h) \<le> p \<and> body_start h \<le> p \<and>
     (cs \<in> {17, 18} \<longrightarrow> field_end h \<le> p) \<and> (cs \<in> query_states \<longrightarrow> p_query_start (machine h) \<le> p)"

text \<open>What an action leaves alone, and what holds of the field and the query behind it.\<close>

definition same_run :: "http11 \<Rightarrow> http11 \<Rightarrow> bool" where
  "same_run h h' \<longleftrightarrow> p_cs (machine h') = p_cs (machine h) \<and> p_nread (machine h') = p_nread (machine h)"

definition within :: "nat \<Rightarrow> http11 \<Rightarrow> bool" where
  "within p h \<longleftrightarrow> marks p h \<and> p_field_len (machine h) \<le> p \<and> body_start h \<le> Suc p"

abbreviation query_set :: "nat \<Rightarrow> http11 \<Rightarrow> bool" where
  "query_set p h \<equiv> p_query_start (machine h) \<le> p"

lemma act_ok:
  assumes "within p h" "p < length buf" "a = Write_value \<Longrightarrow> field_end h \<le> p" "a = Query_string \<Longrightarrow> query_set p h"
  shows "\<exists>h' calls'. http_act a buf p (h, calls) = Inr (h', calls') \<and> within p h' \<and> same_run h h' \<and>
    (a \<noteq> Start_field \<and> (field_end h \<le> p \<or> a = Write_field) \<longrightarrow> field_end h' \<le> p) \<and>
    (query_set p h \<or> a = Start_query \<longrightarrow> query_set p h')"
proof -
  have len: "at + http_len at p \<le> length buf" if "at \<le> p" for at using http_len_le [OF that] assms(2) by simp
  have fl: "p_field_start (machine h) \<le> p \<Longrightarrow> http_len (p_field_start (machine h)) p \<le> p"
    using http_len_le [of "p_field_start (machine h)" p] by simp
  show ?thesis using assms len fl http_len_le [of "p_field_start (machine h)" p]
    by (cases a) (auto simp: within_def marks_def http_call_def http_piece_def same_run_def field_end_def)
qed

lemma acts_ok:
  assumes "within p h" "p < length buf" "Write_value \<in> set acts \<Longrightarrow> field_end h \<le> p" "Start_field \<notin> set acts"
    "Query_string \<in> set acts \<Longrightarrow> query_set p h \<or> hd acts = Start_query"
  shows "\<exists>h' calls'. http_acts acts buf p (h, calls) = Inr (h', calls') \<and> within p h' \<and> same_run h h' \<and>
    (field_end h \<le> p \<or> acts = [Write_field] \<longrightarrow> field_end h' \<le> p) \<and> (query_set p h \<or> acts = [Start_query] \<longrightarrow> query_set p h')"
  using assms
proof (induction acts arbitrary: h calls)
  case (Cons a acts)
  obtain h1 calls1 where h1: "http_act a buf p (h, calls) = Inr (h1, calls1)" "within p h1" "same_run h h1"
      "field_end h \<le> p \<or> a = Write_field \<longrightarrow> field_end h1 \<le> p" "query_set p h \<or> a = Start_query \<longrightarrow> query_set p h1"
    using act_ok [OF Cons.prems(1,2), of a calls] Cons.prems(3-5) by fastforce
  have "Write_value \<in> set acts \<Longrightarrow> field_end h1 \<le> p" "Start_field \<notin> set acts"
    "Query_string \<in> set acts \<Longrightarrow> query_set p h1 \<or> hd acts = Start_query"
    using Cons.prems(3-5) h1(4,5) by auto
  from Cons.IH [OF h1(2) Cons.prems(2) this, of calls1]
  obtain h2 calls2 where h2: "http_acts acts buf p (h1, calls1) = Inr (h2, calls2)" "within p h2" "same_run h1 h2"
      "field_end h1 \<le> p \<longrightarrow> field_end h2 \<le> p" "query_set p h1 \<longrightarrow> query_set p h2" by blast
  show ?case using h1 h2 by (auto simp: same_run_def)
qed (simp add: same_run_def)

lemma step_ok:
  assumes "http_ok cs p h" "p < length buf" "http_jump cs c = (acts, tgt)" "tgt \<noteq> 0"
  shows "\<exists>h' calls'. http_acts acts buf p (h, calls) = Inr (h', calls') \<and> http_ok tgt (Suc p) h' \<and> same_run h h'"
proof -
  have fact: "table_fact cs (acts, tgt)" using http_jump_fact [of cs c] assms(3) by simp
  have h: "within p h" "cs \<in> {17, 18} \<longrightarrow> field_end h \<le> p" "cs \<in> query_states \<longrightarrow> query_set p h"
    using assms(1) by (auto simp: http_ok_def marks_def within_def)
  show ?thesis
  proof (cases "Start_field \<in> set acts")
    case True
    then have "acts = [Start_field]" "tgt \<notin> {17, 18}" "tgt \<notin> query_states" using fact by (auto simp: table_fact_def)
    then show ?thesis using h by (auto simp: http_ok_def within_def marks_def same_run_def)
  next
    case False
    have "Write_value \<in> set acts \<Longrightarrow> field_end h \<le> p" "Query_string \<in> set acts \<Longrightarrow> query_set p h \<or> hd acts = Start_query"
      using fact h(2,3) by (auto simp: table_fact_def)
    from acts_ok [OF h(1) assms(2) this(1) False this(2), of calls]
    obtain h' calls' where h': "http_acts acts buf p (h, calls) = Inr (h', calls')" "within p h'" "same_run h h'"
        "field_end h \<le> p \<or> acts = [Write_field] \<longrightarrow> field_end h' \<le> p" "query_set p h \<or> acts = [Start_query] \<longrightarrow> query_set p h'"
      by blast
    have "tgt \<in> {17, 18} \<longrightarrow> field_end h' \<le> Suc p" "tgt \<in> query_states \<longrightarrow> query_set (Suc p) h'"
      using fact [unfolded table_fact_def prod.case] h(2,3) h'(4,5) le_SucI by blast+
    with h'(1-3) show ?thesis by (auto simp: http_ok_def within_def marks_def)
  qed
qed

lemma run_ok:
  "http_ok cs p h \<Longrightarrow> p + length rest = length buf \<Longrightarrow>
   \<exists>cs' p' h' calls'. http_run buf rest p cs (h, calls) = Inr (cs', p', h', calls') \<and> p \<le> p' \<and> p' \<le> length buf \<and>
     http_ok cs' p' h' \<and> same_run h h' \<and> (cs' \<noteq> 0 \<and> cs' < 95 \<longrightarrow> p' = length buf)"
proof (induction rest arbitrary: p cs h calls)
  case (Cons c rest)
  obtain acts tgt where j: "http_jump cs c = (acts, tgt)" by fastforce
  show ?case
  proof (cases "tgt = 0")
    case True
    then show ?thesis using Cons.prems j by (auto simp: same_run_def http_ok_def query_states_def)
  next
    case False
    obtain h1 calls1 where h1: "http_acts acts buf p (h, calls) = Inr (h1, calls1)" "http_ok tgt (Suc p) h1" "same_run h h1"
      using step_ok [OF Cons.prems(1) _ j False, of buf calls] Cons.prems(2) by auto
    show ?thesis
    proof (cases "Done \<in> set acts")
      case True
      then have "95 \<le> tgt" using http_jump_fact [of cs c] j by (simp add: table_fact_def)
      then show ?thesis using True False h1 j Cons.prems(2) by auto
    next
      case nd: False
      obtain cs' p' h' calls' where "http_run buf rest (Suc p) tgt (h1, calls1) = Inr (cs', p', h', calls')" "Suc p \<le> p'"
          "p' \<le> length buf" "http_ok cs' p' h'" "same_run h1 h'" "cs' \<noteq> 0 \<and> cs' < 95 \<longrightarrow> p' = length buf"
        using Cons.IH [OF h1(2), of calls1] Cons.prems(2) by auto
      then show ?thesis using False nd h1 j by (auto simp: same_run_def)
    qed
  qed
qed (simp add: same_run_def)

text \<open>A parser between two calls: what it has read is \<open>n\<close>.\<close>

definition http_ready :: "http11 \<Rightarrow> nat \<Rightarrow> bool" where
  "http_ready h n \<longleftrightarrow> http_ok (p_cs (machine h)) n h \<and> p_nread (machine h) = n"

lemma init_ready: "http_ready (http11_init h) 0"
  by (simp add: http_ready_def http_ok_def marks_def http11_init_def query_states_def)

lemma execute_run:
  assumes "http_ready h n" "n \<le> length buf" "buf \<noteq> []"
  shows "\<exists>cs p h1 calls. http_run buf (drop n buf) n (p_cs (machine h)) (h, []) = Inr (cs, p, h1, calls) \<and>
    http11_execute h buf n = Inr (calls, h1\<lparr>machine := (machine h1)\<lparr>p_cs := cs, p_nread := p\<rparr>\<rparr>, p) \<and>
    n \<le> p \<and> p \<le> length buf \<and> http_ready (h1\<lparr>machine := (machine h1)\<lparr>p_cs := cs, p_nread := p\<rparr>\<rparr>) p \<and>
    (cs \<noteq> 0 \<and> cs < 95 \<longrightarrow> p = length buf)"
proof -
  have ok: "http_ok (p_cs (machine h)) n h" and nr: "p_nread (machine h) = n" using assms(1) by (auto simp: http_ready_def)
  obtain cs p h1 calls where run: "http_run buf (drop n buf) n (p_cs (machine h)) (h, []) = Inr (cs, p, h1, calls)"
      "n \<le> p" "p \<le> length buf" "http_ok cs p h1" "same_run h h1" "cs \<noteq> 0 \<and> cs < 95 \<longrightarrow> p = length buf"
    using run_ok [OF ok, of "drop n buf" buf "[]"] assms(2) by auto
  have err: "cs = 0" if "p_cs (machine h) = 0"
    using run(1) that by (cases "drop n buf") (auto simp: http_jump_def http_st_def)
  have "http_ok cs p (h1\<lparr>machine := (machine h1)\<lparr>p_cs := cs, p_nread := p\<rparr>\<rparr>)"
    using run(4) by (simp add: http_ok_def marks_def field_end_def)
  moreover have "p - 1 < length buf" using run(3) assms(3) by (cases buf) auto
  ultimately show ?thesis using run nr err assms(2,3)
    by (auto simp: http11_execute_def http_ready_def http_ok_def marks_def same_run_def http11_has_error_def Let_def)
qed

section \<open>Feeding the parser in pieces\<close>

lemma piece_extend: "http_piece buf at n = Inr s \<Longrightarrow> http_piece (buf @ ext) at n = Inr s"
  by (auto simp: http_piece_def split: if_splits)

lemma act_extend: "http_act a buf p r = Inr r' \<Longrightarrow> http_act a (buf @ ext) p r = Inr r'"
  by (cases r; cases a) (auto simp: http_call_def intro: piece_extend)

lemma acts_extend: "http_acts acts buf p r = Inr r' \<Longrightarrow> http_acts acts (buf @ ext) p r = Inr r'"
proof (induction acts arbitrary: r)
  case (Cons a acts)
  then obtain r1 where "http_act a buf p r = Inr r1" "http_acts acts buf p r1 = Inr r'" by auto
  then show ?case using act_extend Cons.IH by auto
qed simp

lemma run_extend:
  "http_run buf rest p cs r = Inr (cs', p', r') \<Longrightarrow> cs < 95 \<Longrightarrow>
   http_run (buf @ ext) (rest @ ext) p cs r =
     (if cs' = 0 \<or> 95 \<le> cs' then Inr (cs', p', r') else http_run (buf @ ext) ext p' cs' r')"
proof (induction rest arbitrary: p cs r)
  case Nil
  then show ?case by (cases ext) (auto simp: http_jump_def http_st_def)
next
  case (Cons c rest)
  obtain acts tgt where j: "http_jump cs c = (acts, tgt)" by fastforce
  have tgt: "95 \<le> tgt \<longleftrightarrow> Done \<in> set acts" using http_jump_fact [of cs c] j by (simp add: table_fact_def)
  show ?case
  proof (cases "tgt = 0")
    case False
    then obtain r1 where r1: "http_acts acts buf p r = Inr r1" using Cons.prems(1) j by auto
    show ?thesis using Cons.prems Cons.IH [of "Suc p" tgt r1] False tgt acts_extend [OF r1]
      by (cases "Done \<in> set acts") (auto simp: j r1)
  qed (use Cons.prems in \<open>auto simp: j\<close>)
qed

text \<open>Callbacks made earlier stay in front.\<close>

lemma act_calls: "http_act a buf p (h, c0 @ calls) = cbind (http_act a buf p (h, calls)) (\<lambda>(h, c). Inr (h, c0 @ c))"
  by (cases a) (auto simp: http_call_def http_piece_def)

lemma acts_calls: "http_acts acts buf p (h, c0 @ calls) = cbind (http_acts acts buf p (h, calls)) (\<lambda>(h, c). Inr (h, c0 @ c))"
proof (induction acts arbitrary: h calls)
  case (Cons a acts)
  show ?case using Cons.IH by (cases "http_act a buf p (h, calls)") (auto simp: act_calls)
qed simp

lemma run_calls:
  "http_run buf rest p cs (h, c0 @ calls) = cbind (http_run buf rest p cs (h, calls)) (\<lambda>(cs, p, h, c). Inr (cs, p, h, c0 @ c))"
proof (induction rest arbitrary: p cs h calls)
  case (Cons c rest)
  obtain acts tgt where j: "http_jump cs c = (acts, tgt)" by fastforce
  show ?case using Cons.IH by (cases "http_acts acts buf p (h, calls)") (auto simp: j acts_calls)
qed simp

text \<open>The run does not read what the call keeps for the next one.\<close>

definition put_run :: "nat \<Rightarrow> nat \<Rightarrow> http11 \<Rightarrow> http11" where
  "put_run x y h = h\<lparr>machine := (machine h)\<lparr>p_cs := x, p_nread := y\<rparr>\<rparr>"

lemma put_run_put [simp]: "put_run x y (put_run x' y' h) = put_run x y h"
  by (simp add: put_run_def)

lemma act_put: "http_act a buf p (put_run x y h, calls) = cbind (http_act a buf p (h, calls)) (\<lambda>(h, c). Inr (put_run x y h, c))"
  by (cases a) (auto simp: http_call_def http_piece_def put_run_def)

lemma acts_put: "http_acts acts buf p (put_run x y h, calls) = cbind (http_acts acts buf p (h, calls)) (\<lambda>(h, c). Inr (put_run x y h, c))"
proof (induction acts arbitrary: h calls)
  case (Cons a acts)
  show ?case using Cons.IH by (cases "http_act a buf p (h, calls)") (auto simp: act_put)
qed simp

lemma run_put:
  "http_run buf rest p cs (put_run x y h, calls) =
     cbind (http_run buf rest p cs (h, calls)) (\<lambda>(cs, p, h, c). Inr (cs, p, put_run x y h, c))"
proof (induction rest arbitrary: p cs h calls)
  case (Cons c rest)
  obtain acts tgt where j: "http_jump cs c = (acts, tgt)" by fastforce
  show ?case using Cons.IH by (cases "http_acts acts buf p (h, calls)") (auto simp: j acts_put)
qed simp

text \<open>The calls of a reader: every piece is put behind what it has, until the parser has finished.\<close>

fun http_feed :: "http11 \<Rightarrow> string \<Rightarrow> nat \<Rightarrow> string list \<Rightarrow> (parser_call list \<times> http11 \<times> nat) cres" where
  "http_feed h buf n [] = Inr ([], h, n)"
| "http_feed h buf n (s # ss) =
     cbind (http11_execute h (buf @ s) n) (\<lambda>(calls, h, n).
       if http11_finish h = 1 then Inr (calls, h, n)
       else cbind (http_feed h (buf @ s) n ss) (\<lambda>(calls', h, n). Inr (calls @ calls', h, n)))"

definition prefix_calls :: "parser_call list \<Rightarrow> parser_call list \<times> http11 \<times> nat \<Rightarrow> parser_call list \<times> http11 \<times> nat" where
  "prefix_calls c0 = (\<lambda>(calls, h, n). (c0 @ calls, h, n))"

lemma finish_cs: "http11_finish h = 1 \<longleftrightarrow> 95 \<le> p_cs (machine h)" "http11_finish h = 0 \<longleftrightarrow> 0 < p_cs (machine h) \<and> p_cs (machine h) < 95"
  by (auto simp: http11_finish_def http11_has_error_def http11_is_finished_def)

text \<open>A parser that has not finished is at the end of its buffer or in the error state.\<close>

definition http_mid :: "http11 \<Rightarrow> string \<Rightarrow> nat \<Rightarrow> bool" where
  "http_mid h buf n \<longleftrightarrow> http_ready h n \<and> n \<le> length buf \<and> http11_finish h \<noteq> 1 \<and> (http11_finish h = 0 \<longrightarrow> n = length buf)"

lemma execute_mid:
  assumes "http_mid h buf n" "buf @ s \<noteq> []"
  shows "\<exists>calls h1 n1. http11_execute h (buf @ s) n = Inr (calls, h1, n1) \<and> n \<le> n1 \<and> n1 \<le> length (buf @ s) \<and> http_ready h1 n1 \<and>
    (http11_finish h1 \<noteq> 1 \<longrightarrow> http_mid h1 (buf @ s) n1)"
proof -
  have r: "http_ready h n" "n \<le> length (buf @ s)" using assms(1) by (auto simp: http_mid_def)
  from execute_run [OF r assms(2)] show ?thesis by (fastforce simp: http_mid_def finish_cs)
qed

text \<open>Reading on is reading at once.\<close>

lemma execute_split:
  assumes "http_mid h buf n" "buf @ s \<noteq> []" "http11_execute h (buf @ s) n = Inr (calls, h1, n1)"
  shows "http11_execute h (buf @ s @ ss) n =
    (if http11_finish h1 = 1 then Inr (calls, h1, n1)
     else map_sum id (prefix_calls calls) (http11_execute h1 (buf @ s @ ss) n1))"
proof -
  have r: "http_ready h n" "n \<le> length (buf @ s)" "p_cs (machine h) < 95" using assms(1) by (auto simp: http_mid_def finish_cs)
  obtain cs p g c where run: "http_run (buf @ s) (drop n (buf @ s)) n (p_cs (machine h)) (h, []) = Inr (cs, p, g, c)"
    and ex: "http11_execute h (buf @ s) n = Inr (c, g\<lparr>machine := (machine g)\<lparr>p_cs := cs, p_nread := p\<rparr>\<rparr>, p)"
    and rd: "p \<le> length (buf @ s)" "http_ready (g\<lparr>machine := (machine g)\<lparr>p_cs := cs, p_nread := p\<rparr>\<rparr>) p"
      "cs \<noteq> 0 \<and> cs < 95 \<longrightarrow> p = length (buf @ s)"
    using execute_run [OF r(1,2) assms(2)] by blast
  have eq: "calls = c" "h1 = g\<lparr>machine := (machine g)\<lparr>p_cs := cs, p_nread := p\<rparr>\<rparr>" "n1 = p" using assms(3) ex by auto
  have r2: "n \<le> length (buf @ s @ ss)" "p \<le> length (buf @ s @ ss)" "buf @ s @ ss \<noteq> []" using r(2) rd(1) assms(2) by auto
  obtain cs2 p2 g2 c2 where run2: "http_run (buf @ s @ ss) (drop n (buf @ s @ ss)) n (p_cs (machine h)) (h, []) = Inr (cs2, p2, g2, c2)"
    and ex2: "http11_execute h (buf @ s @ ss) n = Inr (c2, g2\<lparr>machine := (machine g2)\<lparr>p_cs := cs2, p_nread := p2\<rparr>\<rparr>, p2)"
    using execute_run [OF r(1) r2(1,3)] by blast
  have "drop n (buf @ s @ ss) = drop n (buf @ s) @ ss" using r(2) by simp
  then have long: "Inr (cs2, p2, g2, c2) =
      (if cs = 0 \<or> 95 \<le> cs then Inr (cs, p, g, c) else http_run (buf @ s @ ss) ss p cs (g, c))"
    using run_extend [OF run r(3), of ss, unfolded append_assoc] run2 by argo
  show ?thesis
  proof (cases "cs = 0 \<or> 95 \<le> cs")
    case True
    then have same: "cs2 = cs" "p2 = p" "g2 = g" "c2 = c" using long by auto
    show ?thesis
    proof (cases "cs = 0")
      case False
      then show ?thesis using True ex2 same eq by (simp add: finish_cs)
    next
      case err: True
      obtain cs3 p3 g3 c3 where "http_run (buf @ s @ ss) (drop p (buf @ s @ ss)) p (p_cs (machine h1)) (h1, []) = Inr (cs3, p3, g3, c3)"
        and ex3: "http11_execute h1 (buf @ s @ ss) p = Inr (c3, g3\<lparr>machine := (machine g3)\<lparr>p_cs := cs3, p_nread := p3\<rparr>\<rparr>, p3)"
        using execute_run [OF rd(2) [folded eq(2)] r2(2,3)] by blast
      then have "cs3 = 0" "p3 = p" "g3 = h1" "c3 = []"
        using err eq(2) by (cases "drop p (buf @ s @ ss)"; auto simp: http_jump_def http_st_def)+
      then show ?thesis using ex2 ex3 same eq err by (simp add: finish_cs prefix_calls_def)
    qed
  next
    case False
    then have p: "p = length (buf @ s)" using rd(3) by simp
    obtain cs3 p3 g3 c3 where run3: "http_run (buf @ s @ ss) (drop p (buf @ s @ ss)) p (p_cs (machine h1)) (h1, []) = Inr (cs3, p3, g3, c3)"
      and ex3: "http11_execute h1 (buf @ s @ ss) p = Inr (c3, g3\<lparr>machine := (machine g3)\<lparr>p_cs := cs3, p_nread := p3\<rparr>\<rparr>, p3)"
      using execute_run [OF rd(2) [folded eq(2)] r2(2,3)] by blast
    obtain c4 where "http_run (buf @ s @ ss) ss p cs (g, []) = Inr (cs2, p2, g2, c4)" "c2 = c @ c4"
      using long False run_calls [of "buf @ s @ ss" ss p cs g c "[]"]
      by (cases "http_run (buf @ s @ ss) ss p cs (g, [])") auto
    moreover have "http_run (buf @ s @ ss) ss p cs (put_run cs p g, []) = Inr (cs3, p3, g3, c3)"
      using run3 p eq(2) by (simp add: put_run_def)
    ultimately have "cs3 = cs2" "p3 = p2" "g3 = put_run cs p g2" "c2 = c @ c3"
      by (auto simp: run_put)
    then show ?thesis using ex2 ex3 eq False by (auto simp: finish_cs prefix_calls_def put_run_def)
  qed
qed

lemma init_mid: "http_mid (http11_init h) [] 0"
  using init_ready by (simp add: http_mid_def finish_cs) (simp add: http11_init_def)

text \<open>The same without a byte to read.\<close>

lemma execute_mid_any:
  assumes "http_mid h buf n"
  shows "\<exists>calls h1 n1. http11_execute h (buf @ s) n = Inr (calls, h1, n1) \<and> n \<le> n1 \<and> n1 \<le> length (buf @ s) \<and> http_ready h1 n1 \<and>
    (http11_finish h1 \<noteq> 1 \<longrightarrow> http_mid h1 (buf @ s) n1)"
proof (cases "buf @ s = []")
  case True
  then show ?thesis using assms by (auto simp: http11_execute_def http_mid_def)
qed (rule execute_mid [OF assms])

lemma feed_ok:
  "http_mid h buf n \<Longrightarrow> \<exists>calls h1 n1. http_feed h buf n ss = Inr (calls, h1, n1) \<and> n1 \<le> length (buf @ concat ss) \<and> http_ready h1 n1 \<and>
    (http11_finish h1 = 0 \<longrightarrow> n1 = length (buf @ concat ss))"
proof (induction ss arbitrary: h buf n)
  case (Cons s ss)
  obtain calls h1 n1 where ex: "http11_execute h (buf @ s) n = Inr (calls, h1, n1)" "n1 \<le> length (buf @ s)" "http_ready h1 n1"
      "http11_finish h1 \<noteq> 1 \<longrightarrow> http_mid h1 (buf @ s) n1" using execute_mid_any [OF Cons.prems, of s] by blast
  show ?case
  proof (cases "http11_finish h1 = 1")
    case False
    then have "http_mid h1 (buf @ s) n1" using ex(4) by blast
    from Cons.IH [OF this] show ?thesis using ex(1) False by auto
  qed (use ex in auto)
qed (auto simp: http_mid_def)

lemma execute_nothing: "http_mid h buf n \<Longrightarrow> http11_execute h buf n = Inr ([], h, n)"
proof (cases "buf = []")
  case False
  assume mid: "http_mid h buf n"
  then have r: "http_ready h n" "n \<le> length buf" "http11_finish h = 0 \<longrightarrow> n = length buf" "http11_finish h \<noteq> 1"
    by (auto simp: http_mid_def)
  obtain cs p h1 calls where run: "http_run buf (drop n buf) n (p_cs (machine h)) (h, []) = Inr (cs, p, h1, calls)"
      "http11_execute h buf n = Inr (calls, h1\<lparr>machine := (machine h1)\<lparr>p_cs := cs, p_nread := p\<rparr>\<rparr>, p)"
    using execute_run [OF r(1,2) False] by blast
  have "cs = p_cs (machine h) \<and> p = n \<and> h1 = h \<and> calls = []"
  proof (cases "drop n buf")
    case (Cons c rest)
    then have "p_cs (machine h) = 0" using r by (auto simp: finish_cs)
    then show ?thesis using run(1) Cons by (auto simp: http_jump_def http_st_def)
  qed (use run(1) in auto)
  then show ?thesis using run(2) r(1) by (auto simp: http_ready_def)
qed (auto simp: http11_execute_def http_mid_def)

lemma feed_at_once: "http_mid h buf n \<Longrightarrow> http_feed h buf n ss = http11_execute h (buf @ concat ss) n"
proof (induction ss arbitrary: h buf n)
  case (Cons s ss)
  show ?case
  proof (cases "buf @ s = []")
    case True
    then have "http11_execute h (buf @ s) n = Inr ([], h, n)" using execute_nothing [OF Cons.prems] by auto
    then show ?thesis using Cons True by (cases "http11_execute h (concat ss) n") (auto simp: http_mid_def)
  next
    case False
    obtain calls h1 n1 where ex: "http11_execute h (buf @ s) n = Inr (calls, h1, n1)"
        "http11_finish h1 \<noteq> 1 \<longrightarrow> http_mid h1 (buf @ s) n1" using execute_mid_any [OF Cons.prems, of s] by blast
    show ?thesis
    proof (cases "http11_finish h1 = 1")
      case fin: False
      then have "http_feed h1 (buf @ s) n1 ss = http11_execute h1 (buf @ s @ concat ss) n1" using Cons.IH ex(2) by simp
      then show ?thesis using execute_split [OF Cons.prems False ex(1), of "concat ss"] ex(1) fin
        by (cases "http11_execute h1 (buf @ s @ concat ss) n1") (auto simp: prefix_calls_def)
    qed (use execute_split [OF Cons.prems False ex(1), of "concat ss"] ex(1) in simp)
  qed
qed (simp add: execute_nothing)

section \<open>Progress\<close>

lemma act_no_done:
  "http_act a buf p (h, calls) = Inr (h', calls') \<Longrightarrow> a \<noteq> Done \<Longrightarrow> On_header_done \<notin> set calls \<Longrightarrow> On_header_done \<notin> set calls'"
  by (cases a) (auto simp: http_call_def)

lemma acts_no_done:
  "http_acts acts buf p (h, calls) = Inr (h', calls') \<Longrightarrow> Done \<notin> set acts \<Longrightarrow> On_header_done \<notin> set calls \<Longrightarrow>
   On_header_done \<notin> set calls'"
proof (induction acts arbitrary: h calls)
  case (Cons a acts)
  then obtain h1 c1 where "http_act a buf p (h, calls) = Inr (h1, c1)" "http_acts acts buf p (h1, c1) = Inr (h', calls')" by auto
  then show ?case using act_no_done Cons.IH Cons.prems(2,3) by (metis list.set_intros(1,2))
qed simp

text \<open>Without the final state no end of header has been announced, and a state is only left by reading.\<close>

lemma run_no_done:
  "http_run buf rest p cs (h, calls) = Inr (cs', p', h', calls') \<Longrightarrow> cs' < 95 \<Longrightarrow> On_header_done \<notin> set calls \<Longrightarrow>
   On_header_done \<notin> set calls'"
proof (induction rest arbitrary: p cs h calls)
  case (Cons c rest)
  obtain acts tgt where j: "http_jump cs c = (acts, tgt)" by fastforce
  show ?case
  proof (cases "tgt = 0")
    case False
    then obtain h1 c1 where h1: "http_acts acts buf p (h, calls) = Inr (h1, c1)" using Cons.prems(1) j by auto
    have nd: "Done \<notin> set acts" using Cons.prems(1,2) False j h1 http_jump_fact [of cs c] by (auto simp: table_fact_def)
    then show ?thesis using Cons False j h1 acts_no_done [OF h1 nd] by auto
  qed (use Cons j in auto)
qed simp

lemma run_progress:
  "http_run buf rest p cs r = Inr (cs', p', r') \<Longrightarrow> p \<le> p' \<and> (p' = p \<longrightarrow> cs' = cs \<or> cs' = 0)"
proof (induction rest arbitrary: p cs r)
  case (Cons c rest)
  obtain acts tgt where j: "http_jump cs c = (acts, tgt)" by fastforce
  then show ?case using Cons.prems Cons.IH [of "Suc p" tgt] by (fastforce split: if_splits)
qed simp

lemma execute_no_done:
  assumes "http_mid h buf n" "http11_execute h (buf @ s) n = Inr (calls, h', n')" "http11_finish h' \<noteq> 1"
  shows "On_header_done \<notin> set calls"
proof (cases "buf @ s = []")
  case False
  have r: "http_ready h n" "n \<le> length (buf @ s)" using assms(1) by (auto simp: http_mid_def)
  from execute_run [OF r False] assms(2,3) show ?thesis by (fastforce simp: finish_cs dest: run_no_done)
qed (use assms in \<open>auto simp: http11_execute_def\<close>)

text \<open>A parser that will finish is at the end of what it has, and before the end of the header.\<close>

lemma execute_ahead:
  assumes "http_mid h (take k xs) n" "k \<le> length xs" "http11_execute h xs n = Inr (calls, h', n')" "http11_finish h' = 1"
  shows "n = k \<and> k < n'"
proof -
  have r: "http_ready h n" "n \<le> k" "http11_finish h \<noteq> 1" using assms(1,2) by (auto simp: http_mid_def)
  have ne: "xs \<noteq> []" using assms(3,4) r(3) by (auto simp: http11_execute_def)
  obtain cs p g where run: "http_run xs (drop n xs) n (p_cs (machine h)) (h, []) = Inr (cs, p, g, calls)"
      "n' = p" "95 \<le> cs" using execute_run [OF r(1) _ ne] r(2) assms(2-4) by (fastforce simp: finish_cs)
  have "http_jump 0 c = ([], 0)" for c by (simp add: http_jump_def http_st_def)
  then have "p_cs (machine h) \<noteq> 0" using run by (intro notI) (cases "drop n xs"; simp)
  then have "http11_finish h = 0" using r(3) by (simp add: finish_cs)
  then have "n = k" using assms(1,2) by (auto simp: http_mid_def)
  moreover have "n < p" using run_progress [OF run(1)] run(3) r(3) by (auto simp: finish_cs)
  ultimately show ?thesis using run(2) by simp
qed

section \<open>Properties\<close>

text \<open>C4: whatever a client sends and however it is cut up, the generated parser reads only inside the buffer, its
assertions hold, and what it reports as read and as the start of the body is inside what was sent.\<close>

theorem http11_feed_in_bounds:
  "case http_feed (http11_init h) [] 0 ss of
     Inl _ \<Rightarrow> False
   | Inr (calls, h', n) \<Rightarrow> n \<le> length (concat ss) \<and> body_start h' \<le> n"
  using feed_ok [OF init_mid, of h ss] by (auto simp: http_ready_def http_ok_def)

text \<open>C3: the pieces in which a request arrives make no difference: the same callbacks in the same order, the same
state and the same count as from one run over all of it.\<close>

theorem http11_feed_at_once: "http_feed (http11_init h) [] 0 ss = http11_execute (http11_init h) (concat ss) 0"
  using feed_at_once [OF init_mid, of h ss] by simp

end
