(* ===== verification/Http11_Grammar.thy ===== *)
theory Http11_Grammar
  imports Http11_Props
begin

text \<open>
  The requests the grammar of \<^verbatim>\<open>http11/http11_parser.rl\<close> describes, as a printer, and that the generated parser
  reports them the way they were written.
\<close>

section \<open>Well-formed requests\<close>

text \<open>The character classes of the grammar.\<close>

definition chars :: "char \<Rightarrow> char \<Rightarrow> char \<Rightarrow> bool" where
  "chars a b c \<longleftrightarrow> schar a \<le> schar c \<and> schar c \<le> schar b"

definition CTL :: "char \<Rightarrow> bool" where
  "CTL c \<longleftrightarrow> 0 \<le> schar c \<and> schar c < 32 \<or> schar c = 127"

definition safe :: "char \<Rightarrow> bool" where
  "safe c \<longleftrightarrow> c \<in> set ''$-_.''"

definition reserved :: "char \<Rightarrow> bool" where
  "reserved c \<longleftrightarrow> c \<in> set '';/?:@&=+''"

definition unsafe :: "char \<Rightarrow> bool" where
  "unsafe c \<longleftrightarrow> CTL c \<or> c \<in> {CHR '' '', CHR 0x22, CHR ''#'', CHR ''%'', CHR ''<'', CHR ''>''}"

text \<open>\<^verbatim>\<open>unreserved\<close>: letters, digits, \<^verbatim>\<open>safe\<close>, \<^verbatim>\<open>extra\<close> and, as \<^verbatim>\<open>national\<close>, whatever is in no other class.\<close>

definition unreserved :: "char \<Rightarrow> bool" where
  "unreserved c \<longleftrightarrow> \<not> reserved c \<and> \<not> unsafe c"

definition xdigit :: "char \<Rightarrow> bool" where
  "xdigit c \<longleftrightarrow> chars CHR ''0'' CHR ''9'' c \<or> chars CHR ''A'' CHR ''F'' c \<or> chars CHR ''a'' CHR ''f'' c"

definition tspecials :: "char \<Rightarrow> bool" where
  "tspecials c \<longleftrightarrow> c \<in> set ''()<>@,;:/[]?={} '' \<or> c \<in> {CHR 0x5C, CHR 0x22, CHR 0x09}"

definition token :: "char \<Rightarrow> bool" where
  "token c \<longleftrightarrow> 0 \<le> schar c \<and> \<not> CTL c \<and> \<not> tspecials c"

definition method_char :: "char \<Rightarrow> bool" where
  "method_char c \<longleftrightarrow> chars CHR ''A'' CHR ''Z'' c \<or> chars CHR ''0'' CHR ''9'' c \<or> safe c"

text \<open>Characters of a class, or an escape.\<close>

fun uri_escaped :: "(char \<Rightarrow> bool) \<Rightarrow> string \<Rightarrow> bool" where
  "uri_escaped ok [] \<longleftrightarrow> True"
| "uri_escaped ok (c # cs) \<longleftrightarrow>
     (if c = CHR ''%'' then (case cs of x # y # cs \<Rightarrow> xdigit x \<and> xdigit y \<and> uri_escaped ok cs | _ \<Rightarrow> False)
      else ok c \<and> uri_escaped ok cs)"

text \<open>Of a path, its parameters behind a \<^verbatim>\<open>;\<close>, a query and a fragment.\<close>

definition path_char :: "char \<Rightarrow> bool" where
  "path_char c \<longleftrightarrow> unreserved c \<or> c \<in> set '':@&=+/''"

definition param_char :: "char \<Rightarrow> bool" where
  "param_char c \<longleftrightarrow> path_char c \<or> c = CHR '';''"

definition query_char :: "char \<Rightarrow> bool" where
  "query_char c \<longleftrightarrow> unreserved c \<or> reserved c"

text \<open>A request, with the number of spaces in front of its header's values and its line ends.\<close>

record http_request =
  hr_method :: string
  hr_path :: string
  hr_params :: "string option"
  hr_query :: "string option"
  hr_fragment :: "string option"
  hr_minor :: char
  hr_headers :: "(string \<times> string) list"
  hr_pad :: nat
  hr_eol :: string

abbreviation CR :: char where "CR \<equiv> CHR 0x0D"

abbreviation LF :: char where "LF \<equiv> CHR 0x0A"

definition behind :: "char \<Rightarrow> string option \<Rightarrow> string" where
  "behind c s = (case s of None \<Rightarrow> [] | Some s \<Rightarrow> c # s)"

definition hr_version :: "http_request \<Rightarrow> string" where
  "hr_version m = ''HTTP/1.'' @ [hr_minor m]"

definition hr_uri :: "http_request \<Rightarrow> string" where
  "hr_uri m = hr_path m @ behind CHR '';'' (hr_params m) @ behind CHR ''?'' (hr_query m)"

definition print_header :: "nat \<Rightarrow> string \<Rightarrow> string \<times> string \<Rightarrow> string" where
  "print_header pad eol = (\<lambda>(k, v). k @ '':'' @ replicate pad (CHR '' '') @ v @ eol)"

definition http_print :: "http_request \<Rightarrow> string" where
  "http_print m = hr_method m @ '' '' @ hr_uri m @ behind CHR ''#'' (hr_fragment m) @ '' '' @ hr_version m @ hr_eol m @
     concat (map (print_header (hr_pad m) (hr_eol m)) (hr_headers m)) @ hr_eol m"

definition opt_all :: "('a \<Rightarrow> bool) \<Rightarrow> 'a option \<Rightarrow> bool" where
  "opt_all P x = (case x of None \<Rightarrow> True | Some y \<Rightarrow> P y)"

definition header_ok :: "string \<times> string \<Rightarrow> bool" where
  "header_ok = (\<lambda>(k, v). k \<noteq> [] \<and> list_all token k \<and> (v = [] \<or> hd v \<noteq> CHR '' '') \<and> list_all (\<lambda>c. c \<noteq> CR \<and> c \<noteq> LF) v)"

definition eol_ok :: "string \<Rightarrow> bool" where
  "eol_ok e \<longleftrightarrow> e = [CR, LF] \<or> e = [LF]"

definition request_ok :: "http_request \<Rightarrow> bool" where
  "request_ok m \<longleftrightarrow>
     hr_method m \<noteq> [] \<and> length (hr_method m) \<le> 20 \<and> list_all method_char (hr_method m) \<and>
     hr_path m \<noteq> [] \<and> hd (hr_path m) = CHR ''/'' \<and> uri_escaped path_char (hr_path m) \<and>
     opt_all (uri_escaped param_char) (hr_params m) \<and> opt_all (uri_escaped query_char) (hr_query m) \<and>
     opt_all (uri_escaped query_char) (hr_fragment m) \<and> (hr_minor m = CHR ''0'' \<or> hr_minor m = CHR ''1'') \<and>
     list_all header_ok (hr_headers m) \<and> eol_ok (hr_eol m)"

text \<open>What the server should hear of it.\<close>

definition opt_call :: "(string \<Rightarrow> parser_call) \<Rightarrow> string option \<Rightarrow> parser_call list" where
  "opt_call f s = (case s of None \<Rightarrow> [] | Some s \<Rightarrow> [f s])"

definition http_calls :: "http_request \<Rightarrow> parser_call list" where
  "http_calls m = [On_method (hr_method m), On_path (hr_path m)] @ opt_call On_query (hr_query m) @
     [On_uri (hr_uri m)] @ opt_call On_fragment (hr_fragment m) @ [On_version (hr_version m)] @
     map (\<lambda>(k, v). On_field k v) (hr_headers m) @ [On_header_done]"

section \<open>The table on the classes\<close>

lemma schar_eq: "c = d \<longleftrightarrow> schar c = schar d"
  by (simp add: schar_inj)

lemma schar_Char:
  "schar (Char b0 b1 b2 b3 b4 b5 b6 b7) =
     (if b7 then -128 else 0) + of_bool b0 + 2 * of_bool b1 + 4 * of_bool b2 + 8 * of_bool b3 + 16 * of_bool b4 +
     32 * of_bool b5 + 64 * of_bool b6"
  by (cases b0; cases b1; cases b2; cases b3; cases b4; cases b5; cases b6; cases b7) (simp_all add: schar_def of_char_def)

text \<open>The classes as what they say of the signed character.\<close>

lemma class_schar:
  "chars a b c \<longleftrightarrow> schar a \<le> schar c \<and> schar c \<le> schar b"
  "safe c \<longleftrightarrow> schar c \<in> {36, 45, 46, 95}"
  "reserved c \<longleftrightarrow> schar c \<in> {38, 43, 47, 58, 59, 61, 63, 64}"
  "unsafe c \<longleftrightarrow> 0 \<le> schar c \<and> schar c \<le> 32 \<or> schar c \<in> {34, 35, 37, 60, 62, 127}"
  "tspecials c \<longleftrightarrow> schar c \<in> {9, 32, 34, 40, 41, 44, 47, 58, 59, 60, 61, 62, 63, 64, 91, 92, 93, 123, 125}"
  by (auto simp: chars_def safe_def reserved_def unsafe_def tspecials_def CTL_def schar_eq schar_Char)

lemma schar_range: "- 128 \<le> schar c" "schar c < 128"
  using of_char_range [of c] by (auto simp: schar_def Let_def)

lemma class_schar':
  "method_char c \<longleftrightarrow> schar c \<in> {36, 45, 46, 95} \<or> 48 \<le> schar c \<and> schar c \<le> 57 \<or> 65 \<le> schar c \<and> schar c \<le> 90"
  "xdigit c \<longleftrightarrow> 48 \<le> schar c \<and> schar c \<le> 57 \<or> 65 \<le> schar c \<and> schar c \<le> 70 \<or> 97 \<le> schar c \<and> schar c \<le> 102"
  by (auto simp: method_char_def xdigit_def class_schar schar_Char)

lemma path_schar:
  "path_char c \<longleftrightarrow> \<not> (0 \<le> schar c \<and> schar c \<le> 32) \<and> schar c \<notin> {34, 35, 37, 59, 60, 62, 63, 127}"
  "param_char c \<longleftrightarrow> \<not> (0 \<le> schar c \<and> schar c \<le> 32) \<and> schar c \<notin> {34, 35, 37, 60, 62, 63, 127}"
  "query_char c \<longleftrightarrow> \<not> (0 \<le> schar c \<and> schar c \<le> 32) \<and> schar c \<notin> {34, 35, 37, 60, 62, 127}"
proof -
  have lits: "c \<in> set '':@&=+/'' \<longleftrightarrow> schar c \<in> {58, 64, 38, 61, 43, 47}" "c = CHR '';'' \<longleftrightarrow> schar c = 59"
    by (simp_all add: schar_eq schar_Char)
  show "path_char c \<longleftrightarrow> \<not> (0 \<le> schar c \<and> schar c \<le> 32) \<and> schar c \<notin> {34, 35, 37, 59, 60, 62, 63, 127}"
    "param_char c \<longleftrightarrow> \<not> (0 \<le> schar c \<and> schar c \<le> 32) \<and> schar c \<notin> {34, 35, 37, 60, 62, 63, 127}"
    "query_char c \<longleftrightarrow> \<not> (0 \<le> schar c \<and> schar c \<le> 32) \<and> schar c \<notin> {34, 35, 37, 60, 62, 127}"
    unfolding path_char_def param_char_def query_char_def unreserved_def class_schar lits insert_iff empty_iff by presburger+
qed

lemma token_schar:
  "token c \<longleftrightarrow> schar c \<in> {33, 45, 46, 124, 126} \<or> 35 \<le> schar c \<and> schar c \<le> 39 \<or> 42 \<le> schar c \<and> schar c \<le> 43 \<or>
     48 \<le> schar c \<and> schar c \<le> 57 \<or> 65 \<le> schar c \<and> schar c \<le> 90 \<or> 94 \<le> schar c \<and> schar c \<le> 122"
  using schar_range(2) [of c] unfolding token_def CTL_def class_schar insert_iff empty_iff by presburger

lemma jump_case:
  "http_jump 1 = http_case_1"
  "http_jump 2 = http_case_2"
  "http_jump 3 = http_case_3"
  "http_jump 5 = http_case_5"
  "http_jump 6 = http_case_6"
  "http_jump 7 = http_case_7"
  "http_jump 8 = http_case_8"
  "http_jump 9 = http_case_9"
  "http_jump 10 = http_case_10"
  "http_jump 11 = http_case_11"
  "http_jump 12 = http_case_12"
  "http_jump 13 = http_case_13"
  "http_jump 14 = http_case_14"
  "http_jump 15 = http_case_15"
  "http_jump 16 = http_case_16"
  "http_jump 17 = http_case_17"
  "http_jump 18 = http_case_18"
  "http_jump 19 = http_case_19"
  "http_jump 20 = http_case_20"
  "http_jump 21 = http_case_21"
  "http_jump 22 = http_case_22"
  "http_jump 23 = http_case_23"
  "http_jump 24 = http_case_24"
  "http_jump 25 = http_case_25"
  "http_jump 26 = http_case_26"
  "http_jump 27 = http_case_27"
  "http_jump 28 = http_case_28"
  "http_jump 29 = http_case_29"
  "http_jump 30 = http_case_30"
  "http_jump 31 = http_case_31"
  "http_jump 32 = http_case_32"
  "http_jump 33 = http_case_33"
  "http_jump 41 = http_case_41"
  "http_jump 42 = http_case_42"
  "http_jump 43 = http_case_43"
  "http_jump 44 = http_case_44"
  "http_jump 45 = http_case_45"
  "http_jump 46 = http_case_46"
  "http_jump 47 = http_case_47"
  "http_jump 48 = http_case_48"
  "http_jump 49 = http_case_49"
  "http_jump 50 = http_case_50"
  "http_jump 51 = http_case_51"
  "http_jump 52 = http_case_52"
  "http_jump 53 = http_case_53"
  "http_jump 54 = http_case_54"
  "http_jump 55 = http_case_55"
  "http_jump 56 = http_case_56"
  "http_jump 57 = http_case_57"
  "http_jump 58 = http_case_58"
  "http_jump 59 = http_case_59"
  by (simp_all add: http_jump_def http_cases_def)

lemmas method_case_defs =
  http_case_2_def http_case_41_def http_case_42_def http_case_43_def http_case_44_def http_case_45_def
  http_case_46_def http_case_47_def http_case_48_def http_case_49_def http_case_50_def http_case_51_def
  http_case_52_def http_case_53_def http_case_54_def http_case_55_def http_case_56_def http_case_57_def
  http_case_58_def http_case_59_def

lemma jump_method:
  "method_char c \<Longrightarrow> http_jump 1 c = http_tr0"
  "method_char c \<Longrightarrow> http_jump 2 c = http_st 41"
  "method_char c \<Longrightarrow> 41 \<le> k \<Longrightarrow> k < 59 \<Longrightarrow> http_jump k c = http_st (Suc k)"
  "k = 2 \<or> 41 \<le> k \<and> k \<le> 59 \<Longrightarrow> http_jump k CHR '' '' = http_tr4"
proof -
  have one: "http_case_1 c = http_tr0" "http_case_2 c = http_st 41" if "method_char c"
    using that by (auto simp: http_case_1_def http_case_2_def class_schar' Let_def)
  then show "method_char c \<Longrightarrow> http_jump 1 c = http_tr0" "method_char c \<Longrightarrow> http_jump 2 c = http_st 41"
    by (simp_all only: jump_case)
  have "k \<in> set [41..<59] \<Longrightarrow> method_char c \<Longrightarrow> http_jump k c = http_st (Suc k)"
    by (auto simp: upt_rec jump_case method_case_defs class_schar' Let_def)
  then show "method_char c \<Longrightarrow> 41 \<le> k \<Longrightarrow> k < 59 \<Longrightarrow> http_jump k c = http_st (Suc k)"
    by (metis atLeastLessThan_iff set_upt)
  have "http_jump 2 CHR '' '' = http_tr4" "k \<in> set [41..<60] \<Longrightarrow> http_jump k CHR '' '' = http_tr4"
    by (auto simp: upt_rec jump_case method_case_defs schar_Char)
  moreover have "k \<in> set [41..<60]" if "41 \<le> k" "k \<le> 59"
    using that unfolding set_upt atLeastLessThan_iff by simp
  ultimately show "k = 2 \<or> 41 \<le> k \<and> k \<le> 59 \<Longrightarrow> http_jump k CHR '' '' = http_tr4" by blast
qed

text \<open>The separators.\<close>

lemma jump_sep:
  "http_jump 24 (CHR '' '') = http_tr42"
  "http_jump 24 (CHR ''#'') = http_tr43"
  "http_jump 24 (CHR '';'') = http_tr45"
  "http_jump 24 (CHR ''?'') = http_tr46"
  "http_jump 24 (CHR ''%'') = http_st 25"
  "http_jump 27 (CHR '' '') = http_tr9"
  "http_jump 27 (CHR ''#'') = http_tr10"
  "http_jump 27 (CHR ''?'') = http_st 30"
  "http_jump 27 (CHR ''%'') = http_st 28"
  "http_jump 30 (CHR '' '') = http_tr53"
  "http_jump 30 (CHR ''#'') = http_tr54"
  "http_jump 30 (CHR ''%'') = http_tr55"
  "http_jump 31 (CHR '' '') = http_tr57"
  "http_jump 31 (CHR ''#'') = http_tr58"
  "http_jump 31 (CHR ''%'') = http_st 32"
  "http_jump 20 (CHR '' '') = http_tr35"
  "http_jump 20 (CHR ''%'') = http_tr36"
  "http_jump 21 (CHR '' '') = http_tr38"
  "http_jump 21 (CHR ''%'') = http_st 22"
  "http_jump 3 (CHR ''/'') = http_tr7"
  "http_jump 5 (CHR ''H'') = http_tr11"
  "http_jump 6 (CHR ''T'') = http_st 7"
  "http_jump 7 (CHR ''T'') = http_st 8"
  "http_jump 8 (CHR ''P'') = http_st 9"
  "http_jump 9 (CHR ''/'') = http_st 10"
  "http_jump 10 (CHR ''1'') = http_st 11"
  "http_jump 11 (CHR ''.'') = http_st 12"
  "http_jump 12 (CHR ''0'') = http_st 13"
  "http_jump 12 (CHR ''1'') = http_st 13"
  "http_jump 13 (CR) = http_tr20"
  "http_jump 13 (LF) = http_tr19"
  "http_jump 14 (LF) = http_tr21"
  "http_jump 17 (LF) = http_tr27"
  "http_jump 18 (LF) = http_tr31"
  "http_jump 19 (LF) = http_st 14"
  "http_jump 14 (CR) = http_st 15"
  "http_jump 15 (LF) = http_tr21"
  "http_jump 16 (CHR '':'') = http_tr25"
  "http_jump 17 (CHR '' '') = http_tr29"
  "http_jump 17 (CR) = http_tr28"
  "http_jump 18 (CR) = http_tr32"
  by (simp_all add: jump_case schar_Char http_case_3_def http_case_5_def http_case_6_def http_case_7_def http_case_8_def http_case_9_def
    http_case_10_def http_case_11_def http_case_12_def http_case_13_def http_case_14_def http_case_15_def
    http_case_16_def http_case_17_def http_case_18_def http_case_19_def http_case_20_def http_case_21_def
    http_case_24_def http_case_27_def http_case_30_def http_case_31_def)

text \<open>The characters of the parts, and the two digits of an escape.\<close>

lemma jump_uri:
  "path_char c \<Longrightarrow> http_jump 24 c = http_st 24"
  "param_char c \<Longrightarrow> http_jump 27 c = http_st 27"
  "query_char c \<Longrightarrow> http_jump 30 c = http_tr52"
  "query_char c \<Longrightarrow> http_jump 31 c = http_st 31"
  "query_char c \<Longrightarrow> http_jump 20 c = http_tr34"
  "query_char c \<Longrightarrow> http_jump 21 c = http_st 21"
  by (auto simp: jump_case path_schar Let_def http_case_24_def http_case_27_def http_case_30_def http_case_31_def
      http_case_20_def http_case_21_def)

lemma jump_hex:
  assumes "xdigit c"
  shows "http_jump 25 c = http_st 26" "http_jump 26 c = http_st 24" "http_jump 28 c = http_st 29"
    "http_jump 29 c = http_st 27" "http_jump 32 c = http_st 33" "http_jump 33 c = http_st 31"
    "http_jump 22 c = http_st 23" "http_jump 23 c = http_st 21"
  using assms by (auto simp: jump_case class_schar' Let_def http_case_25_def http_case_26_def http_case_28_def
      http_case_29_def http_case_32_def http_case_33_def http_case_22_def http_case_23_def)

lemma jump_token:
  assumes "token c"
  shows "http_jump 14 c = http_tr23" "http_jump 16 c = http_st 16"
  using assms unfolding token_schar insert_iff empty_iff
  by (elim disjE conjE; simp add: jump_case http_case_14_def http_case_16_def Let_def)+

lemma jump_value:
  "c \<noteq> CR \<Longrightarrow> c \<noteq> LF \<Longrightarrow> c \<noteq> CHR '' '' \<Longrightarrow> http_jump 17 c = http_tr26"
  "c \<noteq> CR \<Longrightarrow> c \<noteq> LF \<Longrightarrow> http_jump 18 c = http_st 18"
  by (simp_all add: jump_case http_case_17_def http_case_18_def schar_eq schar_Char)

section \<open>Segments\<close>

text \<open>A run with \<open>bf\<close> behind it and \<open>rest\<close> to go.\<close>

definition run_at :: "string \<Rightarrow> string \<Rightarrow> nat \<Rightarrow> http_run_state \<Rightarrow> (nat \<times> nat \<times> http_run_state) cres" where
  "run_at bf rest cs r = http_run (bf @ rest) rest (length bf) cs r"

lemma run_at_step:
  assumes "http_jump cs c = (acts, tgt)" "tgt \<noteq> 0" "Done \<notin> set acts" "http_acts acts (bf @ c # rest) (length bf) r = Inr r'"
  shows "run_at bf (c # rest) cs r = run_at (bf @ [c]) rest tgt r'"
  using assms by (simp add: run_at_def)

lemma run_at_st: "http_jump cs c = http_st tgt \<Longrightarrow> tgt \<noteq> 0 \<Longrightarrow> run_at bf (c # rest) cs r = run_at (bf @ [c]) rest tgt r"
  by (rule run_at_step) (auto simp: http_st_def)

text \<open>The positions a run records.\<close>

definition marked :: "nat \<Rightarrow> nat \<Rightarrow> nat \<Rightarrow> nat \<Rightarrow> http11 \<Rightarrow> http11" where
  "marked m fs fl qs h = h\<lparr>machine := (machine h)\<lparr>p_mark := m, p_field_start := fs, p_field_len := fl, p_query_start := qs\<rparr>\<rparr>"

lemma marked_sel [simp]:
  "p_mark (machine (marked m fs fl qs h)) = m" "p_field_start (machine (marked m fs fl qs h)) = fs"
  "p_field_len (machine (marked m fs fl qs h)) = fl" "p_query_start (machine (marked m fs fl qs h)) = qs"
  by (simp_all add: marked_def)

lemma marked_upd [simp]:
  "(marked m fs fl qs h)\<lparr>machine := (machine (marked m fs fl qs h))\<lparr>p_mark := x\<rparr>\<rparr> = marked x fs fl qs h"
  "(marked m fs fl qs h)\<lparr>machine := (machine (marked m fs fl qs h))\<lparr>p_field_start := x\<rparr>\<rparr> = marked m x fl qs h"
  "(marked m fs fl qs h)\<lparr>machine := (machine (marked m fs fl qs h))\<lparr>p_field_len := x\<rparr>\<rparr> = marked m fs x qs h"
  "(marked m fs fl qs h)\<lparr>machine := (machine (marked m fs fl qs h))\<lparr>p_query_start := x\<rparr>\<rparr> = marked m fs fl x h"
  by (simp_all add: marked_def)

lemma marked_self: "\<exists>m fs fl qs. h = marked m fs fl qs h"
  by (rule exI [of _ "p_mark (machine h)"], rule exI [of _ "p_field_start (machine h)"],
      rule exI [of _ "p_field_len (machine h)"], rule exI [of _ "p_query_start (machine h)"]) (simp add: marked_def)

text \<open>What a callback is given.\<close>

definition fits :: "string \<Rightarrow> bool" where
  "fits s \<longleftrightarrow> length s < 2 ^ 64"

lemma http_len_diff: "at \<le> p \<Longrightarrow> p < 2 ^ 64 \<Longrightarrow> http_len at p = p - at"
proof -
  assume le: "at \<le> p" "p < 2 ^ 64"
  then have "int p < 2 ^ 64" by (metis of_nat_less_iff of_nat_numeral of_nat_power)
  with le show ?thesis by (simp add: http_len_def)
qed

lemma http_call_slice:
  assumes "fits (a @ s @ b)"
  shows "http_call f (length a) (a @ s @ b) (length a + length s) (h, calls) = Inr (h, calls @ [f s])"
proof -
  have "length a + length s < 2 ^ 64" using assms unfolding fits_def length_append by linarith
  then have "http_len (length a) (length a + length s) = length s" by (simp add: http_len_diff)
  then show ?thesis by (simp add: http_call_def http_piece_def)
qed

text \<open>Characters that keep the state, and escapes through two states.\<close>

lemma run_at_loop:
  "list_all (\<lambda>c. http_jump cs c = http_st cs) s \<Longrightarrow> cs \<noteq> 0 \<Longrightarrow> run_at bf (s @ rest) cs r = run_at (bf @ s) rest cs r"
proof (induction s arbitrary: bf)
  case (Cons c s)
  then show ?case using run_at_st [of cs c cs bf "s @ rest" r] Cons.IH [of "bf @ [c]"] by simp
qed simp

lemma run_at_escaped:
  assumes "\<And>c. ok c \<Longrightarrow> http_jump k c = http_st k" "http_jump k CHR ''%'' = http_st k1"
    "\<And>c. xdigit c \<Longrightarrow> http_jump k1 c = http_st k2" "\<And>c. xdigit c \<Longrightarrow> http_jump k2 c = http_st k" "0 \<notin> {k, k1, k2}"
  shows "uri_escaped ok s \<Longrightarrow> run_at bf (s @ rest) k r = run_at (bf @ s) rest k r"
proof (induction s arbitrary: bf rule: length_induct)
  case (1 s)
  show ?case
  proof (cases s)
    case (Cons c cs)
    show ?thesis
    proof (cases "c = CHR ''%''")
      case True
      then obtain x y cs' where cs: "cs = x # y # cs'" "xdigit x" "xdigit y" "uri_escaped ok cs'"
        using 1(2) Cons by (auto split: list.splits)
      have "run_at bf (c # x # y # cs' @ rest) k r = run_at (bf @ [c, x, y]) (cs' @ rest) k r"
        using assms(2-5) cs(2,3) True by (simp add: run_at_st)
      then show ?thesis using 1(1) [rule_format, of cs' "bf @ [c, x, y]"] cs Cons by simp
    next
      case False
      then have "ok c" "uri_escaped ok cs" using 1(2) Cons by auto
      then show ?thesis using 1(1) [rule_format, of cs "bf @ [c]"] run_at_st [of k c k bf "cs @ rest" r] assms(1,5) Cons by simp
    qed
  qed simp
qed

text \<open>The end of a path, of the parameters and of a URI.\<close>

lemma fits_append: "fits (a @ b) \<Longrightarrow> fits a"
  by (simp add: fits_def)

lemma run_at_path_end:
  assumes "fits (a @ s @ t # rest)"
  shows "t \<in> {CHR '' '', CHR ''#''} \<Longrightarrow> run_at (a @ s) (t # rest) 24 (marked (length a) fs fl qs h, c) =
      run_at (a @ s @ [t]) rest (if t = CHR ''#'' then 20 else 5) (marked (length a) fs fl qs h, c @ [On_path s, On_uri s])"
    "t \<in> {CHR '';'', CHR ''?''} \<Longrightarrow> run_at (a @ s) (t # rest) 24 (marked (length a) fs fl qs h, c) =
      run_at (a @ s @ [t]) rest (if t = CHR ''?'' then 30 else 27) (marked (length a) fs fl qs h, c @ [On_path s])"
  using assms http_call_slice [of a s "t # rest"]
  by (auto simp: run_at_step [where r' = "(marked (length a) fs fl qs h, c @ cs)" for cs] jump_sep http_trans_defs)

lemma run_at_params_end:
  assumes "fits (a @ s @ t # rest)"
  shows "t \<in> {CHR '' '', CHR ''#''} \<Longrightarrow> run_at (a @ s) (t # rest) 27 (marked (length a) fs fl qs h, c) =
      run_at (a @ s @ [t]) rest (if t = CHR ''#'' then 20 else 5) (marked (length a) fs fl qs h, c @ [On_uri s])"
    "run_at (a @ s) (CHR ''?'' # rest) 27 r = run_at (a @ s @ [CHR ''?'']) rest 30 r"
  using assms http_call_slice [of a s "t # rest"]
  by (auto simp: run_at_step [where r' = "(marked (length a) fs fl qs h, c @ cs)" for cs] run_at_st jump_sep http_trans_defs)

text \<open>The part of a URI behind the path.\<close>

lemma run_at_path:
  "uri_escaped path_char s \<Longrightarrow> run_at bf (s @ rest) 24 r = run_at (bf @ s) rest 24 r"
  "uri_escaped param_char s \<Longrightarrow> run_at bf (s @ rest) 27 r = run_at (bf @ s) rest 27 r"
  using run_at_escaped [of path_char 24 25 26] run_at_escaped [of param_char 27 28 29]
  by (simp_all add: jump_uri jump_hex jump_sep)

lemma run_at_params:
  assumes "fits (a @ s @ behind CHR '';'' ps @ t # rest)" "opt_all (uri_escaped param_char) ps" "t \<in> {CHR '' '', CHR ''#'', CHR ''?''}"
  shows "run_at (a @ s) (behind CHR '';'' ps @ t # rest) 24 (marked (length a) fs fl qs h, c) =
    run_at (a @ s @ behind CHR '';'' ps @ [t]) rest (if t = CHR ''?'' then 30 else if t = CHR ''#'' then 20 else 5)
      (marked (length a) fs fl qs h,
       c @ [On_path s] @ (if t = CHR ''?'' then [] else [On_uri (s @ behind CHR '';'' ps)]))"
proof (cases ps)
  case None
  then show ?thesis using assms run_at_path_end [of a s t rest fs fl qs h c] by (auto simp: behind_def)
next
  case (Some p)
  have "run_at (a @ s) (CHR '';'' # p @ t # rest) 24 (marked (length a) fs fl qs h, c) =
      run_at (a @ s @ [CHR '';'']) (p @ t # rest) 27 (marked (length a) fs fl qs h, c @ [On_path s])"
    using assms(1) Some run_at_path_end(2) [of a s "CHR '';''" "p @ t # rest"] by (simp add: behind_def)
  also have "\<dots> = run_at (a @ s @ CHR '';'' # p) (t # rest) 27 (marked (length a) fs fl qs h, c @ [On_path s])"
    using assms(2) Some by (simp add: run_at_path opt_all_def)
  finally show ?thesis using assms(1,3) Some run_at_params_end [of a "s @ CHR '';'' # p" t rest]
    by (auto simp: behind_def)
qed

text \<open>A query or a fragment: the parser notes its start at its first character.\<close>

lemma run_at_enter:
  assumes "\<And>c. ok c \<Longrightarrow> http_jump k0 c = ([act], k)" "http_jump k0 CHR ''%'' = ([act], k1)"
    "\<And>c. ok c \<Longrightarrow> http_jump k c = http_st k" "http_jump k CHR ''%'' = http_st k1"
    "\<And>c. xdigit c \<Longrightarrow> http_jump k1 c = http_st k2" "\<And>c. xdigit c \<Longrightarrow> http_jump k2 c = http_st k" "0 \<notin> {k, k1, k2}"
    "act \<noteq> Done" "\<And>c. http_act act (bf @ c # s @ rest) (length bf) r = Inr r'" "uri_escaped ok (c # s)"
  shows "run_at bf ((c # s) @ rest) k0 r = run_at (bf @ c # s) rest k r'"
proof (cases "c = CHR ''%''")
  case True
  then obtain x y s' where s: "s = x # y # s'" "xdigit x" "xdigit y" "uri_escaped ok s'"
    using assms(10) by (auto split: list.splits)
  have "run_at bf (c # s @ rest) k0 r = run_at (bf @ [c]) (s @ rest) k1 r'"
    using assms(2,7,8,9) True by (intro run_at_step) auto
  also have "\<dots> = run_at (bf @ [c, x, y]) (s' @ rest) k r'" using assms(5,6,7) s by (simp add: run_at_st)
  also have "\<dots> = run_at (bf @ [c, x, y] @ s') rest k r'" using run_at_escaped [of ok k k1 k2, OF assms(3-7) s(4)] by simp
  finally show ?thesis using s by simp
next
  case False
  then have c: "ok c" "uri_escaped ok s" using assms(10) by auto
  have "run_at bf (c # s @ rest) k0 r = run_at (bf @ [c]) (s @ rest) k r'"
    using assms(1,7,8,9) c by (intro run_at_step) auto
  then show ?thesis using run_at_escaped [of ok k k1 k2, OF assms(3-7) c(2)] by simp
qed

lemma run_at_query:
  assumes "fits (a @ u @ q @ t # rest)" "uri_escaped query_char q" "t \<in> {CHR '' '', CHR ''#''}"
  shows "run_at (a @ u) (q @ t # rest) 30 (marked (length a) fs fl qs h, c) =
    run_at (a @ u @ q @ [t]) rest (if t = CHR ''#'' then 20 else 5)
      (marked (length a) fs fl (length (a @ u)) h, c @ [On_query q, On_uri (u @ q)])"
proof (cases q)
  case Nil
  then show ?thesis using assms(1,3) http_call_slice [of a u "t # rest"] http_call_slice [of "a @ u" "[]" "t # rest"]
    by (auto simp: run_at_step [where r' = "(marked (length a) fs fl (length (a @ u)) h, c @ cs)" for cs] jump_sep http_trans_defs)
next
  case (Cons x s)
  have "run_at (a @ u) ((x # s) @ t # rest) 30 (marked (length a) fs fl qs h, c) =
      run_at ((a @ u) @ x # s) (t # rest) 31 (marked (length a) fs fl (length (a @ u)) h, c)"
    using assms(2) Cons
    by (intro run_at_enter [of query_char 30 Start_query 31 32 33]) (simp_all add: jump_uri jump_hex jump_sep http_trans_defs)
  then show ?thesis using assms(1,3) Cons http_call_slice [of a "u @ q" "t # rest"] http_call_slice [of "a @ u" q "t # rest"]
    by (auto simp: run_at_step [where r' = "(marked (length a) fs fl (length (a @ u)) h, c @ cs)" for cs] jump_sep http_trans_defs
        add.assoc)
qed

lemma run_at_fragment:
  assumes "fits (a @ s @ CHR '' '' # rest)" "uri_escaped query_char s"
  shows "run_at a (s @ CHR '' '' # rest) 20 (marked m fs fl qs h, c) =
    run_at (a @ s @ '' '') rest 5 (marked (length a) fs fl qs h, c @ [On_fragment s])"
proof (cases s)
  case Nil
  then show ?thesis using assms(1) http_call_slice [of a "[]" "CHR '' '' # rest"]
    by (simp add: run_at_step [where r' = "(marked (length a) fs fl qs h, c @ [On_fragment []])"] jump_sep http_trans_defs)
next
  case (Cons x s')
  have "run_at a ((x # s') @ CHR '' '' # rest) 20 (marked m fs fl qs h, c) =
      run_at (a @ x # s') (CHR '' '' # rest) 21 (marked (length a) fs fl qs h, c)"
    using assms(2) Cons
    by (intro run_at_enter [of query_char 20 Mark 21 22 23]) (simp_all add: jump_uri jump_hex jump_sep http_trans_defs)
  then show ?thesis using assms(1) Cons http_call_slice [of a s "CHR '' '' # rest"]
    by (simp add: run_at_step [where r' = "(marked (length a) fs fl qs h, c @ [On_fragment s])"] jump_sep http_trans_defs)
qed

text \<open>A whole URI and what stands behind it, from its first character on.\<close>

lemma run_at_uri:
  assumes "fits (a @ hr_uri m @ behind CHR ''#'' (hr_fragment m) @ CHR '' '' # rest)" "request_ok m"
  shows "\<exists>mk qs'. run_at a (hr_uri m @ behind CHR ''#'' (hr_fragment m) @ CHR '' '' # rest) 3 (marked mk0 fs fl qs h, c) =
    run_at (a @ hr_uri m @ behind CHR ''#'' (hr_fragment m) @ '' '') rest 5
      (marked mk fs fl qs' h, c @ [On_path (hr_path m)] @ opt_call On_query (hr_query m) @ [On_uri (hr_uri m)] @
         opt_call On_fragment (hr_fragment m))"
proof -
  define s where "s = hr_path m"
  define ps where "ps = hr_params m"
  define t where "t = (if hr_fragment m = None then CHR '' '' else CHR ''#'')"
  define tail where "tail = (case hr_fragment m of None \<Rightarrow> rest | Some f \<Rightarrow> f @ CHR '' '' # rest)"
  have uri: "hr_uri m = s @ behind CHR '';'' ps @ behind CHR ''?'' (hr_query m)" by (simp add: hr_uri_def s_def ps_def)
  have tail: "behind CHR ''#'' (hr_fragment m) @ CHR '' '' # rest = t # tail"
    by (cases "hr_fragment m") (simp_all add: t_def tail_def behind_def)
  have t: "t \<in> {CHR '' '', CHR ''#''}" "t \<noteq> CHR ''?''" by (simp_all add: t_def)
  have ok: "s = CHR ''/'' # tl s" "uri_escaped path_char (tl s)" "opt_all (uri_escaped param_char) ps"
    using assms(2) by (cases s; auto simp: request_ok_def s_def ps_def)+
  have fits: "fits (a @ hr_uri m @ t # tail)" using assms(1) tail by simp
  have "run_at a (CHR ''/'' # tl s @ x) 3 (marked mk0 fs fl qs h, c) = run_at (a @ [CHR ''/''] @ tl s) x 24 (marked (length a) fs fl qs h, c)" for x
    using ok(2) by (simp add: run_at_step [where r' = "(marked (length a) fs fl qs h, c)"] jump_sep http_tr7_def run_at_path)
  then have path: "run_at a (s @ x) 3 (marked mk0 fs fl qs h, c) = run_at (a @ s) x 24 (marked (length a) fs fl qs h, c)" for x
    using ok(1) by (metis append_Cons append_Nil)
  define k where "k = (if t = CHR ''#'' then 20 else 5 :: nat)"
  have "\<exists>qs'. run_at a (hr_uri m @ t # tail) 3 (marked mk0 fs fl qs h, c) =
      run_at (a @ hr_uri m @ [t]) tail k
        (marked (length a) fs fl qs' h, c @ [On_path s] @ opt_call On_query (hr_query m) @ [On_uri (hr_uri m)])"
  proof (cases "hr_query m")
    case None
    then show ?thesis using run_at_params [of a s ps t tail fs fl qs h c] fits ok(3) t path [of "behind CHR '';'' ps @ t # tail"]
      by (intro exI [of _ qs]) (auto simp: uri behind_def opt_call_def k_def)
  next
    case (Some q)
    then have q: "uri_escaped query_char q" using assms(2) by (simp add: request_ok_def opt_all_def)
    let ?u = "s @ behind CHR '';'' ps @ ''?''"
    have f: "fits (a @ s @ behind CHR '';'' ps @ CHR ''?'' # q @ t # tail)" using fits Some by (simp add: uri behind_def)
    have "run_at a (hr_uri m @ t # tail) 3 (marked mk0 fs fl qs h, c) =
        run_at (a @ ?u) (q @ t # tail) 30 (marked (length a) fs fl qs h, c @ [On_path s])"
      using run_at_params [OF f ok(3), of fs fl qs h c] path [of "behind CHR '';'' ps @ CHR ''?'' # q @ t # tail"] Some
      by (simp add: uri behind_def [of "CHR ''?''"])
    also have "\<dots> = run_at (a @ ?u @ q @ [t]) tail k
        (marked (length a) fs fl (length (a @ ?u)) h, c @ [On_path s] @ [On_query q, On_uri (?u @ q)])"
      using run_at_query [of a ?u q t tail fs fl qs h "c @ [On_path s]"] f q t(1) by (simp add: k_def)
    finally show ?thesis using Some by (auto simp: uri behind_def [of "CHR ''?''"] opt_call_def)
  qed
  then obtain qs' where main: "run_at a (hr_uri m @ t # tail) 3 (marked mk0 fs fl qs h, c) =
      run_at (a @ hr_uri m @ [t]) tail k
        (marked (length a) fs fl qs' h, c @ [On_path s] @ opt_call On_query (hr_query m) @ [On_uri (hr_uri m)])" by blast
  show ?thesis
  proof (cases "hr_fragment m")
    case None
    then have "tail = rest" "t = CHR '' ''" "k = 5" by (simp_all add: tail_def t_def k_def)
    then show ?thesis using main None unfolding tail by (auto simp: opt_call_def s_def behind_def)
  next
    case (Some fr)
    then have "tail = fr @ CHR '' '' # rest" "t = CHR ''#''" "k = 20" "uri_escaped query_char fr"
      using assms(2) by (simp_all add: tail_def t_def k_def request_ok_def opt_all_def)
    then show ?thesis using main Some fits run_at_fragment [of "a @ hr_uri m @ ''#''" fr rest] unfolding tail
      by (auto simp: opt_call_def s_def behind_def)
  qed
qed

text \<open>The method: state 2 behind its first character, 41 to 59 behind the next.\<close>

definition method_state :: "nat \<Rightarrow> nat" where
  "method_state i = (if i = 1 then 2 else 39 + i)"

lemma jump_method_state:
  assumes "1 \<le> i" "i < 20" "method_char c"
  shows "http_jump (method_state i) c = http_st (method_state (Suc i))"
  using assms jump_method(2,3) [of c] by (cases "i = 1") (auto simp: method_state_def)

lemma run_at_method_loop:
  "list_all method_char s \<Longrightarrow> 1 \<le> i \<Longrightarrow> i + length s \<le> 20 \<Longrightarrow>
   run_at bf (s @ rest) (method_state i) r = run_at (bf @ s) rest (method_state (i + length s)) r"
proof (induction s arbitrary: bf i)
  case (Cons c s)
  have "run_at bf (c # s @ rest) (method_state i) r = run_at (bf @ [c]) (s @ rest) (method_state (Suc i)) r"
    using Cons.prems jump_method_state [of i c] by (intro run_at_st) (auto simp: method_state_def)
  then show ?case using Cons.IH [of "Suc i" "bf @ [c]"] Cons.prems by simp
qed simp

lemma run_at_method:
  assumes "fits (a @ s @ CHR '' '' # rest)" "s \<noteq> []" "length s \<le> 20" "list_all method_char s"
  shows "run_at a (s @ CHR '' '' # rest) 1 (marked mk fs fl qs h, c) =
    run_at (a @ s @ '' '') rest 3 (marked (length a) fs fl qs h, c @ [On_method s])"
proof -
  obtain x s' where s: "s = x # s'" using assms(2) by (cases s) auto
  have "run_at a (x # s' @ CHR '' '' # rest) 1 (marked mk fs fl qs h, c) =
      run_at (a @ [x]) (s' @ CHR '' '' # rest) (method_state 1) (marked (length a) fs fl qs h, c)"
    using assms(4) s jump_method(1) [of x]
    by (simp add: run_at_step [where r' = "(marked (length a) fs fl qs h, c)"] http_tr0_def method_state_def)
  also have "\<dots> = run_at (a @ s) (CHR '' '' # rest) (method_state (length s)) (marked (length a) fs fl qs h, c)"
    using run_at_method_loop [of s' 1 "a @ [x]"] assms(3,4) s by simp
  also have "\<dots> = run_at ((a @ s) @ '' '') rest 3 (marked (length a) fs fl qs h, c @ [On_method s])"
  proof (rule run_at_step [where acts = "[Request_method]"])
    have "length s = 1 \<or> 2 \<le> length s" using s by (cases s') auto
    then show "http_jump (method_state (length s)) CHR '' '' = ([Request_method], 3)"
      using jump_method(4) [of "method_state (length s)"] assms(3) by (auto simp: method_state_def http_tr4_def)
  qed (use http_call_slice [OF assms(1)] in simp_all)
  finally show ?thesis using s by simp
qed

text \<open>The version and its end of line.\<close>

lemma run_at_version:
  assumes "fits (a @ hr_version m @ hr_eol m @ rest)" "request_ok m"
  shows "run_at a (hr_version m @ hr_eol m @ rest) 5 (marked mk fs fl qs h, c) =
    run_at (a @ hr_version m @ hr_eol m) rest 14 (marked (length a) fs fl qs h, c @ [On_version (hr_version m)])"
proof -
  have minor: "http_jump 12 (hr_minor m) = http_st 13" using assms(2) jump_sep by (auto simp: request_ok_def)
  have eol: "hr_eol m = [CR, LF] \<or> hr_eol m = [LF]" using assms(2) by (simp add: request_ok_def eol_ok_def)
  show ?thesis using assms(1) eol minor http_call_slice [of a "hr_version m" "hr_eol m @ rest"]
    by (auto simp: hr_version_def run_at_step [where r' = "(marked (length a) fs fl qs h, c)"]
        run_at_step [where r' = "(marked (length a) fs fl qs h, c @ [On_version (''HTTP/1.'' @ [hr_minor m])])"]
        run_at_st jump_sep http_tr11_def http_tr19_def http_tr20_def)
qed

text \<open>The headers and the empty line.\<close>

lemma run_at_value:
  assumes "fits (a @ v @ e @ rest)" "a = b @ k @ d" "list_all (\<lambda>c. c \<noteq> CR \<and> c \<noteq> LF) v" "v = [] \<or> hd v \<noteq> CHR '' ''" "eol_ok e"
  shows "run_at a (v @ e @ rest) 17 (marked mk (length b) (length k) qs h, c) =
    run_at (a @ v @ e) rest 14 (marked (length a) (length b) (length k) qs h, c @ [On_field k v])"
proof -
  let ?r = "(marked (length a) (length b) (length k) qs h, c @ [On_field k v])"
  have name: "http_piece (a @ v @ e @ rest) (length b) (length k) = Inr k" using assms(2) by (simp add: http_piece_def)
  have call: "http_acts [Write_value] (a @ v @ e @ rest) (length a + length v) (marked (length a) (length b) (length k) qs h, c) =
      Inr ?r" using name http_call_slice [OF assms(1), of "On_field k"] by simp
  have eol: "e = [CR, LF] \<or> e = [LF]" using assms(5) by (simp add: eol_ok_def)
  show ?thesis
  proof (cases v)
    case Nil
    then show ?thesis using call eol
      by (auto simp: run_at_step [where r' = "?r"] run_at_st jump_sep http_tr27_def http_tr28_def)
  next
    case (Cons x v')
    have "run_at a (x # v' @ e @ rest) 17 (marked mk (length b) (length k) qs h, c) =
        run_at (a @ [x]) (v' @ e @ rest) 18 (marked (length a) (length b) (length k) qs h, c)"
      using assms(3,4) Cons jump_value(1) [of x]
      by (simp add: run_at_step [where r' = "(marked (length a) (length b) (length k) qs h, c)"] http_tr26_def)
    also have "\<dots> = run_at (a @ v) (e @ rest) 18 (marked (length a) (length b) (length k) qs h, c)"
      using assms(3) Cons jump_value(2) by (subst run_at_loop) (auto simp: list_all_iff)
    finally show ?thesis using call Cons eol
      by (auto simp: run_at_step [where r' = "?r"] run_at_st jump_sep http_tr31_def http_tr32_def)
  qed
qed

lemma run_at_pad:
  "\<exists>mk'. run_at a (replicate n (CHR '' '') @ rest) 17 (marked mk fs fl qs h, c) =
     run_at (a @ replicate n (CHR '' '')) rest 17 (marked mk' fs fl qs h, c)"
proof (induction n arbitrary: a mk)
  case (Suc n)
  have "run_at a (CHR '' '' # replicate n (CHR '' '') @ rest) 17 (marked mk fs fl qs h, c) =
      run_at (a @ '' '') (replicate n (CHR '' '') @ rest) 17 (marked (length a) fs fl qs h, c)"
    by (simp add: run_at_step [where r' = "(marked (length a) fs fl qs h, c)"] jump_sep http_tr29_def)
  with Suc [of "a @ '' ''" "length a"] show ?case by simp
qed auto

lemma run_at_header:
  assumes "fits (a @ print_header pad eol kv @ rest)" "header_ok kv" "eol_ok eol"
  shows "\<exists>mk' fs' fl'. run_at a (print_header pad eol kv @ rest) 14 (marked mk fs fl qs h, c) =
    run_at (a @ print_header pad eol kv) rest 14 (marked mk' fs' fl' qs h, c @ [case kv of (k, v) \<Rightarrow> On_field k v])"
proof -
  obtain k v where kv: "kv = (k, v)" by fastforce
  then obtain x k' where k: "k = x # k'" "token x" "list_all token k'" using assms(2) by (cases k) (auto simp: header_ok_def)
  let ?pad = "replicate pad (CHR '' '')"
  have fits: "length a + length k < 2 ^ 64" using assms(1) by (simp add: fits_def print_header_def kv)
  let ?tail = "v @ eol @ rest"
  have "run_at a (k @ '':'' @ ?pad @ ?tail) 14 (marked mk fs fl qs h, c) =
      run_at (a @ [x]) (k' @ '':'' @ ?pad @ ?tail) 16 (marked mk (length a) fl qs h, c)"
    using k by (simp add: run_at_step [where r' = "(marked mk (length a) fl qs h, c)"] jump_token http_tr23_def)
  also have "\<dots> = run_at (a @ k) ('':'' @ ?pad @ ?tail) 16 (marked mk (length a) fl qs h, c)"
    using k jump_token(2) by (subst run_at_loop) (auto simp: list_all_iff)
  also have "\<dots> = run_at (a @ k @ '':'') (?pad @ ?tail) 17 (marked mk (length a) (length k) qs h, c)"
    using fits by (simp add: run_at_step [where r' = "(marked mk (length a) (length k) qs h, c)"] jump_sep http_tr25_def
        http_len_diff)
  finally obtain mk' where "run_at a (k @ '':'' @ ?pad @ ?tail) 14 (marked mk fs fl qs h, c) =
      run_at (a @ k @ '':'' @ ?pad) ?tail 17 (marked mk' (length a) (length k) qs h, c)"
    using run_at_pad [of "a @ k @ '':''" pad ?tail mk "length a" "length k" qs h c] by auto
  also have "\<dots> = run_at (a @ k @ '':'' @ ?pad @ v @ eol) rest 14
      (marked (length (a @ k @ '':'' @ ?pad)) (length a) (length k) qs h, c @ [On_field k v])"
    using run_at_value [of "a @ k @ '':'' @ ?pad" v eol rest a k "'':'' @ ?pad"] assms kv
    by (simp add: header_ok_def print_header_def)
  finally show ?thesis by (auto simp: kv print_header_def)
qed

lemma run_at_headers:
  "fits (a @ concat (map (print_header pad eol) hs) @ rest) \<Longrightarrow> list_all header_ok hs \<Longrightarrow> eol_ok eol \<Longrightarrow>
   \<exists>mk' fs' fl'. run_at a (concat (map (print_header pad eol) hs) @ rest) 14 (marked mk fs fl qs h, c) =
     run_at (a @ concat (map (print_header pad eol) hs)) rest 14 (marked mk' fs' fl' qs h, c @ map (\<lambda>(k, v). On_field k v) hs)"
proof (induction hs arbitrary: a mk fs fl c)
  case (Cons kv hs)
  let ?rest = "concat (map (print_header pad eol) hs) @ rest" and ?field = "case kv of (k, v) \<Rightarrow> On_field k v"
  obtain mk' fs' fl' where one: "run_at a (print_header pad eol kv @ ?rest) 14 (marked mk fs fl qs h, c) =
      run_at (a @ print_header pad eol kv) ?rest 14 (marked mk' fs' fl' qs h, c @ [?field])"
    using run_at_header [of a pad eol kv ?rest mk fs fl qs h c] Cons.prems by auto
  show ?case using Cons.IH [of "a @ print_header pad eol kv" mk' fs' fl' "c @ [?field]"] Cons.prems one by auto
qed auto

lemma run_at_end:
  assumes "eol_ok e"
  shows "run_at a (e @ rest) 14 (h, c) =
    Inr (95, length a + length e, h\<lparr>body_start := length a + length e\<rparr>, c @ [On_header_done])"
proof -
  have "run_at a (CR # LF # rest) 14 (h, c) = run_at (a @ [CR]) (LF # rest) 15 (h, c)" by (simp add: run_at_st jump_sep)
  then show ?thesis using assms by (auto simp: eol_ok_def run_at_def jump_sep http_tr21_def)
qed

lemma run_at_request:
  assumes "fits (http_print m @ body)" "request_ok m"
  shows "\<exists>mk fs fl qs'. run_at [] (http_print m @ body) 1 (marked mk0 fs0 fl0 qs h, []) =
    Inr (95, length (http_print m), (marked mk fs fl qs' h)\<lparr>body_start := length (http_print m)\<rparr>, http_calls m)"
proof -
  let ?h4 = "hr_eol m @ body" and ?hs = "concat (map (print_header (hr_pad m) (hr_eol m)) (hr_headers m))"
  let ?h3 = "?hs @ ?h4"
  let ?h2 = "hr_version m @ hr_eol m @ ?h3"
  let ?h1 = "hr_uri m @ behind CHR ''#'' (hr_fragment m) @ CHR '' '' # ?h2"
  let ?a1 = "hr_method m @ '' ''"
  let ?a2 = "?a1 @ hr_uri m @ behind CHR ''#'' (hr_fragment m) @ '' ''"
  let ?a3 = "?a2 @ hr_version m @ hr_eol m"
  let ?a4 = "?a3 @ ?hs"
  have print: "http_print m @ body = hr_method m @ CHR '' '' # ?h1" "length ?a4 + length (hr_eol m) = length (http_print m)"
    by (simp_all add: http_print_def)
  have fits: "fits (hr_method m @ CHR '' '' # ?h1)" "fits (?a1 @ ?h1)" "fits (?a2 @ ?h2)" "fits (?a3 @ ?h3)"
    using assms(1) print(1) by simp_all
  have ok: "hr_method m \<noteq> []" "length (hr_method m) \<le> 20" "list_all method_char (hr_method m)" "list_all header_ok (hr_headers m)"
    "eol_ok (hr_eol m)" using assms(2) by (simp_all add: request_ok_def)
  let ?c1 = "[On_method (hr_method m)]"
  let ?c2 = "?c1 @ [On_path (hr_path m)] @ opt_call On_query (hr_query m) @ [On_uri (hr_uri m)] @ opt_call On_fragment (hr_fragment m)"
  have 1: "run_at [] (http_print m @ body) 1 (marked mk0 fs0 fl0 qs h, []) = run_at ?a1 ?h1 3 (marked 0 fs0 fl0 qs h, ?c1)"
    using run_at_method [of "[]" "hr_method m" ?h1] fits(1) ok print(1) by simp
  obtain mk qs' where 2: "run_at ?a1 ?h1 3 (marked 0 fs0 fl0 qs h, ?c1) = run_at ?a2 ?h2 5 (marked mk fs0 fl0 qs' h, ?c2)"
    using run_at_uri [OF fits(2) assms(2), of 0 fs0 fl0 qs h ?c1] by auto
  have 3: "run_at ?a2 ?h2 5 (marked mk fs0 fl0 qs' h, ?c2) = run_at ?a3 ?h3 14 (marked (length ?a2) fs0 fl0 qs' h, ?c2 @ [On_version (hr_version m)])"
    using run_at_version [OF fits(3) assms(2)] by simp
  obtain mk' fs' fl' where 4: "run_at ?a3 ?h3 14 (marked (length ?a2) fs0 fl0 qs' h, ?c2 @ [On_version (hr_version m)]) =
      run_at ?a4 ?h4 14 (marked mk' fs' fl' qs' h, (?c2 @ [On_version (hr_version m)]) @ map (\<lambda>(k, v). On_field k v) (hr_headers m))"
    using run_at_headers [OF fits(4) ok(4,5)] by blast
  show ?thesis unfolding 1 2 3 4 run_at_end [OF ok(5)] print(2) by (auto simp: http_calls_def)
qed

section \<open>The parser on a well-formed request\<close>

lemma execute_request:
  assumes "fits (http_print m @ body)" "request_ok m"
  shows "\<exists>h'. http11_execute (http11_init h) (http_print m @ body) 0 = Inr (http_calls m, h', length (http_print m)) \<and>
    http11_finish h' = 1 \<and> body_start h' = length (http_print m) \<and> content_len h' = 0 \<and> socket_started h' = 0 \<and> json_sent h' = 0"
proof -
  let ?buf = "http_print m @ body"
  obtain mk0 fs0 fl0 qs where self: "http11_init h = marked mk0 fs0 fl0 qs (http11_init h)" using marked_self by blast
  have start: "http_run ?buf ?buf 0 1 (http11_init h, []) = run_at [] ?buf 1 (marked mk0 fs0 fl0 qs (http11_init h), [])"
    by (simp add: run_at_def self [symmetric])
  obtain mk fs fl qs' where run: "run_at [] ?buf 1 (marked mk0 fs0 fl0 qs (http11_init h), []) =
      Inr (95, length (http_print m), (marked mk fs fl qs' (http11_init h))\<lparr>body_start := length (http_print m)\<rparr>, http_calls m)"
    using run_at_request [OF assms, of mk0 fs0 fl0 qs "http11_init h"] by blast
  have "p_cs (machine (http11_init h)) = 1" "?buf \<noteq> []" by (simp_all add: http11_init_def http_print_def)
  with execute_run [OF init_ready, of ?buf h] start run show ?thesis
    by (auto simp: finish_cs marked_def http11_init_def)
qed

text \<open>C2: a request written by the grammar, with anything behind it and cut up in any way, is reported as it was
written: the callbacks get its method, path, query, URI, fragment, version and headers in this order, the parser has
finished, and the body starts right behind the empty line.\<close>

theorem http11_request_roundtrip:
  assumes "request_ok m" "concat ss = http_print m @ body" "length (concat ss) < 2 ^ 64"
  shows "\<exists>h'. http_feed (http11_init h) [] 0 ss = Inr (http_calls m, h', length (http_print m)) \<and>
    http11_finish h' = 1 \<and> body_start h' = length (http_print m)"
  using execute_request [of m body h] assms feed_at_once [OF init_mid, of h ss] by (auto simp: fits_def)

definition sample_http_request :: http_request where
  "sample_http_request = \<lparr>hr_method = ''GET'', hr_path = ''/a%20b'', hr_params = None, hr_query = Some ''x=1'',
     hr_fragment = None, hr_minor = CHR ''1'', hr_headers = [(''Host'', ''h''), (''Accept'', [])], hr_pad = 1, hr_eol = [CR, LF]\<rparr>"

definition sample_http11 :: http11 where
  "sample_http11 = \<lparr>json_sent = 0, socket_started = 0, content_len = 0, body_start = 0,
     machine = \<lparr>p_cs = 0, p_nread = 0, p_mark = 0, p_field_start = 0, p_field_len = 0, p_query_start = 0\<rparr>\<rparr>"

lemma sample_http_request_ok: "request_ok sample_http_request"
  by (simp add: request_ok_def sample_http_request_def header_ok_def opt_all_def eol_ok_def class_schar' path_schar token_schar schar_Char)

lemma sample_http_request_calls:
  "http_calls sample_http_request =
     [On_method ''GET'', On_path ''/a%20b'', On_query ''x=1'', On_uri ''/a%20b?x=1'', On_version ''HTTP/1.1'',
      On_field ''Host'' ''h'', On_field ''Accept'' [], On_header_done]"
  "length (http_print sample_http_request) = 46"
  by (simp_all add: http_calls_def http_print_def sample_http_request_def hr_uri_def hr_version_def behind_def opt_call_def
      print_header_def)

lemma http11_request_roundtrip_witness:
  "\<exists>h'. http_feed (http11_init sample_http11) [] 0 (map (\<lambda>c. [c]) (http_print sample_http_request @ ''body'')) =
       Inr ([On_method ''GET'', On_path ''/a%20b'', On_query ''x=1'', On_uri ''/a%20b?x=1'', On_version ''HTTP/1.1'',
             On_field ''Host'' ''h'', On_field ''Accept'' [], On_header_done], h', 46) \<and>
     http11_finish h' = 1 \<and> body_start h' = 46"
proof -
  have "concat (map (\<lambda>c. [c]) s) = s" for s :: string by (induction s) simp_all
  from http11_request_roundtrip [OF sample_http_request_ok this [of "http_print sample_http_request @ ''body''"], of sample_http11]
  show ?thesis by (simp add: sample_http_request_calls)
qed

end
