(* ===== verification/Http11_Server.thy ===== *)
theory Http11_Server
  imports Http11_Grammar Connection
begin

text \<open>
  The server over the generated parser: a connection that is sent a well-formed request reads exactly that request,
  whatever packets it comes in.
\<close>

section \<open>The callbacks and the parser's record\<close>

lemma run_calls_append: "run_parser_calls (xs @ ys) rq = cbind (run_parser_calls xs rq) (run_parser_calls ys)"
proof (induction xs arbitrary: rq)
  case (Cons c xs)
  then show ?case by (cases "run_parser_call c rq") auto
qed simp

lemma header_field_parser:
  "header_field_cb k v (rq\<lparr>parser := x\<rparr>) = cbind (header_field_cb k v rq) (\<lambda>rq. Inr (rq\<lparr>parser := x\<rparr>))"
  by (cases "dict_alloc_insert True bstricmp (headers rq) k v") (auto simp: header_field_cb_def)

lemma run_call_parser:
  "c \<noteq> On_header_done \<Longrightarrow> run_parser_call c (rq\<lparr>parser := x\<rparr>) = cbind (run_parser_call c rq) (\<lambda>rq. Inr (rq\<lparr>parser := x\<rparr>))"
  by (cases c) (auto simp: request_method_cb_def uri_cb_def fragment_cb_def path_cb_def query_string_cb_def
      http_version_cb_def header_field_parser)

lemma run_calls_parser:
  "On_header_done \<notin> set calls \<Longrightarrow>
   run_parser_calls calls (rq\<lparr>parser := x\<rparr>) = cbind (run_parser_calls calls rq) (\<lambda>rq. Inr (rq\<lparr>parser := x\<rparr>))"
proof (induction calls arbitrary: rq)
  case (Cons c calls)
  then show ?case by (cases "run_parser_call c rq") (auto simp: run_call_parser)
qed simp

lemma run_call_keeps: "run_parser_call c rq = Inr rq' \<Longrightarrow> \<exists>x. parser rq' = (parser rq)\<lparr>content_len := x\<rparr>"
proof -
  have self: "\<exists>x. p = p\<lparr>content_len := x\<rparr>" for p :: "'a http_parser"
    by (rule exI [of _ "content_len p"]) simp
  show "run_parser_call c rq = Inr rq' \<Longrightarrow> \<exists>x. parser rq' = (parser rq)\<lparr>content_len := x\<rparr>"
    by (cases c) (auto simp: request_method_cb_def uri_cb_def fragment_cb_def path_cb_def query_string_cb_def
        http_version_cb_def header_field_cb_def header_done_cb_def Let_def self split: option.splits)
qed

lemma run_calls_keep: "run_parser_calls calls rq = Inr rq' \<Longrightarrow> \<exists>x. parser rq' = (parser rq)\<lparr>content_len := x\<rparr>"
proof (induction calls arbitrary: rq)
  case Nil
  then show ?case by (auto intro: exI [of _ "content_len (parser rq')"])
next
  case (Cons c calls)
  then obtain rq1 where "run_parser_call c rq = Inr rq1" "run_parser_calls calls rq1 = Inr rq'" by auto
  with Cons.IH run_call_keeps show ?case by fastforce
qed

lemma finish_content_len [simp]: "http11_finish (h\<lparr>content_len := x\<rparr>) = http11_finish h"
  by (simp add: http11_finish_def http11_has_error_def http11_is_finished_def)

lemma run_calls_finish: "run_parser_calls calls rq = Inr rq' \<Longrightarrow> http11_finish (parser rq') = http11_finish (parser rq)"
  using run_calls_keep by force

section \<open>The read loop\<close>

text \<open>One step of the parser over what has been received so far: it goes on, or it has what all of it gives.\<close>

lemma parse_received:
  assumes "http_mid h (take k xs) n" "k \<le> k'" "k' \<le> length xs" "0 < k'" "http11_execute h xs n = Inr (calls, hF, L)"
  shows "\<exists>calls1 h1 n1. http11_execute h (take k' xs) n = Inr (calls1, h1, n1) \<and>
    (if http11_finish h1 = 1 then calls1 = calls \<and> h1 = hF \<and> n1 = L
     else http_mid h1 (take k' xs) n1 \<and> (\<exists>calls2. http11_execute h1 xs n1 = Inr (calls2, hF, L) \<and>
       (case run_parser_calls calls1 (rq\<lparr>parser := h1\<rparr>) of
          Inl e \<Rightarrow> run_parser_calls calls (rq\<lparr>parser := hF\<rparr>) = Inl e
        | Inr rq1 \<Rightarrow> parser rq1 = h1 \<and>
            run_parser_calls calls2 (rq1\<lparr>parser := hF\<rparr>) = run_parser_calls calls (rq\<lparr>parser := hF\<rparr>))))"
proof -
  have piece: "take k' xs = take k xs @ take (k' - k) (drop k xs)" using take_add [of k "k' - k" xs] assms(2) by simp
  have whole: "take k xs @ take (k' - k) (drop k xs) @ drop k' xs = xs"
    using append_take_drop_id [of k' xs] unfolding piece append_assoc .
  obtain calls1 h1 n1 where ex: "http11_execute h (take k' xs) n = Inr (calls1, h1, n1)"
      "http11_finish h1 \<noteq> 1 \<longrightarrow> http_mid h1 (take k' xs) n1" using execute_mid_any [OF assms(1)] piece by metis
  have "take k xs @ take (k' - k) (drop k xs) \<noteq> []" using assms(3,4) piece by (metis bot_nat_0.not_eq_extremum le_zero_eq list.size(3) take_eq_Nil)
  from execute_split [OF assms(1) this, of calls1 h1 n1 "drop k' xs"] have split: "Inr (calls, hF, L) =
      (if http11_finish h1 = 1 then Inr (calls1, h1, n1) else map_sum id (prefix_calls calls1) (http11_execute h1 xs n1))"
    using ex(1) assms(5) by (simp only: append_assoc whole flip: piece)
  show ?thesis
  proof (cases "http11_finish h1 = 1")
    case True
    then show ?thesis using ex(1) split by auto
  next
    case False
    then obtain calls2 where c2: "http11_execute h1 xs n1 = Inr (calls2, hF, L)" "calls = calls1 @ calls2"
      using split by (cases "http11_execute h1 xs n1") (auto simp: prefix_calls_def)
    have nd: "On_header_done \<notin> set calls1"
      using execute_no_done [OF assms(1)] ex(1) False piece by metis
    show ?thesis using ex False c2 run_calls_parser [OF nd, where rq = rq]
      by (cases "run_parser_calls calls1 rq") (auto simp: run_calls_append)
  qed
qed

text \<open>Reading up to the end of a header, or to the fault one of its callbacks ends in.\<close>

lemma read_loop_request:
  assumes "http E = http11_ops" "buf_ok E c" "[] \<notin> set (inbox (sock c))" "k \<le> length xs" "concat (inbox (sock c)) = drop k xs"
    "nread c = int k" "take k (buf c) = take k xs" "http_mid (parser (req c)) (take k xs) (nparsed c)"
    "http11_execute (parser (req c)) xs (nparsed c) = Inr (calls, hF, L)" "http11_finish hF = 1"
    "run_parser_calls calls (req c\<lparr>parser := hF\<rparr>) = res" "int L < BUFFER_SIZE (lims E)" "finished \<noteq> 1"
    "remaining = BUFFER_SIZE (lims E) - 1 - int k" "cur = int k"
  shows "case res of
      Inl e \<Rightarrow> read_loop E c finished remaining cur = Inl e
    | Inr rqF \<Rightarrow> \<exists>k' c'. read_loop E c finished remaining cur = Inr (True, 1, c') \<and> req c' = rqF \<and> nread c' = int k' \<and> L \<le> k' \<and>
        int k' < BUFFER_SIZE (lims E) \<and> take k' (buf c') = take k' xs \<and> remote c' = remote c \<and> 0 < nread c'"
  using assms(2-)
proof (induction "nat remaining" arbitrary: c k calls finished remaining cur rule: less_induct)
  case less
  let ?B = "BUFFER_SIZE (lims E)"
  have ahead: "nparsed c = k" "k < L" using execute_ahead [OF less.prems(7,3,8,9)] by auto
  have L: "L \<le> length xs"
    using execute_mid_any [OF less.prems(7), of "drop k xs"] less.prems(8) by auto
  have rem: "0 < remaining" using ahead(2) less.prems(11,13) by linarith
  have len: "int (length (buf c)) = ?B + 1" using less.prems(1) by (simp add: buf_ok_def)
  have fits: "cur + int (min (nat remaining) (length (concat (inbox (sock c))))) \<le> int (length (buf c))"
    using less.prems(13,14) len rem by linarith
  from conn_recv_plain [OF _ _ _ fits] rem less.prems(1,14) obtain r got ch where
    recv: "conn_recv c cur remaining = Inr (r, c\<lparr>sock := ch, buf := put_at (buf c) cur got\<rparr>)"
    and rec: "received (sock c) remaining r got ch" by (auto simp: buf_ok_def)
  have "concat (inbox (sock c)) \<noteq> []" using ahead(2) L less.prems(4) by simp
  then have "inbox (sock c) \<noteq> []" by auto
  then have "got \<noteq> []" using rec less.prems(2) rem by (simp add: received_def)
  then have got: "drop k xs = got @ concat (inbox ch)" "length got \<le> nat remaining" "r = int (length got)" "0 < length got"
    "[] \<notin> set (inbox ch)" using rec less.prems(2,4) by (auto simp: received_def)
  define k' where "k' = k + length got"
  have k': "k \<le> k'" "0 < k'" "k' \<le> length xs" "int k' < ?B" "drop k' xs = concat (inbox ch)" "int k + r = int k'"
    "take k' xs = take k xs @ got"
  proof -
    have "length xs - k = length got + length (concat (inbox ch))" using arg_cong [OF got(1), of length] by simp
    then show "k' \<le> length xs" using got(4) unfolding k'_def by linarith
    have "drop k' xs = drop (length got) (drop k xs)" by (simp add: k'_def add.commute)
    then show "drop k' xs = concat (inbox ch)" by (simp add: got(1))
    have "take k' xs = take k xs @ take (length got) (drop k xs)" by (simp add: k'_def take_add)
    then show "take k' xs = take k xs @ got" by (simp add: got(1))
  qed (use got less.prems(13) rem in \<open>simp_all add: k'_def\<close>)
  let ?buf = "put_at (buf c) cur got"
  have lenb: "length ?buf = length (buf c)" using k'(4) k'_def less.prems(14) len by simp
  have buf: "take k' ?buf = take k' xs" using less.prems(3,6,14) k'(7) len k'(4) k'_def by (simp add: min_def)
  have cap: "cstr_at ?buf (nat ?B) = NUL" "?buf ! nat ?B = NUL"
    using less.prems(1,14) k'(4) k'_def len by (auto simp: buf_ok_def cstr_at_def nth_append nat_le_iff)
  obtain calls1 h1 n1 where p: "http11_execute (parser (req c)) (take k' xs) (nparsed c) = Inr (calls1, h1, n1)"
      "if http11_finish h1 = 1 then calls1 = calls \<and> h1 = hF \<and> n1 = L
       else http_mid h1 (take k' xs) n1 \<and> (\<exists>calls2. http11_execute h1 xs n1 = Inr (calls2, hF, L) \<and>
         (case run_parser_calls calls1 (req c\<lparr>parser := h1\<rparr>) of
            Inl e \<Rightarrow> res = Inl e
          | Inr rq1 \<Rightarrow> parser rq1 = h1 \<and> run_parser_calls calls2 (rq1\<lparr>parser := hF\<rparr>) = res))"
    using parse_received [OF less.prems(7) k'(1,3,2) less.prems(8), of "req c"] unfolding less.prems(10) by blast
  let ?c1 = "c\<lparr>sock := ch, buf := ?buf, nread := int k'\<rparr>"
  have parse: "parse_buffer E ?c1 =
      cbind (run_parser_calls calls1 (req c\<lparr>parser := h1\<rparr>)) (\<lambda>rq. Inr (http11_finish (parser rq), n1, rq))"
    using assms(1) p(1) buf lenb len k'(4) by (simp add: parse_buffer_def Request_parse_def http11_ops_def)
  show ?case
  proof (cases "run_parser_calls calls1 (req c\<lparr>parser := h1\<rparr>)")
    case (Inl e)
    then have "res = Inl e" using p(2) less.prems(10) by (auto split: if_splits)
    moreover have "read_loop E c finished remaining cur = Inl e"
      using recv rem less.prems(5,12) got(3,4) cap(1) parse Inl k'(6) by (subst read_loop.simps) (simp add: Let_def)
    ultimately show ?thesis by simp
  next
    case (Inr rq1)
    let ?c2 = "?c1\<lparr>req := rq1, nparsed := n1, nread := int k'\<rparr>"
    let ?fin = "http11_finish h1"
    have "http11_finish (parser rq1) = ?fin" using run_calls_finish [OF Inr] by simp
    then have step: "read_loop E c finished remaining cur = read_loop E ?c2 ?fin (?B - 1 - int k') (int k')"
      using recv rem less.prems(5,12) got(3,4) cap(1) parse Inr k'(6) by (subst read_loop.simps) (simp add: Let_def)
    show ?thesis
    proof (cases "?fin = 1")
      case True
      then have "res = Inr rq1" "n1 = L" using p(2) less.prems(10) Inr by auto
      moreover have "L \<le> k'"
        using execute_mid_any [OF less.prems(7), of "take (k' - k) (drop k xs)"] p k'(1,3,7) take_add [of k "k' - k" xs] True
        by auto
      ultimately show ?thesis unfolding step using True buf k'(2,4)
        by simp (rule exI [of _ k'], subst read_loop.simps, simp)
    next
      case False
      then obtain calls2 where c2: "parser rq1 = h1" "http_mid h1 (take k' xs) n1" "http11_execute h1 xs n1 = Inr (calls2, hF, L)"
          "run_parser_calls calls2 (rq1\<lparr>parser := hF\<rparr>) = res" using p(2) Inr by auto
      have ok: "buf_ok E ?c2" using less.prems(1) cap(2) lenb by (simp add: buf_ok_def)
      have smaller: "nat (?B - 1 - int k') < nat remaining" using less.prems(13) k'(4,6) got(3,4) by linarith
      have "case res of
          Inl e \<Rightarrow> read_loop E ?c2 ?fin (?B - 1 - int k') (int k') = Inl e
        | Inr rqF \<Rightarrow> \<exists>k'' c'. read_loop E ?c2 ?fin (?B - 1 - int k') (int k') = Inr (True, 1, c') \<and> req c' = rqF \<and> nread c' = int k'' \<and>
            L \<le> k'' \<and> int k'' < ?B \<and> take k'' (buf c') = take k'' xs \<and> remote c' = remote ?c2 \<and> 0 < nread c'"
        by (rule less.hyps [OF smaller ok _ k'(3), where calls = calls2])
          (use got(5) k'(5) buf c2 less.prems(9,11) False in simp_all)
      then show ?thesis unfolding step by (cases res) simp_all
    qed
  qed
qed

section \<open>What the callbacks of a request leave\<close>

text \<open>The first of the headers of a name, whatever its case.\<close>

definition first_header :: "(string \<times> string) list \<Rightarrow> string \<Rightarrow> string option" where
  "first_header hs k = map_option snd (List.find (\<lambda>(n, _). bstricmp k n = 0) hs)"

lemma first_header_Cons: "first_header ((n, v) # hs) k = (if bstricmp k n = 0 then Some v else first_header hs k)"
  by (simp add: first_header_def)

lemma first_header_append:
  "first_header (hs @ hs') k = (case first_header hs k of None \<Rightarrow> first_header hs' k | Some v \<Rightarrow> Some v)"
  by (induction hs) (auto simp: first_header_Cons, simp add: first_header_def)

text \<open>A dictionary that is in order and has room for exactly \<open>n\<close> headers more.\<close>

definition headers_room :: "nat \<Rightarrow> ('p, 't) request \<Rightarrow> bool" where
  "headers_room n rq \<longleftrightarrow> dict_verify bstricmp (headers rq) \<and> dupes (headers rq) \<and> nodecount (headers rq) + n = maxcount (headers rq)"

lemma header_field_get:
  assumes "headers_room (Suc n) rq"
  shows "\<exists>d. header_field_cb k v rq = Inr (rq\<lparr>headers := d\<rparr>) \<and> headers_room n (rq\<lparr>headers := d\<rparr>) \<and>
    (\<forall>j. Request_get (rq\<lparr>headers := d\<rparr>) j =
      (case Request_get rq j of None \<Rightarrow> first_header [(k, v)] j | Some w \<Rightarrow> Some w))"
proof -
  have "nodecount (headers rq) \<noteq> maxcount (headers rq)" using assms by (simp add: headers_room_def)
  with header_insert [of "headers rq" k v] assms obtain d where "dict_insert bstricmp (headers rq) k v = Inr d"
      "dict_verify bstricmp d" "nodecount d = Suc (nodecount (headers rq))" "maxcount d = maxcount (headers rq)" "dupes d"
      "\<forall>j. dict_lookup bstricmp d j = (if bstricmp j k = 0 \<and> dict_lookup bstricmp (headers rq) j = None then Some (k, v)
         else dict_lookup bstricmp (headers rq) j)" by (auto simp: headers_room_def)
  then show ?thesis using assms
    by (intro exI [of _ d])
      (auto simp: header_field_cb_def dict_alloc_insert_def headers_room_def Request_get_def first_header_def split: option.splits)
qed

lemma run_fields:
  "headers_room (length hs + n) rq \<Longrightarrow>
   \<exists>d. run_parser_calls (map (\<lambda>(k, v). On_field k v) hs) rq = Inr (rq\<lparr>headers := d\<rparr>) \<and> headers_room n (rq\<lparr>headers := d\<rparr>) \<and>
     (\<forall>j. Request_get (rq\<lparr>headers := d\<rparr>) j = (case Request_get rq j of None \<Rightarrow> first_header hs j | Some w \<Rightarrow> Some w))"
proof (induction hs arbitrary: rq)
  case Nil
  then show ?case by (intro exI [of _ "headers rq"]) (auto simp: first_header_def split: option.splits)
next
  case (Cons kv hs)
  obtain k v where kv: "kv = (k, v)" by fastforce
  obtain d where d: "header_field_cb k v rq = Inr (rq\<lparr>headers := d\<rparr>)" "headers_room (length hs + n) (rq\<lparr>headers := d\<rparr>)"
      "\<forall>j. Request_get (rq\<lparr>headers := d\<rparr>) j = (case Request_get rq j of None \<Rightarrow> first_header [(k, v)] j | Some w \<Rightarrow> Some w)"
    using header_field_get [of "length hs + n" rq k v] Cons.prems by auto
  from Cons.IH [OF d(2)] obtain d' where "run_parser_calls (map (\<lambda>(k, v). On_field k v) hs) (rq\<lparr>headers := d\<rparr>) = Inr (rq\<lparr>headers := d'\<rparr>)"
      "headers_room n (rq\<lparr>headers := d'\<rparr>)"
      "\<forall>j. Request_get (rq\<lparr>headers := d'\<rparr>) j =
        (case Request_get (rq\<lparr>headers := d\<rparr>) j of None \<Rightarrow> first_header hs j | Some w \<Rightarrow> Some w)" by auto
  then show ?case using d kv first_header_append [of "[(k, v)]" hs]
    by (intro exI [of _ d']) (auto split: option.splits)
qed

text \<open>The parts of a request, and what its headers announce.\<close>

definition has_request :: "http_request \<Rightarrow> ('p, 't) request \<Rightarrow> bool" where
  "has_request m rq \<longleftrightarrow> request_method rq = Some (hr_method m) \<and> path rq = Some (hr_path m) \<and> uri rq = Some (hr_uri m) \<and>
     query_string rq = hr_query m \<and> fragment rq = hr_fragment m \<and> version rq = Some (hr_version m)"

definition announced_length :: "(string \<times> string) list \<Rightarrow> int" where
  "announced_length hs = (case first_header hs HTTP_CONTENT_LENGTH of None \<Rightarrow> 0 | Some v \<Rightarrow> atoi v)"

definition with_parts :: "http_request \<Rightarrow> ('p, 't) request \<Rightarrow> ('p, 't) request" where
  "with_parts m rq = rq\<lparr>request_method := Some (hr_method m), path := Some (hr_path m), query_string := hr_query m,
     uri := Some (hr_uri m), fragment := hr_fragment m, version := Some (hr_version m)\<rparr>"

lemma run_parts:
  assumes "query_string rq = None" "fragment rq = None"
  shows "run_parser_calls (http_calls m) rq =
    cbind (run_parser_calls (field_calls (hr_headers m)) (with_parts m rq)) (\<lambda>rq. Inr (header_done_cb rq))"
proof -
  let ?parts = "[On_method (hr_method m), On_path (hr_path m)] @ opt_call On_query (hr_query m) @ [On_uri (hr_uri m)] @
    opt_call On_fragment (hr_fragment m) @ [On_version (hr_version m)]"
  have "run_parser_calls ?parts rq = Inr (with_parts m rq)"
    using assms by (cases "hr_query m"; cases "hr_fragment m")
      (simp_all add: opt_call_def with_parts_def request_method_cb_def path_cb_def query_string_cb_def uri_cb_def fragment_cb_def
        http_version_cb_def)
  moreover have "http_calls m = ?parts @ field_calls (hr_headers m) @ [On_header_done]" by (simp add: http_calls_def)
  ultimately show ?thesis
    using run_calls_append [of ?parts "field_calls (hr_headers m) @ [On_header_done]" rq]
      run_calls_append [of "field_calls (hr_headers m)" "[On_header_done]" "with_parts m rq"]
    by (cases "run_parser_calls (field_calls (hr_headers m)) (with_parts m rq)") simp_all
qed

lemma run_request_calls:
  assumes "headers_room (length (hr_headers m) + n) rq" "\<And>j. Request_get rq j = None" "content_len (parser rq) = 0"
    "query_string rq = None" "fragment rq = None"
  shows "\<exists>rq'. run_parser_calls (http_calls m) rq = Inr rq' \<and> has_request m rq' \<and> headers_room n rq' \<and>
    (\<forall>j. Request_get rq' j = first_header (hr_headers m) j) \<and> host rq' = first_header (hr_headers m) HTTP_HOST \<and>
    parser rq' = (parser rq)\<lparr>content_len := announced_length (hr_headers m)\<rparr>"
proof -
  let ?rq1 = "with_parts m rq"
  have "headers_room (length (hr_headers m) + n) ?rq1" using assms(1) by (simp add: headers_room_def with_parts_def)
  from run_fields [OF this] obtain d where
    d: "run_parser_calls (map (\<lambda>(k, v). On_field k v) (hr_headers m)) ?rq1 = Inr (?rq1\<lparr>headers := d\<rparr>)"
      "headers_room n (?rq1\<lparr>headers := d\<rparr>)" "\<forall>j. Request_get (?rq1\<lparr>headers := d\<rparr>) j = first_header (hr_headers m) j"
    using assms(2) by (auto simp: Request_get_def with_parts_def)
  define rq2 where "rq2 = header_done_cb (?rq1\<lparr>headers := d\<rparr>)"
  have "run_parser_calls (http_calls m) rq = Inr rq2"
    using run_parts [OF assms(4,5), of m] d(1) by (simp add: rq2_def)
  moreover have "headers rq2 = d" "has_request m rq2"
    by (auto simp: rq2_def header_done_cb_def Let_def has_request_def with_parts_def split: option.splits)
  moreover have "Request_get (?rq1\<lparr>headers := d, parser := x\<rparr>) j = Request_get (?rq1\<lparr>headers := d\<rparr>) j" for x j
    by (simp add: Request_get_def)
  then have "host rq2 = first_header (hr_headers m) HTTP_HOST"
      "parser rq2 = (parser rq)\<lparr>content_len := announced_length (hr_headers m)\<rparr>"
    using d(3) assms(3) by (auto simp: rq2_def header_done_cb_def Let_def announced_length_def with_parts_def split: option.splits)
  ultimately show ?thesis using d(2,3) by (intro exI [of _ rq2]) (simp add: headers_room_def Request_get_def)
qed

section \<open>A request through the server\<close>

text \<open>
  What a connection holds behind a header: \<open>k\<close> bytes, at least the header; the parts of the request; its headers
  under any case and, unless the client sent one, the address in \<^verbatim>\<open>X-Forwarded-For\<close>; where its body starts and the
  length it announces.
\<close>

definition has_read :: "http_request \<Rightarrow> string \<Rightarrow> string \<Rightarrow> nat \<Rightarrow> (http11_state, 'c) conn \<Rightarrow> bool" where
  "has_read m body addr k c \<longleftrightarrow> nread c = int k \<and> length (http_print m) \<le> k \<and>
     take k (buf c) = take k (http_print m @ body) \<and> has_request m (req c) \<and>
     (\<forall>j. Request_get (req c) j = first_header (hr_headers m @ [(''X-Forwarded-For'', addr)]) j) \<and>
     host (req c) = first_header (hr_headers m) HTTP_HOST \<and> body_start (parser (req c)) = length (http_print m) \<and>
     content_len (parser (req c)) = announced_length (hr_headers m) \<and> Request_is_http (req c)"

lemma Request_start_fresh:
  assumes "dupes (headers rq)" "http E = http11_ops"
  defines "rq0 \<equiv> Request_start (http E) rq"
  shows "parser rq0 = http11_init (parser rq)" "query_string rq0 = None" "fragment rq0 = None" "Request_get rq0 j = None"
    "headers_room (maxcount (headers rq)) rq0"
  using assms(1,2)
  by (simp_all add: rq0_def Request_start_def Request_nuke_parts_def Let_def http11_ops_def Request_get_def dict_free_nodes_def
      dict_lookup_def headers_room_def dict_verify_def verify_bintree_def dict_first_def)

text \<open>A connection about to read a well-formed request, with anything behind it, from a fresh buffer.\<close>

definition awaits :: "(http11_state, 'c) env \<Rightarrow> http_request \<Rightarrow> string \<Rightarrow> (http11_state, 'c) conn \<Rightarrow> bool" where
  "awaits E m body c \<longleftrightarrow> http E = http11_ops \<and> \<not> ssl c \<and> int (length (buf c)) = BUFFER_SIZE (lims E) + 1 \<and>
     request_ok m \<and> int (length (http_print m)) < BUFFER_SIZE (lims E) \<and> concat (inbox (sock c)) = http_print m @ body \<and>
     length (http_print m @ body) < 2 ^ 64 \<and> [] \<notin> set (inbox (sock c)) \<and> dupes (headers (req c))"

text \<open>The loop runs up to the end of the header, or to the fault of a callback.\<close>

lemma read_loop_awaits:
  assumes "awaits E m body c" "nread c = 0"
  defines "c1 \<equiv> c\<lparr>nparsed := 0, req := Request_start (http E) (req c), buf := put_at (buf c) (BUFFER_SIZE (lims E)) [NUL]\<rparr>"
  shows "\<exists>hF. body_start hF = length (http_print m) \<and> content_len hF = 0 \<and> socket_started hF = 0 \<and> json_sent hF = 0 \<and>
    put_buf (buf c) (BUFFER_SIZE (lims E)) [NUL] = Inr (buf c1) \<and>
    (case run_parser_calls (http_calls m) (req c1\<lparr>parser := hF\<rparr>) of
       Inl e \<Rightarrow> read_loop E c1 0 (BUFFER_SIZE (lims E) - 1) 0 = Inl e
     | Inr rqF \<Rightarrow> \<exists>k c2. read_loop E c1 0 (BUFFER_SIZE (lims E) - 1) 0 = Inr (True, 1, c2) \<and> req c2 = rqF \<and> nread c2 = int k \<and>
         length (http_print m) \<le> k \<and> take k (buf c2) = take k (http_print m @ body) \<and> remote c2 = remote c \<and> 0 < k)"
proof -
  let ?B = "BUFFER_SIZE (lims E)" and ?xs = "http_print m @ body"
  note aw = assms(1) [unfolded awaits_def]
  have B: "0 < ?B" using aw by linarith
  have put: "put_buf (buf c) ?B [NUL] = Inr (buf c1)" using aw B by (simp add: put_buf_def c1_def)
  have ok: "buf_ok E c1" using aw B by (auto simp: buf_ok_def nth_append c1_def)
  obtain hF where ex: "http11_execute (http11_init (parser (req c))) ?xs 0 = Inr (http_calls m, hF, length (http_print m))"
      "http11_finish hF = 1" "body_start hF = length (http_print m)" "content_len hF = 0" "socket_started hF = 0" "json_sent hF = 0"
    using execute_request [of m body "parser (req c)"] aw by (auto simp: fits_def)
  have fresh: "parser (req c1) = http11_init (parser (req c))"
    using aw by (simp add: c1_def Request_start_def Request_nuke_parts_def Let_def http11_ops_def)
  have loop: "case run_parser_calls (http_calls m) (req c1\<lparr>parser := hF\<rparr>) of
      Inl e \<Rightarrow> read_loop E c1 0 (?B - 1) 0 = Inl e
    | Inr rqF \<Rightarrow> \<exists>k c2. read_loop E c1 0 (?B - 1) 0 = Inr (True, 1, c2) \<and> req c2 = rqF \<and> nread c2 = int k \<and>
        length (http_print m) \<le> k \<and> int k < ?B \<and> take k (buf c2) = take k ?xs \<and> remote c2 = remote c1 \<and> 0 < nread c2"
    by (rule read_loop_request [OF _ ok, where k = 0 and hF = hF and calls = "http_calls m"])
      (use aw assms(2) ex fresh init_mid in \<open>simp_all add: c1_def\<close>)
  have "remote c1 = remote c" by (simp add: c1_def)
  with loop put ex(3-6) show ?thesis
    by (intro exI [of _ hF]) (cases "run_parser_calls (http_calls m) (req c1\<lparr>parser := hF\<rparr>)"; fastforce)
qed

lemma read_header_request:
  assumes "awaits E m body c" "nread c = 0" "length (hr_headers m) < maxcount (headers (req c))"
  shows "\<exists>k c'. Connection_read_header E c = Inr (int k, c') \<and> 0 < k \<and> has_read m body (take IPADDR_SIZE (remote c)) k c'"
proof -
  let ?rq = "Request_start (http E) (req c)" and ?n = "maxcount (headers (req c)) - length (hr_headers m) - 1"
  let ?c1 = "c\<lparr>nparsed := 0, req := ?rq, buf := put_at (buf c) (BUFFER_SIZE (lims E)) [NUL]\<rparr>"
  have "dupes (headers (req c))" "http E = http11_ops" using assms(1) by (simp_all add: awaits_def)
  note fresh = Request_start_fresh [OF this]
  obtain hF where hF: "body_start hF = length (http_print m)" "content_len hF = 0" "socket_started hF = 0" "json_sent hF = 0"
      "put_buf (buf c) (BUFFER_SIZE (lims E)) [NUL] = Inr (buf ?c1)"
    and loop: "case run_parser_calls (http_calls m) (req ?c1\<lparr>parser := hF\<rparr>) of
       Inl e \<Rightarrow> read_loop E ?c1 0 (BUFFER_SIZE (lims E) - 1) 0 = Inl e
     | Inr rqF \<Rightarrow> \<exists>k c2. read_loop E ?c1 0 (BUFFER_SIZE (lims E) - 1) 0 = Inr (True, 1, c2) \<and> req c2 = rqF \<and> nread c2 = int k \<and>
         length (http_print m) \<le> k \<and> take k (buf c2) = take k (http_print m @ body) \<and> remote c2 = remote c \<and> 0 < k"
    using read_loop_awaits [OF assms(1,2)] by blast
  have room: "headers_room (length (hr_headers m) + Suc ?n) (?rq\<lparr>parser := hF\<rparr>)"
    using fresh(5) assms(3) by (simp add: headers_room_def)
  have get: "Request_get (?rq\<lparr>parser := hF\<rparr>) j = None" for j using fresh(4) [of j] by (simp add: Request_get_def)
  obtain rqF where rqF: "run_parser_calls (http_calls m) (?rq\<lparr>parser := hF\<rparr>) = Inr rqF" "has_request m rqF" "headers_room (Suc ?n) rqF"
      "\<forall>j. Request_get rqF j = first_header (hr_headers m) j" "host rqF = first_header (hr_headers m) HTTP_HOST"
      "parser rqF = hF\<lparr>content_len := announced_length (hr_headers m)\<rparr>"
    using run_request_calls [OF room get] hF(2) fresh(2,3) by auto
  then obtain k c2 where c2: "read_loop E ?c1 0 (BUFFER_SIZE (lims E) - 1) 0 = Inr (True, 1, c2)" "req c2 = rqF" "nread c2 = int k"
      "length (http_print m) \<le> k" "take k (buf c2) = take k (http_print m @ body)" "remote c2 = remote c" "0 < k"
    using loop by auto
  obtain d where d: "header_field_cb ''X-Forwarded-For'' (take IPADDR_SIZE (remote c)) rqF = Inr (rqF\<lparr>headers := d\<rparr>)"
      "\<forall>j. Request_get (rqF\<lparr>headers := d\<rparr>) j =
        (case Request_get rqF j of None \<Rightarrow> first_header [(''X-Forwarded-For'', take IPADDR_SIZE (remote c))] j | Some w \<Rightarrow> Some w)"
    using header_field_get [OF rqF(3)] by blast
  let ?c3 = "c2\<lparr>req := rqF\<lparr>headers := d\<rparr>\<rparr>"
  obtain x where x: "check_should_close ?c3 = ?c3\<lparr>conn_close := x\<rparr>" using should_close_frame by blast
  have "Connection_read_header E c = Inr (int k, ?c3\<lparr>conn_close := x\<rparr>)"
    using hF(5) c2 d(1) x by (simp add: Connection_read_header_def Let_def add_header_def)
  then show ?thesis
    using c2 rqF d(2) hF
    by (intro exI [of _ k] exI [of _ "?c3\<lparr>conn_close := x\<rparr>"])
      (simp add: has_read_def has_request_def first_header_append Request_is_http_def)
qed

text \<open>When the dictionary is full, the assertion of its insertion fails.\<close>

lemma header_field_full: "headers_room 0 rq \<Longrightarrow> header_field_cb k v rq = Inl Assert_fail"
  by (simp add: headers_room_def header_field_cb_def dict_alloc_insert_def dict_insert_def)

lemma run_fields_full:
  "headers_room n rq \<Longrightarrow> n < length hs \<Longrightarrow> run_parser_calls (map (\<lambda>(k, v). On_field k v) hs) rq = Inl Assert_fail"
proof (induction hs arbitrary: n rq)
  case (Cons kv hs)
  obtain k v where kv: "kv = (k, v)" by fastforce
  show ?case
  proof (cases n)
    case 0
    then show ?thesis using Cons.prems(1) kv by (simp add: header_field_full)
  next
    case (Suc i)
    then obtain d where "header_field_cb k v rq = Inr (rq\<lparr>headers := d\<rparr>)" "headers_room i (rq\<lparr>headers := d\<rparr>)"
      using header_field_get [of i rq k v] Cons.prems(1) by blast
    then show ?thesis using Cons.IH [of i] Cons.prems(2) Suc kv by simp
  qed
qed simp

lemma run_request_full:
  assumes "headers_room n rq" "n < length (hr_headers m)" "query_string rq = None" "fragment rq = None"
  shows "run_parser_calls (http_calls m) rq = Inl Assert_fail"
proof -
  have "headers_room n (with_parts m rq)" using assms(1) by (simp add: headers_room_def with_parts_def)
  from run_fields_full [OF this assms(2)] run_parts [OF assms(3,4), of m] show ?thesis by simp
qed

text \<open>C1: a client's well-formed request, in whatever packets and with anything behind it, is what the connection
reads, when its header fits in the buffer and the dictionary: the step ends in \<^verbatim>\<open>REQ_RECV\<close> with the
request's method, path, URI, query, fragment and version as written, a lookup gives the first header of that name in any
case or else the added \<^verbatim>\<open>X-Forwarded-For\<close>, the body starts behind the header and has the announced
length, and the buffer holds what was sent.\<close>

theorem connection_parse_request:
  assumes "awaits E m body c" "length (hr_headers m) < maxcount (headers (req c))"
  shows "\<exists>k c'. connection_parse E event c = Inr (REQ_RECV, c') \<and> has_read m body (take IPADDR_SIZE (remote c)) k c'"
proof -
  have "\<exists>k c'. Connection_read_header E (c\<lparr>nread := 0\<rparr>) = Inr (int k, c') \<and> 0 < k \<and>
      has_read m body (take IPADDR_SIZE (remote (c\<lparr>nread := 0\<rparr>))) k c'"
    by (rule read_header_request) (use assms in \<open>simp_all add: awaits_def\<close>)
  then show ?thesis by (force simp: connection_parse_def)
qed

definition sample_http11_env :: "(http11_state, unit) env" where
  "sample_http11_env = \<lparr>http = http11_ops, httpclient = httpclient sample_env, fops = fops sample_env,
     file_data = file_data sample_env, to_time = to_time sample_env, sets = Null,
     lims = \<lparr>MAX_CONTENT_LENGTH = 100, BUFFER_SIZE = 60, CONNECTION_STACK = 0\<rparr>, dir_lims = dir_lims sample_env,
     mime = mime_init, fdwait_ok = (\<lambda>_. True), new_client = sample_client, mem = True\<rparr>"

definition sample_http11_conn :: "string list \<Rightarrow> (http11_state, unit) conn" where
  "sample_http11_conn packets =
     \<lparr>server = server (sample_conn_for []), conn_fd = 5, proxy_fd = 0,
      req = the (Request_create True 4 sample_http11), nread = 0, nparsed = 0, registered = 0, rport = 0,
      buf = replicate 61 NUL, proxy_buf = None, client = None, remote = replicate 17 NUL, conn_close = 0,
      ssl = False, ssl_buff = None, ssl_buff_len = 0, buf_gen = 0,
      sock = \<lparr>inbox = packets, in_end = 0, outbox = [], accepts = []\<rparr>, ssl_in = [], backend_sock = quiet_chan,
      dials = [], mq_results = [], delivered = [], registry = empty_register,
      dirs = dirs (sample_conn_for []), files = files (sample_conn_for []), temps = [], uploads = [], unlinked = [],
      access_log_lines = [], fds_closed = [], clock = [], freed = False\<rparr>"

lemma connection_parse_request_witness:
  "\<exists>k c'. connection_parse sample_http11_env 101
       (sample_http11_conn [take 20 (http_print sample_http_request), drop 20 (http_print sample_http_request), ''body'']) =
       Inr (REQ_RECV, c') \<and>
     has_read sample_http_request ''body'' (take IPADDR_SIZE (replicate 17 NUL)) k c'"
proof -
  let ?c = "sample_http11_conn [take 20 (http_print sample_http_request), drop 20 (http_print sample_http_request), ''body'']"
  have len: "length (http_print sample_http_request) = 46" "length (hr_headers sample_http_request) = 2"
    using sample_http_request_calls by (simp_all add: sample_http_request_def)
  have box: "inbox (sock ?c) = [take 20 (http_print sample_http_request), drop 20 (http_print sample_http_request), ''body'']"
    by (simp add: sample_http11_conn_def)
  have "awaits sample_http11_env sample_http_request ''body'' ?c"
    using sample_http_request_ok len(1) box
    by (auto simp: awaits_def sample_http11_env_def sample_http11_conn_def Request_create_def dict_allow_dupes_def dict_create_def)
  moreover have "maxcount (headers (req ?c)) = 4" "remote ?c = replicate 17 NUL"
    by (simp_all add: sample_http11_conn_def Request_create_def dict_allow_dupes_def dict_create_def)
  ultimately show ?thesis
    using connection_parse_request [of sample_http11_env sample_http_request "''body''" ?c 101] len by simp
qed

text \<open>C5: a request with as many headers as \<^verbatim>\<open>limits.header_count\<close>, or more, ends the server by the assertion
of \<^verbatim>\<open>dict_insert\<close>, the last of them by the header the server adds itself; with the default limits such a
request fits in the buffer.\<close>

theorem connection_parse_header_flood:
  assumes "awaits E m body c" "maxcount (headers (req c)) \<le> length (hr_headers m)"
  shows "connection_parse E event c = Inl Assert_fail"
proof -
  let ?rq = "Request_start (http E) (req c)" and ?M = "maxcount (headers (req c))"
  let ?c1 = "c\<lparr>nread := 0, nparsed := 0, req := ?rq, buf := put_at (buf c) (BUFFER_SIZE (lims E)) [NUL]\<rparr>"
  have "dupes (headers (req c))" "http E = http11_ops" using assms(1) by (simp_all add: awaits_def)
  note fresh = Request_start_fresh [OF this]
  have "awaits E m body (c\<lparr>nread := 0\<rparr>)" using assms(1) by (simp add: awaits_def)
  from read_loop_awaits [OF this] obtain hF where hF: "content_len hF = 0"
      "put_buf (buf c) (BUFFER_SIZE (lims E)) [NUL] = Inr (buf ?c1)"
    and loop: "case run_parser_calls (http_calls m) (?rq\<lparr>parser := hF\<rparr>) of
       Inl e \<Rightarrow> read_loop E ?c1 0 (BUFFER_SIZE (lims E) - 1) 0 = Inl e
     | Inr rqF \<Rightarrow> \<exists>c2. read_loop E ?c1 0 (BUFFER_SIZE (lims E) - 1) 0 = Inr (True, 1, c2) \<and> req c2 = rqF"
    by simp (elim exE conjE; fastforce split: sum.splits)
  have room: "headers_room ?M (?rq\<lparr>parser := hF\<rparr>)" using fresh(5) by (simp add: headers_room_def)
  have "Connection_read_header E (c\<lparr>nread := 0\<rparr>) = Inl Assert_fail"
  proof (cases "?M = length (hr_headers m)")
    case True
    have get: "Request_get (?rq\<lparr>parser := hF\<rparr>) j = None" for j using fresh(4) [of j] by (simp add: Request_get_def)
    have "headers_room (length (hr_headers m) + 0) (?rq\<lparr>parser := hF\<rparr>)" using room True by simp
    from run_request_calls [OF this get] hF(1) fresh(2,3)
    obtain rqF where rqF: "run_parser_calls (http_calls m) (?rq\<lparr>parser := hF\<rparr>) = Inr rqF" "headers_room 0 rqF" by auto
    then obtain c2 where "read_loop E ?c1 0 (BUFFER_SIZE (lims E) - 1) 0 = Inr (True, 1, c2)" "req c2 = rqF" using loop by auto
    then show ?thesis using hF(2) rqF(2) by (simp add: Connection_read_header_def Let_def add_header_def header_field_full)
  next
    case False
    then have "run_parser_calls (http_calls m) (?rq\<lparr>parser := hF\<rparr>) = Inl Assert_fail"
      using run_request_full [OF room] assms(2) fresh(2,3) by simp
    then show ?thesis using loop hF(2) by (simp add: Connection_read_header_def Let_def)
  qed
  then show ?thesis by (simp add: connection_parse_def)
qed

definition flood_request :: http_request where
  "flood_request = \<lparr>hr_method = ''GET'', hr_path = ''/'', hr_params = None, hr_query = None, hr_fragment = None,
     hr_minor = CHR ''1'', hr_headers = replicate 1280 (''a'', []), hr_pad = 0, hr_eol = [LF]\<rparr>"

definition default_env :: "(http11_state, unit) env" where
  "default_env = sample_http11_env\<lparr>lims := (lims sample_http11_env)\<lparr>BUFFER_SIZE := 4 * 1024\<rparr>\<rparr>"

definition default_conn :: "string list \<Rightarrow> (http11_state, unit) conn" where
  "default_conn packets = (sample_http11_conn packets)\<lparr>buf := replicate 4097 NUL,
     req := the (Request_create True (nat (Request_init Null)) sample_http11)\<rparr>"

lemma connection_parse_header_flood_witness:
  "connection_parse default_env 101 (default_conn [http_print flood_request]) = Inl Assert_fail"
proof (rule connection_parse_header_flood [where m = flood_request and body = "[]"])
  have len: "length (http_print flood_request) = 3856"
    by (simp add: http_print_def flood_request_def hr_uri_def hr_version_def behind_def print_header_def length_concat
        map_replicate sum_list_replicate)
  have "request_ok flood_request"
    by (simp add: request_ok_def flood_request_def header_ok_def opt_all_def eol_ok_def class_schar' path_schar token_schar
        schar_Char list_all_iff)
  then show "awaits default_env flood_request [] (default_conn [http_print flood_request])"
    using len by (auto simp: awaits_def default_env_def default_conn_def sample_http11_env_def sample_http11_conn_def
        Request_create_def dict_allow_dupes_def dict_create_def)
  show "maxcount (headers (req (default_conn [http_print flood_request]))) \<le> length (hr_headers flood_request)"
    by (simp add: default_conn_def Request_create_def dict_allow_dupes_def dict_create_def flood_request_def Request_init_def
        Setting_get_int_def)
qed

end
