(* ===== verification/Client11.thy ===== *)
theory Client11
  imports Proxy
begin

text \<open>
  The parser for what a proxied backend answers, generated by Ragel from \<^verbatim>\<open>http11/httpclient_parser.rl\<close>, as it stands
  in \<^verbatim>\<open>http11/httpclient_parser.c\<close>: one definition per label, as in \<open>Http11\<close>.
\<close>

section \<open>Labels\<close>

datatype client_action =
    Cl_mark | Cl_start_field | Cl_write_field | Cl_write_value | Cl_content_length | Cl_reason_phrase | Cl_status_code
  | Cl_http_version | Cl_chunk_size | Cl_trans_chunked | Cl_done

type_synonym client_trans = "client_action list \<times> nat"

definition client_st :: "nat \<Rightarrow> client_trans" where
  "client_st n = ([], n)"

definition client_tr0 :: client_trans where "client_tr0 = ([Cl_mark], 2)"
definition client_tr2 :: client_trans where "client_tr2 = ([Cl_mark], 8)"
definition client_tr3 :: client_trans where "client_tr3 = ([Cl_chunk_size, Cl_done], 91)"
definition client_tr4 :: client_trans where "client_tr4 = ([Cl_chunk_size], 3)"
definition client_tr6 :: client_trans where "client_tr6 = ([Cl_chunk_size], 4)"
definition client_tr7 :: client_trans where "client_tr7 = ([Cl_done], 91)"
definition client_tr8 :: client_trans where "client_tr8 = ([Cl_start_field], 5)"
definition client_tr9 :: client_trans where "client_tr9 = ([Cl_write_field, Cl_mark, Cl_write_value, Cl_done], 91)"
definition client_tr10 :: client_trans where "client_tr10 = ([Cl_write_field, Cl_mark, Cl_write_value], 3)"
definition client_tr12 :: client_trans where "client_tr12 = ([Cl_write_field, Cl_mark, Cl_write_value], 4)"
definition client_tr13 :: client_trans where "client_tr13 = ([Cl_write_field, Cl_mark], 6)"
definition client_tr14 :: client_trans where "client_tr14 = ([Cl_mark], 7)"
definition client_tr15 :: client_trans where "client_tr15 = ([Cl_write_value, Cl_done], 91)"
definition client_tr16 :: client_trans where "client_tr16 = ([Cl_write_value], 3)"
definition client_tr18 :: client_trans where "client_tr18 = ([Cl_write_value], 4)"
definition client_tr26 :: client_trans where "client_tr26 = ([Cl_http_version], 16)"
definition client_tr27 :: client_trans where "client_tr27 = ([Cl_mark], 17)"
definition client_tr28 :: client_trans where "client_tr28 = ([Cl_status_code], 18)"
definition client_tr30 :: client_trans where "client_tr30 = ([Cl_mark], 19)"
definition client_tr32 :: client_trans where "client_tr32 = ([Cl_reason_phrase], 20)"
definition client_tr33 :: client_trans where "client_tr33 = ([Cl_reason_phrase], 24)"
definition client_tr35 :: client_trans where "client_tr35 = ([Cl_start_field], 21)"
definition client_tr36 :: client_trans where "client_tr36 = ([Cl_start_field], 25)"
definition client_tr37 :: client_trans where "client_tr37 = ([Cl_start_field], 45)"
definition client_tr39 :: client_trans where "client_tr39 = ([Cl_write_field], 22)"
definition client_tr40 :: client_trans where "client_tr40 = ([Cl_mark], 23)"
definition client_tr41 :: client_trans where "client_tr41 = ([Cl_mark], 22)"
definition client_tr42 :: client_trans where "client_tr42 = ([Cl_mark, Cl_write_value], 20)"
definition client_tr43 :: client_trans where "client_tr43 = ([Cl_mark, Cl_write_value], 24)"
definition client_tr45 :: client_trans where "client_tr45 = ([Cl_write_value], 20)"
definition client_tr46 :: client_trans where "client_tr46 = ([Cl_write_value], 24)"
definition client_tr61 :: client_trans where "client_tr61 = ([Cl_write_field], 39)"
definition client_tr62 :: client_trans where "client_tr62 = ([Cl_mark], 39)"
definition client_tr63 :: client_trans where "client_tr63 = ([Cl_mark, Cl_write_value], 40)"
definition client_tr64 :: client_trans where "client_tr64 = ([Cl_mark, Cl_write_value], 89)"
definition client_tr65 :: client_trans where "client_tr65 = ([Cl_mark], 90)"
definition client_tr67 :: client_trans where "client_tr67 = ([Cl_done], 92)"
definition client_tr69 :: client_trans where "client_tr69 = ([Cl_mark, Cl_start_field], 44)"
definition client_tr70 :: client_trans where "client_tr70 = ([Cl_mark], 42)"
definition client_tr71 :: client_trans where "client_tr71 = ([Cl_content_length, Cl_write_value], 20)"
definition client_tr72 :: client_trans where "client_tr72 = ([Cl_content_length, Cl_write_value], 24)"
definition client_tr91 :: client_trans where "client_tr91 = ([Cl_write_field], 62)"
definition client_tr92 :: client_trans where "client_tr92 = ([Cl_mark], 62)"
definition client_tr93 :: client_trans where "client_tr93 = ([Cl_mark, Cl_write_value], 63)"
definition client_tr94 :: client_trans where "client_tr94 = ([Cl_mark, Cl_write_value], 81)"
definition client_tr95 :: client_trans where "client_tr95 = ([Cl_mark], 82)"
definition client_tr97 :: client_trans where "client_tr97 = ([Cl_done], 93)"
definition client_tr99 :: client_trans where "client_tr99 = ([Cl_mark, Cl_start_field], 74)"
definition client_tr100 :: client_trans where "client_tr100 = ([Cl_mark], 65)"
definition client_tr107 :: client_trans where "client_tr107 = ([Cl_write_value, Cl_trans_chunked], 20)"
definition client_tr108 :: client_trans where "client_tr108 = ([Cl_write_value], 72)"
definition client_tr109 :: client_trans where "client_tr109 = ([Cl_trans_chunked], 20)"
definition client_tr124 :: client_trans where "client_tr124 = ([Cl_write_value, Cl_content_length], 20)"
definition client_tr125 :: client_trans where "client_tr125 = ([Cl_write_value, Cl_content_length], 24)"

text \<open>The states.\<close>

definition client_case_1 :: "char \<Rightarrow> client_trans" where
  "client_case_1 c =
    (let v = schar c in
     if v = 72 then client_tr2 else if v < 65 then (if 48 \<le> v \<and> v \<le> 57 then client_tr0
     else client_st 0) else if v > 70 then (if 97 \<le> v \<and> v \<le> 102 then client_tr0
     else client_st 0) else client_tr0)"

definition client_case_2 :: "char \<Rightarrow> client_trans" where
  "client_case_2 c =
    (let v = schar c in
     if v = 10 then client_tr3 else if v = 13 then client_tr4 else if v = 59 then client_tr6
     else if v < 65 then (if 48 \<le> v \<and> v \<le> 57 then client_st 2 else client_st 0)
     else if v > 70 then (if 97 \<le> v \<and> v \<le> 102 then client_st 2 else client_st 0)
     else client_st 2)"

definition client_case_3 :: "char \<Rightarrow> client_trans" where
  "client_case_3 c =
    (let v = schar c in
     if v = 10 then client_tr7 else client_st 0)"

definition client_case_4 :: "char \<Rightarrow> client_trans" where
  "client_case_4 c =
    (let v = schar c in
     if v = 33 then client_tr8 else if v = 124 then client_tr8 else if v = 126 then client_tr8
     else if v < 45 then (if v > 39 then (if 42 \<le> v \<and> v \<le> 43 then client_tr8 else client_st 0)
     else if v \<ge> 35 then client_tr8 else client_st 0)
     else if v > 46 then (if v < 65 then (if 48 \<le> v \<and> v \<le> 57 then client_tr8 else client_st 0)
     else if v > 90 then (if 94 \<le> v \<and> v \<le> 122 then client_tr8 else client_st 0)
     else client_tr8) else client_tr8)"

definition client_case_5 :: "char \<Rightarrow> client_trans" where
  "client_case_5 c =
    (let v = schar c in
     if v = 10 then client_tr9 else if v = 13 then client_tr10 else if v = 33 then client_st 5
     else if v = 59 then client_tr12 else if v = 61 then client_tr13 else if v = 124 then client_st 5
     else if v = 126 then client_st 5
     else if v < 45 then (if v > 39 then (if 42 \<le> v \<and> v \<le> 43 then client_st 5 else client_st 0)
     else if v \<ge> 35 then client_st 5 else client_st 0)
     else if v > 46 then (if v < 65 then (if 48 \<le> v \<and> v \<le> 57 then client_st 5 else client_st 0)
     else if v > 90 then (if 94 \<le> v \<and> v \<le> 122 then client_st 5 else client_st 0)
     else client_st 5) else client_st 5)"

definition client_case_6 :: "char \<Rightarrow> client_trans" where
  "client_case_6 c =
    (let v = schar c in
     if v = 33 then client_tr14 else if v = 124 then client_tr14 else if v = 126 then client_tr14
     else if v < 45 then (if v > 39 then (if 42 \<le> v \<and> v \<le> 43 then client_tr14 else client_st 0)
     else if v \<ge> 35 then client_tr14 else client_st 0)
     else if v > 46 then (if v < 65 then (if 48 \<le> v \<and> v \<le> 57 then client_tr14 else client_st 0)
     else if v > 90 then (if 94 \<le> v \<and> v \<le> 122 then client_tr14 else client_st 0)
     else client_tr14) else client_tr14)"

definition client_case_7 :: "char \<Rightarrow> client_trans" where
  "client_case_7 c =
    (let v = schar c in
     if v = 10 then client_tr15 else if v = 13 then client_tr16 else if v = 33 then client_st 7
     else if v = 59 then client_tr18 else if v = 124 then client_st 7 else if v = 126 then client_st 7
     else if v < 45 then (if v > 39 then (if 42 \<le> v \<and> v \<le> 43 then client_st 7 else client_st 0)
     else if v \<ge> 35 then client_st 7 else client_st 0)
     else if v > 46 then (if v < 65 then (if 48 \<le> v \<and> v \<le> 57 then client_st 7 else client_st 0)
     else if v > 90 then (if 94 \<le> v \<and> v \<le> 122 then client_st 7 else client_st 0)
     else client_st 7) else client_st 7)"

definition client_case_8 :: "char \<Rightarrow> client_trans" where
  "client_case_8 c =
    (let v = schar c in
     if v = 84 then client_st 9 else client_st 0)"

definition client_case_9 :: "char \<Rightarrow> client_trans" where
  "client_case_9 c =
    (let v = schar c in
     if v = 84 then client_st 10 else client_st 0)"

definition client_case_10 :: "char \<Rightarrow> client_trans" where
  "client_case_10 c =
    (let v = schar c in
     if v = 80 then client_st 11 else client_st 0)"

definition client_case_11 :: "char \<Rightarrow> client_trans" where
  "client_case_11 c =
    (let v = schar c in
     if v = 47 then client_st 12 else client_st 0)"

definition client_case_12 :: "char \<Rightarrow> client_trans" where
  "client_case_12 c =
    (let v = schar c in
     if 48 \<le> v \<and> v \<le> 57 then client_st 13 else client_st 0)"

definition client_case_13 :: "char \<Rightarrow> client_trans" where
  "client_case_13 c =
    (let v = schar c in
     if v = 46 then client_st 14 else if 48 \<le> v \<and> v \<le> 57 then client_st 13 else client_st 0)"

definition client_case_14 :: "char \<Rightarrow> client_trans" where
  "client_case_14 c =
    (let v = schar c in
     if 48 \<le> v \<and> v \<le> 57 then client_st 15 else client_st 0)"

definition client_case_15 :: "char \<Rightarrow> client_trans" where
  "client_case_15 c =
    (let v = schar c in
     if v = 32 then client_tr26 else if 48 \<le> v \<and> v \<le> 57 then client_st 15 else client_st 0)"

definition client_case_16 :: "char \<Rightarrow> client_trans" where
  "client_case_16 c =
    (let v = schar c in
     if 48 \<le> v \<and> v \<le> 57 then client_tr27 else client_st 0)"

definition client_case_17 :: "char \<Rightarrow> client_trans" where
  "client_case_17 c =
    (let v = schar c in
     if v = 32 then client_tr28 else if 48 \<le> v \<and> v \<le> 57 then client_st 17 else client_st 0)"

definition client_case_18 :: "char \<Rightarrow> client_trans" where
  "client_case_18 c =
    (let v = schar c in
     if v = 10 then client_st 0 else client_tr30)"

definition client_case_19 :: "char \<Rightarrow> client_trans" where
  "client_case_19 c =
    (let v = schar c in
     if v = 10 then client_tr32 else if v = 13 then client_tr33 else client_st 19)"

definition client_case_20 :: "char \<Rightarrow> client_trans" where
  "client_case_20 c =
    (let v = schar c in
     if v = 10 then client_tr7 else if v = 13 then client_st 3 else if v = 33 then client_tr35
     else if v = 67 then client_tr36 else if v = 84 then client_tr37 else if v = 99 then client_tr36
     else if v = 116 then client_tr37 else if v = 124 then client_tr35 else if v = 126 then client_tr35
     else if v < 45 then (if v > 39 then (if 42 \<le> v \<and> v \<le> 43 then client_tr35 else client_st 0)
     else if v \<ge> 35 then client_tr35 else client_st 0)
     else if v > 46 then (if v < 65 then (if 48 \<le> v \<and> v \<le> 57 then client_tr35 else client_st 0)
     else if v > 90 then (if 94 \<le> v \<and> v \<le> 122 then client_tr35 else client_st 0)
     else client_tr35) else client_tr35)"

definition client_case_21 :: "char \<Rightarrow> client_trans" where
  "client_case_21 c =
    (let v = schar c in
     if v = 33 then client_st 21 else if v = 58 then client_tr39 else if v = 124 then client_st 21
     else if v = 126 then client_st 21
     else if v < 45 then (if v > 39 then (if 42 \<le> v \<and> v \<le> 43 then client_st 21
     else client_st 0) else if v \<ge> 35 then client_st 21 else client_st 0)
     else if v > 46 then (if v < 65 then (if 48 \<le> v \<and> v \<le> 57 then client_st 21
     else client_st 0) else if v > 90 then (if 94 \<le> v \<and> v \<le> 122 then client_st 21
     else client_st 0) else client_st 21) else client_st 21)"

definition client_case_22 :: "char \<Rightarrow> client_trans" where
  "client_case_22 c =
    (let v = schar c in
     if v = 10 then client_tr42 else if v = 13 then client_tr43 else if v = 32 then client_tr41
     else if 9 \<le> v \<and> v \<le> 12 then client_tr41 else client_tr40)"

definition client_case_23 :: "char \<Rightarrow> client_trans" where
  "client_case_23 c =
    (let v = schar c in
     if v = 10 then client_tr45 else if v = 13 then client_tr46 else client_st 23)"

definition client_case_24 :: "char \<Rightarrow> client_trans" where
  "client_case_24 c =
    (let v = schar c in
     if v = 10 then client_st 20 else client_st 0)"

definition client_case_25 :: "char \<Rightarrow> client_trans" where
  "client_case_25 c =
    (let v = schar c in
     if v = 33 then client_st 21 else if v = 58 then client_tr39 else if v = 79 then client_st 26
     else if v = 111 then client_st 26 else if v = 124 then client_st 21 else if v = 126 then client_st 21
     else if v < 45 then (if v > 39 then (if 42 \<le> v \<and> v \<le> 43 then client_st 21
     else client_st 0) else if v \<ge> 35 then client_st 21 else client_st 0)
     else if v > 46 then (if v < 65 then (if 48 \<le> v \<and> v \<le> 57 then client_st 21
     else client_st 0) else if v > 90 then (if 94 \<le> v \<and> v \<le> 122 then client_st 21
     else client_st 0) else client_st 21) else client_st 21)"

definition client_case_26 :: "char \<Rightarrow> client_trans" where
  "client_case_26 c =
    (let v = schar c in
     if v = 33 then client_st 21 else if v = 58 then client_tr39 else if v = 78 then client_st 27
     else if v = 110 then client_st 27 else if v = 124 then client_st 21 else if v = 126 then client_st 21
     else if v < 45 then (if v > 39 then (if 42 \<le> v \<and> v \<le> 43 then client_st 21
     else client_st 0) else if v \<ge> 35 then client_st 21 else client_st 0)
     else if v > 46 then (if v < 65 then (if 48 \<le> v \<and> v \<le> 57 then client_st 21
     else client_st 0) else if v > 90 then (if 94 \<le> v \<and> v \<le> 122 then client_st 21
     else client_st 0) else client_st 21) else client_st 21)"

definition client_case_27 :: "char \<Rightarrow> client_trans" where
  "client_case_27 c =
    (let v = schar c in
     if v = 33 then client_st 21 else if v = 58 then client_tr39 else if v = 84 then client_st 28
     else if v = 116 then client_st 28 else if v = 124 then client_st 21 else if v = 126 then client_st 21
     else if v < 45 then (if v > 39 then (if 42 \<le> v \<and> v \<le> 43 then client_st 21
     else client_st 0) else if v \<ge> 35 then client_st 21 else client_st 0)
     else if v > 46 then (if v < 65 then (if 48 \<le> v \<and> v \<le> 57 then client_st 21
     else client_st 0) else if v > 90 then (if 94 \<le> v \<and> v \<le> 122 then client_st 21
     else client_st 0) else client_st 21) else client_st 21)"

definition client_case_28 :: "char \<Rightarrow> client_trans" where
  "client_case_28 c =
    (let v = schar c in
     if v = 33 then client_st 21 else if v = 58 then client_tr39 else if v = 69 then client_st 29
     else if v = 101 then client_st 29 else if v = 124 then client_st 21 else if v = 126 then client_st 21
     else if v < 45 then (if v > 39 then (if 42 \<le> v \<and> v \<le> 43 then client_st 21
     else client_st 0) else if v \<ge> 35 then client_st 21 else client_st 0)
     else if v > 46 then (if v < 65 then (if 48 \<le> v \<and> v \<le> 57 then client_st 21
     else client_st 0) else if v > 90 then (if 94 \<le> v \<and> v \<le> 122 then client_st 21
     else client_st 0) else client_st 21) else client_st 21)"

definition client_case_29 :: "char \<Rightarrow> client_trans" where
  "client_case_29 c =
    (let v = schar c in
     if v = 33 then client_st 21 else if v = 58 then client_tr39 else if v = 78 then client_st 30
     else if v = 110 then client_st 30 else if v = 124 then client_st 21 else if v = 126 then client_st 21
     else if v < 45 then (if v > 39 then (if 42 \<le> v \<and> v \<le> 43 then client_st 21
     else client_st 0) else if v \<ge> 35 then client_st 21 else client_st 0)
     else if v > 46 then (if v < 65 then (if 48 \<le> v \<and> v \<le> 57 then client_st 21
     else client_st 0) else if v > 90 then (if 94 \<le> v \<and> v \<le> 122 then client_st 21
     else client_st 0) else client_st 21) else client_st 21)"

definition client_case_30 :: "char \<Rightarrow> client_trans" where
  "client_case_30 c =
    (let v = schar c in
     if v = 33 then client_st 21 else if v = 58 then client_tr39 else if v = 84 then client_st 31
     else if v = 116 then client_st 31 else if v = 124 then client_st 21 else if v = 126 then client_st 21
     else if v < 45 then (if v > 39 then (if 42 \<le> v \<and> v \<le> 43 then client_st 21
     else client_st 0) else if v \<ge> 35 then client_st 21 else client_st 0)
     else if v > 46 then (if v < 65 then (if 48 \<le> v \<and> v \<le> 57 then client_st 21
     else client_st 0) else if v > 90 then (if 94 \<le> v \<and> v \<le> 122 then client_st 21
     else client_st 0) else client_st 21) else client_st 21)"

definition client_case_31 :: "char \<Rightarrow> client_trans" where
  "client_case_31 c =
    (let v = schar c in
     if v = 33 then client_st 21 else if v = 45 then client_st 32 else if v = 46 then client_st 21
     else if v = 58 then client_tr39 else if v = 124 then client_st 21 else if v = 126 then client_st 21
     else if v < 48 then (if v > 39 then (if 42 \<le> v \<and> v \<le> 43 then client_st 21
     else client_st 0) else if v \<ge> 35 then client_st 21 else client_st 0)
     else if v > 57 then (if v > 90 then (if 94 \<le> v \<and> v \<le> 122 then client_st 21
     else client_st 0) else if v \<ge> 65 then client_st 21 else client_st 0) else client_st 21)"

definition client_case_32 :: "char \<Rightarrow> client_trans" where
  "client_case_32 c =
    (let v = schar c in
     if v = 33 then client_st 21 else if v = 58 then client_tr39 else if v = 76 then client_st 33
     else if v = 108 then client_st 33 else if v = 124 then client_st 21 else if v = 126 then client_st 21
     else if v < 45 then (if v > 39 then (if 42 \<le> v \<and> v \<le> 43 then client_st 21
     else client_st 0) else if v \<ge> 35 then client_st 21 else client_st 0)
     else if v > 46 then (if v < 65 then (if 48 \<le> v \<and> v \<le> 57 then client_st 21
     else client_st 0) else if v > 90 then (if 94 \<le> v \<and> v \<le> 122 then client_st 21
     else client_st 0) else client_st 21) else client_st 21)"

definition client_case_33 :: "char \<Rightarrow> client_trans" where
  "client_case_33 c =
    (let v = schar c in
     if v = 33 then client_st 21 else if v = 58 then client_tr39 else if v = 69 then client_st 34
     else if v = 101 then client_st 34 else if v = 124 then client_st 21 else if v = 126 then client_st 21
     else if v < 45 then (if v > 39 then (if 42 \<le> v \<and> v \<le> 43 then client_st 21
     else client_st 0) else if v \<ge> 35 then client_st 21 else client_st 0)
     else if v > 46 then (if v < 65 then (if 48 \<le> v \<and> v \<le> 57 then client_st 21
     else client_st 0) else if v > 90 then (if 94 \<le> v \<and> v \<le> 122 then client_st 21
     else client_st 0) else client_st 21) else client_st 21)"

definition client_case_34 :: "char \<Rightarrow> client_trans" where
  "client_case_34 c =
    (let v = schar c in
     if v = 33 then client_st 21 else if v = 58 then client_tr39 else if v = 78 then client_st 35
     else if v = 110 then client_st 35 else if v = 124 then client_st 21 else if v = 126 then client_st 21
     else if v < 45 then (if v > 39 then (if 42 \<le> v \<and> v \<le> 43 then client_st 21
     else client_st 0) else if v \<ge> 35 then client_st 21 else client_st 0)
     else if v > 46 then (if v < 65 then (if 48 \<le> v \<and> v \<le> 57 then client_st 21
     else client_st 0) else if v > 90 then (if 94 \<le> v \<and> v \<le> 122 then client_st 21
     else client_st 0) else client_st 21) else client_st 21)"

definition client_case_35 :: "char \<Rightarrow> client_trans" where
  "client_case_35 c =
    (let v = schar c in
     if v = 33 then client_st 21 else if v = 58 then client_tr39 else if v = 71 then client_st 36
     else if v = 103 then client_st 36 else if v = 124 then client_st 21 else if v = 126 then client_st 21
     else if v < 45 then (if v > 39 then (if 42 \<le> v \<and> v \<le> 43 then client_st 21
     else client_st 0) else if v \<ge> 35 then client_st 21 else client_st 0)
     else if v > 46 then (if v < 65 then (if 48 \<le> v \<and> v \<le> 57 then client_st 21
     else client_st 0) else if v > 90 then (if 94 \<le> v \<and> v \<le> 122 then client_st 21
     else client_st 0) else client_st 21) else client_st 21)"

definition client_case_36 :: "char \<Rightarrow> client_trans" where
  "client_case_36 c =
    (let v = schar c in
     if v = 33 then client_st 21 else if v = 58 then client_tr39 else if v = 84 then client_st 37
     else if v = 116 then client_st 37 else if v = 124 then client_st 21 else if v = 126 then client_st 21
     else if v < 45 then (if v > 39 then (if 42 \<le> v \<and> v \<le> 43 then client_st 21
     else client_st 0) else if v \<ge> 35 then client_st 21 else client_st 0)
     else if v > 46 then (if v < 65 then (if 48 \<le> v \<and> v \<le> 57 then client_st 21
     else client_st 0) else if v > 90 then (if 94 \<le> v \<and> v \<le> 122 then client_st 21
     else client_st 0) else client_st 21) else client_st 21)"

definition client_case_37 :: "char \<Rightarrow> client_trans" where
  "client_case_37 c =
    (let v = schar c in
     if v = 33 then client_st 21 else if v = 58 then client_tr39 else if v = 72 then client_st 38
     else if v = 104 then client_st 38 else if v = 124 then client_st 21 else if v = 126 then client_st 21
     else if v < 45 then (if v > 39 then (if 42 \<le> v \<and> v \<le> 43 then client_st 21
     else client_st 0) else if v \<ge> 35 then client_st 21 else client_st 0)
     else if v > 46 then (if v < 65 then (if 48 \<le> v \<and> v \<le> 57 then client_st 21
     else client_st 0) else if v > 90 then (if 94 \<le> v \<and> v \<le> 122 then client_st 21
     else client_st 0) else client_st 21) else client_st 21)"

definition client_case_38 :: "char \<Rightarrow> client_trans" where
  "client_case_38 c =
    (let v = schar c in
     if v = 33 then client_st 21 else if v = 58 then client_tr61 else if v = 124 then client_st 21
     else if v = 126 then client_st 21
     else if v < 45 then (if v > 39 then (if 42 \<le> v \<and> v \<le> 43 then client_st 21
     else client_st 0) else if v \<ge> 35 then client_st 21 else client_st 0)
     else if v > 46 then (if v < 65 then (if 48 \<le> v \<and> v \<le> 57 then client_st 21
     else client_st 0) else if v > 90 then (if 94 \<le> v \<and> v \<le> 122 then client_st 21
     else client_st 0) else client_st 21) else client_st 21)"

definition client_case_39 :: "char \<Rightarrow> client_trans" where
  "client_case_39 c =
    (let v = schar c in
     if v = 10 then client_tr63 else if v = 13 then client_tr64 else if v = 32 then client_tr62
     else if v > 12 then (if 48 \<le> v \<and> v \<le> 57 then client_tr65 else client_tr40)
     else if v \<ge> 9 then client_tr62 else client_tr40)"

definition client_case_40 :: "char \<Rightarrow> client_trans" where
  "client_case_40 c =
    (let v = schar c in
     if v = 10 then client_tr67 else if v = 13 then client_st 43 else if v = 32 then client_st 41
     else if v = 33 then client_tr35 else if v = 67 then client_tr36 else if v = 84 then client_tr37
     else if v = 99 then client_tr36 else if v = 116 then client_tr37 else if v = 124 then client_tr35
     else if v = 126 then client_tr35
     else if v < 45 then (if v < 35 then (if 9 \<le> v \<and> v \<le> 12 then client_st 41 else client_st 0)
     else if v > 39 then (if 42 \<le> v \<and> v \<le> 43 then client_tr35 else client_st 0)
     else client_tr35) else if v > 46 then (if v < 65 then (if 48 \<le> v \<and> v \<le> 57 then client_tr69
     else client_st 0) else if v > 90 then (if 94 \<le> v \<and> v \<le> 122 then client_tr35
     else client_st 0) else client_tr35) else client_tr35)"

definition client_case_41 :: "char \<Rightarrow> client_trans" where
  "client_case_41 c =
    (let v = schar c in
     if v = 32 then client_st 41 else if v > 13 then (if 48 \<le> v \<and> v \<le> 57 then client_tr70
     else client_st 0) else if v \<ge> 9 then client_st 41 else client_st 0)"

definition client_case_42 :: "char \<Rightarrow> client_trans" where
  "client_case_42 c =
    (let v = schar c in
     if v = 10 then client_tr71 else if v = 13 then client_tr72
     else if 48 \<le> v \<and> v \<le> 57 then client_st 42 else client_st 0)"

definition client_case_43 :: "char \<Rightarrow> client_trans" where
  "client_case_43 c =
    (let v = schar c in
     if v = 10 then client_tr67 else if v = 32 then client_st 41
     else if v > 13 then (if 48 \<le> v \<and> v \<le> 57 then client_tr70 else client_st 0)
     else if v \<ge> 9 then client_st 41 else client_st 0)"

definition client_case_44 :: "char \<Rightarrow> client_trans" where
  "client_case_44 c =
    (let v = schar c in
     if v = 10 then client_tr71 else if v = 13 then client_tr72 else if v = 33 then client_st 21
     else if v = 58 then client_tr39 else if v = 124 then client_st 21 else if v = 126 then client_st 21
     else if v < 45 then (if v > 39 then (if 42 \<le> v \<and> v \<le> 43 then client_st 21
     else client_st 0) else if v \<ge> 35 then client_st 21 else client_st 0)
     else if v > 46 then (if v < 65 then (if 48 \<le> v \<and> v \<le> 57 then client_st 44
     else client_st 0) else if v > 90 then (if 94 \<le> v \<and> v \<le> 122 then client_st 21
     else client_st 0) else client_st 21) else client_st 21)"

definition client_case_45 :: "char \<Rightarrow> client_trans" where
  "client_case_45 c =
    (let v = schar c in
     if v = 33 then client_st 21 else if v = 58 then client_tr39 else if v = 82 then client_st 46
     else if v = 114 then client_st 46 else if v = 124 then client_st 21 else if v = 126 then client_st 21
     else if v < 45 then (if v > 39 then (if 42 \<le> v \<and> v \<le> 43 then client_st 21
     else client_st 0) else if v \<ge> 35 then client_st 21 else client_st 0)
     else if v > 46 then (if v < 65 then (if 48 \<le> v \<and> v \<le> 57 then client_st 21
     else client_st 0) else if v > 90 then (if 94 \<le> v \<and> v \<le> 122 then client_st 21
     else client_st 0) else client_st 21) else client_st 21)"

definition client_case_46 :: "char \<Rightarrow> client_trans" where
  "client_case_46 c =
    (let v = schar c in
     if v = 33 then client_st 21 else if v = 58 then client_tr39 else if v = 65 then client_st 47
     else if v = 97 then client_st 47 else if v = 124 then client_st 21 else if v = 126 then client_st 21
     else if v < 45 then (if v > 39 then (if 42 \<le> v \<and> v \<le> 43 then client_st 21
     else client_st 0) else if v \<ge> 35 then client_st 21 else client_st 0)
     else if v > 46 then (if v < 66 then (if 48 \<le> v \<and> v \<le> 57 then client_st 21
     else client_st 0) else if v > 90 then (if 94 \<le> v \<and> v \<le> 122 then client_st 21
     else client_st 0) else client_st 21) else client_st 21)"

definition client_case_47 :: "char \<Rightarrow> client_trans" where
  "client_case_47 c =
    (let v = schar c in
     if v = 33 then client_st 21 else if v = 58 then client_tr39 else if v = 78 then client_st 48
     else if v = 110 then client_st 48 else if v = 124 then client_st 21 else if v = 126 then client_st 21
     else if v < 45 then (if v > 39 then (if 42 \<le> v \<and> v \<le> 43 then client_st 21
     else client_st 0) else if v \<ge> 35 then client_st 21 else client_st 0)
     else if v > 46 then (if v < 65 then (if 48 \<le> v \<and> v \<le> 57 then client_st 21
     else client_st 0) else if v > 90 then (if 94 \<le> v \<and> v \<le> 122 then client_st 21
     else client_st 0) else client_st 21) else client_st 21)"

definition client_case_48 :: "char \<Rightarrow> client_trans" where
  "client_case_48 c =
    (let v = schar c in
     if v = 33 then client_st 21 else if v = 58 then client_tr39 else if v = 83 then client_st 49
     else if v = 115 then client_st 49 else if v = 124 then client_st 21 else if v = 126 then client_st 21
     else if v < 45 then (if v > 39 then (if 42 \<le> v \<and> v \<le> 43 then client_st 21
     else client_st 0) else if v \<ge> 35 then client_st 21 else client_st 0)
     else if v > 46 then (if v < 65 then (if 48 \<le> v \<and> v \<le> 57 then client_st 21
     else client_st 0) else if v > 90 then (if 94 \<le> v \<and> v \<le> 122 then client_st 21
     else client_st 0) else client_st 21) else client_st 21)"

definition client_case_49 :: "char \<Rightarrow> client_trans" where
  "client_case_49 c =
    (let v = schar c in
     if v = 33 then client_st 21 else if v = 58 then client_tr39 else if v = 70 then client_st 50
     else if v = 102 then client_st 50 else if v = 124 then client_st 21 else if v = 126 then client_st 21
     else if v < 45 then (if v > 39 then (if 42 \<le> v \<and> v \<le> 43 then client_st 21
     else client_st 0) else if v \<ge> 35 then client_st 21 else client_st 0)
     else if v > 46 then (if v < 65 then (if 48 \<le> v \<and> v \<le> 57 then client_st 21
     else client_st 0) else if v > 90 then (if 94 \<le> v \<and> v \<le> 122 then client_st 21
     else client_st 0) else client_st 21) else client_st 21)"

definition client_case_50 :: "char \<Rightarrow> client_trans" where
  "client_case_50 c =
    (let v = schar c in
     if v = 33 then client_st 21 else if v = 58 then client_tr39 else if v = 69 then client_st 51
     else if v = 101 then client_st 51 else if v = 124 then client_st 21 else if v = 126 then client_st 21
     else if v < 45 then (if v > 39 then (if 42 \<le> v \<and> v \<le> 43 then client_st 21
     else client_st 0) else if v \<ge> 35 then client_st 21 else client_st 0)
     else if v > 46 then (if v < 65 then (if 48 \<le> v \<and> v \<le> 57 then client_st 21
     else client_st 0) else if v > 90 then (if 94 \<le> v \<and> v \<le> 122 then client_st 21
     else client_st 0) else client_st 21) else client_st 21)"

definition client_case_51 :: "char \<Rightarrow> client_trans" where
  "client_case_51 c =
    (let v = schar c in
     if v = 33 then client_st 21 else if v = 58 then client_tr39 else if v = 82 then client_st 52
     else if v = 114 then client_st 52 else if v = 124 then client_st 21 else if v = 126 then client_st 21
     else if v < 45 then (if v > 39 then (if 42 \<le> v \<and> v \<le> 43 then client_st 21
     else client_st 0) else if v \<ge> 35 then client_st 21 else client_st 0)
     else if v > 46 then (if v < 65 then (if 48 \<le> v \<and> v \<le> 57 then client_st 21
     else client_st 0) else if v > 90 then (if 94 \<le> v \<and> v \<le> 122 then client_st 21
     else client_st 0) else client_st 21) else client_st 21)"

definition client_case_52 :: "char \<Rightarrow> client_trans" where
  "client_case_52 c =
    (let v = schar c in
     if v = 33 then client_st 21 else if v = 45 then client_st 53 else if v = 46 then client_st 21
     else if v = 58 then client_tr39 else if v = 124 then client_st 21 else if v = 126 then client_st 21
     else if v < 48 then (if v > 39 then (if 42 \<le> v \<and> v \<le> 43 then client_st 21
     else client_st 0) else if v \<ge> 35 then client_st 21 else client_st 0)
     else if v > 57 then (if v > 90 then (if 94 \<le> v \<and> v \<le> 122 then client_st 21
     else client_st 0) else if v \<ge> 65 then client_st 21 else client_st 0) else client_st 21)"

definition client_case_53 :: "char \<Rightarrow> client_trans" where
  "client_case_53 c =
    (let v = schar c in
     if v = 33 then client_st 21 else if v = 58 then client_tr39 else if v = 69 then client_st 54
     else if v = 101 then client_st 54 else if v = 124 then client_st 21 else if v = 126 then client_st 21
     else if v < 45 then (if v > 39 then (if 42 \<le> v \<and> v \<le> 43 then client_st 21
     else client_st 0) else if v \<ge> 35 then client_st 21 else client_st 0)
     else if v > 46 then (if v < 65 then (if 48 \<le> v \<and> v \<le> 57 then client_st 21
     else client_st 0) else if v > 90 then (if 94 \<le> v \<and> v \<le> 122 then client_st 21
     else client_st 0) else client_st 21) else client_st 21)"

definition client_case_54 :: "char \<Rightarrow> client_trans" where
  "client_case_54 c =
    (let v = schar c in
     if v = 33 then client_st 21 else if v = 58 then client_tr39 else if v = 78 then client_st 55
     else if v = 110 then client_st 55 else if v = 124 then client_st 21 else if v = 126 then client_st 21
     else if v < 45 then (if v > 39 then (if 42 \<le> v \<and> v \<le> 43 then client_st 21
     else client_st 0) else if v \<ge> 35 then client_st 21 else client_st 0)
     else if v > 46 then (if v < 65 then (if 48 \<le> v \<and> v \<le> 57 then client_st 21
     else client_st 0) else if v > 90 then (if 94 \<le> v \<and> v \<le> 122 then client_st 21
     else client_st 0) else client_st 21) else client_st 21)"

definition client_case_55 :: "char \<Rightarrow> client_trans" where
  "client_case_55 c =
    (let v = schar c in
     if v = 33 then client_st 21 else if v = 58 then client_tr39 else if v = 67 then client_st 56
     else if v = 99 then client_st 56 else if v = 124 then client_st 21 else if v = 126 then client_st 21
     else if v < 45 then (if v > 39 then (if 42 \<le> v \<and> v \<le> 43 then client_st 21
     else client_st 0) else if v \<ge> 35 then client_st 21 else client_st 0)
     else if v > 46 then (if v < 65 then (if 48 \<le> v \<and> v \<le> 57 then client_st 21
     else client_st 0) else if v > 90 then (if 94 \<le> v \<and> v \<le> 122 then client_st 21
     else client_st 0) else client_st 21) else client_st 21)"

definition client_case_56 :: "char \<Rightarrow> client_trans" where
  "client_case_56 c =
    (let v = schar c in
     if v = 33 then client_st 21 else if v = 58 then client_tr39 else if v = 79 then client_st 57
     else if v = 111 then client_st 57 else if v = 124 then client_st 21 else if v = 126 then client_st 21
     else if v < 45 then (if v > 39 then (if 42 \<le> v \<and> v \<le> 43 then client_st 21
     else client_st 0) else if v \<ge> 35 then client_st 21 else client_st 0)
     else if v > 46 then (if v < 65 then (if 48 \<le> v \<and> v \<le> 57 then client_st 21
     else client_st 0) else if v > 90 then (if 94 \<le> v \<and> v \<le> 122 then client_st 21
     else client_st 0) else client_st 21) else client_st 21)"

definition client_case_57 :: "char \<Rightarrow> client_trans" where
  "client_case_57 c =
    (let v = schar c in
     if v = 33 then client_st 21 else if v = 58 then client_tr39 else if v = 68 then client_st 58
     else if v = 100 then client_st 58 else if v = 124 then client_st 21 else if v = 126 then client_st 21
     else if v < 45 then (if v > 39 then (if 42 \<le> v \<and> v \<le> 43 then client_st 21
     else client_st 0) else if v \<ge> 35 then client_st 21 else client_st 0)
     else if v > 46 then (if v < 65 then (if 48 \<le> v \<and> v \<le> 57 then client_st 21
     else client_st 0) else if v > 90 then (if 94 \<le> v \<and> v \<le> 122 then client_st 21
     else client_st 0) else client_st 21) else client_st 21)"

definition client_case_58 :: "char \<Rightarrow> client_trans" where
  "client_case_58 c =
    (let v = schar c in
     if v = 33 then client_st 21 else if v = 58 then client_tr39 else if v = 73 then client_st 59
     else if v = 105 then client_st 59 else if v = 124 then client_st 21 else if v = 126 then client_st 21
     else if v < 45 then (if v > 39 then (if 42 \<le> v \<and> v \<le> 43 then client_st 21
     else client_st 0) else if v \<ge> 35 then client_st 21 else client_st 0)
     else if v > 46 then (if v < 65 then (if 48 \<le> v \<and> v \<le> 57 then client_st 21
     else client_st 0) else if v > 90 then (if 94 \<le> v \<and> v \<le> 122 then client_st 21
     else client_st 0) else client_st 21) else client_st 21)"

definition client_case_59 :: "char \<Rightarrow> client_trans" where
  "client_case_59 c =
    (let v = schar c in
     if v = 33 then client_st 21 else if v = 58 then client_tr39 else if v = 78 then client_st 60
     else if v = 110 then client_st 60 else if v = 124 then client_st 21 else if v = 126 then client_st 21
     else if v < 45 then (if v > 39 then (if 42 \<le> v \<and> v \<le> 43 then client_st 21
     else client_st 0) else if v \<ge> 35 then client_st 21 else client_st 0)
     else if v > 46 then (if v < 65 then (if 48 \<le> v \<and> v \<le> 57 then client_st 21
     else client_st 0) else if v > 90 then (if 94 \<le> v \<and> v \<le> 122 then client_st 21
     else client_st 0) else client_st 21) else client_st 21)"

definition client_case_60 :: "char \<Rightarrow> client_trans" where
  "client_case_60 c =
    (let v = schar c in
     if v = 33 then client_st 21 else if v = 58 then client_tr39 else if v = 71 then client_st 61
     else if v = 103 then client_st 61 else if v = 124 then client_st 21 else if v = 126 then client_st 21
     else if v < 45 then (if v > 39 then (if 42 \<le> v \<and> v \<le> 43 then client_st 21
     else client_st 0) else if v \<ge> 35 then client_st 21 else client_st 0)
     else if v > 46 then (if v < 65 then (if 48 \<le> v \<and> v \<le> 57 then client_st 21
     else client_st 0) else if v > 90 then (if 94 \<le> v \<and> v \<le> 122 then client_st 21
     else client_st 0) else client_st 21) else client_st 21)"

definition client_case_61 :: "char \<Rightarrow> client_trans" where
  "client_case_61 c =
    (let v = schar c in
     if v = 33 then client_st 21 else if v = 58 then client_tr91 else if v = 124 then client_st 21
     else if v = 126 then client_st 21
     else if v < 45 then (if v > 39 then (if 42 \<le> v \<and> v \<le> 43 then client_st 21
     else client_st 0) else if v \<ge> 35 then client_st 21 else client_st 0)
     else if v > 46 then (if v < 65 then (if 48 \<le> v \<and> v \<le> 57 then client_st 21
     else client_st 0) else if v > 90 then (if 94 \<le> v \<and> v \<le> 122 then client_st 21
     else client_st 0) else client_st 21) else client_st 21)"

definition client_case_62 :: "char \<Rightarrow> client_trans" where
  "client_case_62 c =
    (let v = schar c in
     if v = 10 then client_tr93 else if v = 13 then client_tr94 else if v = 32 then client_tr92
     else if v = 67 then client_tr95 else if v = 99 then client_tr95
     else if 9 \<le> v \<and> v \<le> 12 then client_tr92 else client_tr40)"

definition client_case_63 :: "char \<Rightarrow> client_trans" where
  "client_case_63 c =
    (let v = schar c in
     if v = 10 then client_tr97 else if v = 13 then client_st 73 else if v = 32 then client_st 64
     else if v = 33 then client_tr35 else if v = 67 then client_tr99 else if v = 84 then client_tr37
     else if v = 99 then client_tr99 else if v = 116 then client_tr37 else if v = 124 then client_tr35
     else if v = 126 then client_tr35
     else if v < 45 then (if v < 35 then (if 9 \<le> v \<and> v \<le> 12 then client_st 64 else client_st 0)
     else if v > 39 then (if 42 \<le> v \<and> v \<le> 43 then client_tr35 else client_st 0)
     else client_tr35) else if v > 46 then (if v < 65 then (if 48 \<le> v \<and> v \<le> 57 then client_tr35
     else client_st 0) else if v > 90 then (if 94 \<le> v \<and> v \<le> 122 then client_tr35
     else client_st 0) else client_tr35) else client_tr35)"

definition client_case_64 :: "char \<Rightarrow> client_trans" where
  "client_case_64 c =
    (let v = schar c in
     if v = 32 then client_st 64 else if v = 67 then client_tr100 else if v = 99 then client_tr100
     else if 9 \<le> v \<and> v \<le> 13 then client_st 64 else client_st 0)"

definition client_case_65 :: "char \<Rightarrow> client_trans" where
  "client_case_65 c =
    (let v = schar c in
     if v = 72 then client_st 66 else if v = 104 then client_st 66 else client_st 0)"

definition client_case_66 :: "char \<Rightarrow> client_trans" where
  "client_case_66 c =
    (let v = schar c in
     if v = 85 then client_st 67 else if v = 117 then client_st 67 else client_st 0)"

definition client_case_67 :: "char \<Rightarrow> client_trans" where
  "client_case_67 c =
    (let v = schar c in
     if v = 78 then client_st 68 else if v = 110 then client_st 68 else client_st 0)"

definition client_case_68 :: "char \<Rightarrow> client_trans" where
  "client_case_68 c =
    (let v = schar c in
     if v = 75 then client_st 69 else if v = 107 then client_st 69 else client_st 0)"

definition client_case_69 :: "char \<Rightarrow> client_trans" where
  "client_case_69 c =
    (let v = schar c in
     if v = 69 then client_st 70 else if v = 101 then client_st 70 else client_st 0)"

definition client_case_70 :: "char \<Rightarrow> client_trans" where
  "client_case_70 c =
    (let v = schar c in
     if v = 68 then client_st 71 else if v = 100 then client_st 71 else client_st 0)"

definition client_case_71 :: "char \<Rightarrow> client_trans" where
  "client_case_71 c =
    (let v = schar c in
     if v = 10 then client_tr107 else if v = 13 then client_tr108 else client_st 0)"

definition client_case_72 :: "char \<Rightarrow> client_trans" where
  "client_case_72 c =
    (let v = schar c in
     if v = 10 then client_tr109 else client_st 0)"

definition client_case_73 :: "char \<Rightarrow> client_trans" where
  "client_case_73 c =
    (let v = schar c in
     if v = 10 then client_tr97 else if v = 32 then client_st 64 else if v = 67 then client_tr100
     else if v = 99 then client_tr100 else if 9 \<le> v \<and> v \<le> 13 then client_st 64 else client_st 0)"

definition client_case_74 :: "char \<Rightarrow> client_trans" where
  "client_case_74 c =
    (let v = schar c in
     if v = 33 then client_st 21 else if v = 58 then client_tr39 else if v = 72 then client_st 75
     else if v = 79 then client_st 26 else if v = 104 then client_st 75 else if v = 111 then client_st 26
     else if v = 124 then client_st 21 else if v = 126 then client_st 21
     else if v < 45 then (if v > 39 then (if 42 \<le> v \<and> v \<le> 43 then client_st 21
     else client_st 0) else if v \<ge> 35 then client_st 21 else client_st 0)
     else if v > 46 then (if v < 65 then (if 48 \<le> v \<and> v \<le> 57 then client_st 21
     else client_st 0) else if v > 90 then (if 94 \<le> v \<and> v \<le> 122 then client_st 21
     else client_st 0) else client_st 21) else client_st 21)"

definition client_case_75 :: "char \<Rightarrow> client_trans" where
  "client_case_75 c =
    (let v = schar c in
     if v = 33 then client_st 21 else if v = 58 then client_tr39 else if v = 85 then client_st 76
     else if v = 117 then client_st 76 else if v = 124 then client_st 21 else if v = 126 then client_st 21
     else if v < 45 then (if v > 39 then (if 42 \<le> v \<and> v \<le> 43 then client_st 21
     else client_st 0) else if v \<ge> 35 then client_st 21 else client_st 0)
     else if v > 46 then (if v < 65 then (if 48 \<le> v \<and> v \<le> 57 then client_st 21
     else client_st 0) else if v > 90 then (if 94 \<le> v \<and> v \<le> 122 then client_st 21
     else client_st 0) else client_st 21) else client_st 21)"

definition client_case_76 :: "char \<Rightarrow> client_trans" where
  "client_case_76 c =
    (let v = schar c in
     if v = 33 then client_st 21 else if v = 58 then client_tr39 else if v = 78 then client_st 77
     else if v = 110 then client_st 77 else if v = 124 then client_st 21 else if v = 126 then client_st 21
     else if v < 45 then (if v > 39 then (if 42 \<le> v \<and> v \<le> 43 then client_st 21
     else client_st 0) else if v \<ge> 35 then client_st 21 else client_st 0)
     else if v > 46 then (if v < 65 then (if 48 \<le> v \<and> v \<le> 57 then client_st 21
     else client_st 0) else if v > 90 then (if 94 \<le> v \<and> v \<le> 122 then client_st 21
     else client_st 0) else client_st 21) else client_st 21)"

definition client_case_77 :: "char \<Rightarrow> client_trans" where
  "client_case_77 c =
    (let v = schar c in
     if v = 33 then client_st 21 else if v = 58 then client_tr39 else if v = 75 then client_st 78
     else if v = 107 then client_st 78 else if v = 124 then client_st 21 else if v = 126 then client_st 21
     else if v < 45 then (if v > 39 then (if 42 \<le> v \<and> v \<le> 43 then client_st 21
     else client_st 0) else if v \<ge> 35 then client_st 21 else client_st 0)
     else if v > 46 then (if v < 65 then (if 48 \<le> v \<and> v \<le> 57 then client_st 21
     else client_st 0) else if v > 90 then (if 94 \<le> v \<and> v \<le> 122 then client_st 21
     else client_st 0) else client_st 21) else client_st 21)"

definition client_case_78 :: "char \<Rightarrow> client_trans" where
  "client_case_78 c =
    (let v = schar c in
     if v = 33 then client_st 21 else if v = 58 then client_tr39 else if v = 69 then client_st 79
     else if v = 101 then client_st 79 else if v = 124 then client_st 21 else if v = 126 then client_st 21
     else if v < 45 then (if v > 39 then (if 42 \<le> v \<and> v \<le> 43 then client_st 21
     else client_st 0) else if v \<ge> 35 then client_st 21 else client_st 0)
     else if v > 46 then (if v < 65 then (if 48 \<le> v \<and> v \<le> 57 then client_st 21
     else client_st 0) else if v > 90 then (if 94 \<le> v \<and> v \<le> 122 then client_st 21
     else client_st 0) else client_st 21) else client_st 21)"

definition client_case_79 :: "char \<Rightarrow> client_trans" where
  "client_case_79 c =
    (let v = schar c in
     if v = 33 then client_st 21 else if v = 58 then client_tr39 else if v = 68 then client_st 80
     else if v = 100 then client_st 80 else if v = 124 then client_st 21 else if v = 126 then client_st 21
     else if v < 45 then (if v > 39 then (if 42 \<le> v \<and> v \<le> 43 then client_st 21
     else client_st 0) else if v \<ge> 35 then client_st 21 else client_st 0)
     else if v > 46 then (if v < 65 then (if 48 \<le> v \<and> v \<le> 57 then client_st 21
     else client_st 0) else if v > 90 then (if 94 \<le> v \<and> v \<le> 122 then client_st 21
     else client_st 0) else client_st 21) else client_st 21)"

definition client_case_80 :: "char \<Rightarrow> client_trans" where
  "client_case_80 c =
    (let v = schar c in
     if v = 10 then client_tr107 else if v = 13 then client_tr108 else if v = 33 then client_st 21
     else if v = 58 then client_tr39 else if v = 124 then client_st 21 else if v = 126 then client_st 21
     else if v < 45 then (if v > 39 then (if 42 \<le> v \<and> v \<le> 43 then client_st 21
     else client_st 0) else if v \<ge> 35 then client_st 21 else client_st 0)
     else if v > 46 then (if v < 65 then (if 48 \<le> v \<and> v \<le> 57 then client_st 21
     else client_st 0) else if v > 90 then (if 94 \<le> v \<and> v \<le> 122 then client_st 21
     else client_st 0) else client_st 21) else client_st 21)"

definition client_case_81 :: "char \<Rightarrow> client_trans" where
  "client_case_81 c =
    (let v = schar c in
     if v = 10 then client_st 63 else if v = 32 then client_st 64 else if v = 67 then client_tr100
     else if v = 99 then client_tr100 else if 9 \<le> v \<and> v \<le> 13 then client_st 64 else client_st 0)"

definition client_case_82 :: "char \<Rightarrow> client_trans" where
  "client_case_82 c =
    (let v = schar c in
     if v = 10 then client_tr45 else if v = 13 then client_tr46 else if v = 72 then client_st 83
     else if v = 104 then client_st 83 else client_st 23)"

definition client_case_83 :: "char \<Rightarrow> client_trans" where
  "client_case_83 c =
    (let v = schar c in
     if v = 10 then client_tr45 else if v = 13 then client_tr46 else if v = 85 then client_st 84
     else if v = 117 then client_st 84 else client_st 23)"

definition client_case_84 :: "char \<Rightarrow> client_trans" where
  "client_case_84 c =
    (let v = schar c in
     if v = 10 then client_tr45 else if v = 13 then client_tr46 else if v = 78 then client_st 85
     else if v = 110 then client_st 85 else client_st 23)"

definition client_case_85 :: "char \<Rightarrow> client_trans" where
  "client_case_85 c =
    (let v = schar c in
     if v = 10 then client_tr45 else if v = 13 then client_tr46 else if v = 75 then client_st 86
     else if v = 107 then client_st 86 else client_st 23)"

definition client_case_86 :: "char \<Rightarrow> client_trans" where
  "client_case_86 c =
    (let v = schar c in
     if v = 10 then client_tr45 else if v = 13 then client_tr46 else if v = 69 then client_st 87
     else if v = 101 then client_st 87 else client_st 23)"

definition client_case_87 :: "char \<Rightarrow> client_trans" where
  "client_case_87 c =
    (let v = schar c in
     if v = 10 then client_tr45 else if v = 13 then client_tr46 else if v = 68 then client_st 88
     else if v = 100 then client_st 88 else client_st 23)"

definition client_case_88 :: "char \<Rightarrow> client_trans" where
  "client_case_88 c =
    (let v = schar c in
     if v = 10 then client_tr107 else if v = 13 then client_tr108 else client_st 23)"

definition client_case_89 :: "char \<Rightarrow> client_trans" where
  "client_case_89 c =
    (let v = schar c in
     if v = 10 then client_st 40 else if v = 32 then client_st 41
     else if v > 13 then (if 48 \<le> v \<and> v \<le> 57 then client_tr70 else client_st 0)
     else if v \<ge> 9 then client_st 41 else client_st 0)"

definition client_case_90 :: "char \<Rightarrow> client_trans" where
  "client_case_90 c =
    (let v = schar c in
     if v = 10 then client_tr124 else if v = 13 then client_tr125
     else if 48 \<le> v \<and> v \<le> 57 then client_st 90 else client_st 23)"

definition client_case_91 :: "char \<Rightarrow> client_trans" where
  "client_case_91 c =
     client_st 0"

definition client_case_92 :: "char \<Rightarrow> client_trans" where
  "client_case_92 c =
    (let v = schar c in
     if v = 32 then client_st 41 else if v > 13 then (if 48 \<le> v \<and> v \<le> 57 then client_tr70
     else client_st 0) else if v \<ge> 9 then client_st 41 else client_st 0)"

definition client_case_93 :: "char \<Rightarrow> client_trans" where
  "client_case_93 c =
    (let v = schar c in
     if v = 32 then client_st 64 else if v = 67 then client_tr100 else if v = 99 then client_tr100
     else if 9 \<le> v \<and> v \<le> 13 then client_st 64 else client_st 0)"

text \<open>The \<^verbatim>\<open>switch\<close> on the state.\<close>

definition client_cases :: "(char \<Rightarrow> client_trans) list" where
  "client_cases =
    [client_case_1, client_case_2, client_case_3, client_case_4, client_case_5, client_case_6,
     client_case_7, client_case_8, client_case_9, client_case_10, client_case_11, client_case_12,
     client_case_13, client_case_14, client_case_15, client_case_16, client_case_17, client_case_18,
     client_case_19, client_case_20, client_case_21, client_case_22, client_case_23, client_case_24,
     client_case_25, client_case_26, client_case_27, client_case_28, client_case_29, client_case_30,
     client_case_31, client_case_32, client_case_33, client_case_34, client_case_35, client_case_36,
     client_case_37, client_case_38, client_case_39, client_case_40, client_case_41, client_case_42,
     client_case_43, client_case_44, client_case_45, client_case_46, client_case_47, client_case_48,
     client_case_49, client_case_50, client_case_51, client_case_52, client_case_53, client_case_54,
     client_case_55, client_case_56, client_case_57, client_case_58, client_case_59, client_case_60,
     client_case_61, client_case_62, client_case_63, client_case_64, client_case_65, client_case_66,
     client_case_67, client_case_68, client_case_69, client_case_70, client_case_71, client_case_72,
     client_case_73, client_case_74, client_case_75, client_case_76, client_case_77, client_case_78,
     client_case_79, client_case_80, client_case_81, client_case_82, client_case_83, client_case_84,
     client_case_85, client_case_86, client_case_87, client_case_88, client_case_89, client_case_90,
     client_case_91, client_case_92, client_case_93]"

definition client_jump :: "nat \<Rightarrow> char \<Rightarrow> client_trans" where
  "client_jump cs = (if 1 \<le> cs \<and> cs \<le> 93 then client_cases ! (cs - 1) else (\<lambda>_. client_st 0))"

section \<open>Running\<close>

record client11_state =
  ct_cs :: nat
  ct_nread :: nat
  ct_mark :: nat
  ct_field_start :: nat
  ct_field_len :: nat

type_synonym client11 = "client11_state httpclient_parser"

text \<open>The callbacks; \<open>cb\<close> says whether they are registered.  The proxy registers none.\<close>

datatype client_call =
    Cl_on_field string string | Cl_on_reason string | Cl_on_status string | Cl_on_version string | Cl_on_chunk string
  | Cl_on_last_chunk string | Cl_on_header_done

type_synonym client_run_state = "client11 \<times> client_call list"

definition client_len :: "nat \<Rightarrow> nat \<Rightarrow> nat" where
  "client_len at p = nat ((int p - int at) mod 2 ^ 64)"

definition client_piece :: "string \<Rightarrow> nat \<Rightarrow> nat \<Rightarrow> string cres" where
  "client_piece b at n = (if at + n \<le> length b then Inr (take n (drop at b)) else Inl Out_of_bounds)"

definition client_call ::
    "bool \<Rightarrow> (string \<Rightarrow> client_call) \<Rightarrow> nat \<Rightarrow> string \<Rightarrow> nat \<Rightarrow> client_run_state \<Rightarrow> client_run_state cres" where
  "client_call cb f at b p = (\<lambda>(h, calls).
     if cb then cbind (client_piece b at (client_len at p)) (\<lambda>s. Inr (h, calls @ [f s])) else Inr (h, calls))"

text \<open>
  \<^verbatim>\<open>strtol(PTR_TO(mark), NULL, 16)\<close> and \<^verbatim>\<open>10\<close>.  A chunk size is marked at a hexadecimal digit and followed by
  something that is none, so blanks, a sign and the prefix \<^verbatim>\<open>0x\<close> do not occur in base 16.
\<close>

definition xdigit_val :: "char \<Rightarrow> int" where
  "xdigit_val c = (if isdigit c then of_char c - 48 else if islower c then of_char c - 87 else of_char c - 55)"

definition xdigits_val :: "string \<Rightarrow> int" where
  "xdigits_val s = foldl (\<lambda>acc c. 16 * acc + xdigit_val c) 0 (takeWhile isxdigit s)"

definition strtol16_at :: "string \<Rightarrow> nat \<Rightarrow> int cres" where
  "strtol16_at b at = (if at \<le> length b then Inr (min (2 ^ 63 - 1) (xdigits_val (drop at b))) else Inl Out_of_bounds)"

definition strtol10_at :: "string \<Rightarrow> nat \<Rightarrow> int cres" where
  "strtol10_at b at = (if at \<le> length b then Inr (strtol_val (drop at b)) else Inl Out_of_bounds)"

fun client_act :: "bool \<Rightarrow> client_action \<Rightarrow> string \<Rightarrow> nat \<Rightarrow> client_run_state \<Rightarrow> client_run_state cres" where
  "client_act cb Cl_mark b p (h, calls) = Inr (h\<lparr>cl_machine := (cl_machine h)\<lparr>ct_mark := p\<rparr>\<rparr>, calls)"
| "client_act cb Cl_start_field b p (h, calls) = Inr (h\<lparr>cl_machine := (cl_machine h)\<lparr>ct_field_start := p\<rparr>\<rparr>, calls)"
| "client_act cb Cl_write_field b p (h, calls) =
     Inr (h\<lparr>cl_machine := (cl_machine h)\<lparr>ct_field_len := client_len (ct_field_start (cl_machine h)) p\<rparr>\<rparr>, calls)"
| "client_act cb Cl_write_value b p (h, calls) =
     (if cb then cbind (client_piece b (ct_field_start (cl_machine h)) (ct_field_len (cl_machine h))) (\<lambda>f.
        client_call cb (Cl_on_field f) (ct_mark (cl_machine h)) b p (h, calls))
      else Inr (h, calls))"
| "client_act cb Cl_content_length b p (h, calls) =
     cbind (strtol10_at b (ct_mark (cl_machine h))) (\<lambda>v. Inr (h\<lparr>cl_content_len := to_int32 v\<rparr>, calls))"
| "client_act cb Cl_reason_phrase b p (h, calls) = client_call cb Cl_on_reason (ct_mark (cl_machine h)) b p (h, calls)"
| "client_act cb Cl_status_code b p (h, calls) =
     cbind (strtol10_at b (ct_mark (cl_machine h))) (\<lambda>v.
       client_call cb Cl_on_status (ct_mark (cl_machine h)) b p (h\<lparr>cl_status := to_int32 v\<rparr>, calls))"
| "client_act cb Cl_http_version b p (h, calls) = client_call cb Cl_on_version (ct_mark (cl_machine h)) b p (h, calls)"
| "client_act cb Cl_chunk_size b p (h, calls) =
     cbind (strtol16_at b (ct_mark (cl_machine h))) (\<lambda>v.
       let n = to_int32 v; h = h\<lparr>cl_chunked := 1, cl_content_len := n, chunks_done := (if n \<le> 0 then 1 else 0)\<rparr> in
       client_call cb (if n \<le> 0 then Cl_on_last_chunk else Cl_on_chunk) (ct_mark (cl_machine h)) b p (h, calls))"
| "client_act cb Cl_trans_chunked b p (h, calls) = Inr (h\<lparr>cl_chunked := 1\<rparr>, calls)"
| "client_act cb Cl_done b p (h, calls) = Inr (h\<lparr>cl_body_start := int p + 1\<rparr>, if cb then calls @ [Cl_on_header_done] else calls)"

fun client_acts :: "bool \<Rightarrow> client_action list \<Rightarrow> string \<Rightarrow> nat \<Rightarrow> client_run_state \<Rightarrow> client_run_state cres" where
  "client_acts cb [] b p r = Inr r"
| "client_acts cb (a # as) b p r = cbind (client_act cb a b p r) (client_acts cb as b p)"

text \<open>The run over \<open>rest\<close>, what is left of \<open>b\<close> behind \<open>p\<close>.\<close>

fun client_run ::
    "bool \<Rightarrow> string \<Rightarrow> string \<Rightarrow> nat \<Rightarrow> nat \<Rightarrow> client_run_state \<Rightarrow> (nat \<times> nat \<times> client_run_state) cres" where
  "client_run cb b [] p cs r = Inr (cs, p, r)"
| "client_run cb b (c # rest) p cs r =
     (let (acts, tgt) = client_jump cs c in
      if tgt = 0 then Inr (0, p, r)
      else cbind (client_acts cb acts b p r) (\<lambda>r.
        if Cl_done \<in> set acts then Inr (tgt, Suc p, r) else client_run cb b rest (Suc p) tgt r))"

definition client11_init :: "client11 \<Rightarrow> client11" where
  "client11_init h =
     h\<lparr>cl_body_start := 0, cl_content_len := -1, cl_chunked := 0, chunks_done := 0,
       cl_machine := (cl_machine h)\<lparr>ct_cs := 1, ct_mark := 0, ct_nread := 0, ct_field_len := 0, ct_field_start := 0\<rparr>\<rparr>"

text \<open>
  A \<^verbatim>\<open>cs\<close> without a case, the error state 0 in particular, falls out of the \<^verbatim>\<open>switch\<close> into \<^verbatim>\<open>_test_eof2\<close>, which makes it 2.
\<close>

definition client_enter ::
    "bool \<Rightarrow> string \<Rightarrow> string \<Rightarrow> nat \<Rightarrow> nat \<Rightarrow> client_run_state \<Rightarrow> (nat \<times> nat \<times> client_run_state) cres" where
  "client_enter cb b rest p cs r =
     (if rest \<noteq> [] \<and> \<not> (1 \<le> cs \<and> cs \<le> 93) then Inr (2, p, r) else client_run cb b rest p cs r)"

text \<open>
  \<^verbatim>\<open>buffer\<close> is all of \<^verbatim>\<open>proxy_buf\<close>, of which \<open>len\<close> bytes are to be read from \<open>off\<close> on; the byte behind them is
  the terminator.
\<close>

definition client11_execute ::
    "bool \<Rightarrow> client11 \<Rightarrow> string \<Rightarrow> int \<Rightarrow> int \<Rightarrow> (client_call list \<times> int \<times> client11) cres" where
  "client11_execute cb h buffer len off =
     (if 0 \<le> len \<and> (off < 0 \<or> \<not> off \<le> len) then Inl Assert_fail
      else if len < 0 \<or> len \<ge> int (length buffer) then Inl Out_of_bounds
      else if buffer ! nat len \<noteq> NUL then Inl Assert_fail
      else
        (let b = take (nat len) buffer in
         cbind (client_enter cb b (drop (nat off) b) (nat off) (ct_cs (cl_machine h)) (h, [])) (\<lambda>(cs, p, h, calls).
           let h = h\<lparr>cl_machine := (cl_machine h)\<lparr>ct_cs := cs, ct_nread := ct_nread (cl_machine h) + (p - nat off)\<rparr>\<rparr>;
               m = cl_machine h in
           if \<not> (int (ct_nread m) \<le> len \<and> cl_body_start h \<le> len) then Inl Assert_fail
           else if int (ct_mark m) < len \<and> int (ct_field_len m) \<le> len \<and> int (ct_field_start m) < len
           then (let h = (if cl_body_start h \<noteq> 0 then h\<lparr>cl_machine := m\<lparr>ct_nread := ct_nread m + 1\<rparr>\<rparr> else h) in
                 Inr (calls, to_int32 (int (ct_nread (cl_machine h))), h))
           else Inr (calls, -1, h))))"

definition client11_has_error :: "client11 \<Rightarrow> bool" where
  "client11_has_error h \<longleftrightarrow> ct_cs (cl_machine h) = 0"

definition client11_is_finished :: "client11 \<Rightarrow> bool" where
  "client11_is_finished h \<longleftrightarrow> ct_cs (cl_machine h) = 91"

definition client11_finish :: "client11 \<Rightarrow> int" where
  "client11_finish h = (if client11_has_error h then -1 else if client11_is_finished h then 1 else 0)"

text \<open>The parser as the proxy uses it.\<close>

definition client11_ops :: "client11_state client_ops" where
  "client11_ops = \<lparr>httpclient_parser_init = client11_init,
     httpclient_parser_execute = (\<lambda>h b len off. case client11_execute False h b len off of Inr (_, n, h') \<Rightarrow> (n, h') | Inl _ \<Rightarrow> (-1, h)),
     httpclient_parser_has_error = client11_has_error, httpclient_parser_finish = client11_finish\<rparr>"

end
