(* ===== verification/Client11_Props.thy ===== *)
theory Client11_Props
  imports Client11
begin

text \<open>
  The generated client parser under the proxy: its runs are free of faults, it reads chunk headers as they are
  written, and a chunked response is streamed whole.
\<close>

section \<open>Runs without callbacks\<close>

definition client_within :: "nat \<Rightarrow> client11 \<Rightarrow> bool" where
  "client_within p h \<longleftrightarrow> ct_mark (cl_machine h) \<le> p \<and> 0 \<le> cl_body_start h \<and> cl_body_start h \<le> int p + 1"

definition client_same :: "client11 \<Rightarrow> client11 \<Rightarrow> bool" where
  "client_same h h' \<longleftrightarrow> ct_nread (cl_machine h') = ct_nread (cl_machine h)"

lemma client_act_ok:
  assumes "client_within p h" "p \<le> length b"
  shows "\<exists>h'. client_act False a b p (h, calls) = Inr (h', calls) \<and> client_within p h' \<and> client_same h h'"
  using assms by (cases a) (auto simp: client_within_def client_same_def client_call_def strtol10_at_def strtol16_at_def Let_def)

lemma client_acts_ok:
  assumes "client_within p h" "p \<le> length b"
  shows "\<exists>h'. client_acts False acts b p (h, calls) = Inr (h', calls) \<and> client_within p h' \<and> client_same h h'"
  using assms
proof (induction acts arbitrary: h)
  case (Cons a acts)
  from client_act_ok [OF Cons.prems, of a calls] obtain h1 where
    h1: "client_act False a b p (h, calls) = Inr (h1, calls)" "client_within p h1" "client_same h h1" by blast
  from Cons.IH [OF h1(2) Cons.prems(2)] h1 show ?case by (auto simp: client_same_def)
qed (simp add: client_same_def)

text \<open>Between two characters.\<close>

definition client_ok :: "nat \<Rightarrow> client11 \<Rightarrow> bool" where
  "client_ok p h \<longleftrightarrow> ct_mark (cl_machine h) \<le> p - 1 \<and> 0 \<le> cl_body_start h \<and> cl_body_start h \<le> int p"

lemma client_run_ok:
  "client_ok p h \<Longrightarrow> p + length rest = length b \<Longrightarrow>
   \<exists>cs' p' h'. client_run False b rest p cs (h, calls) = Inr (cs', p', h', calls) \<and> p \<le> p' \<and> p' \<le> length b \<and>
     client_ok p' h' \<and> client_same h h'"
proof (induction rest arbitrary: p cs h)
  case (Cons c rest)
  obtain acts tgt where j: "client_jump cs c = (acts, tgt)" by fastforce
  have "client_within p h" "p \<le> length b" using Cons.prems by (auto simp: client_within_def client_ok_def)
  from client_acts_ok [OF this, of acts calls] obtain h1 where
    h1: "client_acts False acts b p (h, calls) = Inr (h1, calls)" "client_within p h1" "client_same h h1" by blast
  have ok: "client_ok (Suc p) h1" using h1(2) by (auto simp: client_within_def client_ok_def)
  show ?case
  proof (cases "tgt = 0 \<or> Cl_done \<in> set acts")
    case True
    then show ?thesis using j h1 ok Cons.prems by (auto simp: client_same_def)
  next
    case False
    have "\<exists>cs' p' h'. client_run False b rest (Suc p) tgt (h1, calls) = Inr (cs', p', h', calls) \<and> Suc p \<le> p' \<and> p' \<le> length b \<and>
        client_ok p' h' \<and> client_same h1 h'"
      using Cons.IH [OF ok] Cons.prems(2) by simp
    then show ?thesis using False j h1 by (auto simp: client_same_def)
  qed
qed (auto simp: client_same_def)

lemma client_init_ok: "client_ok p (client11_init h)"
  by (simp add: client_ok_def client11_init_def)

section \<open>Chunk headers\<close>

abbreviation CRLF :: string where "CRLF \<equiv> [CHR 0x0D, CHR 0x0A]"

lemma xdigit_schar: "isxdigit c \<Longrightarrow> 48 \<le> schar c \<and> schar c \<le> 57 \<or> 65 \<le> schar c \<and> schar c \<le> 70 \<or> 97 \<le> schar c \<and> schar c \<le> 102"
proof -
  assume x: "isxdigit c"
  have "(of_char c :: int) = int (code c)" by (metis of_nat_of_char)
  then show ?thesis using x by (auto simp: schar_def Let_def isxdigit_def isdigit_def)
qed

lemma client_jump_case: "client_jump 1 = client_case_1" "client_jump 2 = client_case_2" "client_jump 3 = client_case_3"
  by (simp_all add: client_jump_def client_cases_def)

lemma client_jump_hex:
  assumes "isxdigit c"
  shows "client_jump 1 c = client_tr0" "client_jump 2 c = client_st 2"
  using xdigit_schar [OF assms] unfolding client_jump_case client_case_1_def client_case_2_def Let_def
  by (elim disjE conjE; simp)+

lemma client_jump_line: "client_jump 2 CHR 0x0D = client_tr4" "client_jump 3 CHR 0x0A = client_tr7"
  by (simp_all add: client_jump_case client_case_2_def client_case_3_def schar_def)

lemma client_run_hex:
  "list_all isxdigit s \<Longrightarrow> client_run cb b (s @ rest) p 2 r = client_run cb b rest (p + length s) 2 r"
  by (induction s arbitrary: p) (auto simp: client_jump_hex client_st_def)

text \<open>The size a chunk header announces, and what the parser makes of it.\<close>

definition chunk_value :: "string \<Rightarrow> int" where
  "chunk_value h = to_int32 (min (2 ^ 63 - 1) (xdigits_val h))"

lemma takeWhile_hex: "list_all isxdigit s \<Longrightarrow> takeWhile isxdigit (s @ CHR 0x0D # rest) = s"
  by (induction s) (auto simp: isxdigit_def isdigit_def)

lemma execute_chunk:
  assumes "0 \<le> off" "off \<le> len" "len < int (length buffer)" "buffer ! nat len = NUL" "len < 2 ^ 31 - 1"
    and hex: "drop (nat off) (take (nat len) buffer) = s @ CRLF @ rest" "s \<noteq> []" "list_all isxdigit s"
  shows "\<exists>rc h'. client11_execute False (client11_init h) buffer len off = Inr ([], rc, h') \<and> rc \<noteq> -1 \<and> \<not> client11_has_error h' \<and>
    cl_chunked h' = 1 \<and> cl_content_len h' = chunk_value s \<and> cl_body_start h' = off + int (length s) + 2 \<and>
    chunks_done h' = (if chunk_value s \<le> 0 then 1 else 0)"
proof -
  let ?b = "take (nat len) buffer" and ?h = "client11_init h" and ?o = "nat off" and ?e = "off + int (length s) + 2"
  obtain c s' where s: "s = c # s'" "isxdigit c" "list_all isxdigit s'" using hex(2,3) by (cases s) auto
  have "int (length ?b) - off = int (length s) + 2 + int (length rest)"
    using arg_cong [OF hex(1), of length] assms(1-3) by simp
  then have e: "?e \<le> len" using assms(1-3) by simp
  have val: "strtol16_at ?b ?o = Inr (min (2 ^ 63 - 1) (xdigits_val s))"
    using nat_mono [OF assms(2)] assms(1-3) hex(1,3) takeWhile_hex [OF hex(3)]
    by (simp add: strtol16_at_def xdigits_val_def list_all_iff takeWhile_eq_all_conv [THEN iffD2])
  let ?h1 = "?h\<lparr>cl_machine := (cl_machine ?h)\<lparr>ct_mark := ?o\<rparr>\<rparr>"
  let ?h2 = "?h1\<lparr>cl_chunked := 1, cl_content_len := chunk_value s, chunks_done := (if chunk_value s \<le> 0 then 1 else 0)\<rparr>"
  have "client_run False ?b (s @ CRLF @ rest) ?o 1 (?h, []) =
      client_run False ?b (CRLF @ rest) (?o + length s) 2 (?h1, [])"
    using s by (simp add: client_jump_hex [unfolded One_nat_def] client_tr0_def client_run_hex)
  also have "\<dots> = Inr (91, Suc (Suc (?o + length s)), ?h2\<lparr>cl_body_start := int (?o + length s + 1) + 1\<rparr>, [])"
    using val by (simp add: client_jump_line client_tr4_def client_tr7_def Let_def client_call_def chunk_value_def)
  finally have run: "client_run False ?b (drop ?o ?b) ?o 1 (?h, []) =
      Inr (91, Suc (Suc (?o + length s)), ?h2\<lparr>cl_body_start := ?e\<rparr>, [])" using hex(1) assms(1) by simp
  have small: "to_int32 (3 + int (length s)) = 3 + int (length s)"
    using e assms(1,5) by (simp add: to_int32_def)
  have "ct_cs (cl_machine ?h) = 1" "ct_nread (cl_machine ?h) = 0" "ct_field_len (cl_machine ?h) = 0" "ct_field_start (cl_machine ?h) = 0"
    by (simp_all add: client11_init_def)
  then show ?thesis using run e assms(1-4) small
    by (auto simp: client11_execute_def client_enter_def Let_def client11_has_error_def)
qed

section \<open>Scanning chunks\<close>

text \<open>A chunk: the text of its size and its data.  The last chunk has no data.\<close>

type_synonym chunk = "string \<times> string"

definition print_chunk :: "chunk \<Rightarrow> string" where
  "print_chunk = (\<lambda>(s, d). s @ CRLF @ d @ CRLF)"

definition chunk_ok :: "chunk \<Rightarrow> bool" where
  "chunk_ok = (\<lambda>(s, d). s \<noteq> [] \<and> list_all isxdigit s \<and> xdigits_val s = int (length d) \<and> length d < 2 ^ 31 - 4)"

definition print_chunks :: "chunk list \<Rightarrow> string" where
  "print_chunks cks = concat (map print_chunk cks)"

text \<open>Chunks with data, up to the last of them or up to the last chunk of the response.\<close>

definition middle :: "chunk list \<Rightarrow> bool" where
  "middle cks \<longleftrightarrow> cks \<noteq> [] \<and> list_all chunk_ok cks \<and> list_all (\<lambda>(s, d). d \<noteq> []) cks"

definition closing :: "chunk list \<Rightarrow> bool" where
  "closing cks \<longleftrightarrow> cks \<noteq> [] \<and> list_all chunk_ok cks \<and> list_all (\<lambda>(s, d). d \<noteq> []) (butlast cks) \<and> snd (last cks) = []"

lemma chunk_value_ok: "chunk_ok (s, d) \<Longrightarrow> chunk_value s = int (length d)"
  by (simp add: chunk_ok_def chunk_value_def to_int32_def)

lemma print_chunk_length: "chunk_ok (s, d) \<Longrightarrow> int (length (print_chunk (s, d))) = int (length s) + 4 + int (length d)"
  by (simp add: print_chunk_def)

definition readable :: "string \<Rightarrow> int \<Rightarrow> bool" where
  "readable pb n \<longleftrightarrow> n < int (length pb) \<and> pb ! nat n = NUL \<and> n < 2 ^ 31 - 1"

lemma drop_own: "drop (length xs) (xs @ ys) = ys"
  by simp

lemma scan_chunks_tail:
  assumes "readable pb n" "0 \<le> off" "off \<le> n" "drop (nat off) (take (nat n) pb) = print_chunks cks @ tail" "middle cks \<or> closing cks"
    "length tail \<le> 1"
  shows "\<exists>cl'. scan_chunks client11_ops pb cl n off = Some (n - int (length tail), cl') \<and> chunks_done cl' = (if closing cks then 1 else 0)"
  using assms
proof (induction cks arbitrary: off cl)
  case (Cons ck cks)
  obtain s d where ck: "ck = (s, d)" by fastforce
  have ok: "chunk_ok (s, d)" using Cons.prems(5) ck by (auto simp: middle_def closing_def)
  note val = chunk_value_ok [OF ok]
  have whole: "drop (nat off) (take (nat n) pb) = s @ CRLF @ d @ CRLF @ print_chunks cks @ tail"
    using Cons.prems(4) ck by (simp add: print_chunks_def print_chunk_def)
  obtain rc cl1 where ex: "client11_execute False (client11_init cl) pb n off = Inr ([], rc, cl1)" "rc \<noteq> -1" "\<not> client11_has_error cl1"
      "cl_chunked cl1 = 1" "cl_content_len cl1 = int (length d)" "cl_body_start cl1 = off + int (length s) + 2"
      "chunks_done cl1 = (if int (length d) \<le> 0 then 1 else 0)"
    using execute_chunk [OF Cons.prems(2,3), of pb s "d @ CRLF @ print_chunks cks @ tail" cl] Cons.prems(1) whole ok val
    by (auto simp: readable_def chunk_ok_def)
  let ?fin = "off + int (length s) + 2 + int (length d) + 2"
  have "nat n \<le> length pb" using Cons.prems(1) by (simp add: readable_def nat_le_iff)
  then have "int (length (take (nat n) pb)) = n" using Cons.prems(2,3) by simp
  then have total: "n = ?fin + int (length (print_chunks cks)) + int (length tail)"
    using arg_cong [OF whole, of length] Cons.prems(2,3) by simp
  show ?case
  proof (cases cks)
    case Nil
    then have fin: "?fin = n - int (length tail)" using total by (simp add: print_chunks_def)
    have "closing (ck # cks) \<longleftrightarrow> d = []" using Nil ck ok by (simp add: closing_def)
    with fin show ?thesis using ex Cons.prems(5,6)
      by (subst scan_chunks.simps) (simp add: client11_ops_def Let_def)
  next
    case (Cons ck' rest)
    have d: "d \<noteq> []" and next_ok: "middle cks \<or> closing cks" "closing (ck # cks) = closing cks"
      using Cons.prems(5) ck Cons by (auto simp: middle_def closing_def split: if_splits)
    obtain s' d' where "ck' = (s', d')" "chunk_ok (s', d')" using next_ok(1) Cons by (cases ck') (auto simp: middle_def closing_def)
    then have "4 \<le> int (length (print_chunks cks))"
      using Cons print_chunk_length [of s' d'] by (simp add: print_chunks_def)
    then have less: "?fin < n - 1" using total by linarith
    have step: "scan_chunks client11_ops pb cl n off = scan_chunks client11_ops pb cl1 n ?fin"
      using ex less d by (subst scan_chunks.simps) (simp add: client11_ops_def Let_def)
    have "nat ?fin = length (s @ CRLF @ d @ CRLF) + nat off" using Cons.prems(2) by simp
    then have "drop (nat ?fin) (take (nat n) pb) = drop (length (s @ CRLF @ d @ CRLF)) (drop (nat off) (take (nat n) pb))"
      by (simp only: drop_drop)
    also have "\<dots> = print_chunks cks @ tail" using drop_own [of "s @ CRLF @ d @ CRLF"] unfolding whole append_assoc by blast
    finally have rest: "drop (nat ?fin) (take (nat n) pb) = print_chunks cks @ tail" .
    show ?thesis unfolding step next_ok(2) using Cons.IH [OF Cons.prems(1) _ _ rest next_ok(1) Cons.prems(6)] Cons.prems(2) less by simp
  qed
qed (simp add: middle_def closing_def)

lemmas scan_chunks_whole = scan_chunks_tail [where tail = "[]", simplified]

section \<open>Streaming chunks\<close>

text \<open>A chunked body in packets of whole chunks; the last packet ends with the last chunk.\<close>

fun packets_ok :: "chunk list list \<Rightarrow> bool" where
  "packets_ok [] \<longleftrightarrow> False"
| "packets_ok [cks] \<longleftrightarrow> closing cks"
| "packets_ok (cks # css) \<longleftrightarrow> middle cks \<and> packets_ok css"

lemma closing_not_middle: "closing cks \<Longrightarrow> \<not> middle cks"
  using last_in_set [of cks] by (auto simp: closing_def middle_def list_all_iff case_prod_beta)

lemma packets_ok_hd: "packets_ok (cks # css) \<Longrightarrow> (if css = [] then closing cks else middle cks \<and> packets_ok css)"
  by (cases css) auto

lemma stream_available:
  assumes "open_client c" "proxy_buf c = Some pb" "0 \<le> n" "n \<le> int (length pb)"
  shows "Proxy_stream_response E c n n =
    Some (Inr (n, c\<lparr>sock := (sock c)\<lparr>outbox := outbox (sock c) @ take (nat n) pb, accepts := []\<rparr>\<rparr>))"
  using assms send_proxy_buf_open [OF assms(1,2,4)]
  by (simp add: Proxy_stream_response_def stream_loop.simps)

text \<open>Reading a packet that fits.\<close>

lemma read_packet:
  assumes "proxy_buf c = Some pb" "int (length pb) = BUFFER_SIZE (lims E) + 1" "inbox (backend_sock c) = s # ss"
    "s \<noteq> []" "int (length s) \<le> BUFFER_SIZE (lims E)"
  shows "\<exists>pb'. proxy_read_some E c 0 =
      Inr (int (length s), c\<lparr>backend_sock := (backend_sock c)\<lparr>inbox := ss\<rparr>, proxy_buf := Some pb'\<rparr>) \<and>
    take (length s) pb' = s \<and> length pb' = length pb \<and> pb' ! length s = NUL"
proof -
  let ?pb = "put_at pb 0 s" and ?n = "int (length s)"
  have "fdrecv (backend_sock c) (BUFFER_SIZE (lims E)) = (?n, s, (backend_sock c)\<lparr>inbox := ss\<rparr>)"
    using assms(3,5) by (simp add: fdrecv_def Let_def)
  then have recv: "proxy_recv c 0 (BUFFER_SIZE (lims E)) =
      Inr (?n, c\<lparr>backend_sock := (backend_sock c)\<lparr>inbox := ss\<rparr>, proxy_buf := Some ?pb\<rparr>)"
    using proxy_recv_eq [OF assms(1), of "BUFFER_SIZE (lims E)"] assms(2,5) by simp
  have "put_buf ?pb ?n [NUL] = Inr (put_at ?pb ?n [NUL])" using assms(2,5) by (simp add: put_buf_def)
  then have "proxy_read_some E c 0 =
      Inr (?n, c\<lparr>backend_sock := (backend_sock c)\<lparr>inbox := ss\<rparr>, proxy_buf := Some (put_at ?pb ?n [NUL])\<rparr>)"
    using recv by (simp add: proxy_read_some_def)
  then show ?thesis using assms(2,5) by (intro exI [of _ "put_at ?pb ?n [NUL]"]) (simp add: nth_append)
qed

lemma stream_chunks_packets:
  assumes "httpclient E = client11_ops" "BUFFER_SIZE (lims E) < 2 ^ 31 - 1"
    and "open_client c" "proxy_buf c = Some pb" "int (length pb) = BUFFER_SIZE (lims E) + 1" "client c = Some cl" "chunks_done cl = 0"
      "readable pb n" "0 \<le> cl_body_start cl" "cl_body_start cl \<le> n"
      "drop (nat (cl_body_start cl)) (take (nat n) pb) = print_chunks cks" "packets_ok (cks # css)"
      "inbox (backend_sock c) = map print_chunks css @ later"
      "list_all (\<lambda>cks. int (length (print_chunks cks)) \<le> BUFFER_SIZE (lims E)) css"
  shows "\<exists>c'. Proxy_stream_chunks E c n = Some (Inr (1, c')) \<and>
    outbox (sock c') = outbox (sock c) @ take (nat n) pb @ concat (map print_chunks css) \<and> inbox (backend_sock c') = later"
  using assms(3-)
proof (induction css arbitrary: c pb cl n cks)
  case Nil
  then have last: "closing cks" by simp
  obtain cl' where scan: "scan_chunks client11_ops pb cl n (cl_body_start cl) = Some (n, cl')" "chunks_done cl' = 1"
    using scan_chunks_whole [OF Nil(6-9)] last by auto
  have n: "0 \<le> n" "n \<le> int (length pb)" using Nil(6-8) by (auto simp: readable_def)
  have "open_client (c\<lparr>client := Some cl'\<rparr>)" using Nil(1) by (simp add: open_client_def)
  with scan n show ?case using Nil(2,4,5,11) assms(1)
    by (subst Proxy_stream_chunks.simps) (simp add: stream_available)
next
  case (Cons cks' css)
  have mid: "middle cks" "packets_ok (cks' # css)" using packets_ok_hd [OF Cons.prems(10)] by auto
  then have not_done: "\<not> closing cks" using closing_not_middle by blast
  obtain cl' where scan: "scan_chunks client11_ops pb cl n (cl_body_start cl) = Some (n, cl')" "chunks_done cl' = 0"
    using scan_chunks_whole [OF Cons.prems(6-9)] mid(1) not_done by auto
  have n: "0 \<le> n" "n \<le> int (length pb)" using Cons.prems(6-8) by (auto simp: readable_def)
  let ?c1 = "c\<lparr>client := Some cl', sock := (sock c)\<lparr>outbox := outbox (sock c) @ take (nat n) pb, accepts := []\<rparr>\<rparr>"
  let ?cl2 = "cl'\<lparr>cl_body_start := 0\<rparr>" and ?s = "print_chunks cks'"
  let ?c2 = "?c1\<lparr>client := Some ?cl2\<rparr>"
  have sent: "Proxy_stream_response E (c\<lparr>client := Some cl'\<rparr>) n n = Some (Inr (n, ?c1))"
    using stream_available [of "c\<lparr>client := Some cl'\<rparr>" pb n E] Cons.prems(1,2) n by (simp add: open_client_def)
  have "cks' \<noteq> []" using packets_ok_hd [OF mid(2)] by (auto simp: closing_def middle_def split: if_splits)
  then have ne: "?s \<noteq> []" by (cases cks') (auto simp: print_chunks_def print_chunk_def split: prod.splits)
  have len: "int (length ?s) \<le> BUFFER_SIZE (lims E)" using Cons.prems(12) by simp
  obtain pb' where rd: "proxy_read_some E ?c2 0 =
      Inr (int (length ?s), ?c2\<lparr>backend_sock := (backend_sock ?c2)\<lparr>inbox := map print_chunks css @ later\<rparr>, proxy_buf := Some pb'\<rparr>)"
      "take (length ?s) pb' = ?s" "length pb' = length pb" "pb' ! length ?s = NUL"
    using read_packet [of ?c2 pb E ?s "map print_chunks css @ later"] Cons.prems(2,3,11) ne len by auto
  let ?c3 = "?c2\<lparr>backend_sock := (backend_sock ?c2)\<lparr>inbox := map print_chunks css @ later\<rparr>, proxy_buf := Some pb'\<rparr>"
  have step: "Proxy_stream_chunks E c n = Proxy_stream_chunks E ?c3 (int (length ?s))"
    using scan sent rd(1) n(1) Cons.prems(2,4,5) assms(1)
    by (subst Proxy_stream_chunks.simps) (simp add: next_chunks_def)
  have "readable pb' (int (length ?s))" using rd(3,4) len Cons.prems(3) assms(2) by (simp add: readable_def)
  then have "\<exists>c'. Proxy_stream_chunks E ?c3 (int (length ?s)) = Some (Inr (1, c')) \<and>
      outbox (sock c') = outbox (sock ?c3) @ take (nat (int (length ?s))) pb' @ concat (map print_chunks css) \<and>
      inbox (backend_sock c') = later"
    using mid(2) rd(2,3) Cons.prems(1,3,12) scan(2)
    by (intro Cons.IH [of ?c3 pb' ?cl2 "int (length ?s)" cks']) (simp_all add: open_client_def)
  then show ?case unfolding step using rd(2) by simp
qed

section \<open>Properties\<close>

text \<open>A connection in the middle of a chunked response: the parser of the environment is the generated one, the client
takes everything, and \<open>cks\<close> is what the buffer holds from the parser's body start up to \<open>n\<close>.\<close>

definition streaming ::
    "('p, client11_state) env \<Rightarrow> ('p, client11_state) conn \<Rightarrow> client11 \<Rightarrow> string \<Rightarrow> int \<Rightarrow> string \<Rightarrow> bool" where
  "streaming E c cl pb n body \<longleftrightarrow> httpclient E = client11_ops \<and> BUFFER_SIZE (lims E) < 2 ^ 31 - 1 \<and> open_client c \<and>
     proxy_buf c = Some pb \<and> int (length pb) = BUFFER_SIZE (lims E) + 1 \<and> client c = Some cl \<and> chunks_done cl = 0 \<and>
     readable pb n \<and> 0 \<le> cl_body_start cl \<and> cl_body_start cl \<le> n \<and> drop (nat (cl_body_start cl)) (take (nat n) pb) = body"

text \<open>C7: started afresh anywhere in a terminated buffer, the client parser reads only inside it and its assertions
hold; it answers -1 or how far it has read, at most one byte more than the length.\<close>

theorem client11_execute_in_bounds:
  assumes "0 \<le> off" "off \<le> len" "len < int (length buffer)" "buffer ! nat len = NUL" "len < 2 ^ 31 - 1"
  shows "case client11_execute False (client11_init h) buffer len off of
     Inl _ \<Rightarrow> False
   | Inr (calls, n, h') \<Rightarrow> calls = [] \<and> (n = -1 \<or> 0 \<le> n \<and> n \<le> len + 1) \<and> 0 \<le> cl_body_start h' \<and> cl_body_start h' \<le> len"
proof -
  let ?b = "take (nat len) buffer" and ?h = "client11_init h"
  have len: "length ?b = nat len" "nat off + length (drop (nat off) ?b) = length ?b" using assms by simp_all
  obtain cs' p h' where run: "client_run False ?b (drop (nat off) ?b) (nat off) 1 (?h, []) = Inr (cs', p, h', [])"
      "nat off \<le> p" "p \<le> nat len" "client_ok p h'" "client_same ?h h'"
    using client_run_ok [OF client_init_ok [of _ h] len(2), of 1 "[]"] unfolding len(1) by blast
  have nread: "ct_nread (cl_machine h') = 0" "ct_cs (cl_machine ?h) = 1"
    using run(5) by (simp_all add: client_same_def client11_init_def)
  have body: "0 \<le> cl_body_start h'" "cl_body_start h' \<le> len" "int (p - nat off) \<le> len"
    using run(2-4) assms(1,2) by (auto simp: client_ok_def)
  have small: "to_int32 (int (p - nat off)) = int (p - nat off)" "to_int32 (1 + int (p - nat off)) = 1 + int (p - nat off)"
    using body(3) assms(5) by (simp_all add: to_int32_def)
  show ?thesis using run(1) nread body small assms(1-4)
    by (simp add: client11_execute_def client_enter_def Let_def)
qed

definition sample_client11 :: client11 where
  "sample_client11 = \<lparr>cl_body_start = 0, cl_content_len = 0, cl_status = 0, cl_chunked = 0, chunks_done = 0,
     cl_machine = \<lparr>ct_cs = 0, ct_nread = 0, ct_mark = 0, ct_field_start = 0, ct_field_len = 0\<rparr>\<rparr>"

definition sample_chunked :: string where
  "sample_chunked = ''hdr'' @ print_chunk (''1'', ''a'') @ replicate 12 NUL"

lemma client11_execute_in_bounds_witness:
  "case client11_execute False (client11_init sample_client11) sample_chunked 9 3 of
     Inl _ \<Rightarrow> False
   | Inr (calls, n, h') \<Rightarrow> calls = [] \<and> (n = -1 \<or> 0 \<le> n \<and> n \<le> 9 + 1) \<and> 0 \<le> cl_body_start h' \<and> cl_body_start h' \<le> 9"
  by (rule client11_execute_in_bounds) (simp_all add: sample_chunked_def print_chunk_def)

text \<open>C6: a chunked response is streamed whole: when the buffer holds its header and whole chunks, and every further packet
consists of whole chunks, up to and with the last one, the client is sent exactly all of it and nothing behind it is
taken from the backend.\<close>

theorem Proxy_stream_chunks_complete:
  assumes "streaming E c cl pb n (print_chunks cks)" "packets_ok (cks # css)"
    "inbox (backend_sock c) = map print_chunks css @ later"
    "list_all (\<lambda>cks. int (length (print_chunks cks)) \<le> BUFFER_SIZE (lims E)) css"
  shows "\<exists>c'. Proxy_stream_chunks E c n = Some (Inr (1, c')) \<and>
    outbox (sock c') = outbox (sock c) @ take (nat n) pb @ concat (map print_chunks css) \<and> inbox (backend_sock c') = later"
  using stream_chunks_packets [OF _ _ _ _ _ _ _ _ _ _ _ assms(2-4)] assms(1) unfolding streaming_def by blast

definition sample_client11_env :: "(unit, client11_state) env" where
  "sample_client11_env = \<lparr>http = sample_http, httpclient = client11_ops, fops = fops sample_env,
     file_data = file_data sample_env, to_time = to_time sample_env, sets = Null, lims = lims sample_env,
     dir_lims = dir_lims sample_env, mime = mime_init, fdwait_ok = (\<lambda>_. True), new_client = sample_client11, mem = True\<rparr>"

definition sample_client11_conn :: "string \<Rightarrow> string list \<Rightarrow> (unit, client11_state) conn" where
  "sample_client11_conn pb packets =
     \<lparr>server = server (sample_conn_for []), conn_fd = 5, proxy_fd = 6, req = req (sample_conn_for []), nread = 0, nparsed = 0,
      registered = 0, rport = 0, buf = replicate 21 NUL, proxy_buf = Some pb,
      client = Some (sample_client11\<lparr>cl_body_start := 3, cl_chunked := 1\<rparr>), remote = replicate 17 NUL, conn_close = 0,
      ssl = False, ssl_buff = None, ssl_buff_len = 0, buf_gen = 0, sock = quiet_chan, ssl_in = [],
      backend_sock = quiet_chan\<lparr>inbox := packets\<rparr>, dials = [], mq_results = [], delivered = [], registry = empty_register,
      dirs = dirs (sample_conn_for []), files = files (sample_conn_for []), temps = [], uploads = [], unlinked = [],
      access_log_lines = [], fds_closed = [], clock = [], freed = False\<rparr>"

lemma sample_streaming:
  "streaming sample_client11_env (sample_client11_conn sample_chunked packets)
     (sample_client11\<lparr>cl_body_start := 3, cl_chunked := 1\<rparr>) sample_chunked 9 (print_chunks [(''1'', ''a'')])"
  by (simp add: streaming_def sample_client11_env_def sample_client11_conn_def sample_chunked_def sample_client11_def sample_env_def
      open_client_def quiet_chan_def readable_def print_chunks_def print_chunk_def)

lemma Proxy_stream_chunks_complete_witness:
  "\<exists>c'. Proxy_stream_chunks sample_client11_env
       (sample_client11_conn sample_chunked [print_chunks [(''2'', ''bc''), (''0'', [])], ''x'']) 9 = Some (Inr (1, c')) \<and>
     outbox (sock c') = ''hdr'' @ print_chunks [(''1'', ''a''), (''2'', ''bc''), (''0'', [])] \<and> inbox (backend_sock c') = [''x'']"
proof -
  have ok: "packets_ok [[(''1'', ''a'')], [(''2'', ''bc''), (''0'', [])]]"
    by (simp add: middle_def closing_def chunk_ok_def xdigits_val_def xdigit_val_def isxdigit_def isdigit_def)
  let ?c = "sample_client11_conn sample_chunked [print_chunks [(''2'', ''bc''), (''0'', [])], ''x'']"
  have "inbox (backend_sock ?c) = map print_chunks [[(''2'', ''bc''), (''0'', [])]] @ [''x'']" "outbox (sock ?c) = []"
    "list_all (\<lambda>cks. int (length (print_chunks cks)) \<le> BUFFER_SIZE (lims sample_client11_env)) [[(''2'', ''bc''), (''0'', [])]]"
    "take (nat 9) sample_chunked @ concat (map print_chunks [[(''2'', ''bc''), (''0'', [])]]) =
       ''hdr'' @ print_chunks [(''1'', ''a''), (''2'', ''bc''), (''0'', [])]"
    by (simp_all add: sample_client11_conn_def quiet_chan_def sample_client11_env_def sample_env_def print_chunks_def print_chunk_def
        sample_chunked_def)
  with Proxy_stream_chunks_complete [OF sample_streaming ok this(1) this(3)] show ?thesis by simp
qed

text \<open>C8: a single byte of the next chunk behind whole chunks is lost: it is neither sent nor kept, and the scan goes on at the
start of the next packet.\<close>

theorem Proxy_stream_chunks_loses_byte:
  assumes "streaming E c cl pb n (print_chunks cks @ [x])" "middle cks" "inbox (backend_sock c) = s # ss" "s \<noteq> []"
    "int (length s) \<le> BUFFER_SIZE (lims E)"
  shows "\<exists>c' cl' pb'. Proxy_stream_chunks E c n = Proxy_stream_chunks E c' (int (length s)) \<and>
    streaming E c' cl' pb' (int (length s)) s \<and> cl_body_start cl' = 0 \<and> inbox (backend_sock c') = ss \<and>
    outbox (sock c') = outbox (sock c) @ take (nat (n - 1)) pb"
proof -
  note st = assms(1) [unfolded streaming_def]
  let ?n = "n - 1"
  have "\<not> closing cks" using assms(2) closing_not_middle by blast
  then obtain cl' where scan: "scan_chunks client11_ops pb cl n (cl_body_start cl) = Some (?n, cl')" "chunks_done cl' = 0"
    using scan_chunks_tail [of pb n "cl_body_start cl" cks "[x]" cl] st assms(2) by auto
  have "nat n \<noteq> 0" using st by (intro notI) simp
  then have n: "0 \<le> ?n" "?n \<le> int (length pb)" using st by (auto simp: readable_def)
  let ?c1 = "c\<lparr>client := Some cl', sock := (sock c)\<lparr>outbox := outbox (sock c) @ take (nat ?n) pb, accepts := []\<rparr>\<rparr>"
  let ?cl2 = "cl'\<lparr>cl_body_start := 0\<rparr>"
  let ?c2 = "?c1\<lparr>client := Some ?cl2\<rparr>"
  have sent: "Proxy_stream_response E (c\<lparr>client := Some cl'\<rparr>) ?n ?n = Some (Inr (?n, ?c1))"
    using stream_available [of "c\<lparr>client := Some cl'\<rparr>" pb ?n E] st n by (simp add: open_client_def)
  obtain pb' where rd: "proxy_read_some E ?c2 0 =
      Inr (int (length s), ?c2\<lparr>backend_sock := (backend_sock ?c2)\<lparr>inbox := ss\<rparr>, proxy_buf := Some pb'\<rparr>)"
      "take (length s) pb' = s" "length pb' = length pb" "pb' ! length s = NUL"
    using read_packet [of ?c2 pb E s ss] st assms(3-5) by auto
  let ?c3 = "?c2\<lparr>backend_sock := (backend_sock ?c2)\<lparr>inbox := ss\<rparr>, proxy_buf := Some pb'\<rparr>"
  have "Proxy_stream_chunks E c n = Proxy_stream_chunks E ?c3 (int (length s))"
    using scan sent rd(1) n(1) st
    by (subst Proxy_stream_chunks.simps) (simp add: next_chunks_def)
  moreover have "streaming E ?c3 ?cl2 pb' (int (length s)) s"
    using st rd(2-4) assms(5) scan(2) by (simp add: streaming_def open_client_def readable_def)
  ultimately show ?thesis by (intro exI [of _ ?c3] exI [of _ ?cl2] exI [of _ pb']) simp
qed

lemma Proxy_stream_chunks_loses_byte_witness:
  "\<exists>c' cl' pb'. Proxy_stream_chunks sample_client11_env
       (sample_client11_conn (''hdr'' @ print_chunk (''1'', ''a'') @ ''0'' @ replicate 11 NUL) [CRLF @ CRLF]) 10 =
       Proxy_stream_chunks sample_client11_env c' 4 \<and>
     streaming sample_client11_env c' cl' pb' 4 (CRLF @ CRLF) \<and> cl_body_start cl' = 0 \<and> inbox (backend_sock c') = [] \<and>
     outbox (sock c') = ''hdr'' @ print_chunk (''1'', ''a'')"
proof -
  let ?pb = "''hdr'' @ print_chunk (''1'', ''a'') @ ''0'' @ replicate 11 NUL"
  have st: "streaming sample_client11_env (sample_client11_conn ?pb [CRLF @ CRLF])
      (sample_client11\<lparr>cl_body_start := 3, cl_chunked := 1\<rparr>) ?pb 10 (print_chunks [(''1'', ''a'')] @ ''0'')"
    by (simp add: streaming_def sample_client11_env_def sample_client11_conn_def sample_client11_def sample_env_def open_client_def
        quiet_chan_def readable_def print_chunks_def print_chunk_def)
  have "middle [(''1'', ''a'')]"
    by (simp add: middle_def chunk_ok_def xdigits_val_def xdigit_val_def isxdigit_def isdigit_def)
  moreover have "inbox (backend_sock (sample_client11_conn ?pb [CRLF @ CRLF])) = [CRLF @ CRLF]"
    "outbox (sock (sample_client11_conn ?pb [CRLF @ CRLF])) = []" "take 9 ?pb = ''hdr'' @ print_chunk (''1'', ''a'')"
    by (simp_all add: sample_client11_conn_def quiet_chan_def print_chunk_def)
  moreover have "BUFFER_SIZE (lims sample_client11_env) = 20" by (simp add: sample_client11_env_def sample_env_def)
  ultimately show ?thesis using Proxy_stream_chunks_loses_byte [OF st, of "CRLF @ CRLF" "[]"] by simp
qed

text \<open>A chunk size that does not fit in an \<^verbatim>\<open>int\<close> is taken for the last chunk.\<close>

theorem client11_huge_chunk_is_last:
  assumes "0 \<le> off" "off \<le> len" "len < int (length buffer)" "buffer ! nat len = NUL" "len < 2 ^ 31 - 1"
    "drop (nat off) (take (nat len) buffer) = s @ CRLF @ rest" "s \<noteq> []" "list_all isxdigit s"
    "2 ^ 31 \<le> xdigits_val s" "xdigits_val s \<le> 2 ^ 32"
  shows "\<exists>rc h'. client11_execute False (client11_init h) buffer len off = Inr ([], rc, h') \<and> cl_content_len h' \<le> 0 \<and>
    chunks_done h' = 1"
proof -
  have "(xdigits_val s + 2 ^ 31) mod 2 ^ 32 = (xdigits_val s - 2 ^ 31) mod 2 ^ 32"
    using minus_mod_self2 [of "xdigits_val s + 2 ^ 31" "2 ^ 32"] by simp
  then have "chunk_value s \<le> 0" using assms(9,10) by (simp add: chunk_value_def to_int32_def)
  with execute_chunk [OF assms(1-8), of h] show ?thesis by auto
qed

lemma client11_huge_chunk_is_last_witness:
  "\<exists>rc h'. client11_execute False (client11_init sample_client11) (''80000000'' @ CRLF @ ''x'' @ [NUL]) 11 0 = Inr ([], rc, h') \<and>
     cl_content_len h' \<le> 0 \<and> chunks_done h' = 1"
  by (rule client11_huge_chunk_is_last [where s = "''80000000''" and rest = "''x''"])
    (simp_all add: xdigits_val_def xdigit_val_def isxdigit_def isdigit_def)

end
