(* ===== verification/Control.thy ===== *)
theory Control
  imports Task
begin

text \<open>
  \<^verbatim>\<open>control.c\<close>, the control port: the machine Ragel generated for its commands, state by state, \<^verbatim>\<open>Control_execute\<close>
  around it, and the task that answers requests.  The reports are those of \<open>Task\<close> and \<open>Register\<close>; ZeroMQ is a script of
  requests.
\<close>

section \<open>The generated machine\<close>

text \<open>Where a state goes on a byte: to \<^verbatim>\<open>st\<close>\<open>n\<close> (\<^verbatim>\<open>st0\<close> is the error), or to one of the labels with an action.\<close>

datatype clabel = St nat | Tr15 | Tr20 | Tr30 | Tr34 | Tr37 | Tr38

definition control_case :: "nat \<Rightarrow> int \<Rightarrow> clabel" where
  "control_case cs v =
     (let eq = (\<lambda>k to. if v = k then to else St 0);
          blank = (9 \<le> v \<and> v \<le> 13) in
      if cs = 1 then (if v = 99 then St 2 else if v = 107 then St 13 else if v = 115 then St 18 else eq 116 (St 31))
      else if cs = 2 then eq 111 (St 3) else if cs = 3 then eq 110 (St 4) else if cs = 4 then eq 116 (St 5)
      else if cs = 5 then eq 114 (St 6) else if cs = 6 then eq 111 (St 7) else if cs = 7 then eq 108 (St 8)
      else if cs = 8 then eq 32 (St 9) else if cs = 9 then eq 115 (St 10) else if cs = 10 then eq 116 (St 11)
      else if cs = 11 then eq 111 (St 12) else if cs = 12 then eq 112 Tr15
      else if cs = 13 then eq 105 (St 14) else if cs = 14 then eq 108 (St 15) else if cs = 15 then eq 108 (St 16)
      else if cs = 16 then (if v = 32 then St 17 else if blank then St 17 else St 0)
      else if cs = 17 then
        (if v = 32 then St 17 else if v > 13 then (if 48 \<le> v \<and> v \<le> 57 then Tr20 else St 0) else if v \<ge> 9 then St 17 else St 0)
      else if cs = 18 then eq 116 (St 19) else if cs = 19 then eq 97 (St 20) else if cs = 20 then eq 116 (St 21)
      else if cs = 21 then eq 117 (St 22) else if cs = 22 then eq 115 (St 23)
      else if cs = 23 then (if v = 32 then St 24 else if blank then St 24 else St 0)
      else if cs = 24 then (if v = 32 then St 24 else if v = 110 then St 25 else if v = 116 then St 27 else if blank then St 24 else St 0)
      else if cs = 25 then eq 101 (St 26) else if cs = 26 then eq 116 Tr30
      else if cs = 27 then eq 97 (St 28) else if cs = 28 then eq 115 (St 29) else if cs = 29 then eq 107 (St 30)
      else if cs = 30 then eq 115 Tr34
      else if cs = 31 then eq 105 (St 32) else if cs = 32 then eq 109 (St 33) else if cs = 33 then eq 101 Tr37
      else if cs = 35 then (if 48 \<le> v \<and> v \<le> 57 then Tr38 else St 0)
      else St 0)"

text \<open>
  The run from a state on what is left of the request at \<^verbatim>\<open>p\<close>.  The machine is generated without a test for the end and
  reads the terminating \<^verbatim>\<open>'\0'\<close> there; going on behind it would leave the string.  The result is the label that leaves the
  machine and what is left at \<^verbatim>\<open>p\<close> then.
\<close>

fun control_run :: "nat \<Rightarrow> string \<Rightarrow> (clabel \<times> string) cres" where
  "control_run cs [] =
     (case control_case cs 0 of St n \<Rightarrow> if n = 0 then Inr (St 0, []) else Inl Out_of_bounds | l \<Rightarrow> Inr (l, []))"
| "control_run cs (c # s) =
     (case control_case cs (schar c) of St n \<Rightarrow> if n = 0 then Inr (St 0, c # s) else control_run n s | l \<Rightarrow> Inr (l, c # s))"

section \<open>Commands\<close>

text \<open>What a command does: its reply, the descriptors it closes, and whether the port goes on (\<^verbatim>\<open>CONTROL_RUNNING\<close>).\<close>

record control_effect =
  reply :: bstring
  closed :: "int list"
  running :: bool

abbreviation QT :: string where "QT \<equiv> [CHR 0x22]"

definition answer :: "bstring \<Rightarrow> control_effect" where
  "answer r = \<lparr>reply = r, closed = [], running = True\<rparr>"

definition control_kill :: "register \<Rightarrow> string \<Rightarrow> control_effect cres" where
  "control_kill reg p =
     (let ident = atoi p in
      if ident < 0 \<or> ident > MAX_REGISTERED_FDS
      then Inr (answer (''{'' @ QT @ ''error'' @ QT @ '': '' @ QT @ ''invalid id: '' @ int_digits ident @ QT @ ''}''))
      else cbind (Register_fd_for_id reg ident) (\<lambda>fd.
        if fd > 0
        then Inr ((answer (''{'' @ QT @ ''result'' @ QT @ '': '' @ QT @ ''killed '' @ int_digits ident @ QT @ ''}''))\<lparr>closed := [fd]\<rparr>)
        else Inr (answer (''{'' @ QT @ ''error'' @ QT @ '': '' @ QT @ ''does not exist: '' @ int_digits ident @ QT @ ''}''))))"

definition control_act :: "register \<Rightarrow> sched \<Rightarrow> int \<Rightarrow> clabel \<Rightarrow> string \<Rightarrow> control_effect cres" where
  "control_act reg s now l p =
     (case l of
        Tr15 \<Rightarrow> Inr ((answer (''{'' @ QT @ ''msg'' @ QT @ '': '' @ QT @ ''stopping control port'' @ QT @ ''}''))\<lparr>running := False\<rparr>)
      | Tr30 \<Rightarrow> Inr (answer (Register_info reg now))
      | Tr34 \<Rightarrow> Inr (answer (taskgetinfo s))
      | Tr37 \<Rightarrow> Inr (answer (''{'' @ QT @ ''time'' @ QT @ '': '' @ int_digits (to_int32 now) @ ''}''))
      | Tr20 \<Rightarrow> control_kill reg p
      | Tr38 \<Rightarrow> control_kill reg p
      | St n \<Rightarrow> Inr (answer []))"

definition fatal_error :: bstring where
  "fatal_error = ''{'' @ QT @ ''error'' @ QT @ '': '' @ QT @ ''fatal error'' @ QT @ ''}''"

text \<open>
  The reply to what is no command, when \<open>k\<close> bytes of it were left: the text is taken from \<open>k\<close> bytes behind the
  request's start, not from \<open>k\<close> bytes in front of its end.
\<close>

definition parsing_error :: "bstring \<Rightarrow> nat \<Rightarrow> bstring" where
  "parsing_error req k =
     ''{'' @ QT @ ''error'' @ QT @ '': '' @ QT @ ''parsing error at: ...'' @ takeWhile (\<lambda>c. c \<noteq> NUL) (drop k req) @ QT @ ''}''"

text \<open>Each action leaves the machine behind its byte.\<close>

definition Control_execute :: "register \<Rightarrow> sched \<Rightarrow> int \<Rightarrow> bstring \<Rightarrow> control_effect cres" where
  "Control_execute reg s now req =
     cbind (control_run 1 req) (\<lambda>(l, p).
       if l = St 0 then Inr (answer (if length p > 0 then parsing_error req (length p) else fatal_error))
       else cbind (control_act reg s now l p) (\<lambda>e. Inr (if p = [] then e\<lparr>reply := fatal_error\<rparr> else e)))"

section \<open>The task\<close>

text \<open>
  One entry of the script for every turn of the loop: the request \<^verbatim>\<open>read_message\<close> gets, or \<open>None\<close>, and the state of the
  register, the tasks and the clock at that time.  The result is the exit value, or \<open>None\<close> while the port waits, with all
  replies and closed descriptors.
\<close>

type_synonym control_turn = "bstring option \<times> register \<times> sched \<times> int"

fun control_loop :: "control_turn list \<Rightarrow> bstring list \<Rightarrow> int list \<Rightarrow> (int option \<times> bstring list \<times> int list) cres" where
  "control_loop [] out cl = Inr (None, out, cl)"
| "control_loop ((None, _) # ts) out cl = Inr (Some 1, out, cl)"
| "control_loop ((Some req, reg, s, now) # ts) out cl =
     cbind (Control_execute reg s now req) (\<lambda>e.
       if \<not> running e then Inr (Some 0, out @ [reply e], cl @ closed e)
       else control_loop ts (out @ [reply e]) (cl @ closed e))"

text \<open>\<open>sock_ok\<close>, \<open>bind_ok\<close>: whether the socket can be created and bound.\<close>

definition Control_task :: "bool \<Rightarrow> bool \<Rightarrow> control_turn list \<Rightarrow> (int option \<times> bstring list \<times> int list) cres" where
  "Control_task sock_ok bind_ok ts = (if \<not> sock_ok \<or> \<not> bind_ok then Inr (Some 1, [], []) else control_loop ts [] [])"

section \<open>The commands as a grammar\<close>

datatype command = Cmd_tasks | Cmd_net | Cmd_stop | Cmd_time | Cmd_kill string

text \<open>What is behind a word, if the text begins with it, and behind blanks, if there are any.\<close>

definition behind :: "string \<Rightarrow> string \<Rightarrow> string option" where
  "behind w s = (if take (length w) s = w then Some (drop (length w) s) else None)"

definition blanks :: "string \<Rightarrow> string option" where
  "blanks s = (let r = dropWhile isspace s in if r = s then None else Some r)"

definition command_of :: "string \<Rightarrow> command option" where
  "command_of s =
     (case behind ''control stop'' s of Some _ \<Rightarrow> Some Cmd_stop
      | None \<Rightarrow> (case behind ''time'' s of Some _ \<Rightarrow> Some Cmd_time
      | None \<Rightarrow> (case Option.bind (behind ''kill'' s) blanks of
          Some r \<Rightarrow> if isdigit (cstr_hd r) then Some (Cmd_kill r) else None
      | None \<Rightarrow> (case Option.bind (behind ''status'' s) blanks of
          Some r \<Rightarrow> if behind ''tasks'' r \<noteq> None then Some Cmd_tasks else if behind ''net'' r \<noteq> None then Some Cmd_net else None
      | None \<Rightarrow> None))))"

section \<open>The machine follows it\<close>

text \<open>A way through states of one byte each.\<close>

fun way :: "nat \<Rightarrow> string \<Rightarrow> nat \<Rightarrow> bool" where
  "way a [] b \<longleftrightarrow> a = b"
| "way a (c # w) b \<longleftrightarrow> c \<noteq> NUL \<and>
     (case control_case a (schar c) of St n \<Rightarrow> n \<noteq> 0 \<and> way n w b \<and> (\<forall>v. v \<noteq> schar c \<longrightarrow> control_case a v = St 0) | _ \<Rightarrow> False)"

definition stuck :: "(clabel \<times> string) cres \<Rightarrow> bool" where
  "stuck r \<longleftrightarrow> (\<exists>p. r = Inr (St 0, p))"

lemma stuck_simps [simp]: "stuck (Inr (St 0, p))" "\<not> stuck (Inr (Tr20, p))" "\<not> stuck (Inr (Tr30, p))" "\<not> stuck (Inr (Tr34, p))"
  "\<not> stuck (Inr (Tr37, p))" "\<not> stuck (Inr (Tr15, p))"
  by (simp_all add: stuck_def)

lemma schar_NUL [simp]: "schar NUL = 0"
  by (simp add: schar_def)

lemma behind_Cons [simp]: "behind (c # w) [] = None" "behind (c # w) (d # s) = (if c = d then behind w s else None)"
  "behind [] s = Some s"
  by (auto simp: behind_def)

lemma way_run:
  "way a w b \<Longrightarrow> (case behind w s of Some r \<Rightarrow> control_run a s = control_run b r | None \<Rightarrow> stuck (control_run a s))"
proof (induction w arbitrary: a s)
  case (Cons c w)
  then obtain n where n: "control_case a (schar c) = St n" "n \<noteq> 0" "way n w b" "\<forall>v. v \<noteq> schar c \<longrightarrow> control_case a v = St 0" "c \<noteq> NUL"
    by (auto split: clabel.splits)
  show ?case
  proof (cases s)
    case Nil
    have "control_case a 0 = St 0" using n(4,5) schar_inj [of c NUL] by auto
    then show ?thesis using Nil by simp
  next
    case (Cons d t)
    show ?thesis
    proof (cases "c = d")
      case True
      then have "control_run a s = control_run n t" "behind (c # w) s = behind w t" using Cons n(1,2) by simp_all
      then show ?thesis using Cons.IH [OF n(3), of t] by (simp split: option.splits)
    next
      case False
      then have "control_case a (schar d) = St 0" using n(4) schar_inj [of c d] by auto
      then show ?thesis using Cons False by simp
    qed
  qed
qed simp

text \<open>The last byte of a word, which runs an action.\<close>

lemma last_run:
  assumes "control_case a (schar c) = l" "\<forall>n. l \<noteq> St n" "\<forall>v. v \<noteq> schar c \<longrightarrow> control_case a v = St 0" "c \<noteq> NUL"
  shows "case behind [c] s of Some r \<Rightarrow> control_run a s = Inr (l, c # r) | None \<Rightarrow> stuck (control_run a s)"
proof (cases s)
  case Nil
  have "control_case a 0 = St 0" using assms(3,4) schar_inj [of c NUL] by auto
  then show ?thesis using Nil by simp
next
  case (Cons d t)
  then show ?thesis using assms(1-3) schar_inj [of c d] by (cases "c = d") (auto split: clabel.splits)
qed

lemma behind_append: "behind (v @ w) s = Option.bind (behind v s) (behind w)"
  by (induction v arbitrary: s) (simp, case_tac s, auto)

lemma word_run:
  assumes "way a w b" "control_case b (schar c) = l" "\<forall>n. l \<noteq> St n" "\<forall>v. v \<noteq> schar c \<longrightarrow> control_case b v = St 0" "c \<noteq> NUL"
  shows "case behind (w @ [c]) s of Some r \<Rightarrow> control_run a s = Inr (l, c # r) | None \<Rightarrow> stuck (control_run a s)"
proof (cases "behind w s")
  case None
  then show ?thesis using way_run [OF assms(1), of s] by (simp add: behind_append)
next
  case (Some r)
  then have "control_run a s = control_run b r" using way_run [OF assms(1), of s] by simp
  then show ?thesis using Some last_run [OF assms(2-5), of r] by (simp add: behind_append split: option.splits)
qed

lemma schar_class: "isspace c \<longleftrightarrow> schar c = 32 \<or> 9 \<le> schar c \<and> schar c \<le> 13" "isdigit c \<longleftrightarrow> 48 \<le> schar c \<and> schar c \<le> 57"
proof -
  define n where "n = code c"
  have "n < 256" by (simp add: n_def)
  moreover have "(of_char c :: int) = int n" unfolding n_def by (metis of_nat_of_char)
  ultimately show "isspace c \<longleftrightarrow> schar c = 32 \<or> 9 \<le> schar c \<and> schar c \<le> 13" "isdigit c \<longleftrightarrow> 48 \<le> schar c \<and> schar c \<le> 57"
    unfolding isspace_def isdigit_def schar_def Let_def n_def [symmetric] by auto
qed

text \<open>The two places where blanks are skipped.\<close>

lemma blanks_run:
  assumes "\<And>c. isspace c \<Longrightarrow> control_case a (schar c) = St b" "\<And>c. \<not> isspace c \<Longrightarrow> control_case a (schar c) = St 0" "b \<noteq> 0"
    "\<And>c. isspace c \<Longrightarrow> control_case b (schar c) = St b"
  shows "case blanks s of Some r \<Rightarrow> control_run a s = control_run b r | None \<Rightarrow> stuck (control_run a s)"
proof (cases s)
  case Nil
  have "control_case a 0 = St 0" using assms(2) [of NUL] by (simp add: schar_class)
  then show ?thesis using Nil by (simp add: blanks_def)
next
  case (Cons c t)
  have skip: "control_run b u = control_run b (dropWhile isspace u)" for u
    by (induction u) (use assms(3,4) in auto)
  show ?thesis
  proof (cases "isspace c")
    case True
    have "dropWhile isspace t \<noteq> c # t" using length_dropWhile_le [of isspace t] by (metis length_Cons not_less_eq_eq order_refl)
    moreover have "control_run a s = control_run b t" using Cons True assms(1,3) by simp
    ultimately show ?thesis using Cons True skip [of t] by (simp add: blanks_def Let_def)
  next
    case False
    then show ?thesis using Cons assms(2) by (simp add: blanks_def)
  qed
qed

lemma control_run_left: "control_run cs s = Inr (l, p) \<Longrightarrow> \<exists>q. s = q @ p"
proof (induction s arbitrary: cs)
  case (Cons c s)
  then show ?case by (auto split: clabel.splits if_splits intro: exI [of _ "[]"]) (metis append_Cons)
qed (auto split: clabel.splits if_splits)

lemma control_blanks:
  "case blanks s of Some r \<Rightarrow> control_run 16 s = control_run 17 r | None \<Rightarrow> stuck (control_run 16 s)"
  "case blanks s of Some r \<Rightarrow> control_run 23 s = control_run 24 r | None \<Rightarrow> stuck (control_run 23 s)"
  by (rule blanks_run; auto simp: control_case_def schar_class)+

lemma blanks_head: "blanks s = Some r \<Longrightarrow> r = [] \<or> \<not> isspace (hd r)"
  using hd_dropWhile [of isspace s] by (auto simp: blanks_def Let_def simp del: dropWhile_eq_Nil_conv split: if_splits)

text \<open>The ways and last bytes of the five commands.\<close>

lemma control_words:
  "case behind ''ontrol stop'' s of Some r \<Rightarrow> control_run 2 s = Inr (Tr15, CHR ''p'' # r) | None \<Rightarrow> stuck (control_run 2 s)"
  "case behind ''ime'' s of Some r \<Rightarrow> control_run 31 s = Inr (Tr37, CHR ''e'' # r) | None \<Rightarrow> stuck (control_run 31 s)"
  "case behind ''et'' s of Some r \<Rightarrow> control_run 25 s = Inr (Tr30, CHR ''t'' # r) | None \<Rightarrow> stuck (control_run 25 s)"
  "case behind ''asks'' s of Some r \<Rightarrow> control_run 27 s = Inr (Tr34, CHR ''s'' # r) | None \<Rightarrow> stuck (control_run 27 s)"
  "case behind ''ill'' s of Some r \<Rightarrow> control_run 13 s = control_run 16 r | None \<Rightarrow> stuck (control_run 13 s)"
  "case behind ''tatus'' s of Some r \<Rightarrow> control_run 18 s = control_run 23 r | None \<Rightarrow> stuck (control_run 18 s)"
  using word_run [of 2 "''ontrol sto''" 12 "CHR ''p''" Tr15 s] word_run [of 31 "''im''" 33 "CHR ''e''" Tr37 s]
    word_run [of 25 "''e''" 26 "CHR ''t''" Tr30 s] word_run [of 27 "''ask''" 30 "CHR ''s''" Tr34 s]
    way_run [of 13 "''ill''" 16 s] way_run [of 18 "''tatus''" 23 s]
  by (simp_all add: control_case_def schar_def)

lemma behind_hd: "behind (c # w) s = (case s of [] \<Rightarrow> None | d # t \<Rightarrow> if c = d then behind w t else None)"
  by (cases s) simp_all

lemma eq_schar: "schar c = schar (CHR ''k'') \<longleftrightarrow> c = CHR ''k''"
  by (rule schar_inj)

text \<open>What the machine does with a request.\<close>

lemma control_run_command:
  "case command_of req of
     Some Cmd_stop \<Rightarrow> \<exists>p. p \<noteq> [] \<and> control_run 1 req = Inr (Tr15, p)
   | Some Cmd_time \<Rightarrow> \<exists>p. p \<noteq> [] \<and> control_run 1 req = Inr (Tr37, p)
   | Some Cmd_tasks \<Rightarrow> \<exists>p. p \<noteq> [] \<and> control_run 1 req = Inr (Tr34, p)
   | Some Cmd_net \<Rightarrow> \<exists>p. p \<noteq> [] \<and> control_run 1 req = Inr (Tr30, p)
   | Some (Cmd_kill r) \<Rightarrow> r \<noteq> [] \<and> control_run 1 req = Inr (Tr20, r)
   | None \<Rightarrow> stuck (control_run 1 req)"
proof (cases req)
  case Nil
  then show ?thesis by (simp add: command_of_def control_case_def)
next
  case (Cons c t)
  have codes: "schar c = 99 \<longleftrightarrow> c = CHR ''c''" "schar c = 107 \<longleftrightarrow> c = CHR ''k''" "schar c = 115 \<longleftrightarrow> c = CHR ''s''" "schar c = 116 \<longleftrightarrow> c = CHR ''t''"
    using schar_inj [of c "CHR ''c''"] schar_inj [of c "CHR ''k''"] schar_inj [of c "CHR ''s''"] schar_inj [of c "CHR ''t''"]
    by (simp_all add: schar_def)
  consider "c = CHR ''c''" | "c = CHR ''k''" | "c = CHR ''s''" | "c = CHR ''t''"
    | "c \<noteq> CHR ''c''" "c \<noteq> CHR ''k''" "c \<noteq> CHR ''s''" "c \<noteq> CHR ''t''" by blast
  then show ?thesis
  proof cases
    case 1
    then have "control_run 1 req = control_run 2 t" using Cons by (simp add: control_case_def schar_def)
    moreover have "command_of req = (if behind ''ontrol stop'' t = None then None else Some Cmd_stop)"
      using Cons 1 by (simp add: command_of_def split: option.split)
    ultimately show ?thesis using control_words(1) [of t] by (simp split: option.splits)
  next
    case 2
    then have run: "control_run 1 req = control_run 13 t" using Cons by (simp add: control_case_def schar_def)
    have com: "command_of req = (case Option.bind (behind ''ill'' t) blanks of
        Some r \<Rightarrow> if isdigit (cstr_hd r) then Some (Cmd_kill r) else None | None \<Rightarrow> None)"
      using Cons 2 by (simp add: command_of_def split: option.split)
    show ?thesis
    proof (cases "behind ''ill'' t")
      case None
      then show ?thesis using control_words(5) [of t] com run by simp
    next
      case (Some u)
      then have run: "control_run 1 req = control_run 16 u" using control_words(5) [of t] run by simp
      show ?thesis
      proof (cases "blanks u")
        case None
        then show ?thesis using control_blanks(1) [of u] com run Some by simp
      next
        case (Some r)
        then have run: "control_run 1 req = control_run 17 r" using control_blanks(1) [of u] run by simp
        have com: "command_of req = (if isdigit (cstr_hd r) then Some (Cmd_kill r) else None)" using com Some \<open>behind ''ill'' t = Some u\<close> by simp
        show ?thesis
        proof (cases r)
          case Nil
          then show ?thesis using com run by (simp add: isdigit_def control_case_def)
        next
          case (Cons d v)
          then have "\<not> isspace d" using blanks_head [OF Some] by simp
          then show ?thesis using Cons com run by (auto simp: control_case_def schar_class)
        qed
      qed
    qed
  next
    case 3
    then have run: "control_run 1 req = control_run 18 t" using Cons by (simp add: control_case_def schar_def)
    have com: "command_of req = (case Option.bind (behind ''tatus'' t) blanks of
        Some r \<Rightarrow> if behind ''tasks'' r \<noteq> None then Some Cmd_tasks else if behind ''net'' r \<noteq> None then Some Cmd_net else None | None \<Rightarrow> None)"
      using Cons 3 by (simp add: command_of_def split: option.split)
    show ?thesis
    proof (cases "behind ''tatus'' t")
      case None
      then show ?thesis using control_words(6) [of t] com run by simp
    next
      case (Some u)
      then have run: "control_run 1 req = control_run 23 u" using control_words(6) [of t] run by simp
      show ?thesis
      proof (cases "blanks u")
        case None
        then show ?thesis using control_blanks(2) [of u] com run Some by simp
      next
        case (Some r)
        then have run: "control_run 1 req = control_run 24 r" using control_blanks(2) [of u] run by simp
        have com: "command_of req = (if behind ''tasks'' r \<noteq> None then Some Cmd_tasks else if behind ''net'' r \<noteq> None then Some Cmd_net else None)"
          using com Some \<open>behind ''tatus'' t = Some u\<close> by simp
        show ?thesis
        proof (cases r)
          case Nil
          then show ?thesis using com run by (simp add: control_case_def)
        next
          case (Cons d v)
          then have ns: "\<not> isspace d" using blanks_head [OF Some] by simp
          have dc: "schar d = 110 \<longleftrightarrow> d = CHR ''n''" "schar d = 116 \<longleftrightarrow> d = CHR ''t''"
            using schar_inj [of d "CHR ''n''"] schar_inj [of d "CHR ''t''"] by (simp_all add: schar_def)
          consider "d = CHR ''n''" | "d = CHR ''t''" | "d \<noteq> CHR ''n''" "d \<noteq> CHR ''t''" by blast
          then show ?thesis
          proof cases
            case 1
            then have "control_run 24 r = control_run 25 v" using Cons by (simp add: control_case_def schar_def)
            then show ?thesis using control_words(3) [of v] com run Cons 1 by (simp split: option.splits)
          next
            case 2
            then have "control_run 24 r = control_run 27 v" using Cons by (simp add: control_case_def schar_def)
            then show ?thesis using control_words(4) [of v] com run Cons 2 by (simp split: option.splits)
          next
            case 3
            then have "control_case 24 (schar d) = St 0" using ns dc by (auto simp: control_case_def schar_class)
            then show ?thesis using com run Cons 3 by simp
          qed
        qed
      qed
    qed
  next
    case 4
    then have "control_run 1 req = control_run 31 t" using Cons by (simp add: control_case_def schar_def)
    moreover have "command_of req = (if behind ''ime'' t = None then None else Some Cmd_time)"
      using Cons 4 by (simp add: command_of_def split: option.split)
    ultimately show ?thesis using control_words(2) [of t] by (simp split: option.splits)
  next
    case 5
    then have "control_case 1 (schar c) = St 0" using codes by (simp add: control_case_def)
    then show ?thesis using Cons 5 by (simp add: command_of_def)
  qed
qed

lemma execute_acts:
  assumes "control_run 1 req = Inr (l, p)" "l \<noteq> St 0" "p \<noteq> []"
  shows "Control_execute reg s now req = control_act reg s now l p"
  using assms by (cases "control_act reg s now l p") (simp_all add: Control_execute_def)

lemma execute_rejects:
  "control_run 1 req = Inr (St 0, p) \<Longrightarrow>
   Control_execute reg s now req = Inr (answer (if p \<noteq> [] then parsing_error req (length p) else fatal_error))"
  by (simp add: Control_execute_def)

lemma executed:
  "case command_of req of
     Some Cmd_stop \<Rightarrow> \<exists>p. Control_execute reg s now req = control_act reg s now Tr15 p
   | Some Cmd_time \<Rightarrow> \<exists>p. Control_execute reg s now req = control_act reg s now Tr37 p
   | Some Cmd_tasks \<Rightarrow> \<exists>p. Control_execute reg s now req = control_act reg s now Tr34 p
   | Some Cmd_net \<Rightarrow> \<exists>p. Control_execute reg s now req = control_act reg s now Tr30 p
   | Some (Cmd_kill r) \<Rightarrow> Control_execute reg s now req = control_act reg s now Tr20 r
   | None \<Rightarrow> (\<exists>q p. req = q @ p \<and> Control_execute reg s now req =
       Inr (answer (if p \<noteq> [] then parsing_error req (length p) else fatal_error)))"
proof (cases "command_of req")
  case None
  then obtain p where p: "control_run 1 req = Inr (St 0, p)" using control_run_command [of req] by (auto simp: stuck_def)
  obtain q where "req = q @ p" using control_run_left [OF p] by blast
  then show ?thesis using None execute_rejects [OF p] by (simp del: append_assoc) blast
next
  case (Some c)
  show ?thesis
  proof (cases c)
    case (Cmd_kill r)
    then show ?thesis using control_run_command [of req] execute_acts [of req Tr20 r] Some by simp
  qed (use control_run_command [of req] execute_acts [of req] Some in \<open>simp, metis clabel.distinct\<close>)+
qed

section \<open>The port's answers\<close>

text \<open>
  C15: the machine accepts exactly the commands of the grammar at the head of a request (what follows them is not looked
  at), and \<^verbatim>\<open>Control_execute\<close> answers each with its report or effect; any other request has no effect and gets an error
  reply.
\<close>

theorem Control_execute_follows_grammar:
  "case command_of req of
     Some Cmd_tasks \<Rightarrow> Control_execute reg s now req = Inr (answer (taskgetinfo s))
   | Some Cmd_net \<Rightarrow> Control_execute reg s now req = Inr (answer (Register_info reg now))
   | Some Cmd_time \<Rightarrow> Control_execute reg s now req =
       Inr (answer (''{'' @ QT @ ''time'' @ QT @ '': '' @ int_digits (to_int32 now) @ ''}''))
   | Some Cmd_stop \<Rightarrow> (\<exists>r. Control_execute reg s now req = Inr \<lparr>reply = r, closed = [], running = False\<rparr>)
   | Some (Cmd_kill r) \<Rightarrow> Control_execute reg s now req = control_kill reg r
   | None \<Rightarrow> (\<exists>q p. req = q @ p \<and> Control_execute reg s now req =
       Inr (answer (if p \<noteq> [] then parsing_error req (length p) else fatal_error)))"
proof (cases "command_of req")
  case None
  then show ?thesis using executed [of req reg s now] by (simp only: option.case)
next
  case (Some c)
  show ?thesis
  proof (cases c)
    case Cmd_stop
    then show ?thesis using executed [of req reg s now] Some by (auto simp: control_act_def answer_def)
  qed (use executed [of req reg s now] Some in \<open>simp_all add: control_act_def\<close>)
qed

lemma control_kill_faults: "(\<exists>f. control_kill reg p = Inl f) \<longleftrightarrow> atoi p = MAX_REGISTERED_FDS"
  by (auto simp: control_kill_def Register_fd_for_id_def Let_def MAX_REGISTERED_FDS_def)

text \<open>
  C16: no request makes the control port read past its end or fault, but one: killing the identity 65536, which the
  port's own check lets through, ends the server by the assertion of \<^verbatim>\<open>Register_fd_for_id\<close>.
\<close>

theorem Control_execute_faults_iff:
  "(\<exists>f. Control_execute reg s now req = Inl f) \<longleftrightarrow>
     (\<exists>r. command_of req = Some (Cmd_kill r) \<and> atoi r = MAX_REGISTERED_FDS)"
proof (cases "command_of req")
  case None
  then show ?thesis using executed [of req reg s now] by (simp only: option.case) auto
next
  case (Some c)
  then show ?thesis using executed [of req reg s now] control_kill_faults
    by (cases c) (auto simp: control_act_def)
qed

lemma kill_65536: "Control_execute empty_register sched_init 0 ''kill 65536'' = Inl Assert_fail"
  by code_simp

end
