(* ===== verification/Coroutines.thy ===== *)
theory Coroutines
  imports Fdtask
begin

text \<open>
  All coroutines together: the scheduler, the ready queue, the sleepers, the locks and the poller as one transition
  system.  A step is what the running task does up to its next call into the task library or its next switch, or the
  scheduler's turn; tasks do whatever they like, as long as only holders unlock.  The invariant says where every task is,
  what the counters count, and who holds which lock.
\<close>

section \<open>The state\<close>

text \<open>
  The last five fields are not the program's: the tasks that have left without being put anywhere, those that
  \<^verbatim>\<open>tasknuke\<close> has taken out of the poller and nobody has made ready yet, and who is between taking a lock and giving it
  back.
\<close>

record sys =
  sch :: sched
  polls :: "superpoll option"
  pres :: PollResult
  lost :: "nat list"
  taken :: "nat list"
  inside :: "(nat \<times> nat) set"
  reading :: "(nat \<times> nat) multiset"
  writing :: "(nat \<times> nat) set"

text \<open>Where a task can be.\<close>

datatype place = At_run | On_list list_id | In_poll | Lost

section \<open>The invariant\<close>

definition placed :: "sched \<Rightarrow> (list_id \<Rightarrow> nat list) \<Rightarrow> nat multiset \<Rightarrow> nat list \<Rightarrow> (nat \<Rightarrow> place option) \<Rightarrow> bool" where
  "placed s A P L pl \<longleftrightarrow> task_lists s A \<and> (\<forall>t. pl t \<noteq> None \<longleftrightarrow> t \<in> set (alltask s)) \<and>
     (\<forall>t. taskrunning s = Some t \<longleftrightarrow> pl t = Some At_run) \<and> (\<forall>t l. t \<in> set (A l) \<longleftrightarrow> pl t = Some (On_list l)) \<and>
     (\<forall>t. count P t = (if pl t = Some In_poll then 1 else 0)) \<and> (\<forall>t. t \<in> set L \<longleftrightarrow> pl t = Some Lost)"

text \<open>The table of all tasks knows where each is in it, and none is on its way out.\<close>

definition table :: "sched \<Rightarrow> bool" where
  "table s \<longleftrightarrow> distinct (alltask s) \<and> (\<forall>i < length (alltask s). alltaskslot s (alltask s ! i) = i) \<and>
     (\<forall>t\<in>set (alltask s). \<not> exiting s t)"

text \<open>
  \<^verbatim>\<open>taskcount\<close> counts the tasks that are not the system's, and one more while such a task sleeps.
\<close>

definition counts :: "sched \<Rightarrow> (list_id \<Rightarrow> nat list) \<Rightarrow> bool" where
  "counts s A \<longleftrightarrow> sleepingcounted s = counted s (A Sleeping) \<and>
     taskcount s = counted s (alltask s) + (if sleepingcounted s > 0 then 1 else 0)"

text \<open>What a task does next is what it waits for.\<close>

fun waits_as :: "list_id \<Rightarrow> resume \<Rightarrow> bool" where
  "waits_as Taskrunqueue k \<longleftrightarrow> True"
| "waits_as Sleeping k \<longleftrightarrow> (\<exists>now. k = Res_delay now)"
| "waits_as (Lock_waiting l) k \<longleftrightarrow> k = Res_qlock l"
| "waits_as (Read_waiting l) k \<longleftrightarrow> k = Res_rlock l"
| "waits_as (Write_waiting l) k \<longleftrightarrow> k = Res_wlock l"
| "waits_as (Rendez_waiting r) k \<longleftrightarrow> k = Res_sleep r"

definition contexts :: "sched \<Rightarrow> (list_id \<Rightarrow> nat list) \<Rightarrow> nat multiset \<Rightarrow> bool" where
  "contexts s A P \<longleftrightarrow> (\<forall>l. \<forall>t\<in>set (A l). waits_as l (t_context s t)) \<and> (\<forall>t\<in>#P. \<exists>ok. t_context s t = Res_wait ok)"

definition base :: "sched \<Rightarrow> (list_id \<Rightarrow> nat list) \<Rightarrow> nat multiset \<Rightarrow> nat list \<Rightarrow> (nat \<Rightarrow> place option) \<Rightarrow> bool" where
  "base s A P L pl \<longleftrightarrow> placed s A P L pl \<and> table s \<and> counts s A \<and> contexts s A P \<and> by_alarm s (A Sleeping)"

text \<open>Those that have been made ready to go on as \<open>k\<close>.\<close>

definition granted :: "sched \<Rightarrow> (list_id \<Rightarrow> nat list) \<Rightarrow> resume \<Rightarrow> nat list" where
  "granted s A k = filter (\<lambda>t. t_context s t = k) (A Taskrunqueue)"

text \<open>A lock's owner is inside or about to go on inside, and nobody waits for a lock that is free.\<close>

definition qlock_ok :: "sched \<Rightarrow> (list_id \<Rightarrow> nat list) \<Rightarrow> (nat \<times> nat) set \<Rightarrow> nat \<Rightarrow> bool" where
  "qlock_ok s A I l \<longleftrightarrow> (lock_owner s l = None \<longrightarrow> A (Lock_waiting l) = []) \<and>
     (\<forall>t. lock_owner s l = Some t \<longleftrightarrow> t \<in> set (granted s A (Res_qlock l)) \<or> (t, l) \<in> I) \<and>
     (\<forall>t\<in>set (granted s A (Res_qlock l)). (t, l) \<notin> I)"

text \<open>
  The readers are those inside and those about to go on; a writer is alone; somebody waits only for somebody inside,
  and a reader only for a writer.
\<close>

definition rwlock_ok :: "sched \<Rightarrow> (list_id \<Rightarrow> nat list) \<Rightarrow> (nat \<times> nat) multiset \<Rightarrow> (nat \<times> nat) set \<Rightarrow> nat \<Rightarrow> bool" where
  "rwlock_ok s A R W l \<longleftrightarrow>
     readers s l = int (size (filter_mset (\<lambda>e. snd e = l) R)) + int (length (granted s A (Res_rlock l))) \<and>
     (\<forall>t. writer s l = Some t \<longleftrightarrow> t \<in> set (granted s A (Res_wlock l)) \<or> (t, l) \<in> W) \<and>
     (\<forall>t\<in>set (granted s A (Res_wlock l)). (t, l) \<notin> W) \<and>
     (writer s l \<noteq> None \<longrightarrow> readers s l = 0) \<and>
     (writer s l = None \<and> readers s l = 0 \<longrightarrow> A (Write_waiting l) = []) \<and>
     (writer s l = None \<and> A (Write_waiting l) = [] \<longrightarrow> A (Read_waiting l) = [])"

definition polls_ok :: "superpoll option \<Rightarrow> PollResult \<Rightarrow> nat multiset \<Rightarrow> bool" where
  "polls_ok p r P \<longleftrightarrow> (case p of
     None \<Rightarrow> P = {#}
   | Some sp \<Rightarrow> (\<exists>fs as. poller sp fs as \<and> armed sp \<and> P = waiting sp as \<and> size P + 1 = nfd_hot sp + length as \<and>
       hits_size r = max_hot sp + max_idle sp))"

section \<open>Moves from place to place\<close>

lemma placedD:
  assumes "placed s A P L pl"
  shows "task_lists s A" "pl t \<noteq> None \<longleftrightarrow> t \<in> set (alltask s)" "taskrunning s = Some t \<longleftrightarrow> pl t = Some At_run"
    "t \<in> set (A l) \<longleftrightarrow> pl t = Some (On_list l)" "count P t = (if pl t = Some In_poll then 1 else 0)"
    "t \<in># P \<longleftrightarrow> pl t = Some In_poll" "t \<in> set L \<longleftrightarrow> pl t = Some Lost"
proof -
  show c: "count P t = (if pl t = Some In_poll then 1 else 0)" using assms by (simp add: placed_def)
  show "t \<in># P \<longleftrightarrow> pl t = Some In_poll" using c by (metis count_greater_zero_iff less_numeral_extra(1,3))
qed (use assms in \<open>simp_all add: placed_def\<close>)

lemma placed_run_off:
  assumes "placed s A P L pl" "taskrunning s = Some t"
  shows "pl t = Some At_run" "t \<in> set (alltask s)" "t \<notin> set (A l)" "t \<notin># P" "t \<notin> set L"
proof -
  show r: "pl t = Some At_run" using assms placedD(3) [OF assms(1)] by simp
  show "t \<in> set (alltask s)" "t \<notin> set (A l)" "t \<notin># P" "t \<notin> set L"
    using r placedD(2,4,6,7) [OF assms(1), of t] by simp_all
qed

lemma placed_on_list:
  assumes "placed s A P L pl" "t \<in> set (A l)"
  shows "pl t = Some (On_list l)" "t \<in> set (alltask s)" "taskrunning s \<noteq> Some t" "k \<noteq> l \<Longrightarrow> t \<notin> set (A k)" "t \<notin># P" "t \<notin> set L"
proof -
  show r: "pl t = Some (On_list l)" using assms(2) placedD(4) [OF assms(1)] by simp
  show "t \<in> set (alltask s)" "taskrunning s \<noteq> Some t" "k \<noteq> l \<Longrightarrow> t \<notin> set (A k)" "t \<notin># P" "t \<notin> set L"
    using r placedD(2,3,4,6,7) [OF assms(1), of t] by simp_all
qed

lemma placed_front:
  assumes "placed s A P L pl" "A l = t # ts"
  shows "u \<in> set ts \<longleftrightarrow> u \<noteq> t \<and> pl u = Some (On_list l)"
proof -
  have "t \<notin> set ts" using tq.rep_once [OF placedD(1) [OF assms(1)], of l] assms(2) by auto
  then show ?thesis using placedD(4) [OF assms(1), of u l] assms(2) by auto
qed

lemma base_upd [simp]:
  "base (s\<lparr>lock_owner := a\<rparr>) A P L pl = base s A P L pl" "base (s\<lparr>readers := b\<rparr>) A P L pl = base s A P L pl"
  "base (s\<lparr>writer := c\<rparr>) A P L pl = base s A P L pl" "base (s\<lparr>t_state := d\<rparr>) A P L pl = base s A P L pl"
  "base (s\<lparr>t_name := e\<rparr>) A P L pl = base s A P L pl" "base (s\<lparr>taskexitval := f\<rparr>) A P L pl = base s A P L pl"
  by (simp_all add: base_def placed_def table_def counts_def contexts_def by_alarm_def counted_def)

text \<open>The running task gets in line.\<close>

lemma base_block:
  assumes "base s A P L pl" "taskrunning s = Some t" "waits_as l k" "l \<noteq> Sleeping"
  shows "base (blocked l name k t s) (A(l := A l @ [t])) P L (pl(t := Some (On_list l)))"
proof -
  note B = assms(1) [unfolded base_def]
  have p: "placed s A P L pl" using B by simp
  note off = placed_run_off [OF p assms(2)]
  have "task_lists (blocked l name k t s) (A(l := A l @ [t]))"
    using p off(3) by (intro blocked_lists) (auto simp: placed_def)
  then have "placed (blocked l name k t s) (A(l := A l @ [t])) P L (pl(t := Some (On_list l)))"
    using p assms(2) off unfolding placed_def by (auto simp: count_eq_zero_iff)
  moreover have "contexts (blocked l name k t s) (A(l := A l @ [t])) P"
    using B off(3,4) assms(3) unfolding contexts_def by auto
  moreover have "by_alarm (blocked l name k t s) ((A(l := A l @ [t])) Sleeping)" using B assms(4) by (simp add: by_alarm_def)
  moreover have "counts (blocked l name k t s) (A(l := A l @ [t]))" using B assms(4) by (simp add: counts_def counted_def)
  ultimately show ?thesis using B by (simp add: base_def table_def)
qed

text \<open>The first in line is made ready.\<close>

lemma base_woken:
  assumes "base s A P L pl" "A l = t # ts" "l \<noteq> Sleeping" "l \<noteq> Taskrunqueue"
  shows "base (woken l t s) (A(l := ts, Taskrunqueue := A Taskrunqueue @ [t])) P L (pl(t := Some (On_list Taskrunqueue)))"
proof -
  note B = assms(1) [unfolded base_def]
  have p: "placed s A P L pl" using B by simp
  have t: "t \<in> set (A l)" using assms(2) by simp
  note off = placed_on_list [OF p t]
  have tl: "task_lists s A" using p by (simp add: placed_def)
  have "t \<notin> set ts" using tq.rep_once [OF tl, of l] assms(2) by auto
  moreover have "task_lists (woken l t s) (A(l := ts, Taskrunqueue := A Taskrunqueue @ [t]))"
    by (rule woken_lists [OF tl assms(2,4)])
  ultimately have "placed (woken l t s) (A(l := ts, Taskrunqueue := A Taskrunqueue @ [t])) P L (pl(t := Some (On_list Taskrunqueue)))"
    using p assms(4) off placed_front [OF p assms(2)] unfolding placed_def by (auto simp: count_eq_zero_iff)
  moreover have "contexts (woken l t s) (A(l := ts, Taskrunqueue := A Taskrunqueue @ [t])) P"
    using B assms(2) unfolding contexts_def by auto
  moreover have "counts (woken l t s) (A(l := ts, Taskrunqueue := A Taskrunqueue @ [t]))"
    using B assms(3) by (simp add: counts_def counted_def)
  ultimately show ?thesis using B assms(3) by (simp add: base_def table_def by_alarm_def)
qed

text \<open>The running task yields.\<close>

definition yielded :: "nat \<Rightarrow> sched \<Rightarrow> sched" where
  "yielded t s = (taskready t s)\<lparr>t_state := (t_state s)(t := ''yield''), t_context := (t_context s)(t := Res_yield (tasknswitch s)),
     taskrunning := None\<rparr>"

lemma taskyield_eq:
  "taskrunning s = Some t \<Longrightarrow> \<not> exiting s t \<Longrightarrow> taskyield s = Inr (yielded t s)"
  by (simp add: taskyield_def with_running_def taskstate_def taskswitch_def task_switched_def yielded_def)

lemma base_yield:
  assumes "base s A P L pl" "taskrunning s = Some t"
  shows "base (yielded t s) (A(Taskrunqueue := A Taskrunqueue @ [t])) P L (pl(t := Some (On_list Taskrunqueue)))"
proof -
  note B = assms(1) [unfolded base_def]
  have p: "placed s A P L pl" using B by simp
  note off = placed_run_off [OF p assms(2)]
  have "task_lists (yielded t s) (A(Taskrunqueue := A Taskrunqueue @ [t]))"
    using taskready_lists [OF placedD(1) [OF p], of t] off(3) by (simp add: yielded_def)
  then have "placed (yielded t s) (A(Taskrunqueue := A Taskrunqueue @ [t])) P L (pl(t := Some (On_list Taskrunqueue)))"
    using p assms(2) off unfolding placed_def by (auto simp: count_eq_zero_iff yielded_def)
  moreover have "contexts (yielded t s) (A(Taskrunqueue := A Taskrunqueue @ [t])) P"
    using B off(3,4) unfolding contexts_def by (auto simp: yielded_def)
  ultimately show ?thesis using B by (simp add: base_def table_def counts_def counted_def by_alarm_def yielded_def)
qed

text \<open>The scheduler runs the first that is ready.\<close>

definition dispatched :: "nat \<Rightarrow> sched \<Rightarrow> sched" where
  "dispatched t s = (deltask Taskrunqueue t s)\<lparr>t_ready := (t_ready s)(t := False), taskrunning := Some t, tasknswitch := tasknswitch s + 1\<rparr>"

lemma taskscheduler_eq:
  assumes "task_lists s A"
  shows "taskscheduler s =
    (if taskcount s = 0 then Process_exit (taskexitval s)
     else case A Taskrunqueue of [] \<Rightarrow> Process_exit 1 | t # _ \<Rightarrow> Run_task (dispatched t s))"
  using assms by (auto simp: taskscheduler_def tq.rep_front dispatched_def Let_def split: list.split)

lemma base_run:
  assumes "base s A P L pl" "taskrunning s = None" "A Taskrunqueue = t # ts"
  shows "base (dispatched t s) (A(Taskrunqueue := ts)) P L (pl(t := Some At_run))"
proof -
  note B = assms(1) [unfolded base_def]
  have p: "placed s A P L pl" using B by simp
  have t: "t \<in> set (A Taskrunqueue)" using assms(3) by simp
  note off = placed_on_list [OF p t]
  have "remove1 t (A Taskrunqueue) = ts" using assms(3) by simp
  then have "task_lists (deltask Taskrunqueue t s) (A(Taskrunqueue := ts))" using tq.rep_del [OF placedD(1) [OF p] t] by simp
  then have "placed (dispatched t s) (A(Taskrunqueue := ts)) P L (pl(t := Some At_run))"
    using p assms(2) off placed_front [OF p assms(3)] unfolding placed_def by (auto simp: count_eq_zero_iff dispatched_def)
  moreover have "contexts (dispatched t s) (A(Taskrunqueue := ts)) P"
    using B unfolding contexts_def by (auto simp: dispatched_def)
  ultimately show ?thesis using B by (simp add: base_def table_def counts_def counted_def by_alarm_def dispatched_def)
qed

text \<open>The running task leaves without getting in line: it is in the poll now, or nowhere.\<close>

definition left_waiting :: "string \<Rightarrow> bool \<Rightarrow> nat \<Rightarrow> sched \<Rightarrow> sched" where
  "left_waiting name ok t s = s\<lparr>t_state := (t_state s)(t := take 255 name), t_context := (t_context s)(t := Res_wait ok), taskrunning := None\<rparr>"

lemma base_wait:
  assumes "base s A P L pl" "taskrunning s = Some t"
  shows "base (left_waiting name ok t s) A (add_mset t P) L (pl(t := Some In_poll))"
    "base (left_waiting name ok t s) A P (t # L) (pl(t := Some Lost))"
proof -
  note B = assms(1) [unfolded base_def]
  have p: "placed s A P L pl" using B by simp
  note off = placed_run_off [OF p assms(2)]
  have "placed (left_waiting name ok t s) A (add_mset t P) L (pl(t := Some In_poll))"
    "placed (left_waiting name ok t s) A P (t # L) (pl(t := Some Lost))"
    using p assms(2) off unfolding placed_def by (auto simp: count_eq_zero_iff left_waiting_def)
  moreover have "contexts (left_waiting name ok t s) A (add_mset t P)" "contexts (left_waiting name ok t s) A P"
    using B off(3,4) unfolding contexts_def by (auto simp: left_waiting_def)
  ultimately show "base (left_waiting name ok t s) A (add_mset t P) L (pl(t := Some In_poll))"
    "base (left_waiting name ok t s) A P (t # L) (pl(t := Some Lost))"
    using B by (simp_all add: base_def table_def counts_def counted_def by_alarm_def left_waiting_def)
qed

text \<open>What the poll has found is made ready, and what it has dropped is lost.\<close>

lemma base_hit:
  assumes "base s A (add_mset t P) L pl"
  shows "base (taskready t s) (A(Taskrunqueue := A Taskrunqueue @ [t])) P L (pl(t := Some (On_list Taskrunqueue)))"
proof -
  note B = assms [unfolded base_def]
  have p: "placed s A (add_mset t P) L pl" using B by simp
  have t: "pl t = Some In_poll" using placedD(6) [OF p, of t] by simp
  have off: "t \<notin> set (A k)" "taskrunning s \<noteq> Some t" "t \<in> set (alltask s)" "t \<notin> set L" for k
    using t placedD(2,3,4,7) [OF p, of t] by simp_all
  have c: "count P u = (if pl u = Some In_poll \<and> u \<noteq> t then 1 else 0)" for u using placedD(5) [OF p, of u] t by (auto split: if_splits)
  have "task_lists (taskready t s) (A(Taskrunqueue := A Taskrunqueue @ [t]))"
    using taskready_lists [OF placedD(1) [OF p], of t] off(1) by simp
  then have "placed (taskready t s) (A(Taskrunqueue := A Taskrunqueue @ [t])) P L (pl(t := Some (On_list Taskrunqueue)))"
    using p off t c unfolding placed_def by auto
  moreover have "contexts (taskready t s) (A(Taskrunqueue := A Taskrunqueue @ [t])) P" using B unfolding contexts_def by auto
  ultimately show ?thesis using B by (simp add: base_def table_def counts_def counted_def by_alarm_def)
qed

lemma base_drop:
  assumes "base s A (add_mset t P) L pl"
  shows "base s A P (t # L) (pl(t := Some Lost))"
proof -
  note B = assms [unfolded base_def]
  have p: "placed s A (add_mset t P) L pl" using B by simp
  have t: "pl t = Some In_poll" using placedD(6) [OF p, of t] by simp
  have off: "t \<notin> set (A k)" "taskrunning s \<noteq> Some t" "t \<in> set (alltask s)" for k
    using t placedD(2,3,4) [OF p, of t] by simp_all
  have c: "count P u = (if pl u = Some In_poll \<and> u \<noteq> t then 1 else 0)" for u using placedD(5) [OF p, of u] t by (auto split: if_splits)
  have "placed s A P (t # L) (pl(t := Some Lost))" using p off t c unfolding placed_def by auto
  then show ?thesis using B by (simp add: base_def contexts_def)
qed

text \<open>The running task goes to sleep.\<close>

lemma base_delay:
  assumes "base s A P L pl" "taskrunning s = Some t"
  shows "\<exists>s1 us vs. taskdelay ms now s = Some (Inr s1) \<and> A Sleeping = us @ vs \<and>
     base s1 (A(Sleeping := us @ t # vs)) P L (pl(t := Some (On_list Sleeping))) \<and>
     t_context s1 = (t_context s)(t := Res_delay now) \<and> taskrunning s1 = None \<and> alltask s1 = alltask s \<and>
     lock_owner s1 = lock_owner s \<and> readers s1 = readers s \<and> writer s1 = writer s \<and> rendez_lock s1 = rendez_lock s"
proof -
  note B = assms(1) [unfolded base_def]
  have p: "placed s A P L pl" using B by simp
  note off = placed_run_off [OF p assms(2)]
  let ?when = "now + ucast ms * 1000000 :: 64 word"
  let ?us = "earlier s ?when (A Sleeping)" and ?vs = "later s ?when (A Sleeping)"
  have ne: "\<not> exiting s t" using B off(2) by (simp add: table_def)
  from taskdelay_inserts [OF placedD(1) [OF p] assms(2) off(3) ne, of ms now] obtain s1 where
    d: "taskdelay ms now s = Some (Inr s1)" "task_lists s1 (A(Sleeping := ?us @ t # ?vs))"
      "s1 = (count_sleeper t s)\<lparr>t_next := t_next s1, t_prev := t_prev s1, tlists := tlists s1,
        alarmtime := (alarmtime s)(t := ?when), t_context := (t_context s)(t := Res_delay now), taskrunning := None\<rparr>" by blast
  have f: "taskrunning s1 = None" "t_context s1 = (t_context s)(t := Res_delay now)" "alarmtime s1 = (alarmtime s)(t := ?when)"
    "alltask s1 = alltask s" "alltaskslot s1 = alltaskslot s" "exiting s1 = exiting s" "t_system s1 = t_system s"
    "sleepingcounted s1 = sleepingcounted (count_sleeper t s)" "taskcount s1 = taskcount (count_sleeper t s)"
    "lock_owner s1 = lock_owner s" "readers s1 = readers s" "writer s1 = writer s" "rendez_lock s1 = rendez_lock s"
    by (subst d(3), simp)+
  have cut: "A Sleeping = ?us @ ?vs" by (simp add: earlier_later)
  then have set: "u \<in> set (?us @ t # ?vs) \<longleftrightarrow> u = t \<or> u \<in> set (A Sleeping)" for u by (metis set_append set_ConsD Un_iff list.set_intros)
  have only: "pl u \<noteq> Some At_run" if "u \<noteq> t" for u using placedD(3) [OF p, of u] assms(2) that by auto
  have "placed s1 (A(Sleeping := ?us @ t # ?vs)) P L (pl(t := Some (On_list Sleeping)))"
    using p d(2) off set f(1,4) only unfolding placed_def
    by (auto simp: count_eq_zero_iff simp del: set_append)
  moreover have "contexts s1 (A(Sleeping := ?us @ t # ?vs)) P"
    unfolding contexts_def
  proof (intro conjI allI ballI)
    show "waits_as l (t_context s1 u)" if "u \<in> set ((A(Sleeping := ?us @ t # ?vs)) l)" for l u
    proof (cases "u = t")
      case True
      with that off(3) have "l = Sleeping" by (cases "l = Sleeping") auto
      with True show ?thesis by (simp add: f(2))
    next
      case False
      with that set [of u] have "u \<in> set (A l)" by (cases "l = Sleeping") (simp_all del: set_append)
      with False show ?thesis using B by (simp add: contexts_def f(2))
    qed
    show "\<exists>ok. t_context s1 u = Res_wait ok" if "u \<in># P" for u
      using that B off(4) f(2) by (auto simp: contexts_def)
  qed
  moreover have "by_alarm s1 ((A(Sleeping := ?us @ t # ?vs)) Sleeping)"
    using by_alarm_insert [of s "A Sleeping" t s1 ?when] B off(3) f(3) by simp
  moreover have "table s1" using B f by (simp add: table_def)
  moreover have "counts s1 (A(Sleeping := ?us @ t # ?vs))"
  proof -
    have "counted s (?us @ t # ?vs) = counted s (A Sleeping) + (if t_system s t then 0 else 1)"
      by (subst cut) (simp add: counted_def)
    moreover have "counted s1 xs = counted s xs" for xs by (simp add: counted_def f)
    moreover have "0 < counted s (A Sleeping) \<or> counted s (A Sleeping) = 0"
      using counted_nonneg [of s "A Sleeping"] by (simp only: le_less) auto
    ultimately show ?thesis using B unfolding counts_def f by (auto simp: count_sleeper_def)
  qed
  ultimately show ?thesis using d(1) cut f unfolding base_def by blast
qed

text \<open>Sleepers are woken.\<close>

lemma base_wake:
  assumes "base s A P L pl"
  shows "\<exists>s1 pl'. wake_sleepers now s = Some s1 \<and>
     base s1 (A(Sleeping := not_due s now (A Sleeping), Taskrunqueue := A Taskrunqueue @ due s now (A Sleeping))) P L pl' \<and>
     t_context s1 = t_context s \<and> taskrunning s1 = taskrunning s \<and> alltask s1 = alltask s \<and>
     lock_owner s1 = lock_owner s \<and> readers s1 = readers s \<and> writer s1 = writer s \<and> rendez_lock s1 = rendez_lock s"
proof -
  note B = assms(1) [unfolded base_def]
  have p: "placed s A P L pl" using B by simp
  let ?d = "due s now (A Sleeping)" and ?n = "not_due s now (A Sleeping)"
  let ?A = "A(Sleeping := ?n, Taskrunqueue := A Taskrunqueue @ ?d)"
  from wake_sleepers_wakes [OF placedD(1) [OF p], of now] B obtain s1 where
    w: "wake_sleepers now s = Some s1" "task_lists s1 ?A"
      "s1 = s\<lparr>t_next := t_next s1, t_prev := t_prev s1, tlists := tlists s1, t_ready := (\<lambda>t. t \<in> set ?d \<or> t_ready s t),
        sleepingcounted := counted s ?n,
        taskcount := taskcount s - (if sleepingcounted s > 0 \<and> counted s ?n = 0 then 1 else 0)\<rparr>"
    by (auto simp: counts_def)
  have f: "taskrunning s1 = taskrunning s" "t_context s1 = t_context s" "alarmtime s1 = alarmtime s"
    "alltask s1 = alltask s" "alltaskslot s1 = alltaskslot s" "exiting s1 = exiting s" "t_system s1 = t_system s"
    "sleepingcounted s1 = counted s ?n" "taskcount s1 = taskcount s - (if sleepingcounted s > 0 \<and> counted s ?n = 0 then 1 else 0)"
    "lock_owner s1 = lock_owner s" "readers s1 = readers s" "writer s1 = writer s" "rendez_lock s1 = rendez_lock s"
    by (subst w(3), simp)+
  let ?pl = "\<lambda>t. if t \<in> set ?d then Some (On_list Taskrunqueue) else pl t"
  have cut: "A Sleeping = ?d @ ?n" by (simp add: due_def not_due_def)
  have dist: "distinct (?d @ ?n)" using tq.rep_once [OF placedD(1) [OF p], of Sleeping] unfolding cut [symmetric] by simp
  have dpl: "pl t = Some (On_list Sleeping)" if "t \<in> set ?d" for t
    using that placedD(4) [OF p, of t Sleeping] by (subst (asm) cut) simp
  have npl: "t \<in> set ?n \<longleftrightarrow> pl t = Some (On_list Sleeping) \<and> t \<notin> set ?d" for t
  proof -
    have "t \<in> set (?d @ ?n) \<longleftrightarrow> pl t = Some (On_list Sleeping)" using placedD(4) [OF p, of t Sleeping] cut by simp
    then show ?thesis using dist by auto
  qed
  have "t \<in> set (?A l) \<longleftrightarrow> ?pl t = Some (On_list l)" for t l
    using dpl [of t] npl [of t] placedD(4) [OF p, of t l] by auto
  moreover have "?pl t \<noteq> None \<longleftrightarrow> t \<in> set (alltask s1)" "taskrunning s1 = Some t \<longleftrightarrow> ?pl t = Some At_run"
    "count P t = (if ?pl t = Some In_poll then 1 else 0)" "t \<in> set L \<longleftrightarrow> ?pl t = Some Lost" for t
    using dpl [of t] placedD(2,3,5,7) [OF p, of t] f(1,4) by auto
  ultimately have "placed s1 ?A P L ?pl" using w(2) unfolding placed_def by blast
  moreover have "contexts s1 ?A P"
    unfolding contexts_def f
  proof (intro conjI allI ballI)
    show "waits_as l (t_context s u)" if "u \<in> set (?A l)" for l u
    proof (cases "l = Taskrunqueue")
      case False
      with that npl [of u] have "u \<in> set (A l)" using placedD(4) [OF p, of u l] by (auto split: if_splits)
      then show ?thesis using B by (auto simp: contexts_def)
    qed simp
  qed (use B in \<open>simp add: contexts_def\<close>)
  moreover have "by_alarm s1 (?A Sleeping)"
  proof -
    have "by_alarm s (?d @ ?n)" using B unfolding cut [symmetric] by simp
    then show ?thesis by (simp add: by_alarm_def f sorted_append)
  qed
  moreover have "table s1" using B f by (simp add: table_def)
  moreover have "counts s1 ?A"
  proof -
    have "counted s1 xs = counted s xs" for xs by (simp add: counted_def f)
    moreover have "counted s (A Sleeping) = counted s ?d + counted s ?n" by (subst cut) (simp add: counted_def)
    moreover have "0 < counted s ?d \<or> counted s ?d = 0" "0 < counted s ?n \<or> counted s ?n = 0"
      using counted_nonneg [of s ?d] counted_nonneg [of s ?n] by (simp_all only: le_less) auto
    ultimately show ?thesis using B unfolding counts_def f by auto
  qed
  ultimately show ?thesis using w(1) f unfolding base_def by blast
qed

text \<open>A new task, at an address that is not in use.\<close>

lemma counted_fresh: "t \<notin> set ts \<Longrightarrow> counted s' ts = counted s ts" if "\<And>u. u \<noteq> t \<Longrightarrow> t_system s' u = t_system s u"
  using that by (intro counted_cong) metis

definition created :: "nat \<Rightarrow> sched \<Rightarrow> sched" where
  "created t s = (let s1 = taskalloc t s in
     taskready t (s1\<lparr>taskcount := taskcount s1 + 1, alltaskslot := (alltaskslot s1)(t := length (alltask s1)), alltask := alltask s1 @ [t]\<rparr>))"

lemma taskcreate_eq:
  "length (alltask s) mod TASK_LIST_GROWTH \<noteq> 0 \<or> mem_ok \<Longrightarrow>
   taskcreate (Some t) mem_ok s = Inr (to_int32 (taskidgen s + 1), created t s)"
  by (auto simp: taskcreate_def created_def taskalloc_def Let_def)

lemma task_list_cong:
  assumes "\<And>t. t \<in> set ts \<Longrightarrow> t_next s' t = t_next s t \<and> t_prev s' t = t_prev s t" "tlists s' l = tlists s l"
  shows "task_list s' l ts = task_list s l ts"
  using linked_cong [of ts "t_next s'" "t_next s" "t_prev s'" "t_prev s" None None] assms by (auto simp: task_list_def)

lemma taskalloc_lists:
  assumes "task_lists s A" "\<And>l. t \<notin> set (A l)"
  shows "task_lists (taskalloc t s) A"
proof -
  have "task_list (taskalloc t s) l (A l) = task_list s l (A l)" for l
    using assms(2) [of l] by (intro task_list_cong) (auto simp: taskalloc_def Let_def)
  then show ?thesis using assms(1) by (simp add: task_lists_def)
qed

lemma base_create:
  assumes "base s A P L pl" "t \<notin> set (alltask s)"
  shows "base (created t s) (A(Taskrunqueue := A Taskrunqueue @ [t])) P L (pl(t := Some (On_list Taskrunqueue)))"
proof -
  note B = assms(1) [unfolded base_def]
  have p: "placed s A P L pl" using B by simp
  have none: "pl t = None" using placedD(2) [OF p, of t] assms(2) by simp
  then have off: "t \<notin> set (A l)" "t \<notin># P" "t \<notin> set L" "taskrunning s \<noteq> Some t" for l
    using placedD(3,4,6,7) [OF p, of t] by simp_all
  have f: "taskrunning (created t s) = taskrunning s" "alltask (created t s) = alltask s @ [t]"
    "alltaskslot (created t s) = (alltaskslot s)(t := length (alltask s))" "exiting (created t s) = (exiting s)(t := False)"
    "t_system (created t s) = (t_system s)(t := False)" "t_context (created t s) = (t_context s)(t := Res_start)"
    "taskcount (created t s) = taskcount s + 1" "sleepingcounted (created t s) = sleepingcounted s"
    "alarmtime (created t s) = (alarmtime s)(t := 0)"
    by (auto simp: created_def taskalloc_def Let_def)
  have "task_lists (created t s) (A(Taskrunqueue := A Taskrunqueue @ [t]))"
    using taskready_lists [of "(taskalloc t s)\<lparr>taskcount := taskcount (taskalloc t s) + 1, alltaskslot := (alltaskslot (taskalloc t s))(t := length (alltask (taskalloc t s))),
        alltask := alltask (taskalloc t s) @ [t]\<rparr>" A t] taskalloc_lists [OF placedD(1) [OF p] off(1)] off(1)
    by (simp add: created_def Let_def)
  then have "placed (created t s) (A(Taskrunqueue := A Taskrunqueue @ [t])) P L (pl(t := Some (On_list Taskrunqueue)))"
    using p off none unfolding placed_def by (auto simp: f count_eq_zero_iff)
  moreover have "contexts (created t s) (A(Taskrunqueue := A Taskrunqueue @ [t])) P"
    using B off unfolding contexts_def by (auto simp: f)
  moreover have "by_alarm (created t s) ((A(Taskrunqueue := A Taskrunqueue @ [t])) Sleeping)"
  proof -
    have "map (alarmtime (created t s)) (A Sleeping) = map (alarmtime s) (A Sleeping)" using off(1) by (auto simp: f)
    moreover have "(A(Taskrunqueue := A Taskrunqueue @ [t])) Sleeping = A Sleeping" by simp
    ultimately show ?thesis using B unfolding by_alarm_def by metis
  qed
  moreover have "table (created t s)" using B assms(2) by (auto simp: table_def f nth_append)
  moreover have "counts (created t s) (A(Taskrunqueue := A Taskrunqueue @ [t]))"
  proof -
    have "counted (created t s) xs = counted s xs" if "t \<notin> set xs" for xs using that by (intro counted_cong) (auto simp: f)
    moreover have "counted (created t s) (alltask s @ [t]) = counted (created t s) (alltask s) + 1" by (simp add: counted_def f)
    ultimately show ?thesis using B off(1) assms(2) by (simp add: counts_def f)
  qed
  ultimately show ?thesis by (simp add: base_def)
qed

text \<open>The running task becomes one of the system's.\<close>

lemma base_system:
  assumes "base s A P L pl" "taskrunning s = Some t" "tasksystem s = Inr s1"
  shows "base s1 A P L pl" "s1 = s\<lparr>t_system := t_system s1, taskcount := taskcount s1\<rparr>"
proof -
  note B = assms(1) [unfolded base_def]
  have p: "placed s A P L pl" using B by simp
  note off = placed_run_off [OF p assms(2)]
  show s1: "s1 = s\<lparr>t_system := t_system s1, taskcount := taskcount s1\<rparr>"
    using assms(2,3) by (auto simp: tasksystem_def with_running_def split: if_splits)
  have f: "task_lists s1 A = task_lists s A" "taskrunning s1 = taskrunning s" "alltask s1 = alltask s" "alltaskslot s1 = alltaskslot s"
    "exiting s1 = exiting s" "t_context s1 = t_context s" "sleepingcounted s1 = sleepingcounted s" "alarmtime s1 = alarmtime s"
    by (subst s1, simp)+
  show "base s1 A P L pl"
  proof (cases "t_system s t")
    case True
    then show ?thesis using assms by (simp add: tasksystem_def with_running_def)
  next
    case False
    then have g: "t_system s1 = (t_system s)(t := True)" "taskcount s1 = taskcount s - 1"
      using assms(2,3) by (auto simp: tasksystem_def with_running_def)
    obtain us vs where u: "alltask s = us @ t # vs" using split_list [OF off(2)] by blast
    have d: "distinct (us @ t # vs)" using B unfolding table_def u by simp
    have c: "counted s1 xs = counted s xs" if "t \<notin> set xs" for xs using that by (intro counted_cong) (auto simp: g)
    have "counted s1 (us @ t # vs) = counted s (us @ t # vs) - 1"
      using c [of us] c [of vs] d False by (simp add: counted_def g)
    moreover have "counted s1 (A Sleeping) = counted s (A Sleeping)" using c off(3) by simp
    ultimately have "counts s1 A" using B by (simp add: counts_def f g u)
    then show ?thesis using B by (simp add: base_def placed_def table_def contexts_def by_alarm_def f)
  qed
qed

text \<open>The running task ends: the last of the table takes its slot.\<close>

definition ended :: "int \<Rightarrow> nat \<Rightarrow> sched \<Rightarrow> sched" where
  "ended val t s =
     (let i = alltaskslot s t; n = length (alltask s) - 1; q = alltask s ! n in
      s\<lparr>taskexitval := val, exiting := (exiting s)(t := True), t_context := (t_context s)(t := Res_start), taskrunning := None,
        taskcount := (if t_system s t then taskcount s else taskcount s - 1),
        alltask := take n ((alltask s)[i := q]), alltaskslot := (alltaskslot s)(q := i)\<rparr>)"

lemma taskexit_eq:
  assumes "taskrunning s = Some t" "table s" "t \<in> set (alltask s)"
  shows "taskexit val s = Inr (ended val t s)"
proof -
  from assms(2,3) have "alltaskslot s t < length (alltask s)" by (auto simp: table_def in_set_conv_nth)
  then show ?thesis using assms(1)
    by (simp add: taskexit_def taskswitch_def with_running_def task_switched_def ended_def Let_def)
qed

text \<open>Taking the entry at \<open>i\<close> out of a list by moving the last one there.\<close>

lemma swap_out:
  assumes "distinct xs" "i < length xs"
  shows "mset xs = mset (xs ! i # take (length xs - 1) (xs[i := last xs]))"
    "distinct (xs ! i # take (length xs - 1) (xs[i := last xs]))" "set (take (length xs - 1) (xs[i := last xs])) = set xs - {xs ! i}"
proof -
  have t: "take (length xs - 1) (xs[i := last xs]) = butlast (xs[i := last xs])" by (simp add: butlast_conv_take)
  show m: "mset xs = mset (xs ! i # take (length xs - 1) (xs[i := last xs]))"
    unfolding t using mset_compact [OF assms(2)] by simp
  show d: "distinct (xs ! i # take (length xs - 1) (xs[i := last xs]))"
    using mset_eq_imp_distinct_iff [OF m] assms(1) by simp
  show "set (take (length xs - 1) (xs[i := last xs])) = set xs - {xs ! i}"
    using mset_eq_setD [OF m] d by auto
qed

lemma base_exit:
  assumes "base s A P L pl" "taskrunning s = Some t"
  shows "base (ended val t s) A P L (pl(t := None))" "set (alltask (ended val t s)) = set (alltask s) - {t}"
proof -
  note B = assms(1) [unfolded base_def]
  have p: "placed s A P L pl" using B by simp
  note off = placed_run_off [OF p assms(2)]
  let ?xs = "alltask s" and ?i = "alltaskslot s t"
  have tb: "distinct ?xs" "\<And>j. j < length ?xs \<Longrightarrow> alltaskslot s (?xs ! j) = j" "\<forall>u\<in>set ?xs. \<not> exiting s u"
    using B by (auto simp: table_def)
  obtain j where "j < length ?xs" "?xs ! j = t" using off(2) by (auto simp: in_set_conv_nth)
  then have i: "?i < length ?xs" "?xs ! ?i = t" using tb(2) by auto
  then have ne: "?xs \<noteq> []" by auto
  let ?ys = "take (length ?xs - 1) (?xs[?i := last ?xs])"
  note sw = swap_out [OF tb(1) i(1), unfolded i(2)]
  have q: "?xs ! (length ?xs - 1) = last ?xs" using ne by (simp add: last_conv_nth)
  have f: "alltask (ended val t s) = ?ys" "alltaskslot (ended val t s) = (alltaskslot s)(last ?xs := ?i)"
    "taskrunning (ended val t s) = None" "exiting (ended val t s) = (exiting s)(t := True)"
    "t_context (ended val t s) = (t_context s)(t := Res_start)" "t_system (ended val t s) = t_system s"
    "taskcount (ended val t s) = (if t_system s t then taskcount s else taskcount s - 1)"
    "sleepingcounted (ended val t s) = sleepingcounted s" "alarmtime (ended val t s) = alarmtime s"
    "task_lists (ended val t s) A = task_lists s A"
    using q by (simp_all add: ended_def Let_def)
  show al: "set (alltask (ended val t s)) = set ?xs - {t}" using sw(3) f(1) by simp
  have only: "pl u \<noteq> Some At_run" if "u \<noteq> t" for u using placedD(3) [OF p, of u] assms(2) that by auto
  have "placed (ended val t s) A P L (pl(t := None))"
    using p off al only unfolding placed_def f by (auto simp: count_eq_zero_iff)
  moreover have "table (ended val t s)"
    unfolding table_def f
  proof (intro conjI allI impI ballI)
    show "distinct ?ys" using sw(2) by simp
    show "\<not> ((exiting s)(t := True)) u" if "u \<in> set ?ys" for u using that sw(2,3) tb(3) by auto
    show "((alltaskslot s)(last ?xs := ?i)) (?ys ! k) = k" if "k < length ?ys" for k
    proof (cases "k = ?i")
      case True
      then show ?thesis using that by simp
    next
      case False
      then have "?ys ! k = ?xs ! k" "k < length ?xs - 1" using that by auto
      moreover have "?xs ! k \<noteq> last ?xs"
        using nth_eq_iff_index_eq [OF tb(1), of k "length ?xs - 1"] \<open>k < length ?xs - 1\<close> unfolding q [symmetric] by simp
      ultimately show ?thesis using tb(2) [of k] by simp
    qed
  qed
  moreover have "counts (ended val t s) A"
  proof -
    have "counted s ?xs = counted s (t # ?ys)"
      using sw(1) unfolding counted_def by (metis mset_filter size_mset)
    moreover have "counted (ended val t s) us = counted s us" for us by (simp add: counted_def f)
    ultimately show ?thesis using B unfolding counts_def f by (auto simp: counted_def)
  qed
  moreover have "contexts (ended val t s) A P" using B off(3,4) unfolding contexts_def f by auto
  ultimately show "base (ended val t s) A P L (pl(t := None))" using B by (simp add: base_def by_alarm_def f)
qed

end
