(* ===== verification/Mutex.thy ===== *)
theory Mutex
  imports Coroutines
begin

text \<open>
  The invariant of the locks, operation by operation: what taking, giving back and handing over do to \<open>qlock_ok\<close> and
  \<open>rwlock_ok\<close>, for the lock itself and for all others.
\<close>

section \<open>What does not concern a lock\<close>

definition locks_ok :: "sched \<Rightarrow> (list_id \<Rightarrow> nat list) \<Rightarrow> (nat \<times> nat) set \<Rightarrow> (nat \<times> nat) multiset \<Rightarrow> (nat \<times> nat) set \<Rightarrow> bool" where
  "locks_ok s A I R W \<longleftrightarrow> (\<forall>l. qlock_ok s A I l) \<and> (\<forall>l. rwlock_ok s A R W l)"

definition of_lock :: "resume \<Rightarrow> bool" where
  "of_lock k \<longleftrightarrow> (case k of Res_qlock l \<Rightarrow> True | Res_rlock l \<Rightarrow> True | Res_wlock l \<Rightarrow> True | _ \<Rightarrow> False)"

lemma of_lock_simps [simp]:
  "\<not> of_lock Res_start" "\<not> of_lock (Res_yield n)" "\<not> of_lock (Res_sleep r)" "\<not> of_lock (Res_delay now)" "\<not> of_lock (Res_wait ok)"
  "of_lock (Res_qlock l)" "of_lock (Res_rlock l)" "of_lock (Res_wlock l)"
  by (simp_all add: of_lock_def)

lemma qlock_ok_cong:
  assumes "lock_owner s' l = lock_owner s l" "A' (Lock_waiting l) = A (Lock_waiting l)"
    "granted s' A' (Res_qlock l) = granted s A (Res_qlock l)" "\<And>t. (t, l) \<in> I' \<longleftrightarrow> (t, l) \<in> I"
  shows "qlock_ok s' A' I' l = qlock_ok s A I l"
  using assms by (simp add: qlock_ok_def)

lemma rwlock_ok_cong:
  assumes "readers s' l = readers s l" "writer s' l = writer s l" "A' (Read_waiting l) = A (Read_waiting l)"
    "A' (Write_waiting l) = A (Write_waiting l)" "granted s' A' (Res_rlock l) = granted s A (Res_rlock l)"
    "granted s' A' (Res_wlock l) = granted s A (Res_wlock l)"
    "filter_mset (\<lambda>e. snd e = l) R' = filter_mset (\<lambda>e. snd e = l) R" "\<And>t. (t, l) \<in> W' \<longleftrightarrow> (t, l) \<in> W"
  shows "rwlock_ok s' A' R' W' l = rwlock_ok s A R W l"
  using assms by (simp add: rwlock_ok_def)

text \<open>A move that no lock notices.\<close>

lemma locks_ok_neutral:
  assumes "locks_ok s A I R W" "lock_owner s' = lock_owner s" "readers s' = readers s" "writer s' = writer s"
    "\<And>l. A' (Lock_waiting l) = A (Lock_waiting l)" "\<And>l. A' (Read_waiting l) = A (Read_waiting l)"
    "\<And>l. A' (Write_waiting l) = A (Write_waiting l)" "\<And>k. of_lock k \<Longrightarrow> granted s' A' k = granted s A k"
  shows "locks_ok s' A' I R W"
  using assms qlock_ok_cong [of s' _ s A' A I I] rwlock_ok_cong [of s' _ s A' A R R W W] by (simp add: locks_ok_def)

section \<open>Who has been made ready\<close>

lemma granted_append:
  assumes "A' Taskrunqueue = A Taskrunqueue @ us" "\<And>t. t \<in> set (A Taskrunqueue) \<Longrightarrow> t_context s' t = t_context s t"
  shows "granted s' A' k = granted s A k @ filter (\<lambda>t. t_context s' t = k) us"
  using assms by (auto simp: granted_def intro: filter_cong)

lemma granted_same:
  assumes "A' Taskrunqueue = A Taskrunqueue" "\<And>t. t \<in> set (A Taskrunqueue) \<Longrightarrow> t_context s' t = t_context s t"
  shows "granted s' A' k = granted s A k"
  using granted_append [of A' A "[]" s' s k] assms by simp

lemma granted_front:
  assumes "A Taskrunqueue = t # ts" "A' Taskrunqueue = ts" "t_context s' = t_context s"
  shows "granted s A k = (if t_context s t = k then [t] else []) @ granted s' A' k"
  using assms by (simp add: granted_def)

lemma granted_upd [simp]:
  "granted (s\<lparr>lock_owner := a\<rparr>) A k = granted s A k" "granted (s\<lparr>readers := b\<rparr>) A k = granted s A k"
  "granted (s\<lparr>writer := c\<rparr>) A k = granted s A k"
  by (simp_all add: granted_def)

lemma granted_distinct:
  assumes "task_lists s A"
  shows "distinct (granted s A k)"
  using tq.rep_once [OF assms, of Taskrunqueue] by (simp add: granted_def)

lemma qlock_ok_upd [simp]:
  "qlock_ok (s\<lparr>readers := b\<rparr>) A I l = qlock_ok s A I l" "qlock_ok (s\<lparr>writer := c\<rparr>) A I l = qlock_ok s A I l"
  by (simp_all add: qlock_ok_def)

lemma rwlock_ok_upd [simp]:
  "rwlock_ok (s\<lparr>lock_owner := a\<rparr>) A R W l = rwlock_ok s A R W l"
  by (simp add: rwlock_ok_def)

section \<open>Queueing locks\<close>

lemma contextsD: "contexts s A P \<Longrightarrow> t \<in> set (A l) \<Longrightarrow> waits_as l (t_context s t)"
  by (simp add: contexts_def)

lemma qlock_free:
  assumes "qlock_ok s A I l" "lock_owner s l = None"
  shows "granted s A (Res_qlock l) = []" "(u, l) \<notin> I"
proof -
  show "(u, l) \<notin> I" using assms by (simp add: qlock_ok_def)
  have "t \<notin> set (granted s A (Res_qlock l))" for t using assms by (simp add: qlock_ok_def)
  then show "granted s A (Res_qlock l) = []" by (metis list.set_sel(1))
qed

lemma locks_ok_take:
  assumes "locks_ok s A I R W" "lock_owner s l = None"
  shows "locks_ok (s\<lparr>lock_owner := (lock_owner s)(l := Some t)\<rparr>) A (insert (t, l) I) R W"
proof -
  let ?s = "s\<lparr>lock_owner := (lock_owner s)(l := Some t)\<rparr>"
  have "qlock_ok ?s A (insert (t, l) I) k" for k
  proof (cases "k = l")
    case True
    have "qlock_ok s A I l" using assms(1) by (simp add: locks_ok_def)
    note f = qlock_free [OF this assms(2)]
    show ?thesis unfolding True qlock_ok_def granted_upd f(1) using f(2) by auto
  next
    case False
    then have "qlock_ok ?s A (insert (t, l) I) k = qlock_ok s A I k" by (intro qlock_ok_cong) auto
    then show ?thesis using assms(1) by (simp add: locks_ok_def)
  qed
  then show ?thesis using assms(1) by (simp add: locks_ok_def)
qed

lemma locks_ok_wait:
  assumes "locks_ok s A I R W" "lock_owner s l \<noteq> None" "t \<notin> set (A Taskrunqueue)"
  shows "locks_ok (blocked (Lock_waiting l) name k t s) (A(Lock_waiting l := A (Lock_waiting l) @ [t])) I R W"
proof -
  let ?s = "blocked (Lock_waiting l) name k t s" and ?A = "A(Lock_waiting l := A (Lock_waiting l) @ [t])"
  have g: "granted ?s ?A j = granted s A j" for j using assms(3) by (intro granted_same) auto
  have "qlock_ok ?s ?A I j" for j
    using assms(1,2) by (cases "j = l") (auto simp: locks_ok_def qlock_ok_def g)
  moreover have "rwlock_ok ?s ?A R W j = rwlock_ok s A R W j" for j by (intro rwlock_ok_cong) (auto simp: g)
  ultimately show ?thesis using assms(1) by (simp add: locks_ok_def)
qed

lemma qlock_holder:
  assumes "qlock_ok s A I l" "(t, l) \<in> I"
  shows "lock_owner s l = Some t" "granted s A (Res_qlock l) = []" "(u, l) \<in> I \<longleftrightarrow> u = t"
proof -
  show o: "lock_owner s l = Some t" using assms by (simp add: qlock_ok_def)
  show "granted s A (Res_qlock l) = []"
  proof (rule ccontr)
    assume "granted s A (Res_qlock l) \<noteq> []"
    then obtain u where "u \<in> set (granted s A (Res_qlock l))" by (meson list.set_sel(1))
    with assms o show False by (auto simp: qlock_ok_def)
  qed
  show "(u, l) \<in> I \<longleftrightarrow> u = t" using assms o by (auto simp: qlock_ok_def)
qed

text \<open>Giving back to nobody, and to the first in line.\<close>

lemma locks_ok_free:
  assumes "locks_ok s A I R W" "(t, l) \<in> I" "A (Lock_waiting l) = []"
  shows "locks_ok (s\<lparr>lock_owner := (lock_owner s)(l := None)\<rparr>) A (I - {(t, l)}) R W"
proof -
  let ?s = "s\<lparr>lock_owner := (lock_owner s)(l := None)\<rparr>"
  have q: "qlock_ok s A I l" using assms(1) by (simp add: locks_ok_def)
  have "qlock_ok ?s A (I - {(t, l)}) k" for k
  proof (cases "k = l")
    case True
    note h = qlock_holder [OF q assms(2)]
    show ?thesis unfolding True qlock_ok_def granted_upd h(2) using h(3) assms(3) by auto
  next
    case False
    then have "qlock_ok ?s A (I - {(t, l)}) k = qlock_ok s A I k" by (intro qlock_ok_cong) auto
    then show ?thesis using assms(1) by (simp add: locks_ok_def)
  qed
  then show ?thesis using assms(1) by (simp add: locks_ok_def)
qed

lemma locks_ok_hand:
  assumes "locks_ok s A I R W" "(t, l) \<in> I" "A (Lock_waiting l) = u # us" "t_context s u = Res_qlock l" "u \<noteq> t"
  shows "locks_ok ((woken (Lock_waiting l) u s)\<lparr>lock_owner := (lock_owner s)(l := Some u)\<rparr>)
    (A(Lock_waiting l := us, Taskrunqueue := A Taskrunqueue @ [u])) (I - {(t, l)}) R W"
proof -
  let ?s = "(woken (Lock_waiting l) u s)\<lparr>lock_owner := (lock_owner s)(l := Some u)\<rparr>"
    and ?A = "A(Lock_waiting l := us, Taskrunqueue := A Taskrunqueue @ [u])"
  have q: "qlock_ok s A I l" using assms(1) by (simp add: locks_ok_def)
  have g: "granted (woken (Lock_waiting l) u s) ?A k = granted s A k @ (if k = Res_qlock l then [u] else [])" for k
    using granted_append [of ?A A "[u]" "woken (Lock_waiting l) u s" s k] assms(4) by auto
  have "qlock_ok ?s ?A (I - {(t, l)}) k" for k
  proof (cases "k = l")
    case True
    note h = qlock_holder [OF q assms(2)]
    have gl: "granted ?s ?A (Res_qlock l) = [u]" using g [of "Res_qlock l"] h(2) by simp
    show ?thesis unfolding True qlock_ok_def gl using h(3) assms(5) by auto
  next
    case False
    then have "qlock_ok ?s ?A (I - {(t, l)}) k = qlock_ok s A I k" by (intro qlock_ok_cong) (auto simp: g)
    then show ?thesis using assms(1) by (simp add: locks_ok_def)
  qed
  moreover have "rwlock_ok ?s ?A R W k = rwlock_ok s A R W k" for k by (intro rwlock_ok_cong) (auto simp: g)
  ultimately show ?thesis using assms(1) by (simp add: locks_ok_def)
qed

text \<open>Going on inside.\<close>

lemma locks_ok_enter:
  assumes "locks_ok s A I R W" "A Taskrunqueue = t # ts" "t \<notin> set ts" "t_context s t = Res_qlock l"
  shows "locks_ok (dispatched t s) (A(Taskrunqueue := ts)) (insert (t, l) I) R W" "lock_owner s l = Some t"
proof -
  let ?s = "dispatched t s" and ?A = "A(Taskrunqueue := ts)"
  have f: "t_context ?s = t_context s" "lock_owner ?s = lock_owner s" "readers ?s = readers s" "writer ?s = writer s"
    by (simp_all add: dispatched_def)
  have q: "qlock_ok s A I l" using assms(1) by (simp add: locks_ok_def)
  have g: "granted s A k = (if k = Res_qlock l then [t] else []) @ granted ?s ?A k" for k
    using granted_front [of A t ts ?A ?s s k] assms(2,4) f(1) by auto
  then have t: "t \<in> set (granted s A (Res_qlock l))" by simp
  then show o: "lock_owner s l = Some t" using q by (simp add: qlock_ok_def)
  have "qlock_ok ?s ?A (insert (t, l) I) k" for k
  proof (cases "k = l")
    case True
    have nt: "t \<notin> set (granted ?s ?A (Res_qlock l))" using assms(3) by (simp add: granted_def)
    have e: "u \<in> set (granted s A (Res_qlock l)) \<or> (u, l) \<in> I \<longleftrightarrow> u = t" for u using q o by (auto simp: qlock_ok_def)
    have "u \<in> set (granted ?s ?A (Res_qlock l)) \<Longrightarrow> u = t" for u using e [of u] g [of "Res_qlock l"] by simp
    with nt have "granted ?s ?A (Res_qlock l) = []" by (metis list.set_sel(1))
    moreover have "(u, l) \<in> I \<Longrightarrow> u = t" for u using e [of u] by simp
    ultimately show ?thesis unfolding True qlock_ok_def using o f(2) by auto
  next
    case False
    then have "qlock_ok ?s ?A (insert (t, l) I) k = qlock_ok s A I k" using g [of "Res_qlock k"] by (intro qlock_ok_cong) (auto simp: f)
    then show ?thesis using assms(1) by (simp add: locks_ok_def)
  qed
  moreover have "rwlock_ok ?s ?A R W k = rwlock_ok s A R W k" for k
    using g [of "Res_rlock k"] g [of "Res_wlock k"] by (intro rwlock_ok_cong) (auto simp: f)
  ultimately show "locks_ok ?s ?A (insert (t, l) I) R W" using assms(1) by (simp add: locks_ok_def)
qed

section \<open>Reader-writer locks\<close>

lemma rwlock_no_writer:
  assumes "rwlock_ok s A R W l" "writer s l = None"
  shows "granted s A (Res_wlock l) = []" "(u, l) \<notin> W"
proof -
  show "(u, l) \<notin> W" using assms by (simp add: rwlock_ok_def)
  have "t \<notin> set (granted s A (Res_wlock l))" for t using assms by (simp add: rwlock_ok_def)
  then show "granted s A (Res_wlock l) = []" by (metis list.set_sel(1))
qed

lemma rwlock_writer:
  assumes "rwlock_ok s A R W l" "(t, l) \<in> W"
  shows "writer s l = Some t" "readers s l = 0" "granted s A (Res_wlock l) = []" "granted s A (Res_rlock l) = []"
    "filter_mset (\<lambda>e. snd e = l) R = {#}" "(u, l) \<in> W \<longleftrightarrow> u = t"
proof -
  show w: "writer s l = Some t" using assms by (simp add: rwlock_ok_def)
  then show r: "readers s l = 0" using assms by (auto simp: rwlock_ok_def)
  with assms(1) have "int (size (filter_mset (\<lambda>e. snd e = l) R)) + int (length (granted s A (Res_rlock l))) = 0"
    unfolding rwlock_ok_def by metis
  then have "size (filter_mset (\<lambda>e. snd e = l) R) = 0" "length (granted s A (Res_rlock l)) = 0" by linarith+
  then show "granted s A (Res_rlock l) = []" "filter_mset (\<lambda>e. snd e = l) R = {#}" by (simp_all only: length_0_conv size_eq_0_iff_empty)
  show "(u, l) \<in> W \<longleftrightarrow> u = t" using assms w by (auto simp: rwlock_ok_def)
  show "granted s A (Res_wlock l) = []"
  proof (rule ccontr)
    assume "granted s A (Res_wlock l) \<noteq> []"
    then obtain u where "u \<in> set (granted s A (Res_wlock l))" by (meson list.set_sel(1))
    with assms w show False by (auto simp: rwlock_ok_def)
  qed
qed

text \<open>A step that concerns the reader-writer lock \<open>l\<close> only.\<close>

lemma locks_ok_rw:
  assumes "locks_ok s A I R W" "rwlock_ok s' A' R' W' l" "lock_owner s' = lock_owner s"
    "\<And>k. A' (Lock_waiting k) = A (Lock_waiting k)" "\<And>k. granted s' A' (Res_qlock k) = granted s A (Res_qlock k)"
    "\<And>k. k \<noteq> l \<Longrightarrow> readers s' k = readers s k \<and> writer s' k = writer s k \<and> A' (Read_waiting k) = A (Read_waiting k) \<and>
       A' (Write_waiting k) = A (Write_waiting k) \<and> granted s' A' (Res_rlock k) = granted s A (Res_rlock k) \<and>
       granted s' A' (Res_wlock k) = granted s A (Res_wlock k) \<and>
       filter_mset (\<lambda>e. snd e = k) R' = filter_mset (\<lambda>e. snd e = k) R \<and> (\<forall>t. (t, k) \<in> W' \<longleftrightarrow> (t, k) \<in> W)"
  shows "locks_ok s' A' I R' W'"
proof -
  have "rwlock_ok s' A' R' W' k" for k
  proof (cases "k = l")
    case False
    then have "rwlock_ok s' A' R' W' k = rwlock_ok s A R W k" using assms(6) [OF False] by (intro rwlock_ok_cong) auto
    then show ?thesis using assms(1) by (simp add: locks_ok_def)
  qed (use assms(2) in simp)
  moreover have "qlock_ok s' A' I k = qlock_ok s A I k" for k using assms(3-5) by (intro qlock_ok_cong) auto
  ultimately show ?thesis using assms(1) by (simp add: locks_ok_def)
qed

text \<open>Taking it at once.\<close>

lemma locks_ok_rtake:
  assumes "locks_ok s A I R W" "writer s l = None" "A (Write_waiting l) = []"
  shows "locks_ok (s\<lparr>readers := (readers s)(l := readers s l + 1)\<rparr>) A I (add_mset (t, l) R) W"
proof (rule locks_ok_rw [OF assms(1), where l = l])
  have "rwlock_ok s A R W l" using assms(1) by (simp add: locks_ok_def)
  then show "rwlock_ok (s\<lparr>readers := (readers s)(l := readers s l + 1)\<rparr>) A (add_mset (t, l) R) W l"
    using assms(2,3) by (simp add: rwlock_ok_def)
qed auto

lemma locks_ok_wtake:
  assumes "locks_ok s A I R W" "writer s l = None" "readers s l = 0"
  shows "locks_ok (s\<lparr>writer := (writer s)(l := Some t)\<rparr>) A I R (insert (t, l) W)"
proof (rule locks_ok_rw [OF assms(1), where l = l])
  have r: "rwlock_ok s A R W l" using assms(1) by (simp add: locks_ok_def)
  note f = rwlock_no_writer [OF r assms(2)]
  show "rwlock_ok (s\<lparr>writer := (writer s)(l := Some t)\<rparr>) A R (insert (t, l) W) l"
    using r assms(2,3) f unfolding rwlock_ok_def granted_upd f(1) by auto
qed auto

text \<open>Getting in line.\<close>

lemma locks_ok_rwait:
  assumes "locks_ok s A I R W" "\<not> (writer s l = None \<and> A (Write_waiting l) = [])" "t \<notin> set (A Taskrunqueue)"
  shows "locks_ok (blocked (Read_waiting l) name k t s) (A(Read_waiting l := A (Read_waiting l) @ [t])) I R W"
proof -
  let ?s = "blocked (Read_waiting l) name k t s" and ?A = "A(Read_waiting l := A (Read_waiting l) @ [t])"
  have g: "granted ?s ?A j = granted s A j" for j using assms(3) by (intro granted_same) auto
  show ?thesis
  proof (rule locks_ok_rw [OF assms(1), where l = l])
    have "rwlock_ok s A R W l" using assms(1) by (simp add: locks_ok_def)
    then show "rwlock_ok ?s ?A R W l" using assms(2) by (auto simp: rwlock_ok_def g)
  qed (auto simp: g)
qed

lemma locks_ok_wwait:
  assumes "locks_ok s A I R W" "\<not> (writer s l = None \<and> readers s l = 0)" "t \<notin> set (A Taskrunqueue)"
  shows "locks_ok (blocked (Write_waiting l) name k t s) (A(Write_waiting l := A (Write_waiting l) @ [t])) I R W"
proof -
  let ?s = "blocked (Write_waiting l) name k t s" and ?A = "A(Write_waiting l := A (Write_waiting l) @ [t])"
  have g: "granted ?s ?A j = granted s A j" for j using assms(3) by (intro granted_same) auto
  show ?thesis
  proof (rule locks_ok_rw [OF assms(1), where l = l])
    have "rwlock_ok s A R W l" using assms(1) by (simp add: locks_ok_def)
    then show "rwlock_ok ?s ?A R W l" using assms(2) by (auto simp: rwlock_ok_def g)
  qed (auto simp: g)
qed

text \<open>A writer is let in when nobody is inside any more.\<close>

lemma let_writer_in_keeps [simp]:
  "taskrunning (let_writer_in l s) = taskrunning s" "alltask (let_writer_in l s) = alltask s"
  "rendez_lock (let_writer_in l s) = rendez_lock s"
  by (cases "readers s l = 0"; cases "list_head (Write_waiting l) s"; simp add: let_writer_in_def Let_def)+

lemma writer_let_in:
  assumes "base s A P L pl" "locks_ok s0 A0 I R0 W" "lock_owner s = lock_owner s0" "\<And>k. A (Lock_waiting k) = A0 (Lock_waiting k)"
    "\<And>k. k \<noteq> Res_rlock l \<Longrightarrow> k \<noteq> Res_wlock l \<Longrightarrow> granted s A k = granted s0 A0 k"
    "writer s l = None" "readers s l = int (size (filter_mset (\<lambda>e. snd e = l) R)) + int (length (granted s A (Res_rlock l)))"
    "\<And>u. (u, l) \<notin> W'" "granted s A (Res_wlock l) = []" "A (Write_waiting l) = [] \<longrightarrow> A (Read_waiting l) = []"
    "\<And>k. k \<noteq> l \<Longrightarrow> readers s k = readers s0 k \<and> writer s k = writer s0 k \<and> A (Read_waiting k) = A0 (Read_waiting k) \<and>
       A (Write_waiting k) = A0 (Write_waiting k) \<and>
       filter_mset (\<lambda>e. snd e = k) R = filter_mset (\<lambda>e. snd e = k) R0 \<and> (\<forall>t. (t, k) \<in> W' \<longleftrightarrow> (t, k) \<in> W)"
  shows "\<exists>A' pl'. base (let_writer_in l s) A' P L pl' \<and> locks_ok (let_writer_in l s) A' I R W'"
proof -
  have p: "placed s A P L pl" and c: "contexts s A P" using assms(1) by (simp_all add: base_def)
  show ?thesis
  proof (cases "readers s l = 0 \<and> A (Write_waiting l) \<noteq> []")
    case True
    then obtain u us where u: "A (Write_waiting l) = u # us" by (cases "A (Write_waiting l)") auto
    let ?w = "woken (Write_waiting l) u s" and ?A = "A(Write_waiting l := us, Taskrunqueue := A Taskrunqueue @ [u])"
    let ?s = "?w\<lparr>writer := (writer s)(l := Some u)\<rparr>"
    have e: "let_writer_in l s = ?s" using let_writer_in_cases [OF placedD(1) [OF p], of l] u True by simp
    have "u \<in> set (A (Write_waiting l))" using u by simp
    from contextsD [OF c this] have ctx: "t_context s u = Res_wlock l" by simp
    have g: "granted ?w ?A k = granted s A k @ (if k = Res_wlock l then [u] else [])" for k
      using granted_append [of ?A A "[u]" ?w s k] ctx by auto
    have "locks_ok ?s ?A I R W'"
    proof (rule locks_ok_rw [OF assms(2), where l = l])
      have "size (filter_mset (\<lambda>e. snd e = l) R) = 0" "length (granted s A (Res_rlock l)) = 0" using assms(7) True by linarith+
      then show "rwlock_ok ?s ?A R W' l" using True assms(8,9) by (auto simp: rwlock_ok_def g)
    qed (use assms(3-5,11) g in auto)
    moreover have "base ?s ?A P L (pl(u := Some (On_list Taskrunqueue)))"
      using base_woken [OF assms(1) u] by simp
    ultimately show ?thesis unfolding e by blast
  next
    case False
    then have e: "let_writer_in l s = s" using let_writer_in_cases [OF placedD(1) [OF p], of l] by (auto split: list.split)
    have "locks_ok s A I R W'"
    proof (rule locks_ok_rw [OF assms(2), where l = l])
      show "rwlock_ok s A R W' l" using False assms(6-10) by (simp add: rwlock_ok_def)
    qed (use assms(3-5,11) in auto)
    with assms(1) show ?thesis unfolding e by blast
  qed
qed

lemma runlock_step:
  assumes "base s A P L pl" "locks_ok s A I R W" "(t, l) \<in># R"
  shows "\<exists>A' pl'. base (runlock l s) A' P L pl' \<and> locks_ok (runlock l s) A' I (R - {#(t, l)#}) W"
proof -
  let ?s = "s\<lparr>readers := (readers s)(l := readers s l - 1)\<rparr>"
  have r: "rwlock_ok s A R W l" using assms(2) by (simp add: locks_ok_def)
  have R: "R = add_mset (t, l) (R - {#(t, l)#})" using assms(3) by simp
  have n: "readers s l = int (size (filter_mset (\<lambda>e. snd e = l) R)) + int (length (granted s A (Res_rlock l)))"
    using r by (simp add: rwlock_ok_def)
  have m: "size (filter_mset (\<lambda>e. snd e = l) R) = Suc (size (filter_mset (\<lambda>e. snd e = l) (R - {#(t, l)#})))"
    by (subst R) simp
  then have "writer s l = None" using r n by (auto simp: rwlock_ok_def)
  note f = rwlock_no_writer [OF r this]
  have "\<exists>A' pl'. base (let_writer_in l ?s) A' P L pl' \<and> locks_ok (let_writer_in l ?s) A' I (R - {#(t, l)#}) W"
  proof (rule writer_let_in [OF _ assms(2)])
    show "A (Write_waiting l) = [] \<longrightarrow> A (Read_waiting l) = []" using r \<open>writer s l = None\<close> by (simp add: rwlock_ok_def)
    show "readers ?s k = readers s k \<and> writer ?s k = writer s k \<and> A (Read_waiting k) = A (Read_waiting k) \<and>
        A (Write_waiting k) = A (Write_waiting k) \<and> filter_mset (\<lambda>e. snd e = k) (R - {#(t, l)#}) = filter_mset (\<lambda>e. snd e = k) R \<and> (\<forall>u. (u, k) \<in> W \<longleftrightarrow> (u, k) \<in> W)" if "k \<noteq> l" for k
      using that by (subst (2) R) simp
  qed (use assms(1) f n m \<open>writer s l = None\<close> in \<open>auto simp: fun_eq_iff\<close>)
  then show ?thesis by (simp add: runlock_def)
qed

lemma base_drained:
  "base s A P L pl \<Longrightarrow> A l = ts @ us \<Longrightarrow> l \<noteq> Sleeping \<Longrightarrow> l \<noteq> Taskrunqueue \<Longrightarrow>
   \<exists>pl'. base (drained l ts s) (A(l := us, Taskrunqueue := A Taskrunqueue @ ts)) P L pl'"
proof (induction ts arbitrary: s A pl)
  case Nil
  then show ?case by (auto simp: drained_def fun_upd_idem)
next
  case (Cons t ts)
  let ?B = "A(l := ts @ us, Taskrunqueue := A Taskrunqueue @ [t])"
  have "base (woken l t s) ?B P L (pl(t := Some (On_list Taskrunqueue)))" using base_woken [of s A P L pl l t "ts @ us"] Cons.prems by simp
  moreover have "?B l = ts @ us" using Cons.prems(4) by simp
  ultimately obtain pl' where "base (drained l ts (woken l t s)) (?B(l := us, Taskrunqueue := ?B Taskrunqueue @ ts)) P L pl'"
    using Cons.IH Cons.prems(3,4) by blast
  moreover have "?B(l := us, Taskrunqueue := ?B Taskrunqueue @ ts) = A(l := us, Taskrunqueue := A Taskrunqueue @ t # ts)"
    by (auto simp: fun_eq_iff)
  moreover have "drained l (t # ts) s = drained l ts (woken l t s)" by (simp add: drained_def)
  ultimately show ?case by metis
qed

lemma wunlock_step:
  assumes "base s A P L pl" "locks_ok s A I R W" "(t, l) \<in> W"
  shows "\<exists>s1 A' pl'. wunlock l s = Some (Inr s1) \<and> base s1 A' P L pl' \<and> locks_ok s1 A' I R (W - {(t, l)}) \<and>
     taskrunning s1 = taskrunning s \<and> alltask s1 = alltask s \<and> rendez_lock s1 = rendez_lock s"
proof -
  have r: "rwlock_ok s A R W l" using assms(2) by (simp add: locks_ok_def)
  note f = rwlock_writer [OF r assms(3)]
  have p: "placed s A P L pl" and c: "contexts s A P" using assms(1) by (simp_all add: base_def)
  let ?rs = "A (Read_waiting l)"
  let ?s1 = "s\<lparr>writer := (writer s)(l := None)\<rparr>"
  let ?d = "drained (Read_waiting l) ?rs ?s1"
  let ?s2 = "?d\<lparr>readers := (readers s)(l := int (length ?rs))\<rparr>"
  let ?A = "A(Read_waiting l := [], Taskrunqueue := A Taskrunqueue @ ?rs)"
  have b1: "base ?s1 A P L pl" using assms(1) by simp
  have tl: "task_lists ?s1 A" using placedD(1) [OF p] by simp
  have w: "wunlock l s = Some (Inr (let_writer_in l ?s2))"
    using let_readers_in_holds [OF tl, of l] f(1,2) by (simp add: wunlock_def Let_def)
  from base_drained [OF b1, of "Read_waiting l" ?rs "[]"] obtain pl1 where b2: "base ?d ?A P L pl1" by auto
  have ctx: "t_context s u = Res_rlock l" if "u \<in> set ?rs" for u using contextsD [OF c that] by simp
  have g: "granted ?d ?A k = granted s A k @ (if k = Res_rlock l then ?rs else [])" for k
    using granted_append [of ?A A ?rs ?d s k] ctx by (auto simp: filter_empty_conv intro: filter_True)
  have "\<exists>A' pl'. base (let_writer_in l ?s2) A' P L pl' \<and> locks_ok (let_writer_in l ?s2) A' I R (W - {(t, l)})"
  proof (rule writer_let_in [OF _ assms(2)])
    show "base ?s2 ?A P L pl1" using b2 by simp
    show "granted ?s2 ?A k = granted s A k" if "k \<noteq> Res_rlock l" for k using g [of k] that by simp
    show "readers ?s2 l = int (size (filter_mset (\<lambda>e. snd e = l) R)) + int (length (granted ?s2 ?A (Res_rlock l)))"
      using f(4,5) g [of "Res_rlock l"] by simp
    show "granted ?s2 ?A (Res_wlock l) = []" using f(3) g [of "Res_wlock l"] by simp
    show "(u, l) \<notin> W - {(t, l)}" for u using f(6) by auto
  qed auto
  moreover have "taskrunning (let_writer_in l ?s2) = taskrunning s" "alltask (let_writer_in l ?s2) = alltask s"
    "rendez_lock (let_writer_in l ?s2) = rendez_lock s"
    by simp_all
  ultimately show ?thesis using w by blast
qed

text \<open>Going on inside.\<close>

lemma locks_ok_renter:
  assumes "locks_ok s A I R W" "A Taskrunqueue = t # ts" "t \<notin> set ts" "t_context s t = Res_rlock l"
  shows "locks_ok (dispatched t s) (A(Taskrunqueue := ts)) I (add_mset (t, l) R) W"
proof -
  let ?s = "dispatched t s" and ?A = "A(Taskrunqueue := ts)"
  have f: "t_context ?s = t_context s" "lock_owner ?s = lock_owner s" "readers ?s = readers s" "writer ?s = writer s"
    by (simp_all add: dispatched_def)
  have g: "granted s A k = (if k = Res_rlock l then [t] else []) @ granted ?s ?A k" for k
    using granted_front [of A t ts ?A ?s s k] assms(2,4) f(1) by auto
  show ?thesis
  proof (rule locks_ok_rw [OF assms(1), where l = l])
    have r: "rwlock_ok s A R W l" using assms(1) by (simp add: locks_ok_def)
    have "readers s l \<noteq> 0" using r g [of "Res_rlock l"] by (simp add: rwlock_ok_def)
    with r have "writer s l = None" unfolding rwlock_ok_def by metis
    then show "rwlock_ok ?s ?A (add_mset (t, l) R) W l"
      using r g [of "Res_rlock l"] g [of "Res_wlock l"] by (simp add: rwlock_ok_def f)
  qed (use g in \<open>auto simp: f\<close>)
qed

lemma locks_ok_wenter:
  assumes "locks_ok s A I R W" "A Taskrunqueue = t # ts" "t \<notin> set ts" "t_context s t = Res_wlock l"
  shows "locks_ok (dispatched t s) (A(Taskrunqueue := ts)) I R (insert (t, l) W)"
proof -
  let ?s = "dispatched t s" and ?A = "A(Taskrunqueue := ts)"
  have f: "t_context ?s = t_context s" "lock_owner ?s = lock_owner s" "readers ?s = readers s" "writer ?s = writer s"
    by (simp_all add: dispatched_def)
  have g: "granted s A k = (if k = Res_wlock l then [t] else []) @ granted ?s ?A k" for k
    using granted_front [of A t ts ?A ?s s k] assms(2,4) f(1) by auto
  have r: "rwlock_ok s A R W l" using assms(1) by (simp add: locks_ok_def)
  have w: "writer s l = Some t" using r g [of "Res_wlock l"] by (simp add: rwlock_ok_def)
  have e: "u \<in> set (granted s A (Res_wlock l)) \<or> (u, l) \<in> W \<longleftrightarrow> u = t" for u using r w by (auto simp: rwlock_ok_def)
  have "u \<in> set (granted ?s ?A (Res_wlock l)) \<Longrightarrow> u = t" for u using e [of u] g [of "Res_wlock l"] by simp
  moreover have "t \<notin> set (granted ?s ?A (Res_wlock l))" using assms(3) by (simp add: granted_def)
  ultimately have ge: "granted ?s ?A (Res_wlock l) = []" by (metis list.set_sel(1))
  have gw: "granted s A (Res_wlock l) = [t]" using g [of "Res_wlock l"] ge by simp
  have iw: "(u, l) \<in> W \<Longrightarrow> u = t" for u using e [of u] by simp
  show ?thesis
  proof (rule locks_ok_rw [OF assms(1), where l = l])
    show "rwlock_ok ?s ?A R (insert (t, l) W) l"
      using r w ge iw g [of "Res_rlock l"] by (auto simp: rwlock_ok_def f gw)
  qed (use g in \<open>auto simp: f\<close>)
qed

end
