(* ===== verification/Cosystem.thy ===== *)
theory Cosystem
  imports Mutex
begin

text \<open>
  What each operation of the running task, and each turn of the scheduler, does to the invariant of \<open>Coroutines\<close> and
  \<open>Mutex\<close>.  \<open>Costeps\<close> puts them together.
\<close>

section \<open>The invariant without the poller\<close>

definition good ::
    "sched \<Rightarrow> nat multiset \<Rightarrow> nat list \<Rightarrow> (nat \<times> nat) set \<Rightarrow> (nat \<times> nat) multiset \<Rightarrow> (nat \<times> nat) set \<Rightarrow> bool" where
  "good s P L I R W \<longleftrightarrow> (\<exists>A pl. base s A P L pl \<and> locks_ok s A I R W)"

lemma goodI: "base s A P L pl \<Longrightarrow> locks_ok s A I R W \<Longrightarrow> good s P L I R W"
  by (auto simp: good_def)

lemma base_running:
  assumes "base s A P L pl" "taskrunning s = Some t"
  shows "\<not> exiting s t" "t \<notin> set (A l)" "t \<in> set (alltask s)" "task_lists s A"
proof -
  have p: "placed s A P L pl" and tb: "table s" using assms(1) by (simp_all add: base_def)
  note off = placed_run_off [OF p assms(2)]
  show "t \<in> set (alltask s)" "t \<notin> set (A l)" using off by simp_all
  show "\<not> exiting s t" using tb off(2) by (simp add: table_def)
  show "task_lists s A" by (rule placedD(1) [OF p])
qed

text \<open>A move of a task that goes on with no lock, when it is put behind the others that are ready or not.\<close>

lemma locks_ok_move:
  assumes "locks_ok s A I R W" "lock_owner s' = lock_owner s" "readers s' = readers s" "writer s' = writer s"
    "A' Taskrunqueue = A Taskrunqueue @ us" "\<And>l. A' (Lock_waiting l) = A (Lock_waiting l)"
    "\<And>l. A' (Read_waiting l) = A (Read_waiting l)" "\<And>l. A' (Write_waiting l) = A (Write_waiting l)"
    "\<And>t. t \<in> set (A Taskrunqueue) \<Longrightarrow> t_context s' t = t_context s t" "\<And>t. t \<in> set us \<Longrightarrow> \<not> of_lock (t_context s' t)"
  shows "locks_ok s' A' I R W"
proof (rule locks_ok_neutral [OF assms(1-4,6-8)])
  fix k
  assume "of_lock k"
  then have "filter (\<lambda>t. t_context s' t = k) us = []" using assms(10) by (auto simp: filter_empty_conv)
  then show "granted s' A' k = granted s A k" using granted_append [of A' A us s' s k] assms(5,9) by simp
qed

section \<open>Queueing locks\<close>

lemma qlock1_step:
  assumes "good s P L I R W" "taskrunning s = Some t"
  shows "\<exists>rc s1. qlock1 l block s = Inr (rc, s1) \<and> (block \<longrightarrow> rc = 1) \<and>
     good s1 P L (if rc = 1 \<and> taskrunning s1 = Some t then insert (t, l) I else I) R W"
proof -
  from assms(1) obtain A pl where b: "base s A P L pl" and k: "locks_ok s A I R W" by (auto simp: good_def)
  note r = base_running [OF b assms(2)]
  show ?thesis
  proof (cases "lock_owner s l")
    case None
    then have "qlock1 l block s = Inr (1, s\<lparr>lock_owner := (lock_owner s)(l := Some t)\<rparr>)"
      using assms(2) by (simp add: qlock1_def with_running_def)
    moreover have "good (s\<lparr>lock_owner := (lock_owner s)(l := Some t)\<rparr>) P L (insert (t, l) I) R W"
      using b locks_ok_take [OF k None] by (intro goodI [of _ A P L pl]) simp_all
    ultimately show ?thesis using assms(2) by simp
  next
    case (Some u)
    show ?thesis
    proof (cases block)
      case True
      let ?s = "blocked (Lock_waiting l) ''qlock'' (Res_qlock l) t s"
      have "qlock1 l block s = Inr (1, ?s)"
        using Some True assms(2) block_on_eq [OF assms(2) r(1)] by (simp add: qlock1_def with_running_def)
      moreover have "good ?s P L I R W"
        using Some r(2) by (intro goodI [OF base_block [OF b assms(2)] locks_ok_wait [OF k]]) simp_all
      ultimately show ?thesis by simp
    next
      case False
      then have "qlock1 l block s = Inr (0, s)" using Some assms(2) by (simp add: qlock1_def with_running_def)
      then show ?thesis using assms(1) False by simp
    qed
  qed
qed

text \<open>The holder may have left the processor already, as in \<^verbatim>\<open>tasksleep\<close>.\<close>

lemma qunlock_base:
  assumes "base s A P L pl" "locks_ok s A I R W" "(t, l) \<in> I" "t \<notin> set (A (Lock_waiting l))"
  shows "\<exists>s1. qunlock l s = Inr s1 \<and> good s1 P L (I - {(t, l)}) R W \<and> taskrunning s1 = taskrunning s \<and> alltask s1 = alltask s \<and>
     rendez_lock s1 = rendez_lock s"
proof -
  have p: "placed s A P L pl" and c: "contexts s A P" using assms(1) by (simp_all add: base_def)
  have q: "qlock_ok s A I l" using assms(2) by (simp add: locks_ok_def)
  note h = qlock_holder [OF q assms(3)]
  show ?thesis
  proof (cases "A (Lock_waiting l)")
    case Nil
    then have "qunlock l s = Inr (s\<lparr>lock_owner := (lock_owner s)(l := None)\<rparr>)"
      using h(1) tq.rep_front [OF placedD(1) [OF p]] by (simp add: qunlock_def Let_def)
    moreover have "good (s\<lparr>lock_owner := (lock_owner s)(l := None)\<rparr>) P L (I - {(t, l)}) R W"
      using assms(1) locks_ok_free [OF assms(2,3) Nil] by (intro goodI [of _ A P L pl]) simp_all
    ultimately show ?thesis by simp
  next
    case (Cons u us)
    let ?s = "(woken (Lock_waiting l) u s)\<lparr>lock_owner := (lock_owner s)(l := Some u)\<rparr>"
    have ctx: "t_context s u = Res_qlock l" using contextsD [OF c, of u "Lock_waiting l"] Cons by simp
    have "qunlock l s = Inr ?s"
      using h(1) Cons tq.rep_front [OF placedD(1) [OF p], of "Lock_waiting l"] by (simp add: qunlock_def Let_def woken_upd)
    moreover have "u \<noteq> t" using assms(4) Cons by auto
    moreover have "base ?s (A(Lock_waiting l := us, Taskrunqueue := A Taskrunqueue @ [u])) P L (pl(u := Some (On_list Taskrunqueue)))"
      using base_woken [OF assms(1) Cons] by simp
    ultimately show ?thesis using goodI [OF _ locks_ok_hand [OF assms(2,3) Cons ctx]] by auto
  qed
qed

lemma qunlock_step:
  assumes "good s P L I R W" "taskrunning s = Some t" "(t, l) \<in> I"
  shows "\<exists>s1. qunlock l s = Inr s1 \<and> good s1 P L (I - {(t, l)}) R W \<and> taskrunning s1 = Some t"
proof -
  from assms(1) obtain A pl where b: "base s A P L pl" and k: "locks_ok s A I R W" by (auto simp: good_def)
  show ?thesis using qunlock_base [OF b k assms(3) base_running(2) [OF b assms(2)]] assms(2) by auto
qed

section \<open>Reader-writer locks\<close>

lemma rlock1_step:
  assumes "good s P L I R W" "taskrunning s = Some t"
  shows "\<exists>rc s1. rlock1 l block s = Inr (rc, s1) \<and>
     good s1 P L I (if rc = 1 \<and> taskrunning s1 = Some t then add_mset (t, l) R else R) W"
proof -
  from assms(1) obtain A pl where b: "base s A P L pl" and k: "locks_ok s A I R W" by (auto simp: good_def)
  note r = base_running [OF b assms(2)]
  have e: "list_head (Write_waiting l) s = None \<longleftrightarrow> A (Write_waiting l) = []" by (rule tq.front_None [OF r(4)])
  show ?thesis
  proof (cases "writer s l = None \<and> A (Write_waiting l) = []")
    case True
    then have "rlock1 l block s = Inr (1, s\<lparr>readers := (readers s)(l := readers s l + 1)\<rparr>)" by (simp add: rlock1_def e)
    moreover have "good (s\<lparr>readers := (readers s)(l := readers s l + 1)\<rparr>) P L I (add_mset (t, l) R) W"
      using b locks_ok_rtake [OF k] True by (intro goodI [of _ A P L pl]) simp_all
    ultimately show ?thesis using assms(2) by simp
  next
    case False
    show ?thesis
    proof (cases block)
      case True
      let ?s = "blocked (Read_waiting l) ''rlock'' (Res_rlock l) t s"
      have "rlock1 l block s = Inr (1, ?s)"
        using False True block_on_eq [OF assms(2) r(1)] by (auto simp: rlock1_def e)
      moreover have "good ?s P L I R W"
        using False r(2) by (intro goodI [OF base_block [OF b assms(2)] locks_ok_rwait [OF k]]) simp_all
      ultimately show ?thesis by simp
    next
      case nope: False
      then have "rlock1 l block s = Inr (0, s)" using False by (auto simp: rlock1_def e)
      then show ?thesis using assms(1) by simp
    qed
  qed
qed

lemma wlock1_step:
  assumes "good s P L I R W" "taskrunning s = Some t"
  shows "\<exists>rc s1. wlock1 l block s = Inr (rc, s1) \<and>
     good s1 P L I R (if rc = 1 \<and> taskrunning s1 = Some t then insert (t, l) W else W)"
proof -
  from assms(1) obtain A pl where b: "base s A P L pl" and k: "locks_ok s A I R W" by (auto simp: good_def)
  note r = base_running [OF b assms(2)]
  show ?thesis
  proof (cases "writer s l = None \<and> readers s l = 0")
    case True
    then have "wlock1 l block s = Inr (1, s\<lparr>writer := (writer s)(l := Some t)\<rparr>)"
      using assms(2) by (simp add: wlock1_def with_running_def)
    moreover have "good (s\<lparr>writer := (writer s)(l := Some t)\<rparr>) P L I R (insert (t, l) W)"
      using b locks_ok_wtake [OF k] True by (intro goodI [of _ A P L pl]) simp_all
    ultimately show ?thesis using assms(2) by simp
  next
    case False
    show ?thesis
    proof (cases block)
      case True
      let ?s = "blocked (Write_waiting l) ''wlock'' (Res_wlock l) t s"
      have "wlock1 l block s = Inr (1, ?s)"
        using False True block_on_eq [OF assms(2) r(1)] by (auto simp: wlock1_def)
      moreover have "good ?s P L I R W"
        using False r(2) by (intro goodI [OF base_block [OF b assms(2)] locks_ok_wwait [OF k]]) simp_all
      ultimately show ?thesis by simp
    next
      case nope: False
      then have "wlock1 l block s = Inr (0, s)" using False by (auto simp: wlock1_def)
      then show ?thesis using assms(1) by simp
    qed
  qed
qed

lemma runlock_good:
  assumes "good s P L I R W" "(t, l) \<in># R"
  shows "good (runlock l s) P L I (R - {#(t, l)#}) W" "taskrunning (runlock l s) = taskrunning s"
proof -
  from assms(1) obtain A pl where b: "base s A P L pl" and k: "locks_ok s A I R W" by (auto simp: good_def)
  show "good (runlock l s) P L I (R - {#(t, l)#}) W" using runlock_step [OF b k assms(2)] by (auto simp: good_def)
qed (simp add: runlock_def)

lemma wunlock_good:
  assumes "good s P L I R W" "(t, l) \<in> W"
  shows "\<exists>s1. wunlock l s = Some (Inr s1) \<and> good s1 P L I R (W - {(t, l)}) \<and> taskrunning s1 = taskrunning s"
proof -
  from assms(1) obtain A pl where b: "base s A P L pl" and k: "locks_ok s A I R W" by (auto simp: good_def)
  from wunlock_step [OF b k assms(2)] show ?thesis by (auto simp: good_def)
qed

section \<open>Rendezvous\<close>

text \<open>Unlocking does not look at what blocking writes, so the order does not matter.\<close>

lemma lists_left:
  "addtask l t (s\<lparr>t_state := f, t_context := g, taskrunning := None\<rparr>) = (addtask l t s)\<lparr>t_state := f, t_context := g, taskrunning := None\<rparr>"
  "deltask l t (s\<lparr>t_state := f, t_context := g, taskrunning := None\<rparr>) = (deltask l t s)\<lparr>t_state := f, t_context := g, taskrunning := None\<rparr>"
  by (simp_all add: addtask_def deltask_def Let_def split: option.split)

lemma woken_left:
  "woken l t (s\<lparr>t_state := f, t_context := g, taskrunning := None\<rparr>) = (woken l t s)\<lparr>t_state := f, t_context := g, taskrunning := None\<rparr>"
proof -
  have r: "s'\<lparr>t_state := f, t_context := g, taskrunning := None, t_ready := x\<rparr> =
    s'\<lparr>t_ready := x, t_state := f, t_context := g, taskrunning := None\<rparr>" for s' :: sched and x by simp
  show ?thesis unfolding woken_def taskready_def lists_left by (subst r) (simp add: lists_left)
qed

lemma qunlock_upd:
  "qunlock l (s\<lparr>t_state := f, t_context := g, taskrunning := None\<rparr>) =
   cbind (qunlock l s) (\<lambda>s1. Inr (s1\<lparr>t_state := f, t_context := g, taskrunning := None\<rparr>))"
proof (cases "lock_owner s l = None")
  case False
  then show ?thesis
    using woken_left [where l = "Lock_waiting l"]
    by (cases "list_head (Lock_waiting l) s") (simp_all add: qunlock_def list_head_def woken_upd Let_def)
qed (simp add: qunlock_def)

lemma qunlock_keeps:
  "qunlock l s = Inr s1 \<Longrightarrow> t_state s1 = t_state s \<and> t_context s1 = t_context s \<and> exiting s1 = exiting s \<and>
     taskrunning s1 = taskrunning s"
  by (auto simp: qunlock_def Let_def split: if_splits option.splits)

lemma tasksleep_eq:
  assumes "taskrunning s = Some t" "\<not> exiting s t"
  shows "tasksleep r s =
     (case rendez_lock s r of
        None \<Rightarrow> Inr (blocked (Rendez_waiting r) ''sleep'' (Res_sleep r) t s)
      | Some l \<Rightarrow> qunlock l (blocked (Rendez_waiting r) ''sleep'' (Res_sleep r) t s))"
proof (cases "rendez_lock s r")
  case None
  then show ?thesis using assms
    by (simp add: tasksleep_def with_running_def taskstate_def taskswitch_def task_switched_def blocked_def Let_def)
next
  case (Some l)
  let ?s1 = "addtask (Rendez_waiting r) t s"
  have k: "t_state ?s1 = t_state s" "t_context ?s1 = t_context s" "exiting ?s1 = exiting s" "taskrunning ?s1 = taskrunning s"
    by simp_all
  show ?thesis
  proof (cases "qunlock l ?s1")
    case (Inl e)
    then show ?thesis using Some assms(1) by (simp add: tasksleep_def with_running_def blocked_def qunlock_upd Let_def)
  next
    case (Inr s2)
    with qunlock_keeps [OF Inr] k assms show ?thesis
      using Some by (simp add: tasksleep_def with_running_def taskstate_def taskswitch_def task_switched_def blocked_def qunlock_upd Let_def)
  qed
qed

lemma tasksleep_step:
  assumes "good s P L I R W" "taskrunning s = Some t" "\<And>l. rendez_lock s r = Some l \<Longrightarrow> (t, l) \<in> I"
  shows "\<exists>s1. tasksleep r s = Inr s1 \<and> taskrunning s1 = None \<and>
     good s1 P L (case rendez_lock s r of None \<Rightarrow> I | Some l \<Rightarrow> I - {(t, l)}) R W"
proof -
  from assms(1) obtain A pl where b: "base s A P L pl" and k: "locks_ok s A I R W" by (auto simp: good_def)
  note off = base_running [OF b assms(2)]
  let ?s = "blocked (Rendez_waiting r) ''sleep'' (Res_sleep r) t s" and ?A = "A(Rendez_waiting r := A (Rendez_waiting r) @ [t])"
  have b1: "base ?s ?A P L (pl(t := Some (On_list (Rendez_waiting r))))" using base_block [OF b assms(2)] by simp
  have k1: "locks_ok ?s ?A I R W" using off(2) by (intro locks_ok_move [OF k, of _ _ "[]"]) auto
  show ?thesis
  proof (cases "rendez_lock s r")
    case None
    then show ?thesis using goodI [OF b1 k1] tasksleep_eq [OF assms(2) off(1), of r] by simp
  next
    case (Some l)
    have "t \<notin> set (?A (Lock_waiting l))" using off(2) by simp
    from qunlock_base [OF b1 k1 assms(3) [OF Some] this] show ?thesis
      using Some tasksleep_eq [OF assms(2) off(1), of r] by auto
  qed
qed

lemma drained_good:
  assumes "base s A P L pl" "locks_ok s A I R W" "A (Rendez_waiting r) = ts @ us"
  shows "good (drained (Rendez_waiting r) ts s) P L I R W"
proof -
  let ?A = "A(Rendez_waiting r := us, Taskrunqueue := A Taskrunqueue @ ts)"
  have c: "contexts s A P" using assms(1) by (simp add: base_def)
  have "locks_ok (drained (Rendez_waiting r) ts s) ?A I R W"
  proof (rule locks_ok_move [OF assms(2), of _ _ ts])
    show "\<not> of_lock (t_context (drained (Rendez_waiting r) ts s) t)" if "t \<in> set ts" for t
      using contextsD [OF c, of t "Rendez_waiting r"] that assms(3) by simp
  qed simp_all
  moreover obtain pl' where "base (drained (Rendez_waiting r) ts s) ?A P L pl'" using base_drained [OF assms(1,3)] by auto
  ultimately show ?thesis by (rule goodI [rotated])
qed

lemma wakeup_step:
  assumes "good s P L I R W"
  shows "\<exists>n s1. wakeup_loop r everyone 0 s = Some (n, s1) \<and> good s1 P L I R W \<and> taskrunning s1 = taskrunning s \<and>
     rendez_lock s1 = rendez_lock s"
proof -
  from assms(1) obtain A pl where b: "base s A P L pl" and k: "locks_ok s A I R W" by (auto simp: good_def)
  have tl: "task_lists s A" using b by (simp add: base_def placed_def)
  let ?ts = "if everyone then A (Rendez_waiting r) else take 1 (A (Rendez_waiting r))"
  have cut: "A (Rendez_waiting r) = ?ts @ drop (length ?ts) (A (Rendez_waiting r))" by (cases "A (Rendez_waiting r)") simp_all
  have "wakeup_loop r everyone 0 s = Some (int (length ?ts), drained (Rendez_waiting r) ?ts s)"
    using wakeup_loop_holds [OF tl, of 0 everyone r] by (simp add: Let_def)
  then show ?thesis using drained_good [OF b k cut] by auto
qed

lemma taskbarrier_step:
  assumes "good s P L I R W" "taskrunning s = Some t" "\<And>l. rendez_lock s r = Some l \<Longrightarrow> (t, l) \<in> I"
  shows "\<exists>n s1. taskbarrier r s = Some (Inr (n, s1)) \<and>
     good s1 P L (if n = 0 then (case rendez_lock s r of None \<Rightarrow> I | Some l \<Rightarrow> I - {(t, l)}) else I) R W"
proof -
  from wakeup_step [OF assms(1), of r True] obtain n s1 where
    w: "wakeup_loop r True 0 s = Some (n, s1)" "good s1 P L I R W" "taskrunning s1 = taskrunning s" "rendez_lock s1 = rendez_lock s"
    by blast
  have run: "taskrunning s1 = Some t" using w(3) assms(2) by simp
  have lk: "(t, l) \<in> I" if "rendez_lock s1 r = Some l" for l using that w(4) assms(3) by simp
  from tasksleep_step [OF w(2) run lk] obtain s2 where
    z: "tasksleep r s1 = Inr s2" "good s2 P L (case rendez_lock s1 r of None \<Rightarrow> I | Some l \<Rightarrow> I - {(t, l)}) R W" by blast
  show ?thesis
    using w z by (cases "n = 0") (simp_all add: taskbarrier_def taskwakeupall_def)
qed

section \<open>Leaving and coming back\<close>

lemma yield_step:
  assumes "good s P L I R W" "taskrunning s = Some t"
  shows "\<exists>s1. taskyield s = Inr s1 \<and> good s1 P L I R W"
proof -
  from assms(1) obtain A pl where b: "base s A P L pl" and k: "locks_ok s A I R W" by (auto simp: good_def)
  note off = base_running [OF b assms(2)]
  let ?A = "A(Taskrunqueue := A Taskrunqueue @ [t])"
  have "locks_ok (yielded t s) ?A I R W"
    using off(2) by (intro locks_ok_move [OF k, of _ _ "[t]"]) (auto simp: yielded_def)
  from goodI [OF base_yield [OF b assms(2)] this] show ?thesis using taskyield_eq [OF assms(2) off(1)] by blast
qed

lemma delay_step:
  assumes "good s P L I R W" "taskrunning s = Some t"
  shows "\<exists>s1. taskdelay ms now s = Some (Inr s1) \<and> good s1 P L I R W"
proof -
  from assms(1) obtain A pl where b: "base s A P L pl" and k: "locks_ok s A I R W" by (auto simp: good_def)
  note off = base_running [OF b assms(2)]
  from base_delay [OF b assms(2), of ms now] obtain s1 us vs where
    d: "taskdelay ms now s = Some (Inr s1)" "base s1 (A(Sleeping := us @ t # vs)) P L (pl(t := Some (On_list Sleeping)))"
      "t_context s1 = (t_context s)(t := Res_delay now)" "lock_owner s1 = lock_owner s" "readers s1 = readers s" "writer s1 = writer s"
    by blast
  have "locks_ok s1 (A(Sleeping := us @ t # vs)) I R W"
    using d(3-6) off(2) by (intro locks_ok_move [OF k, of _ _ "[]"]) auto
  then show ?thesis using d(1) goodI [OF d(2)] by blast
qed

lemma wake_step:
  assumes "good s P L I R W"
  shows "\<exists>s1. wake_sleepers now s = Some s1 \<and> good s1 P L I R W \<and> taskrunning s1 = taskrunning s"
proof -
  from assms(1) obtain A pl where b: "base s A P L pl" and k: "locks_ok s A I R W" by (auto simp: good_def)
  have c: "contexts s A P" using b by (simp add: base_def)
  let ?A = "A(Sleeping := not_due s now (A Sleeping), Taskrunqueue := A Taskrunqueue @ due s now (A Sleeping))"
  from base_wake [OF b, of now] obtain s1 pl' where
    w: "wake_sleepers now s = Some s1" "base s1 ?A P L pl'" "t_context s1 = t_context s" "taskrunning s1 = taskrunning s"
      "lock_owner s1 = lock_owner s" "readers s1 = readers s" "writer s1 = writer s" by blast
  have "locks_ok s1 ?A I R W"
  proof (rule locks_ok_move [OF k, of _ _ "due s now (A Sleeping)"])
    show "\<not> of_lock (t_context s1 t)" if "t \<in> set (due s now (A Sleeping))" for t
    proof -
      have "t \<in> set (A Sleeping)" using that set_takeWhileD unfolding due_def by metis
      then show ?thesis using contextsD [OF c, of t Sleeping] w(3) by auto
    qed
  qed (use w in simp_all)
  then show ?thesis using w(1,4) goodI [OF w(2)] by blast
qed

lemma exit_step:
  assumes "good s P L I R W" "taskrunning s = Some t"
  shows "\<exists>s1. taskexit val s = Inr s1 \<and> good s1 P L I R W \<and> set (alltask s1) = set (alltask s) - {t}"
proof -
  from assms(1) obtain A pl where b: "base s A P L pl" and k: "locks_ok s A I R W" by (auto simp: good_def)
  note off = base_running [OF b assms(2)]
  have tb: "table s" using b by (simp add: base_def)
  have "locks_ok (ended val t s) A I R W"
    using off(2) by (intro locks_ok_move [OF k, of _ _ "[]"]) (auto simp: ended_def Let_def)
  from goodI [OF base_exit(1) [OF b assms(2)] this] show ?thesis
    using taskexit_eq [OF assms(2) tb off(3)] base_exit(2) [OF b assms(2)] by blast
qed

lemma create_step:
  assumes "good s P L I R W" "t \<notin> set (alltask s)"
    "length (alltask s) mod TASK_LIST_GROWTH \<noteq> 0 \<or> mem_ok"
  shows "\<exists>k s1. taskcreate (Some t) mem_ok s = Inr (k, s1) \<and> good s1 P L I R W \<and> taskrunning s1 = taskrunning s"
proof -
  from assms(1) obtain A pl where b: "base s A P L pl" and k: "locks_ok s A I R W" by (auto simp: good_def)
  have p: "placed s A P L pl" using b by (simp add: base_def)
  have "t \<notin> set (A l)" for l using placedD(2) [OF p, of t] placedD(4) [OF p, of t l] assms(2) by auto
  then have "locks_ok (created t s) (A(Taskrunqueue := A Taskrunqueue @ [t])) I R W"
    by (intro locks_ok_move [OF k, of _ _ "[t]"]) (auto simp: created_def taskalloc_def Let_def)
  from goodI [OF base_create [OF b assms(2)] this] show ?thesis
    using taskcreate_eq [OF assms(3)] by (auto simp: created_def taskalloc_def Let_def)
qed

lemma system_step:
  assumes "good s P L I R W" "taskrunning s = Some t"
  shows "\<exists>s1. tasksystem s = Inr s1 \<and> good s1 P L I R W \<and> taskrunning s1 = Some t"
proof -
  from assms(1) obtain A pl where b: "base s A P L pl" and k: "locks_ok s A I R W" by (auto simp: good_def)
  obtain s1 where s1: "tasksystem s = Inr s1" using assms(2) by (cases "t_system s t") (simp_all add: tasksystem_def with_running_def)
  note m = base_system [OF b assms(2) s1]
  have f: "lock_owner s1 = lock_owner s" "readers s1 = readers s" "writer s1 = writer s" "t_context s1 = t_context s"
    "taskrunning s1 = taskrunning s" by (subst m(2), simp)+
  have "locks_ok s1 A I R W" using f by (intro locks_ok_move [OF k, of _ _ "[]"]) simp_all
  then show ?thesis using s1 f(5) assms(2) goodI [OF m(1)] by auto
qed

section \<open>The scheduler's turn\<close>

text \<open>Who is inside once a task has gone on as \<open>k\<close>; \<open>s\<close> is the state behind it.\<close>

definition now_inside :: "resume \<Rightarrow> nat \<Rightarrow> sched \<Rightarrow> (nat \<times> nat) set \<Rightarrow> (nat \<times> nat) set" where
  "now_inside k t s I =
     (case k of
        Res_qlock l \<Rightarrow> insert (t, l) I
      | Res_sleep r \<Rightarrow> (case rendez_lock s r of None \<Rightarrow> I | Some l \<Rightarrow> if taskrunning s = Some t then insert (t, l) I else I)
      | _ \<Rightarrow> I)"

definition now_reading :: "resume \<Rightarrow> nat \<Rightarrow> (nat \<times> nat) multiset \<Rightarrow> (nat \<times> nat) multiset" where
  "now_reading k t R = (case k of Res_rlock l \<Rightarrow> add_mset (t, l) R | _ \<Rightarrow> R)"

definition now_writing :: "resume \<Rightarrow> nat \<Rightarrow> (nat \<times> nat) set \<Rightarrow> (nat \<times> nat) set" where
  "now_writing k t W = (case k of Res_wlock l \<Rightarrow> insert (t, l) W | _ \<Rightarrow> W)"

lemma dispatched_keeps [simp]:
  "taskrunning (dispatched t s) = Some t" "t_context (dispatched t s) = t_context s" "rendez_lock (dispatched t s) = rendez_lock s"
  "lock_owner (dispatched t s) = lock_owner s" "readers (dispatched t s) = readers s" "writer (dispatched t s) = writer s"
  by (simp_all add: dispatched_def)

lemma locks_ok_run:
  assumes "locks_ok s A I R W" "A Taskrunqueue = t # ts" "\<not> of_lock (t_context s t)"
  shows "locks_ok (dispatched t s) (A(Taskrunqueue := ts)) I R W"
proof (rule locks_ok_neutral [OF assms(1)])
  fix k
  assume "of_lock k"
  then show "granted (dispatched t s) (A(Taskrunqueue := ts)) k = granted s A k"
    using granted_front [of A t ts "A(Taskrunqueue := ts)" "dispatched t s" s k] assms(2,3) by auto
qed simp_all

lemma qlock1_rendez: "qlock1 l block s = Inr (rc, s1) \<Longrightarrow> rendez_lock s1 = rendez_lock s"
  by (auto simp: qlock1_def block_on_def with_running_def taskstate_def taskswitch_def task_switched_def Let_def
      split: option.splits if_splits)

lemma run_step:
  assumes "good s P L I R W" "taskrunning s = None" "taskscheduler s = Run_task s1"
  shows "\<exists>t s2. taskrunning s1 = Some t \<and> t_context s1 t = t_context s t \<and> resume_task s1 = Inr s2 \<and>
     good s2 P L (now_inside (t_context s t) t s2 I) (now_reading (t_context s t) t R) (now_writing (t_context s t) t W)"
proof -
  from assms(1) obtain A pl where b: "base s A P L pl" and k: "locks_ok s A I R W" by (auto simp: good_def)
  have tl: "task_lists s A" using b by (simp add: base_def placed_def)
  from assms(3) obtain t ts where q: "A Taskrunqueue = t # ts" and s1: "s1 = dispatched t s"
    unfolding taskscheduler_eq [OF tl] by (auto split: if_splits list.splits)
  have nt: "t \<notin> set ts" using tq.rep_once [OF tl, of Taskrunqueue] q by auto
  let ?A = "A(Taskrunqueue := ts)"
  have b1: "base s1 ?A P L (pl(t := Some At_run))" unfolding s1 by (rule base_run [OF b assms(2) q])
  have plain: "good s1 P L I R W" if "\<not> of_lock (t_context s t)"
    unfolding s1 by (rule goodI [OF b1 [unfolded s1] locks_ok_run [OF k q that]])
  have run: "taskrunning s1 = Some t" "t_context s1 t = t_context s t" unfolding s1 by simp_all
  note defs = resume_task_def with_running_def now_inside_def now_reading_def now_writing_def
  show ?thesis
  proof (cases "t_context s t")
    case (Res_qlock l)
    note e = locks_ok_enter [OF k q nt Res_qlock]
    have "qlock_resumed l s1 = Inr s1" using e(2) by (simp add: qlock_resumed_def with_running_def s1)
    then show ?thesis using run Res_qlock goodI [OF b1, unfolded s1, OF e(1)] by (auto simp: defs s1)
  next
    case (Res_rlock l)
    then show ?thesis using run goodI [OF b1, unfolded s1, OF locks_ok_renter [OF k q nt Res_rlock]] by (auto simp: defs s1)
  next
    case (Res_wlock l)
    then show ?thesis using run goodI [OF b1, unfolded s1, OF locks_ok_wenter [OF k q nt Res_wlock]] by (auto simp: defs s1)
  next
    case (Res_sleep r)
    show ?thesis
    proof (cases "rendez_lock s1 r")
      case None
      then show ?thesis using run plain Res_sleep by (auto simp: defs sleep_resumed_def)
    next
      case (Some l)
      have "good s1 P L I R W" using plain Res_sleep by simp
      from qlock1_step [OF this run(1), of l True] obtain s2 where
        s2: "qlock1 l True s1 = Inr (1, s2)" "good s2 P L (if taskrunning s2 = Some t then insert (t, l) I else I) R W" by auto
      have "rendez_lock s2 r = Some l" using qlock1_rendez [OF s2(1)] Some by simp
      then show ?thesis using run Res_sleep Some s2 by (auto simp: defs sleep_resumed_def qlock_def)
    qed
  qed (use run plain in \<open>auto simp: defs\<close>)
qed

end
