(* ===== verification/Copoll.thy ===== *)
theory Copoll
  imports Cosystem
begin

text \<open>
  What waiting, polling and nuking do to the invariant: a task that waits is in the poller exactly once, or it has been
  lost; every task the poller answers was waiting, and what it forgets without answering is lost.
\<close>

section \<open>Counting\<close>

lemma tasks_of_size:
  "size (tasks_of ds) = length (filter (\<lambda>d. d \<noteq> None) ds)"
  by (simp add: tasks_of_def flip: mset_filter)

lemma tasks_of_le: "size (tasks_of ds) \<le> length ds"
  by (simp add: tasks_of_size)

lemma tasks_of_all:
  assumes "size (tasks_of ds) = length ds"
  shows "\<exists>ts. ds = map Some ts \<and> tasks_of ds = mset ts \<and> ts = map the ds"
proof -
  have "filter (\<lambda>d. d \<noteq> None) ds = ds" using assms length_filter_less [of _ ds "\<lambda>d. d \<noteq> None"] unfolding tasks_of_size
    by (metis (mono_tags, lifting) filter_True less_irrefl)
  then have a: "\<forall>d\<in>set ds. d \<noteq> None" by (metis (mono_tags, lifting) filter_eq_ConsD filter_id_conv)
  then have "ds = map Some (map the ds)" by (simp add: map_idI)
  moreover have "tasks_of ds = mset (map the ds)" using a by (induction ds) auto
  ultimately show ?thesis by blast
qed

lemma waiting_bound:
  assumes "poller sp fs as" "armed sp"
  shows "size (waiting sp as) + 1 \<le> nfd_hot sp + length as"
proof -
  obtain p where "filter (\<lambda>e. p_fd (fst e) = idle_fd sp) (hot sp) = [(p, None)]" using assms(2) by (auto simp: armed_def)
  then have "(p, None) \<in> set (hot sp)" by (metis filter_eq_ConsD in_set_conv_decomp list.set_intros(1) filter_is_subset subset_code(1))
  then have "length (filter (\<lambda>d. d \<noteq> None) (map snd (hot sp))) < length (map snd (hot sp))"
    by (intro length_filter_less [of None]) force+
  then have "size (tasks_of (map snd (hot sp))) < nfd_hot sp" using assms(1) by (simp only: tasks_of_size length_map hot_length)
  moreover have "size (tasks_of (map (idle_task sp) as)) \<le> length as" using tasks_of_le [of "map (idle_task sp) as"] by simp
  ultimately show ?thesis by (simp add: waiting_def)
qed

lemma linked_unique:
  "linked nx pv b xs e \<Longrightarrow> linked nx pv c ys e \<Longrightarrow> first_of xs e = first_of ys e \<Longrightarrow> e = Some l \<Longrightarrow>
   l \<notin> set xs \<Longrightarrow> l \<notin> set ys \<Longrightarrow> xs = ys"
proof (induction xs arbitrary: ys b c)
  case Nil
  then show ?case by (cases ys) auto
next
  case (Cons x xs)
  then obtain zs where "ys = x # zs" by (cases ys) auto
  with Cons.prems show ?case using Cons.IH [of "Some x" "Some x" zs] by auto
qed

text \<open>A list holds one sequence of nodes.\<close>

lemma adt_list_unique: "adt_list h l xs \<Longrightarrow> adt_list h l ys \<Longrightarrow> xs = ys"
  by (rule linked_unique) (auto simp: adt_list_def)

text \<open>So does a list of tasks.\<close>

lemma linked_tasks_unique:
  "linked nx pv b xs None \<Longrightarrow> linked nx pv c ys None \<Longrightarrow> first_of xs None = first_of ys None \<Longrightarrow> xs = ys"
proof (induction xs arbitrary: ys b c)
  case Nil
  then show ?case by (cases ys) auto
next
  case (Cons x xs)
  then obtain zs where "ys = x # zs" by (cases ys) auto
  with Cons.prems show ?case using Cons.IH [of "Some x" "Some x" zs] by auto
qed

lemma task_lists_unique:
  assumes "task_lists s A" "task_lists s B"
  shows "A = B"
proof
  fix l
  have "task_list s l (A l)" "task_list s l (B l)" using assms by (simp_all add: task_lists_def)
  then show "A l = B l" unfolding task_list_def by (metis linked_tasks_unique)
qed

section \<open>Waiting\<close>

lemma good_wait:
  assumes "good s P L I R W" "taskrunning s = Some t"
  shows "good (left_waiting name ok t s) (add_mset t P) L I R W" "good (left_waiting name ok t s) P (t # L) I R W"
proof -
  from assms(1) obtain A pl where b: "base s A P L pl" and k: "locks_ok s A I R W" by (auto simp: good_def)
  have k1: "locks_ok (left_waiting name ok t s) A I R W"
    using base_running(2) [OF b assms(2)] by (intro locks_ok_move [OF k, of _ _ "[]"]) (auto simp: left_waiting_def)
  show "good (left_waiting name ok t s) (add_mset t P) L I R W" "good (left_waiting name ok t s) P (t # L) I R W"
    using goodI [OF base_wait(1) [OF b assms(2)] k1] goodI [OF base_wait(2) [OF b assms(2)] k1] by auto
qed

lemma pollerD:
  assumes "poller sp fs as"
  shows "adt_list (lists sp) (idle_active sp) as" "list_count (lists sp) (idle_active sp) = length as"
    "SuperPoll_active_count sp = nfd_hot sp + length as" "list_isempty (lists sp) (idle_free sp) \<longleftrightarrow> fs = []"
  using assms by (auto simp: poller_def adt_list_def list_count_def SuperPoll_active_count_def list_isempty_def)

lemma polls_okI:
  "poller sp fs as \<Longrightarrow> armed sp \<Longrightarrow> P = waiting sp as \<Longrightarrow> size P + 1 = nfd_hot sp + length as \<Longrightarrow>
   hits_size r = max_hot sp + max_idle sp \<Longrightarrow> polls_ok (Some sp) r P"
  by (auto simp: polls_ok_def)

text \<open>A task is registered exactly when the poller has grown.\<close>

lemma SuperPoll_add_step:
  assumes "polls_ok (Some sp) r P" "rw = CHR ''r'' \<or> rw = CHR ''w''" "fd \<noteq> idle_fd sp"
  shows "\<exists>rc sp'. SuperPoll_add sp (Some t) socket fd rw (nfd_hot sp < max_hot sp) ctl = Some (Inr (rc, sp')) \<and>
     (if SuperPoll_active_count sp' = SuperPoll_active_count sp then rc = -1 \<and> sp' = sp
      else polls_ok (Some sp') r (add_mset t P))"
proof -
  from assms(1) obtain fs as where
    p: "poller sp fs as" "armed sp" "P = waiting sp as" "size P + 1 = nfd_hot sp + length as" "hits_size r = max_hot sp + max_idle sp"
    by (auto simp: polls_ok_def)
  show ?thesis
  proof (cases "nfd_hot sp < max_hot sp")
    case True
    from SuperPoll_add_poll_holds [OF p(1) True assms(2), of "Some t" socket fd] obtain sp' q where
      a: "SuperPoll_add_poll sp (Some t) socket fd rw = Inr (int (nfd_hot sp) + 1, sp')" "poller sp' fs as"
        "hot sp' = hot sp @ [(q, Some t)]" "p_fd q = fd"
        "sp' = sp\<lparr>pollfd := pollfd sp', hot_data := hot_data sp', nfd_hot := nfd_hot sp + 1\<rparr>" by blast
    have f: "idle_fd sp' = idle_fd sp" "idle_task sp' = idle_task sp" "max_hot sp' = max_hot sp" "max_idle sp' = max_idle sp"
      "nfd_hot sp' = nfd_hot sp + 1" by (subst a(5), simp add: idle_task_def fun_eq_iff)+
    have "armed sp'" using p(2) a(3,4) f(1) assms(3) by (simp add: armed_def)
    moreover have "waiting sp' as = add_mset t P" unfolding waiting_def a(3) f(2) p(3) by simp
    ultimately have "polls_ok (Some sp') r (add_mset t P)" using p(4,5) f by (intro polls_okI [OF a(2)]) simp_all
    then show ?thesis using True a(1) f(5) pollerD(3) [OF p(1)] pollerD(3) [OF a(2)] by (simp add: SuperPoll_add_def)
  next
    case full: False
    show ?thesis
    proof (cases "socket = None \<and> fs \<noteq> []")
      case False
      then show ?thesis
        using full SuperPoll_add_poll_full [OF full, of "Some t" socket fd rw] pollerD(4) [OF p(1)]
        by (auto simp: SuperPoll_add_def SuperPoll_add_idle_def)
    next
      case True
      then obtain gs n where fs: "fs = gs @ [n]" by (cases fs rule: rev_cases) auto
      from SuperPoll_add_idle_holds [OF p(1) [unfolded fs] assms(2), of "Some t" fd ctl] obtain sp' where
        a: "SuperPoll_add_idle sp (Some t) fd rw ctl = Some (Inr (if ctl = Ctl_added then 1 else -1, sp'))"
          "poller sp' gs (as @ [n])" "idle_task sp' n = Some t" "\<forall>m\<in>set as. idle_task sp' m = idle_task sp m"
          "sp' = sp\<lparr>idle_data := idle_data sp', lists := lists sp'\<rparr>" by blast
      have f: "idle_fd sp' = idle_fd sp" "max_hot sp' = max_hot sp" "max_idle sp' = max_idle sp" "nfd_hot sp' = nfd_hot sp"
        "hot sp' = hot sp" by (subst a(5), simp add: hot_def)+
      have "armed sp'" using p(2) f by (simp add: armed_def)
      moreover have "waiting sp' (as @ [n]) = add_mset t P"
        unfolding waiting_def f p(3) using a(3,4) by (simp cong: map_cong)
      ultimately have "polls_ok (Some sp') r (add_mset t P)" using p(4,5) f by (intro polls_okI [OF a(2)]) simp_all
      then show ?thesis using True full a(1) f(4) pollerD(3) [OF p(1)] pollerD(3) [OF a(2)] by (simp add: SuperPoll_add_def)
    qed
  qed
qed

lemma wait_step:
  assumes "good s (P + Q) L I R W" "taskrunning s = Some t" "polls_ok (Some sp) r P" "rw = CHR ''r'' \<or> rw = CHR ''w''" "fd \<noteq> idle_fd sp"
  shows "\<exists>sp' s'. task_wait socket fd rw ctl sp s = Some (Inr (sp', s')) \<and>
     (\<exists>P'. good s' (P' + Q) (if SuperPoll_active_count sp' = SuperPoll_active_count sp then t # L else L) I R W \<and>
        polls_ok (Some sp') r P')"
proof -
  from assms(1) obtain A pl where b: "base s A (P + Q) L pl" by (auto simp: good_def)
  note e = base_running(1) [OF b assms(2)]
  from SuperPoll_add_step [OF assms(3-5), of t socket ctl] obtain rc sp' where
    a: "SuperPoll_add sp (Some t) socket fd rw (nfd_hot sp < max_hot sp) ctl = Some (Inr (rc, sp'))"
      "if SuperPoll_active_count sp' = SuperPoll_active_count sp then rc = -1 \<and> sp' = sp else polls_ok (Some sp') r (add_mset t P)"
    by blast
  let ?s = "left_waiting (wait_name socket fd rw) (rc \<noteq> -1) t s"
  have "task_wait socket fd rw ctl sp s = Some (Inr (sp', ?s))"
    using a(1) assms(2) e
    by (simp add: task_wait_def taskstate_def taskswitch_def with_running_def task_switched_def left_waiting_def)
  moreover have "\<exists>P'. good ?s (P' + Q) (if SuperPoll_active_count sp' = SuperPoll_active_count sp then t # L else L) I R W \<and>
      polls_ok (Some sp') r P'"
  proof (cases "SuperPoll_active_count sp' = SuperPoll_active_count sp")
    case True
    then show ?thesis using a(2) assms(3) good_wait(2) [OF assms(1,2)] by (intro exI [of _ P]) simp
  next
    case False
    then show ?thesis using a(2) good_wait(1) [OF assms(1,2)] by (intro exI [of _ "add_mset t P"]) simp
  qed
  ultimately show ?thesis by blast
qed

section \<open>Polling\<close>

lemma good_hits:
  "good s (mset ts + P) L I R W \<Longrightarrow>
   good (fold taskready ts s) P L I R W \<and> taskrunning (fold taskready ts s) = taskrunning s \<and> alltask (fold taskready ts s) = alltask s"
proof (induction ts arbitrary: s)
  case (Cons t ts)
  then obtain A pl where b: "base s A (add_mset t (mset ts + P)) L pl" and k: "locks_ok s A I R W" by (auto simp: good_def)
  have "\<exists>ok. t_context s t = Res_wait ok" using b by (simp add: base_def contexts_def)
  then have "locks_ok (taskready t s) (A(Taskrunqueue := A Taskrunqueue @ [t])) I R W"
    by (intro locks_ok_move [OF k, of _ _ "[t]"]) auto
  from Cons.IH [OF goodI [OF base_hit [OF b] this]] show ?case by simp
qed simp

lemma good_dropped: "good s (mset ts + P) L I R W \<Longrightarrow> good s P (ts @ L) I R W"
proof (induction ts arbitrary: P)
  case (Cons t ts)
  from Cons.prems have "good s (mset ts + add_mset t P) L I R W" by simp
  from Cons.IH [OF this] obtain A pl where b: "base s A (add_mset t P) (ts @ L) pl" and k: "locks_ok s A I R W" by (auto simp: good_def)
  from goodI [OF base_drop [OF b] k] show ?case by simp
qed simp

lemma ready_hits_all: "map snd hs = map Some ts \<Longrightarrow> ready_hits hs s = Inr (fold taskready ts s)"
proof (induction hs arbitrary: ts s)
  case (Cons h hs)
  then obtain t us where "ts = t # us" "snd h = Some t" "map snd hs = map Some us" by (cases ts) auto
  then show ?case using Cons.IH [of us "taskready t s"] by (cases h) simp
qed simp

lemma good_state: "good s P L I R W \<Longrightarrow> good (s\<lparr>t_state := f\<rparr>) P L I R W" "good s P L I R W \<Longrightarrow> good (s\<lparr>t_name := f\<rparr>) P L I R W"
proof -
  have "locks_ok (s\<lparr>t_state := f\<rparr>) A I R W = locks_ok s A I R W" "locks_ok (s\<lparr>t_name := f\<rparr>) A I R W = locks_ok s A I R W" for A f
    by (simp_all add: locks_ok_def qlock_ok_def rwlock_ok_def granted_def)
  then show "good s P L I R W \<Longrightarrow> good (s\<lparr>t_state := f\<rparr>) P L I R W" "good s P L I R W \<Longrightarrow> good (s\<lparr>t_name := f\<rparr>) P L I R W"
    by (simp_all add: good_def)
qed

text \<open>A task that has been taken out of the poller is made ready.\<close>

lemma ready_step:
  assumes "good s (P + mset Q) L I R W" "t \<in> set Q"
  shows "good (taskready t s) (P + mset (remove1 t Q)) L I R W"
proof -
  have "P + mset Q = mset [t] + (P + mset (remove1 t Q))" using assms(2) by simp
  with assms(1) good_hits [of s "[t]" "P + mset (remove1 t Q)"] show ?thesis by simp
qed

text \<open>What the poller takes out without answering it.\<close>

definition forgotten :: "superpoll \<Rightarrow> nat list \<Rightarrow> epoll_event list \<Rightarrow> nat list" where
  "forgotten sp revs events = (if epoll_ready sp revs then map the (dropped_tasks sp 0 events) else [])"

lemma SuperPoll_poll_polls:
  assumes "polls_ok (Some sp) r P" "poll_answer sp nfound revs" "adt_list (lists sp) (idle_active sp) as" "events_ok as events"
  shows "\<exists>sp' r' ts as'. SuperPoll_poll sp r (nfound, eintr, revs) [Some events] = Some (Inr (int (length ts), sp', r')) \<and>
     adt_list (lists sp') (idle_active sp') as' \<and> polls_ok (Some sp') r' (waiting sp' as') \<and> map snd (hits r') = map Some ts \<and>
     mset ts = hot_hits sp revs + (if epoll_ready sp revs then tasks_of (hit_tasks sp 0 events) else {#}) \<and>
     P = waiting sp as \<and> P = waiting sp' as' + mset ts + mset (forgotten sp revs events)"
proof -
  from assms(1) obtain fs as1 where
    p: "poller sp fs as1" "armed sp" "P = waiting sp as1" "size P + 1 = nfd_hot sp + length as1" "hits_size r = max_hot sp + max_idle sp"
    by (auto simp: polls_ok_def)
  have "as1 = as" by (rule adt_list_unique [OF pollerD(1) [OF p(1)] assms(3)])
  note p = p [unfolded this]
  let ?d = "if epoll_ready sp revs then dropped_tasks sp 0 events else []"
  from SuperPoll_poll_holds [OF p(1,2) assms(2,4) p(5), of eintr] obtain sp' r' fs' as' where
    h: "SuperPoll_poll sp r (nfound, eintr, revs) [Some events] = Some (Inr (int (length (hits r')), sp', r'))"
      "poller sp' fs' as'" "armed sp'" "hits_size r' = hits_size r" "max_hot sp' = max_hot sp" "max_idle sp' = max_idle sp"
      "waiting sp as = waiting sp' as' + tasks_of (map snd (hits r')) + tasks_of ?d"
      "nfd_hot sp + length as = nfd_hot sp' + length as' + length (hits r') + length ?d"
      "tasks_of (map snd (hits r')) = hot_hits sp revs + (if epoll_ready sp revs then tasks_of (hit_tasks sp 0 events) else {#})"
    by (auto split: if_splits)
  have "size (waiting sp as) = size (waiting sp' as') + size (tasks_of (map snd (hits r'))) + size (tasks_of ?d)"
    unfolding h(7) by simp
  then have sz: "size (waiting sp' as') + 1 = nfd_hot sp' + length as'" "size (tasks_of (map snd (hits r'))) = length (map snd (hits r'))"
    "size (tasks_of ?d) = length ?d"
    using waiting_bound [OF h(2,3)] h(8) p(4) [unfolded p(3)] tasks_of_le [of "map snd (hits r')"] tasks_of_le [of ?d]
    unfolding length_map by linarith+
  from tasks_of_all [OF sz(2)] obtain ts where ts: "map snd (hits r') = map Some ts" "tasks_of (map snd (hits r')) = mset ts" by blast
  have "tasks_of ?d = mset (forgotten sp revs events)" using tasks_of_all [OF sz(3)] by (auto simp: forgotten_def)
  then have "P = waiting sp' as' + mset ts + mset (forgotten sp revs events)" using p(3) h(7) ts(2) by simp
  moreover have "polls_ok (Some sp') r' (waiting sp' as')" using h sz(1) p(5) by (intro polls_okI [OF h(2)]) simp_all
  moreover have "length (hits r') = length ts" using arg_cong [OF ts(1), of length] by simp
  ultimately show ?thesis using h(1,9) ts pollerD(1) [OF h(2)] p(3)
    by (intro exI [of _ sp'] exI [of _ r'] exI [of _ ts] exI [of _ as']) auto
qed

lemma poll_step:
  assumes "good s (P + Q) L I R W" "taskrunning s = Some t" "polls_ok (Some sp) r P" "poll_answer sp nfound revs"
    "adt_list (lists sp) (idle_active sp) as" "events_ok as events"
  shows "\<exists>sp' r' s' P'. fdtask_poll now1 now2 (\<lambda>_. (nfound, eintr, revs)) [Some events] sp r s = Some (Inr (Some (sp', r', s'))) \<and>
     good s' (P' + Q) (forgotten sp revs events @ L) I R W \<and> polls_ok (Some sp') r' P' \<and> taskrunning s' = Some t"
proof -
  from SuperPoll_poll_polls [OF assms(3-6), of eintr] obtain sp' r' ts as' where
    h: "SuperPoll_poll sp r (nfound, eintr, revs) [Some events] = Some (Inr (int (length ts), sp', r'))"
      "polls_ok (Some sp') r' (waiting sp' as')" "map snd (hits r') = map Some ts"
      "P = waiting sp' as' + mset ts + mset (forgotten sp revs events)" by blast
  have P: "P + Q = mset ts + (mset (forgotten sp revs events) + (waiting sp' as' + Q))" using h(4) by (simp add: ac_simps)
  let ?s1 = "s\<lparr>t_state := (t_state s)(t := take 255 ''poll'')\<rparr>"
  have "good ?s1 (P + Q) L I R W" by (rule good_state(1) [OF assms(1)])
  note g = good_hits [OF this [unfolded P]]
  from wake_step [OF good_dropped [OF g [THEN conjunct1]], of now2] obtain s2 where
    w: "wake_sleepers now2 (fold taskready ts ?s1) = Some s2" "good s2 (waiting sp' as' + Q) (forgotten sp revs events @ L) I R W"
      "taskrunning s2 = taskrunning (fold taskready ts ?s1)" by blast
  have "length (hits r') = length ts" using arg_cong [OF h(3), of length] by simp
  then have "fdtask_poll now1 now2 (\<lambda>_. (nfound, eintr, revs)) [Some events] sp r s = Some (Inr (Some (sp', r', s2)))"
    using h(1) w(1) ready_hits_all [OF h(3), of ?s1] assms(2)
    by (simp add: fdtask_poll_def taskstate_def with_running_def Let_def)
  moreover have "taskrunning s2 = Some t" using w(3) g assms(2) by simp
  ultimately show ?thesis using w(2) h(2) by blast
qed

section \<open>Nuking\<close>

definition nuked :: "int \<Rightarrow> superpoll \<Rightarrow> sched \<Rightarrow> nat option" where
  "nuked i sp s = (case find (nuke_at i sp s) [0..<nfd_hot sp] of None \<Rightarrow> None | Some k \<Rightarrow> hot_data sp ! k)"

lemma nuke_loop_is:
  "\<forall>k\<in>set ks. k < length (hot_data sp) \<Longrightarrow>
   nuke_loop ks i sp s =
     (case find (nuke_at i sp s) ks of None \<Rightarrow> Inr (-1, sp) | Some k \<Rightarrow> cbind (SuperPoll_compact_down sp k) (\<lambda>sp. Inr (0, sp)))"
  by (induction ks) simp_all

lemma nuke_step:
  assumes "polls_ok (Some sp) r P"
  shows "\<exists>rc sp' P'. tasknuke i sp s = Inr (rc, sp') \<and> polls_ok (Some sp') r P' \<and>
     (case nuked i sp s of None \<Rightarrow> rc = -1 \<and> P' = P | Some t \<Rightarrow> rc = 0 \<and> t_id s t = i \<and> P = add_mset t P')"
proof -
  from assms obtain fs as where
    p: "poller sp fs as" "armed sp" "P = waiting sp as" "size P + 1 = nfd_hot sp + length as" "hits_size r = max_hot sp + max_idle sp"
    by (auto simp: polls_ok_def)
  have "\<forall>k\<in>set [0..<nfd_hot sp]. k < length (hot_data sp)" using p(1) by (auto simp: poller_def)
  note n = nuke_loop_is [OF this, of i s, folded tasknuke_def]
  show ?thesis
  proof (cases "find (nuke_at i sp s) [0..<nfd_hot sp]")
    case None
    then show ?thesis using n assms by (simp add: nuked_def)
  next
    case (Some k)
    then have k: "k < nfd_hot sp" "nuke_at i sp s k" by (auto simp: find_Some_iff)
    then obtain t where t: "hot_data sp ! k = Some t" "t_id s t = i" by (auto simp: nuke_at_def split: option.splits)
    from compact_down_holds [OF p(1) k(1)] obtain sp' where
      c: "SuperPoll_compact_down sp k = Inr sp'" "poller sp' fs as" "hot sp' = butlast ((hot sp)[k := last (hot sp)])"
        "nfd_hot sp' = nfd_hot sp - 1" "sp' = sp\<lparr>nfd_hot := nfd_hot sp', pollfd := pollfd sp', hot_data := hot_data sp'\<rparr>" by blast
    have f: "idle_fd sp' = idle_fd sp" "idle_task sp' = idle_task sp" "max_hot sp' = max_hot sp" "max_idle sp' = max_idle sp"
      by (subst c(5), simp add: idle_task_def fun_eq_iff)+
    have m: "mset (hot sp) = add_mset (pollfd sp ! k, Some t) (mset (hot sp'))"
      unfolding c(3) using mset_compact [of k "hot sp"] k(1) hot_length [OF p(1)] hot_nth [OF p(1) k(1)] t(1) by simp
    have "(pollfd sp ! k, Some t) \<in> set (hot sp)" using m by (metis set_mset_mset union_single_eq_member)
    then have nf: "p_fd (pollfd sp ! k) \<noteq> idle_fd sp" using armed_idle [OF p(2)] by force
    have "mset (filter (\<lambda>e. p_fd (fst e) = idle_fd sp) (hot sp')) = mset (filter (\<lambda>e. p_fd (fst e) = idle_fd sp) (hot sp))"
      unfolding mset_filter m using nf by simp
    moreover obtain q where "filter (\<lambda>e. p_fd (fst e) = idle_fd sp) (hot sp) = [(q, None)]" using p(2) by (auto simp: armed_def)
    ultimately have "filter (\<lambda>e. p_fd (fst e) = idle_fd sp) (hot sp') = [(q, None)]"
      by (simp only: mset.simps mset_single_iff)
    then have "armed sp'" by (auto simp: armed_def f(1))
    moreover have "mset (map snd (hot sp)) = mset (Some t # map snd (hot sp'))" using m by simp
    from tasks_of_mset [OF this] have "P = add_mset t (waiting sp' as)" by (simp add: p(3) waiting_def f(2))
    moreover have nk: "nuked i sp s = Some t" using Some t(1) by (simp add: nuked_def)
    ultimately have "polls_ok (Some sp') r (waiting sp' as)" using p(4,5) f c(4) k(1) by (intro polls_okI [OF c(2)]) simp_all
    then show ?thesis using n Some c(1) nk t(2) \<open>P = add_mset t (waiting sp' as)\<close>
      by (intro exI [of _ 0] exI [of _ sp'] exI [of _ "waiting sp' as"]) simp
  qed
qed

end
