(* ===== verification/Costeps.thy ===== *)
theory Costeps
  imports Copoll
begin

text \<open>
  All coroutines as a transition system.  A step is a turn of the scheduler up to the first thing the task does, or one
  call of the running task into the task library; between two calls a task does what it likes, as long as it gives back
  only what it holds.  What the environment answers (clocks, addresses, \<^verbatim>\<open>zmq_poll\<close>, \<^verbatim>\<open>epoll_wait\<close>) is free within what is
  documented of it.
\<close>

section \<open>Steps\<close>

definition sys_init :: sys where
  "sys_init = \<lparr>sch = sched_init, polls = None, pres = \<lparr>hot_fds = 0, idle_fds = 0, hits = [], hits_size = 0\<rparr>, lost = [], taken = [],
     inside = {}, reading = {#}, writing = {}\<rparr>"

text \<open>
  \<open>step_start\<close> is \<open>startfdtask\<close>; the array of hits, which is the first thing \<^verbatim>\<open>fdtask\<close> allocates, is allocated with it.
  In \<open>step_wait\<close> a task that the poller has not taken is lost.  \<open>step_ready\<close> is \<^verbatim>\<open>taskready\<close> called from outside, as
  \<^verbatim>\<open>shutdown_handler\<close> of \<^verbatim>\<open>config.c\<close> does, its only caller: for a task that \<^verbatim>\<open>tasknuke\<close> has just taken out of the poller.
\<close>

inductive sys_step :: "sys \<Rightarrow> sys \<Rightarrow> bool" where
  step_run: "taskrunning (sch w) = None \<Longrightarrow> taskscheduler (sch w) = Run_task s1 \<Longrightarrow> taskrunning s1 = Some t \<Longrightarrow> k = t_context s1 t \<Longrightarrow>
     resume_task s1 = Inr s2 \<Longrightarrow>
     sys_step w (w\<lparr>sch := s2, inside := now_inside k t s2 (inside w), reading := now_reading k t (reading w),
       writing := now_writing k t (writing w)\<rparr>)"
| step_create: "t \<notin> set (alltask (sch w)) \<Longrightarrow> taskcreate (Some t) mem_ok (sch w) = Inr (i, s1) \<Longrightarrow> sys_step w (w\<lparr>sch := s1\<rparr>)"
| step_system: "tasksystem (sch w) = Inr s1 \<Longrightarrow> sys_step w (w\<lparr>sch := s1\<rparr>)"
| step_state: "taskstate str (sch w) = Inr s1 \<Longrightarrow> sys_step w (w\<lparr>sch := s1\<rparr>)"
| step_name: "taskname str (sch w) = Inr s1 \<Longrightarrow> sys_step w (w\<lparr>sch := s1\<rparr>)"
| step_yield: "taskyield (sch w) = Inr s1 \<Longrightarrow> sys_step w (w\<lparr>sch := s1\<rparr>)"
| step_exit: "taskexit val (sch w) = Inr s1 \<Longrightarrow> sys_step w (w\<lparr>sch := s1\<rparr>)"
| step_delay: "taskdelay ms now (sch w) = Some (Inr s1) \<Longrightarrow> sys_step w (w\<lparr>sch := s1\<rparr>)"
| step_qlock: "taskrunning (sch w) = Some t \<Longrightarrow> qlock1 l block (sch w) = Inr (rc, s1) \<Longrightarrow>
     sys_step w (w\<lparr>sch := s1, inside := (if rc = 1 \<and> taskrunning s1 = Some t then insert (t, l) (inside w) else inside w)\<rparr>)"
| step_qunlock: "taskrunning (sch w) = Some t \<Longrightarrow> (t, l) \<in> inside w \<Longrightarrow> qunlock l (sch w) = Inr s1 \<Longrightarrow>
     sys_step w (w\<lparr>sch := s1, inside := inside w - {(t, l)}\<rparr>)"
| step_rlock: "taskrunning (sch w) = Some t \<Longrightarrow> rlock1 l block (sch w) = Inr (rc, s1) \<Longrightarrow>
     sys_step w (w\<lparr>sch := s1, reading := (if rc = 1 \<and> taskrunning s1 = Some t then add_mset (t, l) (reading w) else reading w)\<rparr>)"
| step_runlock: "taskrunning (sch w) = Some t \<Longrightarrow> (t, l) \<in># reading w \<Longrightarrow>
     sys_step w (w\<lparr>sch := runlock l (sch w), reading := reading w - {#(t, l)#}\<rparr>)"
| step_wlock: "taskrunning (sch w) = Some t \<Longrightarrow> wlock1 l block (sch w) = Inr (rc, s1) \<Longrightarrow>
     sys_step w (w\<lparr>sch := s1, writing := (if rc = 1 \<and> taskrunning s1 = Some t then insert (t, l) (writing w) else writing w)\<rparr>)"
| step_wunlock: "taskrunning (sch w) = Some t \<Longrightarrow> (t, l) \<in> writing w \<Longrightarrow> wunlock l (sch w) = Some (Inr s1) \<Longrightarrow>
     sys_step w (w\<lparr>sch := s1, writing := writing w - {(t, l)}\<rparr>)"
| step_rendez: "sys_step w (w\<lparr>sch := (sch w)\<lparr>rendez_lock := (rendez_lock (sch w))(r := l)\<rparr>\<rparr>)"
| step_sleep: "taskrunning (sch w) = Some t \<Longrightarrow> rendez_lock (sch w) r = None \<or> (t, the (rendez_lock (sch w) r)) \<in> inside w \<Longrightarrow>
     tasksleep r (sch w) = Inr s1 \<Longrightarrow>
     sys_step w (w\<lparr>sch := s1, inside := (case rendez_lock (sch w) r of None \<Rightarrow> inside w | Some l \<Rightarrow> inside w - {(t, l)})\<rparr>)"
| step_wakeup: "wakeup_loop r everyone 0 (sch w) = Some (n, s1) \<Longrightarrow> sys_step w (w\<lparr>sch := s1\<rparr>)"
| step_barrier: "taskrunning (sch w) = Some t \<Longrightarrow> rendez_lock (sch w) r = None \<or> (t, the (rendez_lock (sch w) r)) \<in> inside w \<Longrightarrow>
     taskbarrier r (sch w) = Some (Inr (n, s1)) \<Longrightarrow>
     sys_step w (w\<lparr>sch := s1, inside := (if n = 0 then case rendez_lock (sch w) r of None \<Rightarrow> inside w | Some l \<Rightarrow> inside w - {(t, l)}
       else inside w)\<rparr>)"
| step_start: "polls w = None \<Longrightarrow> t \<notin> set (alltask (sch w)) \<Longrightarrow> 0 < maxfd div dividend \<Longrightarrow> maxfd div dividend < maxfd \<Longrightarrow> maxfd < 2 ^ 63 \<Longrightarrow>
     efd \<noteq> -1 \<Longrightarrow> distinct (free # active # addrs) \<Longrightarrow> length addrs = maxfd - maxfd div dividend \<Longrightarrow>
     SuperPoll_create maxfd dividend efd free active addrs = Some (Inr (Some sp)) \<Longrightarrow>
     startfdtask (Some sp) (Some t) mem_ok (False, None, sch w) = Inr (True, p, s1) \<Longrightarrow>
     sys_step w (w\<lparr>sch := s1, polls := p, pres := PollResult_init sp\<rparr>)"
| step_wait: "taskrunning (sch w) = Some t \<Longrightarrow> polls w = Some sp \<Longrightarrow> rw = CHR ''r'' \<or> rw = CHR ''w'' \<Longrightarrow> fd \<noteq> idle_fd sp \<Longrightarrow>
     task_wait socket fd rw ctl sp (sch w) = Some (Inr (sp', s1)) \<Longrightarrow>
     sys_step w (w\<lparr>sch := s1, polls := Some sp',
       lost := (if SuperPoll_active_count sp' = SuperPoll_active_count sp then t # lost w else lost w)\<rparr>)"
| step_poll: "taskrunning (sch w) = Some t \<Longrightarrow> polls w = Some sp \<Longrightarrow> poll_answer sp nfound revs \<Longrightarrow>
     adt_list (lists sp) (idle_active sp) as \<Longrightarrow> events_ok as events \<Longrightarrow>
     fdtask_poll now1 now2 (\<lambda>_. (nfound, eintr, revs)) [Some events] sp (pres w) (sch w) = Some (Inr (Some (sp', r', s1))) \<Longrightarrow>
     sys_step w (w\<lparr>sch := s1, polls := Some sp', pres := r', lost := forgotten sp revs events @ lost w\<rparr>)"
| step_nuke: "polls w = Some sp \<Longrightarrow> tasknuke i sp (sch w) = Inr (rc, sp') \<Longrightarrow>
     sys_step w (w\<lparr>polls := Some sp', taken := (case nuked i sp (sch w) of None \<Rightarrow> taken w | Some t \<Rightarrow> t # taken w)\<rparr>)"
| step_ready: "t \<in> set (taken w) \<Longrightarrow> sys_step w (w\<lparr>sch := taskready t (sch w), taken := remove1 t (taken w)\<rparr>)"

inductive reachable :: "sys \<Rightarrow> bool" where
  reach_init: "reachable sys_init"
| reach_step: "reachable w \<Longrightarrow> sys_step w w' \<Longrightarrow> reachable w'"

inductive_cases sys_stepE: "sys_step w w'"

section \<open>The invariant\<close>

definition sys_inv :: "sys \<Rightarrow> bool" where
  "sys_inv w \<longleftrightarrow> (\<exists>P. good (sch w) (P + mset (taken w)) (lost w) (inside w) (reading w) (writing w) \<and> polls_ok (polls w) (pres w) P)"

lemma sys_invI:
  "good (sch w) (P + mset (taken w)) (lost w) (inside w) (reading w) (writing w) \<Longrightarrow> polls_ok (polls w) (pres w) P \<Longrightarrow> sys_inv w"
  by (auto simp: sys_inv_def)

lemma sys_inv_init: "sys_inv sys_init"
proof -
  have "task_lists sched_init (\<lambda>_. [])" by (simp add: task_lists_def task_list_def sched_init_def)
  then have "placed sched_init (\<lambda>_. []) {#} [] (\<lambda>_. None)" by (simp add: placed_def sched_init_def)
  moreover have "table sched_init" "counts sched_init (\<lambda>_. [])" "contexts sched_init (\<lambda>_. []) {#}" "by_alarm sched_init []"
    by (simp_all add: table_def counts_def contexts_def by_alarm_def counted_def sched_init_def)
  ultimately have "base sched_init (\<lambda>_. []) {#} [] (\<lambda>_. None)" by (simp add: base_def)
  moreover have "locks_ok sched_init (\<lambda>_. []) {} {#} {}"
    by (simp add: locks_ok_def qlock_ok_def rwlock_ok_def granted_def sched_init_def)
  ultimately show ?thesis by (intro sys_invI [where P = "{#}"]) (auto simp: sys_init_def polls_ok_def intro: goodI)
qed

text \<open>Only a task that runs calls.\<close>

lemma caller:
  "tasksystem s = Inr s1 \<Longrightarrow> \<exists>t. taskrunning s = Some t" "taskstate str s = Inr s1 \<Longrightarrow> \<exists>t. taskrunning s = Some t"
  "taskname str s = Inr s1 \<Longrightarrow> \<exists>t. taskrunning s = Some t" "taskyield s = Inr s1 \<Longrightarrow> \<exists>t. taskrunning s = Some t"
  "taskexit val s = Inr s1 \<Longrightarrow> \<exists>t. taskrunning s = Some t" "taskdelay ms now s = Some (Inr s1) \<Longrightarrow> \<exists>t. taskrunning s = Some t"
  by (auto simp: tasksystem_def taskstate_def taskname_def taskyield_def taskexit_def taskdelay_def with_running_def bind_eq_Some_conv Let_def
      split: option.splits)

lemma good_state_name:
  assumes "good s P L I R W" "taskstate str s = Inr s1 \<or> taskname str s = Inr s1"
  shows "good s1 P L I R W"
  using assms good_state [OF assms(1)] by (auto simp: taskstate_def taskname_def with_running_def split: option.splits)

lemma good_rendez: "good s P L I R W \<Longrightarrow> good (s\<lparr>rendez_lock := f\<rparr>) P L I R W"
proof -
  have "locks_ok (s\<lparr>rendez_lock := f\<rparr>) A I R W = locks_ok s A I R W" for A
    by (simp add: locks_ok_def qlock_ok_def rwlock_ok_def granted_def)
  moreover have "base (s\<lparr>rendez_lock := f\<rparr>) A P L pl = base s A P L pl" for A pl
    by (simp add: base_def placed_def table_def counts_def contexts_def by_alarm_def counted_def)
  ultimately show "good s P L I R W \<Longrightarrow> good (s\<lparr>rendez_lock := f\<rparr>) P L I R W" by (simp add: good_def)
qed

lemma create_answer:
  "taskcreate (Some t) mem_ok s = Inr (i, s1) \<Longrightarrow> length (alltask s) mod TASK_LIST_GROWTH \<noteq> 0 \<or> mem_ok"
  by (auto simp: taskcreate_def taskalloc_def Let_def split: if_splits)

lemma sys_step_inv:
  assumes "sys_step w w'" "sys_inv w"
  shows "sys_inv w'"
proof -
  from assms(2) obtain P where g: "good (sch w) (P + mset (taken w)) (lost w) (inside w) (reading w) (writing w)" and p: "polls_ok (polls w) (pres w) P"
    by (auto simp: sys_inv_def)
  from assms(1) show ?thesis
  proof cases
    case (step_run s1 t k s2)
    from run_step [OF g step_run(2,3)] step_run(4-6) show ?thesis using p unfolding step_run(1) by (intro sys_invI [where P = P]) auto
  next
    case (step_create t mem_ok i s1)
    from create_step [OF g step_create(2) create_answer [OF step_create(3)]] step_create(3) p show ?thesis
      unfolding step_create(1) by (intro sys_invI [where P = P]) auto
  next
    case (step_system s1)
    from caller(1) [OF this(2)] system_step [OF g] this(2) p show ?thesis unfolding step_system(1) by (intro sys_invI [where P = P]) auto
  next
    case (step_state str s1)
    then show ?thesis using good_state_name [OF g] p by (intro sys_invI [where P = P]) auto
  next
    case (step_name str s1)
    then show ?thesis using good_state_name [OF g] p by (intro sys_invI [where P = P]) auto
  next
    case (step_yield s1)
    from caller(4) [OF this(2)] yield_step [OF g] this(2) p show ?thesis unfolding step_yield(1) by (intro sys_invI [where P = P]) auto
  next
    case (step_exit val s1)
    from caller(5) [OF this(2)] exit_step [OF g, of _ val] this(2) p show ?thesis
      unfolding step_exit(1) by (intro sys_invI [where P = P]) auto
  next
    case (step_delay ms now s1)
    from caller(6) [OF this(2)] delay_step [OF g, of _ ms now] this(2) p show ?thesis
      unfolding step_delay(1) by (intro sys_invI [where P = P]) auto
  next
    case (step_qlock t l block rc s1)
    from qlock1_step [OF g this(2), of l block] this(3) p show ?thesis unfolding step_qlock(1) by (intro sys_invI [where P = P]) auto
  next
    case (step_qunlock t l s1)
    from qunlock_step [OF g this(2,3)] this(4) p show ?thesis unfolding step_qunlock(1) by (intro sys_invI [where P = P]) auto
  next
    case (step_rlock t l block rc s1)
    from rlock1_step [OF g this(2), of l block] this(3) p show ?thesis unfolding step_rlock(1) by (intro sys_invI [where P = P]) auto
  next
    case (step_runlock t l)
    from runlock_good(1) [OF g this(3)] p show ?thesis unfolding step_runlock(1) by (intro sys_invI [where P = P]) auto
  next
    case (step_wlock t l block rc s1)
    from wlock1_step [OF g this(2), of l block] this(3) p show ?thesis unfolding step_wlock(1) by (intro sys_invI [where P = P]) auto
  next
    case (step_wunlock t l s1)
    from wunlock_good [OF g this(3)] this(4) p show ?thesis unfolding step_wunlock(1) by (intro sys_invI [where P = P]) auto
  next
    case (step_rendez r l)
    then show ?thesis using good_rendez [OF g] p by (intro sys_invI [where P = P]) auto
  next
    case (step_sleep t r s1)
    then have "(t, l) \<in> inside w" if "rendez_lock (sch w) r = Some l" for l using that by auto
    from tasksleep_step [OF g step_sleep(2), of r, OF this] step_sleep(4) p show ?thesis unfolding step_sleep(1) by (intro sys_invI [where P = P]) auto
  next
    case (step_wakeup r everyone n s1)
    from wakeup_step [OF g, of r everyone] this(2) p show ?thesis unfolding step_wakeup(1) by (intro sys_invI [where P = P]) auto
  next
    case (step_barrier t r n s1)
    then have "(t, l) \<in> inside w" if "rendez_lock (sch w) r = Some l" for l using that by auto
    from taskbarrier_step [OF g step_barrier(2), of r, OF this] step_barrier(4) p show ?thesis unfolding step_barrier(1) by (intro sys_invI [where P = P]) auto
  next
    case (step_start t maxfd dividend efd free active addrs sp mem_ok p1 s1)
    note S = step_start
    have "P = {#}" using p S(2) by (simp add: polls_ok_def)
    have d: "dividend \<noteq> 0" using S(4) by (cases "dividend = 0") auto
    from SuperPoll_create_holds [OF d S(4-9)] S(10) have
      c: "poller sp addrs []" "armed sp" "waiting sp [] = {#}" "nfd_hot sp = 1" by auto
    obtain i where i: "taskcreate (Some t) mem_ok (sch w) = Inr (i, s1)" "p1 = Some sp"
      using S(11) by (cases "taskcreate (Some t) mem_ok (sch w)") (auto simp: startfdtask_def)
    have "polls_ok (Some sp) (PollResult_init sp) {#}"
      using c by (intro polls_okI [OF c(1,2)]) (simp_all add: PollResult_init_def)
    then show ?thesis
      using create_step [OF g S(3) create_answer [OF i(1)]] i \<open>P = {#}\<close> unfolding S(1) by (intro sys_invI [where P = "{#}"]) auto
  next
    case (step_wait t sp rw fd socket ctl sp' s1)
    from wait_step [OF g this(2) p [unfolded this(3)] this(4,5), of socket ctl] this(6) obtain P' where
      "good s1 (P' + mset (taken w)) (if SuperPoll_active_count sp' = SuperPoll_active_count sp then t # lost w else lost w) (inside w) (reading w) (writing w)"
      "polls_ok (Some sp') (pres w) P'" by auto
    then show ?thesis unfolding step_wait(1) by (intro sys_invI [where P = P']) simp_all
  next
    case (step_poll t sp nfound revs as events now1 now2 eintr sp' r' s1)
    from poll_step [OF g this(2) p [unfolded this(3)] this(4-6), of now1 now2 eintr] this(7) obtain P' where
      "good s1 (P' + mset (taken w)) (forgotten sp revs events @ lost w) (inside w) (reading w) (writing w)" "polls_ok (Some sp') r' P'" by auto
    then show ?thesis unfolding step_poll(1) by (intro sys_invI [where P = P']) simp_all
  next
    case (step_nuke sp i rc sp')
    from nuke_step [OF p [unfolded this(2)], of i "sch w"] this(3) obtain P' where
      "polls_ok (Some sp') (pres w) P'" "P = (case nuked i sp (sch w) of None \<Rightarrow> P' | Some t \<Rightarrow> add_mset t P')"
      by (auto split: option.splits)
    then show ?thesis using g unfolding step_nuke(1) by (intro sys_invI [where P = P']) (auto split: option.splits)
  next
    case (step_ready t)
    from ready_step [OF g this(2)] p show ?thesis unfolding step_ready(1) by (intro sys_invI [where P = P]) simp_all
  qed
qed

lemma reachable_inv: "reachable w \<Longrightarrow> sys_inv w"
  by (induction rule: reachable.induct) (auto intro: sys_inv_init sys_step_inv)

lemma reachable_base:
  assumes "reachable w"
  obtains A P pl where "base (sch w) A (P + mset (taken w)) (lost w) pl" "locks_ok (sch w) A (inside w) (reading w) (writing w)"
    "polls_ok (polls w) (pres w) P" "placed (sch w) A (P + mset (taken w)) (lost w) pl" "task_lists (sch w) A"
proof -
  from reachable_inv [OF assms] obtain A P pl where
    b: "base (sch w) A (P + mset (taken w)) (lost w) pl" "locks_ok (sch w) A (inside w) (reading w) (writing w)" "polls_ok (polls w) (pres w) P"
    by (auto simp: sys_inv_def good_def)
  then have "placed (sch w) A (P + mset (taken w)) (lost w) pl" by (simp add: base_def)
  with b show thesis using that placedD(1) by blast
qed

end
