(* ===== verification/Costeps_Props.thy ===== *)
theory Costeps_Props
  imports Costeps
begin

text \<open>
  What holds of the coroutines in every state they reach: where each task is, who is inside which lock, what the poller
  answers, who is woken when, and which tasks never run again.
\<close>

section \<open>A first state\<close>

definition first_sched :: sched where
  "first_sched = dispatched 5 (created 5 sched_init)"

definition first_sys :: sys where
  "first_sys = sys_init\<lparr>sch := first_sched\<rparr>"

lemma first_sched_fields:
  "taskrunning first_sched = Some 5" "alltask first_sched = [5]" "lock_owner first_sched = (\<lambda>_. None)" "readers first_sched = (\<lambda>_. 0)"
  "writer first_sched = (\<lambda>_. None)" "rendez_lock first_sched = (\<lambda>_. None)" "taskcount first_sched = 1"
  by (auto simp: first_sched_def dispatched_def created_def taskalloc_def sched_init_def Let_def)

lemma first_reachable: "reachable first_sys"
proof -
  have c: "taskcreate (Some 5) True sched_init = Inr (to_int32 1, created 5 sched_init)"
    using taskcreate_eq [of sched_init True 5] by (simp add: sched_init_def)
  have "sys_step sys_init (sys_init\<lparr>sch := created 5 sched_init\<rparr>)"
    using c by (intro step_create) (simp_all add: sys_init_def sched_init_def)
  from reach_step [OF reach_init this] have r: "reachable (sys_init\<lparr>sch := created 5 sched_init\<rparr>)" .
  have "list_head Taskrunqueue (created 5 sched_init) = Some 5" "taskcount (created 5 sched_init) = 1"
    by (simp_all add: list_head_def created_def taskready_def addtask_def taskalloc_def sched_init_def Let_def)
  then have t: "taskscheduler (created 5 sched_init) = Run_task first_sched"
    by (simp add: taskscheduler_def first_sched_def dispatched_def Let_def)
  have k: "t_context first_sched 5 = Res_start" by (simp add: first_sched_def created_def taskalloc_def Let_def)
  then have "resume_task first_sched = Inr first_sched" by (simp add: resume_task_def with_running_def first_sched_fields)
  moreover have "taskrunning (created 5 sched_init) = None" by (simp add: created_def taskalloc_def sched_init_def Let_def)
  ultimately have "sys_step (sys_init\<lparr>sch := created 5 sched_init\<rparr>) first_sys"
    using step_run [of "sys_init\<lparr>sch := created 5 sched_init\<rparr>" first_sched 5 Res_start first_sched] t k
    by (simp add: first_sys_def first_sched_fields now_inside_def now_reading_def now_writing_def)
  from reach_step [OF r this] show ?thesis .
qed

text \<open>With the poller: \<open>maxfd div dividend\<close> is the size of its hot set.\<close>

lemma poller_reachable:
  assumes "0 < 16 div dividend" "16 div dividend < 16"
  shows "\<exists>sp s. reachable (first_sys\<lparr>sch := s, polls := Some sp, pres := PollResult_init sp\<rparr>) \<and> taskrunning s = Some 5 \<and>
     poller sp [200..<200 + (16 - 16 div dividend)] [] \<and> armed sp \<and> nfd_hot sp = 1 \<and> max_hot sp = 16 div dividend \<and> idle_fd sp = 3"
proof -
  have d: "dividend \<noteq> 0" using assms(1) by (cases "dividend = 0") auto
  have a: "distinct (100 # 101 # [200..<200 + (16 - 16 div dividend)])"
    "length [200..<200 + (16 - 16 div dividend)] = 16 - 16 div dividend" by simp_all
  from SuperPoll_create_holds [OF d assms, of 3 100 101 "[200..<200 + (16 - 16 div dividend)]"] a obtain sp where
    c: "SuperPoll_create 16 dividend 3 100 101 [200..<200 + (16 - 16 div dividend)] = Some (Inr (Some sp))"
      "poller sp [200..<200 + (16 - 16 div dividend)] []" "armed sp" "nfd_hot sp = 1" "max_hot sp = 16 div dividend" "idle_fd sp = 3" by auto
  have t: "taskcreate (Some 6) True first_sched = Inr (to_int32 (taskidgen first_sched + 1), created 6 first_sched)"
    by (rule taskcreate_eq) simp
  have "sys_step first_sys (first_sys\<lparr>sch := created 6 first_sched, polls := Some sp, pres := PollResult_init sp\<rparr>)"
    using c(1) a t assms
    by (intro step_start [where t = 6 and mem_ok = True and maxfd = 16 and dividend = dividend and efd = 3 and free = 100 and active = 101
          and addrs = "[200..<200 + (16 - 16 div dividend)]"])
      (simp_all add: first_sys_def sys_init_def first_sched_fields startfdtask_def)
  moreover have "taskrunning (created 6 first_sched) = Some 5"
    by (simp add: created_def taskalloc_def Let_def first_sched_fields)
  ultimately show ?thesis using reach_step [OF first_reachable] c by blast
qed

section \<open>Where the tasks are\<close>

text \<open>
  C10: in every reachable state every live task is in exactly one place: it runs, is on one of the task lists, waits in the
  poller, has been lost, or has been taken out of the poller by \<^verbatim>\<open>tasknuke\<close> and not been made ready yet; nothing else is
  anywhere.  \<^verbatim>\<open>taskcount\<close>, whose reaching 0 ends the process, counts the tasks
  that are not the system's, and one more while one of them sleeps.
\<close>

theorem tasks_in_one_place:
  assumes "reachable w"
  shows "\<exists>A P. task_lists (sch w) A \<and> polls_ok (polls w) (pres w) P \<and>
     (\<forall>t. (of_bool (t \<in> set (alltask (sch w))) :: nat) =
       of_bool (taskrunning (sch w) = Some t) + of_bool (\<exists>l. t \<in> set (A l)) + count P t + of_bool (t \<in> set (lost w)) +
       count (mset (taken w)) t) \<and>
     distinct (alltask (sch w)) \<and>
     taskcount (sch w) = counted (sch w) (alltask (sch w)) + (if counted (sch w) (A Sleeping) > 0 then 1 else 0)"
proof -
  from reachable_base [OF assms] obtain A P pl where
    b: "base (sch w) A (P + mset (taken w)) (lost w) pl" and p: "polls_ok (polls w) (pres w) P" and
    pd: "placed (sch w) A (P + mset (taken w)) (lost w) pl" by blast
  have tb: "table (sch w)" and c: "counts (sch w) A" using b by (simp_all add: base_def)
  have "(of_bool (t \<in> set (alltask (sch w))) :: nat) =
      of_bool (taskrunning (sch w) = Some t) + of_bool (\<exists>l. t \<in> set (A l)) + count P t + of_bool (t \<in> set (lost w)) +
      count (mset (taken w)) t" for t
  proof -
    have "count P t + count (mset (taken w)) t = (if pl t = Some In_poll then 1 else 0)" using placedD(5) [OF pd, of t] by simp
    then show ?thesis using placedD(2,3,7) [OF pd, of t] placedD(4) [OF pd, of t]
      by (cases "pl t"; cases "the (pl t)") (auto simp: of_bool_def)
  qed
  then show ?thesis using placedD(1) [OF pd] p tb c by (auto simp: table_def counts_def)
qed

lemma tasks_in_one_place_witness:
  "\<exists>A P. task_lists first_sched A \<and> polls_ok None (pres first_sys) P \<and> 5 \<notin> set (A Taskrunqueue) \<and> count P 5 = 0 \<and>
     (1 :: int) = counted first_sched [5] + (if counted first_sched (A Sleeping) > 0 then 1 else 0)"
proof -
  have s: "sch first_sys = first_sched" "polls first_sys = None" by (simp_all add: first_sys_def sys_init_def)
  from tasks_in_one_place [OF first_reachable] obtain A P where
    a: "task_lists first_sched A" "polls_ok None (pres first_sys) P"
      "(of_bool (5 \<in> set (alltask first_sched)) :: nat) =
        of_bool (taskrunning first_sched = Some 5) + of_bool (\<exists>l. 5 \<in> set (A l)) + count P 5 + of_bool (5 \<in> set (lost first_sys)) +
        count (mset (taken first_sys)) 5"
      "taskcount first_sched = counted first_sched (alltask first_sched) + (if counted first_sched (A Sleeping) > 0 then 1 else 0)"
    unfolding s by blast
  have "\<not> (\<exists>l. 5 \<in> set (A l))" "count P 5 = 0" using a(3) by (simp_all add: first_sched_fields)
  with a show ?thesis by (intro exI [of _ A] exI [of _ P]) (auto simp: first_sched_fields)
qed

section \<open>Locks\<close>

text \<open>
  C11: in every reachable state no two tasks are between taking and giving back the same queueing lock, and who is there is
  the lock's owner; and whether somebody is inside some lock or not, nobody waits for a lock that is free.
\<close>

theorem qlock_mutual_exclusion:
  assumes "reachable w"
  shows "((t, l) \<in> inside w \<longrightarrow> lock_owner (sch w) l = Some t \<and> (\<forall>u. (u, l) \<in> inside w \<longleftrightarrow> u = t)) \<and>
     (lock_owner (sch w) l = None \<longrightarrow> list_head (Lock_waiting l) (sch w) = None)"
proof -
  from reachable_base [OF assms(1)] obtain A where
    k: "locks_ok (sch w) A (inside w) (reading w) (writing w)" and tl: "task_lists (sch w) A" by blast
  have q: "qlock_ok (sch w) A (inside w) i" for i using k by (simp add: locks_ok_def)
  from tl have "list_head (Lock_waiting l) (sch w) = None" if "lock_owner (sch w) l = None"
    using q [of l] that by (simp add: qlock_ok_def)
  then show ?thesis using qlock_holder(1,3) [OF q, of t l] by simp
qed

lemma qlock_reachable: "reachable (first_sys\<lparr>sch := first_sched\<lparr>lock_owner := (\<lambda>_. None)(7 := Some 5)\<rparr>, inside := {(5, 7)}\<rparr>)"
proof -
  have "qlock1 7 True first_sched = Inr (1, first_sched\<lparr>lock_owner := (\<lambda>_. None)(7 := Some 5)\<rparr>)"
    by (simp add: qlock1_def with_running_def first_sched_fields)
  then have "sys_step first_sys (first_sys\<lparr>sch := first_sched\<lparr>lock_owner := (\<lambda>_. None)(7 := Some 5)\<rparr>, inside := {(5, 7)}\<rparr>)"
    using step_qlock [of first_sys 5 7 True 1 "first_sched\<lparr>lock_owner := (\<lambda>_. None)(7 := Some 5)\<rparr>"]
    by (simp add: first_sys_def sys_init_def first_sched_fields)
  from reach_step [OF first_reachable this] show ?thesis .
qed

lemma qlock_mutual_exclusion_witness:
  "lock_owner (first_sched\<lparr>lock_owner := (\<lambda>_. None)(7 := Some 5)\<rparr>) 7 = Some 5 \<and> ((6 :: nat), 7 :: nat) \<notin> {(5, 7)} \<and>
   list_head (Lock_waiting 8) (first_sched\<lparr>lock_owner := (\<lambda>_. None)(7 := Some 5)\<rparr>) = None"
  using qlock_mutual_exclusion [OF qlock_reachable, of 5 7] qlock_mutual_exclusion [OF qlock_reachable, of 5 8] by simp

text \<open>
  C12: a task that writes under a reader-writer lock is alone, readers keep writers out, and when nobody is inside nobody
  waits.
\<close>

theorem rwlock_exclusion:
  assumes "reachable w"
  shows "((t, l) \<in> writing w \<longrightarrow> (\<forall>u. (u, l) \<notin># reading w \<and> ((u, l) \<in> writing w \<longrightarrow> u = t)) \<and> readers (sch w) l = 0) \<and>
    ((t, l) \<in># reading w \<longrightarrow> 0 < readers (sch w) l \<and> writer (sch w) l = None) \<and>
    (writer (sch w) l = None \<and> readers (sch w) l = 0 \<longrightarrow>
       list_head (Write_waiting l) (sch w) = None \<and> list_head (Read_waiting l) (sch w) = None)"
proof -
  from reachable_base [OF assms(1)] obtain A where
    k: "locks_ok (sch w) A (inside w) (reading w) (writing w)" and tl: "task_lists (sch w) A" by blast
  have r: "rwlock_ok (sch w) A (reading w) (writing w) l" using k by (simp add: locks_ok_def)
  have some: "filter_mset (\<lambda>e. snd e = l) (reading w) \<noteq> {#}" if "(u, l) \<in># reading w" for u
    using that by (metis (mono_tags, lifting) count_eq_zero_iff filter_mset_eq_mempty_iff snd_conv)
  have "readers (sch w) l = 0 \<and> (\<forall>u. (u, l) \<notin># reading w) \<and> (\<forall>u. (u, l) \<in> writing w \<longrightarrow> u = t)" if "(t, l) \<in> writing w"
    using rwlock_writer(2,5,6) [OF r that] some by blast
  moreover have "0 < readers (sch w) l \<and> writer (sch w) l = None" if "(t, l) \<in># reading w"
  proof -
    have "0 < size (filter_mset (\<lambda>e. snd e = l) (reading w))" using some [OF that] unfolding nonempty_has_size .
    then show ?thesis using r unfolding rwlock_ok_def by (metis add_pos_nonneg less_irrefl of_nat_0_le_iff of_nat_0_less_iff)
  qed
  moreover have "list_head (Write_waiting l) (sch w) = None \<and> list_head (Read_waiting l) (sch w) = None"
    if "writer (sch w) l = None \<and> readers (sch w) l = 0"
    using tl r that by (auto simp: rwlock_ok_def)
  ultimately show ?thesis by blast
qed

lemma wlock_reachable: "reachable (first_sys\<lparr>sch := first_sched\<lparr>writer := (\<lambda>_. None)(7 := Some 5)\<rparr>, writing := {(5, 7)}\<rparr>)"
proof -
  have "wlock1 7 True first_sched = Inr (1, first_sched\<lparr>writer := (\<lambda>_. None)(7 := Some 5)\<rparr>)"
    by (simp add: wlock1_def with_running_def first_sched_fields)
  then have "sys_step first_sys (first_sys\<lparr>sch := first_sched\<lparr>writer := (\<lambda>_. None)(7 := Some 5)\<rparr>, writing := {(5, 7)}\<rparr>)"
    using step_wlock [of first_sys 5 7 True 1 "first_sched\<lparr>writer := (\<lambda>_. None)(7 := Some 5)\<rparr>"]
    by (simp add: first_sys_def sys_init_def first_sched_fields)
  from reach_step [OF first_reachable this] show ?thesis .
qed

lemma rwlock_exclusion_witness:
  "((6 :: nat), 7 :: nat) \<notin># reading (first_sys\<lparr>sch := first_sched\<lparr>writer := (\<lambda>_. None)(7 := Some 5)\<rparr>, writing := {(5, 7)}\<rparr>) \<and>
   list_head (Write_waiting 8) (first_sched\<lparr>writer := (\<lambda>_. None)(7 := Some 5)\<rparr>) = None"
proof -
  note r = rwlock_exclusion [OF wlock_reachable]
  from r [of 5 7] r [of 5 8] show ?thesis by (simp add: first_sched_fields)
qed

text \<open>What a running task can always call.\<close>

lemma running_calls:
  assumes "good s P L I R W" "taskrunning s = Some t"
  shows "\<exists>a. taskyield s = Inr a" "\<exists>a. taskexit val s = Inr a" "\<exists>a. taskdelay ms now s = Some (Inr a)" "\<exists>a. taskname str s = Inr a"
    "\<exists>a. taskstate str s = Inr a" "\<exists>a. tasksystem s = Inr a" "\<exists>a. qlock1 l block s = Inr a" "\<exists>a. rlock1 l block s = Inr a"
    "\<exists>a. wlock1 l block s = Inr a" "\<exists>a. wakeup_loop r everyone 0 s = Some a" "(t, l) \<in> I \<Longrightarrow> \<exists>a. qunlock l s = Inr a"
    "rendez_lock s r = None \<or> (t, the (rendez_lock s r)) \<in> I \<Longrightarrow> \<exists>a. tasksleep r s = Inr a"
    "rendez_lock s r = None \<or> (t, the (rendez_lock s r)) \<in> I \<Longrightarrow> \<exists>a. taskbarrier r s = Some (Inr a)"
proof -
  show "\<exists>a. tasksleep r s = Inr a" "\<exists>a. taskbarrier r s = Some (Inr a)"
    if "rendez_lock s r = None \<or> (t, the (rendez_lock s r)) \<in> I"
  proof -
    have "(t, k) \<in> I" if "rendez_lock s r = Some k" for k using that \<open>rendez_lock s r = None \<or> _\<close> by simp
    then show "\<exists>a. tasksleep r s = Inr a" "\<exists>a. taskbarrier r s = Some (Inr a)"
      using tasksleep_step [OF assms, of r] taskbarrier_step [OF assms, of r] by blast+
  qed
qed (use yield_step [OF assms] exit_step [OF assms, of val] delay_step [OF assms, of ms now] qlock1_step [OF assms, of l block]
      rlock1_step [OF assms, of l block] wlock1_step [OF assms, of l block] wakeup_step [OF assms(1), of r everyone]
      system_step [OF assms] qunlock_step [OF assms, of l] assms(2)
     in \<open>auto simp: taskname_def taskstate_def with_running_def\<close>)

text \<open>
  C9: no call of the running task into the library faults, and no turn of the scheduler does.  It may unlock what it holds,
  and sleep on a rendezvous without a lock or with one it holds; memory is there; waiting, polling and nuking need the poller,
  one waits for reading or writing and not on the epoll's own descriptor, and the answers of the system are the documented
  ones.  Then the \<^verbatim>\<open>abort()\<close>s of \<^verbatim>\<open>qlock.c\<close> are out of reach, nothing
  reads through null, a count of readers is not negative, and every loop ends, so that each call gets to its end or to the
  switch in it.  Whether a task that has switched away comes back is another question (see the tasks that are lost).
\<close>

theorem coroutines_never_fault:
  assumes "reachable w"
  shows "(taskrunning (sch w) = None \<and> taskscheduler (sch w) = Run_task s1 \<longrightarrow> (\<exists>s2. resume_task s1 = Inr s2)) \<and>
    (taskrunning (sch w) = Some t \<longrightarrow>
       (\<exists>a. taskyield (sch w) = Inr a) \<and> (\<exists>a. taskexit val (sch w) = Inr a) \<and> (\<exists>a. taskdelay ms now (sch w) = Some (Inr a)) \<and>
       (\<exists>a. taskname str (sch w) = Inr a) \<and> (\<exists>a. taskstate str (sch w) = Inr a) \<and> (\<exists>a. tasksystem (sch w) = Inr a) \<and>
       (u \<notin> set (alltask (sch w)) \<longrightarrow> (\<exists>a. taskcreate (Some u) True (sch w) = Inr a)) \<and>
       (\<exists>a. qlock1 l block (sch w) = Inr a) \<and> (\<exists>a. rlock1 l block (sch w) = Inr a) \<and> (\<exists>a. wlock1 l block (sch w) = Inr a) \<and>
       ((t, l) \<in> inside w \<longrightarrow> (\<exists>a. qunlock l (sch w) = Inr a)) \<and>
       ((t, l) \<in># reading w \<longrightarrow> 0 \<le> readers (runlock l (sch w)) l) \<and>
       ((t, l) \<in> writing w \<longrightarrow> (\<exists>a. wunlock l (sch w) = Some (Inr a))) \<and>
       (\<exists>a. wakeup_loop r everyone 0 (sch w) = Some a) \<and>
       (rendez_lock (sch w) r = None \<or> (t, the (rendez_lock (sch w) r)) \<in> inside w \<longrightarrow>
          (\<exists>a. tasksleep r (sch w) = Inr a) \<and> (\<exists>a. taskbarrier r (sch w) = Some (Inr a))) \<and>
       (polls w = Some sp \<longrightarrow> (\<exists>a. tasknuke i sp (sch w) = Inr a) \<and>
          ((rw = CHR ''r'' \<or> rw = CHR ''w'') \<and> fd \<noteq> idle_fd sp \<longrightarrow> (\<exists>a. task_wait socket fd rw ctl sp (sch w) = Some (Inr a))) \<and>
          (poll_answer sp nfound revs \<and> adt_list (lists sp) (idle_active sp) as \<and> events_ok as events \<longrightarrow>
             (\<exists>a. fdtask_poll now now2 (\<lambda>_. (nfound, eintr, revs)) [Some events] sp (pres w) (sch w) = Some (Inr (Some a))))))"
proof -
  from reachable_inv [OF assms] obtain P where
    g: "good (sch w) (P + mset (taken w)) (lost w) (inside w) (reading w) (writing w)" and p: "polls_ok (polls w) (pres w) P"
    by (auto simp: sys_inv_def)
  have f1: "\<exists>s2. resume_task s1 = Inr s2" if "taskrunning (sch w) = None" "taskscheduler (sch w) = Run_task s1"
    using run_step [OF g that] by blast
  have f2: "0 \<le> readers (runlock l (sch w)) l" if "(t, l) \<in># reading w"
    using runlock_good(1) [OF g that] by (auto simp: good_def locks_ok_def rwlock_ok_def)
  have f3: "\<exists>a. wunlock l (sch w) = Some (Inr a)" if "(t, l) \<in> writing w"
    using wunlock_good [OF g that] by blast
  have f4: "\<exists>a. taskcreate (Some u) True (sch w) = Inr a" if "u \<notin> set (alltask (sch w))"
    using create_step [OF g that, of True] by auto
  have f5: "\<exists>a. tasknuke i sp (sch w) = Inr a" if "polls w = Some sp"
    using nuke_step [OF p [unfolded that], of i "sch w"] by blast
  have f6: "\<exists>a. task_wait socket fd rw ctl sp (sch w) = Some (Inr a)"
    if "taskrunning (sch w) = Some t" "polls w = Some sp" "rw = CHR ''r'' \<or> rw = CHR ''w''" "fd \<noteq> idle_fd sp"
    using wait_step [OF g that(1) p [unfolded that(2)] that(3,4), of socket ctl] by blast
  have f7: "\<exists>a. fdtask_poll now now2 (\<lambda>_. (nfound, eintr, revs)) [Some events] sp (pres w) (sch w) = Some (Inr (Some a))"
    if "taskrunning (sch w) = Some t" "polls w = Some sp" "poll_answer sp nfound revs" "adt_list (lists sp) (idle_active sp) as" "events_ok as events"
    using poll_step [OF g that(1) p [unfolded that(2)] that(3-5), of now now2 eintr] by blast
  note calls = running_calls [OF g]
  show ?thesis
    by (intro conjI impI; (elim conjE)?; (rule f1 f2 f3 f4 f5 f6 f7 calls; assumption))
qed

lemma coroutines_never_fault_witness:
  "(\<exists>a. qunlock 7 (first_sched\<lparr>lock_owner := (\<lambda>_. None)(7 := Some 5)\<rparr>) = Inr a) \<and>
   (\<exists>a. taskdelay 20 1000 (first_sched\<lparr>lock_owner := (\<lambda>_. None)(7 := Some 5)\<rparr>) = Some (Inr a))"
  using coroutines_never_fault [OF qlock_reachable, where t = 5 and l = 7 and ms = 20 and now = 1000]
  by (simp add: first_sched_fields)

section \<open>The poller\<close>

lemma lost_grows: "sys_step w w' \<Longrightarrow> set (lost w) \<subseteq> set (lost w')"
  by (auto elim!: sys_stepE split: option.splits)

text \<open>
  C18: a task that has left without being registered, or that the poller has taken out without answering it, never runs
  again, whatever happens, and stays in the table of all tasks: \<^verbatim>\<open>taskready\<close> is called from outside the library only for
  what \<^verbatim>\<open>tasknuke\<close> has just taken out of the poller, and it is not there.
\<close>

theorem lost_tasks_never_run:
  assumes "reachable w" "t \<in> set (lost w)" "sys_step\<^sup>*\<^sup>* w w'"
  shows "taskrunning (sch w') \<noteq> Some t \<and> t \<in> set (alltask (sch w')) \<and> t \<in> set (lost w')"
proof -
  have "reachable w' \<and> t \<in> set (lost w')"
    using assms(3,1,2) by (induction rule: rtranclp_induct) (use lost_grows in \<open>auto intro: reach_step\<close>)
  then have r: "reachable w'" and l: "t \<in> set (lost w')" by simp_all
  from reachable_base [OF r] obtain A P pl where p: "placed (sch w') A P (lost w') pl" by metis
  from placedD(7) [OF p, of t] l have "pl t = Some Lost" by simp
  then show ?thesis using placedD(2,3) [OF p, of t] l by auto
qed

text \<open>The hot set is full and the poller has no slot for the task, which waits for a ZeroMQ socket, or finds no idle slot.\<close>

lemma task_wait_full:
  assumes "taskrunning s = Some t" "\<not> exiting s t" "\<not> nfd_hot sp < max_hot sp" "socket \<noteq> None \<or> list_isempty (lists sp) (idle_free sp)"
  shows "task_wait socket fd rw ctl sp s = Some (Inr (sp, left_waiting (wait_name socket fd rw) False t s))"
  using assms SuperPoll_add_poll_full [OF assms(3)]
  by (auto simp: task_wait_def SuperPoll_add_def SuperPoll_add_idle_def taskstate_def taskswitch_def with_running_def
      task_switched_def left_waiting_def)

lemma reachable_running:
  assumes "reachable w" "taskrunning (sch w) = Some t"
  shows "\<not> exiting (sch w) t"
  by (rule reachable_base [OF assms(1)]) (erule base_running(1) [OF _ assms(2)])

lemma full_reachable:
  "\<exists>w sp. reachable w \<and> polls w = Some sp \<and> taskrunning (sch w) = Some 5 \<and> \<not> nfd_hot sp < max_hot sp \<and> idle_fd sp = 3"
proof -
  obtain sp s where w: "reachable (first_sys\<lparr>sch := s, polls := Some sp, pres := PollResult_init sp\<rparr>)" "taskrunning s = Some 5"
    "nfd_hot sp = 1" "max_hot sp = 1" "idle_fd sp = 3" using poller_reachable [of 16] by auto
  then show ?thesis
    by (intro exI [of _ "first_sys\<lparr>sch := s, polls := Some sp, pres := PollResult_init sp\<rparr>"] exI [of _ sp]) simp
qed

lemma lost_reachable: "\<exists>w. reachable w \<and> 5 \<in> set (lost w)"
proof -
  obtain w sp where w: "reachable w" "polls w = Some sp" "taskrunning (sch w) = Some 5" "\<not> nfd_hot sp < max_hot sp" "idle_fd sp = 3"
    using full_reachable by blast
  from task_wait_full [OF w(3) reachable_running [OF w(1,3)] w(4), of "Some 9" "-1" "CHR ''r''" Ctl_added]
  have "sys_step w (w\<lparr>sch := left_waiting (wait_name (Some 9) (-1) CHR ''r'') False 5 (sch w), polls := Some sp, lost := 5 # lost w\<rparr>)"
    using step_wait [of w 5 sp "CHR ''r''" "-1" "Some 9" Ctl_added sp] w by simp
  from reach_step [OF w(1) this] show ?thesis
    by (intro exI [of _ "w\<lparr>sch := left_waiting (wait_name (Some 9) (-1) CHR ''r'') False 5 (sch w), polls := Some sp, lost := 5 # lost w\<rparr>"]) simp
qed

lemma lost_tasks_never_run_witness: "\<exists>w. reachable w \<and> taskrunning (sch w) \<noteq> Some 5 \<and> 5 \<in> set (alltask (sch w))"
proof -
  obtain w where "reachable w" "5 \<in> set (lost w)" using lost_reachable by blast
  with lost_tasks_never_run [OF this rtranclp.rtrancl_refl] show ?thesis by blast
qed

text \<open>
  C17: a task that waits for a ZeroMQ socket when the hot set is full, or for a descriptor when the idle set is full too,
  is not registered and yet leaves the processor: \<^verbatim>\<open>_wait\<close> never gets to its \<^verbatim>\<open>return -1\<close>, and the task is lost.
\<close>

theorem wait_on_full_poller_loses_task:
  assumes "reachable w" "taskrunning (sch w) = Some t" "polls w = Some sp" "\<not> nfd_hot sp < max_hot sp"
    "socket \<noteq> None \<or> list_isempty (lists sp) (idle_free sp)" "rw = CHR ''r'' \<or> rw = CHR ''w''" "fd \<noteq> idle_fd sp"
  shows "\<exists>s1. task_wait socket fd rw ctl sp (sch w) = Some (Inr (sp, s1)) \<and> t_context s1 t = Res_wait False \<and>
     reachable (w\<lparr>sch := s1, lost := t # lost w\<rparr>) \<and> (\<forall>A. task_lists s1 A \<longrightarrow> (\<forall>l. t \<notin> set (A l)))"
proof -
  let ?s = "left_waiting (wait_name socket fd rw) False t (sch w)"
  note e = task_wait_full [OF assms(2) reachable_running [OF assms(1,2)] assms(4,5), of fd rw ctl]
  have "sys_step w (w\<lparr>sch := ?s, polls := Some sp, lost := t # lost w\<rparr>)"
    using step_wait [OF assms(2,3,6,7) e] by simp
  moreover have "w\<lparr>sch := ?s, polls := Some sp, lost := t # lost w\<rparr> = w\<lparr>sch := ?s, lost := t # lost w\<rparr>"
    using assms(3) by simp
  ultimately have r: "reachable (w\<lparr>sch := ?s, lost := t # lost w\<rparr>)" using reach_step [OF assms(1)] by metis
  obtain A P pl where "placed (sch (w\<lparr>sch := ?s, lost := t # lost w\<rparr>)) A P (lost (w\<lparr>sch := ?s, lost := t # lost w\<rparr>)) pl"
    using reachable_base [OF r] by metis
  then have p: "placed ?s A P (t # lost w) pl" by simp
  have off: "t \<notin> set (A l)" for l using placedD(4,7) [OF p, of t] by auto
  have "t \<notin> set (B l)" if "task_lists ?s B" for B l
    using task_lists_unique [OF that placedD(1) [OF p]] off by simp
  then show ?thesis using e r by (intro exI [of _ ?s]) (simp add: left_waiting_def)
qed

lemma wait_on_full_poller_loses_task_witness:
  "\<exists>w sp s1. reachable w \<and> task_wait (Some 9) (-1) CHR ''r'' Ctl_added sp (sch w) = Some (Inr (sp, s1)) \<and> t_context s1 5 = Res_wait False"
proof -
  obtain w sp where w: "reachable w" "polls w = Some sp" "taskrunning (sch w) = Some 5" "\<not> nfd_hot sp < max_hot sp" "idle_fd sp = 3"
    using full_reachable by blast
  have "(Some 9 :: nat option) \<noteq> None \<or> list_isempty (lists sp) (idle_free sp)" "CHR ''r'' = CHR ''r'' \<or> CHR ''r'' = CHR ''w''"
    "- 1 \<noteq> idle_fd sp" using w(5) by simp_all
  from wait_on_full_poller_loses_task [OF w(1,3,2,4) this, of Ctl_added] w(1) show ?thesis by blast
qed

text \<open>
  C13: in every reachable state a call of \<^verbatim>\<open>SuperPoll_poll\<close> answers exactly the tasks whose entries are ready: those of the
  hot set that \<^verbatim>\<open>zmq_poll\<close> reports, and, when the epoll's descriptor is among them, those of the idle events; every other
  task goes on waiting, except those of idle events that are neither readable nor writable (\<open>dropped_tasks\<close>), which are taken
  out unanswered.
\<close>

theorem SuperPoll_poll_exact:
  assumes "reachable w" "polls w = Some sp" "adt_list (lists sp) (idle_active sp) as" "poll_answer sp nfound revs" "events_ok as events"
  shows "\<exists>sp' r' ts as'. SuperPoll_poll sp (pres w) (nfound, eintr, revs) [Some events] = Some (Inr (int (length ts), sp', r')) \<and>
     map snd (hits r') = map Some ts \<and>
     mset ts = hot_hits sp revs + (if epoll_ready sp revs then tasks_of (hit_tasks sp 0 events) else {#}) \<and>
     adt_list (lists sp') (idle_active sp') as' \<and>
     waiting sp as = waiting sp' as' + mset ts + (if epoll_ready sp revs then mset (map the (dropped_tasks sp 0 events)) else {#})"
proof -
  from reachable_base [OF assms(1)] assms(2) obtain P where "polls_ok (Some sp) (pres w) P" by metis
  from SuperPoll_poll_polls [OF this assms(4,3,5), of eintr] show ?thesis by (fastforce simp: forgotten_def)
qed

lemma waiting_reachable:
  "\<exists>w sp. reachable w \<and> polls w = Some sp \<and> adt_list (lists sp) (idle_active sp) [] \<and> nfd_hot sp = 2 \<and> hot_hits sp [0, 1] = {#5#} \<and>
     \<not> epoll_ready sp [0, 1]"
proof -
  obtain sp s where w: "reachable (first_sys\<lparr>sch := s, polls := Some sp, pres := PollResult_init sp\<rparr>)" "taskrunning s = Some 5"
    "poller sp [200..<200 + (16 - 4)] []" "armed sp" "nfd_hot sp = 1" "max_hot sp = 4" "idle_fd sp = 3" using poller_reachable [of 4] by auto
  obtain q where q: "filter (\<lambda>e. p_fd (fst e) = idle_fd sp) (hot sp) = [(q, None)]" using w(4) by (auto simp: armed_def)
  have "length (hot sp) = 1" using w(3,5) by simp
  with q have hq: "hot sp = [(q, None)]" by (auto simp: length_Suc_conv split: if_splits)
  have lt: "nfd_hot sp < max_hot sp" "CHR ''r'' = CHR ''r'' \<or> CHR ''r'' = CHR ''w''" using w(5,6) by simp_all
  from SuperPoll_add_poll_holds [OF w(3) lt, of "Some 5" None 8] obtain sp' p where
    a: "SuperPoll_add_poll sp (Some 5) None 8 CHR ''r'' = Inr (int (nfd_hot sp) + 1, sp')" "poller sp' [200..<200 + (16 - 4)] []"
      "hot sp' = hot sp @ [(p, Some 5)]" "p_fd p = 8"
      "sp' = sp\<lparr>pollfd := pollfd sp', hot_data := hot_data sp', nfd_hot := nfd_hot sp + 1\<rparr>" by blast
  have f: "nfd_hot sp' = 2" "idle_fd sp' = 3" using w(5,7) by (subst a(5), simp)+
  let ?s = "left_waiting (wait_name None 8 CHR ''r'') True 5 s"
  have "\<not> exiting s 5" using reachable_running [OF w(1)] w(2) by simp
  then have t: "task_wait None 8 CHR ''r'' Ctl_added sp s = Some (Inr (sp', ?s))"
    using a(1) w(2,5,6)
    by (simp add: task_wait_def SuperPoll_add_def taskstate_def taskswitch_def with_running_def task_switched_def left_waiting_def)
  let ?w = "first_sys\<lparr>sch := s, polls := Some sp, pres := PollResult_init sp\<rparr>"
  have "\<exists>w'. sys_step ?w w' \<and> polls w' = Some sp'"
    using step_wait [of ?w 5 sp "CHR ''r''" 8 None Ctl_added sp' ?s] t w(2,7) by (intro exI conjI) (assumption | simp)+
  then obtain w' where "reachable w'" "polls w' = Some sp'" using reach_step [OF w(1)] by blast
  moreover have "hot_hits sp' [0, 1] = {#5#}" "\<not> epoll_ready sp' [0, 1]"
    unfolding hot_hits_def epoll_ready_def a(3) hq f(2) using a(4) by simp_all
  moreover have "adt_list (lists sp') (idle_active sp') []" by (rule pollerD(1) [OF a(2)])
  ultimately show ?thesis using f(1) by blast
qed

lemma SuperPoll_poll_exact_witness:
  "\<exists>w sp sp' r'. reachable w \<and> SuperPoll_poll sp (pres w) (1, False, [0, 1]) [Some []] = Some (Inr (1, sp', r')) \<and>
     map snd (hits r') = [Some 5]"
proof -
  obtain w sp where w: "reachable w" "polls w = Some sp" "adt_list (lists sp) (idle_active sp) []" "nfd_hot sp = 2"
    "hot_hits sp [0, 1] = {#5#}" "\<not> epoll_ready sp [0, 1]" using waiting_reachable by blast
  have "poll_answer sp 1 [0, 1]" "events_ok [] []" using w(4) by (simp_all add: poll_answer_def events_ok_def)
  from SuperPoll_poll_exact [OF w(1-3) this, of False, unfolded w(5) if_not_P [OF w(6)] add_0_right] obtain sp' r' ts where
    "SuperPoll_poll sp (pres w) (1, False, [0, 1]) [Some []] = Some (Inr (int (length ts), sp', r'))" "map snd (hits r') = map Some ts"
    "mset ts = {#5#}" by blast
  then have "SuperPoll_poll sp (pres w) (1, False, [0, 1]) [Some []] = Some (Inr (1, sp', r'))" "map snd (hits r') = [Some 5]" by auto
  then show ?thesis using w(1) by (intro exI conjI)
qed

text \<open>
  \<^verbatim>\<open>taskwaiting\<close> answers the number of tasks that wait in the poller, none of them twice.
\<close>

theorem taskwaiting_counts:
  assumes "reachable w" "polls w = Some sp" "adt_list (lists sp) (idle_active sp) as"
  shows "taskwaiting sp = int (size (waiting sp as)) \<and> (\<forall>t. count (waiting sp as) t \<le> 1)"
proof -
  from reachable_base [OF assms(1)] assms(2) obtain A P pl where
    pd: "placed (sch w) A (P + mset (taken w)) (lost w) pl" and p: "polls_ok (Some sp) (pres w) P" by metis
  from p obtain fs as1 where q: "poller sp fs as1" "P = waiting sp as1" "size P + 1 = nfd_hot sp + length as1"
    by (auto simp: polls_ok_def)
  have "as1 = as" by (rule adt_list_unique [OF pollerD(1) [OF q(1)] assms(3)])
  note q = q [unfolded this]
  have "count P t \<le> 1" for t using placedD(5) [OF pd, of t] by (simp split: if_splits)
  then show ?thesis using q pollerD(3) [OF q(1)] by (auto simp: taskwaiting_def)
qed

lemma taskwaiting_counts_witness: "\<exists>w sp. reachable w \<and> polls w = Some sp \<and> taskwaiting sp = 1 \<and> size (waiting sp []) = 1"
proof -
  obtain w sp where w: "reachable w" "polls w = Some sp" "adt_list (lists sp) (idle_active sp) []" "nfd_hot sp = 2"
    using waiting_reachable by blast
  have "taskwaiting sp = 1" using w(3,4) by (simp add: taskwaiting_def SuperPoll_active_count_def list_count_def adt_list_def)
  with taskwaiting_counts [OF w(1-3)] w(1,2) show ?thesis by auto
qed

section \<open>Sleeping\<close>

text \<open>
  C14: in every reachable state the sleepers are in the order of their alarms; a task that goes to sleep takes its place
  behind all with an earlier alarm and in front of all others; and \<^verbatim>\<open>wake_sleepers\<close> makes ready, in that order and
  behind those that are ready, exactly the tasks whose alarm is not later than the clock.
\<close>

theorem sleepers_woken_when_due:
  assumes "reachable w" "taskrunning (sch w) = Some t"
  shows "\<exists>A. task_lists (sch w) A \<and> sorted (map (alarmtime (sch w)) (A Sleeping)) \<and>
     (\<exists>s1. taskdelay ms now (sch w) = Some (Inr s1) \<and> alarmtime s1 t = now + ucast ms * 1000000 \<and>
       task_lists s1 (A(Sleeping := filter (\<lambda>u. alarmtime (sch w) u < now + ucast ms * 1000000) (A Sleeping) @ t #
         filter (\<lambda>u. \<not> alarmtime (sch w) u < now + ucast ms * 1000000) (A Sleeping)))) \<and>
     (\<exists>s2. wake_sleepers now (sch w) = Some s2 \<and>
       task_lists s2 (A(Sleeping := filter (\<lambda>u. \<not> alarmtime (sch w) u \<le> now) (A Sleeping),
         Taskrunqueue := A Taskrunqueue @ filter (\<lambda>u. alarmtime (sch w) u \<le> now) (A Sleeping))))"
proof -
  from reachable_base [OF assms(1)] obtain A P pl where
    b: "base (sch w) A (P + mset (taken w)) (lost w) pl" and tl: "task_lists (sch w) A" by blast
  have a: "by_alarm (sch w) (A Sleeping)" and c: "sleepingcounted (sch w) = counted (sch w) (A Sleeping)"
    using b by (simp_all add: base_def counts_def)
  note r = base_running [OF b assms(2)]
  from taskdelay_inserts [OF tl assms(2) r(2,1), of ms now] obtain s1 where
    d: "taskdelay ms now (sch w) = Some (Inr s1)"
      "task_lists s1 (A(Sleeping := earlier (sch w) (now + ucast ms * 1000000) (A Sleeping) @ t # later (sch w) (now + ucast ms * 1000000) (A Sleeping)))"
      "s1 = (count_sleeper t (sch w))\<lparr>t_next := t_next s1, t_prev := t_prev s1, tlists := tlists s1,
        alarmtime := (alarmtime (sch w))(t := now + ucast ms * 1000000), t_context := (t_context (sch w))(t := Res_delay now), taskrunning := None\<rparr>"
    by blast
  have "alarmtime s1 t = now + ucast ms * 1000000" by (subst d(3)) simp
  moreover obtain s2 where w2: "wake_sleepers now (sch w) = Some s2"
    "task_lists s2 (A(Sleeping := not_due (sch w) now (A Sleeping), Taskrunqueue := A Taskrunqueue @ due (sch w) now (A Sleeping)))"
    using wake_sleepers_wakes [OF tl c, of now] by blast
  ultimately show ?thesis
    using tl a d(1) d(2) [unfolded by_alarm_split [OF a]] w2(1) w2(2) [unfolded by_alarm_due [OF a]] by (auto simp: by_alarm_def)
qed

lemma sleepers_woken_when_due_witness:
  "\<exists>A s1. task_lists first_sched A \<and> taskdelay 20 1000 first_sched = Some (Inr s1) \<and> alarmtime s1 5 = 20001000"
proof -
  have r: "taskrunning (sch first_sys) = Some 5" "sch first_sys = first_sched" by (simp_all add: first_sys_def first_sched_fields)
  from sleepers_woken_when_due [OF first_reachable r(1), of 20 1000] show ?thesis unfolding r(2) by fastforce
qed

text \<open>
  The poller never waits without limit and never less than its granularity: with no sleeper it waits \<open>mn\<close>
  milliseconds (the -1 that stands for no limit is rounded to 0 and replaced), and with a sleeper it waits a multiple of
  \<open>mn\<close> that is not past the alarm, or \<open>mn\<close> when the alarm is nearer than that.
\<close>

theorem poll_timeout_bounds:
  assumes "1 < mn"
  shows "(list_head Sleeping s = None \<longrightarrow> next_task_sleeptime mn now s = mn) \<and>
    (list_head Sleeping s = Some t \<and> ms_left now s t < 2 ^ 31 \<longrightarrow>
       mn \<le> next_task_sleeptime mn now s \<and> mn dvd next_task_sleeptime mn now s \<and>
       next_task_sleeptime mn now s \<le> max mn (ms_left now s t) \<and> ms_left now s t - next_task_sleeptime mn now s < mn)"
proof -
  let ?m = "ms_left now s t" and ?n = "next_task_sleeptime mn now s"
  have "mn \<le> ?n \<and> mn dvd ?n \<and> ?n \<le> max mn ?m \<and> ?m - ?n < mn" if "list_head Sleeping s = Some t" "?m < 2 ^ 31"
  proof -
    have e: "?n = (if ?m < mn then mn else mn * (?m div mn))"
      using next_task_sleeptime_some [OF _ that] assms by (simp add: minus_mod_eq_mult_div)
    show ?thesis
    proof (cases "?m < mn")
      case False
      then have "1 \<le> ?m div mn" using assms by (simp add: pos_imp_zdiv_pos_iff int_one_le_iff_zero_less)
      then have "mn * 1 \<le> mn * (?m div mn)" using assms by (intro mult_left_mono) simp_all
      moreover have "?m = mn * (?m div mn) + ?m mod mn" "0 \<le> ?m mod mn" "?m mod mn < mn" using assms by simp_all
      ultimately show ?thesis using e False by (simp, linarith)
    qed (use e assms in simp)
  qed
  then show ?thesis using next_task_sleeptime_none [OF assms] by blast
qed

lemma poll_timeout_bounds_witness: "next_task_sleeptime 500 1000 sched_init = 500"
proof -
  have "list_head Sleeping sched_init = None" by (simp add: list_head_def sched_init_def)
  with poll_timeout_bounds [of 500 sched_init 1000] show ?thesis by simp
qed

section \<open>The linked lists\<close>

text \<open>
  Appending a node that is in no list and deleting it again refines appending to and deleting from a sequence: the
  list is intact after each, \<^verbatim>\<open>list_verify\<close> accepts it, what is not in it is untouched, and the node is free again.
\<close>

theorem list_append_delete:
  assumes "adt_list h l xs" "free_node h n" "length xs < list_maxcount h l" "length xs + 1 < 2 ^ 64"
  shows "\<exists>h1 h2. list_append l n h = Some (Inr h1) \<and> adt_list h1 l (xs @ [n]) \<and> list_verify h1 l = Some (Inr True) \<and>
     adt_frame h h1 l (insert n (set xs)) \<and> list_del_last l h1 = Some (Inr (n, h2)) \<and> adt_list h2 l xs \<and> free_node h2 n"
proof -
  from list_append_holds [OF assms] obtain h1 where
    a: "list_append l n h = Some (Inr h1)" "adt_list h1 l (xs @ [n])" "adt_frame h h1 l (insert n (set xs))" by blast
  from list_del_last_holds [OF a(2)] obtain h2 where
    "list_del_last l h1 = Some (Inr (n, h2))" "adt_list h2 l xs" "free_node h2 n" by auto
  with a list_verify_holds [OF a(2)] show ?thesis by blast
qed

lemma list_append_delete_witness:
  "\<exists>h0 h1 h2 :: nat list_store. list_append 1 2 h0 = Some (Inr h1) \<and> list_verify h1 1 = Some (Inr True) \<and> list_del_last 1 h1 = Some (Inr (2, h2))"
proof -
  let ?h = "\<lparr>l_next = (\<lambda>_. None), l_prev = (\<lambda>_. None), l_data = (\<lambda>_. 0), list_nodecount = (\<lambda>_. 0), list_maxcount = (\<lambda>_. 0)\<rparr> :: nat list_store"
  let ?h0 = "?h\<lparr>l_next := (\<lambda>_. None)(1 := Some 1), l_prev := (\<lambda>_. None)(1 := Some 1), list_nodecount := (\<lambda>_. 0)(1 := 0), list_maxcount := (\<lambda>_. 0)(1 := 4)\<rparr>"
  have "adt_list ?h0 1 []" "free_node ?h0 2" "length ([] :: nat list) < list_maxcount ?h0 1" "length ([] :: nat list) + 1 < 2 ^ 64"
    by (simp_all add: adt_list_def free_node_def)
  from list_append_delete [OF this] show ?thesis by blast
qed

end
