(* ===== verification/Stopping.thy ===== *)
theory Stopping
  imports Costeps_Props Config
begin

text \<open>
  Stopping a handler, seen from the coroutines: \<^verbatim>\<open>shutdown_handler\<close> of \<^verbatim>\<open>config.c\<close> is a step of \<^verbatim>\<open>tasknuke\<close> and, when
  that has found the task, a step of \<^verbatim>\<open>taskready\<close>.  Tasks are told apart by their identities, which is right until the
  counter of identities has wrapped.
\<close>

lemma nuked_waits:
  assumes "reachable w" "polls w = Some sp" "nuked i sp (sch w) = Some t"
  shows "t \<in> set (alltask (sch w)) \<and> t_id (sch w) t = i"
proof -
  from reachable_base [OF assms(1)] obtain A P pl where
    p: "placed (sch w) A (P + mset (taken w)) (lost w) pl" "polls_ok (polls w) (pres w) P" by metis
  from nuke_step [OF p(2) [unfolded assms(2)], of i "sch w"] assms(3) obtain P' where
    "t_id (sch w) t = i" "P = add_mset t P'" by auto
  moreover from this have "t \<in># P + mset (taken w)" by simp
  then have "t \<in> set (alltask (sch w))" using placedD(2,6) [OF p(1), of t] by simp
  ultimately show ?thesis by simp
qed

text \<open>
  It never faults on a handler whose task lives, the task is ready behind it when it waited in the hot set, and the state is
  one the coroutines reach.
\<close>

theorem shutdown_handler_steps:
  assumes "reachable w" "polls w = Some sp" "running h \<noteq> 0" "h_task h = Some t" "t \<in> set (alltask (sch w))"
    "inj_on (t_id (sch w)) (set (alltask (sch w)))"
  shows "\<exists>sp' s' w'. shutdown_handler h (Inr (sp, sch w)) = Inr (sp', s') \<and> reachable w' \<and> sch w' = s' \<and> polls w' = Some sp' \<and>
    (nuked (t_id (sch w) t) sp (sch w) \<noteq> None \<longrightarrow> (\<forall>A. task_lists s' A \<longrightarrow> t \<in> set (A Taskrunqueue)))"
proof -
  from reachable_base [OF assms(1)] obtain A P pl where p: "polls_ok (polls w) (pres w) P" by metis
  from nuke_step [OF p [unfolded assms(2)], of "t_id (sch w) t" "sch w"] obtain rc sp' where
    n: "tasknuke (t_id (sch w) t) sp (sch w) = Inr (rc, sp')" "nuked (t_id (sch w) t) sp (sch w) = None \<longleftrightarrow> rc \<noteq> 0"
    by (auto split: option.splits)
  let ?w1 = "w\<lparr>polls := Some sp', taken := (case nuked (t_id (sch w) t) sp (sch w) of None \<Rightarrow> taken w | Some u \<Rightarrow> u # taken w)\<rparr>"
  have r1: "reachable ?w1" using reach_step [OF assms(1) step_nuke [OF assms(2) n(1)]] .
  show ?thesis
  proof (cases "nuked (t_id (sch w) t) sp (sch w)")
    case None
    then have "shutdown_handler h (Inr (sp, sch w)) = Inr (sp', sch w)" using n assms(3,4) by (simp add: shutdown_handler_def)
    then show ?thesis using r1 None by (intro exI [of _ sp'] exI [of _ "sch w"] exI [of _ ?w1]) simp
  next
    case (Some u)
    from nuked_waits [OF assms(1,2) Some] assms(5,6) have u: "u = t" by (auto dest: inj_onD)
    let ?w2 = "?w1\<lparr>sch := taskready t (sch ?w1), taken := remove1 t (taken ?w1)\<rparr>"
    have "t \<in> set (taken ?w1)" using Some u by simp
    then have r2: "reachable ?w2" using reach_step [OF r1 step_ready] by blast
    have e: "shutdown_handler h (Inr (sp, sch w)) = Inr (sp', taskready t (sch w))"
      using n Some assms(3,4) by (simp add: shutdown_handler_def)
    from reachable_base [OF r1] obtain B Q ql where b: "placed (sch ?w1) B (Q + mset (taken ?w1)) (lost ?w1) ql" by metis
    have "t \<in># Q + mset (taken ?w1)" using Some u by simp
    then have off: "t \<notin> set (B l)" for l using placedD(4,6) [OF b, of t] by auto
    have "task_lists (taskready t (sch w)) (B(Taskrunqueue := B Taskrunqueue @ [t]))"
      using taskready_lists [of "sch w" B t] placedD(1) [OF b] off by simp
    then have "t \<in> set (C Taskrunqueue)" if "task_lists (taskready t (sch w)) C" for C
      using task_lists_unique [OF that] by (metis fun_upd_same in_set_conv_decomp)
    then show ?thesis using e r2 by (intro exI [of _ sp'] exI [of _ "taskready t (sch w)"] exI [of _ ?w2]) simp
  qed
qed

end
