(* ===== verification/Lifecycle.thy ===== *)
theory Lifecycle
  imports Prelude
begin

text \<open>
  \<^verbatim>\<open>mongrel2.c\<close> and the accept loop of \<^verbatim>\<open>server.c\<close>: signals, the loop that starts and reloads the server, and the shutdown.
  The state is the three flags, the listening descriptor, the log of what is closed and accepted, and from which of the
  configurations, numbered in the order they are read, the tables that \<^verbatim>\<open>config.c\<close> fills come (\<open>Config\<close> says what is in
  them).  What the system answers is a script; a signal can come wherever the code waits: for a connection, in the delay of
  \<^verbatim>\<open>Config_stop_handlers\<close>, and in the delays of the shutdown.  The server has its default host: without it
  \<^verbatim>\<open>Server_start\<close> only ends the process.
\<close>

section \<open>Signals\<close>

datatype signal = SIGHUP | SIGINT | SIGTERM

record daemon =
  RUNNING :: bool
  RELOAD :: bool
  MURDER :: bool
  listen_fd :: int
  closed_fds :: "int list"
  accepted_fds :: "int list"
  backends_of :: "nat option"
  mimes_of :: "nat option"
  settings_of :: "nat option"

text \<open>The macro \<^verbatim>\<open>fdclose\<close>.\<close>

definition fdclose :: "int \<Rightarrow> daemon \<Rightarrow> daemon" where
  "fdclose fd d = (if fd \<ge> 0 then d\<lparr>closed_fds := closed_fds d @ [fd]\<rparr> else d)"

definition terminate :: "signal \<Rightarrow> daemon \<Rightarrow> daemon" where
  "terminate s d0 =
     (let d = d0\<lparr>MURDER := (s = SIGTERM)\<rparr> in
      case s of
        SIGHUP \<Rightarrow> d\<lparr>RELOAD := True, RUNNING := False\<rparr>
      | _ \<Rightarrow> if \<not> RUNNING d then d\<lparr>MURDER := True\<rparr> else fdclose (listen_fd d) (d\<lparr>RUNNING := False\<rparr>))"

section \<open>Loading\<close>

text \<open>
  How loading goes.  The database cannot be opened; there is no such server, or it has been made and its hosts cannot be
  read; the MIME types cannot be read, or the settings; or all can, and then what \<^verbatim>\<open>netannounce\<close> or \<^verbatim>\<open>dup\<close> answers and
  whether \<^verbatim>\<open>fdnoblock\<close> succeeds.
\<close>

datatype loading = No_db | No_server bool | No_mimes | No_settings | Loads int bool

text \<open>
  The result is whether there is a server; its descriptor is 0 until it has one, and is closed when it is destroyed.  A table
  that could not be read to its end holds what came before.
\<close>

definition load_server :: "int \<Rightarrow> nat \<Rightarrow> loading \<Rightarrow> daemon \<Rightarrow> bool \<times> daemon" where
  "load_server reuse_fd n how d =
     (case how of
        No_db \<Rightarrow> (False, d)
      | No_server made \<Rightarrow> (False, let d = d\<lparr>backends_of := Some n\<rparr> in if made then fdclose 0 d else d)
      | No_mimes \<Rightarrow> (False, fdclose 0 (d\<lparr>backends_of := Some n, mimes_of := Some n\<rparr>))
      | No_settings \<Rightarrow> (False, fdclose 0 (d\<lparr>backends_of := Some n, mimes_of := Some n, settings_of := Some n\<rparr>))
      | Loads fd noblock \<Rightarrow>
          let d = d\<lparr>backends_of := Some n, mimes_of := Some n, settings_of := Some n\<rparr> in
          if reuse_fd = -1
          then (if fd < 0 \<or> \<not> noblock then (False, fdclose fd d) else (True, d\<lparr>listen_fd := fd\<rparr>))
          else (if fd = -1 then (False, d) else (True, fdclose reuse_fd (d\<lparr>listen_fd := fd\<rparr>))))"

text \<open>The old tables are destroyed before the new ones are read; \<open>sigs\<close> come while the handlers are stopped.\<close>

definition reload_server :: "nat \<Rightarrow> signal list \<Rightarrow> loading \<Rightarrow> daemon \<Rightarrow> bool \<times> daemon" where
  "reload_server n sigs how d =
     (let d = fold terminate sigs (d\<lparr>RUNNING := True, mimes_of := None\<rparr>);
          (ok, d) = load_server (listen_fd d) n how (d\<lparr>backends_of := None, settings_of := None\<rparr>) in
      if ok then (True, d\<lparr>RELOAD := False\<rparr>) else (False, d))"

section \<open>Running\<close>

text \<open>
  Each entry is a call of \<^verbatim>\<open>netaccept\<close>: the signals that come meanwhile and the descriptor it answers.  \<open>None\<close>: the script
  is at its end and the server still waits.
\<close>

fun accept_loop :: "(signal list \<times> int) list \<Rightarrow> daemon \<Rightarrow> daemon option" where
  "accept_loop es d =
     (if \<not> RUNNING d then Some d
      else case es of
        [] \<Rightarrow> None
      | (sigs, cfd) # es \<Rightarrow>
          let d = fold terminate sigs d in
          if cfd \<ge> 0 then accept_loop es (d\<lparr>accepted_fds := accepted_fds d @ [cfd]\<rparr>) else Some d)"

declare accept_loop.simps [simp del]

text \<open>
  \<^verbatim>\<open>complete_shutdown\<close>: each entry of the script is what \<^verbatim>\<open>taskwaiting\<close> answers and the signals during the delay.  The
  result is whether the loop has ended; behind it the server is destroyed, which closes its descriptor.
\<close>

fun shutdown_loop :: "(int \<times> signal list) list \<Rightarrow> daemon \<Rightarrow> bool \<times> daemon" where
  "shutdown_loop [] d = (False, d)"
| "shutdown_loop ((left, sigs) # ws) d =
     (if left > 1 \<and> \<not> MURDER d then shutdown_loop ws (fold terminate sigs d) else (True, d))"

definition complete_shutdown :: "signal list \<Rightarrow> (int \<times> signal list) list \<Rightarrow> daemon \<Rightarrow> int option \<times> daemon" where
  "complete_shutdown sigs ws d =
     (let d = fold terminate sigs (fdclose (listen_fd d) d);
          (done, d) = shutdown_loop ws (d\<lparr>backends_of := None\<rparr>) in
      if done then (Some 0, (fdclose (listen_fd d) (d\<lparr>mimes_of := None\<rparr>))\<lparr>settings_of := None\<rparr>) else (None, d))"

text \<open>
  The loop of \<^verbatim>\<open>taskmain\<close>: for each round the calls of \<^verbatim>\<open>netaccept\<close>, the signals that come while a reload stops the
  handlers, and how the reload would go.  \<open>n\<close> numbers the configurations, \<open>sigs\<close> and \<open>ws\<close> are for the shutdown.  The result is
  the exit value, or \<open>None\<close> while the server runs.
\<close>

fun taskmain_loop ::
    "nat \<Rightarrow> ((signal list \<times> int) list \<times> signal list \<times> loading) list \<Rightarrow> signal list \<Rightarrow> (int \<times> signal list) list \<Rightarrow> daemon \<Rightarrow>
     int option \<times> daemon" where
  "taskmain_loop n [] sigs ws d = (None, d)"
| "taskmain_loop n ((es, rsigs, how) # rs) sigs ws d =
     (case accept_loop es d of
        None \<Rightarrow> (None, d)
      | Some d \<Rightarrow>
          if RELOAD d
          then (let (ok, d) = reload_server n rsigs how d in if ok then taskmain_loop (n + 1) rs sigs ws d else (Some 1, d))
          else complete_shutdown sigs ws d)"

section \<open>What signals do\<close>

lemma fdclose_keeps [simp]:
  "RUNNING (fdclose fd d) = RUNNING d" "RELOAD (fdclose fd d) = RELOAD d" "MURDER (fdclose fd d) = MURDER d"
  "listen_fd (fdclose fd d) = listen_fd d" "accepted_fds (fdclose fd d) = accepted_fds d" "backends_of (fdclose fd d) = backends_of d"
  "mimes_of (fdclose fd d) = mimes_of d" "settings_of (fdclose fd d) = settings_of d"
  by (simp_all add: fdclose_def)

lemma terminate_stops [simp]: "\<not> RUNNING (terminate s d)"
  by (cases s) (simp_all add: terminate_def Let_def)

lemma signals_stop: "RUNNING (fold terminate sigs d) \<longleftrightarrow> RUNNING d \<and> sigs = []"
proof (induction sigs arbitrary: d)
  case (Cons s sigs)
  then show ?case by simp
qed simp

text \<open>After the first signal only the flags change.\<close>

lemma signals_later:
  "\<not> RUNNING d \<Longrightarrow> closed_fds (fold terminate sigs d) = closed_fds d \<and> listen_fd (fold terminate sigs d) = listen_fd d \<and>
     (RELOAD (fold terminate sigs d) \<longleftrightarrow> RELOAD d \<or> SIGHUP \<in> set sigs)"
proof (induction sigs arbitrary: d)
  case (Cons s sigs)
  have "\<not> RUNNING (terminate s d)" by simp
  moreover have "closed_fds (terminate s d) = closed_fds d" "listen_fd (terminate s d) = listen_fd d"
    "RELOAD (terminate s d) \<longleftrightarrow> RELOAD d \<or> s = SIGHUP"
    using Cons.prems by (cases s; simp add: terminate_def Let_def)+
  ultimately show ?case using Cons.IH [of "terminate s d"] by auto
qed simp

text \<open>\<^verbatim>\<open>MURDER\<close> is decided by the last signal: another interrupt or termination sets it, and a hang-up clears it again.\<close>

lemma murder_last: "\<not> RUNNING d \<Longrightarrow> MURDER (terminate s d) \<longleftrightarrow> s \<noteq> SIGHUP"
  by (cases s) (simp_all add: terminate_def)

definition murdered :: "bool \<Rightarrow> signal list \<Rightarrow> bool" where
  "murdered m sigs \<longleftrightarrow> (if sigs = [] then m else last sigs \<noteq> SIGHUP)"

lemma murdered_append: "murdered m (sigs @ sigs') = murdered (murdered m sigs) sigs'"
  by (simp add: murdered_def)

lemma signals_murder: "\<not> RUNNING d \<Longrightarrow> MURDER (fold terminate sigs d) = murdered (MURDER d) sigs"
proof (induction sigs arbitrary: d)
  case (Cons s sigs)
  have "MURDER (fold terminate (s # sigs) d) = murdered (s \<noteq> SIGHUP) sigs"
    using Cons.IH [of "terminate s d"] murder_last [OF Cons.prems, of s] by simp
  then show ?case by (simp add: murdered_def)
qed (simp add: murdered_def)

text \<open>The shutdown ends exactly when at most one task waits, or the last signal is one that murders.\<close>

lemma shutdown_loop_ends:
  "\<not> RUNNING d \<Longrightarrow> fst (shutdown_loop ws d) \<longleftrightarrow>
     (\<exists>i<length ws. fst (ws ! i) \<le> 1 \<or> murdered (MURDER d) (concat (map snd (take i ws))))"
proof (induction ws d rule: shutdown_loop.induct)
  case (2 left sigs ws d)
  let ?due = "\<lambda>m ws. \<exists>i<length ws. fst (ws ! i) \<le> 1 \<or> murdered m (concat (map snd (take i ws)))"
  have m: "?due (MURDER d) ((left, sigs) # ws) \<longleftrightarrow> left \<le> 1 \<or> MURDER d \<or> ?due (murdered (MURDER d) sigs) ws"
    by (simp add: Ex_less_Suc2 murdered_append) (simp add: murdered_def)
  show ?case
  proof (cases "left > 1 \<and> \<not> MURDER d")
    case True
    have "\<not> RUNNING (fold terminate sigs d)" using signals_stop [of sigs d] 2(2) by simp
    from 2(1) [OF True this] show ?thesis using True m signals_murder [OF 2(2), of sigs] by simp
  next
    case False
    then show ?thesis using m by auto
  qed
qed simp

lemma shutdown_loop_keeps:
  "\<not> RUNNING d \<Longrightarrow> shutdown_loop ws d = (e, d') \<Longrightarrow> closed_fds d' = closed_fds d \<and> listen_fd d' = listen_fd d"
proof (induction ws d rule: shutdown_loop.induct)
  case (2 left sigs ws d)
  show ?case
  proof (cases "left > 1 \<and> \<not> MURDER d")
    case True
    then have "shutdown_loop ws (fold terminate sigs d) = (e, d')" using 2(3) by simp
    moreover have "\<not> RUNNING (fold terminate sigs d)" using signals_stop [of sigs d] 2(2) by simp
    ultimately show ?thesis using 2(1) [OF True] signals_later [OF 2(2), of sigs] by simp
  qed (use 2 in auto)
qed simp

lemma terminate_accepts: "accepted_fds (fold terminate sigs d) = accepted_fds d \<and> backends_of (fold terminate sigs d) = backends_of d"
proof (induction sigs arbitrary: d)
  case (Cons s sigs)
  have "accepted_fds (terminate s d) = accepted_fds d" "backends_of (terminate s d) = backends_of d" by (cases s; simp add: terminate_def Let_def)+
  then show ?case using Cons by simp
qed simp

lemma shutdown_loop_accepts: "shutdown_loop ws d = (e, d') \<Longrightarrow> accepted_fds d' = accepted_fds d \<and> backends_of d' = backends_of d"
  by (induction ws d rule: shutdown_loop.induct) (auto simp: terminate_accepts split: if_splits)

section \<open>Properties\<close>

text \<open>
  C19: a server that is told to stop, by an interrupt or a termination while it waits for a connection, ends with the value
  0, all its tables gone, as soon as no task but one waits or the last signal is one that murders (a termination, or any but a
  hang-up when it is stopping already), and goes on waiting as long as neither holds.  When it has ended it has closed its
  listening descriptor three times: in the signal handler, at the beginning of the shutdown and at its end.
\<close>

theorem interrupt_shuts_down:
  assumes "RUNNING d" "\<not> RELOAD d" "0 \<le> listen_fd d" "s \<noteq> SIGHUP" "taskmain_loop n (([([s], cfd)], rsigs, how) # rs) sigs ws d = (r, d')"
  shows "r = (if \<exists>i<length ws. fst (ws ! i) \<le> 1 \<or> murdered (s = SIGTERM) (sigs @ concat (map snd (take i ws))) then Some 0 else None) \<and>
     (r = Some 0 \<longrightarrow> closed_fds d' = closed_fds d @ [listen_fd d, listen_fd d, listen_fd d] \<and>
        backends_of d' = None \<and> mimes_of d' = None \<and> settings_of d' = None) \<and>
     accepted_fds d' = accepted_fds d @ (if cfd \<ge> 0 then [cfd] else [])"
proof -
  let ?d = "d\<lparr>MURDER := s = SIGTERM, RUNNING := False, closed_fds := closed_fds d @ [listen_fd d],
    accepted_fds := accepted_fds d @ (if cfd \<ge> 0 then [cfd] else [])\<rparr>"
  have "terminate s d = d\<lparr>MURDER := s = SIGTERM, RUNNING := False, closed_fds := closed_fds d @ [listen_fd d]\<rparr>"
    using assms(1,3,4) by (cases s) (simp_all add: terminate_def fdclose_def)
  then have "accept_loop [([s], cfd)] d = Some ?d"
    using assms(1) by (subst accept_loop.simps) (simp add: accept_loop.simps [of "[]"])
  moreover have "\<not> RELOAD ?d" using assms(2) by simp
  ultimately have c: "complete_shutdown sigs ws ?d = (r, d')" using assms(5) by simp
  let ?e = "fold terminate sigs (fdclose (listen_fd ?d) ?d)"
  let ?f = "?e\<lparr>backends_of := None\<rparr>"
  obtain b e where l: "shutdown_loop ws ?f = (b, e)" by fastforce
  have nf: "\<not> RUNNING (fdclose (listen_fd ?d) ?d)" by simp
  have ne: "\<not> RUNNING ?f" using signals_stop [of sigs "fdclose (listen_fd ?d) ?d"] by simp
  have m: "MURDER ?f = murdered (s = SIGTERM) sigs" using signals_murder [OF nf, of sigs] by simp
  have b: "b \<longleftrightarrow> (\<exists>i<length ws. fst (ws ! i) \<le> 1 \<or> murdered (s = SIGTERM) (sigs @ concat (map snd (take i ws))))"
    using shutdown_loop_ends [OF ne, of ws] unfolding l m murdered_append by simp
  have "closed_fds e = closed_fds ?d @ [listen_fd d]" "listen_fd e = listen_fd d" "backends_of e = None"
    using shutdown_loop_keeps [OF ne l] shutdown_loop_accepts [OF l] signals_later [OF nf, of sigs] assms(3) by (simp_all add: fdclose_def)
  moreover have "accepted_fds e = accepted_fds ?d"
    using shutdown_loop_accepts [OF l] terminate_accepts [of sigs "fdclose (listen_fd ?d) ?d"] by simp
  moreover have "r = (if b then Some 0 else None)"
    "d' = (if b then (fdclose (listen_fd e) (e\<lparr>mimes_of := None\<rparr>))\<lparr>settings_of := None\<rparr> else e)"
    using c l by (auto simp: complete_shutdown_def Let_def split: if_splits)
  ultimately show ?thesis using b assms(3) by (auto simp: fdclose_def)
qed

lemma interrupt_shuts_down_witness:
  "fst (taskmain_loop 1 [([([SIGINT], -1)], [], No_db)] [] [(3, []), (1, [])]
     \<lparr>RUNNING = True, RELOAD = False, MURDER = False, listen_fd = 4, closed_fds = [], accepted_fds = [], backends_of = Some 0,
       mimes_of = Some 0, settings_of = Some 0\<rparr>) = Some 0 \<and>
   fst (taskmain_loop 1 [([([SIGINT], -1)], [], No_db)] [] [(3, []), (3, [SIGHUP])]
     \<lparr>RUNNING = True, RELOAD = False, MURDER = False, listen_fd = 4, closed_fds = [], accepted_fds = [], backends_of = Some 0,
       mimes_of = Some 0, settings_of = Some 0\<rparr>) = None"
proof -
  let ?d = "\<lparr>RUNNING = True, RELOAD = False, MURDER = False, listen_fd = 4, closed_fds = [], accepted_fds = [], backends_of = Some 0,
       mimes_of = Some 0, settings_of = Some 0\<rparr> :: daemon"
  have "RUNNING ?d" "\<not> RELOAD ?d" "0 \<le> listen_fd ?d" "SIGINT \<noteq> SIGHUP" by simp_all
  note w = interrupt_shuts_down [OF this prod.collapse [symmetric]]
  from w [of 1 "-1" "[]" No_db "[]" "[]" "[(3, []), (1, [])]"] w [of 1 "-1" "[]" No_db "[]" "[]" "[(3, []), (3, [SIGHUP])]"]
  show ?thesis by (simp add: Ex_less_Suc2 murdered_def)
qed



end
