(* ===== verification/Spec2Isabelle.thy ===== *)
theory Spec2Isabelle
  imports Tst Pattern Bstr Setting Routing State Register Cache Dict Request Response Dir DirSafe Wire Serve
    Proxy HandlerParser Base64 Handler Connection Config
    Http11 Http11_Props Http11_Grammar Http11_Server Client11 Client11_Props
    Control Linked Task Locks Sleep AdtList Poller Fdtask Coroutines Mutex Cosystem Copoll Costeps Costeps_Props
    Stopping Lifecycle
begin

text \<open>
  Mongrel2, a language-agnostic web server: a verification library for the C program under
  \<^verbatim>\<open>src/src\<close>.

  \<^bold>\<open>The program.\<close>  The server reads its settings, MIME types, handlers, proxies, directories, hosts
  and routes from a database (\<^verbatim>\<open>config/config.c\<close>).  Every accepted connection is a
  coroutine (\<^verbatim>\<open>connection.c\<close>) that runs a generated state machine (\<^verbatim>\<open>state.c\<close>) over a table of
  actions: read and parse a header (\<^verbatim>\<open>request.c\<close> around a generated parser), find the host and
  the backend (\<^verbatim>\<open>server.c\<close>, \<^verbatim>\<open>host.c\<close>, \<^verbatim>\<open>routing.c\<close> over the ternary search tree of
  \<^verbatim>\<open>adt/tst.c\<close> and the patterns of \<^verbatim>\<open>pattern.c\<close>), then serve a file (\<^verbatim>\<open>dir.c\<close> with the
  cache of \<^verbatim>\<open>cache.c\<close>), stream through a proxy (\<^verbatim>\<open>proxy.c\<close>), or hand a message to a
  handler over ZeroMQ (\<^verbatim>\<open>handler.c\<close>).  What handlers send back names connections by the identities of
  \<^verbatim>\<open>register.c\<close>; it is parsed by \<^verbatim>\<open>handler_parser.c\<close> and written to their sockets.  The coroutines are
  scheduled by \<^verbatim>\<open>task/\<close>; those that wait for a descriptor are kept by \<^verbatim>\<open>superpoll.c\<close>, and one of them,
  \<^verbatim>\<open>fdtask\<close>, polls for all.

  \<^bold>\<open>Conventions.\<close>  Definitions keep the names of the C functions; a helper stands for a
  loop or a block of one.  Structures are records, the program's statics are records passed through.  A
  fallible operation has type \<open>'a cres\<close>: \<open>Inl\<close> is a fault of the process (a failed assertion, a null
  pointer, an access out of bounds), \<open>Inr\<close> carries the C result with the state behind it;
  an error code such as -1 is an ordinary result.  Integers are \<open>int\<close> with \<open>to_int32\<close> where the
  code narrows, words where the width matters (the register).  Allocation that can fail is a flag or
  a predicate on its size.  A loop that need not end is a \<open>partial_function\<close> in \<open>option\<close>, and \<open>None\<close> is
  not returning; loops over a peer's script recurse on the script.

  \<^bold>\<open>Theories.\<close>
  \<^item> \<open>Prelude\<close>: faults and their monad, characters as C compares them, longest prefixes, integers, lists.
  \<^item> \<open>Tst\<close>: \<^verbatim>\<open>adt/tst.c\<close>.  The order invariant, insertion and exact search (locale \<open>string_table\<close>,
    interpreted on the tree), prefix and suffix search against a reference, the ring-buffer traversal.
  \<^item> \<open>Pattern\<close>: \<^verbatim>\<open>pattern.c\<close>, the backtracking matcher, equal to a declarative reading of patterns.
  \<^item> \<open>Bstr\<close>, \<open>Base64\<close>: the parts of \<^verbatim>\<open>bstr/bstrlib.c\<close> and \<^verbatim>\<open>bstr/bstraux.c\<close> that the server calls.
  \<^item> \<open>Setting\<close>: \<^verbatim>\<open>setting.c\<close>, \<^verbatim>\<open>mime.c\<close>.
  \<^item> \<open>Routing\<close>: \<^verbatim>\<open>routing.c\<close>, \<^verbatim>\<open>host.c\<close>, and the tables of \<^verbatim>\<open>server.c\<close>.
  \<^item> \<open>State\<close>: \<^verbatim>\<open>state.c\<close> label by label, the machine of \<^verbatim>\<open>state_machine.rl\<close> as a table and as an
    inductive relation, the refinement between them, and the loop of \<^verbatim>\<open>Connection_task\<close> over the contract
    of its actions (locale \<open>connection_actions\<close>).
  \<^item> \<open>Register\<close>: \<^verbatim>\<open>register.c\<close> at its 16-bit width.
  \<^item> \<open>Cache\<close>: \<^verbatim>\<open>cache.c\<close>, least-recently-used replacement as a refinement.
  \<^item> \<open>Dict\<close>: insertion, lookup and iteration of the red-black tree of \<^verbatim>\<open>adt/dict.c\<close>.
  \<^item> \<open>Request\<close>, \<open>Response\<close>: \<^verbatim>\<open>request.c\<close>, \<^verbatim>\<open>headers.c\<close>, \<^verbatim>\<open>response.c\<close>: the parser's callbacks, header
    lookup, and the message for handlers, which can be read back.
  \<^item> \<open>Dir\<close>, \<open>Serve\<close>, \<open>DirSafe\<close>: \<^verbatim>\<open>dir.c\<close>.  Records live at addresses in a store; \<open>DirSafe\<close> states the
    cache as an interface (locale \<open>object_cache\<close>), interpreted on \<open>Cache\<close>, and proves over every
    interleaving of requests that the user counts are exact and paths start with the base.
  \<^item> \<open>Wire\<close>: sockets, the connection record, plain and TLS sending and receiving.  \<open>Sample_World\<close>: concrete
    instances for witnesses.
  \<^item> \<open>Proxy\<close>, \<open>HandlerParser\<close>, \<open>Handler\<close>: \<^verbatim>\<open>proxy.c\<close>, \<^verbatim>\<open>handler_parser.c\<close>, \<^verbatim>\<open>handler.c\<close>.
  \<^item> \<open>Connection\<close>: \<^verbatim>\<open>connection.c\<close>, every action, their table, and its interpretation as the actions of the
    machine.
  \<^item> \<open>Config\<close>: \<^verbatim>\<open>config/config.c\<close> and \<^verbatim>\<open>config/db.c\<close>; queries keep what their callbacks keep (locale
    \<open>row_callback\<close>), so that loaded routes are well typed.
  \<^item> \<open>Http11\<close>, \<open>Client11\<close>: the parsers Ragel generated, \<^verbatim>\<open>http11/http11_parser.c\<close> and
    \<^verbatim>\<open>http11/httpclient_parser.c\<close>, label by label.  \<open>Http11_Grammar\<close>: requests written by the grammar are parsed back.
    \<open>Http11_Props\<close>, \<open>Http11_Server\<close>, \<open>Client11_Props\<close>: packets do not matter, nothing is read out of bounds, and what the
    connection and the proxy do when their parser is this one.
  \<^item> \<open>Control\<close>: \<^verbatim>\<open>control.c\<close>, the generated machine of the control port, equal to a grammar of its commands.
  \<^item> \<open>Lifecycle\<close>: \<^verbatim>\<open>mongrel2.c\<close> and the accept loop of \<^verbatim>\<open>server.c\<close>: signals, reloading, shutdown.
  \<^item> \<open>Linked\<close>: doubly linked lists over functions.  \<open>Task\<close>: \<^verbatim>\<open>task/task.c\<close>; all task lists go through two fields, and
    their contract is the locale \<open>task_queues\<close>.  \<open>Locks\<close>: \<^verbatim>\<open>task/qlock.c\<close>, \<^verbatim>\<open>task/rendez.c\<close>.  \<open>Sleep\<close>, \<open>Fdtask\<close>:
    \<^verbatim>\<open>task/fd.c\<close>.  \<open>AdtList\<close>: \<^verbatim>\<open>adt/list.c\<close>.  \<open>Poller\<close>: \<^verbatim>\<open>superpoll.c\<close>.
  \<^item> \<open>Coroutines\<close>: the state of all coroutines, its invariant, and each move of a task from one place to another.
    \<open>Mutex\<close>: the invariant of the locks.  \<open>Cosystem\<close>, \<open>Copoll\<close>: each operation keeps it.  \<open>Costeps\<close>: the transition system
    \<open>sys_step\<close>, whose rules are the operations themselves, and \<open>reachable\<close>.  \<open>Costeps_Props\<close>: what holds in every reachable state.
    \<open>Stopping\<close>: stopping a handler, as \<^verbatim>\<open>config.c\<close> does, is two of these steps.

  \<^bold>\<open>Parameters.\<close>  Sockets, ZeroMQ, TLS, the file system, the clock, and SQLite's rows
  are arguments: functions, or scripts of what each call answers.  \<open>Connection\<close> and \<open>Proxy\<close> are over the interfaces of the
  two HTTP parsers, which \<open>Http11.http11_ops\<close> and \<open>Client11.client11_ops\<close> instantiate; these interfaces have no result for
  a parser that faults, and the instances answer an error there, a case the bounds proved of both parsers exclude.  Theorems hold for all of
  them; where one needs a documented property it is a hypothesis (\<open>realpath_cstr\<close>: \<^verbatim>\<open>realpath\<close> answers
  C strings), with a witness on a concrete instance.  An action of a connection runs without being
  interleaved with other coroutines; interleavings are modelled where state is shared across
  requests (\<open>DirSafe.dir_reach\<close>, \<open>Register.history\<close>).  A switched-out task is the point where it goes on (\<open>Task.resume\<close>); in
  \<open>Costeps\<close> tasks do anything between two calls of the task library, as long as only a lock's holder gives it back, and
  \<^verbatim>\<open>zmq_poll\<close>, \<^verbatim>\<open>epoll_wait\<close>, the clock and fresh addresses are free within their documentation (\<open>poll_answer\<close>,
  \<open>events_ok\<close>: only descriptors that are registered are reported, each once; the poll is not interrupted, and a descriptor
  that is registered can be taken out).  \<^verbatim>\<open>taskready\<close> is called from outside the library as \<^verbatim>\<open>config.c\<close> does, for a task that
  \<^verbatim>\<open>tasknuke\<close> has just taken out of the poller.  Assertions count as faults, as \<^verbatim>\<open>make dev\<close>
  builds them; \<^verbatim>\<open>make release\<close> leaves them out.

  \<^bold>\<open>What the theorems show.\<close>  Functional correctness of the searches, the matcher, routing, settings, the
  cache, the dictionary, message encoding and decoding and delivery; invariants over all reachable states of
  the register, the file records and the connection's life; memory bounds of header reading and of the
  handler parser; that a proxied response is streamed to its end; typing of routes from
  the database to the connection's actions.  The request parser reads back every request the grammar writes, in whatever
  packets it comes; the control port does what its grammar says.  Of the coroutines: each is in exactly one place, locks
  exclude, no call faults, the poller answers exactly what is ready, sleepers wake in order.  Of the process: when it stops,
  and what a reload leaves.  Several theorems prove that the code fails:
  bodies that arrive in part with their header are lost, a backend that closes early makes the proxy
  spin, a handler can end the server, identities are taken over after the counter wraps, the base of a
  directory is compared inside a name, a path that ends inside a longer route has no route, a hang-up during a reload stops
  the server, and a task that waits when the poller is full never runs again.

  \<^bold>\<open>Not modelled.\<close>  Machine contexts and stacks, \<^verbatim>\<open>task/net.c\<close> and \<^verbatim>\<open>task/print.c\<close>, the memory pools
  of \<^verbatim>\<open>mem/\<close> (values are owned once, frees are records of what is released), the deletion and bulk loading of the
  dictionary and the pools, bulk transfer and sorting of the linked lists (unused), process set-up (\<^verbatim>\<open>unixy.c\<close>), the bundled
  cryptography and TLS, and the tools.
\<close>

end
